(* ===== verification/Cxx_Prelude.thy ===== *)
theory Cxx_Prelude
  imports Main "HOL-Library.Word"
begin

text \<open>
  Shared ground of the development: the machine integer types of the C++ code, the ways a
  C++ operation can fail as values of a sum type, the loops over a result, and the lemmas on
  bits and lists that several components use.
\<close>

unbundle bit_operations_syntax

section \<open>Machine integers\<close>

type_synonym u8 = "8 word"
type_synonym u16 = "16 word"
type_synonym u32 = "32 word"
type_synonym u64 = "64 word"

named_theorems bit_at "reading one bit of a word the way the code does"

lemma and_one_eq_bit [bit_at]: "drop_bit n w AND (1 :: 'a::len word) = of_bool (bit w n)"
  by (simp add: and_one_eq bit_iff_odd_drop_bit mod_2_eq_odd)

lemma unat_and_one [bit_at]: "unat (drop_bit n w AND (1 :: 'a::len word)) = of_bool (bit w n)"
  by (simp add: and_one_eq_bit)

lemma and_single_bit_eq_0 [bit_at]:
  fixes w :: "'a::len word"
  assumes "n < LENGTH('a)"
  shows "push_bit n 1 AND w = 0 \<longleftrightarrow> \<not> bit w n"
proof
  assume "push_bit n 1 AND w = 0"
  then have "\<not> bit (push_bit n 1 AND w) n" by simp
  with assms show "\<not> bit w n" by (simp add: bit_simps)
next
  assume "\<not> bit w n"
  then show "push_bit n 1 AND w = 0"
    by (intro bit_word_eqI) (auto simp: bit_simps)
qed

lemma and_not_eq_iff:
  fixes v w m :: "'a::len word"
  shows "v AND NOT m = w AND NOT m \<longleftrightarrow> (\<forall>n < LENGTH('a). \<not> bit m n \<longrightarrow> bit v n = bit w n)"
  by (auto simp: bit_eq_iff bit_simps)

lemma word_eq_iff_bits:
  fixes v w :: "'a::len word"
  shows "v = w \<longleftrightarrow> (\<forall>n < LENGTH('a). bit v n = bit w n)"
  by (auto simp: bit_eq_iff bit_simps)

lemma bit_single [bit_at]:
  "bit (push_bit n (1 :: 'a::len word)) k \<longleftrightarrow> k = n \<and> n < LENGTH('a)"
  by (auto simp: bit_simps)

lemma bit_power_two [bit_at]:
  "bit ((2 :: 'a::len word) ^ n) k \<longleftrightarrow> k = n \<and> n < LENGTH('a)"
  by (auto simp: bit_simps)

lemma unat_of_nat_small:
  "n < 2 ^ 64 \<Longrightarrow> unat (of_nat n :: u64) = n"
  "n < 2 ^ 32 \<Longrightarrow> unat (of_nat n :: u32) = n"
  "n < 2 ^ 8 \<Longrightarrow> unat (of_nat n :: u8) = n"
  by (simp_all add: unat_of_nat take_bit_nat_eq_self)

section \<open>Failures as values\<close>

text \<open>
  \<open>UB_Shift\<close> is a shift by a negative amount or by at least the width of its left operand,
  \<open>UB_Null\<close> the use of a null pointer, \<open>UB_Deref_End\<close> the use of an end iterator,
  \<open>UB_Index\<close> an unchecked index outside its array, \<open>UB_Overflow\<close> a signed sum out of range, \<open>Div_Zero\<close> an integer division by zero;
  \<open>Invalid_Argument\<close>, \<open>Out_Of_Range\<close>, \<open>Length_Error\<close> and \<open>Bad_Alloc\<close> are the exceptions of
  the standard library.
\<close>

datatype cxx_error =
  UB_Shift | UB_Null | UB_Deref_End | UB_Index | UB_Overflow | Div_Zero | Invalid_Argument | Out_Of_Range | Length_Error | Bad_Alloc

type_synonym 'a cxx = "cxx_error + 'a"

definition rbind :: "'a cxx \<Rightarrow> ('a \<Rightarrow> 'b cxx) \<Rightarrow> 'b cxx" where
  "rbind m f = (case m of Inl e \<Rightarrow> Inl e | Inr x \<Rightarrow> f x)"

named_theorems result_simps "computing with results"

lemma rbind_simps [simp, result_simps]:
  "rbind (Inl e) f = Inl e"
  "rbind (Inr x) f = f x"
  by (simp_all add: rbind_def)

lemma rbind_eq_Inr [result_simps]: "rbind m f = Inr y \<longleftrightarrow> (\<exists>x. m = Inr x \<and> f x = Inr y)"
  by (cases m) auto

fun rfold :: "('a \<Rightarrow> 's \<Rightarrow> 's cxx) \<Rightarrow> 'a list \<Rightarrow> 's \<Rightarrow> 's cxx" where
  "rfold f [] s = Inr s"
| "rfold f (x # xs) s = rbind (f x s) (rfold f xs)"

lemma rfold_append: "rfold f (xs @ ys) s = rbind (rfold f xs s) (rfold f ys)"
proof (induction xs arbitrary: s)
  case Nil
  show ?case by simp
next
  case (Cons x xs)
  show ?case by (cases "f x s") (simp_all add: Cons.IH)
qed

text \<open>A property of the state that every successful iteration keeps holds at the end.\<close>

lemma rfold_invariant:
  assumes "rfold f xs s = Inr s'" and "P s"
    and "\<And>x s s'. x \<in> set xs \<Longrightarrow> P s \<Longrightarrow> f x s = Inr s' \<Longrightarrow> P s'"
  shows "P s'"
  using assms
proof (induction xs arbitrary: s)
  case Nil
  then show ?case by simp
next
  case (Cons x xs)
  from Cons.prems(1) obtain s1 where s1: "f x s = Inr s1" "rfold f xs s1 = Inr s'"
    by (auto simp: rbind_eq_Inr)
  from Cons.prems(2,3) s1(1) have "P s1" by (meson list.set_intros(1))
  show ?case by (rule Cons.IH [OF s1(2) \<open>P s1\<close>]) (use Cons.prems(3) in auto)
qed

fun rmap :: "('a \<Rightarrow> 'b cxx) \<Rightarrow> 'a list \<Rightarrow> 'b list cxx" where
  "rmap f [] = Inr []"
| "rmap f (x # xs) = rbind (f x) (\<lambda>y. rbind (rmap f xs) (\<lambda>ys. Inr (y # ys)))"

lemma rmap_Inr_map: "(\<And>x. x \<in> set xs \<Longrightarrow> f x = Inr (g x)) \<Longrightarrow> rmap f xs = Inr (map g xs)"
  by (induction xs) auto

section \<open>The type \<open>int\<close>\<close>

text \<open>
  \<open>i + 1\<close> for a counter \<open>int i\<close> that is not negative, and the conversion of a \<open>uint64_t\<close> to \<open>int\<close>, which keeps
  the low 32 bits and reads them as a signed number.
\<close>

definition int_succ :: "nat \<Rightarrow> nat cxx" where
  "int_succ i = (if i + 1 < 2 ^ 31 then Inr (i + 1) else Inl UB_Overflow)"

definition to_int :: "u64 \<Rightarrow> int" where
  "to_int x = sint (ucast x :: u32)"

lemma int_succ_eq_Inr: "int_succ i = Inr j \<longleftrightarrow> j = i + 1 \<and> i + 1 < 2 ^ 31"
  by (auto simp: int_succ_def)

section \<open>Shifts of the language\<close>

definition shl64 :: "u64 \<Rightarrow> nat \<Rightarrow> u64 cxx" where
  "shl64 x n = (if n < 64 then Inr (push_bit n x) else Inl UB_Shift)"

definition shr64 :: "u64 \<Rightarrow> nat \<Rightarrow> u64 cxx" where
  "shr64 x n = (if n < 64 then Inr (drop_bit n x) else Inl UB_Shift)"

lemma shift_simps [simp, result_simps]:
  "n < 64 \<Longrightarrow> shl64 x n = Inr (push_bit n x)"
  "\<not> n < 64 \<Longrightarrow> shl64 x n = Inl UB_Shift"
  "n < 64 \<Longrightarrow> shr64 x n = Inr (drop_bit n x)"
  "\<not> n < 64 \<Longrightarrow> shr64 x n = Inl UB_Shift"
  by (simp_all add: shl64_def shr64_def)

definition shl32 :: "u32 \<Rightarrow> nat \<Rightarrow> u32 cxx" where
  "shl32 x n = (if n < 32 then Inr (push_bit n x) else Inl UB_Shift)"

definition shr32 :: "u32 \<Rightarrow> nat \<Rightarrow> u32 cxx" where
  "shr32 x n = (if n < 32 then Inr (drop_bit n x) else Inl UB_Shift)"

lemma shift32_simps [simp, result_simps]:
  "n < 32 \<Longrightarrow> shl32 x n = Inr (push_bit n x)"
  "n < 32 \<Longrightarrow> shr32 x n = Inr (drop_bit n x)"
  by (simp_all add: shl32_def shr32_def)

section \<open>Lists\<close>

lemma length_filter_upt_bits:
  fixes w :: "'a::len word"
  shows "length (filter (bit w) [0..<LENGTH('a)]) = card {n. bit w n}"
proof -
  have "set (filter (bit w) [0..<LENGTH('a)]) = {n. bit w n}"
    by (auto dest: bit_imp_le_length)
  then show ?thesis
    by (metis distinct_card distinct_filter distinct_upt)
qed

end
