(* ===== verification/Cxx_Library.thy ===== *)
theory Cxx_Library
  imports Cxx_Prelude "HOL-Library.Multiset"
begin

text \<open>
  The pieces of the C++ standard library the programs call, each with what it documents:
  \<open>std::sort\<close>, the duplicate filter built on \<open>std::set\<close>, \<open>std::min_element\<close> and
  \<open>std::max_element\<close>, \<open>std::find\<close>, \<open>std::string::find_first_of\<close> and \<open>substr\<close>,
  \<open>std::stoull\<close>, and the \<open>getline\<close> loop of the drivers.
\<close>

section \<open>std::sort\<close>

text \<open>
  \<open>std::sort\<close> leaves the order of equivalent elements open. Where the comparator has ties
  the code's result is a parameter \<open>srt\<close> with the documented behaviour \<open>is_std_sort\<close>;
  \<open>insertion_sort\<close> is one such function.
\<close>

definition strict_weak :: "('a \<Rightarrow> 'a \<Rightarrow> bool) \<Rightarrow> bool" where
  "strict_weak lt \<longleftrightarrow> (\<forall>x. \<not> lt x x) \<and> (\<forall>x y z. lt x y \<longrightarrow> lt y z \<longrightarrow> lt x z) \<and>
     (\<forall>x y z. \<not> lt x y \<longrightarrow> \<not> lt y z \<longrightarrow> \<not> lt x z)"

definition is_std_sort :: "('a \<Rightarrow> 'a \<Rightarrow> bool) \<Rightarrow> ('a list \<Rightarrow> 'a list) \<Rightarrow> bool" where
  "is_std_sort lt srt \<longleftrightarrow>
     (\<forall>xs. mset (srt xs) = mset xs \<and> sorted_wrt (\<lambda>x y. \<not> lt y x) (srt xs))"

fun insert_by :: "('a \<Rightarrow> 'a \<Rightarrow> bool) \<Rightarrow> 'a \<Rightarrow> 'a list \<Rightarrow> 'a list" where
  "insert_by lt x [] = [x]"
| "insert_by lt x (y # ys) = (if lt y x then y # insert_by lt x ys else x # y # ys)"

definition insertion_sort :: "('a \<Rightarrow> 'a \<Rightarrow> bool) \<Rightarrow> 'a list \<Rightarrow> 'a list" where
  "insertion_sort lt xs = foldr (insert_by lt) xs []"

lemma insertion_sort_simps [simp]:
  "insertion_sort lt [] = []"
  "insertion_sort lt (x # xs) = insert_by lt x (insertion_sort lt xs)"
  by (simp_all add: insertion_sort_def)

lemma mset_insert_by [simp]: "mset (insert_by lt x ys) = add_mset x (mset ys)"
  by (induction ys) auto

lemma set_insert_by [simp]: "set (insert_by lt x ys) = insert x (set ys)"
  by (metis mset_insert_by set_mset_add_mset_insert set_mset_mset)

lemma mset_insertion_sort [simp]: "mset (insertion_sort lt xs) = mset xs"
  by (induction xs) auto

lemma set_insertion_sort [simp]: "set (insertion_sort lt xs) = set xs"
  by (metis mset_insertion_sort set_mset_mset)

lemma length_insertion_sort [simp]: "length (insertion_sort lt xs) = length xs"
  by (metis mset_insertion_sort size_mset)

lemma distinct_insertion_sort [simp]: "distinct (insertion_sort lt xs) = distinct xs"
  by (metis mset_insertion_sort mset_eq_imp_distinct_iff)

lemma sorted_insert_by:
  assumes "strict_weak lt" and "sorted_wrt (\<lambda>x y. \<not> lt y x) ys"
  shows "sorted_wrt (\<lambda>x y. \<not> lt y x) (insert_by lt x ys)"
  using assms(2)
proof (induction ys)
  case Nil
  then show ?case by simp
next
  case (Cons y ys)
  have irrefl: "\<not> lt a a" and trans: "lt a b \<Longrightarrow> lt b c \<Longrightarrow> lt a c"
    and negtrans: "\<not> lt a b \<Longrightarrow> \<not> lt b c \<Longrightarrow> \<not> lt a c" for a b c
    using assms(1) unfolding strict_weak_def by blast+
  show ?case
  proof (cases "lt y x")
    case True
    then have "\<not> lt x y" using irrefl trans by blast
    with True Cons show ?thesis by auto
  next
    case False
    with Cons.prems negtrans show ?thesis by (auto simp: irrefl)
  qed
qed

lemma insertion_sort_is_std_sort: "strict_weak lt \<Longrightarrow> is_std_sort lt (insertion_sort lt)"
proof -
  assume lt: "strict_weak lt"
  have "sorted_wrt (\<lambda>x y. \<not> lt y x) (insertion_sort lt xs)" for xs
    by (induction xs) (auto simp: sorted_insert_by [OF lt])
  then show ?thesis by (simp add: is_std_sort_def)
qed

lemma std_sort_set: "is_std_sort lt srt \<Longrightarrow> set (srt xs) = set xs"
  unfolding is_std_sort_def by (metis set_mset_mset)

lemma std_sort_length: "is_std_sort lt srt \<Longrightarrow> length (srt xs) = length xs"
  unfolding is_std_sort_def by (metis size_mset)

lemma strict_weak_key: "strict_weak (\<lambda>x y. (f x :: 'b::linorder) < f y)"
  by (auto simp: strict_weak_def)

section \<open>Keeping the first of equal elements\<close>

text \<open>
  The loop of every \<open>remove_duplicate\<close> of the repository: a \<open>std::set\<close> of the keys met so far
  and a vector of the elements kept.
\<close>

fun keep_first_loop :: "('a \<Rightarrow> 'k) \<Rightarrow> 'k set \<Rightarrow> 'a list \<Rightarrow> 'a list \<Rightarrow> 'a list" where
  "keep_first_loop key checker kept [] = kept"
| "keep_first_loop key checker kept (x # xs) =
     (if key x \<in> checker then keep_first_loop key checker kept xs
      else keep_first_loop key (insert (key x) checker) (kept @ [x]) xs)"

lemma keep_first_keys:
  assumes "checker = key ` set kept" and "distinct (map key kept)"
  shows "distinct (map key (keep_first_loop key checker kept xs)) \<and>
    key ` set (keep_first_loop key checker kept xs) = checker \<union> key ` set xs \<and>
    set (keep_first_loop key checker kept xs) \<subseteq> set kept \<union> set xs"
  using assms
proof (induction xs arbitrary: checker kept)
  case Nil
  then show ?case by simp
next
  case (Cons x xs)
  show ?case
  proof (cases "key x \<in> checker")
    case True
    with Cons.IH [OF Cons.prems] show ?thesis by auto
  next
    case False
    with Cons.prems have "insert (key x) checker = key ` set (kept @ [x])"
      and "distinct (map key (kept @ [x]))" by auto
    from Cons.IH [OF this] False show ?thesis by auto
  qed
qed

text \<open>The element kept for a key is the first one with that key.\<close>

lemma keep_first_is_filter:
  "keep_first_loop key checker kept xs =
   kept @ map (\<lambda>i. xs ! i)
     (filter (\<lambda>i. key (xs ! i) \<notin> checker \<and> (\<forall>j<i. key (xs ! j) \<noteq> key (xs ! i))) [0..<length xs])"
proof (induction xs arbitrary: checker kept)
  case Nil
  then show ?case by simp
next
  case (Cons x xs)
  have upt: "[0..<length (x # xs)] = 0 # map Suc [0..<length xs]"
    by (simp only: map_Suc_upt upt_rec [of 0 "length (x # xs)"]) simp
  have all: "(\<forall>j<Suc i. P j) \<longleftrightarrow> P 0 \<and> (\<forall>j<i. P (Suc j))" for i P
    by (metis less_Suc_eq_0_disj)
  show ?case
    unfolding upt keep_first_loop.simps Cons.IH
    by (auto simp: filter_map o_def all intro!: arg_cong [where f = "map _"] filter_cong)
qed

lemma keep_first_sublist_order:
  "sorted_wrt P xs \<Longrightarrow> sorted_wrt P (keep_first_loop key checker [] xs)"
proof -
  assume *: "sorted_wrt P xs"
  let ?is = "filter (\<lambda>i. key (xs ! i) \<notin> checker \<and> (\<forall>j<i. key (xs ! j) \<noteq> key (xs ! i)))
    [0..<length xs]"
  have "sorted_wrt (<) ?is" by (simp add: sorted_wrt_filter)
  then have "sorted_wrt (\<lambda>i j. P (xs ! i) (xs ! j)) ?is"
    by (rule sorted_wrt_mono_rel [rotated]) (use * in \<open>auto simp: sorted_wrt_nth_less\<close>)
  then show ?thesis by (simp add: keep_first_is_filter sorted_wrt_map)
qed

section \<open>min\_element, max\_element, find\<close>

text \<open>The iterator returned is dereferenced by every caller: on an empty range that is undefined.\<close>

fun max_element_loop :: "'a::linorder \<Rightarrow> 'a list \<Rightarrow> 'a" where
  "max_element_loop m [] = m"
| "max_element_loop m (x # xs) = max_element_loop (if m < x then x else m) xs"

definition max_element :: "'a::linorder list \<Rightarrow> 'a cxx" where
  "max_element xs = (case xs of [] \<Rightarrow> Inl UB_Deref_End | x # ys \<Rightarrow> Inr (max_element_loop x ys))"

fun min_element_loop :: "'a::linorder \<Rightarrow> 'a list \<Rightarrow> 'a" where
  "min_element_loop m [] = m"
| "min_element_loop m (x # xs) = min_element_loop (if x < m then x else m) xs"

definition min_element :: "'a::linorder list \<Rightarrow> 'a cxx" where
  "min_element xs = (case xs of [] \<Rightarrow> Inl UB_Deref_End | x # ys \<Rightarrow> Inr (min_element_loop x ys))"

lemma max_element_loop_eq: "max_element_loop m xs = Max (insert m (set xs))"
proof (induction xs arbitrary: m)
  case (Cons x xs)
  have "insert (if m < x then x else m) (set xs) = insert (max m x) (set xs)"
    by (auto simp: max_def)
  then show ?case by (cases "xs = []") (auto simp: Cons max.assoc max.left_commute)
qed simp

lemma min_element_loop_eq: "min_element_loop m xs = Min (insert m (set xs))"
proof (induction xs arbitrary: m)
  case (Cons x xs)
  have "insert (if x < m then x else m) (set xs) = insert (min m x) (set xs)"
    by (auto simp: min_def)
  then show ?case by (cases "xs = []") (auto simp: Cons min.assoc min.left_commute)
qed simp

lemma max_element_Max: "xs \<noteq> [] \<Longrightarrow> max_element xs = Inr (Max (set xs))"
  by (cases xs) (auto simp: max_element_def max_element_loop_eq)

lemma min_element_Min: "xs \<noteq> [] \<Longrightarrow> min_element xs = Inr (Min (set xs))"
  by (cases xs) (auto simp: min_element_def min_element_loop_eq)

text \<open>The distance of \<open>std::find\<close>'s result from the beginning; the length if there is none.\<close>

fun find_index :: "'a \<Rightarrow> 'a list \<Rightarrow> nat" where
  "find_index x [] = 0"
| "find_index x (y # ys) = (if y = x then 0 else Suc (find_index x ys))"

lemma find_index_nth: "x \<in> set xs \<Longrightarrow> find_index x xs < length xs \<and> xs ! find_index x xs = x"
  by (induction xs) auto

lemma find_index_first: "i < find_index x xs \<Longrightarrow> i < length xs \<Longrightarrow> xs ! i \<noteq> x"
  by (induction xs arbitrary: i) (auto simp: nth_Cons split: nat.splits if_splits)

lemma find_index_eqI:
  "distinct xs \<Longrightarrow> i < length xs \<Longrightarrow> find_index (xs ! i) xs = i"
  by (metis find_index_nth nth_eq_iff_index_eq nth_mem)

section \<open>Strings and numbers\<close>

definition char_code :: "char \<Rightarrow> nat" where
  "char_code c = of_char c"

definition is_space :: "char \<Rightarrow> bool" where
  "is_space c \<longleftrightarrow> char_code c = 32 \<or> (9 \<le> char_code c \<and> char_code c \<le> 13)"

definition is_digit :: "char \<Rightarrow> bool" where
  "is_digit c \<longleftrightarrow> 48 \<le> char_code c \<and> char_code c \<le> 57"

text \<open>\<open>find_first_of(" ")\<close>: None is \<open>npos\<close>.\<close>

fun find_first_of :: "char \<Rightarrow> string \<Rightarrow> nat option" where
  "find_first_of c [] = None"
| "find_first_of c (x # xs) = (if x = c then Some 0 else map_option Suc (find_first_of c xs))"

fun digits_value :: "nat \<Rightarrow> string \<Rightarrow> nat" where
  "digits_value acc [] = acc"
| "digits_value acc (c # cs) =
     (if is_digit c then digits_value (10 * acc + (char_code c - 48)) cs else acc)"

text \<open>
  \<open>std::stoull(s)\<close> in base 10: leading white space and one sign are skipped, the longest run
  of digits is read and the rest ignored; no digit is \<open>invalid_argument\<close>, a value of 2^64 or
  more is \<open>out_of_range\<close>, a minus sign negates modulo 2^64.
\<close>

definition stoull :: "string \<Rightarrow> u64 cxx" where
  "stoull s =
     (let t = dropWhile is_space s;
          neg = (t \<noteq> [] \<and> hd t = CHR ''-'');
          u = (if t \<noteq> [] \<and> (hd t = CHR ''-'' \<or> hd t = CHR ''+'') then tl t else t)
      in if u = [] \<or> \<not> is_digit (hd u) then Inl Invalid_Argument
         else let n = digits_value 0 u
              in if 2 ^ 64 \<le> n then Inl Out_Of_Range
                 else Inr (if neg then - of_nat n else of_nat n))"

text \<open>The \<open>while (!file.eof()) getline\<close> loops keep the lines that are not empty.\<close>

definition nonempty_lines :: "string list \<Rightarrow> string list" where
  "nonempty_lines ls = filter (\<lambda>l. l \<noteq> []) ls"

text \<open>Decimal output, and that \<open>stoull\<close> reads it back.\<close>

fun decimal :: "nat \<Rightarrow> string" where
  "decimal n = (if n < 10 then [char_of (48 + n)] else decimal (n div 10) @ [char_of (48 + n mod 10)])"

declare decimal.simps [simp del]

lemma code_digit: "d < (10::nat) \<Longrightarrow> char_code (char_of (48 + d)) = 48 + d"
  by (simp add: char_code_def)

lemma digit_char: "d < (10::nat) \<Longrightarrow> is_digit (char_of (48 + d))"
  by (simp add: is_digit_def code_digit)

lemma digits_value_snoc:
  "(\<forall>c \<in> set cs. is_digit c) \<Longrightarrow>
   digits_value acc (cs @ ds) = digits_value (digits_value acc cs) ds"
  by (induction cs arbitrary: acc) auto

lemma decimal_digits: "decimal n \<noteq> [] \<and> (\<forall>c \<in> set (decimal n). is_digit c)"
proof (induction n rule: decimal.induct)
  case (1 n)
  then show ?case by (subst (1 2) decimal.simps) (auto simp: digit_char)
qed

lemma digits_value_decimal:
  "(rest = [] \<or> \<not> is_digit (hd rest)) \<Longrightarrow> digits_value 0 (decimal n @ rest) = n"
proof (induction n arbitrary: rest rule: decimal.induct)
  case (1 n)
  have rest: "digits_value a rest = a" for a
    using "1.prems" by (cases rest) auto
  show ?case
  proof (cases "n < 10")
    case True
    then show ?thesis
      by (subst decimal.simps) (simp add: digit_char code_digit rest)
  next
    case False
    have "digits_value 0 (decimal (n div 10)) = n div 10"
      using "1.IH" [OF False, of "[]"] by simp
    moreover have "decimal n @ rest = decimal (n div 10) @ (char_of (48 + n mod 10) # rest)"
      using False by (subst decimal.simps) simp
    ultimately show ?thesis
      using decimal_digits [of "n div 10"]
      by (simp add: digits_value_snoc digit_char code_digit rest)
  qed
qed

lemma stoull_decimal:
  assumes "n < 2 ^ 64" and "rest = [] \<or> \<not> is_digit (hd rest)"
  shows "stoull (decimal n @ rest) = Inr (of_nat n)"
proof -
  obtain c cs where cs: "decimal n = c # cs" and c: "is_digit c"
    using decimal_digits [of n] by (cases "decimal n") auto
  have "\<not> is_space c" and "c \<noteq> CHR ''-''" and "c \<noteq> CHR ''+''"
    using c by (auto simp: is_space_def is_digit_def char_code_def)
  with c cs assms digits_value_decimal [OF assms(2), of n] show ?thesis
    by (simp add: stoull_def Let_def)
qed

end
