(* ===== verification/Matcher_Interface.thy ===== *)
theory Matcher_Interface
  imports Cxx_Prelude
begin

text \<open>
  What every rule table of the library promises its clients: the ternary match of a rule
  (value, mask) against a key, the best (smallest non-zero) priority among the rules that
  match, and the contract of a table that is filled rule by rule and then searched.
  The linear table and the priority trie are the two providers of the contract.
\<close>

section \<open>Ternary match\<close>

text \<open>A set bit of the mask is a wildcard: the key is compared on the other bits only.\<close>

definition rule_matches :: "u64 \<Rightarrow> u64 \<Rightarrow> u64 \<Rightarrow> bool" where
  "rule_matches v m k \<longleftrightarrow> v AND NOT m = k AND NOT m"

lemma rule_matches_bits:
  "rule_matches v m k \<longleftrightarrow> (\<forall>n<64. \<not> bit m n \<longrightarrow> bit v n = bit k n)"
  by (simp add: rule_matches_def and_not_eq_iff)

lemma rule_matches_normalised: "rule_matches (v AND NOT m) m k = rule_matches v m k"
  by (simp add: rule_matches_bits bit_simps)

section \<open>The best of several priorities\<close>

text \<open>Priority 0 is "no rule"; among real priorities the smaller one wins.\<close>

definition better :: "nat \<Rightarrow> nat \<Rightarrow> nat" where
  "better p q = (if p = 0 then q else if q = 0 then p else min p q)"

named_theorems better_simps "the best-priority operation"

lemma better_zero [simp]: "better 0 q = q" "better p 0 = p"
  by (simp_all add: better_def)

lemma better_eq_0 [simp]: "better p q = 0 \<longleftrightarrow> p = 0 \<and> q = 0"
  by (auto simp: better_def)

lemma better_assoc [better_simps]: "better (better p q) r = better p (better q r)"
  by (auto simp: better_def)

lemma better_commute [better_simps]: "better p q = better q p"
  by (auto simp: better_def)

lemma better_left_commute [better_simps]: "better p (better q r) = better q (better p r)"
  by (auto simp: better_def)

lemma better_idem [simp]: "better p p = p"
  by (simp add: better_def)

lemma better_absorb: "0 < p \<Longrightarrow> p \<le> q \<Longrightarrow> better p q = p"
  by (simp add: better_def)

definition best :: "nat list \<Rightarrow> nat" where
  "best ps = foldr better ps 0"

lemma best_simps [simp]: "best [] = 0" "best (p # ps) = better p (best ps)"
  by (simp_all add: best_def)

lemma best_append [simp]: "best (ps @ qs) = better (best ps) (best qs)"
  by (induction ps) (simp_all add: better_assoc)

lemma best_eq_0: "best ps = 0 \<longleftrightarrow> (\<forall>p \<in> set ps. p = 0)"
  by (induction ps) auto

lemma best_in_set: "best ps \<noteq> 0 \<Longrightarrow> best ps \<in> set ps"
  by (induction ps) (auto simp: better_def min_def split: if_splits)

lemma best_le: "p \<in> set ps \<Longrightarrow> 0 < p \<Longrightarrow> 0 < best ps \<and> best ps \<le> p"
  by (induction ps) (auto simp: better_def min_def split: if_splits)

lemma best_eq_Min:
  assumes "ps \<noteq> []" and "0 \<notin> set ps"
  shows "best ps = Min (set ps)"
proof (rule sym, rule Min_eqI)
  show "finite (set ps)" by simp
next
  fix q assume "q \<in> set ps"
  moreover from this assms(2) have "0 < q" by (metis not_gr_zero)
  ultimately show "best ps \<le> q" by (simp add: best_le)
next
  from assms have "best ps \<noteq> 0" by (metis best_eq_0 list.set_sel(1))
  then show "best ps \<in> set ps" by (rule best_in_set)
qed

lemma best_set_cong: "set ps = set qs \<Longrightarrow> best ps = best qs"
proof -
  have le: "best ps \<noteq> 0 \<Longrightarrow> best qs \<noteq> 0 \<Longrightarrow> best qs \<le> best ps" if "set ps = set qs" for ps qs
    using that best_in_set best_le by blast
  assume *: "set ps = set qs"
  show ?thesis
  proof (cases "best ps = 0 \<or> best qs = 0")
    case True
    with * show ?thesis by (metis best_eq_0)
  next
    case False
    with le [OF *] le [OF * [symmetric]] show ?thesis by simp
  qed
qed

text \<open>The reference semantics: the best priority among the rules of a list that match.\<close>

definition best_match :: "('r \<Rightarrow> nat) \<Rightarrow> ('r \<Rightarrow> u64 \<Rightarrow> bool) \<Rightarrow> 'r list \<Rightarrow> u64 \<Rightarrow> nat" where
  "best_match pr mt rs k = best (map pr (filter (\<lambda>r. mt r k) rs))"

lemma best_match_simps [simp]:
  "best_match pr mt [] k = 0"
  "best_match pr mt (r # rs) k = better (if mt r k then pr r else 0) (best_match pr mt rs k)"
  by (simp_all add: best_match_def)

lemma best_match_append [simp]:
  "best_match pr mt (rs @ qs) k = better (best_match pr mt rs k) (best_match pr mt qs k)"
  by (simp add: best_match_def)

lemma best_match_set_cong:
  "set rs = set qs \<Longrightarrow> best_match pr mt rs k = best_match pr mt qs k"
  unfolding best_match_def by (rule best_set_cong) auto

lemma best_match_eq_0:
  assumes "\<forall>r \<in> set rs. 0 < pr r"
  shows "best_match pr mt rs k = 0 \<longleftrightarrow> (\<forall>r \<in> set rs. \<not> mt r k)"
  using assms by (auto simp: best_match_def best_eq_0)

section \<open>The contract of a priority matcher\<close>

fun insert_all :: "('r \<Rightarrow> 't \<Rightarrow> 't option) \<Rightarrow> 'r list \<Rightarrow> 't \<Rightarrow> 't option" where
  "insert_all ins [] t = Some t"
| "insert_all ins (r # rs) t = (case ins r t of None \<Rightarrow> None | Some t' \<Rightarrow> insert_all ins rs t')"

text \<open>
  \<open>insert\<close> may refuse (None: out of memory). \<open>ok t r\<close> is what the table needs of the next
  rule, \<open>lookup\<close> the priority the search reports (0: miss).
\<close>

locale ordered_matcher =
  fixes empty :: "'t"
    and insert :: "'r \<Rightarrow> 't \<Rightarrow> 't option"
    and lookup :: "'t \<Rightarrow> u64 \<Rightarrow> nat"
    and matches :: "'r \<Rightarrow> u64 \<Rightarrow> bool"
    and prio :: "'r \<Rightarrow> nat"
    and valid :: "'r \<Rightarrow> bool"
    and invar :: "'t \<Rightarrow> bool"
    and ok :: "'t \<Rightarrow> 'r \<Rightarrow> bool"
  assumes invar_empty: "invar empty"
    and invar_insert: "invar t \<Longrightarrow> valid r \<Longrightarrow> insert r t = Some t' \<Longrightarrow> invar t'"
    and lookup_empty: "lookup empty k = 0"
    and lookup_insert: "invar t \<Longrightarrow> valid r \<Longrightarrow> ok t r \<Longrightarrow> insert r t = Some t' \<Longrightarrow>
      lookup t' k = better (lookup t k) (if matches r k then prio r else 0)"
    and ok_empty: "valid r \<Longrightarrow> ok empty r"
    and ok_insert: "invar t \<Longrightarrow> valid r \<Longrightarrow> valid r' \<Longrightarrow> ok t r' \<Longrightarrow> prio r < prio r' \<Longrightarrow>
      insert r t = Some t' \<Longrightarrow> ok t' r'"
begin

lemma lookup_insert_all_from:
  assumes "insert_all insert rs t = Some t'" and "invar t"
    and "\<forall>r \<in> set rs. valid r \<and> ok t r" and "sorted_wrt (\<lambda>r r'. prio r < prio r') rs"
  shows "invar t' \<and> lookup t' k = better (lookup t k) (best_match prio matches rs k)"
  using assms
proof (induction rs arbitrary: t)
  case Nil
  then show ?case by simp
next
  case (Cons r rs)
  from Cons.prems(1) obtain t1 where t1: "insert r t = Some t1" "insert_all insert rs t1 = Some t'"
    by (auto split: option.splits)
  have inv1: "invar t1" using Cons.prems t1(1) by (auto intro: invar_insert)
  have ok1: "\<forall>r' \<in> set rs. valid r' \<and> ok t1 r'"
    using Cons.prems t1(1) by (auto intro: ok_insert [of t r _ t1])
  have "lookup t1 k = better (lookup t k) (if matches r k then prio r else 0)"
    by (rule lookup_insert [OF Cons.prems(2) _ _ t1(1)]) (use Cons.prems(3) in auto)
  with Cons.IH [OF t1(2) inv1 ok1] Cons.prems(4) show ?case
    by (simp add: better_assoc)
qed

lemma lookup_insert_all:
  assumes "insert_all insert rs empty = Some t" and "\<forall>r \<in> set rs. valid r"
    and "sorted_wrt (\<lambda>r r'. prio r < prio r') rs"
  shows "lookup t k = best_match prio matches rs k"
  using lookup_insert_all_from [OF assms(1) invar_empty _ assms(3), of k] assms(2)
  by (simp add: lookup_empty ok_empty)

end

text \<open>A table that takes the rules in any order.\<close>

locale matcher = ordered_matcher +
  assumes ok_insert_any: "invar t \<Longrightarrow> valid r \<Longrightarrow> ok t r' \<Longrightarrow> insert r t = Some t' \<Longrightarrow> ok t' r'"
begin

lemma lookup_insert_all_any_from:
  assumes "insert_all insert rs t = Some t'" and "invar t" and "\<forall>r \<in> set rs. valid r \<and> ok t r"
  shows "invar t' \<and> lookup t' k = better (lookup t k) (best_match prio matches rs k)"
  using assms
proof (induction rs arbitrary: t)
  case Nil
  then show ?case by simp
next
  case (Cons r rs)
  from Cons.prems(1) obtain t1 where t1: "insert r t = Some t1" "insert_all insert rs t1 = Some t'"
    by (auto split: option.splits)
  have inv1: "invar t1" using Cons.prems t1(1) by (auto intro: invar_insert)
  have ok1: "\<forall>r' \<in> set rs. valid r' \<and> ok t1 r'"
    using Cons.prems t1(1) by (auto intro: ok_insert_any [of t r _ t1])
  have "lookup t1 k = better (lookup t k) (if matches r k then prio r else 0)"
    by (rule lookup_insert [OF Cons.prems(2) _ _ t1(1)]) (use Cons.prems(3) in auto)
  with Cons.IH [OF t1(2) inv1 ok1] show ?case by (simp add: better_assoc)
qed

lemma lookup_insert_all_any:
  assumes "insert_all insert rs empty = Some t" and "\<forall>r \<in> set rs. valid r"
  shows "lookup t k = best_match prio matches rs k"
  using lookup_insert_all_any_from [OF assms(1) invar_empty, of k] assms(2)
  by (simp add: lookup_empty ok_empty)

end

end
