(* ===== verification/Linear_Table.thy ===== *)
theory Linear_Table
  imports Cxx_Library Matcher_Interface
begin

text \<open>
  The linear table of \<open>libmatch/linear_arbitrary\<close>: rules kept in insertion order, searched
  from the front. It is the reference matcher: no expansion, no rearrangement of bits.
\<close>

section \<open>Data\<close>

record LRule =
  l_value :: u64
  l_mask :: u64
  l_priority :: u64
  l_action :: u32

definition LRule0 :: LRule where
  "LRule0 = \<lparr>l_value = 0, l_mask = 0, l_priority = 0, l_action = 0\<rparr>"

record l_result =
  lr_priority :: u64
  lr_action :: u32
  lr_cishu :: u64

definition l_result0 :: l_result where
  "l_result0 = \<lparr>lr_priority = 0, lr_action = 0, lr_cishu = 0\<rparr>"

record linearTable =
  ruleTable :: "LRule list"
  l_count :: int

definition linearTable0 :: linearTable where
  "linearTable0 = \<lparr>ruleTable = [], l_count = 0\<rparr>"

section \<open>Operations\<close>

definition normalise :: "LRule \<Rightarrow> LRule" where
  "normalise r = r\<lparr>l_value := l_value r AND NOT (l_mask r)\<rparr>"

definition same_rule :: "LRule \<Rightarrow> LRule \<Rightarrow> bool" where
  "same_rule r x \<longleftrightarrow> l_value r = l_value x \<and> l_mask r = l_mask x"

fun find_rule :: "LRule \<Rightarrow> LRule list \<Rightarrow> bool" where
  "find_rule r [] = False"
| "find_rule r (x # xs) = (if same_rule r x then True else find_rule r xs)"

text \<open>
  The rule is passed by reference and its value is cleared under the mask in place: the
  caller's rule is the second component.
\<close>

definition linear_insert_rule :: "linearTable \<Rightarrow> LRule \<Rightarrow> linearTable \<times> LRule" where
  "linear_insert_rule t r =
     (let r = normalise r
      in if find_rule r (ruleTable t) then (t, r)
         else (t\<lparr>ruleTable := ruleTable t @ [r]\<rparr>, r))"

definition rule_hit :: "LRule \<Rightarrow> u64 \<Rightarrow> bool" where
  "rule_hit r key \<longleftrightarrow> l_value r = key AND NOT (l_mask r)"

fun linear_search_loop :: "LRule list \<Rightarrow> u64 \<Rightarrow> nat \<Rightarrow> l_result option" where
  "linear_search_loop [] key i = None"
| "linear_search_loop (x # xs) key i =
     (if rule_hit x key
      then Some \<lparr>lr_priority = l_priority x, lr_action = l_action x, lr_cishu = of_nat (i + 1)\<rparr>
      else linear_search_loop xs key (i + 1))"

definition linear_search_rule :: "linearTable \<Rightarrow> u64 \<Rightarrow> l_result" where
  "linear_search_rule t key =
     (case linear_search_loop (ruleTable t) key 0 of
        Some res \<Rightarrow> res
      | None \<Rightarrow> l_result0\<lparr>lr_cishu := of_nat (length (ruleTable t))\<rparr>)"

text \<open>
  \<open>erase(begin() + i)\<close> moves the rest of the vector one place down and the loop still
  increments \<open>i\<close>: the element after an erased one is not looked at.
\<close>

fun linear_delete_loop :: "LRule \<Rightarrow> LRule list \<Rightarrow> LRule list" where
  "linear_delete_loop r [] = []"
| "linear_delete_loop r [x] = (if same_rule r x then [] else [x])"
| "linear_delete_loop r (x # y # xs) =
     (if same_rule r x then y # linear_delete_loop r xs
      else x # linear_delete_loop r (y # xs))"

definition linear_delete_rule :: "linearTable \<Rightarrow> LRule \<Rightarrow> linearTable \<times> LRule" where
  "linear_delete_rule t r =
     (let r = normalise r
      in (t\<lparr>ruleTable := linear_delete_loop r (ruleTable t)\<rparr>, r))"

section \<open>The table invariant\<close>

text \<open>Every value is clear under its mask, and no two rules have the same value and mask.\<close>

definition table_inv :: "linearTable \<Rightarrow> bool" where
  "table_inv t \<longleftrightarrow> (\<forall>r \<in> set (ruleTable t). normalise r = r) \<and>
     distinct (map (\<lambda>r. (l_value r, l_mask r)) (ruleTable t))"

named_theorems linear_simps "the linear table's helpers as list functions"

lemma normalise_simps [simp]:
  "l_value (normalise r) = l_value r AND NOT (l_mask r)"
  "l_mask (normalise r) = l_mask r"
  "l_priority (normalise r) = l_priority r"
  "l_action (normalise r) = l_action r"
  by (simp_all add: normalise_def)

lemma and_not_idem: "(x AND NOT m) AND NOT m = x AND NOT (m :: 'a::len word)"
  by (simp add: and.assoc)

lemma normalise_idem [simp]: "normalise (normalise r) = normalise r"
  by (simp add: normalise_def and_not_idem)

lemma find_rule_iff [linear_simps]: "find_rule r xs \<longleftrightarrow> (\<exists>x \<in> set xs. same_rule r x)"
  by (induction xs) auto

lemma same_rule_key [linear_simps]:
  "same_rule r x \<longleftrightarrow> (l_value r, l_mask r) = (l_value x, l_mask x)"
  by (simp add: same_rule_def)

lemma rule_hit_matches [linear_simps]:
  "normalise r = r \<Longrightarrow> rule_hit r k \<longleftrightarrow> rule_matches (l_value r) (l_mask r) k"
  by (metis rule_hit_def rule_matches_def normalise_simps(1))

lemma search_loop_find:
  "linear_search_loop xs key i =
     (case filter (\<lambda>x. rule_hit x key) xs of
        [] \<Rightarrow> None
      | x # _ \<Rightarrow> Some \<lparr>lr_priority = l_priority x, lr_action = l_action x,
                      lr_cishu = of_nat (i + 1 + length (takeWhile (\<lambda>y. \<not> rule_hit y key) xs))\<rparr>)"
  by (induction xs arbitrary: i) (auto split: list.splits)

lemma delete_loop_filter:
  "distinct (map (\<lambda>r. (l_value r, l_mask r)) xs) \<Longrightarrow>
   linear_delete_loop r xs = filter (\<lambda>x. \<not> same_rule r x) xs"
proof (induction r xs rule: linear_delete_loop.induct)
  case (3 r x y xs)
  show ?case
  proof (cases "same_rule r x")
    case True
    with "3.prems" have "\<forall>z \<in> set (y # xs). \<not> same_rule r z" by (auto simp: same_rule_key)
    then have "filter (\<lambda>z. \<not> same_rule r z) (y # xs) = y # xs" by (simp add: filter_id_conv)
    moreover have "linear_delete_loop r xs = xs"
      using "3.IH"(1) [OF True] "3.prems" \<open>\<forall>z \<in> set (y # xs). \<not> same_rule r z\<close>
      by (simp add: filter_id_conv)
    ultimately show ?thesis using True by simp
  next
    case False
    with "3.IH"(2) [OF False] "3.prems" show ?thesis by simp
  qed
qed simp_all

lemma insert_table_inv:
  assumes "table_inv t"
  shows "table_inv (fst (linear_insert_rule t r))"
  using assms
  by (auto simp: table_inv_def linear_insert_rule_def Let_def find_rule_iff same_rule_key)

lemma delete_table_inv:
  assumes "table_inv t"
  shows "table_inv (fst (linear_delete_rule t r))"
  using assms
  by (auto simp: table_inv_def linear_delete_rule_def Let_def delete_loop_filter
      intro: distinct_map_filter)

text \<open>every operation of the linear table keeps its values clear under their masks and its
  (value, mask) pairs distinct.\<close>

theorem linear_ops_keep_inv:
  assumes "table_inv t"
  shows "table_inv (fst (linear_insert_rule t r)) \<and> table_inv (fst (linear_delete_rule t r))"
  using insert_table_inv [OF assms] delete_table_inv [OF assms] by simp

theorem linear_ops_keep_inv_witness:
  "table_inv linearTable0 \<and> table_inv (fst (linear_insert_rule linearTable0 LRule0))"
proof -
  have inv: "table_inv linearTable0" by (simp add: table_inv_def linearTable0_def)
  show ?thesis using inv linear_ops_keep_inv [OF inv, of LRule0] by simp
qed

section \<open>Search\<close>

text \<open>The search returns the priority and action of the first rule of the table that matches,
  after as many comparisons as its position, and priority 0 after one comparison per rule if
  none matches.\<close>

theorem linear_search_first_match:
  assumes "table_inv t"
  shows "linear_search_rule t key =
    (case filter (\<lambda>r. rule_matches (l_value r) (l_mask r) key) (ruleTable t) of
       [] \<Rightarrow> \<lparr>lr_priority = 0, lr_action = 0, lr_cishu = of_nat (length (ruleTable t))\<rparr>
     | r # _ \<Rightarrow> \<lparr>lr_priority = l_priority r, lr_action = l_action r,
         lr_cishu = of_nat (Suc (length (takeWhile
           (\<lambda>r. \<not> rule_matches (l_value r) (l_mask r) key) (ruleTable t))))\<rparr>)"
proof -
  let ?m = "\<lambda>r. rule_matches (l_value r) (l_mask r) key"
  have eq: "rule_hit r key \<longleftrightarrow> ?m r" if "r \<in> set (ruleTable t)" for r
    using that assms by (auto simp: table_inv_def rule_hit_matches)
  have "filter (\<lambda>r. rule_hit r key) (ruleTable t) = filter ?m (ruleTable t)"
    by (rule filter_cong) (auto simp: eq)
  moreover have "takeWhile (\<lambda>r. \<not> rule_hit r key) (ruleTable t) =
      takeWhile (\<lambda>r. \<not> ?m r) (ruleTable t)"
    by (rule takeWhile_cong) (auto simp: eq)
  ultimately show ?thesis
    by (simp add: linear_search_rule_def search_loop_find l_result0_def split: list.splits)
qed

definition demo_linear :: linearTable where
  "demo_linear = \<lparr>ruleTable = [\<lparr>l_value = 4, l_mask = 3, l_priority = 1, l_action = 9\<rparr>], l_count = 0\<rparr>"

theorem linear_search_first_match_witness:
  "table_inv demo_linear \<and> lr_priority (linear_search_rule demo_linear 6) = 1 \<and>
   lr_priority (linear_search_rule demo_linear 8) = 0"
proof -
  have inv: "table_inv demo_linear"
    by (simp add: table_inv_def demo_linear_def normalise_def)
  show ?thesis
    using inv unfolding linear_search_first_match [OF inv]
    by (simp add: demo_linear_def rule_matches_def)
qed

text \<open>deleting a rule removes exactly the entry with its (normalised) value and mask, although
  the loop skips the entry after an erased one.\<close>

theorem linear_delete_exact:
  assumes "table_inv t"
  shows "ruleTable (fst (linear_delete_rule t r)) =
    filter (\<lambda>x. \<not> (l_value x = l_value r AND NOT (l_mask r) \<and> l_mask x = l_mask r)) (ruleTable t)"
proof -
  have "linear_delete_loop (normalise r) (ruleTable t) =
      filter (\<lambda>x. \<not> same_rule (normalise r) x) (ruleTable t)"
    using assms by (simp add: table_inv_def delete_loop_filter)
  then show ?thesis
    by (auto simp: linear_delete_rule_def Let_def same_rule_def intro: filter_cong)
qed

theorem linear_delete_exact_witness:
  "table_inv demo_linear \<and>
   ruleTable (fst (linear_delete_rule demo_linear
     \<lparr>l_value = 7, l_mask = 3, l_priority = 5, l_action = 0\<rparr>)) = []"
proof -
  have inv: "table_inv demo_linear"
    by (simp add: table_inv_def demo_linear_def normalise_def)
  show ?thesis
    using inv by (simp add: linear_delete_exact [OF inv]) (simp add: demo_linear_def)
qed

text \<open>Without the invariant the skipped element matters: two equal neighbours leave one behind.\<close>

lemma linear_delete_skips:
  "linear_delete_loop LRule0 [LRule0, LRule0] = [LRule0]"
  by (simp add: same_rule_def)

section \<open>The table as an ordered matcher\<close>

definition linear_lookup :: "linearTable \<Rightarrow> u64 \<Rightarrow> nat" where
  "linear_lookup t k = unat (lr_priority (linear_search_rule t k))"

definition l_matches :: "LRule \<Rightarrow> u64 \<Rightarrow> bool" where
  "l_matches r k = rule_matches (l_value r) (l_mask r) k"

definition l_prio :: "LRule \<Rightarrow> nat" where
  "l_prio r = unat (l_priority r)"

definition linear_insert :: "LRule \<Rightarrow> linearTable \<Rightarrow> linearTable option" where
  "linear_insert r t = Some (fst (linear_insert_rule t r))"

definition linear_good :: "linearTable \<Rightarrow> bool" where
  "linear_good t \<longleftrightarrow> table_inv t \<and> (\<forall>r \<in> set (ruleTable t). 0 < l_prio r)"

lemma l_normalise [simp]:
  "l_matches (normalise r) k = l_matches r k" "l_prio (normalise r) = l_prio r"
  by (simp_all add: l_matches_def l_prio_def rule_matches_normalised)

lemma filter_hit:
  assumes "table_inv t"
  shows "filter (\<lambda>r. rule_hit r k) (ruleTable t) = filter (\<lambda>r. l_matches r k) (ruleTable t)"
  by (rule filter_cong) (use assms in \<open>auto simp: table_inv_def rule_hit_matches l_matches_def\<close>)

lemma linear_lookup_filter:
  assumes "table_inv t"
  shows "linear_lookup t k =
    (case filter (\<lambda>r. l_matches r k) (ruleTable t) of [] \<Rightarrow> 0 | r # _ \<Rightarrow> l_prio r)"
  by (simp add: linear_lookup_def linear_search_rule_def search_loop_find filter_hit [OF assms]
      l_result0_def l_prio_def split: list.splits)

lemma linear_lookup_insert:
  assumes good: "linear_good t" and "0 < l_prio r" and later: "\<forall>x \<in> set (ruleTable t). l_prio x < l_prio r"
  shows "linear_lookup (fst (linear_insert_rule t r)) k =
    better (linear_lookup t k) (if l_matches r k then l_prio r else 0)"
proof -
  let ?t' = "fst (linear_insert_rule t r)"
  let ?hits = "\<lambda>t. filter (\<lambda>x. l_matches x k) (ruleTable t)"
  have inv: "table_inv t" "table_inv ?t'" using good by (auto simp: linear_good_def insert_table_inv)
  have first: "better (l_prio x) (l_prio r) = l_prio x" if "x \<in> set (ruleTable t)" for x
    using that good later by (auto simp: linear_good_def intro!: better_absorb less_imp_le)
  show ?thesis
  proof (cases "find_rule (normalise r) (ruleTable t)")
    case True
    then obtain x where x: "x \<in> set (ruleTable t)" "l_value x = l_value (normalise r)" "l_mask x = l_mask r"
      by (auto simp: find_rule_iff same_rule_key)
    have "l_matches r k \<Longrightarrow> ?hits t \<noteq> []"
      using x by (auto simp: filter_empty_conv l_matches_def rule_matches_normalised
          intro!: bexI [of _ x])
    moreover have "?t' = t" using True by (simp add: linear_insert_rule_def Let_def)
    ultimately show ?thesis
      using first by (auto simp: linear_lookup_filter [OF inv(1)] filter_eq_Cons_iff split: list.splits)
  next
    case False
    then have "ruleTable ?t' = ruleTable t @ [normalise r]"
      by (simp add: linear_insert_rule_def Let_def)
    then show ?thesis
      using first
      by (auto simp: linear_lookup_filter [OF inv(1)] linear_lookup_filter [OF inv(2)]
          filter_eq_Cons_iff split: list.splits)
  qed
qed

interpretation lin: ordered_matcher linearTable0 linear_insert linear_lookup l_matches l_prio
  "\<lambda>r. 0 < l_prio r" linear_good "\<lambda>t r. \<forall>x \<in> set (ruleTable t). l_prio x < l_prio r"
proof unfold_locales
  show "linear_good linearTable0"
    by (simp add: linear_good_def table_inv_def linearTable0_def)
next
  fix t r t' assume "linear_good t" "0 < l_prio r" "linear_insert r t = Some t'"
  then show "linear_good t'"
    using insert_table_inv [of t r]
    by (auto simp: linear_good_def linear_insert_def linear_insert_rule_def Let_def split: if_splits)
next
  fix k show "linear_lookup linearTable0 k = 0"
    by (simp add: linear_lookup_def linear_search_rule_def linearTable0_def l_result0_def)
next
  fix t r t' k
  assume "linear_good t" "0 < l_prio r" "\<forall>x \<in> set (ruleTable t). l_prio x < l_prio r"
    "linear_insert r t = Some t'"
  then show "linear_lookup t' k = better (linear_lookup t k) (if l_matches r k then l_prio r else 0)"
    using linear_lookup_insert [of t r k] by (auto simp: linear_insert_def)
next
  fix r assume "0 < l_prio r"
  then show "\<forall>x \<in> set (ruleTable linearTable0). l_prio x < l_prio r"
    by (simp add: linearTable0_def)
next
  fix t r r' t'
  assume "\<forall>x \<in> set (ruleTable t). l_prio x < l_prio r'" "l_prio r < l_prio r'"
    "linear_insert r t = Some t'"
  then show "\<forall>x \<in> set (ruleTable t'). l_prio x < l_prio r'"
    by (auto simp: linear_insert_def linear_insert_rule_def Let_def split: if_splits)
qed

text \<open>C37: filling an empty table with rules of increasing priorities and searching gives the
  smallest priority among the rules that match, and 0 if there is none.\<close>

theorem linear_table_best_match:
  assumes "insert_all linear_insert rs linearTable0 = Some t" and "\<forall>r \<in> set rs. 0 < l_prio r"
    and "sorted_wrt (\<lambda>r r'. l_prio r < l_prio r') rs"
  shows "unat (lr_priority (linear_search_rule t k)) = best_match l_prio l_matches rs k"
  using lin.lookup_insert_all [OF assms] by (simp add: linear_lookup_def)

theorem linear_table_best_match_witness:
  "unat (lr_priority (linear_search_rule
      (the (insert_all linear_insert [\<lparr>l_value = 5, l_mask = 3, l_priority = 2, l_action = 7\<rparr>]
        linearTable0)) 6)) = 2"
proof -
  let ?r = "\<lparr>l_value = 5, l_mask = 3, l_priority = 2, l_action = 7\<rparr> :: LRule"
  have ins: "insert_all linear_insert [?r] linearTable0 = Some (fst (linear_insert_rule linearTable0 ?r))"
    by (simp add: linear_insert_def)
  have "unat (lr_priority (linear_search_rule (fst (linear_insert_rule linearTable0 ?r)) 6)) =
      best_match l_prio l_matches [?r] 6"
    by (rule linear_table_best_match [OF ins]) (simp_all add: l_prio_def)
  then show ?thesis
    by (simp add: linear_insert_def l_matches_def rule_matches_def l_prio_def)
qed

end
