(* ===== verification/Linear_Driver.thy ===== *)
theory Linear_Driver
  imports Linear_Table
begin

text \<open>
  \<open>test/linear_arbitrary.cpp\<close>: reading rules, keys and actions from the lines of three files,
  removing duplicates, filling the linear table and counting the keys that match. \<open>std::sort\<close> is the
  parameter \<open>srt\<close>, its comparators have ties.
\<close>

section \<open>Parsing\<close>

text \<open>
  \<open>substr(0, p1)\<close> and \<open>substr(p1 + 1)\<close>: without a space \<open>p1\<close> is \<open>npos\<close>, \<open>p1 + 1\<close> wraps to 0 and
  both numbers are read from the whole line.
\<close>

definition split_line :: "string \<Rightarrow> string \<times> string" where
  "split_line s = (case find_first_of CHR '' '' s of
     Some p1 \<Rightarrow> (take p1 s, drop (p1 + 1) s) | None \<Rightarrow> (s, s))"

definition l_strTint :: "string \<Rightarrow> LRule cxx" where
  "l_strTint s =
     rbind (stoull (fst (split_line s))) (\<lambda>v. rbind (stoull (snd (split_line s))) (\<lambda>m.
       Inr (LRule0\<lparr>l_value := v, l_mask := m, l_priority := 0\<rparr>)))"

definition read_actions :: "string list \<Rightarrow> u32 list cxx" where
  "read_actions ls = rmap (\<lambda>l. rbind (stoull l) (\<lambda>a. Inr (ucast a))) (nonempty_lines ls)"

text \<open>The number of rules read so far is \<open>int i\<close>.\<close>

fun l_read_rules :: "u32 list \<Rightarrow> nat \<Rightarrow> string list \<Rightarrow> LRule list cxx" where
  "l_read_rules actions i [] = Inr []"
| "l_read_rules actions i (l # ls) =
     (if l = [] then l_read_rules actions i ls
      else rbind (l_strTint l) (\<lambda>r.
           if i < length actions
           then rbind (int_succ i) (\<lambda>j. rbind (l_read_rules actions j ls) (\<lambda>rs.
             Inr (r\<lparr>l_action := actions ! i, l_priority := of_nat j\<rparr> # rs)))
           else Inl UB_Index))"

definition read_keys :: "string list \<Rightarrow> u64 list cxx" where
  "read_keys ls = rmap stoull (nonempty_lines ls)"

lemmas parse_simps = stoull_def Let_def is_space_def is_digit_def char_code_def nonempty_lines_def
  l_strTint_def split_line_def

section \<open>Sorting and removing duplicates\<close>

definition wayToSort :: "LRule \<Rightarrow> LRule \<Rightarrow> bool" where
  "wayToSort aa bb \<longleftrightarrow> l_mask aa < l_mask bb"

definition wayToSort1 :: "LRule \<Rightarrow> LRule \<Rightarrow> bool" where
  "wayToSort1 aaa bbb \<longleftrightarrow> l_value aaa < l_value bbb"

text \<open>
  The loop of \<open>sort_rules\<close> from index \<open>i\<close>; in the last iteration \<open>at(i - 1)\<close> with \<open>i = 0\<close> is
  \<open>at(4294967295)\<close>, an \<open>out_of_range\<close> exception.
\<close>

fun sort_rules_loop ::
  "(LRule list \<Rightarrow> LRule list) \<Rightarrow> LRule list \<Rightarrow> nat list \<Rightarrow> LRule list \<Rightarrow> LRule list \<Rightarrow> LRule list cxx" where
  "sort_rules_loop srt1 rl [] sortTable tot = Inr tot"
| "sort_rules_loop srt1 rl (i # is) sortTable tot =
     (if i \<noteq> length rl - 1 then
        if l_mask (rl ! i) = l_mask (rl ! (i + 1))
        then sort_rules_loop srt1 rl is (sortTable @ [rl ! i]) tot
        else sort_rules_loop srt1 rl is [] (tot @ srt1 (sortTable @ [rl ! i]))
      else if i = 0 then Inl Out_Of_Range
      else if l_mask (rl ! i) = l_mask (rl ! (i - 1))
      then sort_rules_loop srt1 rl is (sortTable @ [rl ! i]) (tot @ srt1 (sortTable @ [rl ! i]))
      else sort_rules_loop srt1 rl is [rl ! i] ((tot @ srt1 sortTable) @ [rl ! i]))"

definition sort_rules ::
  "(LRule list \<Rightarrow> LRule list) \<Rightarrow> (LRule list \<Rightarrow> LRule list) \<Rightarrow> LRule list \<Rightarrow> LRule list cxx" where
  "sort_rules srt srt1 ruleList =
     (let rl = srt ruleList in sort_rules_loop srt1 rl [0..<length rl] [] [])"

definition remove_duplicate :: "u64 list \<Rightarrow> u64 list" where
  "remove_duplicate keyTable = keep_first_loop (\<lambda>k. k) {} [] keyTable"

definition l_remove_duplicate_rule :: "LRule list \<Rightarrow> LRule list" where
  "l_remove_duplicate_rule rs = keep_first_loop (\<lambda>r. (l_value r, l_mask r)) {} [] rs"

section \<open>The run\<close>

text \<open>\<open>attempt\<close> is the global sum of the levels visited.\<close>

definition linear_run :: "LRule list \<Rightarrow> u64 list \<Rightarrow> u64 \<times> u64" where
  "linear_run rules keys =
     (let keyTable = remove_duplicate keys;
          table = fold (\<lambda>r t. fst (linear_insert_rule t r)) (l_remove_duplicate_rule rules) linearTable0
      in fold (\<lambda>key (match, attempt).
                 let decision = linear_search_rule table key
                 in (if lr_priority decision > 0 then match + 1 else match,
                     attempt + lr_cishu decision)) keyTable (0, 0))"

definition linear_main :: "string list \<Rightarrow> string list \<Rightarrow> string list \<Rightarrow> (u64 \<times> u64) cxx" where
  "linear_main rule_lines key_lines action_lines =
     rbind (read_actions action_lines) (\<lambda>actions.
     rbind (l_read_rules actions 0 rule_lines) (\<lambda>rules.
     rbind (read_keys key_lines) (\<lambda>keys. Inr (linear_run rules keys))))"

section \<open>Duplicates\<close>

lemma remove_duplicate_facts:
  "distinct (remove_duplicate ks)" "set (remove_duplicate ks) = set ks"
proof -
  have "distinct (map (\<lambda>k. k) (remove_duplicate ks)) \<and> (\<lambda>k. k) ` set (remove_duplicate ks) = {} \<union> (\<lambda>k. k) ` set ks"
    using keep_first_keys [of "{}" "\<lambda>k. k" "[]" ks] by (simp add: remove_duplicate_def)
  then show "distinct (remove_duplicate ks)" "set (remove_duplicate ks) = set ks" by simp_all
qed

lemma l_remove_duplicate_facts:
  "(\<lambda>r. (l_value r, l_mask r)) ` set (l_remove_duplicate_rule rs) = (\<lambda>r. (l_value r, l_mask r)) ` set rs"
  "set (l_remove_duplicate_rule rs) \<subseteq> set rs"
  "sorted_wrt P rs \<Longrightarrow> sorted_wrt P (l_remove_duplicate_rule rs)"
  using keep_first_keys [of "{}" "\<lambda>r. (l_value r, l_mask r)" "[]" rs]
    keep_first_sublist_order [of P rs "\<lambda>r. (l_value r, l_mask r)" "{}"]
  by (simp_all add: l_remove_duplicate_rule_def)

lemma l_matches_dedup:
  "(\<exists>r \<in> set (l_remove_duplicate_rule rs). l_matches r k) \<longleftrightarrow> (\<exists>r \<in> set rs. l_matches r k)"
proof -
  have "(\<exists>r \<in> set qs. l_matches r k) \<longleftrightarrow>
      (\<exists>vm \<in> (\<lambda>r. (l_value r, l_mask r)) ` set qs. rule_matches (fst vm) (snd vm) k)" for qs
    by (auto simp: l_matches_def)
  then show ?thesis by (simp only: l_remove_duplicate_facts(1))
qed

section \<open>The count of matches\<close>

lemma insert_all_fold:
  "insert_all linear_insert rs t = Some (fold (\<lambda>r t. fst (linear_insert_rule t r)) rs t)"
  by (induction rs arbitrary: t) (simp_all add: linear_insert_def)

lemma fold_count_u64:
  "fst (fold (\<lambda>k (m, a). (if P k then m + 1 else m, a + f k)) ks (m, a)) =
   m + (of_nat (length (filter P ks)) :: u64)"
  by (induction ks arbitrary: m a) simp_all

text \<open>For rules with increasing priorities (as they are read) the match count is the number of
  distinct keys some rule matches.\<close>

lemma linear_run_counts:
  assumes "\<forall>r \<in> set rules. 0 < l_prio r" and "sorted_wrt (\<lambda>r r'. l_prio r < l_prio r') rules"
  shows "fst (linear_run rules keys) =
    of_nat (card {k \<in> set keys. \<exists>r \<in> set rules. l_matches r k})"
proof -
  let ?rs = "l_remove_duplicate_rule rules" and ?ks = "remove_duplicate keys"
  let ?t = "fold (\<lambda>r t. fst (linear_insert_rule t r)) ?rs linearTable0"
  have pos: "\<forall>r \<in> set ?rs. 0 < l_prio r" using assms(1) l_remove_duplicate_facts(2) by blast
  have look: "linear_lookup ?t k = best_match l_prio l_matches ?rs k" for k
    by (rule lin.lookup_insert_all [OF insert_all_fold pos l_remove_duplicate_facts(3) [OF assms(2)]])
  have hit: "lr_priority (linear_search_rule ?t k) > 0 \<longleftrightarrow> (\<exists>r \<in> set rules. l_matches r k)" for k
  proof -
    have "lr_priority (linear_search_rule ?t k) > 0 \<longleftrightarrow> linear_lookup ?t k \<noteq> 0"
      by (simp add: linear_lookup_def word_gt_0 unat_eq_0)
    then show ?thesis
      unfolding look best_match_eq_0 [OF pos] using l_matches_dedup [of rules k] by blast
  qed
  have "fst (linear_run rules keys) =
      of_nat (length (filter (\<lambda>k. \<exists>r \<in> set rules. l_matches r k) ?ks))"
    unfolding linear_run_def Let_def fold_count_u64 hit by simp
  moreover have "length (filter (\<lambda>k. \<exists>r \<in> set rules. l_matches r k) ?ks) =
      card {k \<in> set keys. \<exists>r \<in> set rules. l_matches r k}"
  proof -
    have "distinct (filter (\<lambda>k. \<exists>r \<in> set rules. l_matches r k) ?ks)"
      using remove_duplicate_facts(1) by (rule distinct_filter)
    from distinct_card [OF this] show ?thesis by (simp add: remove_duplicate_facts(2))
  qed
  ultimately show ?thesis by simp
qed

section \<open>What is read\<close>

lemma l_read_rules_prio:
  assumes "l_read_rules actions i ls = Inr rules"
  shows "map l_prio rules = [i + 1..<i + 1 + length rules] \<and> length rules \<le> length ls"
  using assms
proof (induction ls arbitrary: i rules)
  case Nil
  then show ?case by simp
next
  case (Cons l ls)
  show ?case
  proof (cases "l = []")
    case True
    have "map l_prio rules = [i + 1..<i + 1 + length rules] \<and> length rules \<le> length ls"
      by (rule Cons.IH) (use Cons.prems True in simp_all)
    then show ?thesis by simp
  next
    case False
    with Cons.prems obtain r rs where r: "rules = r\<lparr>l_action := actions ! i, l_priority := of_nat (i + 1)\<rparr> # rs"
      and rs: "l_read_rules actions (i + 1) ls = Inr rs" and small: "i + 1 < 2 ^ 31"
      by (auto simp: rbind_eq_Inr int_succ_eq_Inr split: if_splits)
    have p: "map l_prio rs = [i + 1 + 1..<i + 1 + 1 + length rs] \<and> length rs \<le> length ls"
      by (rule Cons.IH [OF rs])
    have "unat (of_nat (i + 1) :: u64) = i + 1" using small by (intro unat_of_nat_small) simp
    then have "map l_prio rules = (i + 1) # [i + 2..<i + 2 + length rs]"
      using p by (simp add: r l_prio_def)
    also have "\<dots> = [i + 1..<i + 1 + length rules]"
      using upt_conv_Cons [of "i + 1" "i + 1 + Suc (length rs)"] by (simp add: r del: upt_Suc)
    finally show ?thesis using p by (simp add: r)
  qed
qed

lemma read_rules_sorted:
  assumes "map l_prio rules = [1..<1 + length rules]"
  shows "(\<forall>r \<in> set rules. 0 < l_prio r) \<and> sorted_wrt (\<lambda>r r'. l_prio r < l_prio r') rules"
proof
  have "l_prio ` set rules = set [1..<1 + length rules]" using assms by (metis set_map)
  then have "l_prio r \<in> set [1..<1 + length rules]" if "r \<in> set rules" for r using that by blast
  then show "\<forall>r \<in> set rules. 0 < l_prio r" by fastforce
  have "sorted_wrt (<) (map l_prio rules)" unfolding assms by (rule sorted_wrt_upt)
  then show "sorted_wrt (\<lambda>r r'. l_prio r < l_prio r') rules" by (simp add: sorted_wrt_map)
qed

text \<open>C36: the whole program: whatever the three files hold, if the reading succeeds the count
  reported is the number of distinct keys matched by one of the rules read.  Reading fails with a signed
  overflow when there are \<open>2 ^ 31\<close> rules or more, since an \<open>int\<close> numbers them.\<close>

theorem linear_main_counts:
  assumes "linear_main rule_lines key_lines action_lines = Inr (match, attempt)"
  shows "\<exists>actions rules keys. read_actions action_lines = Inr actions \<and>
    l_read_rules actions 0 rule_lines = Inr rules \<and> read_keys key_lines = Inr keys \<and>
    match = of_nat (card {k \<in> set keys. \<exists>r \<in> set rules. l_matches r k})"
proof -
  obtain actions rules keys where read: "read_actions action_lines = Inr actions"
    "l_read_rules actions 0 rule_lines = Inr rules" "read_keys key_lines = Inr keys"
    and run: "linear_run rules keys = (match, attempt)"
    using assms by (auto simp: linear_main_def rbind_eq_Inr)
  have "map l_prio rules = [1..<1 + length rules]"
    using l_read_rules_prio [OF read(2)] by simp
  from read_rules_sorted [OF this] have pos: "\<forall>r \<in> set rules. 0 < l_prio r"
    and srt: "sorted_wrt (\<lambda>r r'. l_prio r < l_prio r') rules" by blast+
  have "match = fst (linear_run rules keys)" using run by simp
  also have "\<dots> = of_nat (card {k \<in> set keys. \<exists>r \<in> set rules. l_matches r k})"
    by (rule linear_run_counts [OF pos srt])
  finally show ?thesis using read by blast
qed

theorem linear_main_counts_witness:
  "\<exists>rules keys. l_read_rules [9] 0 [''4 3'', ''''] = Inr rules \<and> read_keys [''5'', ''5'', ''8''] = Inr keys \<and>
    (1 :: u64) = of_nat (card {k \<in> set keys. \<exists>r \<in> set rules. l_matches r k})"
proof -
  have run: "linear_main [''4 3'', ''''] [''5'', ''5'', ''8''] [''9''] = Inr (1, 2)"
    by (simp add: linear_main_def read_actions_def read_keys_def parse_simps int_succ_def linear_run_def
        l_remove_duplicate_rule_def remove_duplicate_def linear_insert_rule_def linear_search_rule_def
        linearTable0_def LRule0_def normalise_def rule_hit_def l_result0_def Let_def)
  have acts: "read_actions [''9''] = Inr [9]" by (simp add: read_actions_def parse_simps)
  from linear_main_counts [OF run] acts show ?thesis by auto
qed

section \<open>A line without a space, a table of one rule\<close>

text \<open>a rule line without a space is read as a rule whose value and mask are the same number.\<close>

theorem strTint_no_space:
  assumes "find_first_of CHR '' '' s = None" and "stoull s = Inr x"
  shows "l_strTint s = Inr \<lparr>l_value = x, l_mask = x, l_priority = 0, l_action = 0\<rparr>"
  using assms by (simp add: l_strTint_def split_line_def LRule0_def)

theorem strTint_no_space_witness:
  "l_strTint ''12'' = Inr \<lparr>l_value = 12, l_mask = 12, l_priority = 0, l_action = 0\<rparr>"
proof -
  have "find_first_of CHR '' '' ''12'' = None" "stoull ''12'' = Inr 12" by (simp_all add: parse_simps)
  then show ?thesis by (rule strTint_no_space)
qed

text \<open>\<open>sort_rules\<close> of a single rule asks for the element before the first.\<close>

theorem sort_rules_single:
  "is_std_sort wayToSort srt \<Longrightarrow> sort_rules srt srt1 [r] = Inl Out_Of_Range"
  using std_sort_length [of wayToSort srt "[r]"] by (simp add: sort_rules_def)

end
