(* ===== verification/Trie_Rules.thy ===== *)
theory Trie_Rules
  imports Cxx_Library Matcher_Interface
begin

text \<open>
  The rules of \<open>libmatch/basic_trie\<close> and the functions on rules alone: \<open>mylog2\<close>, the
  expansion of a ternary rule into exact values (\<open>convert_rule\<close>), the split of a mask into its
  prefix part and the wildcards above it (\<open>get_new_num\<close>, \<open>expand_rule\<close>'s candidates).
\<close>

section \<open>Data\<close>

record Rule =
  r_value :: u64
  r_mask :: u64
  r_priority :: u32
  r_action :: u32

definition Rule0 :: Rule where
  "Rule0 = \<lparr>r_value = 0, r_mask = 0, r_priority = 0, r_action = 0\<rparr>"

record trie_result =
  tr_priority :: u32
  tr_action :: u32
  tr_cishu :: u64

definition trie_result0 :: trie_result where
  "trie_result0 = \<lparr>tr_priority = 0, tr_action = 0, tr_cishu = 0\<rparr>"

definition resetRule :: "Rule \<Rightarrow> Rule" where
  "resetRule r = r\<lparr>r_value := 0, r_mask := 0, r_priority := 0\<rparr>"

definition t_matches :: "Rule \<Rightarrow> u64 \<Rightarrow> bool" where
  "t_matches r k = rule_matches (r_value r) (r_mask r) k"

definition t_prio :: "Rule \<Rightarrow> nat" where
  "t_prio r = unat (r_priority r)"

section \<open>mylog2\<close>

function mylog2_loop :: "u64 \<Rightarrow> u64 \<Rightarrow> u64" where
  "mylog2_loop val ret = (if val > 1 then mylog2_loop (drop_bit 1 val) (ret + 1) else ret)"
  by pat_completeness auto
termination
proof (relation "measure (\<lambda>(val, ret). unat val)")
  fix val ret :: u64
  assume "val > 1"
  then have "0 < unat val" by (simp add: word_less_nat_alt)
  then have "unat (drop_bit 1 val) < unat val"
    by (simp add: drop_bit_Suc unat_div)
  then show "((drop_bit 1 val, ret + 1), (val, ret)) \<in> measure (\<lambda>(val, ret). unat val)" by simp
qed simp

declare mylog2_loop.simps [simp del]

definition UINT_MAX :: u64 where
  "UINT_MAX = 4294967295"

definition mylog2 :: "u64 \<Rightarrow> u64" where
  "mylog2 val = (if val = 0 then UINT_MAX else if val = 1 then 0 else mylog2_loop val 0)"

lemma mylog2_loop_shift: "mylog2_loop val (a + b) = mylog2_loop val a + b"
proof (induction val a arbitrary: b rule: mylog2_loop.induct)
  case (1 val ret)
  show ?case
  proof (cases "val > 1")
    case True
    have "mylog2_loop val (ret + b) = mylog2_loop (drop_bit 1 val) (ret + 1 + b)"
      using True by (subst mylog2_loop.simps) (simp add: ac_simps)
    also have "\<dots> = mylog2_loop val ret + b"
      using "1.IH" [OF True] True by (subst (2) mylog2_loop.simps) simp
    finally show ?thesis .
  next
    case False
    then show ?thesis by (simp add: mylog2_loop.simps)
  qed
qed

lemma mylog2_loop_pow: "n < 64 \<Longrightarrow> mylog2_loop (push_bit n 1) r = r + of_nat n"
proof (induction n arbitrary: r)
  case 0
  show ?case by (simp add: mylog2_loop.simps)
next
  case (Suc n)
  have "\<not> bit (push_bit (Suc n) (1 :: u64)) 0" by (simp only: bit_single) simp
  then have "push_bit (Suc n) (1 :: u64) \<noteq> 1" by (metis bit_1_0)
  moreover have "push_bit (Suc n) (1 :: u64) \<noteq> 0"
    using bit_single [of "Suc n" "Suc n", where 'a = 64] Suc.prems by force
  ultimately have "push_bit (Suc n) (1 :: u64) > 1" by unat_arith
  moreover have "drop_bit 1 (push_bit (Suc n) (1 :: u64)) = push_bit n 1"
    using Suc.prems by (auto simp: word_eq_iff_bits bit_simps)
  ultimately show ?case
    using Suc by (subst mylog2_loop.simps) (simp add: ac_simps)
qed

lemma mylog2_pow: "n < 64 \<Longrightarrow> mylog2 (push_bit n 1) = of_nat n"
proof -
  assume n: "n < 64"
  have "push_bit n (1 :: u64) \<noteq> 0"
    using bit_single [of n n, where 'a = 64] n by force
  moreover have "n = 0" if "push_bit n (1 :: u64) = 1"
    using bit_single [of n 0, where 'a = 64] unfolding that by simp
  ultimately show ?thesis
    using mylog2_loop_pow [OF n, of 0] by (auto simp: mylog2_def)
qed

section \<open>Exact expansion of a rule\<close>

text \<open>
  The positions of the set bits of the mask, from the low end; \<open>(mask >> i) & 1 == 1\<close> parses as
  \<open>(mask >> i) & (1 == 1)\<close>, which reads the same bit.
\<close>

definition mask_positions :: "u64 \<Rightarrow> nat list" where
  "mask_positions m = filter (\<lambda>i. drop_bit i m AND 1 = 1) [0..<64]"

text \<open>
  \<open>1 << n\<close> is an \<open>int\<close>: 32 bits, undefined from 32 on; or-ed into a 64-bit value it is
  sign-extended.
\<close>

definition int_one_shl :: "nat \<Rightarrow> u32 cxx" where
  "int_one_shl n = (if n < 32 then Inr (push_bit n 1) else Inl UB_Shift)"

definition expand_bit :: "nat \<Rightarrow> nat list \<Rightarrow> nat \<Rightarrow> u64 \<Rightarrow> u64 cxx" where
  "expand_bit i pos j e =
     rbind (int_one_shl j) (\<lambda>w.
       if w AND of_nat i = 0 then rbind (int_one_shl (pos ! j)) (\<lambda>b. Inr (e OR scast b)) else Inr e)"

definition expand_value :: "u64 \<Rightarrow> nat list \<Rightarrow> nat \<Rightarrow> u64 cxx" where
  "expand_value base pos i = rfold (expand_bit i pos) [0..<length pos] base"

definition convert_rule :: "u64 list \<Rightarrow> Rule \<Rightarrow> u64 list cxx" where
  "convert_rule rulesTable rule =
     (let pos = mask_positions (r_mask rule);
          num = length pos;
          base = r_value rule AND NOT (r_mask rule)
      in rbind (int_one_shl num) (\<lambda>w.
           rbind (rmap (expand_value base pos) [0..<nat (sint w)]) (\<lambda>es. Inr (rulesTable @ es))))"

section \<open>Spreading an index over bit positions\<close>

text \<open>
  Both expansions write the bits of a counter \<open>i\<close> at the positions \<open>pos\<close> of a base value
  (\<open>s\<close> tells whether a set or a clear bit of the counter is written). Counting through
  \<open>2 ^ length pos\<close> values meets every combination exactly once.
\<close>

definition spreads :: "bool \<Rightarrow> nat list \<Rightarrow> u64 \<Rightarrow> (nat \<Rightarrow> u64) \<Rightarrow> bool" where
  "spreads s pos b f \<longleftrightarrow> (\<forall>i < 2 ^ length pos. \<forall>n < 64.
     bit (f i) n \<longleftrightarrow> bit b n \<or> (\<exists>j < length pos. bit i j = s \<and> pos ! j = n))"

lemma nat_eq_of_low_bits:
  fixes i i' :: nat
  assumes "i < 2 ^ n" "i' < 2 ^ n" "\<And>j. j < n \<Longrightarrow> bit i j = bit i' j"
  shows "i = i'"
proof (rule bit_eqI)
  fix k
  have "\<not> bit i k \<and> \<not> bit i' k" if "n \<le> k"
  proof -
    from that have "i < 2 ^ k" "i' < 2 ^ k"
      using assms(1,2) by (meson less_le_trans one_le_numeral power_increasing)+
    then show ?thesis by (simp add: bit_iff_odd)
  qed
  then show "bit i k = bit i' k" using assms(3) by (cases "k < n") auto
qed

lemma spreads_inj:
  assumes f: "spreads s pos b f" and d: "distinct pos" and p: "\<forall>p \<in> set pos. p < 64 \<and> \<not> bit b p"
  shows "inj_on f {..<2 ^ length pos}"
proof (rule inj_onI)
  fix i i' assume i: "i \<in> {..<2 ^ length pos}" "i' \<in> {..<2 ^ length pos}" and eq: "f i = f i'"
  have at: "bit (f i) (pos ! j) \<longleftrightarrow> bit i j = s" if "j < length pos" "i \<in> {..<2 ^ length pos}" for i j
    using f p d that by (auto simp: spreads_def nth_eq_iff_index_eq)
  show "i = i'"
  proof (rule nat_eq_of_low_bits)
    fix j assume "j < length pos"
    with at [of j i] at [of j i'] i eq show "bit i j = bit i' j" by auto
  qed (use i in auto)
qed

lemma spreads_image:
  assumes f: "spreads s pos b f" and d: "distinct pos" and p: "\<forall>p \<in> set pos. p < 64 \<and> \<not> bit b p"
  shows "f ` {..<2 ^ length pos} = {k :: u64. \<forall>n<64. n \<notin> set pos \<longrightarrow> bit k n = bit b n}"
proof (intro set_eqI iffI)
  fix k :: u64 assume "k \<in> f ` {..<2 ^ length pos}"
  then show "k \<in> {k. \<forall>n<64. n \<notin> set pos \<longrightarrow> bit k n = bit b n}"
    using f by (auto simp: spreads_def)
next
  fix k :: u64 assume k: "k \<in> {k. \<forall>n<64. n \<notin> set pos \<longrightarrow> bit k n = bit b n}"
  define i :: nat where "i = horner_sum of_bool 2 (map (\<lambda>q. bit k q = s) pos)"
  have i: "i < 2 ^ length pos"
    using horner_sum_of_bool_2_less [of "map (\<lambda>q. bit k q = s) pos"] by (simp add: i_def)
  have bits: "bit i j \<longleftrightarrow> (bit k (pos ! j) = s)" if "j < length pos" for j
    using that by (simp add: i_def bit_horner_sum_bit_iff)
  have "f i = (k :: u64)"
  proof (rule bit_word_eqI)
    fix n assume n: "n < LENGTH(64)"
    show "bit (f i) n = bit k n"
    proof (cases "n \<in> set pos")
      case True
      then obtain j where j: "j < length pos" "pos ! j = n" by (auto simp: in_set_conv_nth)
      have "bit (f i) n \<longleftrightarrow> bit i j = s"
        using f i n j d p True by (auto simp: spreads_def nth_eq_iff_index_eq)
      with bits [OF j(1)] j(2) show ?thesis by auto
    next
      case False
      then have "bit (f i) n = bit b n" using f i n by (auto simp: spreads_def)
      with k n False show ?thesis by auto
    qed
  qed
  with i show "k \<in> f ` {..<2 ^ length pos}" by blast
qed

section \<open>The exact expansion is the set of matching keys\<close>

lemma mask_positions_eq [bit_at]: "mask_positions m = filter (bit m) [0..<64]"
  by (simp add: mask_positions_def and_one_eq_bit)

lemma set_mask_positions: "set (mask_positions m) = {n. n < 64 \<and> bit m n}"
  by (auto simp: mask_positions_eq)

lemma distinct_mask_positions: "distinct (mask_positions m)"
  by (simp add: mask_positions_eq)

lemma int_one_shl_simps [result_simps]: "n < 32 \<Longrightarrow> int_one_shl n = Inr (2 ^ n)"
  by (simp add: int_one_shl_def)

lemma scast_power: "n < 31 \<Longrightarrow> (scast ((2 :: u32) ^ n) :: u64) = 2 ^ n"
  by (rule bit_word_eqI) (auto simp: bit_simps)

lemma power_and_of_nat: "j < 32 \<Longrightarrow> (2 :: u32) ^ j AND of_nat i = 0 \<longleftrightarrow> \<not> bit i j"
  using and_single_bit_eq_0 [of j "of_nat i :: u32"] by (simp add: bit_of_nat_iff)

lemma expand_bits:
  assumes "\<forall>j \<in> set js. j < 32 \<and> pos ! j < 31"
  shows "\<exists>e'. rfold (expand_bit i pos) js e = Inr e' \<and>
    (\<forall>n<64. bit e' n \<longleftrightarrow> bit e n \<or> (\<exists>j \<in> set js. bit i j = False \<and> pos ! j = n))"
  using assms
proof (induction js arbitrary: e)
  case Nil
  then show ?case by simp
next
  case (Cons j js)
  let ?e1 = "if bit i j then e else e OR 2 ^ (pos ! j)"
  have "expand_bit i pos j e = Inr ?e1"
    using Cons.prems
    by (simp add: expand_bit_def int_one_shl_simps power_and_of_nat scast_power)
  moreover have "bit ?e1 n \<longleftrightarrow> bit e n \<or> (bit i j = False \<and> pos ! j = n)" if "n < 64" for n
    using that by (auto simp: bit_or_iff bit_power_two)
  moreover obtain e' where "rfold (expand_bit i pos) js ?e1 = Inr e'" and
    "\<forall>n<64. bit e' n \<longleftrightarrow> bit ?e1 n \<or> (\<exists>j \<in> set js. bit i j = False \<and> pos ! j = n)"
    using Cons.IH [of ?e1] Cons.prems by auto
  ultimately show ?case by auto
qed

lemma expand_value_spreads:
  assumes "length pos \<le> 32" and "\<forall>p \<in> set pos. p < 31"
  shows "\<exists>f. (\<forall>i. expand_value b pos i = Inr (f i)) \<and> spreads False pos b f"
proof -
  have "\<forall>i. \<exists>e. expand_value b pos i = Inr e \<and> (\<forall>n<64. bit e n \<longleftrightarrow>
      bit b n \<or> (\<exists>j \<in> set [0..<length pos]. bit i j = False \<and> pos ! j = n))"
    unfolding expand_value_def by (intro allI expand_bits) (use assms in auto)
  then obtain f where "\<forall>i. expand_value b pos i = Inr (f i) \<and> (\<forall>n<64. bit (f i) n \<longleftrightarrow>
      bit b n \<or> (\<exists>j \<in> set [0..<length pos]. bit i j = False \<and> pos ! j = n))"
    by metis
  then have "spreads False pos b f" and "\<forall>i. expand_value b pos i = Inr (f i)"
    by (auto simp: spreads_def)
  then show ?thesis by blast
qed

lemma sint_power: "n < 31 \<Longrightarrow> sint ((2 :: u32) ^ n) = 2 ^ n"
proof -
  assume n: "n < 31"
  have "sint ((2 :: u32) ^ n) = signed_take_bit 31 (2 ^ n)"
    by transfer simp
  also have "\<dots> = 2 ^ n"
  proof (rule signed_take_bit_int_eq_self)
    show "- (2 ^ 31) \<le> (2 :: int) ^ n" by (rule order_trans [of _ 0]) simp_all
    show "(2 :: int) ^ n < 2 ^ 31" by (rule power_strict_increasing [OF n]) simp
  qed
  finally show ?thesis .
qed

lemma convert_rule_map:
  assumes "length (mask_positions (r_mask r)) < 31" and "\<forall>n. bit (r_mask r) n \<longrightarrow> n < 31"
  shows "\<exists>f. convert_rule tbl r = Inr (tbl @ map f [0..<2 ^ length (mask_positions (r_mask r))]) \<and>
    spreads False (mask_positions (r_mask r)) (r_value r AND NOT (r_mask r)) f"
proof -
  let ?pos = "mask_positions (r_mask r)" and ?b = "r_value r AND NOT (r_mask r)"
  obtain f where f: "\<forall>i. expand_value ?b ?pos i = Inr (f i)" "spreads False ?pos ?b f"
    using expand_value_spreads [of ?pos ?b] assms by (auto simp: set_mask_positions)
  have "rmap (expand_value ?b ?pos) is = Inr (map f is)" for "is"
    by (rule rmap_Inr_map) (simp add: f(1))
  moreover have "nat (sint ((2 :: u32) ^ length ?pos)) = 2 ^ length ?pos"
    by (simp add: sint_power [OF assms(1)] nat_power_eq)
  ultimately show ?thesis
    using f(2) assms(1)
    by (auto simp: convert_rule_def Let_def int_one_shl_simps nat_power_eq intro!: exI [of _ f])
qed

lemma base_matches:
  "{k. \<forall>n<64. n \<notin> set (mask_positions m) \<longrightarrow> bit k n = bit (v AND NOT m) n} = {k. rule_matches v m k}"
  by (auto simp: rule_matches_bits set_mask_positions bit_simps)

text \<open>While no wildcard lies above bit 30 (and there are at most 30), \<open>convert_rule\<close> appends every
  key the rule matches, each exactly once.\<close>

theorem convert_rule_exact:
  assumes "length (mask_positions (r_mask r)) < 31" and "\<forall>n. bit (r_mask r) n \<longrightarrow> n < 31"
  shows "\<exists>es. convert_rule tbl r = Inr (tbl @ es) \<and> distinct es \<and> set es = {k. t_matches r k}"
proof -
  let ?pos = "mask_positions (r_mask r)" and ?b = "r_value r AND NOT (r_mask r)"
  obtain f where f: "convert_rule tbl r = Inr (tbl @ map f [0..<2 ^ length ?pos])"
    "spreads False ?pos ?b f"
    using convert_rule_map [OF assms] by blast
  have p: "\<forall>p \<in> set ?pos. p < 64 \<and> \<not> bit ?b p"
    by (auto simp: set_mask_positions bit_simps)
  have "f ` {..<2 ^ length ?pos} = {k. t_matches r k}"
    unfolding spreads_image [OF f(2) distinct_mask_positions p] t_matches_def by (rule base_matches)
  moreover have "inj_on f {..<2 ^ length ?pos}"
    by (rule spreads_inj [OF f(2) distinct_mask_positions p])
  ultimately have "distinct (map f [0..<2 ^ length ?pos]) \<and>
      set (map f [0..<2 ^ length ?pos]) = {k. t_matches r k}"
    by (simp add: distinct_map atLeast0LessThan)
  with f(1) show ?thesis by blast
qed

theorem convert_rule_exact_witness:
  "\<exists>es. convert_rule [] \<lparr>r_value = 8, r_mask = 5, r_priority = 1, r_action = 0\<rparr> = Inr es \<and>
     set es = {k. rule_matches 8 5 k}"
proof -
  let ?r = "\<lparr>r_value = 8, r_mask = 5, r_priority = 1, r_action = 0\<rparr> :: Rule"
  have pos: "mask_positions (r_mask ?r) = [0, 2]" by code_simp
  have lt: "n < 31" if "bit (r_mask ?r) n" for n
  proof -
    from that have "n \<in> set (mask_positions (r_mask ?r))"
      by (auto simp: set_mask_positions dest: bit_imp_le_length)
    then have "n \<in> set [0, 2]" by (simp only: pos)
    then show ?thesis by auto
  qed
  have "length (mask_positions (r_mask ?r)) < 31" by (simp only: pos) simp
  from convert_rule_exact [OF this, of "[]"] lt show ?thesis by (auto simp: t_matches_def)
qed

text \<open>
  A wildcard at bit 31 is written as \<open>1 << 31\<close>, a negative \<open>int\<close> whose sign extension sets the
  upper half as well; from bit 32 on the shift is undefined.
\<close>

theorem convert_rule_bit31:
  "convert_rule [] \<lparr>r_value = 0, r_mask = 0x80000000, r_priority = 1, r_action = 0\<rparr> =
     Inr [0xFFFFFFFF80000000, 0] \<and>
   convert_rule [] \<lparr>r_value = 0, r_mask = 0x100000000, r_priority = 1, r_action = 0\<rparr> = Inl UB_Shift"
  by code_simp

section \<open>The prefix part of a mask and the wildcards above it\<close>

text \<open>The first clear bit from the low end; 0 when there is none.\<close>

fun boundary_loop :: "u64 \<Rightarrow> nat list \<Rightarrow> nat" where
  "boundary_loop m [] = 0"
| "boundary_loop m (i # is) = (if drop_bit i m AND 1 = 0 then i else boundary_loop m is)"

definition boundary :: "u64 \<Rightarrow> nat" where
  "boundary m = boundary_loop m [0..<64]"

definition new_positions :: "u64 \<Rightarrow> nat \<Rightarrow> nat list" where
  "new_positions m b = filter (\<lambda>j. drop_bit j m AND 1 = 1) [b + 1..<64]"

definition get_new_num :: "Rule \<Rightarrow> u32" where
  "get_new_num r = of_nat (length (new_positions (r_mask r) (boundary (r_mask r))))"

definition expanded_value :: "u64 \<Rightarrow> nat list \<Rightarrow> nat \<Rightarrow> u64 cxx" where
  "expanded_value v pos i =
     rfold (\<lambda>j e. rbind (shl64 1 j) (\<lambda>w.
              if w AND of_nat i \<noteq> 0 then rbind (shl64 1 (pos ! j)) (\<lambda>b. Inr (e OR b)) else Inr e))
       [0..<length pos] v"

lemma boundary_loop_first:
  "(\<exists>i \<in> set is. \<not> bit m i) \<Longrightarrow> sorted is \<Longrightarrow>
   \<not> bit m (boundary_loop m is) \<and> boundary_loop m is \<in> set is \<and>
   (\<forall>j \<in> set is. j < boundary_loop m is \<longrightarrow> bit m j)"
proof (induction "is")
  case Nil
  then show ?case by simp
next
  case (Cons i "is")
  show ?case
  proof (cases "bit m i")
    case True
    with Cons.prems have "\<exists>i \<in> set is. \<not> bit m i" "sorted is" by auto
    from Cons.IH [OF this] True show ?thesis by (auto simp: and_one_eq_bit)
  next
    case False
    with Cons.prems(2) show ?thesis by (auto simp: and_one_eq_bit)
  qed
qed

lemma not_all_ones: "(m :: u64) \<noteq> -1 \<Longrightarrow> \<exists>i<64. \<not> bit m i"
  using word_eq_iff_bits [of m "-1"] by (simp add: bit_minus_1_iff)

lemma boundary_first:
  assumes "m \<noteq> -1"
  shows "\<not> bit m (boundary m)" "boundary m < 64" "\<And>j. j < boundary m \<Longrightarrow> bit m j"
proof -
  have "\<exists>i \<in> set [0..<64]. \<not> bit m i" using not_all_ones [OF assms] by auto
  from boundary_loop_first [OF this]
  have *: "\<not> bit m (boundary m) \<and> boundary m \<in> set [0..<64] \<and>
      (\<forall>j \<in> set [0..<64]. j < boundary m \<longrightarrow> bit m j)"
    by (simp add: boundary_def)
  then show "\<not> bit m (boundary m)" "boundary m < 64" "\<And>j. j < boundary m \<Longrightarrow> bit m j"
    by auto
qed

lemma set_new_positions: "set (new_positions m b) = {n. b < n \<and> n < 64 \<and> bit m n}"
  by (auto simp: new_positions_def and_one_eq_bit)

lemma distinct_new_positions: "distinct (new_positions m b)"
  by (simp add: new_positions_def)

lemma length_new_positions: "length (new_positions m b) < 64"
proof -
  have "length (new_positions m b) \<le> length [b + 1..<64]"
    unfolding new_positions_def by (rule length_filter_le)
  then show ?thesis by simp
qed

lemma mask_split:
  assumes "m \<noteq> -1"
  shows "bit m n \<longleftrightarrow> n < boundary m \<or> n \<in> set (new_positions m (boundary m))"
  using boundary_first [OF assms]
  by (auto simp: set_new_positions dest: bit_imp_le_length) (metis linorder_neqE_nat)

lemma prefix_mask_eq: "2 ^ b - 1 = (Bit_Operations.mask b :: u64)"
  by (simp add: mask_eq_exp_minus_1)

lemma expanded_bits:
  assumes "\<forall>j \<in> set js. j < 64 \<and> pos ! j < 64"
  shows "\<exists>e'. rfold (\<lambda>j e. rbind (shl64 1 j) (\<lambda>w.
        if w AND of_nat i \<noteq> 0 then rbind (shl64 1 (pos ! j)) (\<lambda>b. Inr (e OR b)) else Inr e)) js e = Inr e' \<and>
    (\<forall>n<64. bit e' n \<longleftrightarrow> bit e n \<or> (\<exists>j \<in> set js. bit i j = True \<and> pos ! j = n))"
  using assms
proof (induction js arbitrary: e)
  case Nil
  then show ?case by simp
next
  case (Cons j js)
  let ?f = "\<lambda>j e. rbind (shl64 1 j) (\<lambda>w.
        if w AND of_nat i \<noteq> 0 then rbind (shl64 1 (pos ! j)) (\<lambda>b. Inr (e OR b)) else Inr e)"
  let ?e1 = "if bit i j then e OR push_bit (pos ! j) 1 else e"
  have j: "j < 64" "pos ! j < 64" using Cons.prems by auto
  have "push_bit j 1 AND (of_nat i :: u64) = 0 \<longleftrightarrow> \<not> bit i j"
    using and_single_bit_eq_0 [of j "of_nat i :: u64"] j by (simp add: bit_of_nat_iff)
  then have "?f j e = Inr ?e1" using j by simp
  moreover have "bit ?e1 n \<longleftrightarrow> bit e n \<or> (bit i j = True \<and> pos ! j = n)" if "n < 64" for n
    using that j by (auto simp: bit_or_iff bit_power_two)
  moreover obtain e' where "rfold ?f js ?e1 = Inr e'" and
    "\<forall>n<64. bit e' n \<longleftrightarrow> bit ?e1 n \<or> (\<exists>j \<in> set js. bit i j = True \<and> pos ! j = n)"
    using Cons.IH [of ?e1] Cons.prems by auto
  ultimately show ?case by auto
qed

lemma expanded_value_spreads:
  assumes "\<forall>p \<in> set pos. p < 64" and "length pos \<le> 64"
  shows "\<exists>f. (\<forall>i. expanded_value v pos i = Inr (f i)) \<and> spreads True pos v f"
proof -
  have "\<forall>i. \<exists>e. expanded_value v pos i = Inr e \<and> (\<forall>n<64. bit e n \<longleftrightarrow>
      bit v n \<or> (\<exists>j \<in> set [0..<length pos]. bit i j = True \<and> pos ! j = n))"
    unfolding expanded_value_def by (intro allI expanded_bits) (use assms in auto)
  then obtain f where "\<forall>i. expanded_value v pos i = Inr (f i) \<and> (\<forall>n<64. bit (f i) n \<longleftrightarrow>
      bit v n \<or> (\<exists>j \<in> set [0..<length pos]. bit i j = True \<and> pos ! j = n))"
    by metis
  then have "spreads True pos v f" and "\<forall>i. expanded_value v pos i = Inr (f i)"
    by (auto simp: spreads_def)
  then show ?thesis by blast
qed

lemma expansion_covers:
  assumes m: "m \<noteq> -1" and f: "spreads True (new_positions m (boundary m)) v f"
    and clear: "\<forall>p \<in> set (new_positions m (boundary m)). \<not> bit v p"
  shows "rule_matches v m k \<longleftrightarrow>
    (\<exists>i < 2 ^ length (new_positions m (boundary m)). rule_matches (f i) (push_bit (boundary m) 1 - 1) k)"
proof -
  let ?pos = "new_positions m (boundary m)"
  define pm where "pm = push_bit (boundary m) 1 - (1 :: u64)"
  have b: "boundary m < 64" using boundary_first(2) [OF m] .
  have pm: "bit pm n \<longleftrightarrow> n < boundary m" for n
    unfolding pm_def using b prefix_mask_eq [of "boundary m"] by (auto simp: bit_mask_iff)
  have p: "\<forall>p \<in> set ?pos. p < 64 \<and> \<not> bit v p"
    using clear by (auto simp: set_new_positions)
  show ?thesis unfolding pm_def [symmetric]
  proof
    assume match: "rule_matches v m k"
    define k' where "k' = (k AND NOT pm) OR (v AND pm)"
    have "k' \<in> {k. \<forall>n<64. n \<notin> set ?pos \<longrightarrow> bit k n = bit v n}"
      using match by (auto simp: k'_def rule_matches_bits pm mask_split [OF m] bit_simps)
    then obtain i where i: "i < 2 ^ length ?pos" "f i = k'"
      unfolding spreads_image [OF f distinct_new_positions p, symmetric] by auto
    have "rule_matches k' pm k" by (auto simp: rule_matches_bits k'_def pm bit_simps)
    with i show "\<exists>i < 2 ^ length ?pos. rule_matches (f i) pm k" by blast
  next
    assume "\<exists>i < 2 ^ length ?pos. rule_matches (f i) pm k"
    then obtain i where i: "i < 2 ^ length ?pos" and match: "rule_matches (f i) pm k" by blast
    have "bit (f i) n = bit v n" if "n < 64" "n \<notin> set ?pos" for n
      using f i that by (auto simp: spreads_def)
    with match show "rule_matches v m k"
      by (auto simp: rule_matches_bits pm mask_split [OF m])
  qed
qed

end
