(* ===== verification/Basic_Trie.thy ===== *)
theory Basic_Trie
  imports Trie_Rules
begin

text \<open>
  The binary trie of \<open>libmatch/basic_trie.cpp\<close>. The nodes hang together by owning pointers,
  each child reached from one parent only, so the heap of a trie is a value of the datatype
  \<open>trie_node\<close> (\<open>Null\<close> is the null pointer) and a loop that walks down and writes through
  \<open>pRule\<close> is a recursion that returns the changed subtree. Loops over \<open>level = 0, .., 63\<close> are
  recursions on the number \<open>n\<close> of levels left: with \<open>Suc n\<close> levels left, \<open>63 - level\<close> is \<open>n\<close>.
\<close>

section \<open>Data\<close>

datatype trie_node =
  Null
| Node (node_priority: u32) (node_action: u32) (child0: trie_node) (child1: trie_node)

text \<open>The static variables of the file that the trie operations read and write.\<close>

record globals =
  debug :: u64
  threshold :: u64
  blowup :: bool
  new_num1 :: u32

record Trie =
  root :: trie_node
  rule_count :: u32
  node_count :: u64
  expand_count :: u64
  expandedTable :: "Rule list"

definition fresh_node :: trie_node where
  "fresh_node = Node 0 0 Null Null"

definition new_node :: "globals \<Rightarrow> globals \<times> trie_node" where
  "new_node g = (g\<lparr>debug := debug g + 1\<rparr>, fresh_node)"

definition new_Trie :: "globals \<Rightarrow> globals \<times> Trie" where
  "new_Trie g =
     (let (g, r) = new_node g
      in (g, \<lparr>root = r, rule_count = 0, node_count = 1, expand_count = 0, expandedTable = []\<rparr>))"

fun is_rule_node :: "trie_node \<Rightarrow> bool" where
  "is_rule_node Null = False"
| "is_rule_node (Node p a l r) = (p \<noteq> 0)"

fun is_independent_node :: "trie_node \<Rightarrow> bool" where
  "is_independent_node Null = True"
| "is_independent_node (Node p a l r) = (l = Null \<and> r = Null)"

section \<open>Reading and writing through a node pointer\<close>

definition index_at :: "u64 \<Rightarrow> nat \<Rightarrow> nat" where
  "index_at v s = unat (drop_bit s v AND 1)"

fun child :: "nat \<Rightarrow> trie_node \<Rightarrow> trie_node" where
  "child i Null = Null"
| "child i (Node p a l r) = (if i = 0 then l else r)"

fun set_child :: "nat \<Rightarrow> trie_node \<Rightarrow> trie_node \<Rightarrow> trie_node" where
  "set_child i c Null = Null"
| "set_child i c (Node p a l r) = (if i = 0 then Node p a c r else Node p a l c)"

fun set_priority :: "u32 \<Rightarrow> trie_node \<Rightarrow> trie_node" where
  "set_priority q Null = Null"
| "set_priority q (Node p a l r) = Node q a l r"

fun set_action :: "u32 \<Rightarrow> trie_node \<Rightarrow> trie_node" where
  "set_action b Null = Null"
| "set_action b (Node p a l r) = Node p b l r"

text \<open>"If the key is not present, insert a new node": the child to go on with, the node count of
  the trie and the global node counter.\<close>

definition step_down :: "nat \<Rightarrow> trie_node \<Rightarrow> u64 \<Rightarrow> u64 \<Rightarrow> trie_node \<times> u64 \<times> u64" where
  "step_down i t nc dbg =
     (if child i t = Null then (fresh_node, nc + 1, dbg + 1) else (child i t, nc, dbg))"

section \<open>Exact values: insert, search, remove\<close>

fun insert_value_loop :: "u64 \<Rightarrow> u32 \<Rightarrow> nat \<Rightarrow> trie_node \<Rightarrow> u64 \<Rightarrow> u64 \<Rightarrow> trie_node \<times> u64 \<times> u64" where
  "insert_value_loop v c 0 t nc dbg = (set_priority c t, nc, dbg)"
| "insert_value_loop v c (Suc n) t nc dbg =
     (let i = index_at v n;
          (ch, nc, dbg) = step_down i t nc dbg;
          (ch', nc, dbg) = insert_value_loop v c n ch nc dbg
      in (set_child i ch' t, nc, dbg))"

definition insert_rule_value :: "u64 \<Rightarrow> globals \<times> Trie \<Rightarrow> globals \<times> Trie" where
  "insert_rule_value v s =
     (let (g, T) = s;
          T = T\<lparr>rule_count := rule_count T + 1\<rparr>;
          (r, nc, dbg) = insert_value_loop v (rule_count T) 64 (root T) (node_count T) (debug g)
      in (g\<lparr>debug := dbg\<rparr>, T\<lparr>root := r, node_count := nc\<rparr>))"

definition insert_rule :: "Rule \<Rightarrow> globals \<times> Trie \<Rightarrow> (globals \<times> Trie) cxx" where
  "insert_rule rule s =
     (let pos = mask_positions (r_mask rule);
          base = r_value rule AND NOT (r_mask rule)
      in rbind (int_one_shl (length pos)) (\<lambda>w.
           rfold (\<lambda>i s. rbind (expand_value base pos i) (\<lambda>e. Inr (insert_rule_value e s)))
             [0..<nat (sint w)] s))"

fun search_value_loop :: "u64 \<Rightarrow> nat \<Rightarrow> trie_node \<Rightarrow> bool" where
  "search_value_loop k 0 t = is_rule_node t"
| "search_value_loop k (Suc n) t =
     (if child (index_at k n) t = Null then False
      else search_value_loop k n (child (index_at k n) t))"

definition search_rule :: "u64 \<Rightarrow> Trie \<Rightarrow> bool" where
  "search_rule k T = search_value_loop k 64 (root T)"

text \<open>
  \<open>remove(pNode, rule, level, len)\<close> with \<open>n = len - level\<close> and \<open>len = 64\<close>; the second component
  is the node after the call, which the caller keeps unless the call asks for its deletion.
\<close>

fun remove :: "u64 \<Rightarrow> nat \<Rightarrow> trie_node \<Rightarrow> bool \<times> trie_node" where
  "remove v n Null = (False, Null)"
| "remove v 0 (Node p a l r) = (is_independent_node (Node 0 a l r), Node 0 a l r)"
| "remove v (Suc n) (Node p a l r) =
     (let i = index_at v n;
          (del, c) = remove v n (child i (Node p a l r))
      in if del
         then let t = set_child i Null (Node p a l r)
              in (\<not> is_rule_node t \<and> is_independent_node t, t)
         else (False, set_child i c (Node p a l r)))"

definition delete_rule :: "u64 \<Rightarrow> Trie \<Rightarrow> Trie" where
  "delete_rule v T = T\<lparr>root := snd (remove v 64 (root T))\<rparr>"

section \<open>Prefix rules\<close>

text \<open>
  \<open>prefix_len = 64 - mask_num\<close> in 32-bit unsigned arithmetic: for the all-ones mask
  \<open>mylog2 (mask + 1) = mylog2 0 = UINT_MAX\<close> and the length is 65.
\<close>

definition prefix_len :: "u64 \<Rightarrow> u32" where
  "prefix_len m = 64 - ucast (mylog2 (m + 1))"

datatype ins_status = Reached | Shadowed | NoMemory

text \<open>
  The walk of \<open>insert_prefix_rule_priority\<close>: \<open>n\<close> levels to go from \<open>level\<close>. Each level may stop
  with "no memory" (the node budget \<open>threshold\<close> is used up) or find, on the way down, a rule of
  smaller priority that shadows the new one. Shifting by \<open>63 - level\<close> is undefined at level 64.
\<close>

fun insert_prio_loop ::
  "u64 \<Rightarrow> Rule \<Rightarrow> nat \<Rightarrow> nat \<Rightarrow> trie_node \<Rightarrow> u64 \<Rightarrow> u64 \<Rightarrow> (ins_status \<times> trie_node \<times> u64 \<times> u64) cxx" where
  "insert_prio_loop th rule 0 level t nc dbg =
     Inr (Reached, set_action (r_action rule) (set_priority (r_priority rule) t), nc, dbg)"
| "insert_prio_loop th rule (Suc n) level t nc dbg =
     (if 63 < level then Inl UB_Shift
      else let i = index_at (r_value rule) (63 - level)
           in if child i t = Null \<and> nc + 1 > th then Inr (NoMemory, t, nc, dbg)
              else let (ch, nc, dbg) = step_down i t nc dbg
                   in if node_priority ch > 0 \<and> node_priority ch < r_priority rule
                      then Inr (Shadowed, set_child i ch t, nc, dbg)
                      else rbind (insert_prio_loop th rule n (Suc level) ch nc dbg)
                             (\<lambda>(st, ch', nc, dbg). Inr (st, set_child i ch' t, nc, dbg)))"

definition insert_prefix_rule_priority :: "Rule \<Rightarrow> globals \<times> Trie \<Rightarrow> (int \<times> globals \<times> Trie) cxx" where
  "insert_prefix_rule_priority rule s =
     (let (g, T) = s
      in rbind (insert_prio_loop (threshold g) rule (unat (prefix_len (r_mask rule))) 0
                  (root T) (node_count T) (debug g))
           (\<lambda>(st, r, nc, dbg).
              Inr (if st = NoMemory then 1 else 0, g\<lparr>debug := dbg\<rparr>,
                T\<lparr>root := r, node_count := nc,
                  rule_count := (if st = Reached then rule_count T + 1 else rule_count T)\<rparr>)))"

text \<open>
  \<open>insert_prefix_rule\<close>: no priorities (the running count is stored), and new nodes are not
  counted in \<open>node_count\<close>.
\<close>

fun insert_prefix_loop :: "u64 \<Rightarrow> u32 \<Rightarrow> nat \<Rightarrow> nat \<Rightarrow> trie_node \<Rightarrow> u64 \<Rightarrow> (trie_node \<times> u64) cxx" where
  "insert_prefix_loop v c 0 level t dbg = Inr (set_priority c t, dbg)"
| "insert_prefix_loop v c (Suc n) level t dbg =
     (if 63 < level then Inl UB_Shift
      else let i = index_at v (63 - level);
               (ch, _, dbg) = step_down i t 0 dbg
           in rbind (insert_prefix_loop v c n (Suc level) ch dbg)
                (\<lambda>(ch', dbg). Inr (set_child i ch' t, dbg)))"

definition insert_prefix_rule :: "u64 \<Rightarrow> u64 \<Rightarrow> globals \<times> Trie \<Rightarrow> (globals \<times> Trie) cxx" where
  "insert_prefix_rule v m s =
     (let (g, T) = s;
          T = T\<lparr>rule_count := rule_count T + 1\<rparr>
      in rbind (insert_prefix_loop v (rule_count T) (unat (prefix_len m)) 0 (root T) (debug g))
           (\<lambda>(r, dbg). Inr (g\<lparr>debug := dbg\<rparr>, T\<lparr>root := r\<rparr>)))"

section \<open>Ternary rules: expansion into prefix rules\<close>

text \<open>
  The loop over the \<open>2 ^ new_num1\<close> prefix rules; it stops at the first insertion that fails for
  memory (the flag). \<open>expand_count\<close> grows by the size of the whole table each time.
\<close>

fun expand_loop ::
  "Rule \<Rightarrow> nat \<Rightarrow> nat list \<Rightarrow> nat list \<Rightarrow> globals \<times> Trie \<Rightarrow> (bool \<times> globals \<times> Trie) cxx" where
  "expand_loop rule b pos [] s = Inr (True, s)"
| "expand_loop rule b pos (i # is) s =
     rbind (expanded_value (r_value rule) pos i) (\<lambda>v.
     rbind (shl64 1 b) (\<lambda>w.
       let e = \<lparr>r_value = v, r_mask = w - 1, r_priority = r_priority rule, r_action = r_action rule\<rparr>
       in rbind (insert_prefix_rule_priority e s) (\<lambda>(test, g, T).
            if test = 1 then Inr (False, g, T)
            else let T = T\<lparr>expandedTable := expandedTable T @ [e]\<rparr>;
                     T = T\<lparr>expand_count := expand_count T + of_nat (length (expandedTable T))\<rparr>
                 in expand_loop rule b pos is (g, T))))"

definition expand_rule :: "Rule \<Rightarrow> globals \<times> Trie \<Rightarrow> (bool \<times> globals \<times> Trie) cxx" where
  "expand_rule rule s =
     (let (g, T) = s;
          b = boundary (r_mask rule);
          pos = new_positions (r_mask rule) b;
          g = g\<lparr>new_num1 := of_nat (length pos)\<rparr>
      in if new_num1 g > 15 then Inr (False, g\<lparr>blowup := True\<rparr>, T)
         else expand_loop rule b pos [0..<2 ^ length pos] (g, T))"

section \<open>Search\<close>

text \<open>
  \<open>LPM_search_rule\<close>: every iteration but the last case returns.
\<close>

fun LPM_loop :: "u64 \<Rightarrow> nat \<Rightarrow> trie_node \<Rightarrow> bool" where
  "LPM_loop k 0 t = False"
| "LPM_loop k (Suc n) t =
     (let c = child (index_at k n) t
      in if c = Null \<and> node_priority t = 0 then False
         else if c = Null \<and> node_priority t \<noteq> 0 then True
         else if c \<noteq> Null \<and> node_priority c = 0 then True
         else LPM_loop k n c)"

definition LPM_search_rule :: "u64 \<Rightarrow> Trie \<Rightarrow> bool" where
  "LPM_search_rule k T = LPM_loop k 64 (root T)"

text \<open>
  \<open>LPM1_search_rule\<close>: all the way down, collecting the priorities met (64-bit copies) and
  keeping the smallest; \<open>cishu\<close> counts the levels entered. The node's action is never read.
\<close>

fun LPM1_loop :: "u64 \<Rightarrow> nat \<Rightarrow> trie_node \<Rightarrow> u64 list \<Rightarrow> trie_result \<Rightarrow> trie_result cxx" where
  "LPM1_loop k 0 t ps ret = Inr ret"
| "LPM1_loop k (Suc n) t ps ret =
     (case child (index_at k n) t of
        Null \<Rightarrow> Inr ret
      | Node p a l r \<Rightarrow>
          let cishu = of_nat ((63 - n) + 1) in
          if p \<noteq> 0
          then let ps = ps @ [ucast p]
               in rbind (min_element ps) (\<lambda>m.
                    LPM1_loop k n (Node p a l r) ps (ret\<lparr>tr_priority := ucast m, tr_cishu := cishu\<rparr>))
          else LPM1_loop k n (Node p a l r) ps (ret\<lparr>tr_cishu := cishu\<rparr>))"

definition LPM1_search_rule :: "u64 \<Rightarrow> Trie \<Rightarrow> trie_result cxx" where
  "LPM1_search_rule k T = LPM1_loop k 64 (root T) [] trie_result0"

section \<open>Deleting a whole trie\<close>

fun delete_trie :: "trie_node \<Rightarrow> u64 \<Rightarrow> u64" where
  "delete_trie Null dbg = dbg"
| "delete_trie (Node p a l r) dbg =
     (let dbg = (if l \<noteq> Null then delete_trie l dbg else dbg);
          dbg = (if r \<noteq> Null then delete_trie r dbg else dbg)
      in dbg - 1)"

end
