(* ===== verification/Basic_Trie_Priority.thy ===== *)
theory Basic_Trie_Priority
  imports Basic_Trie
begin

text \<open>
  Correctness of the priority trie: the smallest priority met on the path of a key
  (\<open>path_best\<close>) is what \<open>LPM1_search_rule\<close> returns, an insertion changes it exactly for the
  keys the rule matches, the node counters agree with the tree, and the node budget is kept.
  The priority trie is a provider of the matcher contract.
\<close>

section \<open>Reading and writing nodes\<close>

named_theorems node_simps "accessors of trie nodes"

lemma index_at_bit [node_simps]: "index_at v s = of_bool (bit v s)"
  by (simp add: index_at_def unat_and_one)

lemma child_set_child [node_simps]:
  "t \<noteq> Null \<Longrightarrow> child i (set_child j c t) = (if (i = 0) = (j = 0) then c else child i t)"
  by (cases t) auto

lemma set_child_nonnull [node_simps]: "set_child i c t = Null \<longleftrightarrow> t = Null"
  by (cases t) auto

lemma node_priority_set_child [node_simps]:
  "t \<noteq> Null \<Longrightarrow> node_priority (set_child i c t) = node_priority t"
  by (cases t) auto

lemma set_write_nonnull [node_simps]:
  "set_action b t = Null \<longleftrightarrow> t = Null" "set_priority p t = Null \<longleftrightarrow> t = Null"
  by (cases t; simp)+

lemma fresh_nonnull [node_simps]:
  "fresh_node \<noteq> Null" "Null \<noteq> fresh_node" "node_priority fresh_node = 0"
  by (simp_all add: fresh_node_def)

lemma step_down_cases:
  assumes "step_down i t nc dbg = (ch, nc', dbg')"
  obtains (old) "child i t \<noteq> Null" "ch = child i t" "nc' = nc" "dbg' = dbg"
  | (new) "child i t = Null" "ch = fresh_node" "nc' = nc + 1" "dbg' = dbg + 1"
  using assms by (auto simp: step_down_def split: if_splits)

section \<open>The best priority on the path of a key\<close>

fun path_best :: "nat \<Rightarrow> u64 \<Rightarrow> trie_node \<Rightarrow> nat" where
  "path_best n k Null = 0"
| "path_best 0 k (Node p a l r) = unat p"
| "path_best (Suc n) k (Node p a l r) = better (unat p) (path_best n k (if bit k n then r else l))"

lemma path_best_0: "t \<noteq> Null \<Longrightarrow> path_best 0 k t = unat (node_priority t)"
  by (cases t) auto

lemma path_best_Suc:
  "t \<noteq> Null \<Longrightarrow>
   path_best (Suc n) k t = better (unat (node_priority t)) (path_best n k (child (index_at k n) t))"
  by (cases t) (auto simp: index_at_bit)

text \<open>The same below the node, which is what the search collects.\<close>

fun path_below :: "nat \<Rightarrow> u64 \<Rightarrow> trie_node \<Rightarrow> nat" where
  "path_below 0 k t = 0"
| "path_below (Suc n) k t = path_best n k (child (index_at k n) t)"

lemma path_best_below:
  "t \<noteq> Null \<Longrightarrow> path_best n k t = better (unat (node_priority t)) (path_below n k t)"
  by (cases n) (simp_all add: path_best_0 path_best_Suc)

lemma path_best_fresh [simp]: "path_best n k fresh_node = 0"
  by (cases n) (simp_all add: fresh_node_def)

lemma path_best_set_priority:
  assumes "t \<noteq> Null" and "node_priority t = 0 \<or> q \<le> node_priority t" and "0 < unat q"
  shows "path_best n k (set_action b (set_priority q t)) = better (path_best n k t) (unat q)"
proof -
  obtain p a l r where t: "t = Node p a l r" using assms(1) by (cases t) auto
  have "better (unat q) (unat p) = unat q"
    using assms(2,3) by (auto simp: t better_def word_le_nat_alt min_def unat_eq_0)
  then have "better (unat q) x = better (better (unat p) x) (unat q)" for x
    by (metis better_assoc better_commute)
  from this [of 0] this show ?thesis by (cases n) (simp_all add: t)
qed

text \<open>One step of a walk that changes the child on the key's side.\<close>

lemma path_best_set_child:
  assumes "t \<noteq> Null"
  shows "path_best (Suc n) k (set_child (index_at v n) c t) =
    (if bit k n = bit v n
     then better (unat (node_priority t)) (path_best n k c) else path_best (Suc n) k t)"
proof -
  have "set_child (index_at v n) c t \<noteq> Null" using assms by (simp add: set_child_nonnull)
  then show ?thesis
    using assms
    by (auto simp: path_best_Suc node_priority_set_child child_set_child index_at_bit)
qed

section \<open>Insertion\<close>

definition agrees :: "nat \<Rightarrow> nat \<Rightarrow> u64 \<Rightarrow> u64 \<Rightarrow> bool" where
  "agrees n N k v \<longleftrightarrow> (\<forall>b. N - n \<le> b \<and> b < N \<longrightarrow> bit k b = bit v b)"

lemma agrees_0 [simp]: "agrees 0 N k v"
  by (auto simp: agrees_def)

lemma agrees_Suc: "n \<le> N \<Longrightarrow> agrees (Suc n) (Suc N) k v \<longleftrightarrow> bit k N = bit v N \<and> agrees n N k v"
  by (auto simp: agrees_def less_Suc_eq)

lemma insert_prio_loop_total:
  "level + n \<le> 64 \<Longrightarrow> \<exists>st t' nc' dbg'. insert_prio_loop th rule n level t nc dbg = Inr (st, t', nc', dbg')"
proof (induction n arbitrary: level t nc dbg)
  case 0
  show ?case by simp
next
  case (Suc n)
  obtain ch nc1 dbg1 where sd: "step_down (index_at (r_value rule) (63 - level)) t nc dbg = (ch, nc1, dbg1)"
    by (cases "step_down (index_at (r_value rule) (63 - level)) t nc dbg")
  obtain st t' nc' dbg' where "insert_prio_loop th rule n (Suc level) ch nc1 dbg1 = Inr (st, t', nc', dbg')"
    using Suc.IH [of "Suc level" ch nc1 dbg1] Suc.prems by auto
  with sd Suc.prems show ?case by (simp add: Let_def)
qed

lemma insert_prio_loop_best:
  assumes "insert_prio_loop th rule n (64 - N) t nc dbg = Inr (st, t', nc', dbg')"
    and "n \<le> N" and "N \<le> 64" and "t \<noteq> Null" and "st \<noteq> NoMemory" and "0 < unat (r_priority rule)"
    and "node_priority t = 0 \<or> r_priority rule \<le> node_priority t"
  shows "t' \<noteq> Null \<and> path_best N k t' =
    better (path_best N k t) (if agrees n N k (r_value rule) then unat (r_priority rule) else 0)"
  using assms
proof (induction n arbitrary: N t nc dbg t' nc' dbg')
  case 0
  then show ?case by (auto simp: path_best_set_priority set_write_nonnull)
next
  case (Suc n)
  then obtain N' where N: "N = Suc N'" and N': "n \<le> N'" "N' < 64" by (cases N) auto
  have lev: "63 - (64 - N) = N'" "\<not> 63 < 64 - N" "Suc (64 - N) = 64 - N'" using N N' by auto
  let ?i = "index_at (r_value rule) N'" and ?q = "unat (r_priority rule)"
  obtain ch nc1 dbg1 where sd: "step_down ?i t nc dbg = (ch, nc1, dbg1)"
    by (cases "step_down ?i t nc dbg")
  have ch: "ch \<noteq> Null" "path_best N' k ch = path_best N' k (child ?i t)"
    using sd by (auto elim!: step_down_cases simp: fresh_nonnull)
  have same: "path_best (Suc N') k (set_child ?i ch t) = path_best (Suc N') k t"
    unfolding path_best_set_child [OF Suc.prems(4)] path_best_Suc [OF Suc.prems(4)] ch(2)
    by (simp add: index_at_bit)
  have no_mem: "\<not> (child ?i t = Null \<and> nc + 1 > th)"
    using Suc.prems(1,5) lev by (auto simp: Let_def)
  show ?case
  proof (cases "node_priority ch > 0 \<and> node_priority ch < r_priority rule")
    case True
    then have res: "t' = set_child ?i ch t"
      using Suc.prems(1) lev no_mem sd by (simp add: Let_def)
    have absorb: "better (unat (node_priority ch)) ?q = unat (node_priority ch)"
      using True by (intro better_absorb) (simp_all add: word_less_nat_alt)
    have "better (path_best N' k ch) ?q = path_best N' k ch"
      unfolding path_best_below [OF ch(1)] by (metis absorb better_assoc better_commute)
    then have "better (path_best (Suc N') k t) ?q = path_best (Suc N') k t"
      if "bit k N' = bit (r_value rule) N'"
      using that ch(2) Suc.prems(4) by (simp add: path_best_Suc index_at_bit better_simps)
    with res same Suc.prems(4) show ?thesis
      by (auto simp: N agrees_Suc [OF N'(1)] set_child_nonnull)
  next
    case False
    with Suc.prems(1) lev no_mem sd obtain ch' where
      rec: "insert_prio_loop th rule n (64 - N') ch nc1 dbg1 = Inr (st, ch', nc', dbg')"
      and res: "t' = set_child ?i ch' t"
      by (auto simp: Let_def rbind_eq_Inr)
    have "node_priority ch = 0 \<or> r_priority rule \<le> node_priority ch"
      using False by (auto simp: word_gt_0 not_less)
    from Suc.IH [OF rec N'(1) _ ch(1) Suc.prems(5,6) this] N'(2)
    have IH: "path_best N' k ch' = better (path_best N' k ch)
        (if agrees n N' k (r_value rule) then ?q else 0)" by simp
    have "t' \<noteq> Null" using Suc.prems(4) by (simp add: res set_child_nonnull)
    moreover have "path_best (Suc N') k t' = better (path_best (Suc N') k t)
        (if bit k N' = bit (r_value rule) N' \<and> agrees n N' k (r_value rule) then ?q else 0)"
      unfolding res path_best_set_child [OF Suc.prems(4)] path_best_Suc [OF Suc.prems(4)] IH ch(2)
      by (simp add: index_at_bit better_assoc)
    ultimately show ?thesis by (simp add: N agrees_Suc [OF N'(1)])
  qed
qed

section \<open>The length of a prefix\<close>

lemma prefix_len_mask: "n < 64 \<Longrightarrow> unat (prefix_len (push_bit n 1 - 1)) = 64 - n"
proof -
  assume n: "n < 64"
  have "unat (of_nat n :: u64) = n" using n by (simp add: unat_of_nat take_bit_nat_eq_self)
  then have "unat (ucast (of_nat n :: u64) :: u32) = n"
    using n by (simp add: unsigned_ucast_eq take_bit_nat_eq_self)
  then have u: "unat (ucast (mylog2 (push_bit n 1)) :: u32) = n" by (simp only: mylog2_pow [OF n])
  then have "(ucast (mylog2 (push_bit n 1)) :: u32) \<le> 64" using n by (simp add: word_le_nat_alt)
  then show ?thesis using u by (simp add: prefix_len_def unat_sub)
qed

lemma prefix_len_all_ones: "prefix_len (-1) = 65"
  by (simp add: prefix_len_def mylog2_def UINT_MAX_def)

definition prefix_rule :: "Rule \<Rightarrow> bool" where
  "prefix_rule r \<longleftrightarrow> (\<exists>n<64. r_mask r = push_bit n 1 - 1)"

lemma agrees_matches:
  assumes "n < 64" and "r_mask r = push_bit n 1 - 1"
  shows "agrees (64 - n) 64 k (r_value r) \<longleftrightarrow> t_matches r k"
proof -
  have "bit (r_mask r) b \<longleftrightarrow> b < n" for b
    using assms prefix_mask_eq [of n] by (auto simp: bit_mask_iff)
  then show ?thesis
    using assms by (auto simp: agrees_def t_matches_def rule_matches_bits)
qed

section \<open>What the search returns\<close>

lemma min_element_best:
  fixes ps :: "u64 list"
  assumes "ps \<noteq> []" and "0 \<notin> set ps"
  shows "\<exists>m. min_element ps = Inr m \<and> m \<in> set ps \<and> unat m = best (map unat ps)"
proof -
  have "unat (Min (set ps)) = Min (unat ` set ps)"
    by (rule mono_Min_commute) (use assms(1) in \<open>auto simp: mono_def word_le_nat_alt\<close>)
  also have "\<dots> = best (map unat ps)"
    using assms by (subst best_eq_Min) (auto simp: unat_eq_0)
  finally have "unat (Min (set ps)) = best (map unat ps)" .
  moreover have "Min (set ps) \<in> set ps" using assms(1) by (intro Min_in) auto
  ultimately show ?thesis using assms(1) by (auto simp: min_element_Min)
qed

lemma min_element_snoc:
  fixes ps :: "u64 list"
  assumes "0 \<notin> set ps" and "(q :: u64) \<noteq> 0"
  shows "\<exists>m. min_element (ps @ [q]) = Inr m \<and> m \<in> set (ps @ [q]) \<and>
    unat m = better (best (map unat ps)) (unat q)"
  using min_element_best [of "ps @ [q]"] assms by auto

lemma unat_widen: "unat (ucast (p :: u32) :: u64) = unat p"
proof -
  have "unat p < 2 ^ 64" using unsigned_less [of p, where 'a = nat] by simp
  then show ?thesis by (simp add: unsigned_ucast_eq take_bit_nat_eq_self)
qed

lemma LPM1_loop_best:
  assumes "0 \<notin> set ps" and "\<forall>p \<in> set ps. unat p < 2 ^ 32" and "t \<noteq> Null"
    and "unat (tr_priority ret) = best (map unat ps)" and "tr_action ret = 0"
  shows "\<exists>ret'. LPM1_loop k n t ps ret = Inr ret' \<and> tr_action ret' = 0 \<and>
    unat (tr_priority ret') = better (best (map unat ps)) (path_below n k t)"
  using assms
proof (induction n arbitrary: t ps ret)
  case 0
  then show ?case by auto
next
  case (Suc n)
  let ?c = "child (index_at k n) t"
  show ?case
  proof (cases ?c)
    case Null
    then show ?thesis using Suc.prems by auto
  next
    case (Node p a l r)
    let ?ret = "ret\<lparr>tr_cishu := of_nat ((63 - n) + 1)\<rparr>"
    show ?thesis
    proof (cases "p = 0")
      case True
      obtain ret' where "LPM1_loop k n ?c ps ?ret = Inr ret'" "tr_action ret' = 0"
        "unat (tr_priority ret') = better (best (map unat ps)) (path_below n k ?c)"
        using Suc.IH [of ps ?c ?ret] Suc.prems Node by auto
      with True Node show ?thesis by (auto simp: path_best_below)
    next
      case False
      let ?q = "ucast p :: u64"
      have q: "?q \<noteq> 0" "unat ?q = unat p"
        using False by (auto simp: unat_widen simp flip: unat_eq_0)
      obtain m where m: "min_element (ps @ [?q]) = Inr m" "m \<in> set (ps @ [?q])"
        "unat m = better (best (map unat ps)) (unat ?q)"
        using min_element_snoc [OF Suc.prems(1) q(1)] by blast
      have small: "\<forall>x \<in> set (ps @ [?q]). unat x < 2 ^ 32"
        using Suc.prems(2) q(2) unsigned_less [of p] by auto
      let ?ret = "ret\<lparr>tr_priority := ucast m, tr_cishu := of_nat ((63 - n) + 1)\<rparr>"
      have "unat (ucast m :: u32) = best (map unat (ps @ [?q]))"
      proof -
        have "unat (ucast m :: u32) = unat m"
        proof -
          have "unat m < 2 ^ 32" using m(2) small by blast
          then show ?thesis by (simp add: unsigned_ucast_eq take_bit_nat_eq_self)
        qed
        then show ?thesis using m(3) by simp
      qed
      then obtain ret' where "LPM1_loop k n ?c (ps @ [?q]) ?ret = Inr ret'" "tr_action ret' = 0"
        "unat (tr_priority ret') = better (best (map unat (ps @ [?q]))) (path_below n k ?c)"
        using Suc.IH [of "ps @ [?q]" ?c ?ret] Suc.prems Node small q(1) by auto
      with False Node m(1) q(2) show ?thesis
        by (auto simp: path_best_below better_assoc Let_def)
    qed
  qed
qed

section \<open>A refused insertion\<close>

lemma insert_prio_loop_refused:
  assumes "insert_prio_loop th rule n (64 - N) t nc dbg = Inr (NoMemory, t', nc', dbg')"
    and "n \<le> N" and "N \<le> 64" and "t \<noteq> Null"
  shows "t' \<noteq> Null \<and> path_best N k t' = path_best N k t \<and> node_priority t' = node_priority t"
  using assms
proof (induction n arbitrary: N t nc dbg t' nc' dbg')
  case 0
  then show ?case by simp
next
  case (Suc n)
  then obtain N' where N: "N = Suc N'" and N': "n \<le> N'" "N' < 64" by (cases N) auto
  have lev: "63 - (64 - N) = N'" "\<not> 63 < 64 - N" "Suc (64 - N) = 64 - N'" using N N' by auto
  let ?i = "index_at (r_value rule) N'"
  obtain ch nc1 dbg1 where sd: "step_down ?i t nc dbg = (ch, nc1, dbg1)"
    by (cases "step_down ?i t nc dbg")
  have ch: "ch \<noteq> Null" "path_best N' k ch = path_best N' k (child ?i t)"
    using sd by (auto elim!: step_down_cases simp: fresh_nonnull)
  consider (here) "t' = t" | (below) ch' where
    "insert_prio_loop th rule n (64 - N') ch nc1 dbg1 = Inr (NoMemory, ch', nc', dbg')"
    "t' = set_child ?i ch' t"
    using Suc.prems(1) lev sd by (auto simp: Let_def rbind_eq_Inr split: if_splits)
  then show ?case
  proof cases
    case here
    then show ?thesis using Suc.prems by simp
  next
    case below
    from Suc.IH [OF below(1) N'(1) _ ch(1)] N'(2) ch(2)
    have IH: "path_best N' k ch' = path_best N' k (child ?i t)" by simp
    have "path_best (Suc N') k t' = path_best (Suc N') k t"
      unfolding below(2) path_best_set_child [OF Suc.prems(4)] path_best_Suc [OF Suc.prems(4)] IH
      by (simp add: index_at_bit)
    then show ?thesis
      using Suc.prems(4) by (simp add: N below(2) set_child_nonnull node_priority_set_child)
  qed
qed

section \<open>Node counters and the node budget\<close>

fun nodes :: "trie_node \<Rightarrow> nat" where
  "nodes Null = 0"
| "nodes (Node p a l r) = Suc (nodes l + nodes r)"

lemma nodes_eq_0 [simp]: "nodes t = 0 \<longleftrightarrow> t = Null"
  by (cases t) auto

lemma nodes_write [simp]: "nodes (set_action b t) = nodes t" "nodes (set_priority p t) = nodes t"
  by (cases t; simp)+

lemma nodes_child: "t \<noteq> Null \<Longrightarrow> nodes (child i t) < nodes t"
  by (cases t) auto

lemma nodes_set_child:
  "t \<noteq> Null \<Longrightarrow> nodes (set_child i c t) = nodes t - nodes (child i t) + nodes c"
  by (cases t) auto

text \<open>
  The walk adds to both counters the nodes it
  makes, at most one a level, and never makes one beyond the budget.
\<close>

lemma insert_prio_loop_counts:
  assumes "insert_prio_loop th rule n level t nc dbg = Inr (st, t', nc', dbg')" and "t \<noteq> Null"
  shows "\<exists>d. nodes t' = nodes t + d \<and> d \<le> n \<and> nc' = nc + of_nat d \<and> dbg' = dbg + of_nat d \<and>
    (d > 0 \<longrightarrow> nc' \<le> th)"
  using assms
proof (induction n arbitrary: level t nc dbg t' nc' dbg')
  case 0
  then show ?case by auto
next
  case (Suc n)
  let ?i = "index_at (r_value rule) (63 - level)"
  obtain ch nc1 dbg1 where sd: "step_down ?i t nc dbg = (ch, nc1, dbg1)"
    by (cases "step_down ?i t nc dbg")
  consider (here) "t' = t" "nc' = nc" "dbg' = dbg"
    | (goon) ch' where "\<not> (child ?i t = Null \<and> nc + 1 > th)" "t' = set_child ?i ch' t"
      "(ch' = ch \<and> nc' = nc1 \<and> dbg' = dbg1) \<or>
       insert_prio_loop th rule n (Suc level) ch nc1 dbg1 = Inr (st, ch', nc', dbg')"
    using Suc.prems(1) sd by (auto simp: Let_def rbind_eq_Inr split: if_splits)
  then show ?case
  proof cases
    case here
    then show ?thesis by auto
  next
    case goon
    define d0 :: nat where "d0 = (if child ?i t = Null then 1 else 0)"
    have d0: "nodes ch = nodes (child ?i t) + d0" "d0 \<le> 1" "nc1 = nc + of_nat d0"
      "dbg1 = dbg + of_nat d0" "d0 > 0 \<longrightarrow> nc1 \<le> th" "ch \<noteq> Null"
      using sd goon(1)
      by (auto simp: step_down_def d0_def fresh_node_def not_less split: if_splits)
    have "\<exists>d. nodes ch' = nodes ch + d \<and> d \<le> n \<and> nc' = nc1 + of_nat d \<and>
        dbg' = dbg1 + of_nat d \<and> (d > 0 \<longrightarrow> nc' \<le> th)"
      using goon(3)
    proof
      assume "ch' = ch \<and> nc' = nc1 \<and> dbg' = dbg1"
      then show ?thesis by (intro exI [of _ 0]) simp
    next
      assume "insert_prio_loop th rule n (Suc level) ch nc1 dbg1 = Inr (st, ch', nc', dbg')"
      from Suc.IH [OF this d0(6)] show ?thesis .
    qed
    then obtain d where
      d: "nodes ch' = nodes ch + d" "d \<le> n" "nc' = nc1 + of_nat d" "dbg' = dbg1 + of_nat d"
      "d > 0 \<longrightarrow> nc' \<le> th"
      by blast
    have "nodes t' = nodes t + (d0 + d)"
      using d(1) d0(1) nodes_child [OF Suc.prems(2), of ?i]
      by (simp add: goon(2) nodes_set_child [OF Suc.prems(2)])
    moreover have "nc' \<le> th" if "d0 + d > 0"
      using that d d0 by (cases "d = 0") auto
    ultimately show ?thesis
      using d d0 by (intro exI [of _ "d0 + d"]) auto
  qed
qed

text \<open>A budget large enough for the walk is never used up.\<close>

lemma insert_prio_loop_enough:
  assumes "insert_prio_loop th rule n level t nc dbg = Inr (st, t', nc', dbg')"
    and "unat nc + n \<le> unat th"
  shows "st \<noteq> NoMemory"
  using assms
proof (induction n arbitrary: level t nc dbg t' nc' dbg')
  case 0
  then show ?case by simp
next
  case (Suc n)
  let ?i = "index_at (r_value rule) (63 - level)"
  obtain ch nc1 dbg1 where sd: "step_down ?i t nc dbg = (ch, nc1, dbg1)"
    by (cases "step_down ?i t nc dbg")
  have up: "unat (nc + 1) = unat nc + 1"
    using Suc.prems(2) unsigned_less [of th, where 'a = nat] by (simp add: unat_word_ariths)
  then have le: "\<not> nc + 1 > th" using Suc.prems(2) by (simp add: word_less_nat_alt)
  have nc1: "unat nc1 + n \<le> unat th"
    using sd up Suc.prems(2) by (auto elim!: step_down_cases)
  show ?case
    using Suc.prems(1) sd le nc1 Suc.IH
    by (auto simp: Let_def rbind_eq_Inr split: if_splits)
qed

end
