(* ===== verification/Basic_Trie_Exact.thy ===== *)
theory Basic_Trie_Exact
  imports Basic_Trie_Priority
begin

text \<open>
  The trie as a set of exact keys: \<open>insert_rule_value\<close>, \<open>search_rule\<close>, \<open>delete_rule\<close> and the
  insertion of a ternary rule key by key, and the release of a whole trie.
\<close>

section \<open>Insertion\<close>

lemma agrees_full: "agrees 64 64 k v \<longleftrightarrow> k = v"
  by (auto simp: agrees_def word_eq_iff_bits)

lemma step_down_child:
  "step_down i t nc dbg = (ch, nc', dbg') \<Longrightarrow>
   ch \<noteq> Null \<and> search_value_loop k n ch = search_value_loop k n (child i t)"
  by (cases n) (auto simp: step_down_def fresh_node_def split: if_splits)

lemma search_value_Suc:
  "search_value_loop k (Suc n) t = search_value_loop k n (child (index_at k n) t)"
  by (cases "child (index_at k n) t"; cases n) simp_all

lemma insert_value_loop_search:
  assumes "insert_value_loop v c n t nc dbg = (t', nc', dbg')" and "c \<noteq> 0" and "t \<noteq> Null"
  shows "t' \<noteq> Null \<and> search_value_loop k n t' = (agrees n n k v \<or> search_value_loop k n t)"
  using assms
proof (induction n arbitrary: t nc dbg t' nc' dbg')
  case 0
  then show ?case by (cases t) auto
next
  case (Suc n)
  let ?i = "index_at v n"
  obtain ch nc1 dbg1 where sd: "step_down ?i t nc dbg = (ch, nc1, dbg1)"
    by (cases "step_down ?i t nc dbg")
  obtain ch' nc2 dbg2 where rec: "insert_value_loop v c n ch nc1 dbg1 = (ch', nc2, dbg2)"
    by (cases "insert_value_loop v c n ch nc1 dbg1")
  have t': "t' = set_child ?i ch' t" using Suc.prems(1) sd rec by (simp add: Let_def)
  have "ch \<noteq> Null" using step_down_child [OF sd] by blast
  from Suc.IH [OF rec Suc.prems(2) this] step_down_child [OF sd, of k n]
  have IH: "search_value_loop k n ch' =
      (agrees n n k v \<or> search_value_loop k n (child ?i t))" by blast
  have "search_value_loop k (Suc n) t' =
      (bit k n = bit v n \<and> agrees n n k v \<or> search_value_loop k (Suc n) t)"
    unfolding search_value_Suc t' child_set_child [OF Suc.prems(3)] index_at_bit
    using IH by (auto simp: index_at_bit)
  then show ?case using Suc.prems(3) by (simp add: t' set_child_nonnull agrees_Suc)
qed

lemma insert_rule_value_search:
  assumes "root (snd s) \<noteq> Null" and "rule_count (snd s) \<noteq> -1"
  shows "root (snd (insert_rule_value v s)) \<noteq> Null \<and>
    rule_count (snd (insert_rule_value v s)) = rule_count (snd s) + 1 \<and>
    search_rule k (snd (insert_rule_value v s)) = (k = v \<or> search_rule k (snd s))"
proof -
  obtain g T where s: "s = (g, T)" by (cases s)
  obtain r nc dbg where run:
    "insert_value_loop v (rule_count T + 1) 64 (root T) (node_count T) (debug g) = (r, nc, dbg)"
    by (cases "insert_value_loop v (rule_count T + 1) 64 (root T) (node_count T) (debug g)")
  have "rule_count T + 1 \<noteq> 0" using assms(2) by (simp add: s eq_neg_iff_add_eq_0)
  from insert_value_loop_search [OF run this] assms(1) run show ?thesis
    by (simp add: insert_rule_value_def s search_rule_def agrees_full)
qed

text \<open>after \<open>insert_rule_value v\<close> the search finds \<open>v\<close> and exactly what it found before (the
  rule counter, stored as the node's mark, must not wrap to 0).\<close>

theorem insert_value_then_search:
  assumes "root (snd s) \<noteq> Null" and "rule_count (snd s) \<noteq> -1"
  shows "search_rule k (snd (insert_rule_value v s)) = (k = v \<or> search_rule k (snd s))"
  using insert_rule_value_search [OF assms] by blast

theorem insert_value_then_search_witness:
  "search_rule 5 (snd (insert_rule_value 5 (new_Trie \<lparr>debug = 0, threshold = 9, blowup = False, new_num1 = 0\<rparr>)))"
  using insert_value_then_search
    [of "new_Trie \<lparr>debug = 0, threshold = 9, blowup = False, new_num1 = 0\<rparr>" 5 5]
  by (simp add: new_Trie_def new_node_def fresh_node_def)

section \<open>Removal\<close>

lemma remove_search:
  "search_value_loop k n (snd (remove v n t)) = (search_value_loop k n t \<and> \<not> agrees n n k v) \<and>
   (fst (remove v n t) \<longrightarrow> \<not> search_value_loop k n (snd (remove v n t))) \<and>
   (snd (remove v n t) = Null \<longleftrightarrow> t = Null)"
proof (induction v n t rule: remove.induct)
  case (1 v n)
  show ?case by (cases n) simp_all
next
  case (2 v p a l r)
  show ?case by simp
next
  case (3 v n p a l r)
  let ?t = "Node p a l r" and ?i = "index_at v n"
  obtain del c where rec: "remove v n (child ?i ?t) = (del, c)"
    by (cases "remove v n (child ?i ?t)")
  have IH: "search_value_loop k n c = (search_value_loop k n (child ?i ?t) \<and> \<not> agrees n n k v)"
    and dead: "del \<longrightarrow> \<not> search_value_loop k n c"
    using "3.IH" [OF refl] rec by auto
  define c' where "c' = (if del then Null else c)"
  have res: "snd (remove v (Suc n) ?t) = set_child ?i c' ?t"
    using rec by (simp add: Let_def c'_def)
  have c': "search_value_loop k n c' = search_value_loop k n c"
    using dead by (cases n) (auto simp: c'_def)
  have "search_value_loop k (Suc n) (set_child ?i c' ?t) =
      (search_value_loop k (Suc n) ?t \<and> \<not> agrees (Suc n) (Suc n) k v)"
    unfolding search_value_Suc child_set_child [of ?t, simplified] agrees_Suc [OF order_refl]
    using IH c' by (auto simp: index_at_bit)
  moreover have "is_independent_node (set_child ?i Null ?t) \<Longrightarrow>
      \<not> search_value_loop k (Suc n) (set_child ?i Null ?t)"
    by (auto split: if_splits)
  ultimately show ?case
    using rec by (auto simp: Let_def c'_def simp del: search_value_loop.simps is_independent_node.simps)
qed

text \<open>C39: \<open>delete_rule v\<close> removes \<open>v\<close> from the keys the search finds and nothing else.\<close>

theorem delete_rule_then_search:
  "search_rule k (delete_rule v T) = (search_rule k T \<and> k \<noteq> v)"
  using remove_search [of k 64 v "root T"]
  by (auto simp: search_rule_def delete_rule_def agrees_full)

section \<open>Ternary rules, key by key\<close>

lemma fold_insert_values:
  assumes "root (snd s) \<noteq> Null" and "unat (rule_count (snd s)) + length es < 2 ^ 32"
  shows "search_rule k (snd (fold insert_rule_value es s)) = (k \<in> set es \<or> search_rule k (snd s))"
  using assms
proof (induction es arbitrary: s)
  case Nil
  then show ?case by simp
next
  case (Cons e es)
  have "unat (-1 :: u32) = 2 ^ 32 - 1" by (simp add: unsigned_minus_1_eq_mask mask_eq_exp_minus_1)
  then have "rule_count (snd s) \<noteq> -1" using Cons.prems(2) by auto
  note 1 = insert_rule_value_search [OF Cons.prems(1) this, of e]
  have "unat (rule_count (snd s) + 1) = unat (rule_count (snd s)) + 1"
    using Cons.prems(2) by (simp add: unat_word_ariths)
  with Cons.IH [of "insert_rule_value e s"] 1 Cons.prems(2) show ?case by auto
qed

lemma rfold_insert_values:
  assumes "\<forall>i. expand_value b pos i = Inr (f i)"
  shows "rfold (\<lambda>i s. rbind (expand_value b pos i) (\<lambda>e. Inr (insert_rule_value e s))) is s =
    Inr (fold insert_rule_value (map f is) s)"
  using assms by (induction "is" arbitrary: s) auto

text \<open>C38: inserting a ternary rule with \<open>insert_rule\<close> key by key makes the search find exactly the keys the rule
  matches beside those it found before, for a rule with no wildcard at bit 31 or above, where the code shifts
  the \<open>int\<close> 1 out of its range, with fewer than 31 wildcards, and as long as the 32-bit rule counter does not
  wrap around.\<close>

theorem insert_rule_then_search:
  assumes "\<forall>n. bit (r_mask r) n \<longrightarrow> n < 31" and "length (mask_positions (r_mask r)) < 31"
    and "root (snd s) \<noteq> Null"
    and "unat (rule_count (snd s)) + 2 ^ length (mask_positions (r_mask r)) < 2 ^ 32"
  shows "\<exists>s'. insert_rule r s = Inr s' \<and>
    (\<forall>k. search_rule k (snd s') = (t_matches r k \<or> search_rule k (snd s)))"
proof -
  let ?pos = "mask_positions (r_mask r)" and ?b = "r_value r AND NOT (r_mask r)"
  obtain f where f: "\<forall>i. expand_value ?b ?pos i = Inr (f i)" "spreads False ?pos ?b f"
    using expand_value_spreads [of ?pos ?b] assms(1,2) by (auto simp: set_mask_positions)
  let ?es = "map f [0..<2 ^ length ?pos]"
  have p: "\<forall>p \<in> set ?pos. p < 64 \<and> \<not> bit ?b p"
    by (auto simp: set_mask_positions bit_simps)
  have es: "set ?es = {k. t_matches r k}"
    using spreads_image [OF f(2) distinct_mask_positions p] base_matches
    by (simp add: t_matches_def atLeast0LessThan)
  have "insert_rule r s = Inr (fold insert_rule_value ?es s)"
    using rfold_insert_values [OF f(1)] assms(2)
    by (simp add: insert_rule_def Let_def int_one_shl_simps sint_power nat_power_eq)
  moreover have "search_rule k (snd (fold insert_rule_value ?es s)) =
      (t_matches r k \<or> search_rule k (snd s))" for k
    using fold_insert_values [OF assms(3), of ?es k] assms(4) es by auto
  ultimately show ?thesis by blast
qed

theorem insert_rule_then_search_witness:
  "\<exists>s'. insert_rule \<lparr>r_value = 8, r_mask = 5, r_priority = 1, r_action = 0\<rparr>
      (new_Trie \<lparr>debug = 0, threshold = 9, blowup = False, new_num1 = 0\<rparr>) = Inr s' \<and>
    search_rule 9 (snd s')"
proof -
  let ?r = "\<lparr>r_value = 8, r_mask = 5, r_priority = 1, r_action = 0\<rparr> :: Rule"
  let ?s = "new_Trie \<lparr>debug = 0, threshold = 9, blowup = False, new_num1 = 0\<rparr>"
  have pos: "mask_positions (r_mask ?r) = [0, 2]" by code_simp
  have 1: "\<forall>n. bit (r_mask ?r) n \<longrightarrow> n < 31"
  proof (intro allI impI)
    fix n assume "bit (r_mask ?r) n"
    then have "n \<in> set (mask_positions (r_mask ?r))"
      by (auto simp: set_mask_positions dest: bit_imp_le_length)
    then have "n \<in> set [0, 2]" by (simp only: pos)
    then show "n < 31" by auto
  qed
  have 2: "length (mask_positions (r_mask ?r)) < 31"
    "unat (rule_count (snd ?s)) + 2 ^ length (mask_positions (r_mask ?r)) < 2 ^ 32"
    unfolding pos by (simp_all add: new_Trie_def new_node_def)
  have 3: "root (snd ?s) \<noteq> Null" by (simp add: new_Trie_def new_node_def fresh_node_def)
  have "t_matches ?r 9" by code_simp
  with insert_rule_then_search [OF 1 2(1) 3 2(2)] show ?thesis by blast
qed

section \<open>Releasing a trie\<close>

text \<open>\<open>delete_trie\<close> gives back to the node counter \<open>debug\<close> exactly the nodes of the trie.\<close>

theorem delete_trie_releases: "delete_trie t dbg = dbg - of_nat (nodes t)"
proof (induction t arbitrary: dbg)
  case Null
  show ?case by simp
next
  case (Node p a l r)
  have l: "(if l \<noteq> Null then delete_trie l d else d) = d - of_nat (nodes l)" for d
    using Node.IH(1) by simp
  have r: "(if r \<noteq> Null then delete_trie r d else d) = d - of_nat (nodes r)" for d
    using Node.IH(2) by simp
  show ?case unfolding delete_trie.simps Let_def l r by simp
qed

end
