(* ===== verification/Basic_Trie_Contract.thy ===== *)
theory Basic_Trie_Contract
  imports Basic_Trie_Priority
begin

text \<open>
  The priority trie as a provider of the matcher contract: the invariant of a trie object, that
  \<open>insert_prefix_rule_priority\<close> keeps it on every branch, what it does to every later
  \<open>LPM1_search_rule\<close>, the accounting of nodes, and the interpretation of \<open>matcher\<close>.
\<close>

section \<open>Invariant\<close>

definition trie_inv :: "globals \<times> Trie \<Rightarrow> bool" where
  "trie_inv s \<longleftrightarrow> root (snd s) \<noteq> Null \<and> node_priority (root (snd s)) = 0 \<and>
     node_count (snd s) = of_nat (nodes (root (snd s)))"

definition valid_prefix :: "Rule \<Rightarrow> bool" where
  "valid_prefix r \<longleftrightarrow> prefix_rule r \<and> r_priority r \<noteq> 0"

definition trie_lookup :: "globals \<times> Trie \<Rightarrow> u64 \<Rightarrow> nat" where
  "trie_lookup s k = (case LPM1_search_rule k (snd s) of Inl e \<Rightarrow> 0 | Inr ret \<Rightarrow> unat (tr_priority ret))"

definition trie_insert :: "Rule \<Rightarrow> globals \<times> Trie \<Rightarrow> (globals \<times> Trie) option" where
  "trie_insert r s = (case insert_prefix_rule_priority r s of
     Inl e \<Rightarrow> None | Inr (res, s') \<Rightarrow> if res = 0 then Some s' else None)"

lemma trie_inv_new: "trie_inv (new_Trie g)"
  by (simp add: trie_inv_def new_Trie_def new_node_def fresh_node_def)

section \<open>Search\<close>

lemma LPM1_search_path_best:
  assumes "trie_inv s"
  shows "\<exists>ret. LPM1_search_rule k (snd s) = Inr ret \<and> tr_action ret = 0 \<and>
    unat (tr_priority ret) = path_best 64 k (root (snd s))"
  using LPM1_loop_best [of "[]" "root (snd s)" trie_result0 k 64] assms
  by (auto simp: LPM1_search_rule_def trie_result0_def trie_inv_def path_best_below)

lemma trie_lookup_path_best: "trie_inv s \<Longrightarrow> trie_lookup s k = path_best 64 k (root (snd s))"
  using LPM1_search_path_best [of s k] by (auto simp: trie_lookup_def)

section \<open>One insertion\<close>

lemma insert_prio_loop_root:
  assumes "insert_prio_loop th rule (Suc n) level t nc dbg = Inr (st, t', nc', dbg')" and "t \<noteq> Null"
  shows "t' \<noteq> Null \<and> node_priority t' = node_priority t"
  using assms
  by (cases "step_down (index_at (r_value rule) (63 - level)) t nc dbg")
    (auto simp: Let_def rbind_eq_Inr set_child_nonnull node_priority_set_child split: if_splits)

lemma prefix_rule_len:
  assumes "prefix_rule r"
  obtains n where "n < 64" "r_mask r = push_bit n 1 - 1" "unat (prefix_len (r_mask r)) = Suc (63 - n)"
proof -
  from assms obtain n where n: "n < 64" "r_mask r = push_bit n 1 - 1"
    by (auto simp: prefix_rule_def)
  with prefix_len_mask [OF n(1)] have "unat (prefix_len (r_mask r)) = Suc (63 - n)" by simp
  with n that show ?thesis by blast
qed

text \<open>Every branch of one insertion of a prefix rule, in terms of what a search sees.\<close>

lemma insert_prefix_priority_spec:
  assumes "valid_prefix r" and "trie_inv s"
  shows "\<exists>res g' T' d. insert_prefix_rule_priority r s = Inr (res, g', T') \<and> trie_inv (g', T') \<and>
    res \<in> {0, 1} \<and> g' = fst s\<lparr>debug := debug (fst s) + of_nat d\<rparr> \<and>
    nodes (root T') = nodes (root (snd s)) + d \<and> d \<le> 64 \<and>
    (d > 0 \<longrightarrow> node_count T' \<le> threshold (fst s)) \<and>
    (unat (node_count (snd s)) + 64 \<le> unat (threshold (fst s)) \<longrightarrow> res = 0) \<and>
    (\<forall>k. path_best 64 k (root T') = better (path_best 64 k (root (snd s)))
       (if res = 0 \<and> t_matches r k then t_prio r else 0))"
proof -
  obtain g T where s: "s = (g, T)" by (cases s)
  from assms(1) have pr: "prefix_rule r" "0 < unat (r_priority r)"
    by (auto simp: valid_prefix_def unat_gt_0)
  obtain n where n: "n < 64" "r_mask r = push_bit n 1 - 1" "unat (prefix_len (r_mask r)) = Suc (63 - n)"
    using prefix_rule_len [OF pr(1)] .
  have root: "root T \<noteq> Null" "node_priority (root T) = 0"
    and nc: "node_count T = of_nat (nodes (root T))"
    using assms(2) by (simp_all add: trie_inv_def s)
  obtain st t' nc' dbg' where run:
    "insert_prio_loop (threshold g) r (Suc (63 - n)) (64 - 64) (root T) (node_count T) (debug g) =
       Inr (st, t', nc', dbg')"
    using insert_prio_loop_total [of 0 "Suc (63 - n)" "threshold g" r "root T" "node_count T" "debug g"] n(1)
    by auto
  let ?T = "T\<lparr>root := t', node_count := nc',
    rule_count := (if st = Reached then rule_count T + 1 else rule_count T)\<rparr>"
  have res: "insert_prefix_rule_priority r s = Inr (if st = NoMemory then 1 else 0, g\<lparr>debug := dbg'\<rparr>, ?T)"
    using run by (simp add: insert_prefix_rule_priority_def s n(3) del: insert_prio_loop.simps)
  obtain d where d: "nodes t' = nodes (root T) + d" "d \<le> Suc (63 - n)" "nc' = node_count T + of_nat d"
    "dbg' = debug g + of_nat d" "d > 0 \<longrightarrow> nc' \<le> threshold g"
    using insert_prio_loop_counts [OF run root(1)] by blast
  have t': "t' \<noteq> Null" "node_priority t' = 0"
    using insert_prio_loop_root [OF run root(1)] root(2) by simp_all
  have best: "path_best 64 k t' = better (path_best 64 k (root T))
      (if st \<noteq> NoMemory \<and> t_matches r k then unat (r_priority r) else 0)" for k
  proof (cases "st = NoMemory")
    case True
    have "path_best 64 k t' = path_best 64 k (root T)"
      using insert_prio_loop_refused [OF run [unfolded True] _ _ root(1)] by simp
    with True show ?thesis by simp
  next
    case False
    have "Suc (63 - n) = 64 - n" using n(1) by simp
    with insert_prio_loop_best [OF run _ _ root(1) False pr(2)] root(2) agrees_matches [OF n(1,2), of k] False
    show ?thesis by simp
  qed
  have enough: "unat (node_count T) + 64 \<le> unat (threshold g) \<longrightarrow> st \<noteq> NoMemory"
    using insert_prio_loop_enough [OF run] by auto
  show ?thesis
    unfolding res
    by (rule exI, rule exI, rule exI, rule exI [of _ d], intro conjI, rule refl)
      (use t' d nc best enough in \<open>auto simp: trie_inv_def s t_prio_def\<close>)
qed

text \<open>C16: one insertion of a prefix rule always returns, with 0 or 1. After 0 every search returns the
  better of the old answer and the new rule's priority if the rule matches; after 1 (no memory)
  no search result has changed.\<close>

theorem insert_prefix_rule_priority_correct:
  assumes "valid_prefix r" and "trie_inv s"
  shows "\<exists>res s'. insert_prefix_rule_priority r s = Inr (res, s') \<and> trie_inv s' \<and> res \<in> {0, 1} \<and>
    (\<forall>k. \<exists>old new. LPM1_search_rule k (snd s) = Inr old \<and> LPM1_search_rule k (snd s') = Inr new \<and>
       unat (tr_priority new) =
         better (unat (tr_priority old)) (if res = 0 \<and> t_matches r k then t_prio r else 0))"
proof -
  obtain res g' T' where 1: "insert_prefix_rule_priority r s = Inr (res, g', T')" "trie_inv (g', T')"
    "res \<in> {0, 1}" and 2: "\<forall>k. path_best 64 k (root T') = better (path_best 64 k (root (snd s)))
       (if res = 0 \<and> t_matches r k then t_prio r else 0)"
    using insert_prefix_priority_spec [OF assms] by blast
  have "\<exists>old new. LPM1_search_rule k (snd s) = Inr old \<and> LPM1_search_rule k (snd (g', T')) = Inr new \<and>
      unat (tr_priority new) =
        better (unat (tr_priority old)) (if res = 0 \<and> t_matches r k then t_prio r else 0)" for k
  proof -
    obtain old where "LPM1_search_rule k (snd s) = Inr old"
      "unat (tr_priority old) = path_best 64 k (root (snd s))"
      using LPM1_search_path_best [OF assms(2)] by blast
    moreover obtain new where "LPM1_search_rule k (snd (g', T')) = Inr new"
      "unat (tr_priority new) = path_best 64 k (root T')"
      using LPM1_search_path_best [OF 1(2)] by auto
    ultimately show ?thesis using 2 by auto
  qed
  with 1 show ?thesis by blast
qed

theorem insert_prefix_rule_priority_correct_witness:
  "\<exists>res s'. insert_prefix_rule_priority \<lparr>r_value = 8, r_mask = 7, r_priority = 3, r_action = 0\<rparr>
     (new_Trie \<lparr>debug = 0, threshold = 100, blowup = False, new_num1 = 0\<rparr>) = Inr (res, s') \<and> trie_inv s'"
proof -
  have "prefix_rule \<lparr>r_value = 8, r_mask = 7, r_priority = 3, r_action = 0\<rparr>"
    unfolding prefix_rule_def by (intro exI [of _ 3]) simp
  then have "valid_prefix \<lparr>r_value = 8, r_mask = 7, r_priority = 3, r_action = 0\<rparr>"
    by (simp add: valid_prefix_def)
  from insert_prefix_rule_priority_correct [OF this trie_inv_new] show ?thesis by blast
qed

text \<open>C34: node accounting: after any insertion of a prefix rule \<open>node_count\<close> is the number of nodes of the
  tree, \<open>debug\<close> has grown by the number of new nodes, and no node was made beyond
  the budget \<open>threshold\<close>.\<close>

theorem insert_node_budget:
  assumes "valid_prefix r" and "trie_inv s" and "insert_prefix_rule_priority r s = Inr (res, s')"
    and "nodes (root (snd s)) \<le> unat (threshold (fst s))" and "threshold (fst s) < UINT_MAX"
  shows "unat (node_count (snd s')) = nodes (root (snd s')) \<and>
    nodes (root (snd s')) \<le> unat (threshold (fst s')) \<and> threshold (fst s') = threshold (fst s) \<and>
    debug (fst s') - debug (fst s) = node_count (snd s') - node_count (snd s)"
proof -
  obtain res2 g' T' d where 1: "insert_prefix_rule_priority r s = Inr (res2, g', T')" "trie_inv (g', T')"
    "g' = fst s\<lparr>debug := debug (fst s) + of_nat d\<rparr>"
    "nodes (root T') = nodes (root (snd s)) + d" "d \<le> 64"
    "d > 0 \<longrightarrow> node_count T' \<le> threshold (fst s)"
    using insert_prefix_priority_spec [OF assms(1,2)] by blast
  have s': "s' = (g', T')" using 1(1) assms(3) by simp
  have "unat (threshold (fst s)) < 4294967295"
    using assms(5) by (simp add: UINT_MAX_def word_less_nat_alt)
  then have "nodes (root T') < 2 ^ 64" using 1(4,5) assms(4) by simp
  then have nc: "unat (node_count T') = nodes (root T')"
    using 1(2) by (simp add: trie_inv_def unat_of_nat_small)
  have "nodes (root T') \<le> unat (threshold (fst s))"
    using 1(4,6) assms(4) nc by (cases "d = 0") (auto simp: word_le_nat_alt)
  moreover have "node_count T' = node_count (snd s) + of_nat d"
    using 1(2,4) assms(2) by (simp add: trie_inv_def)
  ultimately show ?thesis using nc by (simp add: s' 1(3))
qed

theorem insert_node_budget_witness:
  "\<exists>s'. insert_prefix_rule_priority \<lparr>r_value = 0, r_mask = 2 ^ 62 - 1, r_priority = 3, r_action = 0\<rparr>
     (new_Trie \<lparr>debug = 0, threshold = 2, blowup = False, new_num1 = 0\<rparr>) = Inr (1, s') \<and>
   unat (node_count (snd s')) = nodes (root (snd s')) \<and> nodes (root (snd s')) \<le> 2"
proof -
  let ?r = "\<lparr>r_value = 0, r_mask = 2 ^ 62 - 1, r_priority = 3, r_action = 0\<rparr> :: Rule"
  let ?s = "new_Trie \<lparr>debug = 0, threshold = 2, blowup = False, new_num1 = 0\<rparr>"
  have "prefix_rule ?r"
    unfolding prefix_rule_def by (intro exI [of _ 62]) simp
  then have v: "valid_prefix ?r"
    by (simp add: valid_prefix_def)
  have run: "insert_prefix_rule_priority ?r ?s =
      Inr (1, \<lparr>debug = 2, threshold = 2, blowup = False, new_num1 = 0\<rparr>,
        \<lparr>root = Node 0 0 (Node 0 0 Null Null) Null, rule_count = 0, node_count = 2, expand_count = 0,
         expandedTable = []\<rparr>)" by code_simp
  show ?thesis
    using insert_node_budget [OF v trie_inv_new run] run
    by (simp add: new_Trie_def new_node_def fresh_node_def UINT_MAX_def)
qed

section \<open>A step with its resources\<close>

text \<open>
  \<open>balanced\<close>: the node counter of the program moved with the node count of the trie;
  \<open>room s n\<close>: the budget allows \<open>n\<close> more nodes.
\<close>

definition balanced :: "globals \<times> Trie \<Rightarrow> globals \<times> Trie \<Rightarrow> bool" where
  "balanced s s' \<longleftrightarrow> threshold (fst s') = threshold (fst s) \<and>
     debug (fst s') - node_count (snd s') = debug (fst s) - node_count (snd s)"

definition room :: "globals \<times> Trie \<Rightarrow> nat \<Rightarrow> bool" where
  "room s n \<longleftrightarrow> nodes (root (snd s)) + n \<le> unat (threshold (fst s))"

lemma balanced_refl [simp]: "balanced s s"
  by (simp add: balanced_def)

lemma balanced_trans [trans]: "balanced s s' \<Longrightarrow> balanced s' s'' \<Longrightarrow> balanced s s''"
  by (simp add: balanced_def)

lemma insert_step:
  assumes "valid_prefix r" and "trie_inv s"
  shows "\<exists>res s'. insert_prefix_rule_priority r s = Inr (res, s') \<and> trie_inv s' \<and> balanced s s' \<and>
    res \<in> {0, 1} \<and> (\<forall>n. room s (64 + n) \<longrightarrow> res = 0 \<and> room s' n) \<and> blowup (fst s') = blowup (fst s) \<and>
    expandedTable (snd s') = expandedTable (snd s) \<and>
    (\<forall>k. trie_lookup s' k =
       better (trie_lookup s k) (if res = 0 \<and> t_matches r k then t_prio r else 0))"
proof -
  obtain res g' T' d where 1: "insert_prefix_rule_priority r s = Inr (res, g', T')" "trie_inv (g', T')"
    "res \<in> {0, 1}" and g': "g' = fst s\<lparr>debug := debug (fst s) + of_nat d\<rparr>" and
    d: "nodes (root T') = nodes (root (snd s)) + d" "d \<le> 64" and
    mem: "unat (node_count (snd s)) + 64 \<le> unat (threshold (fst s)) \<longrightarrow> res = 0" and
    look: "\<forall>k. path_best 64 k (root T') = better (path_best 64 k (root (snd s)))
       (if res = 0 \<and> t_matches r k then t_prio r else 0)"
    using insert_prefix_priority_spec [OF assms] by blast
  have tab: "expandedTable T' = expandedTable (snd s)"
    using 1(1) by (cases s) (auto simp: insert_prefix_rule_priority_def rbind_eq_Inr)
  have nc: "node_count T' = node_count (snd s) + of_nat d"
    using 1(2) assms(2) d(1) by (simp add: trie_inv_def)
  then have bal: "balanced s (g', T')" by (simp add: balanced_def g')
  have rm: "res = 0 \<and> room (g', T') n" if "room s (64 + n)" for n
  proof -
    have "nodes (root (snd s)) < 2 ^ 64"
      using that unsigned_less [of "threshold (fst s)", where 'a = nat] by (simp add: room_def)
    then have "unat (node_count (snd s)) = nodes (root (snd s))"
      using assms(2) by (simp add: trie_inv_def unat_of_nat_small)
    with that mem d g' show ?thesis by (auto simp: room_def)
  qed
  have lk: "trie_lookup (g', T') k = better (trie_lookup s k)
      (if res = 0 \<and> t_matches r k then t_prio r else 0)" for k
    using look trie_lookup_path_best [OF 1(2)] trie_lookup_path_best [OF assms(2)] by simp
  have "blowup g' = blowup (fst s)" by (simp add: g')
  with 1 bal rm tab lk show ?thesis by (intro exI [of _ res] exI [of _ "(g', T')"]) simp
qed

section \<open>The contract\<close>

lemma trie_insert_Some:
  assumes "valid_prefix r" and "trie_inv s" and "trie_insert r s = Some s'"
  shows "trie_inv s'" and
    "trie_lookup s' k = better (trie_lookup s k) (if t_matches r k then t_prio r else 0)"
proof -
  obtain res g' T' where 1: "insert_prefix_rule_priority r s = Inr (res, g', T')" "trie_inv (g', T')"
    and 2: "\<forall>k. path_best 64 k (root T') = better (path_best 64 k (root (snd s)))
       (if res = 0 \<and> t_matches r k then t_prio r else 0)"
    using insert_prefix_priority_spec [OF assms(1,2)] by blast
  with assms(3) have "res = 0" "s' = (g', T')" by (auto simp: trie_insert_def split: if_splits)
  with 1 2 assms(2) show "trie_inv s'" and
    "trie_lookup s' k = better (trie_lookup s k) (if t_matches r k then t_prio r else 0)"
    by (auto simp: trie_lookup_path_best)
qed

interpretation trie: matcher "new_Trie g" trie_insert trie_lookup t_matches t_prio valid_prefix trie_inv
  "\<lambda>s r. True" for g
proof
  show "trie_inv (new_Trie g)" by (rule trie_inv_new)
  show "trie_lookup (new_Trie g) k = 0" for k
    using trie_lookup_path_best [OF trie_inv_new]
    by (simp add: new_Trie_def new_node_def)
next
  fix s r s' k assume "trie_inv s" "valid_prefix r" "trie_insert r s = Some s'"
  note step = trie_insert_Some [OF this(2,1,3)]
  show "trie_inv s'" by (rule step(1))
  show "trie_lookup s' k = better (trie_lookup s k) (if t_matches r k then t_prio r else 0)"
    by (rule step(2))
qed simp_all

text \<open>C15: a trie filled with prefix rules in any order answers every key with the smallest priority among
  the rules that match it, 0 when none does.\<close>

theorem trie_best_match:
  assumes "insert_all trie_insert rs (new_Trie g) = Some s" and "\<forall>r \<in> set rs. valid_prefix r"
  shows "\<exists>ret. LPM1_search_rule k (snd s) = Inr ret \<and>
    unat (tr_priority ret) = best_match t_prio t_matches rs k"
proof -
  have "trie_inv s"
    using trie.lookup_insert_all_any_from [OF assms(1) trie_inv_new] assms(2) by simp
  with trie.lookup_insert_all_any [OF assms, of k] LPM1_search_path_best [of s k] trie_lookup_path_best
  show ?thesis by fastforce
qed

text \<open>With room for 64 nodes a rule no insertion is refused.\<close>

lemma insert_all_enough:
  assumes "\<forall>r \<in> set rs. valid_prefix r" and "trie_inv s"
    and "nodes (root (snd s)) + 64 * length rs \<le> unat (threshold (fst s))"
  shows "\<exists>s'. insert_all trie_insert rs s = Some s'"
  using assms
proof (induction rs arbitrary: s)
  case Nil
  then show ?case by simp
next
  case (Cons r rs)
  have small: "nodes (root (snd s)) < 2 ^ 64"
    using Cons.prems(3) unsigned_less [of "threshold (fst s)", where 'a = nat] by simp
  have v: "valid_prefix r" using Cons.prems(1) by simp
  have "unat (node_count (snd s)) + 64 \<le> unat (threshold (fst s))"
    using Cons.prems(2,3) small by (simp add: trie_inv_def unat_of_nat_small)
  with insert_prefix_priority_spec [OF v Cons.prems(2)] obtain g' T' d where
    1: "insert_prefix_rule_priority r s = Inr (0, g', T')" "trie_inv (g', T')"
      "g' = fst s\<lparr>debug := debug (fst s) + of_nat d\<rparr>" "nodes (root T') = nodes (root (snd s)) + d" "d \<le> 64"
    by auto
  have "nodes (root (snd (g', T'))) + 64 * length rs \<le> unat (threshold (fst (g', T')))"
    using Cons.prems(3) 1 by simp
  from Cons.IH [OF _ 1(2) this] Cons.prems(1) 1(1) show ?case
    by (simp add: trie_insert_def)
qed

text \<open>C35: with a budget of 64 nodes a rule beside the root, filling a trie never fails, and the searches
  give the best match.\<close>

theorem trie_fill_succeeds:
  assumes "\<forall>r \<in> set rs. valid_prefix r" and "1 + 64 * length rs \<le> unat (threshold g)"
  shows "\<exists>s. insert_all trie_insert rs (new_Trie g) = Some s \<and>
    (\<forall>k. trie_lookup s k = best_match t_prio t_matches rs k)"
proof -
  have "nodes (root (snd (new_Trie g))) + 64 * length rs \<le> unat (threshold (fst (new_Trie g)))"
    using assms(2) by (simp add: new_Trie_def new_node_def fresh_node_def)
  from insert_all_enough [OF assms(1) trie_inv_new this] obtain s where
    s: "insert_all trie_insert rs (new_Trie g) = Some s" by blast
  with trie.lookup_insert_all_any [OF s assms(1)] show ?thesis by auto
qed

theorem trie_fill_succeeds_witness:
  "\<exists>s. insert_all trie_insert [\<lparr>r_value = 8, r_mask = 7, r_priority = 3, r_action = 0\<rparr>]
      (new_Trie \<lparr>debug = 0, threshold = 100, blowup = False, new_num1 = 0\<rparr>) = Some s \<and>
     trie_lookup s 10 = 3"
proof -
  let ?r = "\<lparr>r_value = 8, r_mask = 7, r_priority = 3, r_action = 0\<rparr> :: Rule"
  have "prefix_rule ?r" unfolding prefix_rule_def by (intro exI [of _ 3]) simp
  then have "\<forall>r \<in> set [?r]. valid_prefix r" by (simp add: valid_prefix_def)
  from trie_fill_succeeds [OF this, of "\<lparr>debug = 0, threshold = 100, blowup = False, new_num1 = 0\<rparr>"]
  show ?thesis
    by (auto simp: t_matches_def rule_matches_def t_prio_def)
qed

theorem trie_best_match_witness:
  "\<exists>s ret. insert_all trie_insert [\<lparr>r_value = 8, r_mask = 7, r_priority = 3, r_action = 0\<rparr>,
        \<lparr>r_value = 8, r_mask = 1, r_priority = 2, r_action = 0\<rparr>]
      (new_Trie \<lparr>debug = 0, threshold = 1000, blowup = False, new_num1 = 0\<rparr>) = Some s \<and>
     LPM1_search_rule 9 (snd s) = Inr ret \<and> unat (tr_priority ret) = 2"
proof -
  let ?r = "\<lparr>r_value = 8, r_mask = 7, r_priority = 3, r_action = 0\<rparr> :: Rule"
  let ?q = "\<lparr>r_value = 8, r_mask = 1, r_priority = 2, r_action = 0\<rparr> :: Rule"
  let ?g = "\<lparr>debug = 0, threshold = 1000, blowup = False, new_num1 = 0\<rparr>"
  have "prefix_rule ?r" unfolding prefix_rule_def by (intro exI [of _ 3]) simp
  moreover have "prefix_rule ?q" unfolding prefix_rule_def by (intro exI [of _ 1]) simp
  ultimately have v: "\<forall>r \<in> set [?r, ?q]. valid_prefix r" by (simp add: valid_prefix_def)
  obtain s where s: "insert_all trie_insert [?r, ?q] (new_Trie ?g) = Some s"
    using insert_all_enough [OF v trie_inv_new, of ?g]
    by (auto simp: new_Trie_def new_node_def fresh_node_def)
  from trie_best_match [OF s v, of 9] s show ?thesis
    by (auto simp: t_matches_def rule_matches_def t_prio_def better_def)
qed

end
