(* ===== verification/Basic_Trie_Expand.thy ===== *)
theory Basic_Trie_Expand
  imports Basic_Trie_Contract
begin

text \<open>
  Ternary rules in the priority trie: \<open>expand_rule\<close> writes a rule with wildcards above its prefix
  part as \<open>2 ^ new_num1\<close> prefix rules. Its result, as a search sees it, is the insertion of the one
  ternary rule.
\<close>

section \<open>The prefix rules of a ternary rule\<close>

definition piece :: "Rule \<Rightarrow> nat \<Rightarrow> u64 \<Rightarrow> Rule" where
  "piece rule b v =
     \<lparr>r_value = v, r_mask = push_bit b 1 - 1, r_priority = r_priority rule, r_action = r_action rule\<rparr>"

lemma valid_piece: "b < 64 \<Longrightarrow> r_priority rule \<noteq> 0 \<Longrightarrow> valid_prefix (piece rule b v)"
  by (auto simp: valid_prefix_def prefix_rule_def piece_def)

definition clear_above :: "Rule \<Rightarrow> bool" where
  "clear_above r \<longleftrightarrow>
     (\<forall>p \<in> set (new_positions (r_mask r) (boundary (r_mask r))). \<not> bit (r_value r) p)"

section \<open>The loop over the prefix rules\<close>

text \<open>The loop inserts a first part \<open>js\<close> of the counter values, all of them when the flag is set.\<close>

lemma expand_loop_spec:
  assumes f: "\<forall>i. expanded_value (r_value rule) pos i = Inr (f i)"
    and b: "b < 64" and pr: "r_priority rule \<noteq> 0" and inv: "trie_inv s"
  shows "\<exists>flag s' js ks. expand_loop rule b pos is s = Inr (flag, s') \<and> trie_inv s' \<and> balanced s s' \<and>
    is = js @ ks \<and> (flag \<longrightarrow> ks = []) \<and> blowup (fst s') = blowup (fst s) \<and>
    (\<forall>n. room s (64 * length is + n) \<longrightarrow> flag \<and> room s' n) \<and>
    expandedTable (snd s') = expandedTable (snd s) @ map (\<lambda>i. piece rule b (f i)) js \<and>
    (\<forall>k. trie_lookup s' k = better (trie_lookup s k)
       (if \<exists>i \<in> set js. t_matches (piece rule b (f i)) k then t_prio rule else 0))"
  using inv
proof (induction "is" arbitrary: s)
  case Nil
  then show ?case by (intro exI [of _ True] exI [of _ s] exI [of _ "[]"]) simp
next
  case (Cons i "is")
  let ?e = "piece rule b (f i)"
  obtain res s1 where 1: "insert_prefix_rule_priority ?e s = Inr (res, s1)" "trie_inv s1"
    "balanced s s1" "res \<in> {0, 1}" and room1: "\<forall>n. room s (64 + n) \<longrightarrow> res = 0 \<and> room s1 n" and
    same: "blowup (fst s1) = blowup (fst s)" "expandedTable (snd s1) = expandedTable (snd s)" and
    2: "\<forall>k. trie_lookup s1 k = better (trie_lookup s k)
       (if res = 0 \<and> t_matches ?e k then t_prio ?e else 0)"
    using insert_step [OF valid_piece [OF b pr] Cons.prems] by blast
  obtain g' T' where s1: "s1 = (g', T')" by (cases s1)
  have tp: "t_prio ?e = t_prio rule" by (simp add: t_prio_def piece_def)
  show ?case
  proof (cases "res = 1")
    case True
    have "expand_loop rule b pos (i # is) s = Inr (False, s1)"
      using 1(1) f b True by (simp add: piece_def s1)
    moreover have "\<not> room s (64 * length (i # is) + n)" for n
      using room1 True by (auto simp: add.assoc)
    ultimately show ?thesis
      using 1(2,3) 2 same True
      by (intro exI [of _ False] exI [of _ s1]) (rule exI [of _ "[]"], rule exI [of _ "i # is"], simp)
  next
    case False
    define s2 where "s2 = (g', T'\<lparr>expandedTable := expandedTable T' @ [?e],
      expand_count := expand_count T' + of_nat (length (expandedTable T' @ [?e]))\<rparr>)"
    have step: "expand_loop rule b pos (i # is) s = expand_loop rule b pos is s2"
      using 1(1) f b False by (simp add: piece_def Let_def s1 s2_def)
    have inv2: "trie_inv s2" using 1(2) by (simp add: trie_inv_def s1 s2_def)
    have eq2: "balanced s s2" "\<And>n. room s2 n = room s1 n" "\<And>k. trie_lookup s2 k = trie_lookup s1 k"
      "expandedTable (snd s2) = expandedTable (snd s) @ [?e]" "blowup (fst s2) = blowup (fst s)"
      using 1(3) same
      by (simp_all add: balanced_def room_def trie_lookup_def LPM1_search_rule_def s1 s2_def)
    obtain flag s' js ks where 3: "expand_loop rule b pos is s2 = Inr (flag, s')"
      "trie_inv s'" "balanced s2 s'" "is = js @ ks" "flag \<longrightarrow> ks = []" "blowup (fst s') = blowup (fst s2)"
      "\<forall>n. room s2 (64 * length is + n) \<longrightarrow> flag \<and> room s' n"
      "expandedTable (snd s') = expandedTable (snd s2) @ map (\<lambda>i. piece rule b (f i)) js"
      and look: "\<forall>k. trie_lookup s' k = better (trie_lookup s2 k)
       (if \<exists>i \<in> set js. t_matches (piece rule b (f i)) k then t_prio rule else 0)"
      using Cons.IH [OF inv2] by blast
    have "res = 0" using False 1(4) by simp
    with 2 look tp have "trie_lookup s' k = better (trie_lookup s k)
       (if \<exists>i \<in> set (i # js). t_matches (piece rule b (f i)) k then t_prio rule else 0)" for k
      by (auto simp: better_assoc eq2(3))
    moreover have "\<forall>n. room s (64 * length (i # is) + n) \<longrightarrow> flag \<and> room s' n"
      using room1 3(7) eq2(2) by (auto simp: add.assoc)
    moreover have "balanced s s'" using eq2(1) 3(3) by (rule balanced_trans)
    moreover have "expand_loop rule b pos (i # is) s = Inr (flag, s')" using step 3(1) by simp
    moreover have "i # is = (i # js) @ ks" using 3(4) by simp
    moreover have "blowup (fst s') = blowup (fst s)" using 3(6) eq2(5) by simp
    moreover have "expandedTable (snd s') = expandedTable (snd s) @ map (\<lambda>i. piece rule b (f i)) (i # js)"
      using 3(8) eq2(4) by simp
    ultimately show ?thesis using 3(2,5) by blast
  qed
qed

section \<open>The whole function\<close>

lemma expand_rule_spec:
  assumes m: "r_mask rule \<noteq> -1" and pr: "r_priority rule \<noteq> 0" and cl: "clear_above rule"
    and inv: "trie_inv s" and small: "length (new_positions (r_mask rule) (boundary (r_mask rule))) \<le> 15"
  shows "\<exists>flag s' es. expand_rule rule s = Inr (flag, s') \<and> trie_inv s' \<and> balanced s s' \<and>
    (\<forall>n. room s (64 * 2 ^ length (new_positions (r_mask rule) (boundary (r_mask rule))) + n) \<longrightarrow>
       flag \<and> room s' n) \<and>
    blowup (fst s') = blowup (fst s) \<and> expandedTable (snd s') = expandedTable (snd s) @ es \<and>
    (flag \<longrightarrow> length es = 2 ^ length (new_positions (r_mask rule) (boundary (r_mask rule)))) \<and>
    (\<forall>k. trie_lookup s' k = better (trie_lookup s k)
        (if \<exists>e \<in> set es. t_matches e k then t_prio rule else 0)) \<and>
    (\<forall>k. (\<exists>e \<in> set es. t_matches e k) \<longrightarrow> t_matches rule k) \<and>
    (flag \<longrightarrow> (\<forall>k. t_matches rule k \<longrightarrow> (\<exists>e \<in> set es. t_matches e k)))"
proof -
  let ?b = "boundary (r_mask rule)"
  let ?pos = "new_positions (r_mask rule) ?b"
  obtain g T where s: "s = (g, T)" by (cases s)
  have "\<forall>p \<in> set ?pos. p < 64" by (auto simp: set_new_positions)
  from expanded_value_spreads [OF this, of "r_value rule"] length_new_positions [of "r_mask rule" ?b]
  obtain f where f: "\<forall>i. expanded_value (r_value rule) ?pos i = Inr (f i)"
    and sp: "spreads True ?pos (r_value rule) f" by (meson less_imp_le)
  define s1 where "s1 = (g\<lparr>new_num1 := of_nat (length ?pos)\<rparr>, T)"
  have eq1: "trie_inv s1" "balanced s s1" "\<And>n. room s1 n = room s n" "\<And>k. trie_lookup s1 k = trie_lookup s k"
    "blowup (fst s1) = blowup (fst s)" "expandedTable (snd s1) = expandedTable (snd s)"
    using inv by (simp_all add: trie_inv_def balanced_def room_def trie_lookup_def s s1_def)
  have "\<not> (of_nat (length ?pos) :: u32) > 15"
    using small by (simp add: word_less_nat_alt unat_of_nat_small)
  then have run: "expand_rule rule s = expand_loop rule ?b ?pos [0..<2 ^ length ?pos] s1"
    by (simp add: expand_rule_def s s1_def Let_def)
  obtain flag s' js ks where 1: "expand_loop rule ?b ?pos [0..<2 ^ length ?pos] s1 = Inr (flag, s')"
    "trie_inv s'" "balanced s1 s'" "[0..<2 ^ length ?pos] = js @ ks" "flag \<longrightarrow> ks = []"
    "blowup (fst s') = blowup (fst s1)"
    "\<forall>n. room s1 (64 * length [0..<2 ^ length ?pos] + n) \<longrightarrow> flag \<and> room s' n"
    "expandedTable (snd s') = expandedTable (snd s1) @ map (\<lambda>i. piece rule ?b (f i)) js"
    and 2: "\<forall>k. trie_lookup s' k = better (trie_lookup s1 k)
       (if \<exists>i \<in> set js. t_matches (piece rule ?b (f i)) k then t_prio rule else 0)"
    using expand_loop_spec [OF f boundary_first(2) [OF m] pr eq1(1)] by blast
  let ?es = "map (\<lambda>i. piece rule ?b (f i)) js"
  have cov: "t_matches rule k \<longleftrightarrow> (\<exists>i < 2 ^ length ?pos. t_matches (piece rule ?b (f i)) k)" for k
    using expansion_covers [OF m sp, of k] cl
    by (simp add: t_matches_def piece_def clear_above_def)
  have js: "set js \<subseteq> {..<2 ^ length ?pos}"
    using arg_cong [OF 1(4), of set] by auto
  have all: "js = [0..<2 ^ length ?pos]" if flag using 1(4,5) that by simp
  have "trie_lookup s' k = better (trie_lookup s k)
      (if \<exists>e \<in> set ?es. t_matches e k then t_prio rule else 0)" for k
    using 2 by (simp add: eq1(4))
  moreover have "flag \<longrightarrow> length ?es = 2 ^ length ?pos" using all by auto
  moreover have "(\<exists>e \<in> set ?es. t_matches e k) \<longrightarrow> t_matches rule k" for k
    using js by (auto simp: cov)
  moreover have "flag \<longrightarrow> t_matches rule k \<longrightarrow> (\<exists>e \<in> set ?es. t_matches e k)" for k
    using all by (auto simp: cov)
  moreover have "balanced s s'" using eq1(2) 1(3) by (rule balanced_trans)
  moreover have "flag \<and> room s' n" if "room s (64 * 2 ^ length ?pos + n)" for n
    using 1(7) that eq1(3) by simp
  ultimately show ?thesis
    unfolding run
    by (intro exI [of _ flag] exI [of _ s'] exI [of _ ?es]) (simp add: 1(1,2,6,8) eq1(5,6))
qed

text \<open>C17: \<open>expand_rule\<close> on a ternary rule whose value is clear under its wildcards and that has at most
  15 wildcards above its prefix part: when it reports success, every search afterwards returns the better
  of the old answer and the rule's priority if the rule matches the key (all \<open>2 ^ new_num1\<close> prefix
  rules are in the table); when it reports failure, no key gets an answer the rule does not justify.\<close>

theorem expand_rule_correct:
  assumes "r_mask rule \<noteq> -1" and "r_priority rule \<noteq> 0" and "clear_above rule" and "trie_inv s"
    and "length (new_positions (r_mask rule) (boundary (r_mask rule))) \<le> 15"
  shows "\<exists>flag s'. expand_rule rule s = Inr (flag, s') \<and> trie_inv s' \<and>
    (if flag then
       \<forall>k. trie_lookup s' k = better (trie_lookup s k) (if t_matches rule k then t_prio rule else 0)
     else \<forall>k. trie_lookup s' k = trie_lookup s k \<or>
       t_matches rule k \<and> trie_lookup s' k = better (trie_lookup s k) (t_prio rule))"
proof -
  obtain flag s' es where 1: "expand_rule rule s = Inr (flag, s')" "trie_inv s'"
    and 2: "\<forall>k. trie_lookup s' k = better (trie_lookup s k)
        (if \<exists>e \<in> set es. t_matches e k then t_prio rule else 0)"
      "\<forall>k. (\<exists>e \<in> set es. t_matches e k) \<longrightarrow> t_matches rule k"
      "flag \<longrightarrow> (\<forall>k. t_matches rule k \<longrightarrow> (\<exists>e \<in> set es. t_matches e k))"
    using expand_rule_spec [OF assms] by blast
  have "if flag then
       \<forall>k. trie_lookup s' k = better (trie_lookup s k) (if t_matches rule k then t_prio rule else 0)
     else \<forall>k. trie_lookup s' k = trie_lookup s k \<or>
       t_matches rule k \<and> trie_lookup s' k = better (trie_lookup s k) (t_prio rule)"
  proof (cases flag)
    case True
    then have "(\<exists>e \<in> set es. t_matches e k) = t_matches rule k" for k using 2 by blast
    with 2(1) True show ?thesis by simp
  next
    case False
    with 2(1,2) show ?thesis by (simp split: if_split)
  qed
  with 1 show ?thesis by blast
qed

theorem expand_rule_correct_witness:
  "\<exists>flag s'. expand_rule \<lparr>r_value = 0, r_mask = 5, r_priority = 9, r_action = 0\<rparr>
     (new_Trie \<lparr>debug = 0, threshold = 1000, blowup = False, new_num1 = 0\<rparr>) = Inr (flag, s') \<and>
   (flag \<longrightarrow> trie_lookup s' 4 = 9 \<and> trie_lookup s' 2 = 0)"
proof -
  let ?r = "\<lparr>r_value = 0, r_mask = 5, r_priority = 9, r_action = 0\<rparr> :: Rule"
  let ?g = "\<lparr>debug = 0, threshold = 1000, blowup = False, new_num1 = 0\<rparr>"
  have pos: "new_positions (r_mask ?r) (boundary (r_mask ?r)) = [2]" by code_simp
  have "clear_above ?r" unfolding clear_above_def pos by simp
  moreover have "length (new_positions (r_mask ?r) (boundary (r_mask ?r))) \<le> 15"
    unfolding pos by simp
  moreover have "trie_lookup (new_Trie ?g) k = 0" for k by (rule trie.lookup_empty)
  moreover have "t_matches ?r 4" "\<not> t_matches ?r 2" by (code_simp)+
  ultimately show ?thesis
    using expand_rule_correct [of ?r "new_Trie ?g"] trie_inv_new [of ?g]
    by (auto simp: t_prio_def)
qed

text \<open>
  The wildcards that \<open>expand_rule\<close> has to write out are those with a fixed bit somewhere below them.
\<close>

lemma clear_value: "r_value r AND r_mask r = 0 \<Longrightarrow> clear_above r"
proof -
  assume "r_value r AND r_mask r = 0"
  then have "\<not> (bit (r_value r) p \<and> bit (r_mask r) p)" for p
    by (metis bit_and_iff bit_0_eq bot_apply bot_bool_def)
  then show ?thesis by (auto simp: clear_above_def set_new_positions)
qed

lemma new_positions_card:
  assumes "m \<noteq> -1"
  shows "length (new_positions m (boundary m)) = card {n. bit m n \<and> (\<exists>j<n. \<not> bit m j)}"
proof -
  note b = boundary_first [OF assms]
  have "set (new_positions m (boundary m)) = {n. bit m n \<and> (\<exists>j<n. \<not> bit m j)}"
  proof (rule set_eqI)
    fix n
    have "bit m n \<Longrightarrow> n < 64" using bit_imp_le_length [of m n] by simp
    moreover have "boundary m < n \<longleftrightarrow> (\<exists>j<n. \<not> bit m j)" if "bit m n"
      using b(1,3) that by (metis linorder_neqE_nat order.strict_trans)
    ultimately show "n \<in> set (new_positions m (boundary m)) \<longleftrightarrow> n \<in> {n. bit m n \<and> (\<exists>j<n. \<not> bit m j)}"
      by (auto simp: set_new_positions)
  qed
  then show ?thesis using distinct_card [OF distinct_new_positions, of m "boundary m"] by simp
qed

text \<open>C40: How far \<open>expand_rule\<close> goes, for a rule with a priority that is not all wildcards and has no value bit under one.
  Let \<open>w\<close> be the number of its wildcards with a fixed bit somewhere below.  With \<open>w > 15\<close> it gives up: it raises
  \<open>blowup\<close>, makes no node and leaves the trie alone.  Otherwise it ends without a blow-up, and if the node budget
  has room for 64 nodes a piece it succeeds and has recorded exactly \<open>2 ^ w\<close> pieces.\<close>

theorem expand_rule_blowup:
  assumes "r_mask rule \<noteq> -1" and "r_value rule AND r_mask rule = 0" and "r_priority rule \<noteq> 0" and "trie_inv s"
    and "w = card {n. bit (r_mask rule) n \<and> (\<exists>j<n. \<not> bit (r_mask rule) j)}"
  shows "if 15 < w
    then \<exists>g'. expand_rule rule s = Inr (False, g', snd s) \<and> blowup g' \<and> debug g' = debug (fst s) \<and> new_num1 g' = of_nat w
    else \<exists>flag s'. expand_rule rule s = Inr (flag, s') \<and> blowup (fst s') = blowup (fst s) \<and>
      (room s (64 * 2 ^ w) \<longrightarrow> flag \<and> length (expandedTable (snd s')) = length (expandedTable (snd s)) + 2 ^ w)"
proof -
  let ?l = "length (new_positions (r_mask rule) (boundary (r_mask rule)))"
  have w: "?l = w" using new_positions_card [OF assms(1)] assms(5) by simp
  show ?thesis
  proof (cases "15 < w")
    case True
    have "unat (of_nat ?l :: u32) = ?l"
      by (rule unat_of_nat_small(2)) (rule less_trans [OF length_new_positions], simp)
    with True w have "(of_nat ?l :: u32) > 15" by (simp add: word_less_nat_alt)
    with True w show ?thesis by (cases s) (simp add: expand_rule_def)
  next
    case False
    then have small: "?l \<le> 15" using w by simp
    obtain flag s' es where "expand_rule rule s = Inr (flag, s')" "blowup (fst s') = blowup (fst s)"
      "expandedTable (snd s') = expandedTable (snd s) @ es" "flag \<longrightarrow> length es = 2 ^ ?l"
      "\<forall>n. room s (64 * 2 ^ ?l + n) \<longrightarrow> flag \<and> room s' n"
      using expand_rule_spec [OF assms(1,3) clear_value [OF assms(2)] assms(4) small] by blast
    moreover from this(5) have "room s (64 * 2 ^ ?l) \<longrightarrow> flag" by (metis add_0_right)
    ultimately show ?thesis using False unfolding w by auto
  qed
qed

theorem expand_rule_blowup_witness:
  "\<exists>g'. expand_rule \<lparr>r_value = 0, r_mask = 0x1FFFE, r_priority = 9, r_action = 0\<rparr>
     (new_Trie \<lparr>debug = 0, threshold = 1000, blowup = False, new_num1 = 0\<rparr>) =
     Inr (False, g', snd (new_Trie \<lparr>debug = 0, threshold = 1000, blowup = False, new_num1 = 0\<rparr>)) \<and>
     blowup g' \<and> new_num1 g' = 16"
proof -
  let ?m = "0x1FFFE :: u64" and ?s = "new_Trie \<lparr>debug = 0, threshold = 1000, blowup = False, new_num1 = 0\<rparr>"
  let ?r = "\<lparr>r_value = 0, r_mask = ?m, r_priority = 9, r_action = 0\<rparr> :: Rule"
  have m: "?m \<noteq> -1" by code_simp
  have "length (new_positions ?m (boundary ?m)) = 16" by code_simp
  then have w: "16 = card {n. bit (r_mask ?r) n \<and> (\<exists>j<n. \<not> bit (r_mask ?r) j)}" using new_positions_card [OF m] by simp
  have "trie_inv ?s" by (rule trie_inv_new)
  from expand_rule_blowup [OF _ _ _ this w] show ?thesis using m by auto
qed

end
