(* ===== verification/Bit_Rearrange.thy ===== *)
theory Bit_Rearrange
  imports Trie_Rules
begin

text \<open>
  The bit rearrangement of \<open>test/prefix_kmeans.cpp\<close>: a group of rules gives a vector \<open>delta\<close>, one
  signed distance a bit, that moves the columns with most wildcards to the low end; the same vector
  rearranges rules and keys. The data of \<open>std::sort\<close> here are totally ordered, so every sorting
  routine gives the result of the insertion sort used (\<open>my_pairsort_any_sort\<close>).
\<close>

section \<open>Computing the vector\<close>

definition column_score :: "nat \<Rightarrow> Rule list \<Rightarrow> u64" where
  "column_score j rs = fold (\<lambda>r score. score + (drop_bit j (r_mask r) AND 1)) rs 0"

definition pair_function :: "Rule list \<Rightarrow> (u64 \<times> u64) list" where
  "pair_function rs = map (\<lambda>j. (of_nat j, column_score j rs)) [0..<64]"

definition com_pair :: "u64 \<times> u64 \<Rightarrow> u64 \<times> u64 \<Rightarrow> bool" where
  "com_pair i j = (if snd i > snd j then True else if snd i = snd j then fst i < fst j else False)"

text \<open>The inner loop of \<open>my_pairsort\<close>: the distance to the first equal pair, nothing if none is.\<close>

definition pair_delta :: "(u64 \<times> u64) list \<Rightarrow> nat \<Rightarrow> u64 \<times> u64 \<Rightarrow> int list" where
  "pair_delta new_pair i p =
     (let j = find_index p new_pair in if j < length new_pair then [int i - int j] else [])"

definition my_pairsort :: "(u64 \<times> u64) list \<Rightarrow> int list" where
  "my_pairsort pv =
     (let new_pair = insertion_sort com_pair pv
      in concat (map (\<lambda>i. pair_delta new_pair i (pv ! i)) [0..<length pv]))"

text \<open>
  \<open>generate_delta\<close>: a matched column is overwritten with 132; \<open>checkpoint\<close> keeps its value when no
  column matches.
\<close>

definition sum_column :: "Rule list \<Rightarrow> u64 list" where
  "sum_column rs = map (\<lambda>j. column_score j rs) [0..<64]"

fun generate_delta_loop :: "nat \<Rightarrow> u64 list \<Rightarrow> u64 list \<Rightarrow> nat \<Rightarrow> int list" where
  "generate_delta_loop i [] new_sum checkpoint = []"
| "generate_delta_loop i (c # cs) new_sum checkpoint =
     (let j = find_index c new_sum;
          (new_sum, checkpoint) =
            (if j < length new_sum then (new_sum[j := 132], j) else (new_sum, checkpoint))
      in (int i - int checkpoint) # generate_delta_loop (Suc i) cs new_sum checkpoint)"

definition generate_delta :: "Rule list \<Rightarrow> int list" where
  "generate_delta rs =
     generate_delta_loop 0 (sum_column rs) (insertion_sort (\<lambda>x y. x > y) (sum_column rs)) 0"

section \<open>Applying it\<close>

definition vec_at :: "'a list \<Rightarrow> nat \<Rightarrow> 'a cxx" where
  "vec_at xs i = (if i < length xs then Inr (xs ! i) else Inl UB_Index)"

definition move_bit :: "u64 \<Rightarrow> nat \<Rightarrow> int \<Rightarrow> u64 cxx" where
  "move_bit x j d =
     (if d < 0 then shl64 (x AND push_bit j 1) (nat \<bar>d\<bar>)
      else if d > 0 then shr64 (x AND push_bit j 1) (nat \<bar>d\<bar>)
      else Inr (x AND push_bit j 1))"

definition keys_rearrange :: "u64 \<Rightarrow> int list \<Rightarrow> u64 cxx" where
  "keys_rearrange key delta =
     rfold (\<lambda>j newKey. rbind (vec_at delta j) (\<lambda>d.
              rbind (move_bit key j d) (\<lambda>s. Inr (newKey OR s)))) [0..<64] 0"

definition rule_rearrange :: "int list \<Rightarrow> Rule \<Rightarrow> Rule cxx" where
  "rule_rearrange delta r =
     rfold (\<lambda>j new. rbind (vec_at delta j) (\<lambda>d.
              rbind (move_bit (r_value r) j d) (\<lambda>v.
              rbind (move_bit (r_mask r) j d) (\<lambda>m.
                Inr (new\<lparr>r_value := r_value new OR v, r_mask := r_mask new OR m,
                         r_priority := r_priority r, r_action := r_action r\<rparr>))))) [0..<64] Rule0"

definition rules_rearrange :: "Rule list \<Rightarrow> int list \<Rightarrow> Rule list cxx" where
  "rules_rearrange rs delta = rmap (rule_rearrange delta) rs"

section \<open>Vectors that permute the bits\<close>

definition dest :: "int list \<Rightarrow> nat \<Rightarrow> nat" where
  "dest d j = nat (int j - d ! j)"

definition good_delta :: "int list \<Rightarrow> bool" where
  "good_delta d \<longleftrightarrow> length d = 64 \<and> (\<forall>j<64. d ! j \<le> int j \<and> int j - d ! j < 64) \<and>
     inj_on (dest d) {..<64}"

definition moved :: "int list \<Rightarrow> u64 \<Rightarrow> u64 \<Rightarrow> bool" where
  "moved d x y \<longleftrightarrow> (\<forall>j<64. bit y (dest d j) = bit x j)"

lemma good_dest: "good_delta d \<Longrightarrow> j < 64 \<Longrightarrow> dest d j < 64 \<and> int (dest d j) = int j - d ! j"
  unfolding good_delta_def dest_def by auto

lemma dest_image: "good_delta d \<Longrightarrow> dest d ` {..<64} = {..<64}"
proof -
  assume d: "good_delta d"
  have "dest d ` {..<64} \<subseteq> {..<64}" using good_dest [OF d] by auto
  moreover have "inj_on (dest d) {..<64}" using d by (simp add: good_delta_def)
  ultimately show ?thesis by (simp add: endo_inj_surj)
qed

lemma dest_surj: "good_delta d \<Longrightarrow> n < 64 \<Longrightarrow> \<exists>j<64. dest d j = n"
proof -
  assume "good_delta d" and "n < 64"
  then have "n \<in> dest d ` {..<64}" using dest_image by simp
  then show ?thesis by auto
qed

lemma move_bit_bits:
  assumes "j < 64" and "d \<le> int j" and "int j - d < 64"
  shows "\<exists>w. move_bit x j d = Inr w \<and> (\<forall>n<64. bit w n \<longleftrightarrow> bit x j \<and> n = nat (int j - d))"
proof -
  consider (neg) "d < 0" | (pos) "d > 0" | (zero) "d = 0" by linarith
  then show ?thesis
  proof cases
    case neg
    obtain e where e: "d = - int e" using neg by (intro that [of "nat (- d)"]) simp
    have "e < 64" "nat (int j + int e) = j + e" using assms e by auto
    with neg assms show ?thesis
      by (auto simp: move_bit_def bit_push_bit_iff bit_and_iff bit_power_two e)
  next
    case pos
    obtain e where e: "d = int e" using pos by (intro that [of "nat d"]) simp
    have "e < 64" "e + nat (int j - int e) = j" using assms e by auto
    with pos assms show ?thesis
      by (auto simp: move_bit_def bit_drop_bit_eq bit_and_iff bit_power_two e)
  next
    case zero
    with assms show ?thesis by (auto simp: move_bit_def bit_and_iff bit_power_two)
  qed
qed

text \<open>Or-ing the moved bits together, for every pair of accumulators the two loops use.\<close>

lemma moved_by_or:
  assumes d: "good_delta d" and y: "\<forall>n<64. bit y n \<longleftrightarrow> (\<exists>j<64. bit x j \<and> n = dest d j)"
  shows "moved d x y"
proof -
  have inj: "inj_on (dest d) {..<64}" using d by (simp add: good_delta_def)
  show ?thesis
    unfolding moved_def
  proof (intro allI impI)
    fix j :: nat assume j: "j < 64"
    have "bit y (dest d j) \<longleftrightarrow> (\<exists>i<64. bit x i \<and> dest d j = dest d i)"
      using y good_dest [OF d j] by blast
    also have "\<dots> \<longleftrightarrow> bit x j"
      using j inj_onD [OF inj] by (metis lessThan_iff)
    finally show "bit y (dest d j) = bit x j" .
  qed
qed

lemma keys_rearrange_upto:
  assumes d: "good_delta d" and n: "n \<le> 64"
  shows "\<exists>y. rfold (\<lambda>j newKey. rbind (vec_at d j) (\<lambda>e.
              rbind (move_bit x j e) (\<lambda>s. Inr (newKey OR s)))) [0..<n] 0 = Inr y \<and>
    (\<forall>i<64. bit y i \<longleftrightarrow> (\<exists>j<n. bit x j \<and> i = dest d j))"
  using n
proof (induction n)
  case 0
  show ?case by simp
next
  case (Suc n)
  from Suc obtain y where y: "rfold (\<lambda>j newKey. rbind (vec_at d j) (\<lambda>e.
              rbind (move_bit x j e) (\<lambda>s. Inr (newKey OR s)))) [0..<n] 0 = Inr y"
    and yb: "\<forall>i<64. bit y i \<longleftrightarrow> (\<exists>j<n. bit x j \<and> i = dest d j)" by auto
  obtain w where w: "move_bit x n (d ! n) = Inr w"
    and wb: "\<forall>i<64. bit w i \<longleftrightarrow> bit x n \<and> i = dest d n"
    using move_bit_bits [of n "d ! n" x] d Suc.prems by (auto simp: good_delta_def dest_def)
  have "vec_at d n = Inr (d ! n)" using d Suc.prems by (simp add: vec_at_def good_delta_def)
  with y w show ?case
    using yb wb by (auto simp: rfold_append bit_or_iff less_Suc_eq)
qed

lemma keys_rearrange_moved:
  assumes "good_delta d"
  shows "\<exists>y. keys_rearrange x d = Inr y \<and> moved d x y"
  using keys_rearrange_upto [OF assms order_refl, of x] moved_by_or [OF assms]
  unfolding keys_rearrange_def by blast

lemma rule_rearrange_upto:
  assumes d: "good_delta d" and n: "n \<le> 64"
  shows "\<exists>r'. rfold (\<lambda>j new. rbind (vec_at d j) (\<lambda>e.
              rbind (move_bit (r_value r) j e) (\<lambda>v.
              rbind (move_bit (r_mask r) j e) (\<lambda>m.
                Inr (new\<lparr>r_value := r_value new OR v, r_mask := r_mask new OR m,
                         r_priority := r_priority r, r_action := r_action r\<rparr>))))) [0..<n] Rule0 = Inr r' \<and>
    (\<forall>i<64. bit (r_value r') i \<longleftrightarrow> (\<exists>j<n. bit (r_value r) j \<and> i = dest d j)) \<and>
    (\<forall>i<64. bit (r_mask r') i \<longleftrightarrow> (\<exists>j<n. bit (r_mask r) j \<and> i = dest d j)) \<and>
    (0 < n \<longrightarrow> r_priority r' = r_priority r \<and> r_action r' = r_action r)"
  (is "\<exists>r'. rfold ?f _ _ = _ \<and> _")
  using n
proof (induction n)
  case 0
  show ?case by (simp add: Rule0_def)
next
  case (Suc n)
  from Suc obtain r' where r': "rfold ?f [0..<n] Rule0 = Inr r'"
    and rb: "\<forall>i<64. bit (r_value r') i \<longleftrightarrow> (\<exists>j<n. bit (r_value r) j \<and> i = dest d j)"
      "\<forall>i<64. bit (r_mask r') i \<longleftrightarrow> (\<exists>j<n. bit (r_mask r) j \<and> i = dest d j)" by auto
  have dn: "d ! n \<le> int n" "int n - d ! n < 64" "n < 64"
    using d Suc.prems by (auto simp: good_delta_def)
  obtain v where v: "move_bit (r_value r) n (d ! n) = Inr v"
    and vb: "\<forall>i<64. bit v i \<longleftrightarrow> bit (r_value r) n \<and> i = dest d n"
    using move_bit_bits [OF dn(3,1,2), of "r_value r"] by (auto simp: dest_def)
  obtain m where m: "move_bit (r_mask r) n (d ! n) = Inr m"
    and mb: "\<forall>i<64. bit m i \<longleftrightarrow> bit (r_mask r) n \<and> i = dest d n"
    using move_bit_bits [OF dn(3,1,2), of "r_mask r"] by (auto simp: dest_def)
  have "vec_at d n = Inr (d ! n)" using d Suc.prems by (simp add: vec_at_def good_delta_def)
  with r' v m show ?case
    using rb vb mb by (auto simp: rfold_append bit_or_iff less_Suc_eq)
qed

lemma rule_rearrange_moved:
  assumes d: "good_delta d"
  shows "\<exists>r'. rule_rearrange d r = Inr r' \<and> moved d (r_value r) (r_value r') \<and>
    moved d (r_mask r) (r_mask r') \<and> r_priority r' = r_priority r \<and> r_action r' = r_action r"
proof -
  from rule_rearrange_upto [OF d order_refl, of r] obtain r' where
    r': "rule_rearrange d r = Inr r'" and
    b: "\<forall>i<64. bit (r_value r') i \<longleftrightarrow> (\<exists>j<64. bit (r_value r) j \<and> i = dest d j)"
      "\<forall>i<64. bit (r_mask r') i \<longleftrightarrow> (\<exists>j<64. bit (r_mask r) j \<and> i = dest d j)" and
    pa: "r_priority r' = r_priority r" "r_action r' = r_action r"
    unfolding rule_rearrange_def by auto
  from r' pa moved_by_or [OF d b(1)] moved_by_or [OF d b(2)] show ?thesis by blast
qed

text \<open>Moving the bits of a rule and of a key the same way keeps the match.\<close>

lemma moved_matches:
  assumes d: "good_delta d" and v: "moved d v v'" and m: "moved d m m'" and k: "moved d k k'"
  shows "rule_matches v' m' k' \<longleftrightarrow> rule_matches v m k"
proof -
  have "(\<forall>n<64. \<not> bit m' n \<longrightarrow> bit v' n = bit k' n) \<longleftrightarrow>
      (\<forall>j<64. \<not> bit m' (dest d j) \<longrightarrow> bit v' (dest d j) = bit k' (dest d j))"
    using dest_surj [OF d] good_dest [OF d] by metis
  also have "\<dots> \<longleftrightarrow> (\<forall>j<64. \<not> bit m j \<longrightarrow> bit v j = bit k j)"
    using v m k by (simp add: moved_def)
  finally show ?thesis by (simp only: rule_matches_bits)
qed

definition rearranged :: "int list \<Rightarrow> Rule \<Rightarrow> Rule" where
  "rearranged d r = (case rule_rearrange d r of Inl e \<Rightarrow> r | Inr r' \<Rightarrow> r')"

lemma rearranged_spec:
  assumes d: "good_delta d"
  shows "rule_rearrange d r = Inr (rearranged d r)" "moved d (r_value r) (r_value (rearranged d r))"
    "moved d (r_mask r) (r_mask (rearranged d r))" "r_priority (rearranged d r) = r_priority r"
    "r_action (rearranged d r) = r_action r"
  using rule_rearrange_moved [OF d, of r] by (auto simp: rearranged_def)

lemma rules_rearrange_map:
  "good_delta d \<Longrightarrow> rules_rearrange rs d = Inr (map (rearranged d) rs)"
  unfolding rules_rearrange_def by (rule rmap_Inr_map) (rule rearranged_spec(1))

lemma rearranged_matches:
  assumes d: "good_delta d" and k: "keys_rearrange k d = Inr k'"
  shows "t_matches (rearranged d r) k' = t_matches r k"
proof -
  have "moved d k k'" using keys_rearrange_moved [OF d, of k] k by auto
  then show ?thesis
    unfolding t_matches_def by (intro moved_matches [OF d] rearranged_spec(2,3) [OF d])
qed

end
