(* ===== verification/Bit_Delta.thy ===== *)
theory Bit_Delta
  imports Bit_Rearrange
begin

text \<open>
  What \<open>my_pairsort\<close> and \<open>generate_delta\<close> compute: the rank of a column in the order of its score
  (more wildcards first, the lower bit first among equals) is where the column moves, so both give
  permutations of the bits; they agree while no score is the marker 132.
\<close>

section \<open>The order of the columns\<close>

lemma com_pair_strict_weak: "strict_weak com_pair"
  unfolding strict_weak_def com_pair_def by (auto split: if_splits)

definition sorted_columns :: "Rule list \<Rightarrow> (u64 \<times> u64) list" where
  "sorted_columns rs = insertion_sort com_pair (pair_function rs)"

lemma pair_function_nth: "j < 64 \<Longrightarrow> pair_function rs ! j = (of_nat j, column_score j rs)"
  by (simp add: pair_function_def)

lemma distinct_pair_function: "distinct (pair_function rs)"
proof -
  have "inj_on (\<lambda>j. (of_nat j :: u64, column_score j rs)) {0..<64}"
  proof (rule inj_onI)
    fix i j :: nat assume ij: "i \<in> {0..<64}" "j \<in> {0..<64}"
      "(of_nat i :: u64, column_score i rs) = (of_nat j, column_score j rs)"
    have "unat (of_nat i :: u64) = i" "unat (of_nat j :: u64) = j"
      using ij(1,2) by (auto intro!: unat_of_nat_small(1))
    with ij(3) show "i = j" by (metis prod.inject)
  qed
  then show ?thesis by (simp add: pair_function_def distinct_map)
qed

lemma sorted_columns_facts:
  "mset (sorted_columns rs) = mset (pair_function rs)" "length (sorted_columns rs) = 64"
  "distinct (sorted_columns rs)" "set (sorted_columns rs) = set (pair_function rs)"
  "sorted_wrt (\<lambda>x y. \<not> com_pair y x) (sorted_columns rs)"
proof -
  note ss = insertion_sort_is_std_sort [OF com_pair_strict_weak]
  have m: "mset (sorted_columns rs) = mset (pair_function rs)"
    using ss by (simp add: is_std_sort_def sorted_columns_def)
  then show "mset (sorted_columns rs) = mset (pair_function rs)" .
  show "sorted_wrt (\<lambda>x y. \<not> com_pair y x) (sorted_columns rs)"
    using ss by (simp add: is_std_sort_def sorted_columns_def)
  show "length (sorted_columns rs) = 64"
    using mset_eq_length [OF m] by (simp add: pair_function_def)
  show "distinct (sorted_columns rs)"
    using mset_eq_imp_distinct_iff [OF m] distinct_pair_function by blast
  show "set (sorted_columns rs) = set (pair_function rs)"
    by (rule mset_eq_setD [OF m])
qed

text \<open>Any sorting routine gives the same order: the pairs are distinct and totally ordered.\<close>

lemma sorted_total_unique:
  assumes lt: "strict_weak lt" and tot: "\<forall>x \<in> set xs. \<forall>y \<in> set xs. x \<noteq> y \<longrightarrow> lt x y \<or> lt y x"
    and xs: "sorted_wrt (\<lambda>x y. \<not> lt y x) xs" and ys: "sorted_wrt (\<lambda>x y. \<not> lt y x) ys"
    and m: "mset xs = mset ys"
  shows "xs = ys"
  using tot xs ys m
proof (induction xs arbitrary: ys)
  case Nil
  then show ?case by simp
next
  case (Cons x xs)
  then obtain y ys' where ys: "ys = y # ys'" by (cases ys) auto
  have sets: "insert x (set xs) = insert y (set ys')"
    using Cons.prems(4) by (metis list.set(2) set_mset_mset ys)
  have "x = y"
  proof (rule ccontr)
    assume ne: "x \<noteq> y"
    then have "y \<in> set xs" "x \<in> set ys'" using sets by auto
    then have "\<not> lt y x" "\<not> lt x y" using Cons.prems(2,3) ys by auto
    with Cons.prems(1) ne \<open>y \<in> set xs\<close> show False by auto
  qed
  moreover have "xs = ys'"
    by (rule Cons.IH) (use Cons.prems ys \<open>x = y\<close> in auto)
  ultimately show ?case by (simp add: ys)
qed

definition rank :: "Rule list \<Rightarrow> nat \<Rightarrow> nat" where
  "rank rs j = find_index (pair_function rs ! j) (sorted_columns rs)"

lemma rank_facts:
  assumes "j < 64"
  shows "rank rs j < 64" "sorted_columns rs ! rank rs j = pair_function rs ! j"
proof -
  have "pair_function rs ! j \<in> set (sorted_columns rs)"
    using assms by (simp add: sorted_columns_facts(4) pair_function_def)
  from find_index_nth [OF this] show "rank rs j < 64"
    "sorted_columns rs ! rank rs j = pair_function rs ! j"
    by (simp_all add: rank_def sorted_columns_facts(2))
qed

lemma rank_inj: "inj_on (rank rs) {..<64}"
proof (rule inj_onI)
  fix i j assume ij: "i \<in> {..<64}" "j \<in> {..<64}" "rank rs i = rank rs j"
  then have "pair_function rs ! i = pair_function rs ! j"
    using rank_facts(2) by (metis lessThan_iff)
  moreover have "length (pair_function rs) = 64" by (simp add: pair_function_def)
  ultimately show "i = j"
    using ij distinct_pair_function by (simp add: nth_eq_iff_index_eq)
qed

lemma rank_mono:
  assumes "i < 64" "j < 64" "com_pair (pair_function rs ! i) (pair_function rs ! j)"
  shows "rank rs i < rank rs j"
proof (rule ccontr)
  assume "\<not> rank rs i < rank rs j"
  then consider "rank rs i = rank rs j" | "rank rs j < rank rs i" by linarith
  then show False
  proof cases
    case 1
    then have "i = j" using assms(1,2) rank_inj by (auto simp: inj_on_def)
    with assms(3) show False by (simp add: com_pair_def)
  next
    case 2
    have "\<not> com_pair (sorted_columns rs ! rank rs i) (sorted_columns rs ! rank rs j)"
      using sorted_columns_facts(5) 2 rank_facts(1) [OF assms(1)]
      by (simp add: sorted_wrt_iff_nth_less sorted_columns_facts(2))
    with assms show False by (simp add: rank_facts(2))
  qed
qed

section \<open>my\_pairsort\<close>

lemma my_pairsort_ranks: "my_pairsort (pair_function rs) = map (\<lambda>j. int j - int (rank rs j)) [0..<64]"
proof -
  have "pair_delta (sorted_columns rs) i (pair_function rs ! i) = [int i - int (rank rs i)]"
    if "i < 64" for i
    using rank_facts(1) [OF that, of rs]
    by (simp add: pair_delta_def rank_def sorted_columns_facts(2))
  then have "map (\<lambda>i. pair_delta (sorted_columns rs) i (pair_function rs ! i)) [0..<64] =
      map (\<lambda>i. [int i - int (rank rs i)]) [0..<64]"
    by (intro map_cong) auto
  moreover have "length (pair_function rs) = 64" by (simp add: pair_function_def)
  ultimately show ?thesis
    by (simp only: my_pairsort_def sorted_columns_def [symmetric] Let_def) (simp add: concat_map_singleton)
qed

definition trans_delta :: "Rule list \<Rightarrow> int list" where
  "trans_delta rs = my_pairsort (pair_function rs)"

lemma trans_delta_nth: "j < 64 \<Longrightarrow> trans_delta rs ! j = int j - int (rank rs j)"
  by (simp add: trans_delta_def my_pairsort_ranks)

lemma dest_rank: "j < 64 \<Longrightarrow> dest (trans_delta rs) j = rank rs j"
  by (simp add: dest_def trans_delta_nth)

lemma trans_delta_good: "good_delta (trans_delta rs)"
proof -
  have "inj_on (dest (trans_delta rs)) {..<64}"
    using rank_inj [of rs] by (auto simp: inj_on_def dest_rank)
  moreover have "length (trans_delta rs) = 64" by (simp add: trans_delta_def my_pairsort_ranks)
  ultimately show ?thesis
    using rank_facts(1) by (auto simp: good_delta_def trans_delta_nth)
qed

section \<open>Any std::sort gives this order\<close>

lemma my_pairsort_any_sort:
  assumes "is_std_sort com_pair srt"
  shows "srt (pair_function rs) = sorted_columns rs"
proof (rule sorted_total_unique [OF com_pair_strict_weak])
  have m: "mset (srt (pair_function rs)) = mset (pair_function rs)"
    and s: "sorted_wrt (\<lambda>x y. \<not> com_pair y x) (srt (pair_function rs))"
    using assms by (simp_all add: is_std_sort_def)
  show "sorted_wrt (\<lambda>x y. \<not> com_pair y x) (srt (pair_function rs))" by (rule s)
  show "sorted_wrt (\<lambda>x y. \<not> com_pair y x) (sorted_columns rs)" by (rule sorted_columns_facts(5))
  show "mset (srt (pair_function rs)) = mset (sorted_columns rs)"
    by (simp add: m sorted_columns_facts(1))
  show "\<forall>x \<in> set (srt (pair_function rs)). \<forall>y \<in> set (srt (pair_function rs)).
      x \<noteq> y \<longrightarrow> com_pair x y \<or> com_pair y x"
    by (auto simp: com_pair_def prod_eq_iff)
qed

section \<open>The rearrangement keeps the matching and sorts the columns\<close>

text \<open>C18: the vector \<open>my_pairsort\<close> computes for a group of rules rearranges every rule and every key
  without error, keeps priorities and actions, and a rearranged rule matches a
  rearranged key exactly when the rule matched the key.\<close>

theorem pairsort_rearrange_matches:
  "\<exists>rs' k'. rules_rearrange rs (my_pairsort (pair_function grp)) = Inr rs' \<and>
     keys_rearrange k (my_pairsort (pair_function grp)) = Inr k' \<and>
     list_all2 (\<lambda>r r'. t_matches r' k' = t_matches r k \<and> r_priority r' = r_priority r \<and>
       r_action r' = r_action r) rs rs'"
proof -
  let ?d = "trans_delta grp"
  note d = trans_delta_good [of grp]
  obtain k' where k': "keys_rearrange k ?d = Inr k'" using keys_rearrange_moved [OF d] by blast
  have "list_all2 (\<lambda>r r'. t_matches r' k' = t_matches r k \<and> r_priority r' = r_priority r \<and>
       r_action r' = r_action r) rs (map (rearranged ?d) rs)"
    by (simp add: list_all2_conv_all_nth rearranged_matches [OF d k'] rearranged_spec [OF d])
  with k' rules_rearrange_map [OF d, of rs] show ?thesis unfolding trans_delta_def by blast
qed

lemma column_score_bits:
  assumes "list_all2 (\<lambda>r r'. bit (r_mask r') j' = bit (r_mask r) j) rs rs'"
  shows "column_score j' rs' = column_score j rs"
proof -
  have "fold (\<lambda>r score. score + (drop_bit j' (r_mask r) AND 1)) rs' a =
      fold (\<lambda>r score. score + (drop_bit j (r_mask r) AND 1)) rs a" for a
    using assms by (induction arbitrary: a rule: list_all2_induct) (simp_all add: and_one_eq_bit)
  then show ?thesis by (simp add: column_score_def)
qed

lemma rearranged_score:
  assumes "j < 64"
  shows "column_score (rank grp j) (map (rearranged (trans_delta grp)) rs) = column_score j rs"
proof (rule column_score_bits)
  have "moved (trans_delta grp) (r_mask r) (r_mask (rearranged (trans_delta grp) r))" for r
    by (rule rearranged_spec(3) [OF trans_delta_good])
  then have "bit (r_mask (rearranged (trans_delta grp) r)) (rank grp j) = bit (r_mask r) j" for r
    using assms by (simp add: moved_def dest_rank)
  then show "list_all2 (\<lambda>r r'. bit (r_mask r') (rank grp j) = bit (r_mask r) j) rs
      (map (rearranged (trans_delta grp)) rs)"
    by (simp add: list_all2_conv_all_nth)
qed

lemma rearranged_scores_sorted:
  assumes "i \<le> j" and "j < 64"
  shows "column_score j (map (rearranged (trans_delta rs)) rs) \<le>
    column_score i (map (rearranged (trans_delta rs)) rs)"
proof -
  have ij: "i < 64" "j < 64" using assms by simp_all
  obtain i' where i': "i' < 64" "rank rs i' = i"
    using dest_surj [OF trans_delta_good ij(1), of rs] by (auto simp: dest_rank)
  obtain j' where j': "j' < 64" "rank rs j' = j"
    using dest_surj [OF trans_delta_good ij(2), of rs] by (auto simp: dest_rank)
  have "column_score j' rs \<le> column_score i' rs"
  proof (rule ccontr)
    assume "\<not> ?thesis"
    then have "com_pair (pair_function rs ! j') (pair_function rs ! i')"
      using i'(1) j'(1) by (auto simp: pair_function_nth com_pair_def not_le)
    from rank_mono [OF j'(1) i'(1) this] i'(2) j'(2) assms(1) show False by simp
  qed
  then show ?thesis
    using rearranged_score [OF i'(1), of rs rs] rearranged_score [OF j'(1), of rs rs] i'(2) j'(2)
    by simp
qed

text \<open>C33: after the rearrangement of a group by its own vector the wildcards are at the low end: a lower bit
  is a wildcard in at least as many rules as a higher bit.\<close>

theorem pairsort_sorts_columns:
  assumes "rules_rearrange rs (my_pairsort (pair_function rs)) = Inr rs'" and "i \<le> j" and "j < 64"
  shows "column_score j rs' \<le> column_score i rs'"
proof -
  have "rs' = map (rearranged (trans_delta rs)) rs"
    using assms(1) rules_rearrange_map [OF trans_delta_good, of rs rs] by (simp add: trans_delta_def)
  then show ?thesis using rearranged_scores_sorted [OF assms(2,3)] by simp
qed

theorem pairsort_sorts_columns_witness:
  "\<exists>rs'. rules_rearrange [\<lparr>r_value = 0, r_mask = 4, r_priority = 1, r_action = 0\<rparr>]
      (my_pairsort (pair_function [\<lparr>r_value = 0, r_mask = 4, r_priority = 1, r_action = 0\<rparr>])) = Inr rs' \<and>
    column_score 2 rs' \<le> column_score 0 rs'"
proof -
  let ?rs = "[\<lparr>r_value = 0, r_mask = 4, r_priority = 1, r_action = 0\<rparr>] :: Rule list"
  obtain rs' where "rules_rearrange ?rs (my_pairsort (pair_function ?rs)) = Inr rs'"
    using rules_rearrange_map [OF trans_delta_good, of ?rs ?rs] unfolding trans_delta_def by blast
  with pairsort_sorts_columns [OF this, of 0 2] show ?thesis by auto
qed

text \<open>A group of one rule: the rearranged mask is a run of ones from bit 0.\<close>

lemma singleton_low_mask:
  assumes "i \<le> j" and "bit (r_mask (rearranged (trans_delta [r]) r)) j"
  shows "bit (r_mask (rearranged (trans_delta [r]) r)) i"
proof -
  have "j < 64" using assms(2) bit_imp_le_length by force
  from rearranged_scores_sorted [OF assms(1) this, of "[r]"] assms(2) show ?thesis
    by (cases "bit (r_mask (rearranged (trans_delta [r]) r)) i")
      (simp_all add: column_score_def and_one_eq_bit)
qed

section \<open>generate\_delta\<close>

lemma sorted_scores:
  "insertion_sort (\<lambda>x y. x > y) (sum_column rs) = map snd (sorted_columns rs)"
proof (rule sorted_total_unique [of "\<lambda>x y :: u64. x > y"])
  show "strict_weak (\<lambda>x y :: u64. x > y)" unfolding strict_weak_def by auto
  then have ss: "is_std_sort (\<lambda>x y :: u64. x > y) (insertion_sort (\<lambda>x y. x > y))"
    by (rule insertion_sort_is_std_sort)
  then show "sorted_wrt (\<lambda>x y. \<not> x < y) (insertion_sort (\<lambda>x y. x > y) (sum_column rs))"
    by (simp add: is_std_sort_def)
  have "sorted_wrt (\<lambda>x y. \<not> snd x < snd y) (sorted_columns rs)"
    by (rule sorted_wrt_mono_rel [OF _ sorted_columns_facts(5)]) (auto simp: com_pair_def)
  then show "sorted_wrt (\<lambda>x y. \<not> x < y) (map snd (sorted_columns rs))"
    by (simp add: sorted_wrt_map)
  have "mset (insertion_sort (\<lambda>x y. x > y) (sum_column rs)) = mset (map snd (pair_function rs))"
    using ss by (simp add: is_std_sort_def sum_column_def pair_function_def o_def)
  then show "mset (insertion_sort (\<lambda>x y. x > y) (sum_column rs)) = mset (map snd (sorted_columns rs))"
    by (simp add: sorted_columns_facts(1))
qed auto

text \<open>The list the loop works on after the first \<open>i\<close> columns: their ranks are marked.\<close>

definition marked :: "Rule list \<Rightarrow> nat \<Rightarrow> u64 list" where
  "marked rs i = map (\<lambda>j. if j \<in> rank rs ` {..<i} then 132 else snd (sorted_columns rs ! j)) [0..<64]"

lemma find_index_intro:
  assumes "i < length xs" "xs ! i = x" "\<And>j. j < i \<Longrightarrow> xs ! j \<noteq> x"
  shows "find_index x xs = i"
proof -
  have "x \<in> set xs" using nth_mem [OF assms(1)] assms(2) by simp
  note at = find_index_nth [OF this]
  have "\<not> find_index x xs < i" using assms(3) [of "find_index x xs"] at by argo
  moreover have "\<not> i < find_index x xs" using find_index_first [of i x xs] assms(1,2) by argo
  ultimately show ?thesis by linarith
qed

lemma find_in_marked:
  assumes "i < 64" and no: "column_score i rs \<noteq> 132"
  shows "find_index (column_score i rs) (marked rs i) = rank rs i"
proof (rule find_index_intro)
  show r: "rank rs i < length (marked rs i)" using rank_facts(1) [OF assms(1)] by (simp add: marked_def)
  have "rank rs i \<notin> rank rs ` {..<i}"
    using rank_inj [of rs] assms(1) by (fastforce simp: inj_on_def)
  then show "marked rs i ! rank rs i = column_score i rs"
    using rank_facts [OF assms(1)] assms(1) by (simp add: marked_def pair_function_nth)
next
  fix j assume j: "j < rank rs i"
  then have j64: "j < 64" using rank_facts(1) [OF assms(1), of rs] by simp
  then obtain j' where j': "j' < 64" "rank rs j' = j"
    using dest_surj [OF trans_delta_good, of j rs] by (auto simp: dest_rank)
  show "marked rs i ! j \<noteq> column_score i rs"
  proof
    assume eq: "marked rs i ! j = column_score i rs"
    with no j64 have unm: "j \<notin> rank rs ` {..<i}" and "snd (sorted_columns rs ! j) = column_score i rs"
      by (auto simp: marked_def split: if_splits)
    then have sc: "column_score j' rs = column_score i rs"
      using rank_facts(2) [OF j'(1), of rs] j' by (simp add: pair_function_nth)
    have "i < j'" using unm j' j by (metis image_eqI lessThan_iff linorder_neqE_nat less_irrefl)
    moreover have "unat (of_nat i :: u64) = i" "unat (of_nat j' :: u64) = j'"
      using assms(1) j'(1) by (auto intro!: unat_of_nat_small(1))
    ultimately have "com_pair (pair_function rs ! i) (pair_function rs ! j')"
      using sc assms(1) j'(1) by (simp add: com_pair_def pair_function_nth word_less_nat_alt)
    from rank_mono [OF assms(1) j'(1) this] j j' show False by simp
  qed
qed

lemma marked_update:
  assumes "i < 64"
  shows "(marked rs i)[rank rs i := 132] = marked rs (Suc i)"
proof (rule nth_equalityI)
  show "length ((marked rs i)[rank rs i := 132]) = length (marked rs (Suc i))"
    by (simp add: marked_def)
  fix j assume "j < length ((marked rs i)[rank rs i := 132])"
  then have j: "j < 64" by (simp add: marked_def)
  then show "(marked rs i)[rank rs i := 132] ! j = marked rs (Suc i) ! j"
    by (cases "j = rank rs i") (simp_all add: marked_def lessThan_Suc)
qed

lemma generate_delta_loop_ranks:
  assumes "\<forall>j<64. column_score j rs \<noteq> 132" and "i \<le> 64"
  shows "generate_delta_loop i (drop i (sum_column rs)) (marked rs i) cp =
    map (\<lambda>j. int j - int (rank rs j)) [i..<64]"
  using assms(2)
proof (induction "64 - i" arbitrary: i cp)
  case 0
  then show ?case by (simp add: sum_column_def)
next
  case (Suc n)
  then have i: "i < 64" by simp
  have "drop i (sum_column rs) = column_score i rs # drop (Suc i) (sum_column rs)"
    using i Cons_nth_drop_Suc [of i "sum_column rs"] by (simp add: sum_column_def)
  moreover have "[i..<64] = i # [Suc i..<64]" using i by (simp add: upt_conv_Cons)
  moreover have "length (marked rs i) = 64" by (simp add: marked_def)
  ultimately show ?case
    using find_in_marked [OF i] assms(1) i rank_facts(1) [OF i, of rs] marked_update [OF i]
      Suc.hyps(1) [of "Suc i" "rank rs i"] Suc.hyps(2)
    by (simp del: upt.simps)
qed

text \<open>the optimised-looking \<open>generate_delta\<close> computes the same vector as \<open>my_pairsort\<close> whenever no
  column score equals its marker value 132.\<close>

theorem generate_delta_eq_pairsort:
  assumes "\<forall>j<64. column_score j rs \<noteq> 132"
  shows "generate_delta rs = my_pairsort (pair_function rs)"
proof -
  have "map snd (sorted_columns rs) = marked rs 0"
    by (rule nth_equalityI) (simp_all add: marked_def sorted_columns_facts(2))
  then show ?thesis
    using generate_delta_loop_ranks [OF assms, of 0 0]
    by (simp add: generate_delta_def sorted_scores my_pairsort_ranks del: upt.simps)
qed

theorem generate_delta_eq_pairsort_witness:
  "generate_delta [\<lparr>r_value = 0, r_mask = 4, r_priority = 1, r_action = 0\<rparr>] =
     my_pairsort (pair_function [\<lparr>r_value = 0, r_mask = 4, r_priority = 1, r_action = 0\<rparr>])"
  by (rule generate_delta_eq_pairsort) (simp add: column_score_def and_one_eq_bit)

text \<open>With 132 rules that have the same two wildcards the marker is met as a score, and two
  bits are sent to the same place.\<close>

lemma column_score_replicate:
  "column_score j (replicate n r) = of_nat n * of_bool (bit (r_mask r) j)"
proof -
  have "fold (\<lambda>r score. score + (drop_bit j (r_mask r) AND 1)) (replicate n r) a =
      a + of_nat n * of_bool (bit (r_mask r) j)" for a :: u64
    by (induction n arbitrary: a) (simp_all add: and_one_eq_bit algebra_simps)
  then show ?thesis by (simp add: column_score_def)
qed

theorem generate_delta_marker_collision:
  "generate_delta (replicate 132 \<lparr>r_value = 0, r_mask = 3, r_priority = 1, r_action = 0\<rparr>) ! 0 = 0 \<and>
   generate_delta (replicate 132 \<lparr>r_value = 0, r_mask = 3, r_priority = 1, r_action = 0\<rparr>) ! 1 = 1"
proof -
  let ?r = "\<lparr>r_value = 0, r_mask = 3, r_priority = 1, r_action = 0\<rparr> :: Rule"
  have "sum_column (replicate 132 ?r) = map (\<lambda>j. of_nat 132 * of_bool (bit (3 :: u64) j)) [0..<64]"
    by (simp add: sum_column_def column_score_replicate)
  also have "\<dots> = [132, 132] @ replicate 62 0" by code_simp
  finally have "generate_delta (replicate 132 ?r) =
      generate_delta_loop 0 ([132, 132] @ replicate 62 0)
        (insertion_sort (\<lambda>x y. x > y) ([132, 132] @ replicate 62 0)) 0"
    by (simp only: generate_delta_def)
  moreover have "take 2 (generate_delta_loop 0 ([132, 132] @ replicate 62 0)
        (insertion_sort (\<lambda>x y. x > y) ([132, 132] @ replicate 62 0)) 0) = [0, 1]"
    by code_simp
  ultimately have "take 2 (generate_delta (replicate 132 ?r)) = [0, 1]" by simp
  then show ?thesis by (metis nth_take nth_Cons_0 nth_Cons_Suc One_nat_def zero_less_numeral one_less_numeral_iff semiring_norm(76))
qed

end
