(* ===== verification/Clusters.thy ===== *)
theory Clusters
  imports Bit_Rearrange
begin

text \<open>
  Grouping the rules, \<open>test/prefix_kmeans.cpp\<close>: similarity of two rules, the correlation matrix, the
  centre row, and the correlation clustering \<open>assign_cluster_CC\<close>, which stores its result in the
  global \<open>target\<close> (here the value returned). \<open>int\<close> counts are at most 64 a pair, so they are
  naturals; a condition written \<open>(x >> i) & uint64_t(1) == y\<close> parses as \<open>(x >> i) & (1 == y)\<close>.
\<close>

section \<open>Similarity\<close>

definition get_numOFone :: "u64 \<Rightarrow> nat" where
  "get_numOFone a = fold (\<lambda>i count. if drop_bit i a AND 1 \<noteq> 0 then count + 1 else count) [0..<64] 0"

definition intersection :: "u64 \<Rightarrow> u64 \<Rightarrow> nat" where
  "intersection a b =
     (if a = 0 \<and> b = 0 then 1
      else if a = 0 \<and> b \<noteq> 0 then 1
      else if a \<noteq> 0 \<and> b = 0 then 1
      else fold (\<lambda>i count. if drop_bit i a AND 1 \<noteq> 0 \<and> drop_bit i b AND 1 \<noteq> 0 then count + 1 else count)
             [0..<64] 0)"

definition int_div :: "nat \<Rightarrow> nat \<Rightarrow> nat cxx" where
  "int_div a b = (if b = 0 then Inl Div_Zero else Inr (a div b))"

text \<open>The condition \<open>(a >> i) & uint64_t(1) == (b >> i) & uint64_t(1)\<close> as it parses.\<close>

definition bits_cond :: "u64 \<Rightarrow> u64 \<Rightarrow> nat \<Rightarrow> bool" where
  "bits_cond a b i \<longleftrightarrow> drop_bit i a AND of_bool (1 = drop_bit i b) AND 1 \<noteq> 0"

definition zero_cond :: "u64 \<Rightarrow> nat \<Rightarrow> bool" where
  "zero_cond m i \<longleftrightarrow> drop_bit i m AND of_bool ((1 :: u64) = 0) \<noteq> 0"

definition mixed_counts :: "u64 \<Rightarrow> u64 \<Rightarrow> u64 \<Rightarrow> nat \<times> nat" where
  "mixed_counts m av bv =
     fold (\<lambda>i (count1, count2).
             if zero_cond m i
             then (count1 + 1, if bits_cond av bv i then count2 + 1 else count2)
             else (count1, count2)) [0..<64] (0, 0)"

text \<open>All three quotients are integer divisions; the \<open>float\<close> result holds their value exactly.\<close>

definition sim_value :: "Rule \<Rightarrow> Rule \<Rightarrow> nat cxx" where
  "sim_value a b =
     (if r_mask a \<noteq> 0 \<and> r_mask b \<noteq> 0 then
        int_div (get_numOFone (r_mask a AND r_mask b)) (get_numOFone (r_mask a OR r_mask b))
      else if r_mask a = 0 \<and> r_mask b = 0 then
        int_div (fold (\<lambda>i count. if bits_cond (r_value a) (r_value b) i then count + 1 else count) [0..<64] 0) 64
      else if r_mask a = 0 \<and> r_mask b \<noteq> 0 then
        (let (count1, count2) = mixed_counts (r_mask b) (r_value a) (r_value b) in int_div count2 count1)
      else
        (let (count1, count2) = mixed_counts (r_mask a) (r_value a) (r_value b) in int_div count2 count1))"

fun neighbor_loop :: "u64 \<Rightarrow> u64 \<Rightarrow> nat list \<Rightarrow> nat" where
  "neighbor_loop a b [] = 0"
| "neighbor_loop a b (i # is) =
     (if drop_bit i a AND 1 \<noteq> 0 \<and> drop_bit i b AND 1 \<noteq> 0 then 1 else neighbor_loop a b is)"

definition neighbor :: "u64 \<Rightarrow> u64 \<Rightarrow> nat" where
  "neighbor a b = neighbor_loop a b [0..<64]"

definition sizeof_same :: "u64 \<Rightarrow> u64 \<Rightarrow> nat" where
  "sizeof_same a b = intersection a b"

section \<open>Clustering\<close>

definition get_cmatrix :: "Rule list \<Rightarrow> nat list list" where
  "get_cmatrix points =
     map (\<lambda>i. map (\<lambda>j. if i = j then 64 else sizeof_same (r_mask (points ! i)) (r_mask (points ! j)))
                [0..<length points]) [0..<length points]"

definition row_sum :: "nat \<Rightarrow> nat list \<Rightarrow> nat cxx" where
  "row_sum n row = rfold (\<lambda>j s. rbind (vec_at row j) (\<lambda>x. Inr (s + x))) [0..<n] 0"

definition get_center_index :: "nat list list \<Rightarrow> nat cxx" where
  "get_center_index matrix =
     rbind (rmap (row_sum (length matrix)) matrix) (\<lambda>sums.
     rbind (max_element sums) (\<lambda>m. Inr (find_index m sums)))"

definition cluster_CC :: "Rule list \<Rightarrow> nat list \<Rightarrow> (Rule list \<times> Rule list) cxx" where
  "cluster_CC points row =
     rfold (\<lambda>j (near, far). rbind (vec_at row j) (\<lambda>x.
              Inr (if x > 0 then (near @ [points ! j], far) else (near, far @ [points ! j]))))
       [0..<length points] ([], [])"

definition get_num_group :: "Rule list list \<Rightarrow> nat" where
  "get_num_group cs = length (takeWhile (\<lambda>c. length c > 0) cs)"

section \<open>Counting bits\<close>

lemma fold_count: "fold (\<lambda>i count. if P i then count + 1 else count) is c = c + length (filter P is)"
  by (induction "is" arbitrary: c) auto

lemma and_one_nonzero: "drop_bit i (a :: u64) AND 1 \<noteq> 0 \<longleftrightarrow> bit a i"
  by (simp add: and_one_eq_bit)

lemma get_numOFone_card: "get_numOFone a = card {n. bit a n}"
  unfolding get_numOFone_def fold_count and_one_nonzero
  using length_filter_upt_bits [of a] by simp

lemma get_numOFone_pos: "a \<noteq> 0 \<Longrightarrow> 0 < get_numOFone a"
proof -
  assume "a \<noteq> 0"
  then obtain n where "bit a n" by (auto simp: bit_eq_iff)
  moreover have "finite {n. bit a n}" by (rule finite_subset [of _ "{..<64}"]) (auto dest: bit_imp_le_length)
  ultimately show ?thesis by (auto simp: get_numOFone_card card_gt_0_iff)
qed

lemma intersection_eq:
  "a \<noteq> 0 \<Longrightarrow> b \<noteq> 0 \<Longrightarrow> intersection a b = get_numOFone (a AND b)"
  unfolding intersection_def get_numOFone_def fold_count and_one_nonzero by (simp add: bit_and_iff)

lemma get_numOFone_le: "get_numOFone a \<le> 64"
  unfolding get_numOFone_def fold_count by (rule order_trans [OF add_left_mono [OF length_filter_le]]) simp

text \<open>\<open>neighbor\<close> and \<open>sizeof_same\<close> agree on masks with wildcards: the masks are neighbours exactly
  when \<open>sizeof_same\<close>, the number of common wildcards, is positive; with an empty mask
  \<open>sizeof_same\<close> is 1 but \<open>neighbor\<close> 0.\<close>

theorem neighbor_sizeof_same:
  "if a \<noteq> 0 \<and> b \<noteq> 0
   then sizeof_same a b = card {n. bit a n \<and> bit b n} \<and> (neighbor a b = 1 \<longleftrightarrow> sizeof_same a b > 0)
   else sizeof_same a b = 1 \<and> neighbor a b = 0"
proof -
  have loop: "neighbor_loop a b is = (if \<exists>i \<in> set is. bit a i \<and> bit b i then 1 else 0)" for "is"
    by (induction "is") (auto simp: and_one_nonzero)
  have nb: "neighbor a b = (if \<exists>i. bit a i \<and> bit b i then 1 else 0)"
  proof -
    have "bit a i \<Longrightarrow> i \<in> set [0..<64]" for i using bit_imp_le_length [of a i] by simp
    then show ?thesis unfolding neighbor_def loop by auto
  qed
  show ?thesis
  proof (cases "a \<noteq> 0 \<and> b \<noteq> 0")
    case True
    have fin: "finite {n. bit a n \<and> bit b n}"
      by (rule finite_subset [of _ "{..<64}"]) (auto dest: bit_imp_le_length)
    have "sizeof_same a b = card {n. bit a n \<and> bit b n}"
      using True by (simp add: sizeof_same_def intersection_eq get_numOFone_card bit_and_iff)
    with True fin nb show ?thesis by (auto simp: card_gt_0_iff)
  next
    case False
    then show ?thesis by (auto simp: nb sizeof_same_def intersection_def)
  qed
qed

section \<open>The similarity value\<close>

lemma int_div_pos: "0 < b \<Longrightarrow> a div b = c \<Longrightarrow> int_div a b = Inr c"
  by (simp add: int_div_def)

lemma mixed_counts_zero: "mixed_counts m av bv = (0, 0)"
proof -
  have "fold (\<lambda>i (count1, count2).
             if zero_cond m i
             then (count1 + 1, if bits_cond av bv i then count2 + 1 else count2)
             else (count1, count2)) is (a, b) = (a, b)" for "is" and a b :: nat
    by (induction "is") (simp_all add: zero_cond_def)
  then show ?thesis by (simp add: mixed_counts_def)
qed

lemma bits_cond_top: "bits_cond a b i \<Longrightarrow> bit b (i + n) \<longleftrightarrow> n = 0"
proof -
  assume *: "bits_cond a b i"
  have "drop_bit i b = 1" using * by (cases "drop_bit i b = 1") (simp_all add: bits_cond_def)
  then have "bit (drop_bit i b) n \<longleftrightarrow> n = 0" by (simp add: bit_1_iff)
  then show ?thesis by (simp add: bit_drop_bit_eq)
qed

lemma bits_cond_le: "bits_cond a b i \<Longrightarrow> bits_cond a b j \<Longrightarrow> j \<le> i"
  using bits_cond_top [of a b i "j - i"] bits_cond_top [of a b j 0]
  by (cases "i \<le> j") simp_all

lemma bits_cond_once: "length (filter (bits_cond a b) [0..<64]) \<le> 1"
proof -
  let ?S = "set (filter (bits_cond a b) [0..<64])"
  have "i = j" if "i \<in> ?S" "j \<in> ?S" for i j
    using that bits_cond_le [of a b i j] bits_cond_le [of a b j i] by simp
  then have "card ?S \<le> 1" by (auto simp: card_le_Suc0_iff_eq)
  moreover have "card ?S = length (filter (bits_cond a b) [0..<64])"
    by (rule distinct_card) simp
  ultimately show ?thesis by simp
qed

text \<open>\<open>sim_value\<close> of two rules with wildcards is 1 for equal masks and 0 otherwise (the division is an
  integer one); when exactly one of the rules has wildcards it divides by zero.\<close>

theorem sim_value_cases:
  "sim_value a b =
     (if r_mask a \<noteq> 0 \<and> r_mask b \<noteq> 0 then Inr (if r_mask a = r_mask b then 1 else 0)
      else if r_mask a = 0 \<and> r_mask b = 0 then
        Inr 0
      else Inl Div_Zero)"
proof -
  consider (both) "r_mask a \<noteq> 0" "r_mask b \<noteq> 0" | (none) "r_mask a = 0" "r_mask b = 0"
    | (mixed) "(r_mask a = 0) \<noteq> (r_mask b = 0)" by blast
  then show ?thesis
  proof cases
    case both
    let ?A = "{n. bit (r_mask a) n}" and ?B = "{n. bit (r_mask b) n}"
    have fin: "finite (?A \<union> ?B)"
      by (rule finite_subset [of _ "{..<64}"]) (auto dest: bit_imp_le_length)
    have meet: "{n. bit (r_mask a AND r_mask b) n} = ?A \<inter> ?B" by (auto simp: bit_and_iff)
    have join: "{n. bit (r_mask a OR r_mask b) n} = ?A \<union> ?B" by (auto simp: bit_or_iff)
    obtain n where "bit (r_mask a) n" using both(1) by (auto simp: bit_eq_iff)
    then have pos: "0 < card (?A \<union> ?B)" using fin by (auto simp: card_gt_0_iff)
    have eq: "r_mask a = r_mask b \<longleftrightarrow> ?A = ?B"
      by (metis Collect_cong bit_word_eqI mem_Collect_eq)
    have "card (?A \<inter> ?B) div card (?A \<union> ?B) = (if ?A = ?B then 1 else 0)"
    proof (cases "?A = ?B")
      case True
      then have "card (?A \<inter> ?B) = card (?A \<union> ?B)" by simp
      with True pos show ?thesis by (metis div_self less_irrefl)
    next
      case False
      then have "?A \<inter> ?B \<subset> ?A \<union> ?B" by blast
      from psubset_card_mono [OF fin this] False show ?thesis by simp
    qed
    note quot = this
    have one: "get_numOFone (r_mask a AND r_mask b) = card (?A \<inter> ?B)"
      and two: "get_numOFone (r_mask a OR r_mask b) = card (?A \<union> ?B)"
      by (simp_all only: get_numOFone_card meet join)
    have "int_div (get_numOFone (r_mask a AND r_mask b)) (get_numOFone (r_mask a OR r_mask b)) =
        Inr (if ?A = ?B then 1 else 0)"
      unfolding one two by (rule int_div_pos [OF pos quot])
    then show ?thesis using both by (simp only: sim_value_def eq if_True simp_thms)
  next
    case none
    have "length (filter (bits_cond (r_value a) (r_value b)) [0..<64]) \<le> 1" by (rule bits_cond_once)
    with none show ?thesis by (simp add: sim_value_def int_div_def fold_count)
  next
    case mixed
    then show ?thesis by (auto simp: sim_value_def mixed_counts_zero int_div_def)
  qed
qed

section \<open>The matrix and its centre\<close>

lemma get_cmatrix_facts:
  "length (get_cmatrix ps) = length ps"
  "i < length ps \<Longrightarrow> length (get_cmatrix ps ! i) = length ps"
  "i < length ps \<Longrightarrow> get_cmatrix ps ! i ! i = 64"
  "i < length ps \<Longrightarrow> j < length ps \<Longrightarrow> i \<noteq> j \<Longrightarrow>
     get_cmatrix ps ! i ! j = sizeof_same (r_mask (ps ! i)) (r_mask (ps ! j))"
  by (simp_all add: get_cmatrix_def)

lemma row_sum_eq: "n \<le> length row \<Longrightarrow> row_sum n row = Inr (sum_list (take n row))"
proof (induction n)
  case 0
  show ?case by (simp add: row_sum_def)
next
  case (Suc n)
  then show ?case
    by (simp add: row_sum_def rfold_append vec_at_def take_Suc_conv_app_nth)
qed

text \<open>On a square matrix the centre is a row, the first of those with the largest sum.\<close>

lemma center_index:
  assumes "m \<noteq> []" and "\<forall>row \<in> set m. length row = length m"
  shows "\<exists>i<length m. get_center_index m = Inr i \<and> (\<forall>j<length m. sum_list (m ! j) \<le> sum_list (m ! i)) \<and>
    (\<forall>j<i. sum_list (m ! j) < sum_list (m ! i))"
proof -
  let ?sums = "map sum_list m"
  have "rmap (row_sum (length m)) m = Inr ?sums"
    by (rule rmap_Inr_map) (use assms(2) in \<open>simp add: row_sum_eq\<close>)
  then have run: "get_center_index m = Inr (find_index (Max (set ?sums)) ?sums)"
    using assms(1) by (simp add: get_center_index_def max_element_Max)
  have "Max (set ?sums) \<in> set ?sums" using assms(1) by (intro Max_in) simp_all
  note at = find_index_nth [OF this]
  let ?i = "find_index (Max (set ?sums)) ?sums"
  have le: "sum_list (m ! j) \<le> sum_list (m ! ?i)" if "j < length m" for j
    using that at by (auto intro!: Max_ge)
  have "sum_list (m ! j) < sum_list (m ! ?i)" if "j < ?i" for j
    using find_index_first [OF that] at that le [of j] by (auto simp: less_le)
  with run le at show ?thesis by auto
qed

lemma cluster_CC_upto:
  assumes "n \<le> length ps" and "n \<le> length row"
  shows "rfold (\<lambda>j (near, far). rbind (vec_at row j) (\<lambda>x.
              Inr (if x > 0 then (near @ [ps ! j], far) else (near, far @ [ps ! j]))))
       [0..<n] ([], []) =
    Inr (map ((!) ps) (filter (\<lambda>j. row ! j > 0) [0..<n]), map ((!) ps) (filter (\<lambda>j. \<not> row ! j > 0) [0..<n]))"
  using assms by (induction n) (simp_all add: rfold_append vec_at_def)

lemma cluster_CC_eq:
  assumes "length row = length ps"
  shows "cluster_CC ps row =
    Inr (map ((!) ps) (filter (\<lambda>j. row ! j > 0) [0..<length ps]),
         map ((!) ps) (filter (\<lambda>j. \<not> row ! j > 0) [0..<length ps]))"
  unfolding cluster_CC_def using cluster_CC_upto [of "length ps" ps row] assms by simp


section \<open>The clustering loop\<close>

lemma cluster_CC_shrinks:
  assumes "cluster_CC points row = Inr (near, far)"
  shows "length near + length far = length points"
proof -
  have step: "length near + length far = n"
    if "rfold (\<lambda>j (near, far). rbind (vec_at row j) (\<lambda>x.
              Inr (if x > 0 then (near @ [points ! j], far) else (near, far @ [points ! j]))))
       [0..<n] ([], []) = Inr (near, far)" for n near far
    using that
  proof (induction n arbitrary: near far)
    case (Suc n)
    then show ?case by (auto simp: rfold_append rbind_eq_Inr split: if_splits)
  qed simp
  from step [OF assms [unfolded cluster_CC_def]] show ?thesis .
qed

lemma cluster_CC_center:
  assumes "get_center_index (get_cmatrix ps) = Inr i" and "ps \<noteq> []"
  shows "i < length ps" and "cluster_CC ps (get_cmatrix ps ! i) =
    Inr (map ((!) ps) (filter (\<lambda>j. get_cmatrix ps ! i ! j > 0) [0..<length ps]),
         map ((!) ps) (filter (\<lambda>j. \<not> get_cmatrix ps ! i ! j > 0) [0..<length ps]))"
proof -
  have "get_cmatrix ps \<noteq> []" using assms(2) get_cmatrix_facts(1) by (metis length_0_conv)
  moreover have "\<forall>row \<in> set (get_cmatrix ps). length row = length (get_cmatrix ps)"
    by (auto simp: get_cmatrix_def)
  ultimately show i: "i < length ps"
    using center_index [of "get_cmatrix ps"] assms(1) get_cmatrix_facts(1) by auto
  show "cluster_CC ps (get_cmatrix ps ! i) =
    Inr (map ((!) ps) (filter (\<lambda>j. get_cmatrix ps ! i ! j > 0) [0..<length ps]),
         map ((!) ps) (filter (\<lambda>j. \<not> get_cmatrix ps ! i ! j > 0) [0..<length ps]))"
    by (rule cluster_CC_eq) (rule get_cmatrix_facts(2) [OF i])
qed

lemma far_shorter:
  assumes "get_center_index (get_cmatrix ps) = Inr i" and "cluster_CC ps (get_cmatrix ps ! i) = Inr (near, far)"
    and "far \<noteq> []"
  shows "length far < length ps"
proof -
  have ps: "ps \<noteq> []" using cluster_CC_shrinks [OF assms(2)] assms(3) by auto
  note c = cluster_CC_center [OF assms(1) ps]
  have "i \<in> set (filter (\<lambda>j. get_cmatrix ps ! i ! j > 0) [0..<length ps])"
    using c(1) get_cmatrix_facts(3) [OF c(1)] by simp
  then have "near \<noteq> []" using assms(2) c(2) by (auto simp: filter_empty_conv)
  then show ?thesis using cluster_CC_shrinks [OF assms(2)] by (cases near) simp_all
qed

text \<open>
  The first call may come with any matrix; every later call has the matrix of the points left, whose
  diagonal makes the next cluster non-empty.
\<close>

function assign_cluster_CC :: "Rule list list \<Rightarrow> Rule list \<Rightarrow> nat list list \<Rightarrow> Rule list list cxx" where
  "assign_cluster_CC assigned points matrix =
     (case get_center_index matrix of
        Inl e \<Rightarrow> Inl e
      | Inr index_row \<Rightarrow>
          (case cluster_CC points (matrix ! index_row) of
             Inl e \<Rightarrow> Inl e
           | Inr (near, far) \<Rightarrow>
               if length far = 0 then Inr (assigned @ [near])
               else assign_cluster_CC (assigned @ [near]) far (get_cmatrix far)))"
  by pat_completeness auto

termination
proof (relation "measure (\<lambda>(assigned, points, matrix).
    2 * length points + (if matrix = get_cmatrix points then 0 else 1))")
  fix assigned :: "Rule list list" and points matrix i nf near far
  assume i: "get_center_index matrix = Inr i" and c: "cluster_CC points (matrix ! i) = Inr nf"
    and nf: "(near, far) = nf" and far: "length far \<noteq> 0"
  have le: "length far \<le> length points" using cluster_CC_shrinks c nf by fastforce
  show "((assigned @ [near], far, get_cmatrix far), assigned, points, matrix) \<in> measure (\<lambda>(assigned, points, matrix).
    2 * length points + (if matrix = get_cmatrix points then 0 else 1))"
  proof (cases "matrix = get_cmatrix points")
    case True
    with far_shorter [of points i near far] i c nf far show ?thesis by simp
  next
    case False
    with le show ?thesis by simp
  qed
qed simp

declare assign_cluster_CC.simps [simp del]

text \<open>What a cluster is: a centre that shares a wildcard with each other rule, or one of the two has none.\<close>

definition cluster_ok :: "Rule list \<Rightarrow> bool" where
  "cluster_ok c \<longleftrightarrow> (\<exists>r \<in> set c. \<forall>q \<in> set c. q = r \<or> sizeof_same (r_mask r) (r_mask q) > 0)"

lemma mset_split_filter:
  "mset (map f (filter P xs)) + mset (map f (filter (\<lambda>x. \<not> P x) xs)) = mset (map f xs)"
  by (induction xs) auto

lemma assign_cluster_CC_partition:
  "points \<noteq> [] \<Longrightarrow> matrix = get_cmatrix points \<Longrightarrow>
   \<exists>cs. assign_cluster_CC assigned points matrix = Inr (assigned @ cs) \<and>
     mset (concat cs) = mset points \<and> cs \<noteq> [] \<and> (\<forall>c \<in> set cs. c \<noteq> [] \<and> cluster_ok c)"
proof (induction assigned points matrix rule: assign_cluster_CC.induct)
  case (1 assigned points matrix)
  have m: "matrix \<noteq> []" "\<forall>row \<in> set matrix. length row = length matrix"
    using "1.prems" get_cmatrix_facts(1) [of points]
    by (metis length_0_conv, auto simp: get_cmatrix_def)
  obtain i where i: "get_center_index matrix = Inr i" using center_index [OF m] by blast
  note c = cluster_CC_center [OF i [unfolded "1.prems"(2)] "1.prems"(1), folded "1.prems"(2)]
  let ?P = "\<lambda>j. matrix ! i ! j > 0"
  let ?near = "map ((!) points) (filter ?P [0..<length points])"
  let ?far = "map ((!) points) (filter (\<lambda>j. \<not> ?P j) [0..<length points])"
  have run: "assign_cluster_CC assigned points matrix =
      (if length ?far = 0 then Inr (assigned @ [?near])
       else assign_cluster_CC (assigned @ [?near]) ?far (get_cmatrix ?far))"
    using i c(2) by (subst assign_cluster_CC.simps) simp
  have split: "mset ?near + mset ?far = mset points"
    using mset_split_filter [of "(!) points" ?P "[0..<length points]"] by (simp add: map_nth)
  have "i \<in> set (filter ?P [0..<length points])"
    using c(1) get_cmatrix_facts(3) [OF c(1)] "1.prems"(2) by simp
  then have center: "points ! i \<in> set ?near" by auto
  have member: "q = points ! i \<or> sizeof_same (r_mask (points ! i)) (r_mask q) > 0" if "q \<in> set ?near" for q
  proof -
    from that obtain j where j: "j < length points" "?P j" "q = points ! j" by auto
    then show ?thesis
      using get_cmatrix_facts(4) [OF c(1) j(1)] "1.prems"(2) by (cases "i = j") auto
  qed
  have "cluster_ok ?near"
    unfolding cluster_ok_def by (rule bexI [OF _ center], rule ballI, rule member)
  moreover have "?near \<noteq> []" using center by (metis empty_iff list.set(1))
  ultimately have ok: "?near \<noteq> [] \<and> cluster_ok ?near" by blast
  show ?case
  proof (cases "length ?far = 0")
    case True
    then have "mset ?near = mset points" using split by simp
    with run True ok show ?thesis by (intro exI [of _ "[?near]"]) simp
  next
    case False
    then have "?far \<noteq> []" by simp
    from "1.IH" [OF i c(2) refl False this refl] obtain cs where
      cs: "assign_cluster_CC (assigned @ [?near]) ?far (get_cmatrix ?far) = Inr ((assigned @ [?near]) @ cs)"
      "mset (concat cs) = mset ?far" "\<forall>c \<in> set cs. c \<noteq> [] \<and> cluster_ok c" by blast
    have "assign_cluster_CC assigned points matrix = Inr (assigned @ (?near # cs))"
      using run False cs(1) by simp
    moreover have "mset (concat (?near # cs)) = mset points" using split cs(2) by simp
    ultimately show ?thesis using ok cs(3) by (intro exI [of _ "?near # cs"]) auto
  qed
qed

text \<open>C32: correlation clustering ends on every non-empty rule table; the clusters are a partition of the
  rules, none is empty, each has a centre that shares a wildcard with every other member
  (or one of the two is exact), and \<open>get_num_group\<close> counts them all.\<close>

theorem clustering_partitions:
  assumes "points \<noteq> []"
  shows "\<exists>target. assign_cluster_CC [] points (get_cmatrix points) = Inr target \<and>
    mset (concat target) = mset points \<and> (\<forall>c \<in> set target. cluster_ok c) \<and>
    get_num_group target = length target"
proof -
  obtain cs where cs: "assign_cluster_CC [] points (get_cmatrix points) = Inr cs"
    "mset (concat cs) = mset points" "\<forall>c \<in> set cs. c \<noteq> [] \<and> cluster_ok c"
    using assign_cluster_CC_partition [OF assms refl, of "[]"] by auto
  have "takeWhile (\<lambda>c. length c > 0) cs = cs" using cs(3) by (simp add: takeWhile_eq_all_conv)
  then have "get_num_group cs = length cs" by (simp only: get_num_group_def)
  with cs show ?thesis by blast
qed

theorem clustering_partitions_witness:
  "\<exists>target. assign_cluster_CC [] [Rule0, Rule0\<lparr>r_mask := 4\<rparr>] (get_cmatrix [Rule0, Rule0\<lparr>r_mask := 4\<rparr>]) =
     Inr target \<and> mset (concat target) = mset [Rule0, Rule0\<lparr>r_mask := 4\<rparr>]"
  using clustering_partitions [of "[Rule0, Rule0\<lparr>r_mask := 4\<rparr>]"] by blast

text \<open>on an empty rule table the first step reads through the end iterator \<open>max_element\<close> returns.\<close>

theorem clustering_empty: "assign_cluster_CC assigned [] (get_cmatrix []) = Inl UB_Deref_End"
  by (subst assign_cluster_CC.simps)
    (simp add: get_center_index_def get_cmatrix_def max_element_def)

end
