(* ===== verification/Kmeans.thy ===== *)
theory Kmeans
  imports Basic_Trie_Expand Bit_Delta Clusters
begin

text \<open>
  Building one trie a group and searching them, \<open>test/prefix_kmeans.cpp\<close>: \<open>is_prefix\<close>, the group
  build shared by \<open>kmeans_build_one_trie\<close> and \<open>kmeans_build_tries\<close>, the splitting recursion of the
  latter (a total function: a rule too large for its group moves to a group of its own), the
  key tables and the two searches. Clock readings and output are left out. The vector of
  tries is a list; the nodes a trie owns are released by \<open>delete_trie\<close>, seen in \<open>debug\<close>.
\<close>

section \<open>Prefix tests\<close>

definition is_prefix :: "Rule \<Rightarrow> bool cxx" where
  "is_prefix rule =
     (if r_mask rule = 0 then Inr True
      else let num = length (mask_positions (r_mask rule))
           in rbind (shl64 1 num) (\<lambda>w. Inr (r_mask rule = w - 1)))"

definition prefixLen_vector :: "Rule list \<Rightarrow> int list" where
  "prefixLen_vector rules =
     concat (map (\<lambda>r. case filter (\<lambda>j. drop_bit j (r_mask r) AND 1 = 0) [0..<64] of
                        [] \<Rightarrow> [] | j # js \<Rightarrow> [64 - int j]) rules)"

text \<open>\<open>check_MC\<close> makes a trie (one node, counted in \<open>debug\<close>) and never releases it.\<close>

fun check_MC_loop :: "Rule list \<Rightarrow> bool cxx" where
  "check_MC_loop [] = Inr True"
| "check_MC_loop (r # rs) =
     rbind (is_prefix r) (\<lambda>p. if \<not> p \<and> get_new_num r > 15 then Inr False else check_MC_loop rs)"

definition check_MC :: "Rule list \<Rightarrow> globals \<Rightarrow> (globals \<times> bool) cxx" where
  "check_MC bigArray g =
     (let (g, trys) = new_Trie g
      in rbind (rules_rearrange bigArray (generate_delta bigArray)) (\<lambda>new.
         rbind (check_MC_loop new) (\<lambda>b. Inr (g, b))))"

section \<open>Building\<close>

record Return_vec =
  exceed_flag :: int
  size_trienode :: u64
  rv_tries :: "Trie list"
  rv_delta :: "int list list"
  rv_expand_count :: u64
  insert_num_rule :: u32
  expandrules :: "Rule list"
  prerules :: "Rule list"
  expand_index :: "nat list"
  prefix_index :: "nat list"

definition Return_vec0 :: Return_vec where
  "Return_vec0 = \<lparr>exceed_flag = 0, size_trienode = 0, rv_tries = [], rv_delta = [], rv_expand_count = 0,
     insert_num_rule = 0, expandrules = [], prerules = [], expand_index = [], prefix_index = []\<rparr>"

fun new_tries :: "nat \<Rightarrow> globals \<Rightarrow> globals \<times> Trie list" where
  "new_tries 0 g = (g, [])"
| "new_tries (Suc n) g = (let (g, T) = new_Trie g; (g, ts) = new_tries n g in (g, T # ts))"

text \<open>
  The loop over the rules of a group (\<open>k\<close> counts them, \<open>grp\<close> is the group before rearrangement).
  With \<open>stop\<close>, a rule with more than 5 wildcards above its prefix part ends the loop.
  The results of the insertions are ignored.
\<close>

fun insert_group ::
  "bool \<Rightarrow> Rule list \<Rightarrow> nat \<Rightarrow> Rule list \<Rightarrow> globals \<times> Trie \<Rightarrow> Return_vec \<Rightarrow>
     (nat option \<times> (globals \<times> Trie) \<times> Return_vec) cxx" where
  "insert_group stop grp k [] s res = Inr (None, s, res)"
| "insert_group stop grp k (r # rs) s res =
     rbind (is_prefix r) (\<lambda>p.
       if p then
         rbind (insert_prefix_rule_priority r s) (\<lambda>(_, s).
           insert_group stop grp (Suc k) rs s
             (res\<lparr>prerules := prerules res @ [grp ! k], prefix_index := prefix_index res @ [k + 1]\<rparr>))
       else
         let res = res\<lparr>expandrules := expandrules res @ [grp ! k], expand_index := expand_index res @ [k + 1]\<rparr>
         in if get_new_num r > 5 \<and> stop then Inr (Some k, s, res)
            else rbind (expand_rule r s) (\<lambda>(_, s). insert_group stop grp (Suc k) rs s res))"

fun build_loop ::
  "bool \<Rightarrow> Rule list list \<Rightarrow> nat list \<Rightarrow> globals \<Rightarrow> Return_vec \<Rightarrow>
     ((nat \<times> nat) option \<times> globals \<times> Return_vec) cxx" where
  "build_loop stop ba [] g res = Inr (None, g, res)"
| "build_loop stop ba (j # js) g res =
     rbind (vec_at ba j) (\<lambda>grp.
       let delta_need = my_pairsort (pair_function grp)
       in rbind (rules_rearrange grp delta_need) (\<lambda>new.
          rbind (insert_group stop grp 0 new (g, rv_tries res ! j)
                   (res\<lparr>rv_delta := rv_delta res @ [delta_need]\<rparr>)) (\<lambda>(ex, (g, T), res).
            let res = res\<lparr>rv_tries := (rv_tries res)[j := T]\<rparr>
            in case ex of
                 Some k \<Rightarrow> Inr (Some (j, k), g, res)
               | None \<Rightarrow>
                   build_loop stop ba js g
                     (res\<lparr>rv_expand_count := rv_expand_count res + expand_count T,
                          insert_num_rule := insert_num_rule res + rule_count T,
                          size_trienode := size_trienode res + node_count T\<rparr>))))"

definition kmeans_build_one_trie :: "nat \<Rightarrow> Rule list list \<Rightarrow> globals \<Rightarrow> (globals \<times> Return_vec) cxx" where
  "kmeans_build_one_trie num ba g =
     (let (g, ts) = new_tries num g
      in rbind (build_loop True ba [0..<num] g (Return_vec0\<lparr>rv_tries := ts\<rparr>)) (\<lambda>(ex, g, res).
           Inr (g, if ex = None then res else res\<lparr>exceed_flag := 1\<rparr>)))"

definition delete_tries :: "Trie list \<Rightarrow> globals \<Rightarrow> globals" where
  "delete_tries ts g = fold (\<lambda>T g. g\<lparr>debug := delete_trie (root T) (debug g)\<rparr>) ts g"

text \<open>\<open>bigArray[j].erase(begin + k)\<close>, \<open>bigArray.push_back(new_group)\<close>\<close>

definition split_rule :: "Rule list list \<Rightarrow> nat \<Rightarrow> nat \<Rightarrow> Rule list list" where
  "split_rule ba j k = ba[j := take k (ba ! j) @ drop (Suc k) (ba ! j)] @ [[ba ! j ! k]]"

section \<open>Searching\<close>

record Search_result =
  sr_match :: u64
  sr_checksum :: u64
  sr_actionSum :: u64
  sr_matched_priority :: "int list"
  sr_vv :: "nat list"

definition Search_result0 :: Search_result where
  "Search_result0 = \<lparr>sr_match = 0, sr_checksum = 0, sr_actionSum = 0, sr_matched_priority = [], sr_vv = []\<rparr>"

definition generate_keyTable :: "u64 list \<Rightarrow> nat \<Rightarrow> Return_vec \<Rightarrow> u64 list list cxx" where
  "generate_keyTable keyTable k rv =
     rmap (\<lambda>i. rbind (vec_at (rv_delta rv) i) (\<lambda>d. rmap (\<lambda>key. keys_rearrange key d) keyTable)) [0..<k]"

text \<open>One lookup of a key table in its trie: the priority found.\<close>

definition search_in :: "u64 list list \<Rightarrow> Return_vec \<Rightarrow> nat \<Rightarrow> nat \<Rightarrow> u32 cxx" where
  "search_in tables rv i m =
     rbind (vec_at (rv_tries rv) m) (\<lambda>T. rbind (vec_at tables m) (\<lambda>tab. rbind (vec_at tab i) (\<lambda>key.
       rbind (LPM1_search_rule key T) (\<lambda>ret. Inr (tr_priority ret)))))"

definition search_result_1 ::
  "u64 list \<Rightarrow> u64 list list \<Rightarrow> Return_vec \<Rightarrow> globals \<Rightarrow> (globals \<times> Search_result) cxx" where
  "search_result_1 keyTable tables rv g =
     rbind (rfold (\<lambda>i n. rbind (search_in tables rv i 0) (\<lambda>p. Inr (if p > 0 then n + 1 else n)))
              [0..<length keyTable] 0) (\<lambda>n.
     rbind (vec_at (rv_tries rv) 0) (\<lambda>T.
       Inr (g\<lparr>debug := delete_trie (root T) (debug g)\<rparr>, Search_result0\<lparr>sr_match := n\<rparr>)))"

definition search_result_2 ::
  "u64 list \<Rightarrow> u64 list list \<Rightarrow> nat \<Rightarrow> Return_vec \<Rightarrow> globals \<Rightarrow> (globals \<times> Search_result) cxx" where
  "search_result_2 keyTable tables k rv g =
     rbind (rfold (\<lambda>i n. rbind (rmap (search_in tables rv i) [0..<k]) (\<lambda>matchVector.
              Inr (if \<exists>p \<in> set matchVector. p \<noteq> 0 then n + 1 else n)))
              [0..<length keyTable] 0) (\<lambda>n.
       Inr (delete_tries (take k (rv_tries rv)) g, Search_result0\<lparr>sr_match := n\<rparr>))"

text \<open>
  \<open>kmeans_search_result\<close>: the same search with keys rearranged on the way; it also sums the best
  priorities and the actions of the tries they come from.  \<open>matched_priority\<close> is a vector of \<open>int\<close>.
\<close>

definition decide ::
  "nat \<Rightarrow> (u64 \<times> u32) list \<Rightarrow> Search_result \<Rightarrow> Search_result cxx" where
  "decide i found sr =
     (let hits = filter (\<lambda>(p, a). p > 0) found; test1 = map fst hits; test2 = map snd hits
      in if length test1 > 0
         then rbind (min_element test1) (\<lambda>match_final.
              rbind (vec_at test2 (find_index match_final test1)) (\<lambda>action.
                Inr (sr\<lparr>sr_checksum := sr_checksum sr + match_final, sr_match := sr_match sr + 1,
                        sr_actionSum := sr_actionSum sr + ucast action, sr_vv := sr_vv sr @ [i],
                        sr_matched_priority := sr_matched_priority sr @ [to_int match_final]\<rparr>)))
         else Inr sr)"

definition kmeans_search_result ::
  "u64 list \<Rightarrow> nat \<Rightarrow> Return_vec \<Rightarrow> globals \<Rightarrow> (globals \<times> Search_result) cxx" where
  "kmeans_search_result keyTable k rv g =
     rbind (rfold (\<lambda>i sr. rbind (rmap (\<lambda>m.
                rbind (vec_at (rv_delta rv) m) (\<lambda>d. rbind (keys_rearrange (keyTable ! i) d) (\<lambda>newGenKey.
                rbind (vec_at (rv_tries rv) m) (\<lambda>T. rbind (LPM1_search_rule newGenKey T) (\<lambda>ret.
                  Inr (ucast (tr_priority ret), tr_action ret)))))) [0..<k]) (\<lambda>found. decide i found sr))
              [0..<length keyTable] Search_result0) (\<lambda>sr.
       Inr (delete_tries (take k (rv_tries rv)) g, sr))"

section \<open>Which rules are prefix rules\<close>

lemma prefix_mask_bits: "n < 64 \<Longrightarrow> bit (push_bit n 1 - 1 :: u64) b \<longleftrightarrow> b < n"
  using prefix_mask_eq [of n] by (auto simp: bit_mask_iff)

lemma filter_less_upt: "filter (\<lambda>b. b < n) [0..<m] = [0..<min n m]"
  by (induction m) (auto simp: min_def le_Suc_eq)

lemma prefix_mask_positions: "n < 64 \<Longrightarrow> mask_positions (push_bit n 1 - 1) = [0..<n]"
proof -
  assume n: "n < 64"
  have "mask_positions (push_bit n 1 - 1) = filter (\<lambda>b. b < n) [0..<64]"
    unfolding mask_positions_eq by (rule filter_cong [OF refl]) (rule prefix_mask_bits [OF n])
  with n show ?thesis by (simp add: filter_less_upt)
qed

lemma mask_positions_all: "length (mask_positions m) = 64 \<longleftrightarrow> m = -1"
proof
  assume "length (mask_positions m) = 64"
  then have "length (filter (bit m) [0..<64]) = length [0..<64 :: nat]" by (simp add: mask_positions_eq)
  then have "\<forall>b<64. bit m b"
    using length_filter_less [of _ "[0..<64]" "bit m"] by fastforce
  then show "m = -1" using not_all_ones [of m] by blast
next
  assume "m = -1"
  then show "length (mask_positions m) = 64" by (simp add: mask_positions_eq bit_minus_1_iff)
qed

lemma length_mask_positions: "length (mask_positions m) \<le> 64"
  unfolding mask_positions_eq by (rule order_trans [OF length_filter_le]) simp

text \<open>\<open>is_prefix\<close> is undefined (a shift by 64) exactly for the mask of 64 wildcards, and otherwise
  says whether the mask is a run of ones from the low end, the masks that the
  trie's prefix insertion is correct for.\<close>

theorem is_prefix_exact:
  "is_prefix r = (if r_mask r = -1 then Inl UB_Shift else Inr (prefix_rule r))"
proof (cases "r_mask r = -1")
  case True
  then have "length (mask_positions (r_mask r)) = 64" using mask_positions_all by blast
  with True show ?thesis by (simp add: is_prefix_def)
next
  case False
  then have l: "length (mask_positions (r_mask r)) < 64"
    using length_mask_positions [of "r_mask r"] mask_positions_all [of "r_mask r"] by linarith
  have pos: "\<exists>n<64. r_mask r = push_bit n 1 - 1" if "r_mask r = 0"
    using that by (intro exI [of _ 0]) simp
  have "(r_mask r = push_bit (length (mask_positions (r_mask r))) 1 - 1) = prefix_rule r"
    unfolding prefix_rule_def using l prefix_mask_positions by (metis length_upt diff_zero)
  with False l pos show ?thesis by (auto simp: is_prefix_def prefix_rule_def)
qed

lemma low_mask_is_prefix:
  assumes "\<And>i j. i \<le> j \<Longrightarrow> bit (r_mask r) j \<Longrightarrow> bit (r_mask r) i"
  shows "is_prefix r \<noteq> Inr False"
proof (cases "r_mask r = -1")
  case True
  then show ?thesis by (simp add: is_prefix_exact)
next
  case False
  note b = boundary_first [OF False]
  have "r_mask r = push_bit (boundary (r_mask r)) 1 - 1"
  proof (rule bit_word_eqI)
    fix n
    show "bit (r_mask r) n = bit (push_bit (boundary (r_mask r)) 1 - 1 :: u64) n"
      unfolding prefix_mask_bits [OF b(2)] using assms b(1,3) by (meson not_le)
  qed
  then have "prefix_rule r" unfolding prefix_rule_def using b(2) by blast
  with False show ?thesis by (simp add: is_prefix_exact)
qed

lemma insert_group_flag:
  "insert_group stop grp k rs s res = Inr (ex, s', res') \<Longrightarrow> exceed_flag res' = exceed_flag res"
proof (induction rs arbitrary: k s res)
  case (Cons r rs)
  from Cons.prems consider (here) "exceed_flag res' = exceed_flag res"
    | (later) s1 res1 where "insert_group stop grp (Suc k) rs s1 res1 = Inr (ex, s', res')"
      "exceed_flag res1 = exceed_flag res"
    by (auto simp: rbind_eq_Inr Let_def split: if_splits)
  then show ?case by cases (simp_all add: Cons.IH)
qed simp

section \<open>The splitting recursion ends\<close>

lemma insert_group_stops:
  assumes "insert_group stop grp k rs s res = Inr (Some i, s', res')"
  shows "k \<le> i \<and> i < k + length rs \<and> is_prefix (rs ! (i - k)) = Inr False \<and> stop"
  using assms
proof (induction rs arbitrary: k s res)
  case Nil
  then show ?case by simp
next
  case (Cons r rs)
  from Cons.prems consider (here) "i = k" "is_prefix r = Inr False" "stop"
    | (later) s1 res1 where "insert_group stop grp (Suc k) rs s1 res1 = Inr (Some i, s', res')"
    by (auto simp: rbind_eq_Inr Let_def split: if_splits)
  then show ?case
  proof cases
    case here
    then show ?thesis by simp
  next
    case later
    note IH = Cons.IH [OF this]
    then have "i - k = Suc (i - Suc k)" by (simp add: Suc_diff_Suc less_eq_Suc_le)
    with IH show ?thesis by simp
  qed
qed

text \<open>The rearrangement of a group never fails.\<close>

lemma build_loop_step:
  "build_loop stop ba (j # js) g res =
     (if j < length ba then
        rbind (insert_group stop (ba ! j) 0 (map (rearranged (trans_delta (ba ! j))) (ba ! j))
                 (g, rv_tries res ! j) (res\<lparr>rv_delta := rv_delta res @ [trans_delta (ba ! j)]\<rparr>))
          (\<lambda>(ex, (g, T), res).
            case ex of
              Some k \<Rightarrow> Inr (Some (j, k), g, res\<lparr>rv_tries := (rv_tries res)[j := T]\<rparr>)
            | None \<Rightarrow>
                build_loop stop ba js g
                  (res\<lparr>rv_tries := (rv_tries res)[j := T],
                       rv_expand_count := rv_expand_count res + expand_count T,
                       insert_num_rule := insert_num_rule res + rule_count T,
                       size_trienode := size_trienode res + node_count T\<rparr>))
      else Inl UB_Index)"
proof -
  have "rules_rearrange grp (trans_delta grp) = Inr (map (rearranged (trans_delta grp)) grp)" for grp
    by (rule rules_rearrange_map [OF trans_delta_good])
  then show ?thesis by (simp add: vec_at_def Let_def trans_delta_def [symmetric] cong: option.case_cong)
qed

lemma build_loop_stops:
  assumes "build_loop stop ba js g res = Inr (Some (j, k), g', res')"
  shows "j \<in> set js \<and> j < length ba \<and> k < length (ba ! j) \<and> 2 \<le> length (ba ! j) \<and> stop"
  using assms
proof (induction js arbitrary: g res)
  case Nil
  then show ?case by simp
next
  case (Cons i js)
  let ?G = "insert_group stop (ba ! i) 0 (map (rearranged (trans_delta (ba ! i))) (ba ! i))
    (g, rv_tries res ! i) (res\<lparr>rv_delta := rv_delta res @ [trans_delta (ba ! i)]\<rparr>)"
  have i: "i < length ba" using Cons.prems unfolding build_loop_step by (simp split: if_splits)
  obtain x where "?G = Inr x" using Cons.prems i unfolding build_loop_step by (cases ?G) simp_all
  moreover obtain ex g1 T res1 where "x = (ex, (g1, T), res1)" by (metis prod.exhaust)
  ultimately have G: "?G = Inr (ex, (g1, T), res1)" by simp
  consider (here) "i < length ba" "?G = Inr (Some k, (g1, T), res1)" "j = i"
    | (later) g1 res1 where "build_loop stop ba js g1 res1 = Inr (Some (j, k), g', res')"
    using Cons.prems i G unfolding build_loop_step by (cases ex) auto
  then show ?case
  proof cases
    case here
    let ?rs = "map (rearranged (trans_delta (ba ! i))) (ba ! i)"
    note stops = insert_group_stops [OF here(2)]
    have "length (ba ! i) \<noteq> 1"
    proof
      assume "length (ba ! i) = 1"
      then obtain r where r: "ba ! i = [r]" by (auto simp: length_Suc_conv)
      have "is_prefix (rearranged (trans_delta [r]) r) \<noteq> Inr False"
        by (rule low_mask_is_prefix) (rule singleton_low_mask)
      moreover have "k = 0" using stops r by simp
      ultimately show False using stops r by simp
    qed
    with stops here show ?thesis by (auto simp: not_less_eq_eq numeral_2_eq_2 le_Suc_eq)
  next
    case later
    from Cons.IH [OF this] show ?thesis by simp
  qed
qed

lemma build_loop_flag:
  assumes "build_loop stop ba js g res = Inr (ex, g', res')"
  shows "exceed_flag res' = exceed_flag res"
  using assms
proof (induction js arbitrary: g res)
  case (Cons i js)
  let ?G = "insert_group stop (ba ! i) 0 (map (rearranged (trans_delta (ba ! i))) (ba ! i))
    (g, rv_tries res ! i) (res\<lparr>rv_delta := rv_delta res @ [trans_delta (ba ! i)]\<rparr>)"
  have i: "i < length ba" using Cons.prems unfolding build_loop_step by (simp split: if_splits)
  obtain x where "?G = Inr x" using Cons.prems i unfolding build_loop_step by (cases ?G) simp_all
  moreover obtain ex1 g1 T res1 where "x = (ex1, (g1, T), res1)" by (metis prod.exhaust)
  ultimately have G: "?G = Inr (ex1, (g1, T), res1)" by simp
  have f: "exceed_flag res1 = exceed_flag res" using insert_group_flag [OF G] by simp
  show ?case
  proof (cases ex1)
    case None
    with Cons.prems i G have "build_loop stop ba js g1
        (res1\<lparr>rv_tries := (rv_tries res1)[i := T], rv_expand_count := rv_expand_count res1 + expand_count T,
              insert_num_rule := insert_num_rule res1 + rule_count T,
              size_trienode := size_trienode res1 + node_count T\<rparr>) = Inr (ex, g', res')"
      unfolding build_loop_step by simp
    from Cons.IH [OF this] f show ?thesis by simp
  next
    case (Some k)
    with Cons.prems i G f show ?thesis unfolding build_loop_step by auto
  qed
qed simp

definition split_measure :: "Rule list list \<Rightarrow> nat" where
  "split_measure ba = sum_list (map (\<lambda>grp. length grp - 1) ba)"

lemma split_rule_measure:
  assumes "j < length ba" and "k < length (ba ! j)" and "2 \<le> length (ba ! j)"
  shows "split_measure (split_rule ba j k) < split_measure ba"
proof -
  let ?f = "\<lambda>grp :: Rule list. length grp - 1"
  let ?x = "take k (ba ! j) @ drop (Suc k) (ba ! j)"
  have "sum_list (map ?f (ba[j := ?x])) + ?f (ba ! j) = sum_list (map ?f ba) + ?f ?x"
    using assms(1) by (induction ba arbitrary: j) (auto simp: less_Suc_eq_0_disj split: nat.splits)
  moreover have "?f ?x < ?f (ba ! j)" using assms(2,3) by simp
  ultimately show ?thesis by (simp add: split_measure_def split_rule_def)
qed

function kmeans_build_tries ::
  "nat \<Rightarrow> Rule list list \<Rightarrow> globals \<Rightarrow> (globals \<times> Return_vec \<times> Rule list list) cxx" where
  "kmeans_build_tries num ba g =
     (case build_loop (num \<noteq> 1) ba [0..<num] (fst (new_tries num g))
             (Return_vec0\<lparr>rv_tries := snd (new_tries num g)\<rparr>) of
        Inl e \<Rightarrow> Inl e
      | Inr (ex, g', res) \<Rightarrow>
          (case ex of
             None \<Rightarrow> Inr (g', res, ba)
           | Some (j, k) \<Rightarrow>
               kmeans_build_tries (length (split_rule ba j k)) (split_rule ba j k)
                 (delete_tries (rv_tries res) g')))"
  by pat_completeness auto

termination
proof (relation "measure (\<lambda>(num, ba, g). split_measure ba)")
  fix num :: nat and ba :: "Rule list list" and g exgr ex gr g' res x j k
  assume run: "build_loop (num \<noteq> 1) ba [0..<num] (fst (new_tries num g))
      (Return_vec0\<lparr>rv_tries := snd (new_tries num g)\<rparr>) = Inr exgr"
    and "(ex, gr) = exgr" and "(g', res) = gr" and "ex = Some x" and "(j, k) = x"
  then have "build_loop (num \<noteq> 1) ba [0..<num] (fst (new_tries num g))
      (Return_vec0\<lparr>rv_tries := snd (new_tries num g)\<rparr>) = Inr (Some (j, k), g', res)" by auto
  from build_loop_stops [OF this] split_rule_measure
  show "((length (split_rule ba j k), split_rule ba j k, delete_tries (rv_tries res) g'), num, ba, g)
      \<in> measure (\<lambda>(num, ba, g). split_measure ba)" by simp
qed simp

declare kmeans_build_tries.simps [simp del]

end
