(* ===== verification/Kmeans_Build.thy ===== *)
theory Kmeans_Build
  imports Kmeans
begin

text \<open>
  What the build leaves behind: every trie of the vector answers for its group, the node counter
  \<open>debug\<close> has moved by the nodes of the tries, and splitting keeps the rules.
\<close>

section \<open>Admissible rules\<close>

text \<open>Rules as the input files have them: not all wildcards, no value bit under a wildcard, a priority.\<close>

definition input_rule :: "Rule \<Rightarrow> bool" where
  "input_rule r \<longleftrightarrow> r_mask r \<noteq> -1 \<and> r_value r AND r_mask r = 0 \<and> r_priority r \<noteq> 0"

lemma input_rule_clear: "input_rule r \<Longrightarrow> clear_above r"
  by (simp add: input_rule_def clear_value)

lemma input_rule_rearranged:
  assumes d: "good_delta d" and r: "input_rule r"
  shows "input_rule (rearranged d r)"
proof -
  note v = rearranged_spec(2) [OF d, of r] and m = rearranged_spec(3) [OF d, of r]
  obtain j where j: "j < 64" "\<not> bit (r_mask r) j"
    using r not_all_ones by (auto simp: input_rule_def)
  then have "\<not> bit (r_mask (rearranged d r)) (dest d j)" using m by (simp add: moved_def)
  then have "r_mask (rearranged d r) \<noteq> -1"
    using good_dest [OF d j(1)] by (auto simp: bit_minus_1_iff)
  moreover have "r_value (rearranged d r) AND r_mask (rearranged d r) = 0"
  proof (rule bit_word_eqI)
    fix n assume "n < LENGTH(64)"
    then obtain j where j: "j < 64" "dest d j = n" using dest_surj [OF d] by auto
    have "\<not> (bit (r_value r) j \<and> bit (r_mask r) j)"
      using r by (metis input_rule_def bit_and_iff bit_0_eq bot_apply bot_bool_def)
    then show "bit (r_value (rearranged d r) AND r_mask (rearranged d r)) n = bit 0 n"
      using v m j by (auto simp: moved_def bit_and_iff)
  qed
  ultimately show ?thesis using r rearranged_spec(4) [OF d, of r] by (simp add: input_rule_def)
qed

text \<open>Rules with at most 15 wildcards; rearranging a rule keeps their number.\<close>

definition few_wildcards :: "Rule \<Rightarrow> bool" where
  "few_wildcards r \<longleftrightarrow> length (mask_positions (r_mask r)) \<le> 15"

lemma length_mask_positions_card: "length (mask_positions m) = card {n. n < 64 \<and> bit m n}"
proof -
  have "set (mask_positions m) = {n. n < 64 \<and> bit m n}" by (auto simp: mask_positions_eq)
  moreover have "distinct (mask_positions m)" by (simp add: mask_positions_eq)
  ultimately show ?thesis using distinct_card [of "mask_positions m"] by simp
qed

lemma few_wildcards_rearranged:
  assumes d: "good_delta d"
  shows "few_wildcards (rearranged d r) = few_wildcards r"
proof -
  note m = rearranged_spec(3) [OF d, of r]
  have "{n. n < 64 \<and> bit (r_mask (rearranged d r)) n} = dest d ` {n. n < 64 \<and> bit (r_mask r) n}"
    using m good_dest [OF d] dest_surj [OF d] unfolding moved_def by (auto simp: image_iff) metis
  moreover have "inj_on (dest d) {n. n < 64 \<and> bit (r_mask r) n}"
    by (rule inj_on_subset [of _ "{..<64}"]) (use d in \<open>auto simp: good_delta_def\<close>)
  ultimately show ?thesis by (simp add: few_wildcards_def length_mask_positions_card card_image)
qed

lemma few_new_wildcards: "few_wildcards r \<Longrightarrow> get_new_num r \<le> 15"
proof -
  assume few: "few_wildcards r"
  let ?l = "length (new_positions (r_mask r) (boundary (r_mask r)))"
  have "?l = card (set (new_positions (r_mask r) (boundary (r_mask r))))"
    by (rule distinct_card [symmetric]) (rule distinct_new_positions)
  also have "\<dots> \<le> card {n. n < 64 \<and> bit (r_mask r) n}" by (rule card_mono) (auto simp: set_new_positions)
  also have "\<dots> \<le> 15" using few by (simp add: few_wildcards_def length_mask_positions_card)
  finally show ?thesis by (simp add: get_new_num_def word_le_nat_alt unat_of_nat_small)
qed

section \<open>One ternary rule\<close>

definition rule_budget :: nat where
  "rule_budget = 64 * 2 ^ 15"

lemma room_mono: "room s m \<Longrightarrow> n \<le> m \<Longrightarrow> room s n"
  by (simp add: room_def)

lemma expand_step:
  assumes r: "input_rule r" and inv: "trie_inv s"
  shows "\<exists>flag s'. expand_rule r s = Inr (flag, s') \<and> trie_inv s' \<and> balanced s s' \<and>
    (\<forall>n. room s (rule_budget + n) \<longrightarrow> room s' n) \<and> (blowup (fst s) \<longrightarrow> blowup (fst s')) \<and>
    (get_new_num r \<le> 15 \<longrightarrow> blowup (fst s') = blowup (fst s)) \<and>
    (room s rule_budget \<and> \<not> blowup (fst s') \<longrightarrow>
      (\<forall>k. trie_lookup s' k = better (trie_lookup s k) (if t_matches r k then t_prio r else 0)))"
proof (cases "length (new_positions (r_mask r) (boundary (r_mask r))) \<le> 15")
  case True
  let ?l = "length (new_positions (r_mask r) (boundary (r_mask r)))"
  have mr: "r_mask r \<noteq> -1" "r_priority r \<noteq> 0" using r by (simp_all add: input_rule_def)
  have le: "64 * 2 ^ ?l \<le> rule_budget"
    unfolding rule_budget_def by (intro mult_le_mono2 power_increasing True) simp
  obtain flag s' es where 1: "expand_rule r s = Inr (flag, s')" "trie_inv s'" "balanced s s'"
    "blowup (fst s') = blowup (fst s)" and
    rm: "\<forall>n. room s (64 * 2 ^ ?l + n) \<longrightarrow> flag \<and> room s' n" and
    2: "\<forall>k. trie_lookup s' k = better (trie_lookup s k)
        (if \<exists>e \<in> set es. t_matches e k then t_prio r else 0)"
      "\<forall>k. (\<exists>e \<in> set es. t_matches e k) \<longrightarrow> t_matches r k"
      "flag \<longrightarrow> (\<forall>k. t_matches r k \<longrightarrow> (\<exists>e \<in> set es. t_matches e k))"
    using expand_rule_spec [OF mr input_rule_clear [OF r] inv True] by blast
  have "room s' n" if "room s (rule_budget + n)" for n
    using rm room_mono [OF that, of "64 * 2 ^ ?l + n"] le by simp
  moreover have "trie_lookup s' k = better (trie_lookup s k) (if t_matches r k then t_prio r else 0)"
    if "room s rule_budget" for k
  proof -
    have flag using rm [rule_format, of 0] room_mono [OF that, of "64 * 2 ^ ?l"] le by simp
    then have "(\<exists>e \<in> set es. t_matches e k) = t_matches r k" using 2(2,3) by blast
    then show ?thesis using 2(1) by simp
  qed
  ultimately show ?thesis using 1 by auto
next
  case False
  let ?l = "length (new_positions (r_mask r) (boundary (r_mask r)))"
  obtain g' where g': "expand_rule r s = Inr (False, g', snd s)" "blowup g'" "debug g' = debug (fst s)"
    "threshold g' = threshold (fst s)"
  proof -
    have "unat (of_nat ?l :: u32) = ?l"
      by (rule unat_of_nat_small(2)) (rule less_trans [OF length_new_positions], simp)
    with False have "(of_nat ?l :: u32) > 15" by (simp add: word_less_nat_alt)
    then show ?thesis by (cases s) (simp add: expand_rule_def that)
  qed
  have "unat (of_nat ?l :: u32) = ?l"
    by (rule unat_of_nat_small(2)) (rule less_trans [OF length_new_positions], simp)
  then have "\<not> get_new_num r \<le> 15" using False by (simp add: get_new_num_def word_le_nat_alt)
  with g' inv show ?thesis
    by (auto simp: trie_inv_def balanced_def room_def)
qed

section \<open>One group\<close>

lemma insert_group_spec:
  assumes "\<forall>r \<in> set rs. input_rule r" and "trie_inv s"
  shows "\<exists>ex s' res'. insert_group stop grp k rs s res = Inr (ex, s', res') \<and> trie_inv s' \<and>
    balanced s s' \<and> rv_tries res' = rv_tries res \<and> rv_delta res' = rv_delta res \<and>
    (blowup (fst s) \<longrightarrow> blowup (fst s')) \<and> (stop \<or> (\<forall>r \<in> set rs. get_new_num r \<le> 15) \<longrightarrow> blowup (fst s') = blowup (fst s)) \<and>
    (ex = None \<and> room s (rule_budget * length rs) \<and> \<not> blowup (fst s') \<longrightarrow>
      (\<forall>key. trie_lookup s' key = better (trie_lookup s key) (best_match t_prio t_matches rs key)))"
  using assms
proof (induction rs arbitrary: k s res)
  case Nil
  then show ?case by simp
next
  case (Cons r rs)
  have r: "input_rule r" "r_mask r \<noteq> -1" using Cons.prems(1) by (auto simp: input_rule_def)
  have isp: "is_prefix r = Inr (prefix_rule r)" using r(2) by (simp add: is_prefix_exact)
  let ?stopped = "\<not> prefix_rule r \<and> get_new_num r > 5 \<and> stop"
  show ?case
  proof (cases ?stopped)
    case True
    then show ?thesis using isp Cons.prems(2) by (simp add: Let_def)
  next
    case False
    obtain s1 res1 where
      step: "insert_group stop grp k (r # rs) s res = insert_group stop grp (Suc k) rs s1 res1"
      and s1: "trie_inv s1" "balanced s s1" "rv_tries res1 = rv_tries res" "rv_delta res1 = rv_delta res"
        "blowup (fst s) \<longrightarrow> blowup (fst s1)" "stop \<or> get_new_num r \<le> 15 \<longrightarrow> blowup (fst s1) = blowup (fst s)"
      and rm: "\<forall>n. room s (rule_budget + n) \<longrightarrow> room s1 n"
      and look: "room s rule_budget \<and> \<not> blowup (fst s1) \<longrightarrow>
        (\<forall>key. trie_lookup s1 key = better (trie_lookup s key) (if t_matches r key then t_prio r else 0))"
    proof (cases "prefix_rule r")
      case True
      have v: "valid_prefix r" using True r(1) by (simp add: valid_prefix_def input_rule_def)
      obtain ret s1 where 1: "insert_prefix_rule_priority r s = Inr (ret, s1)" "trie_inv s1" "balanced s s1"
        "\<forall>n. room s (64 + n) \<longrightarrow> ret = 0 \<and> room s1 n" "blowup (fst s1) = blowup (fst s)"
        "\<forall>key. trie_lookup s1 key =
           better (trie_lookup s key) (if ret = 0 \<and> t_matches r key then t_prio r else 0)"
        using insert_step [OF v Cons.prems(2)] by blast
      have "room s (64 + n)" if "room s (rule_budget + n)" for n
        using room_mono [OF that] by (simp add: rule_budget_def)
      with 1(4) have "\<forall>n. room s (rule_budget + n) \<longrightarrow> ret = 0 \<and> room s1 n" by blast
      then show ?thesis
        using 1 isp True
        by (intro that [of s1 "res\<lparr>prerules := prerules res @ [grp ! k], prefix_index := prefix_index res @ [k + 1]\<rparr>"])
          (auto dest: spec [of _ 0])
    next
      case notpre: False
      obtain flag s1 where 1: "expand_rule r s = Inr (flag, s1)" "trie_inv s1" "balanced s s1"
        "\<forall>n. room s (rule_budget + n) \<longrightarrow> room s1 n" "blowup (fst s) \<longrightarrow> blowup (fst s1)"
        "get_new_num r \<le> 15 \<longrightarrow> blowup (fst s1) = blowup (fst s)"
        "room s rule_budget \<and> \<not> blowup (fst s1) \<longrightarrow> (\<forall>key. trie_lookup s1 key =
           better (trie_lookup s key) (if t_matches r key then t_prio r else 0))"
        using expand_step [OF r(1) Cons.prems(2)] by blast
      moreover have "get_new_num r \<le> 15" if "get_new_num r \<le> 5" using that by (rule order_trans) simp
      ultimately show ?thesis
        using isp notpre False
        by (intro that [of s1 "res\<lparr>expandrules := expandrules res @ [grp ! k], expand_index := expand_index res @ [k + 1]\<rparr>"])
          (auto simp: Let_def not_less)
    qed
    have "\<forall>r \<in> set rs. input_rule r" using Cons.prems(1) by simp
    from Cons.IH [OF this s1(1), of "Suc k" res1] obtain ex s' res' where
      2: "insert_group stop grp (Suc k) rs s1 res1 = Inr (ex, s', res')" "trie_inv s'" "balanced s1 s'"
        "rv_tries res' = rv_tries res1" "rv_delta res' = rv_delta res1"
        "blowup (fst s1) \<longrightarrow> blowup (fst s')" "stop \<or> (\<forall>r \<in> set rs. get_new_num r \<le> 15) \<longrightarrow> blowup (fst s') = blowup (fst s1)"
      and look2: "ex = None \<and> room s1 (rule_budget * length rs) \<and> \<not> blowup (fst s') \<longrightarrow>
        (\<forall>key. trie_lookup s' key = better (trie_lookup s1 key) (best_match t_prio t_matches rs key))"
      by blast
    have "trie_lookup s' key = better (trie_lookup s key) (best_match t_prio t_matches (r # rs) key)"
      if "ex = None" "room s (rule_budget * length (r # rs))" "\<not> blowup (fst s')" for key
    proof -
      have rm0: "room s (rule_budget + rule_budget * length rs)" using that(2) by simp
      then have "room s1 (rule_budget * length rs)" "room s rule_budget"
        using rm room_mono by (blast, auto intro: room_mono)
      with look look2 2(6) that(1,3) show ?thesis by (auto simp: better_assoc)
    qed
    moreover have "balanced s s'" using s1(2) 2(3) by (rule balanced_trans)
    ultimately show ?thesis using step s1 2 by auto
  qed
qed


section \<open>All groups\<close>

definition blank :: Trie where
  "blank = \<lparr>root = fresh_node, rule_count = 0, node_count = 1, expand_count = 0, expandedTable = []\<rparr>"

definition total_nodes :: "Trie list \<Rightarrow> u64" where
  "total_nodes ts = sum_list (map node_count ts)"

definition trie_ok :: "Trie \<Rightarrow> bool" where
  "trie_ok T \<longleftrightarrow> root T \<noteq> Null \<and> node_priority (root T) = 0 \<and> node_count T = of_nat (nodes (root T))"

lemma trie_inv_ok: "trie_inv (g, T) \<longleftrightarrow> trie_ok T"
  by (simp add: trie_inv_def trie_ok_def)

lemma trie_ok_blank: "trie_ok blank" "node_count blank = 1" "nodes (root blank) = 1"
  by (simp_all add: trie_ok_def blank_def fresh_node_def)

lemma new_tries_eq: "new_tries n g = (g\<lparr>debug := debug g + of_nat n\<rparr>, replicate n blank)"
  by (induction n arbitrary: g) (simp_all add: new_Trie_def new_node_def blank_def Let_def ac_simps)

lemma total_nodes_update:
  "j < length ts \<Longrightarrow> total_nodes (ts[j := T]) = total_nodes ts + (node_count T - node_count (ts ! j))"
proof (induction ts arbitrary: j)
  case (Cons t ts)
  then show ?case by (cases j) (simp_all add: total_nodes_def)
qed simp

lemma total_nodes_blank: "total_nodes (replicate n blank) = of_nat n"
  by (induction n) (simp_all add: total_nodes_def trie_ok_blank)

lemma delete_tries_debug:
  assumes "\<forall>T \<in> set ts. trie_ok T"
  shows "debug (delete_tries ts g) = debug g - total_nodes ts" and
    "threshold (delete_tries ts g) = threshold g" and "blowup (delete_tries ts g) = blowup g"
proof -
  have "delete_trie (root T) d = d - node_count T" if "trie_ok T" for T d
  proof -
    have "delete_trie t d = d - of_nat (nodes t)" for t
    proof (induction t arbitrary: d)
      case (Node p a l r)
      have "(if l \<noteq> Null then delete_trie l d else d) = d - of_nat (nodes l)"
        and "(if r \<noteq> Null then delete_trie r d else d) = d - of_nat (nodes r)" for d
        using Node.IH by simp_all
      then show ?case by (simp only: delete_trie.simps Let_def) simp
    qed simp
    with that show ?thesis by (simp add: trie_ok_def)
  qed
  with assms show "debug (delete_tries ts g) = debug g - total_nodes ts"
    unfolding delete_tries_def
    by (induction ts arbitrary: g) (simp_all add: total_nodes_def)
  show "threshold (delete_tries ts g) = threshold g" "blowup (delete_tries ts g) = blowup g"
    unfolding delete_tries_def by (induction ts arbitrary: g) simp_all
qed

text \<open>What the trie of a group answers for a key of its own (a rearranged key).\<close>

definition answers :: "Trie \<Rightarrow> Rule list \<Rightarrow> bool" where
  "answers T grp \<longleftrightarrow> (\<forall>key. path_best 64 key (root T) =
     best_match t_prio t_matches (map (rearranged (trans_delta grp)) grp) key)"

lemma build_loop_spec:
  assumes "num \<le> length ba" and "j \<le> num" and "length (rv_tries res) = num"
    and "\<forall>i. j \<le> i \<longrightarrow> i < num \<longrightarrow> rv_tries res ! i = blank"
    and "\<forall>T \<in> set (rv_tries res). trie_ok T"
    and "\<forall>grp \<in> set ba. \<forall>r \<in> set grp. input_rule r"
  shows "\<exists>ex g' res'. build_loop stop ba [j..<num] g res = Inr (ex, g', res') \<and>
    length (rv_tries res') = num \<and> (\<forall>T \<in> set (rv_tries res'). trie_ok T) \<and>
    (\<forall>i<j. rv_tries res' ! i = rv_tries res ! i) \<and>
    threshold g' = threshold g \<and> debug g' - total_nodes (rv_tries res') = debug g - total_nodes (rv_tries res) \<and>
    (blowup g \<longrightarrow> blowup g') \<and> (stop \<or> (\<forall>grp \<in> set ba. \<forall>r \<in> set grp. few_wildcards r) \<longrightarrow> blowup g' = blowup g) \<and>
    (ex = None \<longrightarrow> rv_delta res' = rv_delta res @ map (\<lambda>i. trans_delta (ba ! i)) [j..<num]) \<and>
    (ex = None \<and> \<not> blowup g' \<longrightarrow> (\<forall>i. j \<le> i \<longrightarrow> i < num \<longrightarrow>
       1 + rule_budget * length (ba ! i) \<le> unat (threshold g) \<longrightarrow> answers (rv_tries res' ! i) (ba ! i)))"
  using assms(2-5)
proof (induction "num - j" arbitrary: j g res)
  case 0
  then show ?case by simp
next
  case (Suc n)
  then have j: "j < num" "j < length ba" using assms(1) by simp_all
  have upt: "[j..<num] = j # [Suc j..<num]" using j by (simp add: upt_conv_Cons)
  let ?d = "trans_delta (ba ! j)"
  let ?rs = "map (rearranged ?d) (ba ! j)"
  have "\<forall>r \<in> set ?rs. input_rule r"
    using assms(6) j(2) by (auto intro!: input_rule_rearranged trans_delta_good)
  moreover have bl: "rv_tries res ! j = blank" using Suc.prems(3) j(1) by simp
  moreover have "trie_inv (g, blank)" by (simp add: trie_inv_ok trie_ok_blank)
  ultimately obtain ex g1 T res1 where
    1: "insert_group stop (ba ! j) 0 ?rs (g, rv_tries res ! j) (res\<lparr>rv_delta := rv_delta res @ [?d]\<rparr>) =
        Inr (ex, (g1, T), res1)" "trie_inv (g1, T)" "balanced (g, blank) (g1, T)"
      "rv_tries res1 = rv_tries res" "rv_delta res1 = rv_delta res @ [?d]" "blowup g \<longrightarrow> blowup g1"
      "stop \<or> (\<forall>r \<in> set ?rs. get_new_num r \<le> 15) \<longrightarrow> blowup g1 = blowup g" and
    look: "ex = None \<and> room (g, blank) (rule_budget * length ?rs) \<and> \<not> blowup g1 \<longrightarrow>
      (\<forall>key. trie_lookup (g1, T) key = better (trie_lookup (g, blank) key) (best_match t_prio t_matches ?rs key))"
    using insert_group_spec [of ?rs "(g, blank)" stop "ba ! j" 0 "res\<lparr>rv_delta := rv_delta res @ [?d]\<rparr>"]
    by fastforce
  have few: "stop \<or> (\<forall>grp \<in> set ba. \<forall>r \<in> set grp. few_wildcards r) \<longrightarrow> blowup g1 = blowup g"
  proof -
    have "get_new_num (rearranged ?d r) \<le> 15" if "\<forall>grp \<in> set ba. \<forall>r \<in> set grp. few_wildcards r" "r \<in> set (ba ! j)" for r
    proof (rule few_new_wildcards)
      show "few_wildcards (rearranged ?d r)"
        using that nth_mem [OF j(2)] few_wildcards_rearranged [OF trans_delta_good] by simp
    qed
    then show ?thesis using 1(7) by auto
  qed
  have T: "trie_ok T" using 1(2) by (simp add: trie_inv_ok)
  let ?ts = "(rv_tries res)[j := T]"
  have ts: "length ?ts = num" "\<forall>T \<in> set ?ts. trie_ok T"
    using Suc.prems(2,4) T by (auto dest!: subsetD [OF set_update_subset_insert])
  have bal: "threshold g1 = threshold g" "debug g1 - total_nodes ?ts = debug g - total_nodes (rv_tries res)"
  proof -
    show "threshold g1 = threshold g" using 1(3) by (simp add: balanced_def)
    have "debug g1 = debug g + (node_count T - 1)"
      using 1(3) by (simp add: balanced_def trie_ok_blank diff_eq_eq)
    moreover have "total_nodes ?ts = total_nodes (rv_tries res) + (node_count T - 1)"
      using total_nodes_update [of j "rv_tries res" T] j(1) Suc.prems(2) bl
      by (simp add: trie_ok_blank)
    ultimately show "debug g1 - total_nodes ?ts = debug g - total_nodes (rv_tries res)" by simp
  qed
  have ans: "answers T (ba ! j)"
    if "ex = None" "1 + rule_budget * length (ba ! j) \<le> unat (threshold g)" "\<not> blowup g1"
  proof -
    have "room (g, blank) (rule_budget * length ?rs)" using that(2) by (simp add: room_def trie_ok_blank)
    with look that(1,3) trie_lookup_path_best [OF 1(2)] trie_lookup_path_best [of "(g, blank)"]
    show ?thesis by (simp add: answers_def trie_inv_ok trie_ok_blank) (simp add: blank_def)
  qed
  show ?case
  proof (cases ex)
    case (Some k)
    have "build_loop stop ba [j..<num] g res = Inr (Some (j, k), g1, res1\<lparr>rv_tries := ?ts\<rparr>)"
      using 1(1,4) j(2) Some by (simp add: upt build_loop_step del: build_loop.simps)
    with ts bal 1(6) few show ?thesis by auto
  next
    case None
    define res2 where "res2 = res1\<lparr>rv_tries := ?ts, rv_expand_count := rv_expand_count res1 + expand_count T,
       insert_num_rule := insert_num_rule res1 + rule_count T,
       size_trienode := size_trienode res1 + node_count T\<rparr>"
    have step: "build_loop stop ba [j..<num] g res = build_loop stop ba [Suc j..<num] g1 res2"
      using 1(1,4) j(2) None by (simp add: upt build_loop_step res2_def del: build_loop.simps)
    have res2: "rv_tries res2 = ?ts" "rv_delta res2 = rv_delta res @ [?d]"
      using 1(5) by (simp_all add: res2_def)
    have prem: "n = num - Suc j" "Suc j \<le> num" "length (rv_tries res2) = num"
      "\<forall>i. Suc j \<le> i \<longrightarrow> i < num \<longrightarrow> rv_tries res2 ! i = blank" "\<forall>T \<in> set (rv_tries res2). trie_ok T"
      using Suc.hyps(2) j ts Suc.prems(3) by (simp_all add: res2(1))
    obtain ex' g' res' where 2: "build_loop stop ba [Suc j..<num] g1 res2 = Inr (ex', g', res')"
      "length (rv_tries res') = num" "\<forall>T \<in> set (rv_tries res'). trie_ok T"
      "\<forall>i<Suc j. rv_tries res' ! i = ?ts ! i"
      "threshold g' = threshold g1" "debug g' - total_nodes (rv_tries res') = debug g1 - total_nodes ?ts"
      "blowup g1 \<longrightarrow> blowup g'" "stop \<or> (\<forall>grp \<in> set ba. \<forall>r \<in> set grp. few_wildcards r) \<longrightarrow> blowup g' = blowup g1"
      "ex' = None \<longrightarrow> rv_delta res' = rv_delta res2 @ map (\<lambda>i. trans_delta (ba ! i)) [Suc j..<num]" and
      rest: "ex' = None \<and> \<not> blowup g' \<longrightarrow> (\<forall>i. Suc j \<le> i \<longrightarrow> i < num \<longrightarrow>
       1 + rule_budget * length (ba ! i) \<le> unat (threshold g1) \<longrightarrow> answers (rv_tries res' ! i) (ba ! i))"
      using Suc.hyps(1) [OF prem, of g1] unfolding res2(1) by blast
    have at: "rv_tries res' ! j = T" using 2(4) j(1) Suc.prems(2) by simp
    have "answers (rv_tries res' ! i) (ba ! i)"
      if "ex' = None" "\<not> blowup g'" "j \<le> i" "i < num" "1 + rule_budget * length (ba ! i) \<le> unat (threshold g)" for i
      using ans rest that at None 2(7) bal(1) by (cases "i = j") auto
    moreover have "\<forall>i<j. rv_tries res' ! i = rv_tries res ! i" using 2(4) by simp
    ultimately show ?thesis
      unfolding step using 2 bal 1(6) few res2 by (auto simp: upt)
  qed
qed

end
