(* ===== verification/Kmeans_Search.thy ===== *)
theory Kmeans_Search
  imports Kmeans_Build
begin

text \<open>
  The whole build and the searches over all tries: a key is found exactly when it matches a rule of
  one of the groups, the priority decided on is the best over all groups, and the
  release of the tries restores the node counter.
\<close>

section \<open>The build as a whole\<close>

definition built :: "globals \<Rightarrow> globals \<Rightarrow> Return_vec \<Rightarrow> Rule list list \<Rightarrow> bool" where
  "built g g' res ba \<longleftrightarrow> length (rv_tries res) = length ba \<and> (\<forall>T \<in> set (rv_tries res). trie_ok T) \<and>
     rv_delta res = map trans_delta ba \<and> threshold g' = threshold g \<and>
     debug g' - total_nodes (rv_tries res) = debug g"

definition enough :: "globals \<Rightarrow> Rule list list \<Rightarrow> bool" where
  "enough g ba \<longleftrightarrow> 1 + rule_budget * length (concat ba) \<le> unat (threshold g)"

definition all_answer :: "Return_vec \<Rightarrow> Rule list list \<Rightarrow> bool" where
  "all_answer res ba \<longleftrightarrow> (\<forall>i<length ba. answers (rv_tries res ! i) (ba ! i))"

lemma length_nth_concat: "i < length xss \<Longrightarrow> length (xss ! i) \<le> length (concat xss)"
proof (induction xss arbitrary: i)
  case (Cons xs xss)
  then show ?case by (cases i) (simp_all add: trans_le_add2)
qed simp

lemma map_nth_upt: "map (\<lambda>i. f (xs ! i)) [0..<length xs] = map f xs"
  by (rule nth_equalityI) simp_all

lemma build_fresh:
  assumes "\<forall>grp \<in> set ba. \<forall>r \<in> set grp. input_rule r" and "num \<le> length ba"
  shows "\<exists>ex g' res. build_loop stop ba [0..<num] (fst (new_tries num g))
      (Return_vec0\<lparr>rv_tries := snd (new_tries num g)\<rparr>) = Inr (ex, g', res) \<and>
    length (rv_tries res) = num \<and> (\<forall>T \<in> set (rv_tries res). trie_ok T) \<and>
    threshold g' = threshold g \<and> debug g' - total_nodes (rv_tries res) = debug g \<and>
    (blowup g \<longrightarrow> blowup g') \<and> (stop \<or> (\<forall>grp \<in> set ba. \<forall>r \<in> set grp. few_wildcards r) \<longrightarrow> blowup g' = blowup g) \<and>
    (ex = None \<longrightarrow> rv_delta res = map (\<lambda>i. trans_delta (ba ! i)) [0..<num]) \<and>
    (ex = None \<and> \<not> blowup g' \<and> enough g ba \<longrightarrow> (\<forall>i<num. answers (rv_tries res ! i) (ba ! i)))"
proof -
  let ?res = "Return_vec0\<lparr>rv_tries := replicate num blank\<rparr>" and ?g = "g\<lparr>debug := debug g + of_nat num\<rparr>"
  have "\<forall>T \<in> set (rv_tries ?res). trie_ok T" by (auto simp: trie_ok_blank)
  note spec = build_loop_spec [OF assms(2) _ _ _ this assms(1), of 0 stop ?g]
  obtain ex g' res where 1: "build_loop stop ba [0..<num] ?g ?res = Inr (ex, g', res)"
    "length (rv_tries res) = num" "\<forall>T \<in> set (rv_tries res). trie_ok T" "threshold g' = threshold ?g"
    "debug g' - total_nodes (rv_tries res) = debug ?g - total_nodes (rv_tries ?res)"
    "blowup ?g \<longrightarrow> blowup g'" "stop \<or> (\<forall>grp \<in> set ba. \<forall>r \<in> set grp. few_wildcards r) \<longrightarrow> blowup g' = blowup ?g"
    "ex = None \<longrightarrow> rv_delta res = rv_delta ?res @ map (\<lambda>i. trans_delta (ba ! i)) [0..<num]" and
    ans: "ex = None \<and> \<not> blowup g' \<longrightarrow> (\<forall>i. 0 \<le> i \<longrightarrow> i < num \<longrightarrow>
       1 + rule_budget * length (ba ! i) \<le> unat (threshold ?g) \<longrightarrow> answers (rv_tries res ! i) (ba ! i))"
  proof -
    have "0 \<le> num" "length (rv_tries ?res) = num"
      "\<forall>i. 0 \<le> i \<longrightarrow> i < num \<longrightarrow> rv_tries ?res ! i = blank" by simp_all
    from spec [OF this] show ?thesis by (elim exE conjE) (rule that, assumption+)
  qed
  have "1 + rule_budget * length (ba ! i) \<le> unat (threshold ?g)" if "enough g ba" "i < num" for i
  proof -
    have "rule_budget * length (ba ! i) \<le> rule_budget * length (concat ba)"
      by (rule mult_le_mono2, rule length_nth_concat) (use that(2) assms(2) in simp)
    moreover have "1 + rule_budget * length (concat ba) \<le> unat (threshold ?g)"
      using that(1) unfolding enough_def by simp
    ultimately show ?thesis by linarith
  qed
  with ans have "ex = None \<and> \<not> blowup g' \<and> enough g ba \<longrightarrow> (\<forall>i<num. answers (rv_tries res ! i) (ba ! i))"
    by blast
  moreover have "debug g' - total_nodes (rv_tries res) = debug g"
    using 1(5) by (simp add: total_nodes_blank)
  ultimately show ?thesis
    unfolding new_tries_eq fst_conv snd_conv
    using 1 by (intro exI [of _ ex] exI [of _ g'] exI [of _ res]) (simp add: Return_vec0_def)
qed

lemma mset_split_rule:
  assumes "j < length ba" and "k < length (ba ! j)"
  shows "mset (concat (split_rule ba j k)) = mset (concat ba)"
proof -
  have upd: "mset (concat (ba[j := x])) + mset (ba ! j) = mset (concat ba) + mset x" if "j < length ba"
    for x and ba :: "'a list list" and j
    using that
  proof (induction ba arbitrary: j)
    case (Cons b ba)
    show ?case
    proof (cases j)
      case 0
      then show ?thesis by (simp add: ac_simps)
    next
      case (Suc i)
      with Cons show ?thesis by (simp add: add.assoc)
    qed
  qed simp
  have "mset (ba ! j) = mset (take k (ba ! j) @ drop (Suc k) (ba ! j)) + {#ba ! j ! k#}"
    using assms(2) by (metis add_mset_add_single append_Cons id_take_nth_drop mset.simps(2) mset_append union_mset_add_mset_right)
  with upd [OF assms(1), of "take k (ba ! j) @ drop (Suc k) (ba ! j)"]
  have "mset (concat (ba[j := take k (ba ! j) @ drop (Suc k) (ba ! j)])) + {#ba ! j ! k#} = mset (concat ba)"
    by (simp add: ac_simps)
  then show ?thesis by (simp add: split_rule_def)
qed

lemma set_concat_split:
  "j < length ba \<Longrightarrow> k < length (ba ! j) \<Longrightarrow> set (concat (split_rule ba j k)) = set (concat ba)"
  by (rule mset_eq_setD) (rule mset_split_rule)

lemma kmeans_build_tries_spec:
  assumes "\<forall>r \<in> set (concat ba). input_rule r" and "num = length ba"
  shows "\<exists>g' res ba'. kmeans_build_tries num ba g = Inr (g', res, ba') \<and> built g g' res ba' \<and>
    mset (concat ba') = mset (concat ba) \<and> (blowup g \<longrightarrow> blowup g') \<and>
    (1 < length ba \<or> (\<forall>r \<in> set (concat ba). few_wildcards r) \<longrightarrow> blowup g' = blowup g) \<and>
    (\<not> blowup g' \<and> enough g ba \<longrightarrow> all_answer res ba')"
  using assms
proof (induction num ba g rule: kmeans_build_tries.induct)
  case (1 num ba g)
  have ok: "\<forall>grp \<in> set ba. \<forall>r \<in> set grp. input_rule r" using "1.prems"(1) by auto
  have num: "num \<le> length ba" using "1.prems"(2) by simp
  obtain ex g' res where
    run: "build_loop (num \<noteq> 1) ba [0..<num] (fst (new_tries num g))
      (Return_vec0\<lparr>rv_tries := snd (new_tries num g)\<rparr>) = Inr (ex, g', res)" and
    ts: "length (rv_tries res) = num" "\<forall>T \<in> set (rv_tries res). trie_ok T" and
    gl: "threshold g' = threshold g" "debug g' - total_nodes (rv_tries res) = debug g"
      "blowup g \<longrightarrow> blowup g'" "num \<noteq> 1 \<or> (\<forall>grp \<in> set ba. \<forall>r \<in> set grp. few_wildcards r) \<longrightarrow> blowup g' = blowup g" and
    dl: "ex = None \<longrightarrow> rv_delta res = map (\<lambda>i. trans_delta (ba ! i)) [0..<num]" and
    an: "ex = None \<and> \<not> blowup g' \<and> enough g ba \<longrightarrow> (\<forall>i<num. answers (rv_tries res ! i) (ba ! i))"
    using build_fresh [OF ok num, of "num \<noteq> 1" g] by blast
  show ?case
  proof (cases ex)
    case None
    have "rv_delta res = map trans_delta ba"
      using dl None "1.prems"(2) by (simp add: map_nth_upt)
    then have "built g g' res ba" using ts gl "1.prems"(2) by (simp add: built_def)
    moreover have "kmeans_build_tries num ba g = Inr (g', res, ba)"
      using run None by (subst kmeans_build_tries.simps) simp
    moreover have "\<not> blowup g' \<and> enough g ba \<longrightarrow> all_answer res ba"
      using an None "1.prems"(2) by (simp add: all_answer_def)
    ultimately show ?thesis using gl(3,4) "1.prems"(2) by auto
  next
    case (Some jk)
    obtain j k where jk: "jk = (j, k)" by (cases jk)
    note stops = build_loop_stops [OF run [unfolded Some jk]]
    let ?ba = "split_rule ba j k" and ?g = "delete_tries (rv_tries res) g'"
    note del = delete_tries_debug [OF ts(2), of g']
    have g: "debug ?g = debug g" "threshold ?g = threshold g" "blowup ?g = blowup g"
      using del gl stops by auto
    have ms: "mset (concat ?ba) = mset (concat ba)" using stops by (intro mset_split_rule) auto
    have len: "length (concat ?ba) = length (concat ba)" using mset_eq_length [OF ms] .
    have lba: "1 < length ?ba" using stops by (auto simp: split_rule_def)
    have "\<forall>r \<in> set (concat ?ba). input_rule r"
      using "1.prems"(1) mset_eq_setD [OF ms] by blast
    from "1.IH" [OF run refl refl Some jk [symmetric] this refl]
    obtain g2 res2 ba2 where 2: "kmeans_build_tries (length ?ba) ?ba ?g = Inr (g2, res2, ba2)"
      "built ?g g2 res2 ba2" "mset (concat ba2) = mset (concat ?ba)" "blowup ?g \<longrightarrow> blowup g2"
      "1 < length ?ba \<or> (\<forall>r \<in> set (concat ?ba). few_wildcards r) \<longrightarrow> blowup g2 = blowup ?g" "\<not> blowup g2 \<and> enough ?g ?ba \<longrightarrow> all_answer res2 ba2" by blast
    have "kmeans_build_tries num ba g = Inr (g2, res2, ba2)"
      using run Some jk 2(1) by (subst kmeans_build_tries.simps) simp
    moreover have "built g g2 res2 ba2" using 2(2) g by (simp add: built_def)
    moreover have "enough ?g ?ba = enough g ba" using g len by (simp add: enough_def)
    ultimately show ?thesis using 2(3-6) ms g lba by auto
  qed
qed


section \<open>Key tables\<close>

definition rearr_key :: "Rule list \<Rightarrow> u64 \<Rightarrow> u64" where
  "rearr_key grp key = (case keys_rearrange key (trans_delta grp) of Inl e \<Rightarrow> key | Inr k \<Rightarrow> k)"

lemma rearr_key_run: "keys_rearrange key (trans_delta grp) = Inr (rearr_key grp key)"
  using keys_rearrange_moved [OF trans_delta_good, of key grp] by (auto simp: rearr_key_def)

lemma best_match_rearranged:
  "best_match t_prio t_matches (map (rearranged (trans_delta grp)) grp) (rearr_key grp key) =
   best_match t_prio t_matches grp key"
proof -
  have "t_matches (rearranged (trans_delta grp) r) (rearr_key grp key) = t_matches r key" for r
    by (rule rearranged_matches [OF trans_delta_good rearr_key_run])
  moreover have "t_prio (rearranged (trans_delta grp) r) = t_prio r" for r
    using rearranged_spec(4) [OF trans_delta_good] by (simp add: t_prio_def)
  ultimately show ?thesis by (simp add: best_match_def filter_map o_def)
qed

lemma generate_keyTable_run:
  assumes "rv_delta rv = map trans_delta ba"
  shows "generate_keyTable keys (length ba) rv = Inr (map (\<lambda>grp. map (rearr_key grp) keys) ba)"
proof -
  have "rbind (vec_at (rv_delta rv) i) (\<lambda>d. rmap (\<lambda>key. keys_rearrange key d) keys) =
      Inr (map (rearr_key (ba ! i)) keys)" if "i < length ba" for i
    using that by (simp add: assms vec_at_def rmap_Inr_map [OF rearr_key_run])
  then have "generate_keyTable keys (length ba) rv = Inr (map (\<lambda>i. map (rearr_key (ba ! i)) keys) [0..<length ba])"
    unfolding generate_keyTable_def by (intro rmap_Inr_map) simp
  then show ?thesis using map_nth_upt [of "\<lambda>grp. map (rearr_key grp) keys" ba] by simp
qed

text \<open>One lookup in the trie of a group, with the key rearranged for it.\<close>

lemma LPM1_answers:
  assumes "trie_ok T" and "answers T grp"
  shows "\<exists>ret. LPM1_search_rule (rearr_key grp key) T = Inr ret \<and> tr_action ret = 0 \<and>
    unat (tr_priority ret) = best_match t_prio t_matches grp key"
  using LPM1_search_path_best [of "(g, T)" "rearr_key grp key"] assms best_match_rearranged
  by (auto simp: trie_inv_ok answers_def)

definition group_prio :: "Rule list \<Rightarrow> u64 \<Rightarrow> u32" where
  "group_prio grp key = of_nat (best_match t_prio t_matches grp key)"

lemma best_match_small: "best_match t_prio t_matches grp key < 2 ^ 32"
proof (cases "best_match t_prio t_matches grp key = 0")
  case False
  then have "best_match t_prio t_matches grp key \<in> set (map t_prio (filter (\<lambda>r. t_matches r key) grp))"
    unfolding best_match_def by (rule best_in_set)
  moreover have "t_prio r < 2 ^ 32" for r
    using unsigned_less [of "r_priority r", where 'a = nat] by (simp add: t_prio_def)
  ultimately show ?thesis by auto
qed simp

lemma unat_group_prio: "unat (group_prio grp key) = best_match t_prio t_matches grp key"
  unfolding group_prio_def by (rule unat_of_nat_small(2)) (rule best_match_small)

lemma search_in_run:
  assumes "built g g' rv ba" and "all_answer rv ba" and "m < length ba" and "i < length keys"
  shows "search_in (map (\<lambda>grp. map (rearr_key grp) keys) ba) rv i m = Inr (group_prio (ba ! m) (keys ! i))"
proof -
  have m: "m < length (rv_tries rv)" using assms(1,3) by (simp add: built_def)
  then have "trie_ok (rv_tries rv ! m)" using assms(1) by (auto simp: built_def)
  moreover have "answers (rv_tries rv ! m) (ba ! m)" using assms(2,3) by (simp add: all_answer_def)
  ultimately obtain ret where
    "LPM1_search_rule (rearr_key (ba ! m) (keys ! i)) (rv_tries rv ! m) = Inr ret"
    "unat (tr_priority ret) = best_match t_prio t_matches (ba ! m) (keys ! i)"
    using LPM1_answers by blast
  moreover from this(2) have "tr_priority ret = group_prio (ba ! m) (keys ! i)"
    using unat_group_prio [of "ba ! m" "keys ! i"] by (simp add: word_unat_eq_iff)
  ultimately show ?thesis using m assms(3,4) by (simp add: search_in_def vec_at_def)
qed

section \<open>The searches\<close>

definition matched :: "Rule list list \<Rightarrow> u64 \<Rightarrow> bool" where
  "matched ba key \<longleftrightarrow> (\<exists>r \<in> set (concat ba). t_matches r key)"

lemma matched_groups:
  assumes "\<forall>r \<in> set (concat ba). input_rule r"
  shows "matched ba key \<longleftrightarrow> (\<exists>m<length ba. group_prio (ba ! m) key \<noteq> 0)"
proof -
  have "group_prio grp key \<noteq> 0 \<longleftrightarrow> (\<exists>r \<in> set grp. t_matches r key)" if "grp \<in> set ba" for grp
  proof -
    have "\<forall>r \<in> set grp. 0 < t_prio r"
      using assms that by (auto simp: input_rule_def t_prio_def unat_gt_0)
    then have "best_match t_prio t_matches grp key = 0 \<longleftrightarrow> (\<forall>r \<in> set grp. \<not> t_matches r key)"
      by (rule best_match_eq_0)
    then show ?thesis using unat_group_prio [of grp key] by (metis unat_eq_zero)
  qed
  then show ?thesis by (fastforce simp: matched_def in_set_conv_nth)
qed

lemma count_keys:
  assumes "\<And>i n. i < length keys \<Longrightarrow> f i n = Inr (if P (keys ! i) then n + 1 else n)"
  shows "rfold f [0..<length keys] 0 = Inr (of_nat (length (filter P keys)) :: u64)"
proof -
  have "rfold f [0..<n] 0 = Inr (of_nat (length (filter P (take n keys))) :: u64)" if "n \<le> length keys" for n
    using that by (induction n) (simp_all add: rfold_append assms take_Suc_conv_app_nth)
  from this [of "length keys"] show ?thesis by simp
qed

lemma search_result_2_run:
  assumes b: "built g g' rv ba" and a: "all_answer rv ba" and ok: "\<forall>r \<in> set (concat ba). input_rule r"
  shows "search_result_2 keys (map (\<lambda>grp. map (rearr_key grp) keys) ba) (length ba) rv g' =
    Inr (delete_tries (rv_tries rv) g', Search_result0\<lparr>sr_match := of_nat (length (filter (matched ba) keys))\<rparr>)"
proof -
  let ?tabs = "map (\<lambda>grp. map (rearr_key grp) keys) ba"
  have "rmap (search_in ?tabs rv i) [0..<length ba] = Inr (map (\<lambda>m. group_prio (ba ! m) (keys ! i)) [0..<length ba])"
    if "i < length keys" for i
    by (rule rmap_Inr_map) (use search_in_run [OF b a _ that] in simp)
  then have "rfold (\<lambda>i n. rbind (rmap (search_in ?tabs rv i) [0..<length ba]) (\<lambda>matchVector.
              Inr (if \<exists>p \<in> set matchVector. p \<noteq> 0 then n + 1 else n))) [0..<length keys] 0 =
      Inr (of_nat (length (filter (matched ba) keys)) :: u64)"
    by (intro count_keys) (auto simp: matched_groups [OF ok])
  moreover have "take (length ba) (rv_tries rv) = rv_tries rv" using b by (simp add: built_def)
  ultimately show ?thesis by (simp add: search_result_2_def)
qed

lemma search_result_1_run:
  assumes b: "built g g' rv [grp]" and a: "all_answer rv [grp]" and ok: "\<forall>r \<in> set grp. input_rule r"
  shows "search_result_1 keys (map (\<lambda>grp. map (rearr_key grp) keys) [grp]) rv g' =
    Inr (delete_tries (rv_tries rv) g', Search_result0\<lparr>sr_match := of_nat (length (filter (matched [grp]) keys))\<rparr>)"
proof -
  let ?tabs = "map (\<lambda>grp. map (rearr_key grp) keys) [grp]"
  have "search_in ?tabs rv i 0 = Inr (group_prio grp (keys ! i))" if "i < length keys" for i
    using search_in_run [OF b a _ that, of 0] by simp
  moreover have "matched [grp] key \<longleftrightarrow> group_prio grp key > 0" for key
    using matched_groups [of "[grp]"] ok by (simp add: word_gt_0)
  ultimately have "rfold (\<lambda>i n. rbind (search_in ?tabs rv i 0) (\<lambda>p. Inr (if p > 0 then n + 1 else n)))
              [0..<length keys] 0 = Inr (of_nat (length (filter (matched [grp]) keys)) :: u64)"
    by (intro count_keys) simp
  moreover obtain T where "rv_tries rv = [T]" using b by (auto simp: built_def length_Suc_conv)
  ultimately show ?thesis by (simp add: search_result_1_def vec_at_def delete_tries_def)
qed


section \<open>The search that decides between the groups\<close>

lemma best_nonzero: "best (filter (\<lambda>p. p \<noteq> 0) ps) = best ps"
  by (induction ps) auto

lemma best_match_concat:
  "best (map (\<lambda>grp. best_match pr mt grp key) ba) = best_match pr mt (concat ba) key"
  by (induction ba) simp_all

text \<open>The priorities found for a key, and what \<open>decide\<close> makes of them.\<close>

lemma decide_best:
  assumes "found = map (\<lambda>grp. (ucast (group_prio grp key) :: u64, 0)) ba"
  shows "decide i found sr = Inr (let b = best_match t_prio t_matches (concat ba) key
    in if b = 0 then sr
       else sr\<lparr>sr_checksum := sr_checksum sr + of_nat b, sr_match := sr_match sr + 1,
               sr_vv := sr_vv sr @ [i], sr_matched_priority := sr_matched_priority sr @ [to_int (of_nat b)]\<rparr>)"
proof -
  let ?test1 = "map fst (filter (\<lambda>(p, a). p > 0) found)" and ?test2 = "map snd (filter (\<lambda>(p, a). p > 0) found)"
  have t1: "map unat ?test1 = filter (\<lambda>p. p \<noteq> 0) (map (\<lambda>grp. best_match t_prio t_matches grp key) ba)"
    unfolding assms
    by (induction ba) (auto simp: unat_widen unat_group_prio word_gt_0 simp flip: unat_eq_0)
  then have b: "best (map unat ?test1) = best_match t_prio t_matches (concat ba) key"
    by (simp only: best_nonzero best_match_concat)
  have t2: "set ?test2 \<subseteq> {0}" by (auto simp: assms)
  show ?thesis
  proof (cases "?test1 = []")
    case True
    then have "best_match t_prio t_matches (concat ba) key = 0" using b by simp
    with True show ?thesis by (simp add: decide_def Let_def)
  next
    case False
    have no0: "0 \<notin> set ?test1" by (auto simp: assms)
    obtain m where m: "min_element ?test1 = Inr m" "m \<in> set ?test1" "unat m = best (map unat ?test1)"
      using min_element_best [OF False no0] by blast
    note at = find_index_nth [OF m(2)]
    have l: "find_index m ?test1 < length ?test2" using at by simp
    then have act: "vec_at ?test2 (find_index m ?test1) = Inr 0"
      using t2 nth_mem [OF l] by (auto simp: vec_at_def simp del: nth_map)
    have mb: "m = of_nat (best_match t_prio t_matches (concat ba) key)"
    proof -
      have "of_nat (unat m) = m" by simp
      then show ?thesis by (simp only: m(3) b)
    qed
    have "best_match t_prio t_matches (concat ba) key \<noteq> 0"
      using m(2,3) no0 b by (metis unat_eq_0)
    then show ?thesis
      using False m(1) act unfolding decide_def Let_def mb [symmetric] by simp
  qed
qed

text \<open>The summary of a search over the keys with indices \<open>is\<close>.\<close>

definition search_summary :: "(nat \<Rightarrow> nat) \<Rightarrow> nat list \<Rightarrow> Search_result" where
  "search_summary prio_of is =
     (let hits = filter (\<lambda>i. prio_of i \<noteq> 0) is
      in \<lparr>sr_match = of_nat (length hits), sr_checksum = sum_list (map (\<lambda>i. of_nat (prio_of i)) hits),
          sr_actionSum = 0, sr_matched_priority = map (\<lambda>i. to_int (of_nat (prio_of i))) hits, sr_vv = hits\<rparr>)"

lemma search_summary_snoc:
  "search_summary f (is @ [i]) = (if f i = 0 then search_summary f is else
     (search_summary f is)\<lparr>sr_checksum := sr_checksum (search_summary f is) + of_nat (f i),
        sr_match := sr_match (search_summary f is) + 1, sr_vv := sr_vv (search_summary f is) @ [i],
        sr_matched_priority := sr_matched_priority (search_summary f is) @ [to_int (of_nat (f i))]\<rparr>)"
  by (simp add: search_summary_def Let_def)

lemma kmeans_search_result_run:
  assumes b: "built g g' rv ba" and a: "all_answer rv ba"
  shows "kmeans_search_result keys (length ba) rv g' = Inr (delete_tries (rv_tries rv) g',
    search_summary (\<lambda>i. best_match t_prio t_matches (concat ba) (keys ! i)) [0..<length keys])"
proof -
  let ?look = "\<lambda>i m. rbind (vec_at (rv_delta rv) m) (\<lambda>d. rbind (keys_rearrange (keys ! i) d) (\<lambda>newGenKey.
                rbind (vec_at (rv_tries rv) m) (\<lambda>T. rbind (LPM1_search_rule newGenKey T) (\<lambda>ret.
                  Inr (ucast (tr_priority ret) :: u64, tr_action ret)))))"
  let ?best = "\<lambda>i. best_match t_prio t_matches (concat ba) (keys ! i)"
  have look: "?look i m = Inr (ucast (group_prio (ba ! m) (keys ! i)), 0)" if "m < length ba" for i m
  proof -
    have T: "m < length (rv_tries rv)" "trie_ok (rv_tries rv ! m)" "answers (rv_tries rv ! m) (ba ! m)"
      using a b that by (auto simp: built_def all_answer_def)
    obtain ret where ret: "LPM1_search_rule (rearr_key (ba ! m) (keys ! i)) (rv_tries rv ! m) = Inr ret"
      "tr_action ret = 0" "unat (tr_priority ret) = best_match t_prio t_matches (ba ! m) (keys ! i)"
      using LPM1_answers [OF T(2,3)] by blast
    have "tr_priority ret = group_prio (ba ! m) (keys ! i)"
      using ret(3) unat_group_prio [of "ba ! m" "keys ! i"] by (simp add: word_unat_eq_iff)
    with ret T(1) b that show ?thesis by (simp add: built_def vec_at_def rearr_key_run)
  qed
  have found: "rmap (?look i) [0..<length ba] = Inr (map (\<lambda>grp. (ucast (group_prio grp (keys ! i)), 0)) ba)" for i
  proof -
    have "rmap (?look i) [0..<length ba] = Inr (map (\<lambda>m. (ucast (group_prio (ba ! m) (keys ! i)), 0)) [0..<length ba])"
      by (rule rmap_Inr_map) (use look in simp)
    then show ?thesis using map_nth_upt [of "\<lambda>grp. (ucast (group_prio grp (keys ! i)), 0)" ba] by simp
  qed
  have "rfold (\<lambda>i sr. rbind (rmap (?look i) [0..<length ba]) (\<lambda>found. decide i found sr)) [0..<n] Search_result0 =
      Inr (search_summary ?best [0..<n])" for n
  proof (induction n)
    case 0
    show ?case by (simp add: search_summary_def Search_result0_def)
  next
    case (Suc n)
    then show ?case by (simp add: rfold_append found decide_best [OF refl] search_summary_snoc Let_def)
  qed
  moreover have "take (length ba) (rv_tries rv) = rv_tries rv" using b by (simp add: built_def)
  ultimately show ?thesis by (simp add: kmeans_search_result_def)
qed

section \<open>Build and search together\<close>

text \<open>C31: \<open>kmeans_build_tries\<close> always ends; the groups it ends with hold the rules it was given,
  there is one trie and one vector a group, and the node counter has moved by exactly the
  nodes of those tries (the tries of abandoned rounds have been released).\<close>

theorem kmeans_build_tries_ends:
  assumes "\<forall>r \<in> set (concat ba). input_rule r"
  shows "\<exists>g' rv ba'. kmeans_build_tries (length ba) ba g = Inr (g', rv, ba') \<and>
    mset (concat ba') = mset (concat ba) \<and> length (rv_tries rv) = length ba' \<and>
    rv_delta rv = map (\<lambda>grp. my_pairsort (pair_function grp)) ba' \<and>
    debug g' = debug g + sum_list (map (\<lambda>T. of_nat (nodes (root T))) (rv_tries rv))"
proof -
  obtain g' rv ba' where 1: "kmeans_build_tries (length ba) ba g = Inr (g', rv, ba')" "built g g' rv ba'"
    "mset (concat ba') = mset (concat ba)"
    using kmeans_build_tries_spec [OF assms refl] by blast
  have "total_nodes (rv_tries rv) = sum_list (map (\<lambda>T. of_nat (nodes (root T))) (rv_tries rv))"
    unfolding total_nodes_def
    by (rule arg_cong [where f = sum_list], rule map_cong [OF refl]) (use 1(2) in \<open>simp add: built_def trie_ok_def\<close>)
  moreover have "debug g' = debug g + total_nodes (rv_tries rv)"
    using 1(2) by (simp add: built_def diff_eq_eq)
  moreover have "map trans_delta ba' = map (\<lambda>grp. my_pairsort (pair_function grp)) ba'"
    by (simp add: trans_delta_def)
  ultimately show ?thesis using 1 by (intro exI [of _ g'] exI [of _ rv] exI [of _ ba']) (simp add: built_def)
qed

theorem kmeans_build_tries_ends_witness:
  "\<exists>g' rv ba'. kmeans_build_tries 2 [[\<lparr>r_value = 4, r_mask = 3, r_priority = 1, r_action = 0\<rparr>], []]
      \<lparr>debug = 0, threshold = 9, blowup = False, new_num1 = 0\<rparr> = Inr (g', rv, ba') \<and>
    length (rv_tries rv) = length ba'"
proof -
  let ?ba = "[[\<lparr>r_value = 4, r_mask = 3, r_priority = 1, r_action = 0\<rparr>], []] :: Rule list list"
  have "\<forall>r \<in> set (concat ?ba). input_rule r" by (simp add: input_rule_def)
  from kmeans_build_tries_ends [OF this, of "\<lparr>debug = 0, threshold = 9, blowup = False, new_num1 = 0\<rparr>"]
  show ?thesis by (auto simp: numeral_2_eq_2)
qed

text \<open>C4: Searching all tries and deciding gives, for every key, the smallest priority among all the rules that
  match it: \<open>match\<close> counts the keys with such a rule, \<open>checksum\<close> sums the priorities, \<open>matched_priority\<close> lists
  them as \<open>int\<close> (from \<open>2 ^ 31\<close> on they wrap) and \<open>vv\<close> lists the key indices; \<open>actionSum\<close> stays 0.  The rules
  must be admissible, the budget must have \<open>64 * 2 ^ 15\<close> nodes a rule beside a root, the build must not have ended
  in a blow-up, and there must be fewer than \<open>2 ^ 31\<close> keys and rules, since \<open>int\<close> variables count them.\<close>

theorem kmeans_search_decides_best:
  assumes "\<forall>r \<in> set (concat ba). input_rule r"
    and "length (concat ba) < 2 ^ 31" and "length keys < 2 ^ 31"
    and "kmeans_build_tries (length ba) ba g = Inr (g', rv, ba')"
    and "1 + rule_budget * length (concat ba) \<le> unat (threshold g)" and "\<not> blowup g'"
  shows "\<exists>g'' sr. kmeans_search_result keys (length ba') rv g' = Inr (g'', sr) \<and> debug g'' = debug g \<and>
    (let best = (\<lambda>i. best_match t_prio t_matches (concat ba) (keys ! i));
         hits = filter (\<lambda>i. best i \<noteq> 0) [0..<length keys]
     in sr_match sr = of_nat (length hits) \<and> sr_checksum sr = sum_list (map (\<lambda>i. of_nat (best i)) hits) \<and>
        sr_matched_priority sr = map (\<lambda>i. to_int (of_nat (best i))) hits \<and> sr_vv sr = hits \<and> sr_actionSum sr = 0)"
proof -
  have 1: "built g g' rv ba'" "mset (concat ba') = mset (concat ba)" "all_answer rv ba'"
    using kmeans_build_tries_spec [OF assms(1) refl, of g] assms(4-6) by (auto simp: enough_def)
  have "best_match t_prio t_matches (concat ba') key = best_match t_prio t_matches (concat ba) key" for key
    by (rule best_match_set_cong) (rule mset_eq_setD [OF 1(2)])
  then show ?thesis
    using kmeans_search_result_run [OF 1(1,3), of keys] delete_tries_debug [of "rv_tries rv" g'] 1(1)
    by (simp add: search_summary_def Let_def built_def)
qed

theorem kmeans_search_decides_best_witness:
  "\<exists>g' rv ba' g'' sr. kmeans_build_tries 2 [[\<lparr>r_value = 4, r_mask = 3, r_priority = 7, r_action = 0\<rparr>],
      [\<lparr>r_value = 1, r_mask = 0xC, r_priority = 5, r_action = 0\<rparr>]]
      \<lparr>debug = 0, threshold = 0x1000000, blowup = False, new_num1 = 0\<rparr> = Inr (g', rv, ba') \<and>
    kmeans_search_result [5, 8, 13] (length ba') rv g' = Inr (g'', sr) \<and> debug g'' = 0 \<and>
    sr_checksum sr = 10 \<and> sr_matched_priority sr = [5, 5] \<and> sr_vv sr = [0, 2]"
proof -
  let ?r = "\<lparr>r_value = 4, r_mask = 3, r_priority = 7, r_action = 0\<rparr> :: Rule"
    and ?q = "\<lparr>r_value = 1, r_mask = 0xC, r_priority = 5, r_action = 0\<rparr> :: Rule"
    and ?g = "\<lparr>debug = 0, threshold = 0x1000000, blowup = False, new_num1 = 0\<rparr>"
  let ?ba = "[[?r], [?q]]"
  have ok: "\<forall>r \<in> set (concat ?ba). input_rule r" by (simp add: input_rule_def)
  obtain g' rv ba' where run: "kmeans_build_tries (length ?ba) ?ba ?g = Inr (g', rv, ba')" and b: "blowup g' = blowup ?g"
    using kmeans_build_tries_spec [OF ok refl, of ?g] by auto
  define rs where "rs = concat ?ba"
  have small: "length (concat ?ba) < 2 ^ 31" "length [5, 8, 13 :: u64] < 2 ^ 31" by simp_all
  have "1 + rule_budget * length (concat ?ba) \<le> unat (threshold ?g)" "\<not> blowup g'" using b by (simp_all add: rule_budget_def)
  note dec = kmeans_search_decides_best [OF ok small run this, folded rs_def]
  have "t_matches ?r 5" "\<not> t_matches ?r 8" "\<not> t_matches ?r 13" "t_matches ?q 5" "\<not> t_matches ?q 8" "t_matches ?q 13"
    "t_prio ?r = 7" "t_prio ?q = 5"
    by (simp_all add: t_matches_def rule_matches_def t_prio_def)
  then have best: "best_match t_prio t_matches rs 5 = 5" "best_match t_prio t_matches rs 8 = 0"
    "best_match t_prio t_matches rs 13 = 5" by (simp_all add: rs_def better_def)
  have upt: "[0..<length [5, 8, 13 :: u64]] = [0, 1, 2]" by (simp add: upt_rec)
  have five: "to_int 5 = 5" by code_simp
  from dec obtain g'' sr where "kmeans_search_result [5, 8, 13] (length ba') rv g' = Inr (g'', sr)" "debug g'' = 0"
    "sr_checksum sr = 10" "sr_matched_priority sr = [5, 5]" "sr_vv sr = [0, 2]"
    unfolding upt Let_def by (auto simp: best five)
  with run show ?thesis by (auto simp: numeral_2_eq_2)
qed

end
