(* ===== verification/Kmeans_Driver.thy ===== *)
theory Kmeans_Driver
  imports Kmeans_Search Linear_Driver
begin

text \<open>
  The program of \<open>test/prefix_kmeans.cpp\<close> from the lines of its files to its match count, and that
  it reports what the linear program reports. \<open>std::sort\<close> with the comparator \<open>mySortFunction\<close>
  (ties possible) is the parameter \<open>srt\<close>.
\<close>

section \<open>Reading\<close>

definition strTint :: "string \<Rightarrow> Rule cxx" where
  "strTint s =
     rbind (stoull (fst (split_line s))) (\<lambda>v. rbind (stoull (snd (split_line s))) (\<lambda>m.
       Inr (Rule0\<lparr>r_value := v, r_mask := m\<rparr>)))"

fun read_rules :: "nat \<Rightarrow> string list \<Rightarrow> Rule list cxx" where
  "read_rules i [] = Inr []"
| "read_rules i (l # ls) =
     (if l = [] then read_rules i ls
      else rbind (strTint l) (\<lambda>r. rbind (int_succ i) (\<lambda>j. rbind (read_rules j ls) (\<lambda>rs.
             Inr (r\<lparr>r_priority := of_nat j\<rparr> # rs)))))"

definition remove_duplicate_rule :: "Rule list \<Rightarrow> Rule list" where
  "remove_duplicate_rule rs = keep_first_loop (\<lambda>r. (r_value r, r_mask r)) {} [] rs"

definition mySortFunction :: "Rule \<Rightarrow> Rule \<Rightarrow> bool" where
  "mySortFunction pair1 pair2 \<longleftrightarrow> r_mask pair1 < r_mask pair2"

section \<open>The run\<close>

definition kmeans_run ::
  "(Rule list \<Rightarrow> Rule list) \<Rightarrow> Rule list \<Rightarrow> u64 list \<Rightarrow> globals \<Rightarrow> (globals \<times> Search_result) cxx" where
  "kmeans_run srt rules keys g =
     (let keyTable = remove_duplicate keys;
          data = srt (remove_duplicate_rule rules);
          one_cluster = [data]
      in rbind (kmeans_build_one_trie 1 one_cluster g) (\<lambda>(g, mm_cost).
         if exceed_flag mm_cost = 0 then
           rbind (generate_keyTable keyTable (length one_cluster) mm_cost) (\<lambda>t_keytable.
             search_result_1 keyTable t_keytable mm_cost g)
         else
           rbind (vec_at (rv_tries mm_cost) 0) (\<lambda>T.
           rbind (assign_cluster_CC [] data (get_cmatrix data)) (\<lambda>target.
           rbind (kmeans_build_tries (length target) target (g\<lparr>debug := delete_trie (root T) (debug g)\<rparr>))
             (\<lambda>(g, trienode, target).
           rbind (generate_keyTable keyTable (length (rv_tries trienode)) trienode) (\<lambda>testping.
             search_result_2 keyTable testping (length (rv_tries trienode)) trienode g))))))"

definition kmeans_main ::
  "(Rule list \<Rightarrow> Rule list) \<Rightarrow> string \<Rightarrow> string list \<Rightarrow> string list \<Rightarrow> globals \<Rightarrow>
     (globals \<times> Search_result) cxx" where
  "kmeans_main srt th rule_lines key_lines g =
     rbind (stoull th) (\<lambda>th.
     rbind (read_rules 0 rule_lines) (\<lambda>rules.
     rbind (read_keys key_lines) (\<lambda>keys. kmeans_run srt rules keys (g\<lparr>threshold := th\<rparr>))))"

section \<open>Duplicates\<close>

lemma remove_duplicate_rule_facts:
  "set (remove_duplicate_rule rs) \<subseteq> set rs" "length (remove_duplicate_rule rs) \<le> length rs"
  "(\<lambda>r. (r_value r, r_mask r)) ` set (remove_duplicate_rule rs) = (\<lambda>r. (r_value r, r_mask r)) ` set rs"
proof -
  note k = keep_first_keys [of "{}" "\<lambda>r. (r_value r, r_mask r)" "[]" rs]
  then show "set (remove_duplicate_rule rs) \<subseteq> set rs"
    and "(\<lambda>r. (r_value r, r_mask r)) ` set (remove_duplicate_rule rs) = (\<lambda>r. (r_value r, r_mask r)) ` set rs"
    by (simp_all add: remove_duplicate_rule_def)
  have "distinct (remove_duplicate_rule rs)"
    using k by (simp add: remove_duplicate_rule_def distinct_map)
  then have "length (remove_duplicate_rule rs) = card (set (remove_duplicate_rule rs))"
    by (simp add: distinct_card)
  also have "\<dots> \<le> card (set rs)"
    using \<open>set (remove_duplicate_rule rs) \<subseteq> set rs\<close> by (simp add: card_mono)
  also have "\<dots> \<le> length rs" by (rule card_length)
  finally show "length (remove_duplicate_rule rs) \<le> length rs" .
qed

lemma t_matches_keys:
  assumes "(\<lambda>r. (r_value r, r_mask r)) ` set qs = (\<lambda>r. (r_value r, r_mask r)) ` set rs"
  shows "(\<exists>r \<in> set qs. t_matches r k) \<longleftrightarrow> (\<exists>r \<in> set rs. t_matches r k)"
proof -
  have "(\<exists>r \<in> set qs. t_matches r k) \<longleftrightarrow>
      (\<exists>vm \<in> (\<lambda>r. (r_value r, r_mask r)) ` set qs. rule_matches (fst vm) (snd vm) k)" for qs
    by (auto simp: t_matches_def)
  then show ?thesis by (simp only: assms)
qed

section \<open>What the run returns\<close>

text \<open>The rules the program clusters: sorted, without duplicates.\<close>

lemma kmeans_data:
  assumes "is_std_sort mySortFunction srt" and "\<forall>r \<in> set rules. input_rule r"
  shows "\<forall>r \<in> set (srt (remove_duplicate_rule rules)). input_rule r"
    "length (srt (remove_duplicate_rule rules)) \<le> length rules"
    "(\<exists>r \<in> set (srt (remove_duplicate_rule rules)). t_matches r k) \<longleftrightarrow> (\<exists>r \<in> set rules. t_matches r k)"
  using assms(2) std_sort_set [OF assms(1)] std_sort_length [OF assms(1)] remove_duplicate_rule_facts [of rules]
    t_matches_keys [OF remove_duplicate_rule_facts(3), of rules k]
  by (auto simp: subset_iff)

definition match_count :: "Rule list \<Rightarrow> u64 list \<Rightarrow> nat" where
  "match_count rules keys = card {k \<in> set keys. \<exists>r \<in> set rules. t_matches r k}"

lemma match_count_filter:
  assumes "\<And>k. P k \<longleftrightarrow> (\<exists>r \<in> set rules. t_matches r k)"
  shows "length (filter P (remove_duplicate keys)) = match_count rules keys"
proof -
  have "distinct (filter P (remove_duplicate keys))"
    using remove_duplicate_facts(1) by (rule distinct_filter)
  from distinct_card [OF this] show ?thesis
    by (simp add: remove_duplicate_facts(2) match_count_def assms)
qed

lemma delete_built:
  assumes "built g g' rv ba"
  shows "debug (delete_tries (rv_tries rv) g') = debug g" "blowup (delete_tries (rv_tries rv) g') = blowup g'"
  using assms delete_tries_debug [of "rv_tries rv" g'] by (simp_all add: built_def)

text \<open>The searches return whatever the tries hold.\<close>

lemma rfold_total:
  assumes "\<And>i n. i \<in> set is \<Longrightarrow> \<exists>n'. f i n = Inr n'"
  shows "\<exists>n'. rfold f is n = Inr n'"
  using assms
proof (induction "is" arbitrary: n)
  case (Cons i "is")
  then obtain n1 where "f i n = Inr n1" by (metis list.set_intros(1))
  moreover obtain n2 where "rfold f is n1 = Inr n2" using Cons by (metis list.set_intros(2))
  ultimately show ?case by simp
qed simp

lemma rmap_total: "(\<And>m. m \<in> set ms \<Longrightarrow> \<exists>p. f m = Inr p) \<Longrightarrow> \<exists>ps. rmap f ms = Inr ps"
proof (induction ms)
  case (Cons m ms)
  then obtain p ps where "f m = Inr p" "rmap f ms = Inr ps" by (metis list.set_intros(1,2))
  then show ?case by simp
qed simp

lemma search_in_total:
  assumes "built g g' rv ba" and "m < length ba" and "i < length keys"
  shows "\<exists>p. search_in (map (\<lambda>grp. map (rearr_key grp) keys) ba) rv i m = Inr p"
proof -
  have b: "m < length (rv_tries rv)" "trie_inv (g, rv_tries rv ! m)"
    using assms(1,2) by (auto simp: built_def trie_inv_ok)
  from LPM1_search_path_best [OF b(2), of "rearr_key (ba ! m) (keys ! i)"] assms b(1)
  show ?thesis by (auto simp: search_in_def vec_at_def)
qed

lemma search_2_built:
  assumes b: "built g g' rv ba" and "\<forall>r \<in> set (concat ba). input_rule r"
  shows "\<exists>sr. search_result_2 keys (map (\<lambda>grp. map (rearr_key grp) keys) ba) (length ba) rv g' =
      Inr (delete_tries (rv_tries rv) g', sr) \<and>
    (all_answer rv ba \<longrightarrow> sr_match sr = of_nat (length (filter (matched ba) keys)))"
proof (cases "all_answer rv ba")
  case True
  from search_result_2_run [OF b True assms(2)] show ?thesis by (simp add: Search_result0_def)
next
  case False
  let ?tabs = "map (\<lambda>grp. map (rearr_key grp) keys) ba"
  have row: "\<exists>ps. rmap (search_in ?tabs rv i) [0..<length ba] = Inr ps" if "i < length keys" for i
    by (rule rmap_total) (use search_in_total [OF b _ that] in simp)
  have "\<exists>n. rfold (\<lambda>i n. rbind (rmap (search_in ?tabs rv i) [0..<length ba]) (\<lambda>matchVector.
              Inr (if \<exists>p \<in> set matchVector. p \<noteq> 0 then n + 1 else n))) [0..<length keys] (0 :: u64) = Inr n"
  proof (rule rfold_total)
    fix i and n :: u64 assume "i \<in> set [0..<length keys]"
    then have "i < length keys" by simp
    from row [OF this] show "\<exists>n'. rbind (rmap (search_in ?tabs rv i) [0..<length ba]) (\<lambda>matchVector.
              Inr (if \<exists>p \<in> set matchVector. p \<noteq> 0 then n + 1 else n)) = Inr n'" by auto
  qed
  moreover have "length (rv_tries rv) = length ba" using b by (simp add: built_def)
  ultimately show ?thesis using False by (auto simp: search_result_2_def)
qed

lemma search_1_built:
  assumes b: "built g g' rv [grp]" and "\<forall>r \<in> set grp. input_rule r"
  shows "\<exists>sr. search_result_1 keys (map (\<lambda>grp. map (rearr_key grp) keys) [grp]) rv g' =
      Inr (delete_tries (rv_tries rv) g', sr) \<and>
    (all_answer rv [grp] \<longrightarrow> sr_match sr = of_nat (length (filter (matched [grp]) keys)))"
proof (cases "all_answer rv [grp]")
  case True
  from search_result_1_run [OF b True assms(2)] show ?thesis by (simp add: Search_result0_def)
next
  case False
  let ?tabs = "map (\<lambda>grp. map (rearr_key grp) keys) [grp]"
  have "\<exists>n. rfold (\<lambda>i n. rbind (search_in ?tabs rv i 0) (\<lambda>p. Inr (if p > 0 then n + 1 else n)))
              [0..<length keys] (0 :: u64) = Inr n"
  proof (rule rfold_total)
    fix i and n :: u64 assume "i \<in> set [0..<length keys]"
    then have "i < length keys" by simp
    with search_in_total [OF b, of 0 i keys]
    show "\<exists>n'. rbind (search_in ?tabs rv i 0) (\<lambda>p. Inr (if p > 0 then n + 1 else n)) = Inr n'" by auto
  qed
  moreover obtain T where "rv_tries rv = [T]" using b by (auto simp: built_def length_Suc_conv)
  ultimately show ?thesis using False by (auto simp: search_result_1_def vec_at_def delete_tries_def)
qed

lemma kmeans_run_one:
  assumes "\<forall>r \<in> set data. input_rule r"
  shows "\<exists>g' mm. kmeans_build_one_trie 1 [data] g = Inr (g', mm) \<and> length (rv_tries mm) = 1 \<and>
    (\<forall>T \<in> set (rv_tries mm). trie_ok T) \<and> debug g' - total_nodes (rv_tries mm) = debug g \<and>
    threshold g' = threshold g \<and> blowup g' = blowup g \<and> (exceed_flag mm \<noteq> 0 \<longrightarrow> data \<noteq> []) \<and>
    (exceed_flag mm = 0 \<longrightarrow> built g g' mm [data] \<and> (\<not> blowup g' \<and> enough g [data] \<longrightarrow> all_answer mm [data]))"
proof -
  have "\<forall>grp \<in> set [data]. \<forall>r \<in> set grp. input_rule r" "1 \<le> length [data]" using assms by simp_all
  from build_fresh [OF this, of True g] obtain ex g' res where
    run: "build_loop True [data] [0..<1] (fst (new_tries 1 g)) (Return_vec0\<lparr>rv_tries := snd (new_tries 1 g)\<rparr>) =
        Inr (ex, g', res)" and
    1: "length (rv_tries res) = 1" "\<forall>T \<in> set (rv_tries res). trie_ok T" "threshold g' = threshold g"
      "debug g' - total_nodes (rv_tries res) = debug g" "blowup g' = blowup g"
      "ex = None \<longrightarrow> rv_delta res = map (\<lambda>i. trans_delta ([data] ! i)) [0..<1]"
      "ex = None \<and> \<not> blowup g' \<and> enough g [data] \<longrightarrow> (\<forall>i<1. answers (rv_tries res ! i) ([data] ! i))"
    by blast
  have flag: "exceed_flag res = 0"
    using build_loop_flag [OF run] by (simp add: Return_vec0_def)
  have one: "kmeans_build_one_trie 1 [data] g = Inr (g', if ex = None then res else res\<lparr>exceed_flag := 1\<rparr>)"
    using run by (simp add: kmeans_build_one_trie_def Let_def case_prod_beta del: new_tries.simps build_loop.simps)
  show ?thesis
  proof (cases ex)
    case None
    then have "built g g' res [data]" using 1 by (simp add: built_def)
    moreover have "\<not> blowup g' \<and> enough g [data] \<longrightarrow> all_answer res [data]"
      using 1(7) None by (simp add: all_answer_def)
    ultimately show ?thesis using one flag None 1 by auto
  next
    case (Some jk)
    obtain j k where jk: "jk = (j, k)" by (cases jk)
    have "data \<noteq> []" using build_loop_stops [OF run [unfolded Some jk]] by auto
    with one Some 1 show ?thesis by auto
  qed
qed

lemma kmeans_data_sub: "is_std_sort mySortFunction srt \<Longrightarrow> set (srt (remove_duplicate_rule rules)) \<subseteq> set rules"
  using std_sort_set [of mySortFunction srt] remove_duplicate_rule_facts(1) by simp

lemma kmeans_run_spec:
  assumes s: "is_std_sort mySortFunction srt" and r: "\<forall>r \<in> set rules. input_rule r"
  shows "\<exists>g' sr. kmeans_run srt rules keys g = Inr (g', sr) \<and> debug g' = debug g \<and>
    ((\<forall>r \<in> set rules. few_wildcards r) \<longrightarrow> blowup g' = blowup g) \<and>
    (\<not> blowup g' \<and> 1 + rule_budget * length rules \<le> unat (threshold g) \<longrightarrow>
       sr_match sr = of_nat (match_count rules keys))"
proof -
  define data where "data = srt (remove_duplicate_rule rules)"
  define ks where "ks = remove_duplicate keys"
  note data = kmeans_data [OF s r, folded data_def]
  have cnt: "length (filter (matched ba) ks) = match_count rules keys" if "set (concat ba) = set data" for ba
    unfolding ks_def by (rule match_count_filter) (unfold matched_def that, rule data(3))
  have bud: "enough g0 ba"
    if "1 + rule_budget * length rules \<le> unat (threshold g)" "threshold g0 = threshold g" "length (concat ba) = length data"
    for g0 ba
  proof -
    have "rule_budget * length data \<le> rule_budget * length rules" by (rule mult_le_mono2) (rule data(2))
    with that(1) have "1 + rule_budget * length data \<le> unat (threshold g)" by linarith
    then show ?thesis unfolding enough_def that(2,3) .
  qed
  obtain g1 mm where one: "kmeans_build_one_trie 1 [data] g = Inr (g1, mm)" "length (rv_tries mm) = 1"
    "\<forall>T \<in> set (rv_tries mm). trie_ok T" "debug g1 - total_nodes (rv_tries mm) = debug g"
    "threshold g1 = threshold g" "blowup g1 = blowup g" "exceed_flag mm \<noteq> 0 \<longrightarrow> data \<noteq> []" and
    ok: "exceed_flag mm = 0 \<longrightarrow> built g g1 mm [data] \<and> (\<not> blowup g1 \<and> enough g [data] \<longrightarrow> all_answer mm [data])"
    using kmeans_run_one [OF data(1)] by blast
  show ?thesis
  proof (cases "exceed_flag mm = 0")
    case True
    then have b: "built g g1 mm [data]" and a: "\<not> blowup g1 \<and> enough g [data] \<longrightarrow> all_answer mm [data]"
      using ok by blast+
    have tab: "generate_keyTable ks (length [data]) mm = Inr (map (\<lambda>grp. map (rearr_key grp) ks) [data])"
      by (rule generate_keyTable_run) (use b in \<open>simp add: built_def\<close>)
    obtain sr where sr: "search_result_1 ks (map (\<lambda>grp. map (rearr_key grp) ks) [data]) mm g1 =
        Inr (delete_tries (rv_tries mm) g1, sr)"
      "all_answer mm [data] \<longrightarrow> sr_match sr = of_nat (length (filter (matched [data]) ks))"
      using search_1_built [OF b data(1)] by blast
    have "kmeans_run srt rules keys g = Inr (delete_tries (rv_tries mm) g1, sr)"
      unfolding kmeans_run_def Let_def data_def [symmetric] ks_def [symmetric]
      by (simp only: one(1) rbind_simps prod.case True simp_thms if_True tab sr(1))
    moreover have "sr_match sr = of_nat (match_count rules keys)"
      if "\<not> blowup g1" "1 + rule_budget * length rules \<le> unat (threshold g)"
      using a sr(2) bud [OF that(2) refl, of "[data]"] cnt [of "[data]"] that(1) by simp
    ultimately show ?thesis using delete_built [OF b] one(6) by auto
  next
    case False
    then have ne: "data \<noteq> []" using one(7) by blast
    obtain T where T: "rv_tries mm = [T]" using one(2) by (auto simp: length_Suc_conv)
    define g2 where "g2 = g1\<lparr>debug := delete_trie (root T) (debug g1)\<rparr>"
    have g2: "debug g2 = debug g" "threshold g2 = threshold g" "blowup g2 = blowup g"
      using delete_tries_debug [OF one(3), of g1] one(4-6)
      by (simp_all add: g2_def T delete_tries_def total_nodes_def)
    obtain target where target: "assign_cluster_CC [] data (get_cmatrix data) = Inr target"
      "mset (concat target) = mset data"
      using assign_cluster_CC_partition [OF ne refl, of "[]"] by auto
    have set_t: "set (concat target) = set data" using target(2) by (rule mset_eq_setD)
    then have "\<forall>r \<in> set (concat target). input_rule r" using data(1) by simp
    from kmeans_build_tries_spec [OF this refl] obtain g3 res ba where
      build: "kmeans_build_tries (length target) target g2 = Inr (g3, res, ba)" "built g2 g3 res ba"
        "mset (concat ba) = mset (concat target)"
        "1 < length target \<or> (\<forall>r \<in> set (concat target). few_wildcards r) \<longrightarrow> blowup g3 = blowup g2" "\<not> blowup g3 \<and> enough g2 target \<longrightarrow> all_answer res ba" by blast
    have set_b: "set (concat ba) = set data" using mset_eq_setD [OF build(3)] set_t by simp
    have len: "length (concat target) = length data" using mset_eq_length [OF target(2)] .
    have lt: "length (rv_tries res) = length ba" using build(2) by (simp add: built_def)
    have tab: "generate_keyTable ks (length ba) res = Inr (map (\<lambda>grp. map (rearr_key grp) ks) ba)"
      by (rule generate_keyTable_run) (use build(2) in \<open>simp add: built_def\<close>)
    have "\<forall>r \<in> set (concat ba). input_rule r" using data(1) set_b by simp
    from search_2_built [OF build(2) this] obtain sr where
      sr: "search_result_2 ks (map (\<lambda>grp. map (rearr_key grp) ks) ba) (length ba) res g3 =
        Inr (delete_tries (rv_tries res) g3, sr)"
      "all_answer res ba \<longrightarrow> sr_match sr = of_nat (length (filter (matched ba) ks))" by blast
    have "vec_at (rv_tries mm) 0 = Inr T" by (simp add: vec_at_def T)
    then have "kmeans_run srt rules keys g = Inr (delete_tries (rv_tries res) g3, sr)"
      unfolding kmeans_run_def Let_def data_def [symmetric] ks_def [symmetric]
      by (simp only: one(1) rbind_simps prod.case False if_False target(1) g2_def [symmetric] build(1) lt tab sr(1))
    moreover have "sr_match sr = of_nat (match_count rules keys)"
      if "\<not> blowup g3" "1 + rule_budget * length rules \<le> unat (threshold g)"
      using build(5) sr(2) bud [OF that(2) g2(2), of target] len cnt [OF set_b] that(1) by simp
    moreover have "blowup g3 = blowup g" if "\<forall>r \<in> set rules. few_wildcards r"
      using build(4) g2(3) set_t that kmeans_data_sub [OF s] unfolding data_def by auto
    ultimately show ?thesis using delete_built [OF build(2)] g2 by auto
  qed
qed

section \<open>The program\<close>


lemma sort_exists: "is_std_sort mySortFunction (insertion_sort mySortFunction)"
proof -
  have "strict_weak mySortFunction"
    using strict_weak_key [of r_mask] by (simp add: mySortFunction_def [abs_def])
  then show ?thesis by (rule insertion_sort_is_std_sort)
qed

text \<open>An example: the two rules overlap in 7, and 13 is matched by the second only.\<close>

definition demo_rule :: Rule where
  "demo_rule = \<lparr>r_value = 4, r_mask = 3, r_priority = 1, r_action = 0\<rparr>"

definition demo_rule2 :: Rule where
  "demo_rule2 = \<lparr>r_value = 5, r_mask = 0xA, r_priority = 2, r_action = 0\<rparr>"

definition demo_globals :: globals where
  "demo_globals = \<lparr>debug = 0, threshold = 0x1000000, blowup = False, new_num1 = 0\<rparr>"

lemma demo_input: "\<forall>r \<in> set [demo_rule, demo_rule2]. input_rule r"
  by (simp add: demo_rule_def demo_rule2_def input_rule_def)

lemma demo_few: "\<forall>r \<in> set [demo_rule, demo_rule2]. few_wildcards r"
proof -
  have "length (mask_positions 3) = 2" "length (mask_positions 0xA) = 2" by code_simp+
  then show ?thesis by (simp add: few_wildcards_def demo_rule_def demo_rule2_def)
qed

lemma demo_run:
  "\<exists>g' sr. kmeans_run (insertion_sort mySortFunction) [demo_rule, demo_rule2] keys demo_globals = Inr (g', sr) \<and> \<not> blowup g'"
  using kmeans_run_spec [OF sort_exists demo_input, of keys demo_globals] demo_few by (auto simp: demo_globals_def)

lemma demo_keys: "{k \<in> set [5, 8, 13]. \<exists>r \<in> set [demo_rule, demo_rule2]. t_matches r k} = {5, 13}"
  by (auto simp: demo_rule_def demo_rule2_def t_matches_def rule_matches_def)


text \<open>C2: For admissible rules (none with 64 wildcards, no value bit under a wildcard, priorities set), a node budget of
  \<open>64 * 2 ^ 15\<close> nodes a rule beside the root, and tables within the range of the \<open>int\<close> counters and sums, a run that
  does not end in a blow-up reports as match count the number of distinct keys that some rule matches: clustering,
  rearrangement, expansion and splitting lose no rule and add none.\<close>

theorem kmeans_run_counts:
  assumes "is_std_sort mySortFunction srt" and "\<forall>r \<in> set rules. input_rule r"
    and "length rules < 2 ^ 25" and "length keys < 2 ^ 31"
    and "1 + rule_budget * length rules \<le> unat (threshold g)"
    and "kmeans_run srt rules keys g = Inr (g', sr)" and "\<not> blowup g'"
  shows "sr_match sr = of_nat (card {k \<in> set keys. \<exists>r \<in> set rules. t_matches r k})"
  using kmeans_run_spec [OF assms(1,2), of keys g] assms(5-7) by (simp add: match_count_def)

theorem kmeans_run_counts_witness:
  "\<exists>g' sr. kmeans_run (insertion_sort mySortFunction) [demo_rule, demo_rule2] [5, 8, 13] demo_globals = Inr (g', sr) \<and>
    sr_match sr = 2"
proof -
  obtain g' sr where run: "kmeans_run (insertion_sort mySortFunction) [demo_rule, demo_rule2] [5, 8, 13] demo_globals = Inr (g', sr)"
    and b: "\<not> blowup g'" using demo_run by blast
  have small: "length [demo_rule, demo_rule2] < 2 ^ 25" "length [5, 8, 13 :: u64] < 2 ^ 31" by simp_all
  have "1 + rule_budget * length [demo_rule, demo_rule2] \<le> unat (threshold demo_globals)"
    by (simp add: rule_budget_def demo_globals_def)
  from kmeans_run_counts [OF sort_exists demo_input small this run b] have "sr_match sr = 2"
    unfolding demo_keys by simp
  with run show ?thesis by blast
qed

section \<open>Both programs agree\<close>

text \<open>The rule of the linear table for a line, and the rule of the trie program for it.\<close>

lemma read_rules_agree:
  assumes "l_read_rules actions i ls = Inr lrules"
  shows "\<exists>rules. read_rules i ls = Inr rules \<and>
    list_all2 (\<lambda>l r. r_value r = l_value l \<and> r_mask r = l_mask l \<and> r_priority r \<noteq> 0) lrules rules"
  using assms
proof (induction ls arbitrary: i lrules)
  case Nil
  then show ?case by simp
next
  case (Cons l ls)
  show ?case
  proof (cases "l = []")
    case True
    with Cons show ?thesis by simp
  next
    case False
    with Cons.prems obtain r rs where r: "l_strTint l = Inr r" "l_read_rules actions (i + 1) ls = Inr rs"
      "lrules = r\<lparr>l_action := actions ! i, l_priority := of_nat (i + 1)\<rparr> # rs" and small: "int_succ i = Inr (i + 1)"
      by (auto simp: rbind_eq_Inr int_succ_eq_Inr split: if_splits)
    obtain q where q: "strTint l = Inr q" "r_value q = l_value r" "r_mask q = l_mask r"
      using r(1) by (auto simp: strTint_def l_strTint_def rbind_eq_Inr)
    obtain rules where rules: "read_rules (i + 1) ls = Inr rules"
      "list_all2 (\<lambda>l r. r_value r = l_value l \<and> r_mask r = l_mask l \<and> r_priority r \<noteq> 0) rs rules"
      using Cons.IH [OF r(2)] by blast
    have "unat (of_nat (i + 1) :: u32) = i + 1" using small by (intro unat_of_nat_small) (simp add: int_succ_eq_Inr)
    then have "(of_nat (i + 1) :: u32) \<noteq> 0" by (metis unat_0 add_is_0 one_neq_zero)
    with False q rules r(3) small show ?thesis by simp
  qed
qed

lemma matches_agree:
  assumes "list_all2 (\<lambda>l r. r_value r = l_value l \<and> r_mask r = l_mask l \<and> r_priority r \<noteq> 0) lrules rules"
  shows "(\<exists>r \<in> set rules. t_matches r k) \<longleftrightarrow> (\<exists>l \<in> set lrules. l_matches l k)"
  using assms by (induction rule: list_all2_induct) (simp_all add: t_matches_def l_matches_def)

text \<open>C1: On the same rule and key files the trie program reports the same number of matches as the linear one, when
  both read them without an error and the trie program does not end in a blow-up.  The conditions on the input: no rule
  is all wildcards or has a value bit under a wildcard, the budget has \<open>64 * 2 ^ 15\<close> nodes a line beside the root, and
  the files have fewer than \<open>2 ^ 25\<close> rule lines and \<open>2 ^ 31\<close> key lines, the range of the \<open>int\<close> sums and counters.\<close>

theorem programs_agree:
  assumes "is_std_sort mySortFunction srt"
    and "linear_main rule_lines key_lines action_lines = Inr (lmatch, attempt)"
    and "kmeans_main srt th rule_lines key_lines g = Inr (g', sr)" and "\<not> blowup g'"
    and "\<forall>rules. read_rules 0 rule_lines = Inr rules \<longrightarrow>
      (\<forall>r \<in> set rules. r_mask r \<noteq> -1 \<and> r_value r AND r_mask r = 0)"
    and "length rule_lines < 2 ^ 25" and "length key_lines < 2 ^ 31" and "stoull th = Inr w"
    and "1 + rule_budget * length rule_lines \<le> unat w"
  shows "sr_match sr = lmatch"
proof -
  obtain actions lrules keys where read: "l_read_rules actions 0 rule_lines = Inr lrules"
    "read_keys key_lines = Inr keys" and run: "linear_run lrules keys = (lmatch, attempt)"
    using assms(2) by (auto simp: linear_main_def rbind_eq_Inr)
  have "map l_prio lrules = [1..<1 + length lrules]" and short: "length lrules \<le> length rule_lines"
    using l_read_rules_prio [OF read(1)] by simp_all
  from read_rules_sorted [OF this(1)] have "lmatch = of_nat (card {k \<in> set keys. \<exists>l \<in> set lrules. l_matches l k})"
    using linear_run_counts [of lrules keys] run by simp
  moreover obtain rules where rules: "read_rules 0 rule_lines = Inr rules"
    "list_all2 (\<lambda>l r. r_value r = l_value l \<and> r_mask r = l_mask l \<and> r_priority r \<noteq> 0) lrules rules"
    using read_rules_agree [OF read(1)] by auto
  have "\<forall>r \<in> set rules. r_priority r \<noteq> 0"
    using rules(2) by (induction rule: list_all2_induct) simp_all
  then have ok: "\<forall>r \<in> set rules. input_rule r" using assms(5) rules(1) by (simp add: input_rule_def)
  have "length rules = length lrules" using list_all2_lengthD [OF rules(2)] by simp
  then have "rule_budget * length rules \<le> rule_budget * length rule_lines"
    using short by (intro mult_le_mono2) simp
  then have bud: "1 + rule_budget * length rules \<le> unat w" using assms(9) by linarith
  have "kmeans_run srt rules keys (g\<lparr>threshold := w\<rparr>) = Inr (g', sr)"
    using assms(3,8) rules(1) read(2) by (simp add: kmeans_main_def)
  with kmeans_run_spec [OF assms(1) ok, of keys "g\<lparr>threshold := w\<rparr>"] bud assms(4)
  have "sr_match sr = of_nat (card {k \<in> set keys. \<exists>r \<in> set rules. t_matches r k})"
    by (simp add: match_count_def)
  ultimately show ?thesis unfolding matches_agree [OF rules(2)] by simp
qed

theorem programs_agree_witness:
  "\<exists>g' sr. kmeans_main (insertion_sort mySortFunction) ''16777216'' [''4 3'', ''5 10''] [''5'', ''8'', ''13''] demo_globals =
     Inr (g', sr) \<and> sr_match sr = 2"
proof -
  have lin: "linear_main [''4 3'', ''5 10''] [''5'', ''8'', ''13''] [''9'', ''9''] = Inr (2, 5)"
    by (simp add: linear_main_def read_actions_def read_keys_def parse_simps int_succ_def linear_run_def
        l_remove_duplicate_rule_def remove_duplicate_def linear_insert_rule_def linear_search_rule_def
        linearTable0_def LRule0_def normalise_def rule_hit_def same_rule_def l_result0_def Let_def)
  have rd: "read_rules 0 [''4 3'', ''5 10''] = Inr [demo_rule, demo_rule2]"
    by (simp add: strTint_def parse_simps int_succ_def demo_rule_def demo_rule2_def Rule0_def)
  have keys: "read_keys [''5'', ''8'', ''13''] = Inr [5, 8, 13]" by (simp add: read_keys_def parse_simps)
  have th: "stoull ''16777216'' = Inr 16777216" by (simp add: parse_simps)
  obtain g' sr where "kmeans_run (insertion_sort mySortFunction) [demo_rule, demo_rule2] [5, 8, 13]
      (demo_globals\<lparr>threshold := 16777216\<rparr>) = Inr (g', sr)" and b: "\<not> blowup g'"
    using demo_run [of "[5, 8, 13]"] by (auto simp: demo_globals_def)
  then have run: "kmeans_main (insertion_sort mySortFunction) ''16777216'' [''4 3'', ''5 10''] [''5'', ''8'', ''13''] demo_globals =
      Inr (g', sr)" by (simp add: kmeans_main_def rd keys th del: read_rules.simps)
  have adm: "\<forall>rules. read_rules 0 [''4 3'', ''5 10''] = Inr rules \<longrightarrow>
      (\<forall>r \<in> set rules. r_mask r \<noteq> -1 \<and> r_value r AND r_mask r = 0)"
    unfolding rd by (simp add: demo_rule_def demo_rule2_def)
  have "sr_match sr = 2"
    by (rule programs_agree [OF sort_exists lin run b adm _ _ th]) (simp_all add: rule_budget_def)
  with run show ?thesis by blast
qed

end
