(* ===== verification/Bit_Intrinsics.thy ===== *)
theory Bit_Intrinsics
  imports Cxx_Prelude
begin

text \<open>
  The bit counting and bit moving instructions the code calls as compiler intrinsics
  (\<open>_mm_popcnt\<close>, \<open>_tzcnt\<close>, \<open>_lzcnt\<close>, \<open>_blsr\<close>, \<open>_pext\<close>, \<open>_pdep\<close>, \<open>__builtin_bswap64\<close>,
  \<open>__builtin_ffs\<close>), each with the bits of its result, and the little-endian view of eight bytes
  of memory as one word.  Everything is read off the ascending list of the set bits of a word.
\<close>

unbundle bit_operations_syntax

section \<open>Words from their bits\<close>

definition of_bits :: "bool list \<Rightarrow> 'a::len word" where
  "of_bits bs = horner_sum of_bool 2 bs"

named_theorems word_bits "the bits of the results of the instructions"

lemma bit_of_bits [word_bits]:
  "bit (of_bits bs :: 'a::len word) n \<longleftrightarrow> n < LENGTH('a) \<and> n < length bs \<and> bs ! n"
  by (simp add: of_bits_def bit_horner_sum_bit_iff)

section \<open>The set bits of a word, in ascending order\<close>

definition ones :: "'a::len word \<Rightarrow> nat list" where
  "ones m = filter (bit m) [0..<LENGTH('a)]"

definition rank :: "'a::len word \<Rightarrow> nat \<Rightarrow> nat" where
  "rank m i = length (filter (bit m) [0..<i])"

lemma set_ones [simp]: "set (ones m) = {i. bit m i}"
  by (auto simp: ones_def dest: bit_imp_le_length)

lemma sorted_ones [simp]: "sorted (ones m)"
  by (simp add: ones_def sorted_wrt_filter)

lemma distinct_ones [simp]: "distinct (ones m)"
  by (simp add: ones_def)

lemma ones_eq_Nil [simp]: "ones m = [] \<longleftrightarrow> m = 0"
proof -
  have "ones m = [] \<longleftrightarrow> set (ones m) = {}" by (simp only: set_empty)
  also have "\<dots> \<longleftrightarrow> m = 0" unfolding set_ones by (auto intro: bit_word_eqI)
  finally show ?thesis .
qed

lemma ones_0 [simp]: "ones 0 = []"
  by simp

lemma ones_bound: "i \<in> set (ones (m :: 'a::len word)) \<Longrightarrow> i < LENGTH('a)"
  by (auto dest: bit_imp_le_length)

lemma ones_split:
  fixes m :: "'a::len word"
  assumes "i < LENGTH('a)" and "bit m i"
  shows "ones m = filter (bit m) [0..<i] @ i # filter (bit m) [Suc i..<LENGTH('a)]"
proof -
  have "[0..<LENGTH('a)] = [0..<i] @ [i..<LENGTH('a)]"
    using upt_add_eq_append [of 0 i "LENGTH('a) - i"] assms(1) by simp
  moreover have "[i..<LENGTH('a)] = i # [Suc i..<LENGTH('a)]"
    using assms(1) by (simp add: upt_conv_Cons)
  ultimately show ?thesis using assms(2) by (simp add: ones_def)
qed

lemma nth_ones_rank:
  fixes m :: "'a::len word"
  assumes "bit m i"
  shows "rank m i < length (ones m)" "ones m ! rank m i = i"
proof -
  have "i < LENGTH('a)" using assms by (rule bit_imp_le_length)
  note sp = ones_split [OF this assms]
  show "rank m i < length (ones m)" "ones m ! rank m i = i"
    by (simp_all add: sp rank_def nth_append)
qed

lemma rank_nth_ones:
  assumes "j < length (ones m)"
  shows "rank m (ones m ! j) = j"
proof -
  let ?i = "ones m ! j"
  have "bit m ?i" using nth_mem [OF assms] by simp
  from nth_ones_rank [OF this] assms show ?thesis
    using nth_eq_iff_index_eq [OF distinct_ones] by blast
qed

lemma bits_rank_mono: "i \<le> j \<Longrightarrow> rank m i \<le> rank m j"
proof -
  assume "i \<le> j"
  then have "[0..<j] = [0..<i] @ [i..<j]"
    using upt_add_eq_append [of 0 i "j - i"] by simp
  then show ?thesis by (simp add: rank_def)
qed

lemma rank_Suc: "rank m (Suc i) = rank m i + of_bool (bit m i)"
  by (simp add: rank_def)

lemma rank_less:
  assumes "bit m i" and "i < j" shows "rank m i < rank m j"
  using bits_rank_mono [of "Suc i" j m] assms by (simp add: rank_Suc)

section \<open>Counting\<close>

definition popcnt :: "'a::len word \<Rightarrow> nat" where
  "popcnt m = length (ones m)"

definition tzcnt :: "'a::len word \<Rightarrow> nat" where
  "tzcnt m = (case ones m of [] \<Rightarrow> LENGTH('a) | i # _ \<Rightarrow> i)"

definition lzcnt :: "'a::len word \<Rightarrow> nat" where
  "lzcnt m = (case rev (ones m) of [] \<Rightarrow> LENGTH('a) | i # _ \<Rightarrow> LENGTH('a) - 1 - i)"

definition blsr :: "'a::len word \<Rightarrow> 'a word" where
  "blsr m = m AND (m - 1)"

text \<open>\<open>ffs\<close> is one more than the index of the lowest set bit, and 0 of 0.\<close>

definition ffs :: "'a::len word \<Rightarrow> nat" where
  "ffs m = (case ones m of [] \<Rightarrow> 0 | i # _ \<Rightarrow> Suc i)"

text \<open>
  The result of \<open>__builtin_ctz\<close>, \<open>__builtin_clz\<close> and of the instruction \<open>bsr\<close> is undefined for
  0: it is the argument \<open>undef\<close> of the model, and what holds for every \<open>undef\<close> does not depend on it.
\<close>

definition builtin_ctz :: "nat \<Rightarrow> 'a::len word \<Rightarrow> nat" where
  "builtin_ctz undef m = (if m = 0 then undef else tzcnt m)"

definition builtin_clz :: "nat \<Rightarrow> 'a::len word \<Rightarrow> nat" where
  "builtin_clz undef m = (if m = 0 then undef else lzcnt m)"

definition bsr :: "nat \<Rightarrow> 'a::len word \<Rightarrow> nat" where
  "bsr undef m = (if m = 0 then undef else LENGTH('a) - 1 - lzcnt m)"

lemma popcnt_card: "popcnt m = card {i. bit m i}"
  by (simp add: popcnt_def ones_def length_filter_upt_bits)

lemma popcnt_le: "popcnt (m :: 'a::len word) \<le> LENGTH('a)"
  by (simp add: popcnt_def ones_def) (metis diff_zero length_filter_le length_upt)

lemma ones_Cons_tzcnt:
  assumes "m \<noteq> 0" shows "ones m = tzcnt m # tl (ones m)"
  using assms by (cases "ones m") (auto simp: tzcnt_def simp flip: ones_eq_Nil)

lemma tzcnt_bit:
  assumes "m \<noteq> 0"
  shows "bit m (tzcnt m)" "\<And>i. bit m i \<Longrightarrow> tzcnt m \<le> i"
proof -
  note c = ones_Cons_tzcnt [OF assms]
  have "tzcnt m \<in> set (ones m)" by (subst c) simp
  then show "bit m (tzcnt m)" by simp
  fix i assume "bit m i"
  then have "i \<in> set (ones m)" by simp
  moreover have "sorted (tzcnt m # tl (ones m))" using sorted_ones [of m] c by metis
  ultimately show "tzcnt m \<le> i" using c by (metis order_refl set_ConsD sorted_simps(2))
qed

lemma tzcnt_eqI:
  assumes "bit m i" and "\<And>j. j < i \<Longrightarrow> \<not> bit m j"
  shows "tzcnt m = i"
proof -
  have "m \<noteq> 0" using assms(1) by auto
  from tzcnt_bit [OF this] assms show ?thesis by (metis le_neq_implies_less)
qed

lemma tzcnt_less: "(m :: 'a::len word) \<noteq> 0 \<Longrightarrow> tzcnt m < LENGTH('a)"
  using tzcnt_bit(1) bit_imp_le_length by blast

lemma lzcnt_eqI:
  fixes m :: "'a::len word"
  assumes "bit m i" and "\<And>j. i < j \<Longrightarrow> \<not> bit m j"
  shows "lzcnt m = LENGTH('a) - 1 - i"
proof -
  have i: "i < LENGTH('a)" using assms(1) by (rule bit_imp_le_length)
  have "filter (bit m) [Suc i..<LENGTH('a)] = []" using assms(2) by (auto simp: filter_empty_conv)
  with ones_split [OF i assms(1)] show ?thesis by (simp add: lzcnt_def)
qed

lemma lzcnt_bit:
  fixes m :: "'a::len word"
  assumes "m \<noteq> 0"
  obtains i where "bit m i" "\<And>j. i < j \<Longrightarrow> \<not> bit m j" "lzcnt m = LENGTH('a) - 1 - i" "i < LENGTH('a)"
proof -
  have fin: "finite {i. bit m i}" using set_ones [of m] by (metis List.finite_set)
  have ne: "{i. bit m i} \<noteq> {}" using tzcnt_bit(1) [OF assms] by blast
  let ?i = "Max {i. bit m i}"
  have b: "bit m ?i" using Max_in [OF fin ne] by simp
  have u: "\<not> bit m j" if "?i < j" for j
  proof
    assume "bit m j"
    then have "j \<in> {i. bit m i}" by simp
    from Max_ge [OF fin this] that show False by simp
  qed
  show thesis
    by (rule that [OF b u lzcnt_eqI [OF b u] bit_imp_le_length [OF b]])
qed

lemma bit_blsr:
  fixes m :: "'a::len word"
  assumes "m \<noteq> 0"
  shows "bit (blsr m) i \<longleftrightarrow> bit m i \<and> i \<noteq> tzcnt m"
proof -
  let ?t = "tzcnt m"
  note t = tzcnt_bit [OF assms]
  have tl: "?t < LENGTH('a)" by (rule tzcnt_less [OF assms])
  define u where "u = m AND NOT (push_bit ?t 1)"
  have bu: "bit u j \<longleftrightarrow> bit m j \<and> j \<noteq> ?t" for j
    using tl by (auto simp: u_def bit_simps dest: bit_imp_le_length)
  have "m = u OR push_bit ?t 1"
    using t(1) by (intro bit_word_eqI) (auto simp: bu bit_or_iff bit_single bit_power_two)
  also have "\<dots> = u + push_bit ?t 1"
    by (rule disjunctive_add_eq_or [symmetric], rule bit_word_eqI) (auto simp: bu bit_and_iff bit_single bit_power_two)
  finally have "m - 1 = u + mask ?t" by (simp add: mask_eq_exp_minus_1 push_bit_of_1)
  also have "\<dots> = u OR mask ?t"
    by (rule disjunctive_add_eq_or, rule bit_word_eqI)
       (use t(2) in \<open>force simp: bu bit_and_iff bit_mask_iff\<close>)
  finally show ?thesis
    using t(2) by (auto simp: blsr_def bit_and_iff bit_or_iff bit_mask_iff bu dest: leD)
qed

lemma ones_blsr:
  assumes "m \<noteq> 0" shows "ones (blsr m) = tl (ones m)"
proof (rule sorted_distinct_set_unique)
  show "sorted (ones (blsr m))" "distinct (ones (blsr m))" by simp_all
  show "sorted (tl (ones m))" "distinct (tl (ones m))"
    by (simp_all add: sorted_tl distinct_tl)
  have "set (tl (ones m)) = set (ones m) - {tzcnt m}"
    using ones_Cons_tzcnt [OF assms] distinct_ones [of m]
    by (metis Diff_insert_absorb distinct.simps(2) list.simps(15))
  then show "set (ones (blsr m)) = set (tl (ones m))" using assms by (auto simp: bit_blsr)
qed

section \<open>Extract and deposit\<close>

definition pext :: "'a::len word \<Rightarrow> 'a word \<Rightarrow> 'a word" where
  "pext v m = of_bits (map (bit v) (ones m))"

definition pdep :: "'a::len word \<Rightarrow> 'a word \<Rightarrow> 'a word" where
  "pdep v m = of_bits (map (\<lambda>i. bit m i \<and> bit v (rank m i)) [0..<LENGTH('a)])"

lemma bit_pext [word_bits]:
  "bit (pext v m) j \<longleftrightarrow> j < popcnt m \<and> bit v (ones m ! j)"
  using popcnt_le [of m] by (auto simp: pext_def bit_of_bits popcnt_def)

lemma bit_pdep [word_bits]:
  fixes m :: "'a::len word"
  shows "bit (pdep v m) i \<longleftrightarrow> bit m i \<and> bit v (rank m i)"
proof (cases "i < LENGTH('a)")
  case True
  then show ?thesis by (simp add: pdep_def bit_of_bits)
next
  case False
  then show ?thesis by (auto simp: pdep_def bit_of_bits dest: bit_imp_le_length)
qed

lemma pdep_pext: "pdep (pext v m) m = v AND m"
  by (rule bit_word_eqI) (auto simp: word_bits bit_and_iff popcnt_def nth_ones_rank)

lemma pext_pdep: "pext (pdep v m) m = v AND mask (popcnt m)"
proof (rule bit_word_eqI)
  fix n assume "n < LENGTH('a)"
  show "bit (pext (pdep v m) m) n \<longleftrightarrow> bit (v AND mask (popcnt m)) n"
  proof (cases "n < popcnt m")
    case True
    then have "bit m (ones m ! n)" using nth_mem [of n "ones m"] by (simp add: popcnt_def)
    with True \<open>n < LENGTH('a)\<close> show ?thesis
      by (simp add: word_bits bit_and_iff bit_mask_iff rank_nth_ones popcnt_def)
  next
    case False
    then show ?thesis by (simp add: word_bits bit_and_iff bit_mask_iff)
  qed
qed

lemma pext_eq_iff: "pext v m = pext w m \<longleftrightarrow> v AND m = w AND m"
proof
  assume "pext v m = pext w m"
  then show "v AND m = w AND m" by (metis pdep_pext)
next
  assume *: "v AND m = w AND m"
  show "pext v m = pext w m"
  proof (rule bit_word_eqI)
    fix n
    have "bit m (ones m ! n) \<longrightarrow> bit v (ones m ! n) = bit w (ones m ! n)"
      using arg_cong [OF *, of "\<lambda>x. bit x (ones m ! n)"] by (auto simp: bit_and_iff)
    moreover have "n < popcnt m \<Longrightarrow> bit m (ones m ! n)"
      using nth_mem [of n "ones m"] by (simp add: popcnt_def)
    ultimately show "bit (pext v m) n \<longleftrightarrow> bit (pext w m) n" by (auto simp: word_bits)
  qed
qed

lemma pext_0 [simp]: "pext 0 m = 0" "pext v 0 = 0"
  by (simp_all add: bit_eq_iff word_bits popcnt_def)

lemma pext_self:
  fixes m :: "'a::len word"
  shows "pext m m = mask (popcnt m)"
proof (rule bit_word_eqI)
  fix n assume "n < LENGTH('a)"
  have "n < popcnt m \<Longrightarrow> bit m (ones m ! n)" using nth_mem [of n "ones m"] by (simp add: popcnt_def)
  with \<open>n < LENGTH('a)\<close> show "bit (pext m m) n \<longleftrightarrow> bit (mask (popcnt m) :: 'a word) n"
    by (auto simp: word_bits bit_mask_iff)
qed

lemma pext_and: "pext (v AND w) m = pext v m AND pext w m"
  by (rule bit_word_eqI) (auto simp: word_bits bit_and_iff)

section \<open>Byte lanes\<close>

text \<open>
  A SIMD register is the list of its lanes, lowest first: a comparison fills a lane with ones
  where the lanes are equal, and the mask of a register of byte lanes collects their top bits.
\<close>

definition cmpeq :: "'a::len word list \<Rightarrow> 'a word list \<Rightarrow> 'a word list" where
  "cmpeq xs ys = map2 (\<lambda>x y. if x = y then - 1 else 0) xs ys"

definition and_lanes :: "'a::len word list \<Rightarrow> 'a word list \<Rightarrow> 'a word list" where
  "and_lanes xs ys = map2 (AND) xs ys"

definition movemask8 :: "u8 list \<Rightarrow> u32" where
  "movemask8 xs = of_bits (map (\<lambda>x. bit x 7) xs)"

lemma length_lanes [simp]:
  "length (cmpeq xs ys) = min (length xs) (length ys)"
  "length (and_lanes xs ys) = min (length xs) (length ys)"
  by (simp_all add: cmpeq_def and_lanes_def)

lemma nth_cmpeq [simp]:
  "i < length xs \<Longrightarrow> i < length ys \<Longrightarrow> cmpeq xs ys ! i = (if xs ! i = ys ! i then - 1 else 0)"
  by (simp add: cmpeq_def)

lemma nth_and_lanes [simp]:
  "i < length xs \<Longrightarrow> i < length ys \<Longrightarrow> and_lanes xs ys ! i = xs ! i AND ys ! i"
  by (simp add: and_lanes_def)

lemma bit_movemask8 [word_bits]:
  "bit (movemask8 xs) i \<longleftrightarrow> i < 32 \<and> i < length xs \<and> bit (xs ! i) 7"
  by (auto simp: movemask8_def bit_of_bits)

section \<open>Bytes in memory\<close>

lemma byte_index [simp]:
  "j < 8 \<Longrightarrow> (8 * k + j) div 8 = k" "j < 8 \<Longrightarrow> (8 * k + j) mod 8 = (j :: nat)"
  by simp_all

definition bswap64 :: "u64 \<Rightarrow> u64" where
  "bswap64 x = of_bits (map (\<lambda>i. bit x (8 * (7 - i div 8) + i mod 8)) [0..<64])"

lemma bit_bswap64 [word_bits]:
  "bit (bswap64 x) i \<longleftrightarrow> i < 64 \<and> bit x (8 * (7 - i div 8) + i mod 8)"
  by (auto simp: bswap64_def bit_of_bits)

lemma bswap64_bswap64 [simp]: "bswap64 (bswap64 x) = x"
proof (rule bit_word_eqI)
  fix i assume "i < LENGTH(64)"
  then have k: "i div 8 \<le> 7" by simp
  have "8 * (7 - i div 8) + i mod 8 < 64" "7 - (7 - i div 8) = i div 8"
    using k mod_less_divisor [of 8 i] by linarith+
  with \<open>i < LENGTH(64)\<close> show "bit (bswap64 (bswap64 x)) i \<longleftrightarrow> bit x i"
    by (simp add: word_bits)
qed

text \<open>The eight bytes of a word, lowest address first, and the word at an offset in a buffer.\<close>

definition bytes64 :: "u64 \<Rightarrow> u8 list" where
  "bytes64 x = map (\<lambda>k. of_bits (map (\<lambda>j. bit x (8 * k + j)) [0..<8])) [0..<8]"

definition load64 :: "u8 list \<Rightarrow> nat \<Rightarrow> u64 cxx" where
  "load64 bs off =
     (if off + 8 \<le> length bs
      then Inr (of_bits (map (\<lambda>i. bit (bs ! (off + i div 8)) (i mod 8)) [0..<64]))
      else Inl UB_Index)"

lemma length_bytes64 [simp]: "length (bytes64 x) = 8"
  by (simp add: bytes64_def)

lemma bit_nth_bytes64 [word_bits]:
  "k < 8 \<Longrightarrow> bit (bytes64 x ! k) j \<longleftrightarrow> j < 8 \<and> bit x (8 * k + j)"
  by (auto simp: bytes64_def bit_of_bits)

lemma load64_Inr:
  "load64 bs off = Inr w \<longleftrightarrow>
     off + 8 \<le> length bs \<and> (\<forall>i < 64. bit w i = bit (bs ! (off + i div 8)) (i mod 8))"
  by (auto simp: load64_def bit_of_bits word_eq_iff_bits)

lemma load64_bytes64: "load64 (bytes64 x) 0 = Inr x"
  by (auto simp: load64_Inr word_bits)

end
