(* ===== verification/Hot_Algorithms.thy ===== *)
theory Hot_Algorithms
  imports Bit_Intrinsics
begin

text \<open>
  The bit helpers of \<open>src/hot/commons/include/hot/commons/Algorithms.hpp\<close>.  A raw key is a
  list of bytes, and the key bit of absolute index \<open>k\<close> is the bit \<open>7 - k mod 8\<close> of its byte
  \<open>k div 8\<close>: keys are read from the most significant bit of the first byte on.
\<close>

unbundle bit_operations_syntax

section \<open>Reversing the bits of each byte\<close>

definition reverse_table :: "u8 list" where
  "reverse_table = [
   0x00, 0x80, 0x40, 0xc0, 0x20, 0xa0, 0x60, 0xe0,
   0x10, 0x90, 0x50, 0xd0, 0x30, 0xb0, 0x70, 0xf0,
   0x08, 0x88, 0x48, 0xc8, 0x28, 0xa8, 0x68, 0xe8,
   0x18, 0x98, 0x58, 0xd8, 0x38, 0xb8, 0x78, 0xf8,
   0x04, 0x84, 0x44, 0xc4, 0x24, 0xa4, 0x64, 0xe4,
   0x14, 0x94, 0x54, 0xd4, 0x34, 0xb4, 0x74, 0xf4,
   0x0c, 0x8c, 0x4c, 0xcc, 0x2c, 0xac, 0x6c, 0xec,
   0x1c, 0x9c, 0x5c, 0xdc, 0x3c, 0xbc, 0x7c, 0xfc,
   0x02, 0x82, 0x42, 0xc2, 0x22, 0xa2, 0x62, 0xe2,
   0x12, 0x92, 0x52, 0xd2, 0x32, 0xb2, 0x72, 0xf2,
   0x0a, 0x8a, 0x4a, 0xca, 0x2a, 0xaa, 0x6a, 0xea,
   0x1a, 0x9a, 0x5a, 0xda, 0x3a, 0xba, 0x7a, 0xfa,
   0x06, 0x86, 0x46, 0xc6, 0x26, 0xa6, 0x66, 0xe6,
   0x16, 0x96, 0x56, 0xd6, 0x36, 0xb6, 0x76, 0xf6,
   0x0e, 0x8e, 0x4e, 0xce, 0x2e, 0xae, 0x6e, 0xee,
   0x1e, 0x9e, 0x5e, 0xde, 0x3e, 0xbe, 0x7e, 0xfe,
   0x01, 0x81, 0x41, 0xc1, 0x21, 0xa1, 0x61, 0xe1,
   0x11, 0x91, 0x51, 0xd1, 0x31, 0xb1, 0x71, 0xf1,
   0x09, 0x89, 0x49, 0xc9, 0x29, 0xa9, 0x69, 0xe9,
   0x19, 0x99, 0x59, 0xd9, 0x39, 0xb9, 0x79, 0xf9,
   0x05, 0x85, 0x45, 0xc5, 0x25, 0xa5, 0x65, 0xe5,
   0x15, 0x95, 0x55, 0xd5, 0x35, 0xb5, 0x75, 0xf5,
   0x0d, 0x8d, 0x4d, 0xcd, 0x2d, 0xad, 0x6d, 0xed,
   0x1d, 0x9d, 0x5d, 0xdd, 0x3d, 0xbd, 0x7d, 0xfd,
   0x03, 0x83, 0x43, 0xc3, 0x23, 0xa3, 0x63, 0xe3,
   0x13, 0x93, 0x53, 0xd3, 0x33, 0xb3, 0x73, 0xf3,
   0x0b, 0x8b, 0x4b, 0xcb, 0x2b, 0xab, 0x6b, 0xeb,
   0x1b, 0x9b, 0x5b, 0xdb, 0x3b, 0xbb, 0x7b, 0xfb,
   0x07, 0x87, 0x47, 0xc7, 0x27, 0xa7, 0x67, 0xe7,
   0x17, 0x97, 0x57, 0xd7, 0x37, 0xb7, 0x77, 0xf7,
   0x0f, 0x8f, 0x4f, 0xcf, 0x2f, 0xaf, 0x6f, 0xef,
   0x1f, 0x9f, 0x5f, 0xdf, 0x3f, 0xbf, 0x7f, 0xff]"

text \<open>The index is an unsigned char, and the table has 256 entries.\<close>

definition reverse_byte :: "u8 \<Rightarrow> u8" where
  "reverse_byte x = reverse_table ! unat x"

definition serialise_64bit :: "u64 \<Rightarrow> u8 list" where
  "serialise_64bit n =
     [ucast (drop_bit 56 n AND 0xff), ucast (drop_bit 48 n AND 0xff),
      ucast (drop_bit 40 n AND 0xff), ucast (drop_bit 32 n AND 0xff),
      ucast (drop_bit 24 n AND 0xff), ucast (drop_bit 16 n AND 0xff),
      ucast (drop_bit 8 n AND 0xff), ucast (drop_bit 0 n AND 0xff)]"

definition getReverseBitForBytes :: "u64 \<Rightarrow> u64" where
  "getReverseBitForBytes original =
     (let dest = serialise_64bit original;
          cc = map reverse_byte dest
      in fold (\<lambda>i rst. rst OR push_bit (8 * (7 - i)) (ucast (cc ! i))) [0..<8] 0)"

lemma reverse_table_bits:
  "reverse_table = map (\<lambda>n. of_bits (map (bit (of_nat n :: u8)) [7, 6, 5, 4, 3, 2, 1, 0])) [0..<256]"
  by code_simp

lemma bit_reverse_byte [word_bits]: "bit (reverse_byte x) j \<longleftrightarrow> j < 8 \<and> bit x (7 - j)"
proof -
  have x: "of_nat (unat x) = x" by simp
  have u: "unat x < 256" using unsigned_less [of x, where 'a = nat] by simp
  have l: "[7, 6, 5, 4, 3, 2, 1, 0] = map (\<lambda>k. 7 - k) [0..<8 :: nat]"
    by (simp add: upt_rec)
  have "reverse_byte x = of_bits (map (\<lambda>k. bit x (7 - k)) [0..<8])"
    unfolding reverse_byte_def reverse_table_bits l using u by (simp add: comp_def del: upt_rec_numeral)
  then show ?thesis by (auto simp: bit_of_bits)
qed

lemma serialise_64bit_nth:
  assumes "k < 8"
  shows "serialise_64bit n ! k = ucast (drop_bit (8 * (7 - k)) n AND 0xff)"
proof -
  from assms have "k \<in> {0, 1, 2, 3, 4, 5, 6, 7}" by auto
  then show ?thesis by (elim insertE) (simp_all add: serialise_64bit_def)
qed

lemma length_serialise_64bit [simp]: "length (serialise_64bit n) = 8"
  by (simp add: serialise_64bit_def)

lemma and_ff: "(w :: u64) AND 0xff = take_bit 8 w"
  using take_bit_eq_mask [of 8 w] by (simp add: mask_eq_exp_minus_1)

lemma bit_serialise_64bit [word_bits]:
  assumes "k < 8"
  shows "bit (serialise_64bit n ! k) j \<longleftrightarrow> j < 8 \<and> bit n (8 * (7 - k) + j)"
  by (auto simp: serialise_64bit_nth [OF assms] and_ff bit_simps)

lemma serialise_64bit_bswap: "serialise_64bit n = bytes64 (bswap64 n)"
proof (rule nth_equalityI)
  fix k assume "k < length (serialise_64bit n)"
  then have k: "k < 8" by simp
  show "serialise_64bit n ! k = bytes64 (bswap64 n) ! k"
    by (rule bit_word_eqI) (use k in \<open>simp add: word_bits\<close>)
qed simp

lemma bit_fold_or:
  fixes f :: "'b \<Rightarrow> 'a::len word"
  shows "bit (fold (\<lambda>i r. r OR f i) xs r) n \<longleftrightarrow> bit r n \<or> (\<exists>i \<in> set xs. bit (f i) n)"
  by (induction xs arbitrary: r) (auto simp: bit_or_iff)

lemma bit_getReverseBitForBytes [word_bits]:
  "bit (getReverseBitForBytes x) n \<longleftrightarrow> n < 64 \<and> bit x (8 * (n div 8) + (7 - n mod 8))"
proof -
  have byte: "bit (push_bit (8 * (7 - i)) (ucast (map reverse_byte (serialise_64bit x) ! i)) :: u64) n
      \<longleftrightarrow> n < 64 \<and> n div 8 = 7 - i \<and> bit x (8 * (n div 8) + (7 - n mod 8))" (is "?l = ?r")
    if i: "i < 8" for i
  proof -
    have "?l \<longleftrightarrow> n < 64 \<and> 8 * (7 - i) \<le> n \<and> n - 8 * (7 - i) < 8 \<and>
        bit x (8 * (7 - i) + (7 - (n - 8 * (7 - i))))"
      using i by (auto simp: bit_simps word_bits)
    moreover have "8 * (7 - i) \<le> n \<and> n - 8 * (7 - i) < 8 \<longleftrightarrow> n div 8 = 7 - i"
    proof
      assume "n div 8 = 7 - i"
      then show "8 * (7 - i) \<le> n \<and> n - 8 * (7 - i) < 8"
        using div_mult_mod_eq [of n 8] mod_less_divisor [of 8 n] by linarith
    qed (auto simp: div_nat_eqI)
    moreover have "n div 8 = 7 - i \<Longrightarrow> n - 8 * (7 - i) = n mod 8"
      by (metis minus_div_mult_eq_mod mult.commute)
    ultimately show ?thesis by auto
  qed
  have i: "n < 64 \<Longrightarrow> \<exists>i \<in> set [0..<8]. n div 8 = 7 - i"
    by (rule bexI [of _ "7 - n div 8"]) auto
  have "(\<exists>i \<in> set [0..<8].
          bit (push_bit (8 * (7 - i)) (ucast (map reverse_byte (serialise_64bit x) ! i)) :: u64) n)
      \<longleftrightarrow> (\<exists>i \<in> set [0..<8]. n < 64 \<and> n div 8 = 7 - i \<and> bit x (8 * (n div 8) + (7 - n mod 8)))"
    by (rule bex_cong [OF refl byte]) simp
  moreover have "\<not> bit (0 :: u64) n" by simp
  ultimately show ?thesis
    unfolding getReverseBitForBytes_def Let_def bit_fold_or using i by blast
qed

section \<open>Flipping the wildcard bits of a value\<close>

definition getNewValue :: "u64 \<Rightarrow> u64 \<Rightarrow> u64" where
  "getNewValue value msk = (value AND NOT msk) OR ((value AND msk) XOR msk)"

lemma getNewValue_xor: "getNewValue v m = v XOR m"
  by (rule bit_word_eqI) (auto simp: getNewValue_def bit_simps)

section \<open>Bytes and bits\<close>

definition getByteIndex :: "u32 \<Rightarrow> u32" where
  "getByteIndex bitIndex = bitIndex div 8"

definition getByteRangeSize :: "u32 \<Rightarrow> u32 \<Rightarrow> u32" where
  "getByteRangeSize msb lsb = getByteIndex lsb - getByteIndex msb"

definition convertBytesToBits :: "u16 \<Rightarrow> u16" where
  "convertBytesToBits byteIndex = byteIndex * 8"

definition bitPositionInByte :: "u16 \<Rightarrow> u16" where
  "bitPositionInByte absolutBitPosition = absolutBitPosition mod 8"

text \<open>The conversion to a signed int is written out; byte indices are far below \<open>2 ^ 31\<close>.\<close>

definition getSuccesiveByteOffsetForMostRightByte :: "u32 \<Rightarrow> u32" where
  "getSuccesiveByteOffsetForMostRightByte mostRightByte = word_of_int (max 0 (sint mostRightByte - 7))"

definition getMaximumMaskByteIndex :: "u16 \<Rightarrow> u16" where
  "getMaximumMaskByteIndex bitsUsed = of_nat ((unat bitsUsed - 1) div 8)"

definition getBytesUsedInExtractionMask :: "u64 \<Rightarrow> nat" where
  "getBytesUsedInExtractionMask m =
     (let unsetBytes = movemask8 (cmpeq (and_lanes (bytes64 m) (bytes64 (- 1))) (bytes64 0))
      in 8 - popcnt unsetBytes)"

definition extractSuccesiveFromRandomBytes :: "nat \<Rightarrow> u8 list \<Rightarrow> u8 list \<Rightarrow> u8 list cxx" where
  "extractSuccesiveFromRandomBytes numberBytes bytes bytePositions =
     rmap (\<lambda>i. if i < length bytePositions \<and> unat (bytePositions ! i) < length bytes
               then Inr (bytes ! unat (bytePositions ! i)) else Inl UB_Index) [0..<numberBytes]"

definition isBitSet :: "u8 list \<Rightarrow> u16 \<Rightarrow> bool cxx" where
  "isBitSet existingRawKey idx =
     (let k = unat (getByteIndex (ucast idx))
      in if k < length existingRawKey
         then Inr (existingRawKey ! k AND drop_bit (unat (bitPositionInByte idx)) 0x80 > 0)
         else Inl UB_Index)"

definition getLeastSignificantBitIndexInByte :: "u8 \<Rightarrow> u16" where
  "getLeastSignificantBitIndexInByte byte = word_of_int (7 - int (tzcnt (ucast byte :: u32)))"

definition getMostSignificantBitIndexInByte :: "u8 \<Rightarrow> u16" where
  "getMostSignificantBitIndexInByte byte = word_of_int (int (lzcnt (ucast byte :: u32)) - 24)"

definition getMostSignificantBitIndex :: "nat \<Rightarrow> u32 \<Rightarrow> int" where
  "getMostSignificantBitIndex undef number = int (bsr undef number)"

definition getMostSignificantBitIndex_64 :: "nat \<Rightarrow> u64 \<Rightarrow> int" where
  "getMostSignificantBitIndex_64 undef number = 63 - int (builtin_clz undef number)"

text \<open>The key bit of an absolute index, counted from the top of the first byte.\<close>

definition key_bit :: "u8 list \<Rightarrow> nat \<Rightarrow> bool" where
  "key_bit bs k = bit (bs ! (k div 8)) (7 - k mod 8)"

lemma unat_bit_indices [simp]:
  "unat (getByteIndex b) = unat b div 8"
  "unat (bitPositionInByte i) = unat i mod 8"
  "unat (ucast i :: u32) = unat i"
  by (simp_all add: getByteIndex_def bitPositionInByte_def unat_div unat_mod unsigned_ucast_eq
      take_bit_nat_eq_self less_trans [OF unsigned_less [of i, where 'a = nat]])

lemma unat_convertBytesToBits: "unat b < 8192 \<Longrightarrow> unat (convertBytesToBits b) = 8 * unat b"
  by (simp add: convertBytesToBits_def unat_word_ariths)

lemma unat_right_byte_offset:
  assumes "unat m < 2 ^ 31"
  shows "unat (getSuccesiveByteOffsetForMostRightByte m) = unat m - 7"
proof -
  have "int (unat m) < 2 ^ 31" using assms by (metis of_nat_less_iff of_nat_numeral of_nat_power)
  then have sm: "sint m = int (unat m)"
    using signed_take_bit_int_eq_self [of 31 "uint m"] order_trans [of "- (2 ^ 31)" 0 "uint m"]
    by (simp add: sint_uint)
  have mx: "max 0 (int (unat m) - 7) = int (unat m - 7)" by arith
  have "getSuccesiveByteOffsetForMostRightByte m = of_nat (unat m - 7)"
    unfolding getSuccesiveByteOffsetForMostRightByte_def sm mx by simp
  then show ?thesis using assms by (simp add: unat_of_nat_small)
qed

text \<open>Testing a key bit reads the byte that holds it, from the top.\<close>

lemma isBitSet_key_bit:
  assumes "unat i div 8 < length bs"
  shows "isBitSet bs i = Inr (key_bit bs (unat i))"
proof -
  let ?p = "unat i mod 8"
  have p: "?p < 8" by simp
  have "drop_bit ?p (0x80 :: u8) = push_bit (7 - ?p) 1"
  proof -
    from p have "?p \<in> {0, 1, 2, 3, 4, 5, 6, 7}" by auto
    then show ?thesis by (elim insertE) simp_all
  qed
  then have "bs ! (unat i div 8) AND drop_bit ?p 0x80 > 0 \<longleftrightarrow> bit (bs ! (unat i div 8)) (7 - ?p)"
    using and_single_bit_eq_0 [of "7 - ?p" "bs ! (unat i div 8)"]
    by (simp add: word_gt_0 and.commute)
  with assms show ?thesis by (simp add: isBitSet_def key_bit_def)
qed

lemma getBytesUsed_card: "getBytesUsedInExtractionMask m = card {k. k < 8 \<and> bytes64 m ! k \<noteq> 0}"
proof -
  let ?u = "movemask8 (cmpeq (and_lanes (bytes64 m) (bytes64 (- 1))) (bytes64 0))"
  have b1: "k < 8 \<Longrightarrow> bytes64 (- 1) ! k = - 1" and b0: "k < 8 \<Longrightarrow> bytes64 0 ! k = 0" for k
    by (intro bit_word_eqI, simp add: word_bits)+
  have "{i. bit ?u i} = {k. k < 8 \<and> bytes64 m ! k = 0}"
    by (auto simp: word_bits b1 b0 split: if_splits)
  then have p: "popcnt ?u = card {k. k < 8 \<and> bytes64 m ! k = 0}" by (simp add: popcnt_card)
  have "{k. k < 8 \<and> bytes64 m ! k \<noteq> 0} = {..<8} - {k. k < 8 \<and> bytes64 m ! k = 0}" by auto
  moreover have "card ({..<8} - {k. k < 8 \<and> bytes64 m ! k = 0}) = 8 - card {k. k < 8 \<and> bytes64 m ! k = 0}"
    by (subst card_Diff_subset) auto
  ultimately show ?thesis using p by (simp add: getBytesUsedInExtractionMask_def)
qed

section \<open>What the helpers promise\<close>

text \<open>Reversing the order of the bits within every byte of a 64-bit key is reversing the
  whole word and then its bytes, and doing it twice gives the key back.\<close>
theorem reverse_bits_of_bytes:
  "getReverseBitForBytes x = bswap64 (word_reverse x) \<and>
   getReverseBitForBytes (getReverseBitForBytes x) = x"
proof
  have n: "n div 8 \<le> 7" "8 * (7 - n div 8) + n mod 8 < 64"
    "63 - (8 * (7 - n div 8) + n mod 8) = 8 * (n div 8) + 7 - n mod 8" if "n < 64" for n :: nat
    using that div_mult_mod_eq [of n 8] mod_less_divisor [of 8 n] by linarith+
  show "getReverseBitForBytes x = bswap64 (word_reverse x)"
    by (rule bit_word_eqI) (simp add: word_bits bit_word_reverse_iff n)
  show "getReverseBitForBytes (getReverseBitForBytes x) = x"
  proof (rule bit_word_eqI)
    fix n :: nat assume "n < LENGTH(64)"
    then have "n div 8 \<le> 7" by simp
    then have lt: "8 * (n div 8) + (7 - n mod 8) < 64" by linarith
    have e: "8 * (n div 8) + (7 - (7 - n mod 8)) = n"
      using div_mult_mod_eq [of n 8] mod_less_divisor [of 8 n] by linarith
    have "7 - n mod 8 < 8" by simp
    note di = byte_index(1) [OF this, of "n div 8"] byte_index(2) [OF this, of "n div 8"]
    from \<open>n < LENGTH(64)\<close> lt show "bit (getReverseBitForBytes (getReverseBitForBytes x)) n \<longleftrightarrow> bit x n"
      unfolding bit_getReverseBitForBytes di e by simp
  qed
qed

text \<open>The new value of a rule flips the value bits under its wildcards.  Doing it twice gives
  the value back, and a key agrees with the new value outside the wildcards iff it agrees with the old
  one: both stand for the same rule.\<close>
theorem new_value_same_rule:
  "getNewValue v m = v XOR m \<and> getNewValue (getNewValue v m) m = v \<and>
   (k AND NOT m = getNewValue v m AND NOT m \<longleftrightarrow> k AND NOT m = v AND NOT m)"
  by (simp add: getNewValue_xor xor.assoc and_not_eq_iff bit_xor_iff cong: imp_cong)

end
