(* ===== verification/Bit_Mask32.thy ===== *)
theory Bit_Mask32
  imports Hot_Algorithms
begin

text \<open>
  The slot allocator of a node, \<open>src/hot/commons/include/hot/commons/BitMask32.hpp\<close>: a set of
  at most 32 slots kept as the bits of one word, with the iterator a range-based for loop uses.
\<close>

unbundle bit_operations_syntax

section \<open>The mask and its operations\<close>

record BitMask32 =
  mUsedSlots :: u32

definition ALL_SLOTS_USED_MASK32 :: u32 where "ALL_SLOTS_USED_MASK32 = 0xFFFFFFFF"
definition ALL_SLOTS_EMPTY_MASK32 :: u32 where "ALL_SLOTS_EMPTY_MASK32 = 0"
definition NO_SLOT_AVAILABLE32 :: u8 where "NO_SLOT_AVAILABLE32 = 0xFF"

definition BitMask32_0 :: BitMask32 where
  "BitMask32_0 = \<lparr> mUsedSlots = 0 \<rparr>"

definition BitMask32_of :: "u32 \<Rightarrow> BitMask32" where
  "BitMask32_of slots = \<lparr> mUsedSlots = slots \<rparr>"

text \<open>The shift by a slot index is undefined from 32 on.\<close>

definition slot_bit :: "u8 \<Rightarrow> u32 cxx" where
  "slot_bit i = (if unat i < 32 then Inr (push_bit (unat i) 1) else Inl UB_Shift)"

definition reserveSlot :: "u8 \<Rightarrow> BitMask32 \<Rightarrow> BitMask32 cxx" where
  "reserveSlot slotIndex b =
     rbind (slot_bit slotIndex) (\<lambda>s. Inr (b \<lparr> mUsedSlots := mUsedSlots b OR s \<rparr>))"

definition create :: "u8 list \<Rightarrow> BitMask32 cxx" where
  "create slotsToReserve = rfold reserveSlot slotsToReserve BitMask32_0"

definition getAndAllocateSlot :: "BitMask32 \<Rightarrow> u8 \<times> BitMask32" where
  "getAndAllocateSlot b =
     (if mUsedSlots b = ALL_SLOTS_USED_MASK32 then (NO_SLOT_AVAILABLE32, b)
      else (let slotIndex = ffs (NOT (mUsedSlots b)) - 1
            in (of_nat slotIndex, b \<lparr> mUsedSlots := mUsedSlots b OR push_bit slotIndex 1 \<rparr>)))"

definition removeSlot :: "u8 \<Rightarrow> BitMask32 \<Rightarrow> BitMask32 cxx" where
  "removeSlot slotIndex b =
     rbind (slot_bit slotIndex) (\<lambda>s. Inr (b \<lparr> mUsedSlots := mUsedSlots b AND NOT s \<rparr>))"

definition removeEntries :: "u32 \<Rightarrow> BitMask32 \<Rightarrow> BitMask32" where
  "removeEntries maskForEntriesToRemove b =
     b \<lparr> mUsedSlots := mUsedSlots b AND NOT maskForEntriesToRemove \<rparr>"

definition getMask :: "BitMask32 \<Rightarrow> u32" where
  "getMask b = mUsedSlots b"

definition removeEntries_mask :: "BitMask32 \<Rightarrow> BitMask32 \<Rightarrow> BitMask32" where
  "removeEntries_mask maskForEntriesToRemove b = removeEntries (getMask maskForEntriesToRemove) b"

definition setMask :: "u32 \<Rightarrow> BitMask32 \<Rightarrow> BitMask32" where
  "setMask newMask b = b \<lparr> mUsedSlots := newMask \<rparr>"

definition isSlotInUse :: "u8 \<Rightarrow> BitMask32 \<Rightarrow> bool cxx" where
  "isSlotInUse slotIndex b = rbind (slot_bit slotIndex) (\<lambda>s. Inr (mUsedSlots b AND s \<noteq> 0))"

definition toggleSlot :: "u8 \<Rightarrow> bool \<Rightarrow> BitMask32 \<Rightarrow> BitMask32 cxx" where
  "toggleSlot slotIndex newValue b =
     rbind (slot_bit slotIndex) (\<lambda>s.
       let deleteMask = NOT s;
           updateMask = push_bit (unat slotIndex) (of_bool newValue)
       in Inr (b \<lparr> mUsedSlots := (mUsedSlots b AND deleteMask) OR updateMask \<rparr>))"

definition isEmpty :: "BitMask32 \<Rightarrow> bool" where
  "isEmpty b \<longleftrightarrow> mUsedSlots b = ALL_SLOTS_EMPTY_MASK32"

definition isFull :: "BitMask32 \<Rightarrow> bool" where
  "isFull b \<longleftrightarrow> mUsedSlots b = ALL_SLOTS_USED_MASK32"

definition getFirstUsedSlot :: "nat \<Rightarrow> BitMask32 \<Rightarrow> nat" where
  "getFirstUsedSlot undef b = builtin_ctz undef (mUsedSlots b)"

text \<open>The int passed to \<open>removeSlot\<close> is converted to a byte.\<close>

definition consumeFirst :: "nat \<Rightarrow> BitMask32 \<Rightarrow> (nat \<times> BitMask32) cxx" where
  "consumeFirst undef b =
     (let firstSlot = builtin_ctz undef (mUsedSlots b)
      in rbind (removeSlot (of_nat firstSlot) b) (\<lambda>b'. Inr (firstSlot, b')))"

definition getNumberUsedSlots :: "BitMask32 \<Rightarrow> nat" where
  "getNumberUsedSlots b = popcnt (mUsedSlots b)"

definition addAll :: "BitMask32 \<Rightarrow> BitMask32 \<Rightarrow> BitMask32" where
  "addAll other b = b \<lparr> mUsedSlots := mUsedSlots b OR mUsedSlots other \<rparr>"

definition or_assign :: "BitMask32 \<Rightarrow> BitMask32 \<Rightarrow> BitMask32" where
  "or_assign other b = addAll other b"

definition and_assign :: "BitMask32 \<Rightarrow> BitMask32 \<Rightarrow> BitMask32" where
  "and_assign other b = b \<lparr> mUsedSlots := mUsedSlots b AND mUsedSlots other \<rparr>"

definition or_masks :: "BitMask32 \<Rightarrow> BitMask32 \<Rightarrow> BitMask32" where
  "or_masks b other = BitMask32_of (mUsedSlots b OR mUsedSlots other)"

definition and_masks :: "BitMask32 \<Rightarrow> BitMask32 \<Rightarrow> BitMask32" where
  "and_masks b other = BitMask32_of (mUsedSlots b AND mUsedSlots other)"

definition eq_masks :: "BitMask32 \<Rightarrow> BitMask32 \<Rightarrow> bool" where
  "eq_masks b other \<longleftrightarrow> mUsedSlots b = mUsedSlots other"

definition neq_masks :: "BitMask32 \<Rightarrow> BitMask32 \<Rightarrow> bool" where
  "neq_masks b other \<longleftrightarrow> mUsedSlots b \<noteq> mUsedSlots other"

section \<open>The iterator\<close>

record BitMask32Iterator =
  mCopy :: BitMask32
  mCurrent :: nat

definition Iterator0 :: BitMask32Iterator where
  "Iterator0 = \<lparr> mCopy = BitMask32_0, mCurrent = 0 \<rparr>"

definition Iterator_of :: "nat \<Rightarrow> BitMask32 \<Rightarrow> BitMask32Iterator" where
  "Iterator_of undef original = \<lparr> mCopy = original, mCurrent = getFirstUsedSlot undef original \<rparr>"

definition begin_mask :: "nat \<Rightarrow> BitMask32 \<Rightarrow> BitMask32Iterator" where
  "begin_mask undef b = Iterator_of undef b"

definition end_mask :: "BitMask32 \<Rightarrow> BitMask32Iterator" where
  "end_mask b = Iterator0"

definition advance :: "nat \<Rightarrow> BitMask32Iterator \<Rightarrow> BitMask32Iterator cxx" where
  "advance undef it =
     rbind (consumeFirst undef (mCopy it)) (\<lambda>(_, b).
       Inr (it \<lparr> mCopy := b, mCurrent := getFirstUsedSlot undef b \<rparr>))"

definition deref :: "BitMask32Iterator \<Rightarrow> nat" where
  "deref it = mCurrent it"

definition prefix_inc :: "nat \<Rightarrow> BitMask32Iterator \<Rightarrow> BitMask32Iterator cxx" where
  "prefix_inc undef it = advance undef it"

definition postfix_inc :: "nat \<Rightarrow> BitMask32Iterator \<Rightarrow> (BitMask32Iterator \<times> BitMask32Iterator) cxx" where
  "postfix_inc undef it =
     (let original = Iterator_of undef (mCopy it)
      in rbind (advance undef it) (\<lambda>it'. Inr (original, it')))"

definition neq_iter :: "BitMask32Iterator \<Rightarrow> BitMask32Iterator \<Rightarrow> bool" where
  "neq_iter a b \<longleftrightarrow> neq_masks (mCopy a) (mCopy b)"

definition eq_iter :: "BitMask32Iterator \<Rightarrow> BitMask32Iterator \<Rightarrow> bool" where
  "eq_iter a b \<longleftrightarrow> eq_masks (mCopy a) (mCopy b)"

text \<open>
  The range-based for loop: from begin, while the iterator differs from end, run the body on the
  dereferenced iterator and increment.  \<open>None\<close> is a loop that has used its fuel up.
\<close>

fun for_slots :: "nat \<Rightarrow> nat \<Rightarrow> (nat \<Rightarrow> 's \<Rightarrow> 's cxx) \<Rightarrow> BitMask32Iterator \<Rightarrow> BitMask32Iterator \<Rightarrow> 's
    \<Rightarrow> 's cxx option" where
  "for_slots undef fuel body it stop s =
     (if \<not> neq_iter it stop then Some (Inr s)
      else (case fuel of
              0 \<Rightarrow> None
            | Suc n \<Rightarrow>
                (case body (deref it) s of
                   Inl e \<Rightarrow> Some (Inl e)
                 | Inr s' \<Rightarrow>
                     (case prefix_inc undef it of
                        Inl e \<Rightarrow> Some (Inl e)
                      | Inr it' \<Rightarrow> for_slots undef n body it' stop s'))))"

declare for_slots.simps [simp del]

definition for_each_slot :: "nat \<Rightarrow> nat \<Rightarrow> BitMask32 \<Rightarrow> (nat \<Rightarrow> 's \<Rightarrow> 's cxx) \<Rightarrow> 's \<Rightarrow> 's cxx option" where
  "for_each_slot undef fuel b body s = for_slots undef fuel body (begin_mask undef b) (end_mask b) s"

section \<open>The set of slots of a mask\<close>

definition slots :: "BitMask32 \<Rightarrow> nat set" where
  "slots b = {i. bit (mUsedSlots b) i}"

lemma slot_bit_bound: "bit (w :: u32) i \<Longrightarrow> i < 32"
  by (auto dest: bit_imp_le_length)

lemma slots_bound: "i \<in> slots b \<Longrightarrow> i < 32"
  by (auto simp: slots_def dest: bit_imp_le_length)

lemma finite_slots [simp]: "finite (slots b)"
  by (rule finite_subset [of _ "{..<32}"]) (auto dest: slots_bound)

lemma slots_inject: "slots a = slots b \<longleftrightarrow> mUsedSlots a = mUsedSlots b"
  by (auto simp: slots_def set_eq_iff intro: bit_word_eqI)

named_theorems slot_sets "the operations on the sets of slots"

lemma slots_simps [slot_sets]:
  "slots BitMask32_0 = {}"
  "slots (BitMask32_of w) = {i. bit w i}"
  "slots (b \<lparr> mUsedSlots := w \<rparr>) = {i. bit w i}"
  "slots (or_masks a b) = slots a \<union> slots b"
  "slots (and_masks a b) = slots a \<inter> slots b"
  "slots (addAll a b) = slots b \<union> slots a"
  "slots (or_assign a b) = slots b \<union> slots a"
  "slots (and_assign a b) = slots b \<inter> slots a"
  "slots (removeEntries_mask a b) = slots b - slots a"
  "slots (removeEntries w b) = slots b - {i. bit w i}"
  by (auto simp: slots_def BitMask32_0_def BitMask32_of_def or_masks_def and_masks_def addAll_def
      or_assign_def and_assign_def removeEntries_mask_def removeEntries_def getMask_def bit_simps
      dest: bit_imp_le_length)

lemma slots_empty [slot_sets]: "slots b = {} \<longleftrightarrow> mUsedSlots b = 0"
  by (metis slots_inject slots_simps(1) BitMask32_0_def BitMask32.select_convs(1))

lemma slots_full [slot_sets]: "slots b = {..<32} \<longleftrightarrow> mUsedSlots b = ALL_SLOTS_USED_MASK32"
proof -
  have "ALL_SLOTS_USED_MASK32 = - 1" by (simp add: ALL_SLOTS_USED_MASK32_def)
  moreover have "slots b = {..<32} \<longleftrightarrow> mUsedSlots b = - 1"
    by (auto simp: slots_def bit_eq_iff set_eq_iff dest: bit_imp_le_length)
  ultimately show ?thesis by simp
qed

lemma slot_ops [slot_sets]:
  "slot_bit i = Inr s \<longleftrightarrow> unat i < 32 \<and> s = push_bit (unat i) 1"
  "reserveSlot i b = Inr b' \<longleftrightarrow> unat i < 32 \<and> b' = b \<lparr> mUsedSlots := mUsedSlots b OR push_bit (unat i) 1 \<rparr>"
  "removeSlot i b = Inr b' \<longleftrightarrow>
     unat i < 32 \<and> b' = b \<lparr> mUsedSlots := mUsedSlots b AND NOT (push_bit (unat i) 1) \<rparr>"
  by (auto simp: slot_bit_def reserveSlot_def removeSlot_def)

lemma slots_reserve: "reserveSlot i b = Inr b' \<Longrightarrow> slots b' = insert (unat i) (slots b)"
  by (auto simp: slot_sets slots_def bit_or_iff bit_single bit_power_two)

lemma slots_remove: "removeSlot i b = Inr b' \<Longrightarrow> slots b' = slots b - {unat i}"
  by (auto simp: slot_sets slots_def bit_simps bit_single bit_power_two dest: bit_imp_le_length)

lemma slots_toggle:
  "toggleSlot i v b = Inr b' \<Longrightarrow>
   slots b' = (if v then insert (unat i) (slots b) else slots b - {unat i})"
  by (auto simp: toggleSlot_def Let_def slot_sets rbind_eq_Inr slots_def bit_simps bit_single bit_power_two
      dest: slot_bit_bound split: if_splits)

lemma isSlotInUse_iff: "unat i < 32 \<Longrightarrow> isSlotInUse i b = Inr (unat i \<in> slots b)"
  using and_single_bit_eq_0 [of "unat i" "mUsedSlots b"]
  by (simp add: isSlotInUse_def slot_bit_def slots_def and.commute)

lemma getNumberUsedSlots_card: "getNumberUsedSlots b = card (slots b)"
  by (simp add: getNumberUsedSlots_def popcnt_card slots_def)

section \<open>Allocating slots\<close>

text \<open>
  What a slot allocator promises its client, and what follows for repeated allocation: the state
  is any type, \<open>used\<close> its slots in use, and an allocation gives the least free slot or none.
\<close>

locale slot_allocator =
  fixes alloc :: "'s \<Rightarrow> nat option \<times> 's" and used :: "'s \<Rightarrow> nat set" and cap :: nat
  assumes used_bound: "used s \<subseteq> {..<cap}"
    and alloc_full: "used s = {..<cap} \<Longrightarrow> alloc s = (None, s)"
    and alloc_free: "used s \<noteq> {..<cap} \<Longrightarrow>
      \<exists>i s'. alloc s = (Some i, s') \<and> i < cap \<and> i \<notin> used s \<and> {..<i} \<subseteq> used s \<and> used s' = insert i (used s)"
begin

fun allocs :: "nat \<Rightarrow> 's \<Rightarrow> nat option list \<times> 's" where
  "allocs 0 s = ([], s)"
| "allocs (Suc n) s = (case alloc s of (r, s') \<Rightarrow> (case allocs n s' of (rs, s'') \<Rightarrow> (r # rs, s'')))"

lemma alloc_next:
  assumes "used s = {..<k}" and "k < cap"
  shows "\<exists>s'. alloc s = (Some k, s') \<and> used s' = {..<Suc k}"
proof -
  have "used s \<noteq> {..<cap}" using assms by auto
  then obtain i s' where i: "alloc s = (Some i, s')" "i \<notin> used s" "{..<i} \<subseteq> used s"
    "used s' = insert i (used s)"
    using alloc_free by blast
  have "i = k" using i(2,3) assms(1) by (auto simp: subset_iff not_less) (metis le_antisym not_less order_refl)
  with i assms show ?thesis by (auto simp: lessThan_Suc)
qed

lemma allocs_from:
  assumes "used s = {..<k}" and "k + n \<le> cap"
  shows "fst (allocs n s) = map Some [k..<k + n] \<and> used (snd (allocs n s)) = {..<k + n}"
  using assms
proof (induction n arbitrary: s k)
  case 0
  then show ?case by simp
next
  case (Suc n)
  from alloc_next [of s k] Suc.prems obtain s' where s': "alloc s = (Some k, s')" "used s' = {..<Suc k}"
    by auto
  from Suc.IH [OF s'(2)] Suc.prems have
    "fst (allocs n s') = map Some [Suc k..<Suc k + n] \<and> used (snd (allocs n s')) = {..<Suc k + n}" by simp
  then show ?case by (simp add: s'(1) split_beta upt_conv_Cons)
qed

lemma allocs_full:
  assumes "used s = {..<cap}" shows "allocs n s = (replicate n None, s)"
  by (induction n) (simp_all add: alloc_full [OF assms])

end

definition alloc_slot :: "BitMask32 \<Rightarrow> nat option \<times> BitMask32" where
  "alloc_slot b = (case getAndAllocateSlot b of
     (i, b') \<Rightarrow> (if i = NO_SLOT_AVAILABLE32 then None else Some (unat i), b'))"

lemma allocate_free:
  assumes "slots b \<noteq> {..<32}"
  obtains i where "getAndAllocateSlot b = (of_nat i, b \<lparr> mUsedSlots := mUsedSlots b OR push_bit i 1 \<rparr>)"
    "i < 32" "i \<notin> slots b" "{..<i} \<subseteq> slots b"
proof -
  let ?n = "NOT (mUsedSlots b)"
  have f: "mUsedSlots b \<noteq> ALL_SLOTS_USED_MASK32" using assms by (simp add: slot_sets)
  have nz: "?n \<noteq> 0"
  proof
    assume "?n = 0"
    then have "mUsedSlots b = - 1" by (metis bit.compl_zero bit.double_compl)
    with f show False by (simp add: ALL_SLOTS_USED_MASK32_def)
  qed
  note t = tzcnt_bit [OF nz]
  have l: "tzcnt ?n < 32" using tzcnt_less [OF nz] by simp
  have ff: "ffs ?n = Suc (tzcnt ?n)" using nz by (cases "ones ?n") (auto simp: ffs_def tzcnt_def simp flip: ones_eq_Nil)
  show thesis
  proof (rule that [of "tzcnt ?n"])
    show "tzcnt ?n \<notin> slots b" using t(1) by (simp add: slots_def bit_not_iff)
    show "{..<tzcnt ?n} \<subseteq> slots b"
      using t(2) l by (auto simp: slots_def bit_not_iff) (metis leD less_trans)
  qed (use f l ff in \<open>simp_all add: getAndAllocateSlot_def Let_def\<close>)
qed

interpretation mask32: slot_allocator alloc_slot slots 32
proof
  fix b :: BitMask32
  show "slots b \<subseteq> {..<32}" by (auto dest: slots_bound)
  show "alloc_slot b = (None, b)" if "slots b = {..<32}"
    using that by (simp add: slot_sets alloc_slot_def getAndAllocateSlot_def)
  assume "slots b \<noteq> {..<32}"
  then obtain i where i: "getAndAllocateSlot b = (of_nat i, b \<lparr> mUsedSlots := mUsedSlots b OR push_bit i 1 \<rparr>)"
    "i < 32" "i \<notin> slots b" "{..<i} \<subseteq> slots b" by (rule allocate_free)
  have u: "unat (of_nat i :: u8) = i" using i(2) by (simp add: unat_of_nat_small)
  have "(of_nat i :: u8) \<noteq> NO_SLOT_AVAILABLE32"
  proof
    assume "(of_nat i :: u8) = NO_SLOT_AVAILABLE32"
    from arg_cong [OF this, of unat] u i(2) show False by (simp add: NO_SLOT_AVAILABLE32_def)
  qed
  with i u show "\<exists>i s'. alloc_slot b = (Some i, s') \<and> i < 32 \<and> i \<notin> slots b \<and> {..<i} \<subseteq> slots b \<and>
      slots s' = insert i (slots b)"
    by (auto simp: alloc_slot_def slot_sets slots_def bit_or_iff bit_single bit_power_two)
qed

section \<open>Iterating over the slots\<close>

lemma consumeFirst_Inr:
  assumes "mUsedSlots b \<noteq> 0"
  shows "consumeFirst undef b = Inr (tzcnt (mUsedSlots b), b \<lparr> mUsedSlots := blsr (mUsedSlots b) \<rparr>)"
proof -
  let ?t = "tzcnt (mUsedSlots b)"
  have l: "?t < 32" using tzcnt_less [OF assms] by simp
  then have u: "unat (of_nat ?t :: u8) = ?t" by (simp add: unat_of_nat_small)
  have "mUsedSlots b AND NOT (push_bit ?t 1) = blsr (mUsedSlots b)"
    by (rule bit_word_eqI) (auto simp: bit_blsr [OF assms] bit_simps bit_single bit_power_two)
  with l u show ?thesis by (simp add: consumeFirst_def builtin_ctz_def assms removeSlot_def slot_bit_def)
qed

lemma for_slots_end: "mUsedSlots (mCopy it) = 0 \<Longrightarrow> for_slots undef fuel body it Iterator0 s = Some (Inr s)"
  by (simp add: for_slots.simps [of _ fuel] neq_iter_def neq_masks_def Iterator0_def BitMask32_0_def)

text \<open>
  The loop visits the slots in use once each, in ascending order, whatever the undefined count
  of trailing zeros of an empty mask returns; a fuel of the number of slots is enough.
\<close>

lemma for_slots_ones:
  assumes "it = Iterator_of undef b" and "popcnt (mUsedSlots b) \<le> fuel"
  shows "for_slots undef fuel body it Iterator0 s = Some (rfold body (ones (mUsedSlots b)) s)"
  using assms
proof (induction fuel arbitrary: it b s)
  case 0
  then have "mUsedSlots b = 0" by (simp add: popcnt_def)
  with 0 show ?case by (simp add: for_slots_end Iterator_of_def)
next
  case (Suc n)
  show ?case
  proof (cases "mUsedSlots b = 0")
    case True
    with Suc.prems show ?thesis by (simp add: for_slots_end Iterator_of_def)
  next
    case False
    let ?b = "b \<lparr> mUsedSlots := blsr (mUsedSlots b) \<rparr>"
    note o = ones_Cons_tzcnt [OF False]
    have p: "popcnt (blsr (mUsedSlots b)) \<le> n"
      using Suc.prems(2) o by (simp add: popcnt_def ones_blsr [OF False])
    have inc: "prefix_inc undef it = Inr (Iterator_of undef ?b)"
      using Suc.prems(1) by (simp add: prefix_inc_def advance_def Iterator_of_def consumeFirst_Inr [OF False])
    have cur: "deref it = tzcnt (mUsedSlots b)"
      using Suc.prems(1) False by (simp add: deref_def Iterator_of_def getFirstUsedSlot_def builtin_ctz_def)
    have ne: "neq_iter it Iterator0"
      using Suc.prems(1) False by (simp add: neq_iter_def neq_masks_def Iterator_of_def Iterator0_def BitMask32_0_def)
    have IH: "for_slots undef n body (Iterator_of undef ?b) Iterator0 s' = Some (rfold body (tl (ones (mUsedSlots b))) s')" for s'
      using Suc.IH [OF refl, of ?b s'] p by (simp add: ones_blsr [OF False])
    show ?thesis
      by (subst for_slots.simps, subst o) (simp add: ne cur inc IH split: sum.split)
  qed
qed

section \<open>What the mask promises\<close>

text \<open>Iterating over a slot mask runs the body once for every used slot, in ascending order, and
  ends after at most 32 steps.\<close>
theorem for_each_slot_ascending:
  "for_each_slot undef 32 b body s = Some (rfold body (ones (mUsedSlots b)) s) \<and>
   set (ones (mUsedSlots b)) = slots b \<and> sorted (ones (mUsedSlots b)) \<and> distinct (ones (mUsedSlots b))"
  using for_slots_ones [OF refl, of b 32 undef body s] popcnt_le [of "mUsedSlots b"]
  by (simp add: for_each_slot_def begin_mask_def end_mask_def slots_def)

text \<open>C30: Allocating slots from an empty mask hands out the slots from 0 on, in order and each once,
  and refuses the thirty-third request.\<close>
theorem allocate_in_order:
  "n \<le> 32 \<Longrightarrow> fst (mask32.allocs n BitMask32_0) = map Some [0..<n] \<and>
   slots (snd (mask32.allocs n BitMask32_0)) = {..<n} \<and>
   fst (alloc_slot (snd (mask32.allocs 32 BitMask32_0))) = None"
  using mask32.allocs_from [of BitMask32_0 0 n] mask32.allocs_from [of BitMask32_0 0 32]
    mask32.alloc_full [of "snd (mask32.allocs 32 BitMask32_0)"]
  by (simp add: slot_sets lessThan_0)

theorem allocate_in_order_witness:
  "fst (mask32.allocs 3 BitMask32_0) = map Some [0..<3] \<and> slots (snd (mask32.allocs 3 BitMask32_0)) = {..<3} \<and>
   fst (alloc_slot (snd (mask32.allocs 32 BitMask32_0))) = None"
  by (rule allocate_in_order) simp

end
