(* ===== verification/Simd_Registers.thy ===== *)
theory Simd_Registers
  imports Hot_Algorithms
begin

text \<open>
  The 256-bit registers and the AVX2 instructions of the node search
  (\<open>src/hot/commons/include/hot/commons/SparsePartialKeys.hpp\<close>).  A register is the list of its
  lanes, lowest first; the packing instructions work on the two 128-bit halves separately, which
  is why the code permutes their results.
\<close>

unbundle bit_operations_syntax

section \<open>The instructions\<close>

text \<open>Broadcast, unaligned load and comparison (\<open>_mm256_set1_epi*\<close>, \<open>_mm256_loadu_si256\<close>).\<close>

definition set1 :: "nat \<Rightarrow> 'a::len word \<Rightarrow> 'a word list" where
  "set1 lanes x = replicate lanes x"

definition loadu :: "nat \<Rightarrow> nat \<Rightarrow> 'a::len word list \<Rightarrow> 'a word list cxx" where
  "loadu lanes off mem = (if off + lanes \<le> length mem then Inr (take lanes (drop off mem)) else Inl UB_Index)"

text \<open>Signed saturation to a narrower lane, and packing two registers half by half.\<close>

definition saturate :: "'a::len word \<Rightarrow> 'b::len word" where
  "saturate x = word_of_int (max (- (2 ^ (LENGTH('b) - 1))) (min (2 ^ (LENGTH('b) - 1) - 1) (sint x)))"

definition packs :: "'a::len word list \<Rightarrow> 'a word list \<Rightarrow> 'b::len word list" where
  "packs a b =
     (let h = length a div 2 in map saturate (take h a @ take h b @ drop h a @ drop h b))"

text \<open>
  \<open>_mm256_permutevar8x32_epi32\<close> moves whole 32-bit blocks, each \<open>length xs div 8\<close> lanes;
  \<open>_mm256_set_epi32\<close> lists its arguments from the highest lane down.
\<close>

definition permutevar8x32 :: "'a::len word list \<Rightarrow> nat list \<Rightarrow> 'a word list" where
  "permutevar8x32 xs idx =
     (let p = length xs div 8 in concat (map (\<lambda>i. take p (drop (p * (i mod 8)) xs)) idx))"

definition set_epi32 :: "nat list \<Rightarrow> nat list" where
  "set_epi32 es = rev es"

definition perm_mask :: "nat list" where
  "perm_mask = set_epi32 [7, 6, 3, 2, 5, 4, 1, 0]"

section \<open>Putting the packed halves back in order\<close>

lemma blocks4:
  assumes "length xs = 4 * p"
  obtains a b c d where "xs = a @ b @ c @ d" "length a = p" "length b = p" "length c = p" "length d = p"
proof
  show "xs = take p xs @ take p (drop p xs) @ take p (drop (2 * p) xs) @ drop (3 * p) xs"
    by (metis append_take_drop_id drop_drop add.commute mult_2 mult_Suc numeral_2_eq_2 numeral_3_eq_3)
qed (use assms in simp_all)

lemma permute_packs_aux:
  assumes "length a = 4 * p" and "length b = 4 * p"
  shows "permutevar8x32 (take (2 * p) a @ take (2 * p) b @ drop (2 * p) a @ drop (2 * p) b) perm_mask = a @ b"
proof -
  from assms(1) obtain a1 a2 a3 a4 where a: "a = a1 @ a2 @ a3 @ a4"
    "length a1 = p" "length a2 = p" "length a3 = p" "length a4 = p" by (rule blocks4)
  from assms(2) obtain b1 b2 b3 b4 where b: "b = b1 @ b2 @ b3 @ b4"
    "length b1 = p" "length b2 = p" "length b3 = p" "length b4 = p" by (rule blocks4)
  have d: "take (2 * p) a = a1 @ a2" "drop (2 * p) a = a3 @ a4" "take (2 * p) b = b1 @ b2" "drop (2 * p) b = b3 @ b4"
    using a b by simp_all
  have l: "length (take (2 * p) a @ take (2 * p) b @ drop (2 * p) a @ drop (2 * p) b) div 8 = p"
    using assms by simp
  show ?thesis
    unfolding permutevar8x32_def Let_def l perm_mask_def set_epi32_def unfolding d
    using a b by simp
qed

lemma permutevar8x32_map:
  "permutevar8x32 (map f xs) idx = map f (permutevar8x32 xs idx)"
  by (simp add: permutevar8x32_def Let_def map_concat comp_def take_map drop_map)

lemma permute_packs:
  assumes "length a = 4 * p" and "length b = 4 * p"
  shows "permutevar8x32 (packs a b) perm_mask = map saturate (a @ b)"
proof -
  have h: "length a div 2 = 2 * p" using assms by simp
  show ?thesis
    by (simp only: packs_def Let_def h permutevar8x32_map permute_packs_aux [OF assms])
qed

text \<open>A comparison result survives the saturation: lanes of ones stay ones, of zeros zeros.\<close>

definition truth_lane :: "bool \<Rightarrow> 'a::len word" where
  "truth_lane b = (if b then - 1 else 0)"

lemma saturate_truth [simp]:
  "saturate (truth_lane b :: u32) = (truth_lane b :: u16)"
  "saturate (truth_lane b :: u16) = (truth_lane b :: u8)"
  by (simp_all add: saturate_def truth_lane_def)

text \<open>A register of comparison results.\<close>

definition truths :: "bool list \<Rightarrow> 'a::len word list" where
  "truths bs = map truth_lane bs"

named_theorems simd "from lanes to truth values"

lemma cmpeq_and_self [simd]:
  "length h = n \<Longrightarrow> cmpeq (and_lanes h (set1 n key)) h = truths (map (\<lambda>e. e AND key = e) h)"
  by (rule nth_equalityI) (simp_all add: set1_def truth_lane_def truths_def)

lemma cmpeq_and_set1 [simd]:
  "length h = n \<Longrightarrow> cmpeq (and_lanes h (set1 n c)) (set1 n x) = truths (map (\<lambda>e. e AND c = x) h)"
  by (rule nth_equalityI) (simp_all add: set1_def truth_lane_def truths_def)

lemma pack_truth [simd]:
  "length a = 16 \<Longrightarrow> length b = 16 \<Longrightarrow>
   permutevar8x32 (packs (truths a :: u16 list) (truths b) :: u8 list) perm_mask = truths (a @ b)"
  "length c = 8 \<Longrightarrow> length d = 8 \<Longrightarrow>
   permutevar8x32 (packs (truths c :: u32 list) (truths d) :: u16 list) perm_mask = truths (c @ d)"
  unfolding truths_def
  by (subst permute_packs [where p = 4], simp_all add: comp_def)
     (subst permute_packs [where p = 2], simp_all add: comp_def)

lemma and_truth [simd]:
  "and_lanes (truths (map P h)) (truths (map Q h)) = truths (map (\<lambda>e. P e \<and> Q e) h)"
  by (rule nth_equalityI) (simp_all add: truth_lane_def truths_def)

lemma movemask8_truth [simd]: "movemask8 (truths bs) = of_bits bs"
  by (rule bit_word_eqI) (auto simp: word_bits truth_lane_def truths_def split: if_splits)

lemma loadu_Inr:
  "off + lanes \<le> length mem \<Longrightarrow> loadu lanes off mem = Inr (take lanes (drop off mem))"
  by (simp add: loadu_def)

end
