(* ===== verification/Sparse_Partial_Keys.thy ===== *)
theory Sparse_Partial_Keys
  imports Simd_Registers
begin

text \<open>
  The sparse partial keys of a node, \<open>src/hot/commons/include/hot/commons/SparsePartialKeys.hpp\<close>:
  the vectorised search in its three widths, the pattern search, and the functions that read the
  structure of the node's binary trie off the keys.  The memory from \<open>mEntries\<close> on is a list of
  lanes, at least the 32 that the loads of a search read.
\<close>

unbundle bit_operations_syntax

section \<open>The globals of a wildcard search\<close>

record Search_globals =
  extract_mask :: u64
  wildcard_affected_entry_mask :: u32

section \<open>Search\<close>

text \<open>The projection of an entry on the discriminative bits that are no wildcards.\<close>

definition project :: "u64 \<Rightarrow> 'a::len word \<Rightarrow> 'a word" where
  "project x e = ucast (pext (ucast e) x)"

definition search_u8 :: "u8 \<Rightarrow> u8 list \<Rightarrow> Search_globals \<Rightarrow> (u32 \<times> Search_globals) cxx" where
  "search_u8 uncompressedSearchMask mEntries g =
     (let searchRegister = set1 32 uncompressedSearchMask in
      rbind (loadu 32 0 mEntries) (\<lambda>haystack.
        if extract_mask g = 0
        then let searchResult = cmpeq (and_lanes haystack searchRegister) haystack
             in Inr (movemask8 searchResult, g)
        else let haystack_1 = map (project (extract_mask g)) haystack;
                 searchResult = cmpeq (and_lanes haystack_1 searchRegister) haystack_1;
                 searchResult1 = cmpeq (and_lanes haystack_1 searchRegister) searchRegister
             in Inr (movemask8 searchResult,
                  g \<lparr> wildcard_affected_entry_mask := movemask8 (and_lanes searchResult searchResult1) \<rparr>)))"

definition search_u16 :: "u16 \<Rightarrow> u16 list \<Rightarrow> Search_globals \<Rightarrow> (u32 \<times> Search_globals) cxx" where
  "search_u16 uncompressedSearchMask mEntries g =
     (let searchRegister = set1 16 uncompressedSearchMask in
      rbind (loadu 16 0 mEntries) (\<lambda>haystack1.
      rbind (loadu 16 16 mEntries) (\<lambda>haystack2.
        if extract_mask g = 0
        then let searchResult1 = cmpeq (and_lanes haystack1 searchRegister) haystack1;
                 searchResult2 = cmpeq (and_lanes haystack2 searchRegister) haystack2;
                 intermediateResult = permutevar8x32 (packs searchResult1 searchResult2) perm_mask
             in Inr (movemask8 intermediateResult, g)
        else let haystack1_1 = map (project (extract_mask g)) haystack1;
                 haystack2_1 = map (project (extract_mask g)) haystack2;
                 searchResult1 = cmpeq (and_lanes haystack1_1 searchRegister) haystack1_1;
                 searchResult2 = cmpeq (and_lanes haystack2_1 searchRegister) haystack2_1;
                 intermediateResult = permutevar8x32 (packs searchResult1 searchResult2) perm_mask;
                 A = movemask8 intermediateResult;
                 searchResult11 = cmpeq (and_lanes haystack1_1 searchRegister) searchRegister;
                 searchResult22 = cmpeq (and_lanes haystack2_1 searchRegister) searchRegister;
                 intermediateResult1 = permutevar8x32 (packs searchResult11 searchResult22) perm_mask;
                 B = movemask8 intermediateResult1
             in Inr (movemask8 intermediateResult, g \<lparr> wildcard_affected_entry_mask := A AND B \<rparr>))))"

definition search_u32 :: "u32 \<Rightarrow> u32 list \<Rightarrow> Search_globals \<Rightarrow> (u32 \<times> Search_globals) cxx" where
  "search_u32 uncompressedSearchMask mEntries g =
     (let searchRegister = set1 8 uncompressedSearchMask in
      rbind (loadu 8 0 mEntries) (\<lambda>haystack1.
      rbind (loadu 8 8 mEntries) (\<lambda>haystack2.
      rbind (loadu 8 16 mEntries) (\<lambda>haystack3.
      rbind (loadu 8 24 mEntries) (\<lambda>haystack4.
        if extract_mask g = 0
        then let searchResult1 = cmpeq (and_lanes haystack1 searchRegister) haystack1;
                 searchResult2 = cmpeq (and_lanes haystack2 searchRegister) haystack2;
                 searchResult3 = cmpeq (and_lanes haystack3 searchRegister) haystack3;
                 searchResult4 = cmpeq (and_lanes haystack4 searchRegister) haystack4;
                 packed12 = permutevar8x32 (packs searchResult1 searchResult2) perm_mask :: u16 list;
                 packed34 = permutevar8x32 (packs searchResult3 searchResult4) perm_mask;
                 intermediateResult = permutevar8x32 (packs packed12 packed34) perm_mask
             in Inr (movemask8 intermediateResult, g)
        else let haystack1_1 = map (project (extract_mask g)) haystack1;
                 haystack2_1 = map (project (extract_mask g)) haystack2;
                 haystack3_1 = map (project (extract_mask g)) haystack3;
                 haystack4_1 = map (project (extract_mask g)) haystack4;
                 searchResult1 = cmpeq (and_lanes haystack1_1 searchRegister) haystack1_1;
                 searchResult2 = cmpeq (and_lanes haystack2_1 searchRegister) haystack2_1;
                 searchResult3 = cmpeq (and_lanes haystack3_1 searchRegister) haystack3_1;
                 searchResult4 = cmpeq (and_lanes haystack4_1 searchRegister) haystack4_1;
                 packed12 = permutevar8x32 (packs searchResult1 searchResult2) perm_mask :: u16 list;
                 packed34 = permutevar8x32 (packs searchResult3 searchResult4) perm_mask;
                 intermediateResult = permutevar8x32 (packs packed12 packed34) perm_mask;
                 A = movemask8 intermediateResult;
                 searchResult11 = cmpeq (and_lanes haystack1_1 searchRegister) searchRegister;
                 searchResult22 = cmpeq (and_lanes haystack2_1 searchRegister) searchRegister;
                 searchResult33 = cmpeq (and_lanes haystack3_1 searchRegister) searchRegister;
                 searchResult44 = cmpeq (and_lanes haystack4_1 searchRegister) searchRegister;
                 packed1122 = permutevar8x32 (packs searchResult11 searchResult22) perm_mask :: u16 list;
                 packed3344 = permutevar8x32 (packs searchResult33 searchResult44) perm_mask;
                 intermediateResult1 = permutevar8x32 (packs packed1122 packed3344) perm_mask;
                 B = movemask8 intermediateResult1
             in Inr (movemask8 intermediateResult, g \<lparr> wildcard_affected_entry_mask := A AND B \<rparr>))))))"

section \<open>Pattern search\<close>

definition findMasks_u8 :: "u8 list \<Rightarrow> u8 list \<Rightarrow> u8 list \<Rightarrow> u32 cxx" where
  "findMasks_u8 mEntries consideredBitsRegister expectedBitsRegister =
     rbind (loadu 32 0 mEntries) (\<lambda>haystack.
       Inr (movemask8 (cmpeq (and_lanes haystack consideredBitsRegister) expectedBitsRegister)))"

definition findMasks_u16 :: "u16 list \<Rightarrow> u16 list \<Rightarrow> u16 list \<Rightarrow> u32 cxx" where
  "findMasks_u16 mEntries consideredBitsRegister expectedBitsRegister =
     rbind (loadu 16 0 mEntries) (\<lambda>haystack1.
     rbind (loadu 16 16 mEntries) (\<lambda>haystack2.
       let searchResult1 = cmpeq (and_lanes haystack1 consideredBitsRegister) expectedBitsRegister;
           searchResult2 = cmpeq (and_lanes haystack2 consideredBitsRegister) expectedBitsRegister;
           intermediateResult = permutevar8x32 (packs searchResult1 searchResult2) perm_mask
       in Inr (movemask8 intermediateResult)))"

definition findMasks_u32 :: "u32 list \<Rightarrow> u32 list \<Rightarrow> u32 list \<Rightarrow> u32 cxx" where
  "findMasks_u32 mEntries consideredBitsRegister expectedBitsRegister =
     rbind (loadu 8 0 mEntries) (\<lambda>haystack1.
     rbind (loadu 8 8 mEntries) (\<lambda>haystack2.
     rbind (loadu 8 16 mEntries) (\<lambda>haystack3.
     rbind (loadu 8 24 mEntries) (\<lambda>haystack4.
       let searchResult1 = cmpeq (and_lanes haystack1 consideredBitsRegister) expectedBitsRegister;
           searchResult2 = cmpeq (and_lanes haystack2 consideredBitsRegister) expectedBitsRegister;
           searchResult3 = cmpeq (and_lanes haystack3 consideredBitsRegister) expectedBitsRegister;
           searchResult4 = cmpeq (and_lanes haystack4 consideredBitsRegister) expectedBitsRegister;
           packed12 = permutevar8x32 (packs searchResult1 searchResult2) perm_mask :: u16 list;
           packed34 = permutevar8x32 (packs searchResult3 searchResult4) perm_mask;
           intermediateResult = permutevar8x32 (packs packed12 packed34) perm_mask
       in Inr (movemask8 intermediateResult)))))"

text \<open>The public pattern search and the subtree mask, for a width given by its broadcast and search.\<close>

definition findMasksByPattern ::
  "nat \<Rightarrow> ('a::len word list \<Rightarrow> 'a word list \<Rightarrow> 'a word list \<Rightarrow> u32 cxx) \<Rightarrow> 'a word list \<Rightarrow> 'a word \<Rightarrow> u32 cxx" where
  "findMasksByPattern lanes find_masks mEntries partialKeyPattern =
     (let searchRegister = set1 lanes partialKeyPattern
      in find_masks mEntries searchRegister searchRegister)"

definition getAffectedSubtreeMask ::
  "nat \<Rightarrow> ('a::len word list \<Rightarrow> 'a word list \<Rightarrow> 'a word list \<Rightarrow> u32 cxx) \<Rightarrow> 'a word list \<Rightarrow> 'a word \<Rightarrow> 'a word
   \<Rightarrow> u32 cxx" where
  "getAffectedSubtreeMask lanes find_masks mEntries usedPrefixBitsPattern expectedPrefixBits =
     (let prefixBITSSIMDMask = set1 lanes usedPrefixBitsPattern;
          prefixMask = set1 lanes expectedPrefixBits
      in find_masks mEntries prefixBITSSIMDMask prefixMask)"

section \<open>The searches against their specification\<close>

text \<open>One bit per entry: bit \<open>i\<close> is set when entry \<open>i\<close> satisfies the condition.\<close>

definition entry_mask :: "('a \<Rightarrow> bool) \<Rightarrow> 'a list \<Rightarrow> u32" where
  "entry_mask P es = of_bits (map P (take 32 es))"

lemma bit_entry_mask [word_bits]:
  "bit (entry_mask P es) i \<longleftrightarrow> i < 32 \<and> i < length es \<and> P (es ! i)"
  by (auto simp: entry_mask_def word_bits)

lemma entry_mask_map: "entry_mask P (map f es) = entry_mask (\<lambda>e. P (f e)) es"
  by (simp add: entry_mask_def take_map comp_def)

lemma entry_mask_and: "entry_mask P es AND entry_mask Q es = entry_mask (\<lambda>e. P e \<and> Q e) es"
  by (rule bit_word_eqI) (auto simp: word_bits bit_and_iff)

definition search_spec :: "'a::len word \<Rightarrow> 'a word list \<Rightarrow> Search_globals \<Rightarrow> u32 \<times> Search_globals" where
  "search_spec key es g =
     (if extract_mask g = 0 then (entry_mask (\<lambda>e. e AND key = e) es, g)
      else let es' = map (project (extract_mask g)) es
           in (entry_mask (\<lambda>e. e AND key = e) es',
               g \<lparr> wildcard_affected_entry_mask := entry_mask (\<lambda>e. e = key) es' \<rparr>))"

lemma take_32_split_16:
  "take 32 es = take 16 es @ take 16 (drop 16 es)"
  using take_add [of 16 16 es] by simp

lemma take_32_split_8:
  "take 32 es = (take 8 es @ take 8 (drop 8 es)) @ take 8 (drop 16 es) @ take 8 (drop 24 es)"
  using take_add [of 8 8 es] take_add [of 8 8 "drop 16 es"] take_32_split_16 [of es]
  by (simp add: drop_drop add.commute)

lemma agree_both: "(e :: 'a::len word) AND k = e \<and> e AND k = k \<longleftrightarrow> e = k"
  by auto

lemma search_u8_spec:
  assumes "32 \<le> length es" shows "search_u8 key es g = Inr (search_spec key es g)"
  using assms
  by (simp add: search_u8_def search_spec_def Let_def loadu_Inr simd agree_both
      entry_mask_def take_map comp_def)

lemma search_u16_spec:
  assumes "32 \<le> length es" shows "search_u16 key es g = Inr (search_spec key es g)"
proof -
  have l: "length (take 16 es) = 16" "length (take 16 (drop 16 es)) = 16" using assms by simp_all
  let ?x = "extract_mask g"
  have m: "of_bits (map P (take 16 es) @ map P (take 16 (drop 16 es))) = entry_mask P es" for P :: "u16 \<Rightarrow> bool"
    by (simp add: entry_mask_def take_32_split_16)
  show ?thesis
  proof (cases "?x = 0")
    case True
    with l assms m [of "\<lambda>e. e AND key = e"] show ?thesis
      by (simp add: search_u16_def search_spec_def Let_def loadu_Inr simd)
  next
    case False
    with l assms m [of "\<lambda>e. project ?x e AND key = project ?x e"] m [of "\<lambda>e. project ?x e AND key = key"]
    show ?thesis
      by (simp add: search_u16_def search_spec_def Let_def loadu_Inr simd
          entry_mask_map entry_mask_and agree_both comp_def del: take_map)
  qed
qed

lemma search_u32_spec:
  assumes "32 \<le> length es" shows "search_u32 key es g = Inr (search_spec key es g)"
proof -
  have l: "length (take 8 es) = 8" "length (take 8 (drop 8 es)) = 8"
    "length (take 8 (drop 16 es)) = 8" "length (take 8 (drop 24 es)) = 8" using assms by simp_all
  let ?x = "extract_mask g"
  have m: "of_bits (map P (take 8 es) @ map P (take 8 (drop 8 es)) @ map P (take 8 (drop 16 es)) @
      map P (take 8 (drop 24 es))) = entry_mask P es" for P :: "u32 \<Rightarrow> bool"
    by (simp add: entry_mask_def take_32_split_8)
  show ?thesis
  proof (cases "?x = 0")
    case True
    with l assms m [of "\<lambda>e. e AND key = e"] show ?thesis
      by (simp add: search_u32_def search_spec_def Let_def loadu_Inr simd)
  next
    case False
    with l assms m [of "\<lambda>e. project ?x e AND key = project ?x e"] m [of "\<lambda>e. project ?x e AND key = key"]
    show ?thesis
      by (simp add: search_u32_def search_spec_def Let_def loadu_Inr simd
          entry_mask_map entry_mask_and agree_both comp_def)
  qed
qed

lemma findMasks_u8_spec:
  "32 \<le> length es \<Longrightarrow> findMasks_u8 es (set1 32 c) (set1 32 x) = Inr (entry_mask (\<lambda>e. e AND c = x) es)"
  by (simp add: findMasks_u8_def Let_def loadu_Inr simd entry_mask_def)

lemma findMasks_u16_spec:
  "32 \<le> length es \<Longrightarrow> findMasks_u16 es (set1 16 c) (set1 16 x) = Inr (entry_mask (\<lambda>e. e AND c = x) es)"
  by (simp add: findMasks_u16_def Let_def loadu_Inr simd entry_mask_def take_32_split_16)

lemma findMasks_u32_spec:
  "32 \<le> length es \<Longrightarrow> findMasks_u32 es (set1 8 c) (set1 8 x) = Inr (entry_mask (\<lambda>e. e AND c = x) es)"
  by (simp add: findMasks_u32_def Let_def loadu_Inr simd entry_mask_def take_32_split_8)

section \<open>Reading the structure of the trie off the keys\<close>

definition key_at :: "'a::len word list \<Rightarrow> nat \<Rightarrow> 'a word cxx" where
  "key_at es i = (if i < length es then Inr (es ! i) else Inl UB_Index)"

definition determineValueOfDiscriminatingBit :: "'a::len word list \<Rightarrow> nat \<Rightarrow> nat \<Rightarrow> bool cxx" where
  "determineValueOfDiscriminatingBit mEntries indexOfEntry mNumberEntries =
     (if indexOfEntry = 0 then Inr False
      else if Suc indexOfEntry = mNumberEntries then Inr True
      else rbind (key_at mEntries (indexOfEntry - 1)) (\<lambda>before.
           rbind (key_at mEntries indexOfEntry) (\<lambda>this.
           rbind (key_at mEntries (indexOfEntry + 1)) (\<lambda>after.
             Inr (before AND this \<ge> this AND after)))))"

definition getRelevantBitsForRange :: "'a::len word list \<Rightarrow> nat \<Rightarrow> nat \<Rightarrow> 'a word cxx" where
  "getRelevantBitsForRange mEntries firstIndexInRange numberEntriesInRange =
     (let firstIndexOutOfRange = firstIndexInRange + numberEntriesInRange
      in rfold (\<lambda>i relevantBits.
           rbind (key_at mEntries i) (\<lambda>this.
           rbind (key_at mEntries (i - 1)) (\<lambda>before.
             Inr (relevantBits OR (this AND NOT before)))))
         [firstIndexInRange + 1..<firstIndexOutOfRange] 0)"

definition getRelevantBitsForAllExceptOneEntry :: "'a::len word list \<Rightarrow> nat \<Rightarrow> nat \<Rightarrow> 'a word cxx" where
  "getRelevantBitsForAllExceptOneEntry mEntries numberEntries indexOfEntryToIgnore =
     rbind (determineValueOfDiscriminatingBit mEntries indexOfEntryToIgnore numberEntries) (\<lambda>v.
       let numberEntriesInFirstRange = indexOfEntryToIgnore + of_bool (\<not> v)
       in rbind (getRelevantBitsForRange mEntries 0 numberEntriesInFirstRange) (\<lambda>relevantBitsInFirstPart.
          rbind (getRelevantBitsForRange mEntries numberEntriesInFirstRange
                   (numberEntries - numberEntriesInFirstRange)) (\<lambda>relevantBitsInSecondPart.
            Inr (relevantBitsInFirstPart OR relevantBitsInSecondPart))))"

text \<open>The number of bytes of the keys, rounded up to a multiple of eight (16-bit arithmetic).\<close>

definition alignToNextHighestValueDivisableBy8 :: "u16 \<Rightarrow> u16" where
  "alignToNextHighestValueDivisableBy8 sz =
     (if sz mod 8 = 0 then sz else (sz AND NOT 7) + 8)"

definition estimateSize :: "nat \<Rightarrow> u16 \<Rightarrow> u16" where
  "estimateSize sizeof_key numberEntries =
     alignToNextHighestValueDivisableBy8 (of_nat (unat numberEntries * sizeof_key))"

text \<open>\<open>operator new\<close>: the number of lanes allocated for the keys with their padding.\<close>

definition new_SparsePartialKeys :: "nat \<Rightarrow> u16 \<Rightarrow> nat" where
  "new_SparsePartialKeys sizeof_key numberEntries =
     (let paddingElements = (32 - 8) div sizeof_key;
          estimatedNumberElements = unat (estimateSize sizeof_key numberEntries) div sizeof_key
      in estimatedNumberElements + paddingElements)"

section \<open>The search as an interface\<close>

text \<open>
  What the node relies on, whatever the width of the keys: the search and the pattern search are
  those of the specification.  Entry 0 always has the empty sparse key, so a search always finds
  something, and its highest bit is the index of an entry in use.
\<close>

locale partial_key_search =
  fixes lanes :: nat
    and srch :: "'a::len word \<Rightarrow> 'a word list \<Rightarrow> Search_globals \<Rightarrow> (u32 \<times> Search_globals) cxx"
    and find_masks :: "'a word list \<Rightarrow> 'a word list \<Rightarrow> 'a word list \<Rightarrow> u32 cxx"
  assumes search_law: "32 \<le> length es \<Longrightarrow> srch key es g = Inr (search_spec key es g)"
    and find_law: "32 \<le> length es \<Longrightarrow>
      find_masks es (set1 lanes c) (set1 lanes x) = Inr (entry_mask (\<lambda>e. e AND c = x) es)"
begin

lemma search_finds_first:
  assumes "32 \<le> length es" and "es ! 0 = 0"
  shows "\<exists>r g'. srch key es g = Inr (r, g') \<and> bit r 0"
proof -
  have "es \<noteq> []" using assms(1) by auto
  then show ?thesis
    using assms by (auto simp: search_law search_spec_def Let_def word_bits project_def)
qed

lemma pattern: "32 \<le> length es \<Longrightarrow>
    findMasksByPattern lanes find_masks es p = Inr (entry_mask (\<lambda>e. e AND p = p) es)"
  by (simp add: findMasksByPattern_def find_law)

lemma subtree: "32 \<le> length es \<Longrightarrow>
    getAffectedSubtreeMask lanes find_masks es used expected = Inr (entry_mask (\<lambda>e. e AND used = expected) es)"
  by (simp add: getAffectedSubtreeMask_def find_law)

end

interpretation keys8: partial_key_search 32 search_u8 findMasks_u8
  by unfold_locales (simp_all add: search_u8_spec findMasks_u8_spec)

interpretation keys16: partial_key_search 16 search_u16 findMasks_u16
  by unfold_locales (simp_all add: search_u16_spec findMasks_u16_spec)

interpretation keys32: partial_key_search 8 search_u32 findMasks_u32
  by unfold_locales (simp_all add: search_u32_spec findMasks_u32_spec)

end
