(* ===== verification/Linearised_Trie.thy ===== *)
theory Linearised_Trie
  imports Sparse_Partial_Keys
begin

text \<open>
  The binary Patricia trie that a node stores in linear form, as the abstract specification of
  the sparse partial keys: a binary node tests one bit of the partial key, and the sparse key of
  an entry has the bits set at which its path goes right.  The functions of
  \<open>SparsePartialKeys.hpp\<close> are shown to compute on the list of keys what they mean on the trie.
\<close>

unbundle bit_operations_syntax

section \<open>The trie and its linear form\<close>

datatype 'v ptrie = PLeaf 'v | PNode nat "'v ptrie" "'v ptrie"

fun leaves :: "'v ptrie \<Rightarrow> 'v list" where
  "leaves (PLeaf v) = [v]"
| "leaves (PNode b l r) = leaves l @ leaves r"

fun bits_of :: "'v ptrie \<Rightarrow> nat set" where
  "bits_of (PLeaf v) = {}"
| "bits_of (PNode b l r) = insert b (bits_of l \<union> bits_of r)"

fun lin :: "'a::len word \<Rightarrow> 'v ptrie \<Rightarrow> 'a word list" where
  "lin pre (PLeaf v) = [pre]"
| "lin pre (PNode b l r) = lin pre l @ lin (pre OR push_bit b 1) r"

text \<open>The bits tested on a path are distinct and are bits of the partial key.\<close>

fun path_wf :: "nat \<Rightarrow> nat set \<Rightarrow> 'v ptrie \<Rightarrow> bool" where
  "path_wf w U (PLeaf v) \<longleftrightarrow> True"
| "path_wf w U (PNode b l r) \<longleftrightarrow> b < w \<and> b \<notin> U \<and> path_wf w (insert b U) l \<and> path_wf w (insert b U) r"

text \<open>Looking a dense partial key up in the trie: the index of the leaf it leads to.\<close>

fun walk :: "'a::len word \<Rightarrow> 'v ptrie \<Rightarrow> nat" where
  "walk d (PLeaf v) = 0"
| "walk d (PNode b l r) = (if bit d b then length (leaves l) + walk d r else walk d l)"

fun lookup_trie :: "'a::len word \<Rightarrow> 'v ptrie \<Rightarrow> 'v" where
  "lookup_trie d (PLeaf v) = v"
| "lookup_trie d (PNode b l r) = (if bit d b then lookup_trie d r else lookup_trie d l)"

lemma leaves_not_Nil [simp]: "leaves t \<noteq> []"
  by (induction t) simp_all

lemma length_lin [simp]: "length (lin pre t) = length (leaves t)"
  by (induction t arbitrary: pre) simp_all

lemma lin_not_Nil [simp]: "lin pre t \<noteq> []"
  by (metis length_0_conv length_lin leaves_not_Nil)

lemma walk_less: "walk d t < length (leaves t)"
  by (induction t) auto

lemma leaves_walk: "leaves t ! walk d t = lookup_trie d t"
  using walk_less by (induction t) (auto simp: nth_append)

lemma hd_lin [simp]: "hd (lin pre t) = pre"
  by (induction t arbitrary: pre) simp_all

text \<open>Which bits a key of the linear form can have.\<close>

lemma bit_lin_prefix:
  "e \<in> set (lin pre t) \<Longrightarrow> bit pre k \<Longrightarrow> bit e k"
  by (induction t arbitrary: pre) (auto simp: bit_or_iff)

lemma bit_lin_bound:
  "e \<in> set (lin pre t) \<Longrightarrow> bit e k \<Longrightarrow> bit pre k \<or> k \<in> bits_of t"
  by (induction t arbitrary: pre) (fastforce simp: bit_or_iff bit_single bit_power_two)+

lemma path_wf_bits: "path_wf w U t \<Longrightarrow> bits_of t \<inter> U = {}"
proof (induction t arbitrary: U)
  case (PLeaf v)
  show ?case by simp
next
  case (PNode b l r)
  then show ?case using PNode.IH(1) [of "insert b U"] PNode.IH(2) [of "insert b U"] by auto
qed

lemma path_wf_mono: "path_wf w U t \<Longrightarrow> V \<subseteq> U \<Longrightarrow> path_wf w V t"
  by (induction t arbitrary: U V) (simp, simp, meson insert_mono subsetD)

section \<open>Search is the walk down the trie\<close>

lemma match_pre:
  assumes "e \<in> set (lin (pre OR push_bit b 1) r)" and "e AND d = e" and "b < LENGTH('a)"
  shows "bit (d :: 'a::len word) b"
proof -
  have "bit e b" using assms(1,3) by (auto intro: bit_lin_prefix simp: bit_or_iff bit_single bit_power_two)
  then show ?thesis using assms(2) by (metis bit_and_iff)
qed

lemma walk_matches:
  fixes d pre :: "'a::len word"
  assumes "path_wf LENGTH('a) U t" and "pre AND d = pre"
  shows "lin pre t ! walk d t AND d = lin pre t ! walk d t \<and>
    (\<forall>i. walk d t < i \<longrightarrow> i < length (leaves t) \<longrightarrow> lin pre t ! i AND d \<noteq> lin pre t ! i)"
  using assms
proof (induction t arbitrary: U pre)
  case (PLeaf v)
  then show ?case by simp
next
  case (PNode b l r)
  let ?pr = "pre OR push_bit b 1"
  from PNode.prems(1) have wf: "b < LENGTH('a)" "path_wf LENGTH('a) (insert b U) l" "path_wf LENGTH('a) (insert b U) r"
    by simp_all
  show ?case
  proof (cases "bit d b")
    case True
    have "?pr AND d = ?pr"
      using PNode.prems(2) True by (auto simp: word_eq_iff_bits bit_simps bit_single bit_power_two)
    note IH = PNode.IH(2) [OF wf(3) this]
    have "lin pre l @ lin ?pr r = lin pre (PNode b l r)" by simp
    then show ?thesis using True IH walk_less [of d r]
      by (auto simp: nth_append)
  next
    case False
    note IH = PNode.IH(1) [OF wf(2) PNode.prems(2)]
    have "lin ?pr r ! j AND d \<noteq> lin ?pr r ! j" if "j < length (leaves r)" for j
      using match_pre [OF _ _ wf(1), of "lin ?pr r ! j" pre r d] that False by auto
    then show ?thesis using False IH walk_less [of d l]
      by (auto simp: nth_append)
  qed
qed

text \<open>The highest bit of the search result among the entries in use is the leaf of the walk.\<close>

lemma bsr_eqI:
  fixes m :: "'a::len word"
  assumes "bit m i" and "\<And>j. i < j \<Longrightarrow> \<not> bit m j"
  shows "bsr undef m = i"
proof -
  have "m \<noteq> 0" using assms(1) by auto
  moreover have "i < LENGTH('a)" using assms(1) by (rule bit_imp_le_length)
  ultimately show ?thesis using lzcnt_eqI [OF assms] by (simp add: bsr_def)
qed

lemma search_result_index:
  fixes d :: "'a::len word"
  assumes "path_wf LENGTH('a) {} t" and "length (leaves t) \<le> 32" and "take (length (leaves t)) es = lin 0 t"
  shows "bsr undef (entry_mask (\<lambda>e. e AND d = e) es AND mask (length (leaves t))) = walk d t"
proof (rule bsr_eqI)
  let ?n = "length (leaves t)"
  have len: "?n \<le> length es" using assms(3) by (metis length_lin length_take min.absorb_iff2 min.commute)
  have e: "es ! i = lin 0 t ! i" if "i < ?n" for i
    using assms(3) that by (metis nth_take)
  note wm = walk_matches [OF assms(1), of 0 d]
  show "bit (entry_mask (\<lambda>e. e AND d = e) es AND mask ?n) (walk d t)"
    using wm walk_less [of d t] len assms(2) by (auto simp: word_bits bit_and_iff bit_mask_iff e)
  show "\<not> bit (entry_mask (\<lambda>e. e AND d = e) es AND mask ?n) j" if "walk d t < j" for j
    using wm that by (auto simp: word_bits bit_and_iff bit_mask_iff e)
qed

section \<open>The subtree affected by an insertion\<close>

text \<open>
  \<open>P\<close> holds the bits above the mismatch: on every path they come before the others.  The entries
  of the subtree below them on the way to leaf \<open>i\<close> are those from \<open>fst\<close> on, \<open>snd\<close> many.
\<close>

fun prefix_bits :: "nat set \<Rightarrow> 'v ptrie \<Rightarrow> bool" where
  "prefix_bits P (PLeaf v) \<longleftrightarrow> True"
| "prefix_bits P (PNode b l r) \<longleftrightarrow>
     (if b \<in> P then prefix_bits P l \<and> prefix_bits P r else bits_of (PNode b l r) \<inter> P = {})"

fun subtree_range :: "nat set \<Rightarrow> nat \<Rightarrow> 'v ptrie \<Rightarrow> nat \<times> nat" where
  "subtree_range P i (PLeaf v) = (0, 1)"
| "subtree_range P i (PNode b l r) =
     (if b \<notin> P then (0, length (leaves (PNode b l r)))
      else if i < length (leaves l) then subtree_range P i l
      else map_prod ((+) (length (leaves l))) id (subtree_range P (i - length (leaves l)) r))"

lemma subtree_range_bounds:
  "i < length (leaves t) \<Longrightarrow> case subtree_range P i t of (s, c) \<Rightarrow> s \<le> i \<and> i < s + c \<and> s + c \<le> length (leaves t)"
proof (induction t arbitrary: i)
  case (PLeaf v)
  then show ?case by simp
next
  case (PNode b l r)
  show ?case
  proof (cases "i < length (leaves l)")
    case True
    then show ?thesis using PNode.IH(1) [OF True] PNode.prems by (auto simp: split_beta)
  next
    case False
    then have "i - length (leaves l) < length (leaves r)" using PNode.prems by simp
    from PNode.IH(2) [OF this] False PNode.prems show ?thesis by (auto simp: split_beta)
  qed
qed

lemma same_prefix_sides:
  fixes p :: "'a::len word"
  assumes "bit p b" "b < LENGTH('a)" "b \<notin> bits_of l" "\<not> bit pre b"
    and "e \<in> set (lin pre l)" "f \<in> set (lin (pre OR push_bit b 1) r)"
  shows "e AND p \<noteq> f AND p"
proof -
  have "\<not> bit e b" using assms(3,4,5) bit_lin_bound by blast
  moreover have "bit f b" using assms(2,6) by (auto intro: bit_lin_prefix simp: bit_or_iff bit_single bit_power_two)
  ultimately show ?thesis using assms(1) by (metis bit_and_iff)
qed

lemma subtree_range_exact:
  fixes p pre :: "'a::len word"
  assumes "path_wf LENGTH('a) {k. bit pre k} t" and "prefix_bits {k. bit p k} t"
    and "i < length (leaves t)" "j < length (leaves t)"
  shows "lin pre t ! j AND p = lin pre t ! i AND p \<longleftrightarrow>
    (case subtree_range {k. bit p k} i t of (s, c) \<Rightarrow> s \<le> j \<and> j < s + c)"
  using assms
proof (induction t arbitrary: pre i j)
  case (PLeaf v)
  then show ?case by simp
next
  case (PNode b l r)
  let ?P = "{k. bit p k}" and ?pr = "pre OR push_bit b 1" and ?n = "length (leaves l)"
  from PNode.prems(1) have wf: "b < LENGTH('a)" "\<not> bit pre b"
    "path_wf LENGTH('a) (insert b {k. bit pre k}) l" "path_wf LENGTH('a) (insert b {k. bit pre k}) r" by simp_all
  have wl: "path_wf LENGTH('a) {k. bit pre k} l" using wf(3) by (rule path_wf_mono) blast
  have wr: "path_wf LENGTH('a) {k. bit ?pr k} r"
    using wf(4) by (rule path_wf_mono) (auto simp: bit_or_iff bit_single bit_power_two)
  have bl: "b \<notin> bits_of l" using path_wf_bits [OF wf(3)] by blast
  show ?case
  proof (cases "b \<in> ?P")
    case False
    have "bits_of (PNode b l r) \<inter> ?P = {}" using PNode.prems(2) False by simp
    then have "lin pre (PNode b l r) ! x AND p = pre AND p" if "x < length (leaves (PNode b l r))" for x
    proof -
      let ?e = "lin pre (PNode b l r) ! x"
      have "?e \<in> set (lin pre (PNode b l r))" using that by (metis length_lin nth_mem)
      then have "bit ?e k = bit pre k" if "bit p k" for k
        using bit_lin_prefix [of ?e pre "PNode b l r" k] bit_lin_bound [of ?e pre "PNode b l r" k] that
          \<open>bits_of (PNode b l r) \<inter> ?P = {}\<close> by blast
      then show ?thesis by (auto simp: word_eq_iff_bits bit_and_iff)
    qed
    with False PNode.prems(3,4) show ?thesis by simp
  next
    case True
    then have pl: "prefix_bits ?P l" and pr: "prefix_bits ?P r" using PNode.prems(2) by simp_all
    have sides: "e AND p \<noteq> f AND p" if "e \<in> set (lin pre l)" "f \<in> set (lin ?pr r)" for e f
      using same_prefix_sides [of p b l pre e f r] True wf(1,2) bl that by simp
    show ?thesis
    proof (cases "i < ?n"; cases "j < ?n")
      assume "i < ?n" "j < ?n"
      then show ?thesis using PNode.IH(1) [OF wl pl, of i j] True by (simp add: nth_append)
    next
      assume ij: "i < ?n" "\<not> j < ?n"
      have "lin pre l ! i \<in> set (lin pre l)" "lin ?pr r ! (j - ?n) \<in> set (lin ?pr r)"
        using ij PNode.prems(4) by (simp_all add: nth_mem)
      then have "lin pre (PNode b l r) ! j AND p \<noteq> lin pre (PNode b l r) ! i AND p"
        using sides [THEN not_sym] ij by (simp add: nth_append)
      then show ?thesis using ij True subtree_range_bounds [of i l ?P] by (auto simp: split_beta)
    next
      assume ij: "\<not> i < ?n" "j < ?n"
      have "lin pre l ! j \<in> set (lin pre l)" "lin ?pr r ! (i - ?n) \<in> set (lin ?pr r)"
        using ij PNode.prems(3) by (simp_all add: nth_mem)
      then have "lin pre (PNode b l r) ! j AND p \<noteq> lin pre (PNode b l r) ! i AND p"
        using sides ij by (simp add: nth_append)
      then show ?thesis using ij True by (auto simp: split_beta)
    next
      assume ij: "\<not> i < ?n" "\<not> j < ?n"
      then show ?thesis
        using PNode.IH(2) [OF wr pr, of "i - ?n" "j - ?n"] PNode.prems(3,4) True
        by (auto simp: nth_append split_beta)
    qed
  qed
qed

section \<open>The bits a range of entries needs\<close>

text \<open>The bits collected over the neighbours in a list of keys.\<close>

definition rel_bits :: "'a::len word list \<Rightarrow> nat set" where
  "rel_bits es = {k. \<exists>i. Suc i < length es \<and> bit (es ! Suc i) k \<and> \<not> bit (es ! i) k}"

lemma rel_bits_append:
  assumes "xs \<noteq> []" and "ys \<noteq> []"
  shows "rel_bits (xs @ ys) = rel_bits xs \<union> {k. bit (hd ys) k \<and> \<not> bit (last xs) k} \<union> rel_bits ys"
    (is "?l = ?r")
proof (intro set_eqI iffI)
  fix k assume "k \<in> ?l"
  then obtain i where i: "Suc i < length xs + length ys" "bit ((xs @ ys) ! Suc i) k" "\<not> bit ((xs @ ys) ! i) k"
    by (auto simp: rel_bits_def)
  consider "Suc i < length xs" | "Suc i = length xs" | "length xs \<le> i" by linarith
  then show "k \<in> ?r"
  proof cases
    case 1
    then show ?thesis using i by (auto simp: rel_bits_def nth_append)
  next
    case 2
    then have "(xs @ ys) ! i = last xs" "(xs @ ys) ! Suc i = hd ys"
      using assms by (simp_all add: nth_append last_conv_nth hd_conv_nth flip: 2)
    then show ?thesis using i by simp
  next
    case 3
    then have "Suc (i - length xs) < length ys \<and> bit (ys ! Suc (i - length xs)) k \<and> \<not> bit (ys ! (i - length xs)) k"
      using i by (simp add: nth_append Suc_diff_le)
    then show ?thesis by (auto simp: rel_bits_def)
  qed
next
  fix k assume "k \<in> ?r"
  then consider (xs) "k \<in> rel_bits xs" | (mid) "bit (hd ys) k" "\<not> bit (last xs) k" | (ys) "k \<in> rel_bits ys"
    by auto
  then show "k \<in> ?l"
  proof cases
    case xs
    then obtain i where "Suc i < length xs" "bit (xs ! Suc i) k" "\<not> bit (xs ! i) k" by (auto simp: rel_bits_def)
    then show ?thesis by (auto simp: rel_bits_def nth_append intro!: exI [of _ i])
  next
    case mid
    have "Suc (length xs - 1) = length xs" using assms(1) by (cases xs) auto
    then show ?thesis using mid assms
      by (auto simp: rel_bits_def nth_append last_conv_nth hd_conv_nth intro!: exI [of _ "length xs - 1"])
  next
    case ys
    then obtain i where "Suc i < length ys" "bit (ys ! Suc i) k" "\<not> bit (ys ! i) k" by (auto simp: rel_bits_def)
    then show ?thesis by (auto simp: rel_bits_def nth_append intro!: exI [of _ "length xs + i"])
  qed
qed

lemma rel_bits_single [simp]: "rel_bits [e] = {}"
  by (simp add: rel_bits_def)

lemma getRelevantBits_rel:
  assumes "f + c \<le> length es"
  obtains w where "getRelevantBitsForRange es f c = Inr w"
    "{k. bit (w :: 'a::len word) k} = rel_bits (take c (drop f es))"
proof -
  let ?step = "\<lambda>i relevantBits. rbind (key_at es i) (\<lambda>this. rbind (key_at es (i - 1)) (\<lambda>before.
      Inr (relevantBits OR (this AND NOT before))))"
  have step: "rfold ?step is r = Inr (fold (\<lambda>i r. r OR (es ! i AND NOT (es ! (i - 1)))) is r)"
    if "\<forall>i \<in> set is. i < length es" for "is" r
    using that by (induction "is" arbitrary: r) (auto simp: key_at_def)
  have fold: "bit (fold (\<lambda>i r. r OR (es ! i AND NOT (es ! (i - 1)))) is r) k \<longleftrightarrow>
      bit r k \<or> (\<exists>i \<in> set is. bit (es ! i) k \<and> \<not> bit (es ! (i - 1)) k)" for "is" r k
    by (induction "is" arbitrary: r) (auto simp: bit_simps dest: bit_imp_le_length)
  define w where "w = fold (\<lambda>i r. r OR (es ! i AND NOT (es ! (i - 1)))) [f + 1..<f + c] 0"
  have "getRelevantBitsForRange es f c = Inr w"
    unfolding getRelevantBitsForRange_def Let_def w_def by (rule step) (use assms in auto)
  moreover have "{k. bit w k} = rel_bits (take c (drop f es))"
  proof (intro set_eqI iffI)
    fix k assume "k \<in> {k. bit w k}"
    then have "\<exists>i \<in> set [f + 1..<f + c]. bit (es ! i) k \<and> \<not> bit (es ! (i - 1)) k"
      unfolding w_def mem_Collect_eq fold by simp
    then obtain i where i: "i \<in> set [f + 1..<f + c]" "bit (es ! i) k" "\<not> bit (es ! (i - 1)) k" by blast
    then have "f < i" "i < f + c" by simp_all
    note i = this i(2,3)
    then show "k \<in> rel_bits (take c (drop f es))"
      using i assms by (auto simp: rel_bits_def add.commute intro!: exI [of _ "i - f - 1"])
  next
    fix k assume "k \<in> rel_bits (take c (drop f es))"
    then obtain i where "Suc i < c" "bit (es ! (f + Suc i)) k" "\<not> bit (es ! (f + i)) k"
      using assms by (auto simp: rel_bits_def)
    then show "k \<in> {k. bit w k}"
      unfolding w_def mem_Collect_eq fold by (auto intro!: bexI [of _ "f + Suc i"])
  qed
  ultimately show thesis by (rule that)
qed

lemma boundary_bits:
  assumes "b < LENGTH('a)" "b \<notin> bits_of l" "\<not> bit (pre :: 'a::len word) b"
    and "hd ys = pre OR push_bit b 1" and "last xs \<in> set (lin pre l)"
  shows "{k. bit (hd ys) k \<and> \<not> bit (last xs) k} = {b}"
proof -
  have "\<not> bit (last xs) b" using assms(2,3,5) bit_lin_bound by blast
  moreover have "bit pre k \<Longrightarrow> bit (last xs) k" for k using assms(5) bit_lin_prefix by blast
  ultimately show ?thesis using assms(1,4) by (auto simp: bit_or_iff bit_single bit_power_two)
qed

lemma path_wf_children:
  fixes pre :: "'a::len word"
  assumes "path_wf LENGTH('a) {k. bit pre k} (PNode b l r)"
  shows "b < LENGTH('a)" "\<not> bit pre b" "b \<notin> bits_of l" "b \<notin> bits_of r"
    "path_wf LENGTH('a) {k. bit pre k} l" "path_wf LENGTH('a) {k. bit (pre OR push_bit b 1) k} r"
proof -
  from assms have wf: "path_wf LENGTH('a) (insert b {k. bit pre k}) l" "path_wf LENGTH('a) (insert b {k. bit pre k}) r"
    by simp_all
  show "b < LENGTH('a)" "\<not> bit pre b" using assms by simp_all
  show "b \<notin> bits_of l" "b \<notin> bits_of r" using wf path_wf_bits by blast+
  show "path_wf LENGTH('a) {k. bit pre k} l" using wf(1) by (rule path_wf_mono) blast
  show "path_wf LENGTH('a) {k. bit (pre OR push_bit b 1) k} r"
    using wf(2) by (rule path_wf_mono) (auto simp: bit_or_iff bit_single bit_power_two)
qed

lemma rel_bits_lin:
  fixes pre :: "'a::len word"
  assumes "path_wf LENGTH('a) {k. bit pre k} t"
  shows "rel_bits (lin pre t) = bits_of t"
  using assms
proof (induction t arbitrary: pre)
  case (PLeaf v)
  show ?case by simp
next
  case (PNode b l r)
  note wf = path_wf_children [OF PNode.prems]
  have "{k. bit (hd (lin (pre OR push_bit b 1) r)) k \<and> \<not> bit (last (lin pre l)) k} = {b}"
    by (rule boundary_bits [OF wf(1,3,2)]) simp_all
  then show ?case
    by (simp add: rel_bits_append PNode.IH(1) [OF wf(5)] PNode.IH(2) [OF wf(6), simplified])
qed

section \<open>The side of a leaf, and removing it\<close>

fun is_leaf :: "'v ptrie \<Rightarrow> bool" where
  "is_leaf (PLeaf v) \<longleftrightarrow> True"
| "is_leaf (PNode b l r) \<longleftrightarrow> False"

text \<open>Whether leaf \<open>i\<close> is the right child of its parent.\<close>

fun right_child :: "nat \<Rightarrow> 'v ptrie \<Rightarrow> bool" where
  "right_child i (PLeaf v) \<longleftrightarrow> False"
| "right_child i (PNode b l r) \<longleftrightarrow>
     (if i < length (leaves l) then right_child i l
      else is_leaf r \<or> right_child (i - length (leaves l)) r)"

text \<open>Removing a leaf replaces its parent by its sibling.\<close>

fun remove_leaf :: "nat \<Rightarrow> 'v ptrie \<Rightarrow> 'v ptrie" where
  "remove_leaf i (PLeaf v) = PLeaf v"
| "remove_leaf i (PNode b l r) =
     (if i < length (leaves l) then (if is_leaf l then r else PNode b (remove_leaf i l) r)
      else if is_leaf r then l else PNode b l (remove_leaf (i - length (leaves l)) r))"

lemma is_leaf_iff: "is_leaf t \<longleftrightarrow> length (leaves t) = 1"
proof (cases t)
  case (PLeaf v)
  then show ?thesis by simp
next
  case (PNode b l r)
  moreover have "0 < length (leaves l)" "0 < length (leaves r)" by simp_all
  then have "length (leaves l) + length (leaves r) \<noteq> 1" by linarith
  ultimately show ?thesis by simp
qed

lemma outer_leaves:
  "\<not> right_child 0 t"
  "\<not> is_leaf t \<Longrightarrow> right_child (length (leaves t) - 1) t"
proof (induction t)
  case (PNode b l r)
  {
    case 1
    then show ?case using PNode.IH(1) by simp
  next
    case 2
    have p: "0 < length (leaves l)" "0 < length (leaves r)" by simp_all
    have n: "length (leaves (PNode b l r)) = length (leaves l) + length (leaves r)" by simp
    have "length (leaves (PNode b l r)) - 1 - length (leaves l) = length (leaves r) - 1"
      unfolding n by linarith
    moreover have "\<not> length (leaves (PNode b l r)) - 1 < length (leaves l)" unfolding n using p by linarith
    ultimately show ?case using PNode.IH(4) by (simp only: right_child.simps if_False) blast
  }
qed simp_all

text \<open>A key is at least every key whose bits it contains.\<close>

lemma subset_bits_le:
  fixes v w :: "'a::len word"
  assumes "\<And>k. bit v k \<Longrightarrow> bit w k" shows "v \<le> w"
proof -
  have "v = w AND v" using assms by (intro bit_word_eqI) (auto simp: bit_and_iff)
  then show ?thesis by (metis word_and_le2)
qed

lemma above_pre:
  assumes "e \<in> set (lin pre t)" and "f \<in> set (lin pre t)" shows "pre \<le> e AND f"
  using assms bit_lin_prefix by (intro subset_bits_le) (auto simp: bit_and_iff)

lemma across:
  fixes pre :: "'a::len word"
  assumes "path_wf LENGTH('a) {k. bit pre k} (PNode b l r)" and "e \<in> set (lin pre l)"
  shows "e AND (pre OR push_bit b 1) = pre" "(pre OR push_bit b 1) AND e = pre"
    "pre < pre OR push_bit b 1"
proof -
  note wf = path_wf_children [OF assms(1)]
  have "\<not> bit e b" using assms(2) wf(2,3) bit_lin_bound by blast
  then show *: "e AND (pre OR push_bit b 1) = pre"
    using bit_lin_prefix [OF assms(2)]
    by (intro bit_word_eqI) (auto simp: bit_and_iff bit_or_iff bit_single bit_power_two)
  then show "(pre OR push_bit b 1) AND e = pre" by (simp add: and.commute)
  have "pre \<le> pre OR push_bit b 1" by (rule subset_bits_le) (simp add: bit_or_iff)
  moreover have "pre \<noteq> pre OR push_bit b 1"
    using wf(1,2) by (metis bit_or_iff bit_single)
  ultimately show "pre < pre OR push_bit b 1" by simp
qed

text \<open>The comparison of the code decides on which side of its parent an inner leaf is.\<close>

lemma right_child_compare:
  fixes pre :: "'a::len word"
  assumes "path_wf LENGTH('a) {k. bit pre k} t" and "0 < i" and "Suc i < length (leaves t)"
  shows "right_child i t \<longleftrightarrow>
    lin pre t ! (i - 1) AND lin pre t ! i \<ge> lin pre t ! i AND lin pre t ! Suc i"
  using assms
proof (induction t arbitrary: pre i)
  case (PLeaf v)
  then show ?case by simp
next
  case (PNode b l r)
  note wf = path_wf_children [OF PNode.prems(1)]
  let ?n = "length (leaves l)" and ?pr = "pre OR push_bit b 1"
  let ?L = "lin pre l" and ?R = "lin ?pr r"
  have n: "0 < ?n" "0 < length (leaves r)" by simp_all
  have R0: "?R ! 0 = ?pr" by (metis hd_conv_nth hd_lin lin_not_Nil)
  consider "Suc i < ?n" | "Suc i = ?n" | "i = ?n" | "?n < i" by linarith
  then show ?case
  proof cases
    case 1
    then have "i - 1 < ?n" "i < ?n" by linarith+
    then show ?thesis
      using PNode.IH(1) [OF wf(5) PNode.prems(2) 1] 1 by (simp add: nth_append)
  next
    case 2
    then have "i - 1 < ?n" "i < ?n" by linarith+
    with 2 have e: "lin pre (PNode b l r) ! (i - 1) = ?L ! (i - 1)" "lin pre (PNode b l r) ! i = ?L ! i"
      "lin pre (PNode b l r) ! Suc i = ?pr"
      using PNode.prems(2) R0 by (simp_all add: nth_append)
    have m: "?L ! (i - 1) \<in> set ?L" "?L ! i \<in> set ?L" using 2 by (auto intro!: nth_mem)
    have "\<not> is_leaf l" using 2 PNode.prems(2) by (simp add: is_leaf_iff)
    then have "right_child (?n - 1) l" by (rule outer_leaves(2))
    moreover have "i = ?n - 1" "i < ?n" using 2 by linarith+
    ultimately have "right_child i (PNode b l r)" by simp
    then show ?thesis unfolding e using above_pre [OF m] across(1) [OF PNode.prems(1) m(2)] by simp
  next
    case 3
    then have "i - 1 < ?n" using n PNode.prems(2) by linarith
    with 3 have e: "lin pre (PNode b l r) ! (i - 1) = ?L ! (i - 1)" "lin pre (PNode b l r) ! i = ?pr"
      "lin pre (PNode b l r) ! Suc i = ?R ! 1"
      using PNode.prems(2) R0 by (simp_all add: nth_append)
    have m: "?L ! (i - 1) \<in> set ?L" "?R ! 1 \<in> set ?R" "?pr \<in> set ?R"
      using 3 n PNode.prems(2,3) hd_in_set [of ?R] by (auto intro!: nth_mem)
    have "\<not> is_leaf r" using 3 PNode.prems(3) by (simp add: is_leaf_iff)
    then have "\<not> right_child i (PNode b l r)" using 3 outer_leaves(1) [of r] by simp
    moreover have "?pr \<le> ?pr AND ?R ! 1" using above_pre [OF m(3,2)] .
    ultimately show ?thesis
      unfolding e using across(1,3) [OF PNode.prems(1) m(1)] by simp
  next
    case 4
    then have "\<not> i - 1 < ?n" "i - 1 - ?n = i - ?n - 1" by linarith+
    with 4 have e: "lin pre (PNode b l r) ! (i - 1) = ?R ! (i - ?n - 1)" "lin pre (PNode b l r) ! i = ?R ! (i - ?n)"
      "lin pre (PNode b l r) ! Suc i = ?R ! Suc (i - ?n)"
      by (simp_all add: nth_append Suc_diff_le)
    have "right_child i (PNode b l r) \<longleftrightarrow> right_child (i - ?n) r"
      using 4 PNode.prems(3) by (simp add: is_leaf_iff)
    then show ?thesis
      unfolding e using PNode.IH(2) [OF wf(6), of "i - ?n"] 4 PNode.prems(3) by simp
  qed
qed

lemma removal_split:
  fixes pre :: "'a::len word"
  assumes "path_wf LENGTH('a) {k. bit pre k} t" and "i < length (leaves t)" and "\<not> is_leaf t"
    and "j = i + of_bool (\<not> right_child i t)"
  shows "0 < j \<and> j < length (leaves t) \<and>
    rel_bits (take j (lin pre t)) \<union> rel_bits (drop j (lin pre t)) = bits_of (remove_leaf i t)"
  using assms
proof (induction t arbitrary: pre i j)
  case (PLeaf v)
  then show ?case by simp
next
  case (PNode b l r)
  note wf = path_wf_children [OF PNode.prems(1)]
  let ?n = "length (leaves l)" and ?pr = "pre OR push_bit b 1"
  let ?L = "lin pre l" and ?R = "lin ?pr r"
  have n: "0 < ?n" "0 < length (leaves r)" by simp_all
  have LR: "lin pre (PNode b l r) = ?L @ ?R" by simp
  have mid: "{k. bit (hd ys) k \<and> \<not> bit (last xs) k} = {b}"
    if "hd ys = ?pr" "last xs \<in> set ?L" for xs ys
    using boundary_bits [OF wf(1,3,2) that] .
  have relL: "rel_bits ?L = bits_of l" and relR: "rel_bits ?R = bits_of r"
    using rel_bits_lin [OF wf(5)] rel_bits_lin [OF wf(6)] .
  show ?case
  proof (cases "i < ?n")
    case True
    show ?thesis
    proof (cases "is_leaf l")
      case leaf: True
      then have "?n = 1" by (simp add: is_leaf_iff)
      with True have ij: "i = 0" "j = 1" using PNode.prems(4) outer_leaves(1) [of l] by simp_all
      have td: "take j (lin pre (PNode b l r)) = ?L" "drop j (lin pre (PNode b l r)) = ?R"
        unfolding LR ij(2) using \<open>?n = 1\<close> by simp_all
      have "length (leaves (PNode b l r)) = 1 + length (leaves r)" using \<open>?n = 1\<close> by simp
      then have jl: "0 < j" "j < length (leaves (PNode b l r))" using ij(2) n(2) by linarith+
      have "rel_bits ?L = {}" using leaf relL by (cases l) simp_all
      moreover have "remove_leaf i (PNode b l r) = r" using leaf True by simp
      ultimately show ?thesis unfolding td relR using jl by simp
    next
      case node: False
      have "j = i + of_bool (\<not> right_child i l)" using PNode.prems(4) True by simp
      from PNode.IH(1) [OF wf(5) True node this]
      have IH: "0 < j" "j < ?n" "rel_bits (take j ?L) \<union> rel_bits (drop j ?L) = bits_of (remove_leaf i l)" by blast+
      have "take j (?L @ ?R) = take j ?L" "drop j (?L @ ?R) = drop j ?L @ ?R" using IH(2) by simp_all
      moreover have "rel_bits (drop j ?L @ ?R) = rel_bits (drop j ?L) \<union> {b} \<union> bits_of r"
        using mid [of ?R "drop j ?L"] IH(2) relR by (simp add: rel_bits_append)
      ultimately show ?thesis using IH True node n by (auto simp: LR simp del: lin.simps)
    qed
  next
    case False
    then have i: "i - ?n < length (leaves r)" using PNode.prems(2) by simp
    show ?thesis
    proof (cases "is_leaf r")
      case leaf: True
      then have "length (leaves r) = 1" by (simp add: is_leaf_iff)
      with i False have "i = ?n" "j = ?n" using PNode.prems(4) leaf by simp_all
      moreover have "rel_bits ?R = {}" using leaf relR by (cases r) simp_all
      ultimately show ?thesis using leaf relL n by (simp add: LR del: lin.simps)
    next
      case node: False
      define k where "k = i - ?n + of_bool (\<not> right_child (i - ?n) r)"
      have j: "j = ?n + k" using PNode.prems(4) False node by (simp add: k_def)
      note ih = PNode.IH(2) [OF wf(6) i node k_def]
      note IH = conjunct1 [OF ih] conjunct1 [OF conjunct2 [OF ih]] conjunct2 [OF conjunct2 [OF ih]]
      have tk: "take k ?R \<noteq> []" using IH(1) by simp
      have hk: "hd (take k ?R) = ?pr" using IH(1) by simp
      have td: "take j (?L @ ?R) = ?L @ take k ?R" "drop j (?L @ ?R) = drop k ?R" unfolding j by simp_all
      have "rel_bits (?L @ take k ?R) = bits_of l \<union> {b} \<union> rel_bits (take k ?R)"
        unfolding rel_bits_append [OF lin_not_Nil tk] relL
        by (subst mid [OF hk last_in_set [OF lin_not_Nil]]) simp
      moreover have "length (leaves (PNode b l r)) = ?n + length (leaves r)" by simp
      moreover have "bits_of (remove_leaf i (PNode b l r)) = {b} \<union> bits_of l \<union> bits_of (remove_leaf (i - ?n) r)"
        using False node by auto
      ultimately show ?thesis
        unfolding LR td using IH j by auto
    qed
  qed
qed

section \<open>A node's keys and the trie they store\<close>

text \<open>The first entries of the memory are the linear form of the trie, which has at most 32 leaves.\<close>

definition stores :: "'a::len word list \<Rightarrow> 'v ptrie \<Rightarrow> bool" where
  "stores es t \<longleftrightarrow> path_wf LENGTH('a) {} t \<and> length (leaves t) \<le> 32 \<and> 32 \<le> length es \<and>
     take (length (leaves t)) es = lin 0 t"

lemma no_bits_0: "{k. bit (0 :: 'a::len word) k} = {}"
  by simp

lemma storesD:
  fixes es :: "'a::len word list"
  assumes "stores es t"
  shows "path_wf LENGTH('a) {k. bit (0 :: 'a word) k} t" "length (leaves t) \<le> 32" "32 \<le> length es"
    "take (length (leaves t)) es = lin 0 t" "i < length (leaves t) \<Longrightarrow> es ! i = lin 0 t ! i"
  using assms by (auto simp: stores_def) (metis nth_take)

context partial_key_search
begin

text \<open>Of the entries a search returns, the highest in use is the one the trie leads to.\<close>

lemma search_walk:
  assumes "stores es t" and "extract_mask g = 0"
  shows "\<exists>r. srch d es g = Inr (r, g) \<and>
    getMostSignificantBitIndex undef (r AND mask (length (leaves t))) = int (walk d t)"
  using search_result_index [of t es undef d] storesD [OF assms(1)] assms(2)
  by (simp add: search_law search_spec_def getMostSignificantBitIndex_def)

lemma subtree_entries:
  assumes "stores es t" and "prefix_bits {k. bit p k} t" and "i < length (leaves t)"
  shows "\<exists>m. getAffectedSubtreeMask lanes find_masks es p (es ! i AND p) = Inr m \<and>
    (\<forall>j < length (leaves t). bit m j \<longleftrightarrow>
       (case subtree_range {k. bit p k} i t of (s, c) \<Rightarrow> s \<le> j \<and> j < s + c))"
proof -
  note s = storesD [OF assms(1)]
  have "length (leaves t) \<le> length es" using s(2,3) by simp
  then have "bit (entry_mask (\<lambda>e. e AND p = es ! i AND p) es) j \<longleftrightarrow>
       (case subtree_range {k. bit p k} i t of (s, c) \<Rightarrow> s \<le> j \<and> j < s + c)"
    if "j < length (leaves t)" for j
    using subtree_range_exact [OF s(1) assms(2,3) that] s(2) that s(5) [OF that] s(5) [OF assms(3)]
    by (simp add: word_bits)
  then show ?thesis by (simp add: subtree [OF s(3)])
qed

end

section \<open>What the partial keys promise\<close>

text \<open>C19: Searching the sparse partial keys of a node in all lanes at once and taking the highest
  hit is walking the trie that the keys linearise: for 8-, 16- and 32-bit partial keys the search never
  fails and the highest hit among the used entries is the leaf the walk of the dense key ends in.\<close>
theorem linear_search_is_trie_walk:
  "\<lbrakk>stores es8 t8; stores es16 t16; stores es32 t32; extract_mask g = 0\<rbrakk> \<Longrightarrow>
   (\<exists>r. search_u8 d8 es8 g = Inr (r, g) \<and>
      getMostSignificantBitIndex undef (r AND mask (length (leaves t8))) = int (walk d8 t8)) \<and>
   (\<exists>r. search_u16 d16 es16 g = Inr (r, g) \<and>
      getMostSignificantBitIndex undef (r AND mask (length (leaves t16))) = int (walk d16 t16)) \<and>
   (\<exists>r. search_u32 d32 es32 g = Inr (r, g) \<and>
      getMostSignificantBitIndex undef (r AND mask (length (leaves t32))) = int (walk d32 t32))"
  using keys8.search_walk keys16.search_walk keys32.search_walk by blast

theorem linear_search_is_trie_walk_witness:
  "let t = PNode 0 (PLeaf True) (PNode 2 (PLeaf False) (PLeaf True)); g = \<lparr> extract_mask = 0, wildcard_affected_entry_mask = 0 \<rparr> in
   (\<exists>r. search_u8 5 (lin 0 t @ replicate 29 0) g = Inr (r, g) \<and>
      getMostSignificantBitIndex 0 (r AND mask (length (leaves t))) = int (walk (5 :: u8) t)) \<and>
   (\<exists>r. search_u16 1 (lin 0 t @ replicate 29 0) g = Inr (r, g) \<and>
      getMostSignificantBitIndex 0 (r AND mask (length (leaves t))) = int (walk (1 :: u16) t)) \<and>
   (\<exists>r. search_u32 4 (lin 0 t @ replicate 29 0) g = Inr (r, g) \<and>
      getMostSignificantBitIndex 0 (r AND mask (length (leaves t))) = int (walk (4 :: u32) t))"
  unfolding Let_def by (rule linear_search_is_trie_walk) (simp_all add: stores_def)

text \<open>C21: For a mask of trie bits closed under going up, the affected entries of the subtree of an
  entry are exactly the leaves of the largest subtree that all leaves agreeing with the entry on the
  mask bits form.\<close>
theorem affected_subtree_exact:
  "\<lbrakk>stores es t; prefix_bits {k. bit p k} t; i < length (leaves t)\<rbrakk> \<Longrightarrow>
   \<exists>m. getAffectedSubtreeMask 8 findMasks_u32 es p (es ! i AND p) = Inr m \<and>
     (\<forall>j < length (leaves t). bit m j \<longleftrightarrow>
        (case subtree_range {k. bit p k} i t of (s, c) \<Rightarrow> s \<le> j \<and> j < s + c))"
  by (rule keys32.subtree_entries)

theorem affected_subtree_exact_witness:
  "let t = PNode 0 (PLeaf True) (PNode 2 (PLeaf False) (PLeaf True)); es = lin 0 t @ replicate 29 (0 :: u32) in
   \<exists>m. getAffectedSubtreeMask 8 findMasks_u32 es 1 (es ! 2 AND 1) = Inr m \<and>
     (\<forall>j < length (leaves t). bit m j \<longleftrightarrow>
        (case subtree_range {k. bit (1 :: u32) k} 2 t of (s, c) \<Rightarrow> s \<le> j \<and> j < s + c))"
  unfolding Let_def by (rule affected_subtree_exact) (simp_all add: stores_def bit_1_iff)

text \<open>C22: In a node of at least two entries the comparison of neighbouring keys tells whether an entry
  is a right child, the bits relevant for all entries are the bits of the trie, and the bits relevant
  for all entries but one are the bits of the trie without that leaf.\<close>
theorem relevant_bits_without_entry:
  fixes es :: "'a::len word list"
  assumes "stores es t" and "i < length (leaves t)" and "2 \<le> length (leaves t)"
  shows "determineValueOfDiscriminatingBit es i (length (leaves t)) = Inr (right_child i t) \<and>
    (\<exists>w. getRelevantBitsForRange es 0 (length (leaves t)) = Inr w \<and> {k. bit w k} = bits_of t) \<and>
    (\<exists>w. getRelevantBitsForAllExceptOneEntry es (length (leaves t)) i = Inr w \<and>
       {k. bit w k} = bits_of (remove_leaf i t))"
proof -
  let ?n = "length (leaves t)"
  note s = storesD [OF assms(1)]
  have nl: "\<not> is_leaf t" using assms(3) by (simp add: is_leaf_iff)
  have len: "?n \<le> length es" using s(2,3) by simp
  have dv: "determineValueOfDiscriminatingBit es i ?n = Inr (right_child i t)"
  proof (cases "0 < i \<and> Suc i < ?n")
    case True
    then have "i - 1 < ?n" "i - 1 < length es" using len by linarith+
    with True show ?thesis
      using right_child_compare [OF s(1), of i] len s(5) s(5) [of "i - 1"]
      by (simp add: determineValueOfDiscriminatingBit_def key_at_def)
  next
    case False
    then have "i = 0 \<or> i = ?n - 1" using assms(2) by linarith
    then show ?thesis
      using outer_leaves [of t] nl assms(3) by (auto simp: determineValueOfDiscriminatingBit_def)
  qed
  obtain w where w: "getRelevantBitsForRange es 0 ?n = Inr w" "{k. bit w k} = rel_bits (take ?n (drop 0 es))"
    using getRelevantBits_rel [of 0 ?n es] len by auto
  have full: "{k. bit w k} = bits_of t" using w(2) s(4) rel_bits_lin [OF s(1)] by simp
  let ?j = "i + of_bool (\<not> right_child i t)"
  note rs = removal_split [OF s(1) assms(2) nl refl]
  note j = conjunct1 [OF rs] conjunct1 [OF conjunct2 [OF rs]] conjunct2 [OF conjunct2 [OF rs]]
  obtain v where v: "getRelevantBitsForRange es 0 ?j = Inr v" "{k. bit v k} = rel_bits (take ?j (drop 0 es))"
    using getRelevantBits_rel [of 0 ?j es] len j(2) by auto
  obtain u where u: "getRelevantBitsForRange es ?j (?n - ?j) = Inr u"
    "{k. bit u k} = rel_bits (take (?n - ?j) (drop ?j es))"
    using getRelevantBits_rel [of ?j "?n - ?j" es] len j(2) by auto
  have "take ?j es = take ?j (lin 0 t)" "take (?n - ?j) (drop ?j es) = drop ?j (lin 0 t)"
    using j(2) by (simp_all only: s(4) [symmetric] take_take drop_take min.absorb1 less_imp_le)
  then have "{k. bit (v OR u) k} = bits_of (remove_leaf i t)"
    using v(2) u(2) j(3) by (auto simp: bit_or_iff)
  then show ?thesis
    using dv w(1) full v(1) u(1) by (simp add: getRelevantBitsForAllExceptOneEntry_def Let_def)
qed

theorem relevant_bits_without_entry_witness:
  "let t = PNode 0 (PLeaf True) (PNode 2 (PLeaf False) (PLeaf True)); es = lin 0 t @ replicate 29 (0 :: u32) in
   determineValueOfDiscriminatingBit es 1 (length (leaves t)) = Inr (right_child 1 t) \<and>
    (\<exists>w. getRelevantBitsForRange es 0 (length (leaves t)) = Inr w \<and> {k. bit w k} = bits_of t) \<and>
    (\<exists>w. getRelevantBitsForAllExceptOneEntry es (length (leaves t)) 1 = Inr w \<and>
       {k. bit w k} = bits_of (remove_leaf 1 t))"
  unfolding Let_def by (rule relevant_bits_without_entry) (simp_all add: stores_def)

end
