(* ===== verification/Content_Helpers.thy ===== *)
theory Content_Helpers
  imports Hot_Algorithms
begin

text \<open>
  The helpers of \<open>src/idx/content-helpers/include/idx/contenthelpers\<close> that the trie uses on
  64-bit values: optional results, the byte order of keys, the equality of a rule and a key up to
  a wildcard mask, and the conversion between values and tuple identifiers.
\<close>

unbundle bit_operations_syntax

section \<open>Optional values\<close>

record 'v OptionalValue =
  mIsValid :: bool
  mValue :: 'v
  Rmask :: u64

text \<open>The constructors that leave a field uninitialised take its value as an argument.\<close>

definition OptionalValue0 :: "'v \<Rightarrow> u64 \<Rightarrow> 'v OptionalValue" where
  "OptionalValue0 junk junk_mask = \<lparr> mIsValid = False, mValue = junk, Rmask = junk_mask \<rparr>"

definition OptionalValue2 :: "bool \<Rightarrow> 'v \<Rightarrow> u64 \<Rightarrow> 'v OptionalValue" where
  "OptionalValue2 isValid v junk_mask = \<lparr> mIsValid = isValid, mValue = v, Rmask = junk_mask \<rparr>"

definition OptionalValue3 :: "bool \<Rightarrow> 'v \<Rightarrow> u64 \<Rightarrow> 'v OptionalValue" where
  "OptionalValue3 isValid v msk = \<lparr> mIsValid = isValid, mValue = v, Rmask = msk \<rparr>"

definition compliesWith :: "'v OptionalValue \<Rightarrow> 'v OptionalValue \<Rightarrow> bool" where
  "compliesWith a expected \<longleftrightarrow>
     (mIsValid a = mIsValid expected) \<and> (\<not> mIsValid a \<or> mValue a = mValue expected)"

text \<open>Compliance is equality of the values as options: the mask does not take part.\<close>

definition as_option :: "'v OptionalValue \<Rightarrow> 'v option" where
  "as_option a = (if mIsValid a then Some (mValue a) else None)"

lemma compliesWith_iff: "compliesWith a b \<longleftrightarrow> as_option a = as_option b"
  by (auto simp: compliesWith_def as_option_def)

section \<open>Keys and values\<close>

definition toBigEndianByteOrder64 :: "u64 \<Rightarrow> u64" where
  "toBigEndianByteOrder64 key = bswap64 key"

text \<open>The bytes of a key object, lowest address first.\<close>

definition interpretAsByteArray64 :: "u64 \<Rightarrow> u8 list" where
  "interpretAsByteArray64 key = bytes64 key"

definition contentEquals :: "u64 \<Rightarrow> u64 \<Rightarrow> bool" where
  "contentEquals value1 value2 \<longleftrightarrow> value1 = value2"

definition contentEquals_mask :: "u64 \<Rightarrow> u64 \<Rightarrow> u64 \<Rightarrow> bool" where
  "contentEquals_mask value1 value2 msk \<longleftrightarrow> value1 OR msk = value2 OR msk"

definition INTPTR_MAX :: u64 where
  "INTPTR_MAX = 0x7FFFFFFFFFFFFFFF"

definition tidToValue64 :: "u64 \<Rightarrow> u64" where
  "tidToValue64 tid = tid AND INTPTR_MAX"

definition valueToTid64 :: "u64 \<Rightarrow> u64" where
  "valueToTid64 v = v"

text \<open>The bytes from which the trie reads the bits of a 64-bit key.\<close>

definition key_bytes :: "u64 \<Rightarrow> u8 list" where
  "key_bytes v = interpretAsByteArray64 (toBigEndianByteOrder64 v)"

lemma length_key_bytes [simp]: "length (key_bytes v) = 8"
  by (simp add: key_bytes_def interpretAsByteArray64_def)

lemma key_bit_key_bytes:
  assumes "k < 64" shows "key_bit (key_bytes v) k \<longleftrightarrow> bit v (63 - k)"
proof -
  have a: "k div 8 < 8" using assms by simp
  have "8 * (7 - k div 8) + (7 - k mod 8) = 63 - k"
    using assms div_mult_mod_eq [of k 8] mod_less_divisor [of 8 k] by linarith
  moreover have "7 - k mod 8 < 8" by simp
  moreover have "8 * (k div 8) + (7 - k mod 8) < 64" using a by linarith
  ultimately show ?thesis
    using a by (simp only: key_bit_def key_bytes_def interpretAsByteArray64_def
        toBigEndianByteOrder64_def bit_nth_bytes64 bit_bswap64 byte_index simp_thms)
qed

lemma contentEquals_mask_iff:
  "contentEquals_mask v k m \<longleftrightarrow> v AND NOT m = k AND NOT m"
  unfolding contentEquals_mask_def and_not_eq_iff
  by (auto simp: word_eq_iff_bits bit_or_iff)

lemma tid_round_trip: "\<not> bit v 63 \<longleftrightarrow> tidToValue64 (valueToTid64 v) = v"
proof -
  have m: "INTPTR_MAX = mask 63" by (simp add: INTPTR_MAX_def mask_eq_exp_minus_1)
  have "v AND mask 63 = v \<longleftrightarrow> (\<forall>i < 64. bit v i \<longrightarrow> i < 63)"
    by (auto simp: word_eq_iff_bits bit_and_iff bit_mask_iff)
  also have "\<dots> \<longleftrightarrow> \<not> bit v 63"
  proof
    assume "\<not> bit v 63"
    moreover have "i < 63" if "i < 64" "i \<noteq> 63" for i :: nat using that by simp
    ultimately show "\<forall>i < 64. bit v i \<longrightarrow> i < 63" by blast
  qed (auto dest: spec [of _ 63])
  finally show ?thesis by (simp add: tidToValue64_def valueToTid64_def m)
qed

section \<open>The order of words from their bits\<close>

lemma word_less_iff_top_bit:
  fixes v w :: "'a::len word"
  assumes "i < LENGTH('a)" and "\<not> bit v i" and "bit w i" and "\<And>j. i < j \<Longrightarrow> bit v j = bit w j"
  shows "v < w"
proof -
  have "drop_bit (Suc i) v = drop_bit (Suc i) w"
    by (rule bit_word_eqI) (simp add: bit_drop_bit_eq assms(4))
  then have d: "unat v div 2 ^ Suc i = unat w div 2 ^ Suc i"
    by (metis drop_bit_eq_div unat_drop_bit_eq)
  have tv: "unat v mod 2 ^ Suc i < 2 ^ i"
  proof -
    have "take_bit (Suc i) (unat v) = take_bit i (unat v)"
      using assms(2) by (simp add: take_bit_Suc_from_most bit_unsigned_iff)
    then show ?thesis by (metis take_bit_eq_mod take_bit_nat_less_exp)
  qed
  have tw: "2 ^ i \<le> unat w mod 2 ^ Suc i"
  proof -
    have "bit (unat w) i" using assms(1,3) by (simp add: bit_unsigned_iff)
    then have "take_bit (Suc i) (unat w) = 2 ^ i + take_bit i (unat w)"
      by (simp add: take_bit_Suc_from_most)
    then show ?thesis by (metis le_add1 take_bit_eq_mod)
  qed
  have "unat v = unat v div 2 ^ Suc i * 2 ^ Suc i + unat v mod 2 ^ Suc i"
    by (rule div_mult_mod_eq [symmetric])
  also have "\<dots> < unat w div 2 ^ Suc i * 2 ^ Suc i + unat w mod 2 ^ Suc i"
    unfolding d using less_le_trans [OF tv tw] by (rule add_strict_left_mono)
  also have "\<dots> = unat w" by (rule div_mult_mod_eq)
  finally have "unat v < unat w" .
  then show ?thesis by (simp add: word_less_nat_alt)
qed

end
