(* ===== verification/Discriminative_Bit.thy ===== *)
theory Discriminative_Bit
  imports Content_Helpers
begin

text \<open>
  The bit that tells an existing key from a new one:
  \<open>src/hot/commons/include/hot/commons/DiscriminativeBit.hpp\<close>, with the three versions of
  \<open>executeForDiffingKeys\<close> and \<open>getMismatchingBit\<close>.  The operation passed to the templates is a
  function on a state; \<open>undef\<close> is what \<open>__builtin_clz\<close> returns for 0.
\<close>

unbundle bit_operations_syntax

section \<open>The record and its constructors\<close>

record DiscriminativeBit =
  mByteIndex :: u16
  mByteRelativeBitIndex :: u16
  mAbsoluteBitIndex :: u16
  mBitValue :: u32

definition BYTE_WITH_MOST_SIGNIFICANT_BIT :: u8 where
  "BYTE_WITH_MOST_SIGNIFICANT_BIT = 0x80"

definition getByteRelativeSignificantBitIndex :: "nat \<Rightarrow> u8 \<Rightarrow> u8 \<Rightarrow> u16" where
  "getByteRelativeSignificantBitIndex undef existingByte newKeyByte =
     (let mismatchByteBitMask = ucast (existingByte XOR newKeyByte) :: u32
      in word_of_int (int (builtin_clz undef mismatchByteBitMask) - 24))"

definition getByteRelativeSignificantBitIndex_mask :: "nat \<Rightarrow> u8 \<Rightarrow> u8 \<Rightarrow> u8 \<Rightarrow> u16" where
  "getByteRelativeSignificantBitIndex_mask undef existingByte newKeyByte newMaskByte =
     (let mismatchByteBitMask = ucast ((existingByte XOR newKeyByte) AND NOT newMaskByte) :: u32
      in if mismatchByteBitMask > 0 then word_of_int (int (builtin_clz undef mismatchByteBitMask) - 24)
         else word_of_int (int (builtin_clz undef (ucast newMaskByte :: u32)) - 24))"

text \<open>The fields that follow from the byte index, the index in the byte and the new byte.\<close>

definition dbit_of :: "u16 \<Rightarrow> u16 \<Rightarrow> u8 \<Rightarrow> DiscriminativeBit" where
  "dbit_of byteIndex rel newKeyByte =
     \<lparr> mByteIndex = byteIndex, mByteRelativeBitIndex = rel,
       mAbsoluteBitIndex = convertBytesToBits byteIndex + rel,
       mBitValue = of_bool (drop_bit (unat rel) BYTE_WITH_MOST_SIGNIFICANT_BIT AND newKeyByte \<noteq> 0) \<rparr>"

definition DiscriminativeBit_bytes :: "nat \<Rightarrow> u16 \<Rightarrow> u8 \<Rightarrow> u8 \<Rightarrow> DiscriminativeBit" where
  "DiscriminativeBit_bytes undef byteIndex existingByte newKeyByte =
     dbit_of byteIndex (getByteRelativeSignificantBitIndex undef existingByte newKeyByte) newKeyByte"

definition DiscriminativeBit_masked :: "nat \<Rightarrow> u16 \<Rightarrow> u8 \<Rightarrow> u8 \<Rightarrow> u8 \<Rightarrow> DiscriminativeBit" where
  "DiscriminativeBit_masked undef byteIndex existingByte newKeyByte maskByte =
     dbit_of byteIndex (getByteRelativeSignificantBitIndex_mask undef existingByte newKeyByte maskByte) newKeyByte"

definition DiscriminativeBit_at :: "u16 \<Rightarrow> u32 \<Rightarrow> DiscriminativeBit" where
  "DiscriminativeBit_at absoluteSignificantBitIndex newBitValue =
     \<lparr> mByteIndex = ucast (getByteIndex (ucast absoluteSignificantBitIndex)),
       mByteRelativeBitIndex = bitPositionInByte absoluteSignificantBitIndex,
       mAbsoluteBitIndex = absoluteSignificantBitIndex,
       mBitValue = newBitValue \<rparr>"

text \<open>\<open>getExtractionByte\<close> shifts by \<open>7 - mByteRelativeBitIndex\<close>, which is negative from 8 on.\<close>

definition getExtractionByte :: "DiscriminativeBit \<Rightarrow> u8 cxx" where
  "getExtractionByte d =
     (if unat (mByteRelativeBitIndex d) \<le> 7
      then Inr (push_bit (7 - unat (mByteRelativeBitIndex d)) 1) else Inl UB_Shift)"

section \<open>Comparing an existing key and a new one\<close>

definition byte_at :: "u8 list \<Rightarrow> nat \<Rightarrow> u8 cxx" where
  "byte_at bs i = (if i < length bs then Inr (bs ! i) else Inl UB_Index)"

fun diffing_keys :: "nat \<Rightarrow> u8 list \<Rightarrow> u8 list \<Rightarrow> nat list \<Rightarrow> (DiscriminativeBit \<Rightarrow> 's \<Rightarrow> 's) \<Rightarrow> 's
    \<Rightarrow> (bool \<times> 's) cxx" where
  "diffing_keys undef existingKey newKey [] operation s = Inr (False, s)"
| "diffing_keys undef existingKey newKey (index # rest) operation s =
     rbind (byte_at newKey index) (\<lambda>newByte.
     rbind (byte_at existingKey index) (\<lambda>existingByte.
       if existingByte \<noteq> newByte
       then Inr (True, operation (DiscriminativeBit_bytes undef (of_nat index) existingByte newByte) s)
       else diffing_keys undef existingKey newKey rest operation s))"

definition executeForDiffingKeys :: "nat \<Rightarrow> u8 list \<Rightarrow> u8 list \<Rightarrow> u16 \<Rightarrow>
    (DiscriminativeBit \<Rightarrow> 's \<Rightarrow> 's) \<Rightarrow> 's \<Rightarrow> (bool \<times> 's) cxx" where
  "executeForDiffingKeys undef existingKey newKey keyLengthInBytes operation s =
     diffing_keys undef existingKey newKey [0..<unat keyLengthInBytes] operation s"

text \<open>
  The version for a rule with a wildcard mask: a byte that differs outside the mask ends the loop
  with the bit of the two bytes, a byte that agrees and has a wildcard sets the global
  \<open>flag_mask\<close> and ends it with the bit of the bytes with their wildcards filled.
\<close>

fun diffing_rule :: "nat \<Rightarrow> u8 list \<Rightarrow> u8 list \<Rightarrow> u8 list \<Rightarrow> nat list \<Rightarrow> (DiscriminativeBit \<Rightarrow> 's \<Rightarrow> 's)
    \<Rightarrow> bool \<times> 's \<Rightarrow> (bool \<times> bool \<times> 's) cxx" where
  "diffing_rule undef pp1 existingKey newKey [] operation (flag_mask, s) = Inr (False, flag_mask, s)"
| "diffing_rule undef pp1 existingKey newKey (index # rest) operation (flag_mask, s) =
     rbind (byte_at newKey index) (\<lambda>newByte.
     rbind (byte_at existingKey index) (\<lambda>existingByte.
     rbind (byte_at pp1 index) (\<lambda>newMaskByte.
       if existingByte OR newMaskByte \<noteq> newByte OR newMaskByte
       then Inr (True, flag_mask,
                 operation (DiscriminativeBit_bytes undef (of_nat index) existingByte newByte) s)
       else if existingByte OR newMaskByte = newByte OR newMaskByte \<and> newMaskByte > 0
       then Inr (True, True,
                 operation (DiscriminativeBit_masked undef (of_nat index) (existingByte OR newMaskByte)
                              (newByte OR newMaskByte) newMaskByte) s)
       else diffing_rule undef pp1 existingKey newKey rest operation (flag_mask, s))))"

definition executeForDiffingKeys_mask :: "nat \<Rightarrow> u64 \<Rightarrow> u8 list \<Rightarrow> u8 list \<Rightarrow> u16 \<Rightarrow>
    (DiscriminativeBit \<Rightarrow> 's \<Rightarrow> 's) \<Rightarrow> bool \<times> 's \<Rightarrow> (bool \<times> bool \<times> 's) cxx" where
  "executeForDiffingKeys_mask undef msk existingKey newKey keyLengthInBytes operation st =
     (let newMask = bswap64 msk
      in diffing_rule undef (bytes64 newMask) existingKey newKey [0..<unat keyLengthInBytes] operation st)"

text \<open>The version for a rule with a mask against an existing rule with a mask of its own.\<close>

fun diffing_rules :: "nat \<Rightarrow> u8 list \<Rightarrow> u8 list \<Rightarrow> u8 list \<Rightarrow> u8 list \<Rightarrow> nat list \<Rightarrow>
    (DiscriminativeBit \<Rightarrow> 's \<Rightarrow> 's) \<Rightarrow> bool \<times> 's \<Rightarrow> (bool \<times> bool \<times> 's) cxx" where
  "diffing_rules undef pp1 pp2 existingKey newKey [] operation (flag_mask, s) = Inr (False, flag_mask, s)"
| "diffing_rules undef pp1 pp2 existingKey newKey (index # rest) operation (flag_mask, s) =
     rbind (byte_at newKey index) (\<lambda>newByte.
     rbind (byte_at existingKey index) (\<lambda>existingByte.
     rbind (byte_at pp1 index) (\<lambda>newMaskByte.
     rbind (byte_at pp2 index) (\<lambda>oldMaskByte.
       if existingByte OR oldMaskByte OR newMaskByte \<noteq> newByte OR oldMaskByte OR newMaskByte
       then Inr (True, flag_mask,
                 operation (DiscriminativeBit_bytes undef (of_nat index)
                              (existingByte OR oldMaskByte OR newMaskByte)
                              (newByte OR oldMaskByte OR newMaskByte)) s)
       else if existingByte OR oldMaskByte OR newMaskByte = newByte OR oldMaskByte OR newMaskByte
               \<and> newMaskByte > 0
       then Inr (True, True,
                 operation (DiscriminativeBit_masked undef (of_nat index) (existingByte OR newMaskByte)
                              (newByte OR newMaskByte) newMaskByte) s)
       else diffing_rules undef pp1 pp2 existingKey newKey rest operation (flag_mask, s)))))"

definition executeForDiffingKeys_masks :: "nat \<Rightarrow> u64 \<Rightarrow> u8 list \<Rightarrow> u64 \<Rightarrow> u8 list \<Rightarrow> u16 \<Rightarrow>
    (DiscriminativeBit \<Rightarrow> 's \<Rightarrow> 's) \<Rightarrow> bool \<times> 's \<Rightarrow> (bool \<times> bool \<times> 's) cxx" where
  "executeForDiffingKeys_masks undef msk existingKey matchedMask newKey keyLengthInBytes operation st =
     (let oldMask = bswap64 matchedMask; newMask = bswap64 msk
      in diffing_rules undef (bytes64 newMask) (bytes64 oldMask) existingKey newKey
           [0..<unat keyLengthInBytes] operation st)"

fun mismatching_bit :: "nat \<Rightarrow> u8 list \<Rightarrow> u8 list \<Rightarrow> nat list \<Rightarrow> u64 \<Rightarrow> DiscriminativeBit OptionalValue cxx" where
  "mismatching_bit undef existingKey newKey [] junk =
     Inr (OptionalValue2 False (DiscriminativeBit_bytes undef 0 0 0) junk)"
| "mismatching_bit undef existingKey newKey (index # rest) junk =
     rbind (byte_at newKey index) (\<lambda>newByte.
     rbind (byte_at existingKey index) (\<lambda>existingByte.
       if existingByte \<noteq> newByte
       then Inr (OptionalValue2 True (DiscriminativeBit_bytes undef (of_nat index) existingByte newByte) junk)
       else mismatching_bit undef existingKey newKey rest junk))"

definition getMismatchingBit :: "nat \<Rightarrow> u8 list \<Rightarrow> u8 list \<Rightarrow> u16 \<Rightarrow> u64 \<Rightarrow> DiscriminativeBit OptionalValue cxx" where
  "getMismatchingBit undef existingKey newKey keyLengthInBytes junk =
     mismatching_bit undef existingKey newKey [0..<unat keyLengthInBytes] junk"

section \<open>The first differing bit of two bytes\<close>

lemma clz_byte:
  fixes w :: u8
  assumes "w \<noteq> 0"
  obtains i where "i < 8" "bit w i" "\<And>j. i < j \<Longrightarrow> \<not> bit w j"
    "builtin_clz undef (ucast w :: u32) = 31 - i"
proof -
  from lzcnt_bit [OF assms] obtain i where i: "bit w i" "\<And>j. i < j \<Longrightarrow> \<not> bit w j" "i < 8" by auto
  have b: "bit (ucast w :: u32) j \<longleftrightarrow> bit w j" for j
    by (auto simp: bit_simps dest: bit_imp_le_length)
  have "lzcnt (ucast w :: u32) = LENGTH(32) - 1 - i"
    by (rule lzcnt_eqI) (use i in \<open>simp_all add: b\<close>)
  moreover have "(ucast w :: u32) \<noteq> 0" using i(1) b by (metis bit_0_eq bot_apply bot_bool_def)
  ultimately have "builtin_clz undef (ucast w :: u32) = 31 - i" by (simp add: builtin_clz_def)
  with i that show thesis by blast
qed

lemma top_bit_index:
  fixes e n :: u8
  assumes "e \<noteq> n"
  obtains r where "r < 8" "bit e (7 - r) \<noteq> bit n (7 - r)" "\<And>q. q < r \<Longrightarrow> bit e (7 - q) = bit n (7 - q)"
    "getByteRelativeSignificantBitIndex undef e n = of_nat r"
proof -
  have "e XOR n \<noteq> 0" using assms by (metis xor.assoc xor.left_neutral xor_self_eq)
  then obtain i where i: "i < 8" "bit (e XOR n) i" "\<And>j. i < j \<Longrightarrow> \<not> bit (e XOR n) j"
    "builtin_clz undef (ucast (e XOR n) :: u32) = 31 - i" by (rule clz_byte [of _ undef]) blast
  have "int (31 - i) - 24 = int (7 - i)" using i(1) by linarith
  then have "getByteRelativeSignificantBitIndex undef e n = of_nat (7 - i)"
    unfolding getByteRelativeSignificantBitIndex_def Let_def i(4) by (simp only: of_int_of_nat_eq)
  moreover have "bit e (7 - (7 - i)) \<noteq> bit n (7 - (7 - i))"
    using i(1,2) by (simp add: bit_xor_iff)
  moreover have "bit e (7 - q) = bit n (7 - q)" if "q < 7 - i" for q
    using i(3) [of "7 - q"] that by (simp add: bit_xor_iff)
  ultimately show thesis using that [of "7 - i"] by simp
qed

lemma u16_small [simp]: "k < 65536 \<Longrightarrow> unat (of_nat k :: u16) = k"
  by (simp add: unat_of_nat take_bit_nat_eq_self)

lemma dbit_of_at:
  assumes "byte < 8192" and "r < 8"
  shows "dbit_of (of_nat byte) (of_nat r) b =
    DiscriminativeBit_at (of_nat (8 * byte + r)) (of_bool (bit b (7 - r)))"
proof -
  have u: "unat (of_nat r :: u16) = r" "unat (of_nat (8 * byte + r) :: u16) = 8 * byte + r"
    "unat (of_nat byte :: u16) = byte"
    using assms u16_small [of "8 * byte + r"] u16_small [of byte] u16_small [of r] by linarith+
  have "drop_bit r BYTE_WITH_MOST_SIGNIFICANT_BIT = push_bit (7 - r) 1"
  proof -
    from assms(2) have "r \<in> {0, 1, 2, 3, 4, 5, 6, 7}" by auto
    then show ?thesis by (elim insertE) (simp_all add: BYTE_WITH_MOST_SIGNIFICANT_BIT_def)
  qed
  then have v: "drop_bit (unat (of_nat r :: u16)) BYTE_WITH_MOST_SIGNIFICANT_BIT AND b \<noteq> 0 \<longleftrightarrow> bit b (7 - r)"
    unfolding u using and_single_bit_eq_0 [of "7 - r" b] by simp
  have "unat (ucast (getByteIndex (ucast (of_nat (8 * byte + r) :: u16))) :: u16) = byte"
  proof -
    have "unat (getByteIndex (ucast (of_nat (8 * byte + r) :: u16))) = byte"
      using assms(2) by (simp only: unat_bit_indices u byte_index)
    then show ?thesis
      using assms(1) by (simp add: unsigned_ucast_eq take_bit_nat_eq_self)
  qed
  then have bi: "of_nat byte = (ucast (getByteIndex (ucast (of_nat (8 * byte + r) :: u16))) :: u16)"
    by (metis u(3) word_unat_eq_iff)
  have "unat (bitPositionInByte (of_nat (8 * byte + r))) = r"
    using assms(2) by (simp only: unat_bit_indices u byte_index)
  then have bp: "(of_nat r :: u16) = bitPositionInByte (of_nat (8 * byte + r))"
    by (metis u(1) word_unat_eq_iff)
  show ?thesis
    unfolding dbit_of_def DiscriminativeBit_at_def v bi [symmetric] bp [symmetric]
    by (simp add: convertBytesToBits_def mult.commute)
qed

lemma DiscriminativeBit_bytes_at:
  assumes "byte < 8192" and "e \<noteq> n"
  obtains r where "r < 8" "bit e (7 - r) \<noteq> bit n (7 - r)" "\<And>q. q < r \<Longrightarrow> bit e (7 - q) = bit n (7 - q)"
    "DiscriminativeBit_bytes undef (of_nat byte) e n =
       DiscriminativeBit_at (of_nat (8 * byte + r)) (of_bool (bit n (7 - r)))"
proof -
  from assms(2) obtain r where r: "r < 8" "bit e (7 - r) \<noteq> bit n (7 - r)"
    "\<And>q. q < r \<Longrightarrow> bit e (7 - q) = bit n (7 - q)"
    "getByteRelativeSignificantBitIndex undef e n = of_nat r" by (rule top_bit_index [of _ _ undef]) blast
  show thesis
    by (rule that [OF r(1-3)]) (simp_all only: DiscriminativeBit_bytes_def r(4) dbit_of_at [OF assms(1) r(1)])
qed

section \<open>The first differing bit of two keys\<close>

definition first_diff :: "(nat \<Rightarrow> bool) \<Rightarrow> (nat \<Rightarrow> bool) \<Rightarrow> nat list \<Rightarrow> nat option" where
  "first_diff f g ks = find (\<lambda>k. f k \<noteq> g k) ks"

lemma first_diff_append:
  "first_diff f g (xs @ ys) = (case first_diff f g xs of None \<Rightarrow> first_diff f g ys | Some k \<Rightarrow> Some k)"
  by (induction xs) (auto simp: first_diff_def)

lemma first_diff_None: "first_diff f g ks = None \<longleftrightarrow> (\<forall>k \<in> set ks. f k = g k)"
  by (auto simp: first_diff_def find_None_iff)

lemma first_diff_upt:
  assumes "k < b" "a \<le> k" "f k \<noteq> g k" "\<And>j. a \<le> j \<Longrightarrow> j < k \<Longrightarrow> f j = g j"
  shows "first_diff f g [a..<b] = Some k"
proof -
  have "[a..<b] = [a..<k] @ k # [Suc k..<b]"
    using upt_add_eq_append [of a k "b - k"] assms(1,2) by (simp add: upt_conv_Cons)
  moreover have "first_diff f g [a..<k] = None" using assms(4) by (simp add: first_diff_None)
  ultimately show ?thesis using assms(3) by (simp add: first_diff_append) (simp add: first_diff_def)
qed

definition diffing_spec :: "u8 list \<Rightarrow> u8 list \<Rightarrow> nat list \<Rightarrow> (DiscriminativeBit \<Rightarrow> 's \<Rightarrow> 's) \<Rightarrow> 's \<Rightarrow> bool \<times> 's" where
  "diffing_spec e n ks operation s =
     (case first_diff (key_bit e) (key_bit n) ks of
        None \<Rightarrow> (False, s)
      | Some k \<Rightarrow> (True, operation (DiscriminativeBit_at (of_nat k) (of_bool (key_bit n k))) s))"

lemma byte_keys_split:
  assumes "i < len" shows "[8 * i..<8 * len] = [8 * i..<8 * i + 8] @ [8 * Suc i..<8 * len]"
  using upt_add_eq_append [of "8 * i" "8 * i + 8" "8 * len - (8 * i + 8)"] assms by (simp add: add.commute)

lemma key_bit_in_byte: "j < 8 \<Longrightarrow> key_bit bs (8 * i + j) = bit (bs ! i) (7 - j)"
  by (simp only: key_bit_def byte_index)

lemma first_diff_byte_eq:
  assumes "e ! i = n ! i" shows "first_diff (key_bit e) (key_bit n) [8 * i..<8 * i + 8] = None"
proof -
  have "key_bit e k = key_bit n k" if "8 * i \<le> k" "k < 8 * i + 8" for k
    using key_bit_in_byte [of "k - 8 * i" e i] key_bit_in_byte [of "k - 8 * i" n i] that assms by simp
  then show ?thesis by (simp add: first_diff_None)
qed

lemma diffing_keys_spec:
  assumes "len \<le> length e" and "len \<le> length n" and "len \<le> 8192" and "i \<le> len"
  shows "diffing_keys undef e n [i..<len] operation s = Inr (diffing_spec e n [8 * i..<8 * len] operation s)"
  using assms(4)
proof (induction "len - i" arbitrary: i)
  case 0
  then show ?case by (simp add: diffing_spec_def first_diff_def)
next
  case (Suc d)
  then have i: "i < len" by simp
  have IH: "diffing_keys undef e n [Suc i..<len] operation s = Inr (diffing_spec e n [8 * Suc i..<8 * len] operation s)"
    using Suc.hyps(1) [of "Suc i"] Suc.hyps(2) i by simp
  have byte: "byte_at n i = Inr (n ! i)" "byte_at e i = Inr (e ! i)"
    using i assms(1,2) by (simp_all add: byte_at_def)
  show ?case
  proof (cases "e ! i = n ! i")
    case True
    then have "diffing_spec e n [8 * i..<8 * len] operation s = diffing_spec e n [8 * Suc i..<8 * len] operation s"
      unfolding diffing_spec_def byte_keys_split [OF i] first_diff_append
      by (simp add: first_diff_byte_eq)
    with True show ?thesis by (simp add: upt_conv_Cons [OF i] byte IH del: upt_Suc)
  next
    case False
    from DiscriminativeBit_bytes_at [of i, OF _ False, of undef] i assms(3)
    obtain r where r: "r < 8" "bit (e ! i) (7 - r) \<noteq> bit (n ! i) (7 - r)"
      "\<And>q. q < r \<Longrightarrow> bit (e ! i) (7 - q) = bit (n ! i) (7 - q)"
      "DiscriminativeBit_bytes undef (of_nat i) (e ! i) (n ! i) =
         DiscriminativeBit_at (of_nat (8 * i + r)) (of_bool (bit (n ! i) (7 - r)))" by auto
    have "first_diff (key_bit e) (key_bit n) [8 * i..<8 * len] = Some (8 * i + r)"
    proof (rule first_diff_upt)
      show "8 * i + r < 8 * len" using i r(1) by linarith
      show "key_bit e (8 * i + r) \<noteq> key_bit n (8 * i + r)" using r(2) unfolding key_bit_in_byte [OF r(1)] .
      show "key_bit e j = key_bit n j" if "8 * i \<le> j" "j < 8 * i + r" for j
        using key_bit_in_byte [of "j - 8 * i" e i] key_bit_in_byte [of "j - 8 * i" n i] r(1) r(3) [of "j - 8 * i"] that
        by simp
    qed simp
    then have "diffing_spec e n [8 * i..<8 * len] operation s =
        (True, operation (DiscriminativeBit_at (of_nat (8 * i + r)) (of_bool (bit (n ! i) (7 - r)))) s)"
      using key_bit_in_byte [OF r(1), of n i] by (simp add: diffing_spec_def)
    with False r(4) show ?thesis by (simp add: upt_conv_Cons [OF i] byte del: upt_Suc)
  qed
qed

lemma mismatching_bit_spec:
  "mismatching_bit undef e n is junk =
     rbind (diffing_keys undef e n is (\<lambda>d _. Some d) None) (\<lambda>(found, d).
       Inr (OptionalValue2 found (case d of None \<Rightarrow> DiscriminativeBit_bytes undef 0 0 0 | Some d \<Rightarrow> d) junk))"
  by (induction "is") (auto simp: byte_at_def)

section \<open>What the comparison promises\<close>

lemma find_Some_upt:
  "find P [0..<m] = Some k \<longleftrightarrow> k < m \<and> P k \<and> (\<forall>j < k. \<not> P j)"
  by (auto simp: find_Some_iff)

text \<open>Comparing two keys of a given number of bytes calls the operation with the first bit in
  which the keys differ and with its value in the new key, and reports whether there is one.\<close>
theorem executeForDiffingKeys_first_bit:
  "\<lbrakk>unat len \<le> length e; unat len \<le> length n; unat len \<le> 8192\<rbrakk> \<Longrightarrow>
   executeForDiffingKeys undef e n len operation s =
     Inr (case find (\<lambda>k. key_bit e k \<noteq> key_bit n k) [0..<8 * unat len] of
            None \<Rightarrow> (False, s)
          | Some k \<Rightarrow> (True, operation (DiscriminativeBit_at (of_nat k) (of_bool (key_bit n k))) s))"
  using diffing_keys_spec [of "unat len" e n 0 undef operation s]
  by (simp add: executeForDiffingKeys_def diffing_spec_def first_diff_def)

theorem executeForDiffingKeys_first_bit_witness:
  "executeForDiffingKeys 0 [0x41, 0x80] [0x41, 0x90] 2 (\<lambda>d ds. d # ds) [] =
     Inr (case find (\<lambda>k. key_bit [0x41, 0x80] k \<noteq> key_bit [0x41, 0x90] k) [0..<8 * unat (2 :: u16)] of
            None \<Rightarrow> (False, [])
          | Some k \<Rightarrow> (True, [DiscriminativeBit_at (of_nat k) (of_bool (key_bit [0x41, 0x90] k))]))"
  using executeForDiffingKeys_first_bit [of 2 "[0x41, 0x80]" "[0x41, 0x90]" 0 "\<lambda>d ds. d # ds" "[]"] by simp

text \<open>
  On the big-endian bytes of two 64-bit keys the loop finds the highest bit in which they differ,
  so the value of the discriminative bit tells their order.
\<close>

lemma diffing_keys_order:
  assumes "v \<noteq> w"
  obtains k where "k < 64"
    "executeForDiffingKeys undef (key_bytes v) (key_bytes w) 8 operation s =
       Inr (True, operation (DiscriminativeBit_at (of_nat k) (of_bool (v < w))) s)"
    "bit v (63 - k) \<noteq> bit w (63 - k)" "\<And>j. j < k \<Longrightarrow> bit v (63 - j) = bit w (63 - j)"
proof -
  let ?P = "\<lambda>k. key_bit (key_bytes v) k \<noteq> key_bit (key_bytes w) k"
  have "find ?P [0..<64] \<noteq> None"
  proof
    assume "find ?P [0..<64] = None"
    then have *: "\<forall>k < 64. bit v (63 - k) = bit w (63 - k)"
      by (auto simp: find_None_iff key_bit_key_bytes)
    have "bit v n = bit w n" if "n < 64" for n using *[rule_format, of "63 - n"] that by simp
    then have "v = w" by (simp add: word_eq_iff_bits)
    with assms show False ..
  qed
  then obtain k where f: "find ?P [0..<64] = Some k" by auto
  then have k: "k < 64" "?P k" "\<forall>j < k. \<not> ?P j" by (simp_all add: find_Some_upt)
  have b: "bit v (63 - k) \<noteq> bit w (63 - k)" "\<And>j. j < k \<Longrightarrow> bit v (63 - j) = bit w (63 - j)"
    using k by (auto simp: key_bit_key_bytes)
  have above: "bit v j = bit w j" if "63 - k < j" for j
  proof (cases "j < 64")
    case True
    then show ?thesis using b(2) [of "63 - j"] that k(1) by simp
  next
    case False
    then show ?thesis by (auto dest: bit_imp_le_length)
  qed
  have "bit w (63 - k) \<longleftrightarrow> v < w"
  proof
    assume "bit w (63 - k)"
    then show "v < w" using b(1) above by (intro word_less_iff_top_bit [of "63 - k"]) auto
  next
    assume "v < w"
    show "bit w (63 - k)"
    proof (rule ccontr)
      assume "\<not> bit w (63 - k)"
      then have "w < v" using b(1) above by (intro word_less_iff_top_bit [of "63 - k"]) auto
      with \<open>v < w\<close> show False by simp
    qed
  qed
  then have "key_bit (key_bytes w) k \<longleftrightarrow> v < w" using k(1) by (simp add: key_bit_key_bytes)
  with f have "executeForDiffingKeys undef (key_bytes v) (key_bytes w) 8 operation s =
      Inr (True, operation (DiscriminativeBit_at (of_nat k) (of_bool (v < w))) s)"
    using diffing_keys_spec [of 8 "key_bytes v" "key_bytes w" 0 undef operation s]
    by (simp add: executeForDiffingKeys_def diffing_spec_def first_diff_def)
  from that [OF k(1) this b] show thesis .
qed

text \<open>C29: For two different 64-bit keys stored in big-endian order the discriminative bit is their
  highest differing bit, and its value is one iff the new key is the larger one.\<close>
theorem discriminative_bit_orders_keys:
  "v \<noteq> w \<Longrightarrow> \<exists>k < 64. executeForDiffingKeys undef (key_bytes v) (key_bytes w) 8 (\<lambda>d _. Some d) None =
     Inr (True, Some (DiscriminativeBit_at (of_nat k) (of_bool (v < w)))) \<and>
     bit v (63 - k) \<noteq> bit w (63 - k) \<and> (\<forall>j < k. bit v (63 - j) = bit w (63 - j))"
  by (rule diffing_keys_order [of v w undef "\<lambda>d _. Some d" None]) blast+

theorem discriminative_bit_orders_keys_witness:
  "\<exists>k < 64. executeForDiffingKeys 0 (key_bytes 5) (key_bytes 6) 8 (\<lambda>d _. Some d) None =
     Inr (True, Some (DiscriminativeBit_at (of_nat k) (of_bool ((5 :: u64) < 6)))) \<and>
     bit (5 :: u64) (63 - k) \<noteq> bit (6 :: u64) (63 - k) \<and>
     (\<forall>j < k. bit (5 :: u64) (63 - j) = bit (6 :: u64) (63 - j))"
  by (rule discriminative_bit_orders_keys) simp

text \<open>
  A rule with wildcards against an existing key: the versions with masks report the raw bytes, so
  the reported bit may lie under a wildcard although an unmasked bit differs too.
\<close>

lemma masked_bit_under_wildcard:
  "executeForDiffingKeys_mask 0 (bswap64 0x80) [0x80] [0x01] 1 (\<lambda>d _. Some d) (False, None) =
     Inr (True, False, Some (DiscriminativeBit_at 0 0))"
  by code_simp

end
