(* ===== verification/Partial_Key_Mappings.thy ===== *)
theory Partial_Key_Mappings
  imports Discriminative_Bit Simd_Registers
begin

text \<open>
  The state of the two partial key mappings
  (\<open>SingleMaskPartialKeyMapping\<close>, \<open>MultiMaskPartialKeyMapping\<close> and their base under
  \<open>src/hot/commons/include/hot/commons\<close>) and what both have in common: a mapping picks key bits,
  and the dense partial key of a key is the word of these bits in the order of the mapping.

  Bit and byte indices are natural numbers with the wrap-around of the C++ type written out.
\<close>

unbundle bit_operations_syntax

section \<open>The records\<close>

text \<open>
  The base class: the indices of the most and of the least significant discriminative bit.  A
  single mask selects bits of the eight key bytes from \<open>mOffsetInBytes\<close> on.
\<close>

record PartialKeyMappingBase =
  mMostSignificantDiscriminativeBitIndex :: nat
  mLeastSignificantDiscriminativeBitIndex :: nat

record SingleMaskPartialKeyMapping = PartialKeyMappingBase +
  mOffsetInBytes :: nat
  mSuccessiveExtractionMask :: u64

text \<open>
  A multi mask selects bits of up to \<open>8\<close>, \<open>16\<close> or \<open>32\<close> single key bytes: the two arrays of 64-bit
  words are given by their bytes, lowest address first.
\<close>

record MultiMaskPartialKeyMapping = PartialKeyMappingBase +
  mNumberExtractionBytes :: nat
  mNumberKeyBits :: nat
  mExtractionPositions :: "u8 list"
  mExtractionData :: "u8 list"

text \<open>The mapping a template operation is instantiated with.\<close>

datatype mapping =
  SingleMapping SingleMaskPartialKeyMapping
| MultiMapping1 MultiMaskPartialKeyMapping
| MultiMapping2 MultiMaskPartialKeyMapping
| MultiMapping4 MultiMaskPartialKeyMapping

definition base_insert :: "nat \<times> nat \<Rightarrow> DiscriminativeBit \<Rightarrow> nat \<times> nat" where
  "base_insert existing significantKeyInformation =
     (min (fst existing) (unat (mAbsoluteBitIndex significantKeyInformation)),
      max (snd existing) (unat (mAbsoluteBitIndex significantKeyInformation)))"

section \<open>Arithmetic of unsigned indices\<close>

definition u16nat :: "nat \<Rightarrow> nat" where
  "u16nat n = n mod 2 ^ 16"

definition sub32 :: "nat \<Rightarrow> nat \<Rightarrow> nat" where
  "sub32 a b = (a + (2 ^ 32 - b mod 2 ^ 32)) mod 2 ^ 32"

lemma u16nat_small [simp]: "n < 65536 \<Longrightarrow> u16nat n = n"
  by (simp add: u16nat_def)

lemma sub32_small [simp]:
  assumes "b \<le> a" "a < 2 ^ 32" shows "sub32 a b = a - b"
proof -
  have "a + (2 ^ 32 - b mod 2 ^ 32) = (a - b) + 2 ^ 32" using assms by simp
  then have "sub32 a b = (a - b) mod 2 ^ 32" unfolding sub32_def by (simp only: mod_add_self2)
  also have "\<dots> = a - b" by (rule mod_less) (use assms in linarith)
  finally show ?thesis .
qed

section \<open>The bits a mapping picks\<close>

text \<open>
  The absolute index of the key bit that bit \<open>i\<close> of an extraction mask stands for, when the byte
  \<open>j\<close> of the mask belongs to the key byte \<open>p j\<close>: within a byte the order is reversed.
\<close>

definition abs_bit :: "(nat \<Rightarrow> nat) \<Rightarrow> nat \<Rightarrow> nat" where
  "abs_bit p i = 8 * p (i div 8) + (7 - i mod 8)"

lemma abs_bit_inj:
  assumes "inj_on p {..<n}" shows "inj_on (abs_bit p) {..<8 * n}"
proof (rule inj_onI)
  fix i j assume i: "i \<in> {..<8 * n}" and j: "j \<in> {..<8 * n}" and eq: "abs_bit p i = abs_bit p j"
  have lt: "7 - i mod 8 < 8" "7 - j mod 8 < 8" by simp_all
  from arg_cong [OF eq, of "\<lambda>x. x div 8"] arg_cong [OF eq, of "\<lambda>x. x mod 8"]
  have "p (i div 8) = p (j div 8)" "7 - i mod 8 = 7 - j mod 8"
    by (simp_all only: abs_bit_def byte_index lt)
  moreover have "i div 8 < n" "j div 8 < n" using i j by auto
  ultimately have "i div 8 = j div 8" "i mod 8 = j mod 8"
    using assms mod_less_divisor [of 8 i] mod_less_divisor [of 8 j] by (auto simp: inj_on_def) linarith
  then show "i = j" by (metis div_mult_mod_eq)
qed

lemma key_bit_abs_bit: "key_bit bs (abs_bit p i) = bit (bs ! p (i div 8)) (i mod 8)"
proof -
  have "7 - i mod 8 < 8" "7 - (7 - i mod 8) = i mod 8"
    using mod_less_divisor [of 8 i] by linarith+
  then show ?thesis by (simp only: key_bit_def abs_bit_def byte_index)
qed

lemma abs_bit_div_mod [simp]:
  "abs_bit p i div 8 = p (i div 8)" "abs_bit p i mod 8 = 7 - i mod 8"
  by (simp_all add: abs_bit_def del: add_diff_assoc)

text \<open>A word of at most 32 picked bits survives the conversion to a 32-bit partial key.\<close>

lemma ucast_of_bits:
  assumes "length bs \<le> 32" shows "ucast (of_bits bs :: u64) = (of_bits bs :: u32)"
  by (rule bit_word_eqI) (use assms in \<open>auto simp: bit_simps word_bits\<close>)

lemma pext_load:
  assumes "\<And>i. i < 64 \<Longrightarrow> bit w i = key_bit bs (abs_bit p i)"
  shows "pext w m = of_bits (map (\<lambda>i. key_bit bs (abs_bit p i)) (ones (m :: u64)))"
  unfolding pext_def by (rule arg_cong [of _ _ of_bits]) (use assms in \<open>auto dest: bit_imp_le_length\<close>)

lemma of_bits_map_eq:
  assumes "length xs \<le> LENGTH('a::len)"
  shows "(of_bits (map f xs) :: 'a word) = of_bits (map g xs) \<longleftrightarrow> (\<forall>x \<in> set xs. f x = g x)"
proof
  assume eq: "(of_bits (map f xs) :: 'a word) = of_bits (map g xs)"
  have "f (xs ! j) = g (xs ! j)" if "j < length xs" for j
    using arg_cong [OF eq, of "\<lambda>w. bit w j"] that assms by (simp add: bit_of_bits)
  then show "\<forall>x \<in> set xs. f x = g x" by (simp add: all_set_conv_all_nth)
qed (simp cong: map_cong)

text \<open>
  What a mapping promises the trie, whatever its kind: it extracts the bits at its positions, in
  the order of the positions.  Two keys then have the same partial key iff they agree there.
\<close>

locale partial_key_mapping =
  fixes extr :: "'m \<Rightarrow> u8 list \<Rightarrow> u32 cxx"
    and positions :: "'m \<Rightarrow> nat list"
    and reads :: "'m \<Rightarrow> nat"
    and valid :: "'m \<Rightarrow> bool"
  assumes extract_law: "valid m \<Longrightarrow> reads m \<le> length bs \<Longrightarrow>
      extr m bs = Inr (of_bits (map (key_bit bs) (positions m)))"
    and few: "valid m \<Longrightarrow> length (positions m) \<le> 32"
begin

lemma extract_bit:
  assumes "valid m" "reads m \<le> length bs" "j < length (positions m)"
  shows "\<exists>r. extr m bs = Inr r \<and> (bit r j \<longleftrightarrow> key_bit bs (positions m ! j))"
  using assms few [OF assms(1)] by (simp add: extract_law bit_of_bits)

lemma extract_eq_iff:
  assumes "valid m" "reads m \<le> length bs" "reads m \<le> length cs"
  shows "extr m bs = extr m cs \<longleftrightarrow> (\<forall>k \<in> set (positions m). key_bit bs k = key_bit cs k)"
  using of_bits_map_eq [of "positions m", where 'a = 32] few [OF assms(1)] assms by (simp add: extract_law)

end

end
