(* ===== verification/Single_Mask.thy ===== *)
theory Single_Mask
  imports Partial_Key_Mappings Sparse_Partial_Keys
begin

text \<open>
  \<open>src/hot/commons/include/hot/commons/SingleMaskPartialKeyMapping.hpp\<close>: a mapping whose
  discriminative bits lie within eight successive key bytes, extracted by one \<open>pext\<close>.
\<close>

unbundle bit_operations_syntax

section \<open>Helpers\<close>

definition SUCCESSIVE_EXTRACTION_MASK_WITH_HIGHEST_BIT_SET :: u64 where
  "SUCCESSIVE_EXTRACTION_MASK_WITH_HIGHEST_BIT_SET = push_bit 63 1"

definition convertToIndexOfOtherEndiness :: "nat \<Rightarrow> nat \<Rightarrow> nat" where
  "convertToIndexOfOtherEndiness maskRelativeBytePosition byteRelativeBitPosition =
     sub32 (maskRelativeBytePosition * 8 + 7) byteRelativeBitPosition"

definition getSuccessiveMaskForBit :: "nat \<Rightarrow> nat \<Rightarrow> nat \<Rightarrow> u64 cxx" where
  "getSuccessiveMaskForBit offsetInBytes bytePosition byteRelativeBitPosition =
     shl64 1 (convertToIndexOfOtherEndiness (sub32 bytePosition offsetInBytes) byteRelativeBitPosition)"

definition getSuccessiveMaskForAbsoluteBitPosition :: "SingleMaskPartialKeyMapping \<Rightarrow> nat \<Rightarrow> u64 cxx" where
  "getSuccessiveMaskForAbsoluteBitPosition m absoluteBitPosition =
     getSuccessiveMaskForBit (mOffsetInBytes m) (unat (getByteIndex (of_nat absoluteBitPosition)))
       (unat (bitPositionInByte (of_nat absoluteBitPosition)))"

definition getSuccesiveByteOffsetForLeastSignificantBitIndex :: "nat \<Rightarrow> nat" where
  "getSuccesiveByteOffsetForLeastSignificantBitIndex leastSignificantBitIndex =
     unat (getSuccesiveByteOffsetForMostRightByte (getByteIndex (of_nat leastSignificantBitIndex)))"

definition calculateRelativeMostSignificantBitIndex :: "u64 \<Rightarrow> nat" where
  "calculateRelativeMostSignificantBitIndex rawExtractionMask =
     (let reverseMask = bswap64 rawExtractionMask in lzcnt reverseMask)"

definition calculateRelativeLeastSignificantBitIndex :: "u64 \<Rightarrow> nat" where
  "calculateRelativeLeastSignificantBitIndex rawExtractionMask =
     u16nat (nat ((63 - int (tzcnt (bswap64 rawExtractionMask))) mod 2 ^ 16))"

text \<open>The bytes of the extraction mask written one by one, from positions and data given as arrays.\<close>

definition getSuccessiveExtractionMaskFromRandomBytes ::
  "u8 list \<Rightarrow> u8 list \<Rightarrow> u32 \<Rightarrow> nat \<Rightarrow> u64 cxx" where
  "getSuccessiveExtractionMaskFromRandomBytes extractionBytePositions extractionByteData extractionBytesUsedMask offsetInBytes =
     rbind (rfold (\<lambda>extractionByteIndex successiveExtractionBytes.
              rbind (byte_at extractionBytePositions extractionByteIndex) (\<lambda>position.
              rbind (byte_at extractionByteData extractionByteIndex) (\<lambda>data.
                let targetExtractionBytePosition = sub32 (unat position) offsetInBytes
                in if targetExtractionBytePosition < 8
                   then Inr (successiveExtractionBytes [targetExtractionBytePosition := data])
                   else Inl UB_Index)))
            (ones extractionBytesUsedMask) (replicate 8 0))
       (\<lambda>successiveExtractionBytes. load64 successiveExtractionBytes 0)"

section \<open>Constructors\<close>

definition single :: "nat \<Rightarrow> nat \<Rightarrow> nat \<Rightarrow> u64 \<Rightarrow> SingleMaskPartialKeyMapping" where
  "single msb lsb off msk =
     \<lparr> mMostSignificantDiscriminativeBitIndex = msb, mLeastSignificantDiscriminativeBitIndex = lsb,
       mOffsetInBytes = off, mSuccessiveExtractionMask = msk \<rparr>"

text \<open>From one bit.\<close>

definition SingleMask_bit :: "DiscriminativeBit \<Rightarrow> SingleMaskPartialKeyMapping cxx" where
  "SingleMask_bit d =
     (let off = unat (getSuccesiveByteOffsetForMostRightByte (ucast (mByteIndex d)))
      in rbind (getSuccessiveMaskForBit off (unat (mByteIndex d)) (unat (mByteRelativeBitIndex d))) (\<lambda>msk.
           Inr (single (unat (mAbsoluteBitIndex d)) (unat (mAbsoluteBitIndex d)) off msk)))"

text \<open>From the bytes of a multi mask.\<close>

definition SingleMask_random ::
  "u8 list \<Rightarrow> u8 list \<Rightarrow> u32 \<Rightarrow> nat \<Rightarrow> nat \<Rightarrow> SingleMaskPartialKeyMapping cxx" where
  "SingleMask_random extractionBytePositions extractionByteData extractionBytesUsedMask msb lsb =
     (let off = getSuccesiveByteOffsetForLeastSignificantBitIndex lsb
      in rbind (getSuccessiveExtractionMaskFromRandomBytes extractionBytePositions extractionByteData
                  extractionBytesUsedMask off) (\<lambda>msk. Inr (single msb lsb off msk)))"

text \<open>From an existing mapping and one more bit.\<close>

definition SingleMask_insert ::
  "SingleMaskPartialKeyMapping \<Rightarrow> DiscriminativeBit \<Rightarrow> SingleMaskPartialKeyMapping cxx" where
  "SingleMask_insert existing discriminatingBit =
     (let (msb, lsb) = base_insert (mMostSignificantDiscriminativeBitIndex existing,
                          mLeastSignificantDiscriminativeBitIndex existing) discriminatingBit;
          off = getSuccesiveByteOffsetForLeastSignificantBitIndex lsb
      in rbind (getSuccessiveMaskForBit off (unat (mByteIndex discriminatingBit))
                  (unat (mByteRelativeBitIndex discriminatingBit))) (\<lambda>bit_mask.
         rbind (shr64 (mSuccessiveExtractionMask existing)
                  (u16nat (sub32 off (mOffsetInBytes existing)) * 8 mod 2 ^ 16)) (\<lambda>shifted.
           Inr (single msb lsb off (bit_mask OR shifted)))))"

text \<open>From an existing mapping and the extraction bits to keep, at the same offset.\<close>

definition SingleMask_mask ::
  "SingleMaskPartialKeyMapping \<Rightarrow> u64 \<Rightarrow> SingleMaskPartialKeyMapping cxx" where
  "SingleMask_mask existing newExtractionMaskWithSameOffset =
     (let base = u16nat (mOffsetInBytes existing) * 8 mod 2 ^ 16;
          msb = u16nat (base + calculateRelativeMostSignificantBitIndex newExtractionMaskWithSameOffset);
          lsb = u16nat (base + calculateRelativeLeastSignificantBitIndex newExtractionMaskWithSameOffset);
          off = getSuccesiveByteOffsetForLeastSignificantBitIndex lsb
      in rbind (shl64 newExtractionMaskWithSameOffset
                  (u16nat (sub32 (mOffsetInBytes existing) off) * 8 mod 2 ^ 16)) (\<lambda>msk.
           Inr (single msb lsb off msk)))"

definition getSuccessiveMaskForMask :: "SingleMaskPartialKeyMapping \<Rightarrow> u32 \<Rightarrow> u64" where
  "getSuccessiveMaskForMask m msk = pdep (ucast msk) (mSuccessiveExtractionMask m)"

definition SingleMask_needed ::
  "SingleMaskPartialKeyMapping \<Rightarrow> u32 \<Rightarrow> SingleMaskPartialKeyMapping cxx" where
  "SingleMask_needed existing maskBitsNeeded =
     SingleMask_mask existing (getSuccessiveMaskForMask existing maskBitsNeeded)"

section \<open>Queries\<close>

definition sm_calculateNumberBitsUsed :: "SingleMaskPartialKeyMapping \<Rightarrow> nat" where
  "sm_calculateNumberBitsUsed m = popcnt (mSuccessiveExtractionMask m)"

definition extractMaskFromSuccessiveBytes :: "SingleMaskPartialKeyMapping \<Rightarrow> u64 \<Rightarrow> u32" where
  "extractMaskFromSuccessiveBytes m inputMask = ucast (pext inputMask (mSuccessiveExtractionMask m))"

text \<open>
  The version for a rule: the partial key restricted to the bits that are no wildcards, whose
  positions are left in the global \<open>extract_mask\<close>.
\<close>

definition extractMaskFromSuccessiveBytes_mask ::
  "SingleMaskPartialKeyMapping \<Rightarrow> u64 \<Rightarrow> u64 \<Rightarrow> Search_globals \<Rightarrow> u32 \<times> Search_globals" where
  "extractMaskFromSuccessiveBytes_mask m inputMask msk g =
     (let rst = ucast (pext inputMask (mSuccessiveExtractionMask m)) :: u32
      in if msk = 0 then (rst, g \<lparr> extract_mask := 0 \<rparr>)
         else let newMask = bswap64 msk;
                  x = pext (mSuccessiveExtractionMask m XOR newMask) (mSuccessiveExtractionMask m)
              in (ucast (pext (ucast rst) x), g \<lparr> extract_mask := x \<rparr>))"

definition sm_extractMask :: "SingleMaskPartialKeyMapping \<Rightarrow> u8 list \<Rightarrow> u32 cxx" where
  "sm_extractMask m keyBytes =
     rbind (load64 keyBytes (mOffsetInBytes m)) (\<lambda>w. Inr (extractMaskFromSuccessiveBytes m w))"

definition sm_extractMask_mask ::
  "SingleMaskPartialKeyMapping \<Rightarrow> u8 list \<Rightarrow> u64 \<Rightarrow> Search_globals \<Rightarrow> (u32 \<times> Search_globals) cxx" where
  "sm_extractMask_mask m keyBytes msk g =
     rbind (load64 keyBytes (mOffsetInBytes m)) (\<lambda>w. Inr (extractMaskFromSuccessiveBytes_mask m w msk g))"

text \<open>
  All bits of the mapping before the mismatch: the shift by whole bytes is undefined when the
  mismatch lies in a byte before the offset.
\<close>

definition sm_getPrefixBitsMask :: "SingleMaskPartialKeyMapping \<Rightarrow> DiscriminativeBit \<Rightarrow> u32 cxx" where
  "sm_getPrefixBitsMask m d =
     (let relativeMissmatchingByteIndex = int (unat (mByteIndex d)) - int (mOffsetInBytes m)
      in rbind (shr64 (- 1) (unat (mByteRelativeBitIndex d))) (\<lambda>top.
           let singleBytePrefixMask = (top XOR push_bit 56 (- 1)) * of_bool (relativeMissmatchingByteIndex \<ge> 0)
           in rbind (if relativeMissmatchingByteIndex > 7 then Inr (- 1)
                     else shr64 singleBytePrefixMask (nat ((7 - relativeMissmatchingByteIndex) * 8)))
                (\<lambda>subtreeSuccesiveBytesMask. Inr (extractMaskFromSuccessiveBytes m subtreeSuccesiveBytesMask))))"

definition sm_getUsedBytesMask :: "SingleMaskPartialKeyMapping \<Rightarrow> u32" where
  "sm_getUsedBytesMask m = movemask8 (cmpeq (bytes64 (mSuccessiveExtractionMask m)) (bytes64 0)) XOR 0xFF"

definition sm_hasUnusedBytes :: "SingleMaskPartialKeyMapping \<Rightarrow> bool" where
  "sm_hasUnusedBytes m \<longleftrightarrow> sm_getUsedBytesMask m \<noteq> 0xFF"

definition sm_getByteOffset :: "SingleMaskPartialKeyMapping \<Rightarrow> nat" where
  "sm_getByteOffset m = mOffsetInBytes m"

definition sm_getExtractionByte :: "SingleMaskPartialKeyMapping \<Rightarrow> nat \<Rightarrow> u8 cxx" where
  "sm_getExtractionByte m byteIndex = byte_at (bytes64 (mSuccessiveExtractionMask m)) byteIndex"

definition sm_getExtractionBytePosition :: "SingleMaskPartialKeyMapping \<Rightarrow> nat \<Rightarrow> u8" where
  "sm_getExtractionBytePosition m byteIndex = of_nat (byteIndex + mOffsetInBytes m)"

definition sm_getMaskForHighestBit :: "SingleMaskPartialKeyMapping \<Rightarrow> u32 cxx" where
  "sm_getMaskForHighestBit m =
     rbind (getSuccessiveMaskForAbsoluteBitPosition m (mMostSignificantDiscriminativeBitIndex m)) (\<lambda>w.
       Inr (extractMaskFromSuccessiveBytes m w))"

definition sm_getMaskFor :: "SingleMaskPartialKeyMapping \<Rightarrow> DiscriminativeBit \<Rightarrow> u32 cxx" where
  "sm_getMaskFor m d =
     rbind (getSuccessiveMaskForBit (mOffsetInBytes m) (unat (mByteIndex d)) (unat (mByteRelativeBitIndex d)))
       (\<lambda>w. Inr (extractMaskFromSuccessiveBytes m w))"

definition sm_getAllMaskBits :: "SingleMaskPartialKeyMapping \<Rightarrow> u32" where
  "sm_getAllMaskBits m = ucast (pext (mSuccessiveExtractionMask m) (mSuccessiveExtractionMask m))"

definition sm_createIntermediateKeyWithOnlySignificantBitsSet :: "SingleMaskPartialKeyMapping \<Rightarrow> u8 list cxx" where
  "sm_createIntermediateKeyWithOnlySignificantBitsSet m =
     (if mOffsetInBytes m + 8 \<le> 256
      then Inr (replicate (mOffsetInBytes m) 0 @ bytes64 (mSuccessiveExtractionMask m) @
                replicate (256 - (mOffsetInBytes m + 8)) 0)
      else Inl UB_Index)"

text \<open>The most significant of some mask bits: the highest bit of the lowest byte that has one.\<close>

definition sm_getMostSignifikantMaskBit :: "SingleMaskPartialKeyMapping \<Rightarrow> u32 \<Rightarrow> u32 cxx" where
  "sm_getMostSignifikantMaskBit m msk =
     (let correspondingSuccessiveExtractionMask = getSuccessiveMaskForMask m msk;
          byteShiftOffset = 8 * (tzcnt correspondingSuccessiveExtractionMask div 8)
      in rbind (shl64 0xFF byteShiftOffset) (\<lambda>byte_mask.
           let mostSignificantExtractionByteMask = correspondingSuccessiveExtractionMask AND byte_mask
           in rbind (shr64 SUCCESSIVE_EXTRACTION_MASK_WITH_HIGHEST_BIT_SET (lzcnt mostSignificantExtractionByteMask))
                (\<lambda>w. Inr (extractMaskFromSuccessiveBytes m w))))"

definition sm_getLeastSignificantBitIndex :: "SingleMaskPartialKeyMapping \<Rightarrow> u32 \<Rightarrow> nat" where
  "sm_getLeastSignificantBitIndex m partialKey =
     u16nat (u16nat (mOffsetInBytes m) * 8 mod 2 ^ 16 +
       calculateRelativeLeastSignificantBitIndex (getSuccessiveMaskForMask m partialKey))"

section \<open>Key bits and mask bits\<close>

text \<open>Reversing the order of the bits within each byte, between mask bits and key bits.\<close>

definition rbit :: "nat \<Rightarrow> nat" where
  "rbit i = abs_bit (\<lambda>j. j) i"

lemma rbit_rbit [simp]: "rbit (rbit i) = i"
proof -
  have "7 - (7 - i mod 8) = i mod 8" using mod_less_divisor [of 8 i] by linarith
  then show ?thesis
    unfolding rbit_def abs_bit_def [of "\<lambda>j. j" "abs_bit _ _"] abs_bit_div_mod
    by (simp add: div_mult_mod_eq [of i 8, unfolded mult.commute [of _ 8]])
qed

lemma rbit_div [simp]: "rbit i div 8 = i div 8" and rbit_mod [simp]: "rbit i mod 8 = 7 - i mod 8"
  by (simp_all add: rbit_def)

lemma rbit_less: "i < 8 * n \<Longrightarrow> rbit i < 8 * n"
proof -
  assume "i < 8 * n"
  then have "rbit i div 8 < n" by (simp add: less_mult_imp_div_less mult.commute)
  then show ?thesis using div_mult_mod_eq [of "rbit i" 8] mod_less_divisor [of 8 "rbit i"] by linarith
qed

lemma rbit_less_64 [simp]: "rbit i < 64 \<longleftrightarrow> i < 64"
  using rbit_less [of i 8] rbit_less [of "rbit i" 8] by auto

lemma abs_bit_offset: "abs_bit (\<lambda>j. off + j) i = 8 * off + rbit i"
  by (simp add: abs_bit_def rbit_def)

lemma rbit_complement: "n < 64 \<Longrightarrow> 8 * (7 - n div 8) + n mod 8 = rbit (63 - n)"
proof -
  assume "n < 64"
  then have "63 - n = 8 * (7 - n div 8) + (7 - n mod 8)"
    using div_mult_mod_eq [of n 8] mod_less_divisor [of 8 n] by linarith
  moreover have "7 - n mod 8 < 8" "7 - (7 - n mod 8) = n mod 8" using mod_less_divisor [of 8 n] by linarith+
  ultimately show ?thesis unfolding rbit_def abs_bit_def by (simp only: byte_index)
qed

lemma bit_bswap64_rbit: "bit (bswap64 x) n \<longleftrightarrow> n < 64 \<and> bit x (rbit (63 - n))"
  by (auto simp: bit_bswap64 rbit_complement)

text \<open>The first and the last key bit of a mask, relative to its offset.\<close>

lemma relative_indices:
  assumes "raw \<noteq> 0"
  shows "calculateRelativeMostSignificantBitIndex raw = Min (rbit ` {i. bit raw i})"
    "calculateRelativeLeastSignificantBitIndex raw = Max (rbit ` {i. bit raw i})"
    "Max (rbit ` {i. bit raw i}) < 64"
proof -
  let ?S = "rbit ` {i. bit raw i}"
  have fin: "finite ?S" using set_ones [of raw] by (metis List.finite_set finite_imageI)
  have ne: "?S \<noteq> {}" using tzcnt_bit(1) [OF assms] by blast
  have b: "\<And>i. bit raw i \<Longrightarrow> i < 64" using bit_imp_le_length by fastforce
  then have S64: "k < 64" if "k \<in> ?S" for k using that by auto
  have mem: "bit (bswap64 raw) n \<longleftrightarrow> n < 64 \<and> 63 - n \<in> ?S" for n
    by (auto simp: bit_bswap64_rbit image_iff intro!: exI [of _ "rbit (63 - n)"])
  show "Max ?S < 64" using S64 Max_in [OF fin ne] by blast
  have mn: "Min ?S < 64" using S64 Min_in [OF fin ne] by blast
  have "lzcnt (bswap64 raw) = LENGTH(64) - 1 - (63 - Min ?S)"
  proof (rule lzcnt_eqI)
    show "bit (bswap64 raw) (63 - Min ?S)"
      using Min_in [OF fin ne] mn by (simp add: mem)
    show "\<not> bit (bswap64 raw) j" if "63 - Min ?S < j" for j
    proof
      assume "bit (bswap64 raw) j"
      then have "j < 64" "63 - j \<in> ?S" by (simp_all only: mem)
      with Min_le [OF fin this(2)] that mn show False by linarith
    qed
  qed
  then show "calculateRelativeMostSignificantBitIndex raw = Min ?S"
    using mn by (simp add: calculateRelativeMostSignificantBitIndex_def)
  have mx: "Max ?S < 64" using S64 Max_in [OF fin ne] by blast
  have "tzcnt (bswap64 raw) = 63 - Max ?S"
  proof (rule tzcnt_eqI)
    show "bit (bswap64 raw) (63 - Max ?S)" using Max_in [OF fin ne] mx by (simp add: mem)
    show "\<not> bit (bswap64 raw) j" if "j < 63 - Max ?S" for j
    proof
      assume "bit (bswap64 raw) j"
      then have "j < 64" "63 - j \<in> ?S" by (simp_all only: mem)
      with Max_ge [OF fin this(2)] that show False by linarith
    qed
  qed
  moreover have "63 - int (63 - Max ?S) = int (Max ?S)" using mx by linarith
  moreover have "int (Max ?S) mod 2 ^ 16 = int (Max ?S)" using mx by simp
  ultimately have "calculateRelativeLeastSignificantBitIndex raw = u16nat (nat (int (Max ?S)))"
    unfolding calculateRelativeLeastSignificantBitIndex_def by metis
  then show "calculateRelativeLeastSignificantBitIndex raw = Max ?S" using mx by simp
qed

section \<open>The positions of a single mask and its invariant\<close>

definition sm_positions :: "SingleMaskPartialKeyMapping \<Rightarrow> nat list" where
  "sm_positions m = map (\<lambda>i. 8 * mOffsetInBytes m + rbit i) (ones (mSuccessiveExtractionMask m))"

definition sm_bits :: "SingleMaskPartialKeyMapping \<Rightarrow> nat set" where
  "sm_bits m = set (sm_positions m)"

text \<open>Keys have at most 256 bytes, so bit indices stay below 2048.\<close>

definition sm_wf :: "SingleMaskPartialKeyMapping \<Rightarrow> bool" where
  "sm_wf m \<longleftrightarrow> sm_bits m \<noteq> {} \<and>
     mMostSignificantDiscriminativeBitIndex m = Min (sm_bits m) \<and>
     mLeastSignificantDiscriminativeBitIndex m = Max (sm_bits m) \<and>
     mOffsetInBytes m = Max (sm_bits m) div 8 - 7 \<and> Max (sm_bits m) < 2048"

lemma sm_bits_def': "sm_bits m = (\<lambda>i. 8 * mOffsetInBytes m + rbit i) ` {i. bit (mSuccessiveExtractionMask m) i}"
  by (simp add: sm_bits_def sm_positions_def)

lemma sm_bits_iff:
  "k \<in> sm_bits m \<longleftrightarrow> 8 * mOffsetInBytes m \<le> k \<and> bit (mSuccessiveExtractionMask m) (rbit (k - 8 * mOffsetInBytes m))"
  by (auto simp: sm_bits_def' image_iff intro!: exI [of _ "rbit (k - 8 * mOffsetInBytes m)"])

lemma finite_sm_bits [simp]: "finite (sm_bits m)"
  by (simp add: sm_bits_def)

lemma sm_bits_bounds:
  assumes "k \<in> sm_bits m"
  shows "8 * mOffsetInBytes m \<le> k" "k < 8 * mOffsetInBytes m + 64"
proof -
  have "rbit (k - 8 * mOffsetInBytes m) < 64" "8 * mOffsetInBytes m \<le> k"
    using assms by (auto simp: sm_bits_iff dest: bit_imp_le_length)
  then show "8 * mOffsetInBytes m \<le> k" "k < 8 * mOffsetInBytes m + 64" by simp_all
qed

lemma distinct_sm_positions [simp]: "distinct (sm_positions m)"
  by (auto simp: sm_positions_def distinct_map inj_on_def dest: arg_cong [of _ _ rbit])

lemma sm_bits_card: "card (sm_bits m) = popcnt (mSuccessiveExtractionMask m)"
  by (metis distinct_sm_positions distinct_card length_map popcnt_def sm_bits_def sm_positions_def)

section \<open>Bit masks and offsets\<close>

lemma offset_for_lsb: "lsb < 65536 \<Longrightarrow> getSuccesiveByteOffsetForLeastSignificantBitIndex lsb = lsb div 8 - 7"
  by (simp add: getSuccesiveByteOffsetForLeastSignificantBitIndex_def unat_right_byte_offset unat_of_nat_small)

lemma sub_bytes:
  assumes "8 * off \<le> (k :: nat)"
  shows "(k - 8 * off) div 8 = k div 8 - off" "(k - 8 * off) mod 8 = k mod 8"
proof -
  from assms obtain r where "k = 8 * off + r" using le_Suc_ex by blast
  then show "(k - 8 * off) div 8 = k div 8 - off" "(k - 8 * off) mod 8 = k mod 8" by simp_all
qed

lemma mask_for_bit:
  assumes "8 * off \<le> k" and "k < 8 * off + 64" and "k < 65536"
  shows "getSuccessiveMaskForBit off (k div 8) (k mod 8) = Inr (push_bit (rbit (k - 8 * off)) 1)"
proof -
  have "off \<le> k div 8" using assms(1) by (simp add: less_eq_div_iff_mult_less_eq mult.commute)
  then have s1: "sub32 (k div 8) off = k div 8 - off" using assms(3) by simp
  note d = sub_bytes [OF assms(1)]
  have "k mod 8 \<le> (k div 8 - off) * 8 + 7" using mod_less_divisor [of 8 k] by linarith
  moreover have "(k div 8 - off) * 8 + 7 < 2 ^ 32" using assms(3) by auto
  ultimately have "convertToIndexOfOtherEndiness (k div 8 - off) (k mod 8) = (k div 8 - off) * 8 + 7 - k mod 8"
    unfolding convertToIndexOfOtherEndiness_def by (rule sub32_small)
  also have "\<dots> = rbit (k - 8 * off)"
    unfolding rbit_def abs_bit_def d using mod_less_divisor [of 8 k] by simp
  finally have c: "convertToIndexOfOtherEndiness (k div 8 - off) (k mod 8) = rbit (k - 8 * off)" .
  have "rbit (k - 8 * off) < 64" using assms by simp
  then show ?thesis unfolding getSuccessiveMaskForBit_def s1 c by (rule shift_simps(1))
qed

section \<open>Constructing and extending a mapping\<close>

text \<open>A discriminative bit that stands for key bit \<open>k\<close>.\<close>

definition dbit_for :: "DiscriminativeBit \<Rightarrow> nat \<Rightarrow> bool" where
  "dbit_for d k \<longleftrightarrow> unat (mAbsoluteBitIndex d) = k \<and> unat (mByteIndex d) = k div 8 \<and>
     unat (mByteRelativeBitIndex d) = k mod 8 \<and> k < 2048"

lemma dbit_for_at: "k < 2048 \<Longrightarrow> dbit_for (DiscriminativeBit_at (of_nat k) v) k"
  by (simp add: dbit_for_def DiscriminativeBit_at_def unsigned_ucast_eq take_bit_nat_eq_self)

lemma sm_wfI:
  assumes "sm_bits (single msb lsb off msk) = B" "B \<noteq> {}" "msb = Min B" "lsb = Max B" "off = Max B div 8 - 7"
    "Max B < 2048"
  shows "sm_wf (single msb lsb off msk)"
  using assms by (simp add: sm_wf_def single_def)

lemma SingleMask_bit_wf:
  assumes "dbit_for d k"
  obtains m where "SingleMask_bit d = Inr m" "sm_wf m" "sm_bits m = {k}"
proof -
  let ?off = "k div 8 - 7"
  have k: "k < 2048" "unat (mAbsoluteBitIndex d) = k" "unat (mByteIndex d) = k div 8"
    "unat (mByteRelativeBitIndex d) = k mod 8" using assms by (simp_all add: dbit_for_def)
  have o: "unat (getSuccesiveByteOffsetForMostRightByte (ucast (mByteIndex d))) = ?off"
    using k by (simp add: unat_right_byte_offset)
  have b: "8 * ?off \<le> k" "k < 8 * ?off + 64"
    using div_mult_mod_eq [of k 8] mod_less_divisor [of 8 k] by linarith+
  let ?m = "single k k ?off (push_bit (rbit (k - 8 * ?off)) 1)"
  have "rbit (k - 8 * ?off) < 64" using b by simp
  then have "sm_bits ?m = {k}"
    using b(1) by (auto simp: sm_bits_def' single_def bit_single bit_power_two)
  moreover from this have "sm_wf ?m" by (rule sm_wfI) (use k in simp_all)
  moreover have "SingleMask_bit d = Inr ?m"
    using mask_for_bit [OF b] k by (simp add: SingleMask_bit_def Let_def o)
  ultimately show thesis using that by blast
qed

text \<open>
  Adding a bit near enough: afterwards the mapping picks the old bits and the new one.  The offset
  moves with the last byte, and the bytes shifted out hold no discriminative bit.
\<close>

lemma SingleMask_insert_wf:
  assumes "sm_wf m" and "dbit_for d k"
    and near: "int (k div 8) - int (Min (sm_bits m) div 8) < 8" "int (Max (sm_bits m) div 8) - int (k div 8) < 8"
  obtains m' where "SingleMask_insert m d = Inr m'" "sm_wf m'" "sm_bits m' = insert k (sm_bits m)"
proof -
  let ?B = "sm_bits m" and ?off = "mOffsetInBytes m" and ?x = "mSuccessiveExtractionMask m"
  have k: "k < 2048" "unat (mAbsoluteBitIndex d) = k" "unat (mByteIndex d) = k div 8"
    "unat (mByteRelativeBitIndex d) = k mod 8" using assms(2) by (simp_all add: dbit_for_def)
  have wf: "?B \<noteq> {}" "mMostSignificantDiscriminativeBitIndex m = Min ?B" "mLeastSignificantDiscriminativeBitIndex m = Max ?B"
    "?off = Max ?B div 8 - 7" "Max ?B < 2048" using assms(1) by (simp_all add: sm_wf_def)
  define L where "L = max (Max ?B) k"
  define off where "off = L div 8 - 7"
  have L: "Max (insert k ?B) = L" "Min (insert k ?B) = min (Min ?B) k"
    using wf(1) by (simp_all add: L_def max.commute min.commute)
  have "L div 8 = max (Max ?B div 8) (k div 8)" by (auto simp: L_def max_def div_le_mono intro: antisym)
  then have Ld: "L div 8 = Max ?B div 8 \<or> L div 8 = k div 8" "Max ?B div 8 \<le> L div 8" by auto
  have o1: "?off \<le> off" unfolding wf(4) off_def using Ld(2) by (rule diff_le_mono)
  have o2: "off \<le> k div 8" unfolding off_def using Ld(1) near(2) by linarith
  have "L < 2048" using k(1) wf(5) by (simp add: L_def)
  note off = o1 o2 this
  have mM: "Min ?B \<le> Max ?B" using wf(1) by simp
  have lo: "off \<le> Min ?B div 8"
  proof -
    have "?off \<le> Min ?B div 8" using sm_bits_bounds(1) [OF Min_in [OF finite_sm_bits wf(1)]]
      by (simp add: less_eq_div_iff_mult_less_eq mult.commute)
    moreover have "k div 8 - 7 \<le> Min ?B div 8" using near(1) by linarith
    ultimately show ?thesis using \<open>L div 8 = _\<close> wf(4) by (auto simp: off_def max_def)
  qed
  have lt8: "off - ?off < 8"
  proof -
    have "Min ?B div 8 \<le> Max ?B div 8" using mM by (rule div_le_mono)
    then show ?thesis using lo wf(4) by linarith
  qed
  have kb: "8 * off \<le> k" "k < 8 * off + 64"
  proof -
    show "8 * off \<le> k" using off(2) div_mult_mod_eq [of k 8] by linarith
    have "k div 8 \<le> L div 8" by (rule div_le_mono) (simp add: L_def)
    then have "k div 8 \<le> off + 7" unfolding off_def by linarith
    then show "k < 8 * off + 64" using div_mult_mod_eq [of k 8] mod_less_divisor [of 8 k] by linarith
  qed
  have sh: "u16nat (sub32 off ?off) * 8 mod 65536 = 8 * (off - ?off)"
    using off lt8 by (simp add: off_def)
  let ?m' = "single (min (Min ?B) k) L off (push_bit (rbit (k - 8 * off)) 1 OR drop_bit (8 * (off - ?off)) ?x)"
  have rl: "rbit (k - 8 * off) < 64" using kb by simp
  have shift: "rbit i + 8 * d = rbit (i + 8 * d)" for i d
    by (simp add: rbit_def abs_bit_def algebra_simps)
  have bits: "sm_bits ?m' = insert k ?B"
  proof (intro set_eqI iffI)
    fix j assume "j \<in> sm_bits ?m'"
    then have j: "8 * off \<le> j" "rbit (j - 8 * off) = rbit (k - 8 * off) \<or> bit ?x (rbit (j - 8 * off) + 8 * (off - ?off))"
      by (auto simp: sm_bits_iff single_def bit_or_iff bit_single bit_power_two bit_drop_bit_eq add.commute)
    moreover have "j - 8 * off + 8 * (off - ?off) = j - 8 * ?off" using j(1) off(1) by simp
    ultimately have "j - 8 * off = k - 8 * off \<or> bit ?x (rbit (j - 8 * ?off))"
      by (metis rbit_rbit shift)
    then show "j \<in> insert k ?B" using j(1) kb(1) off(1) by (auto simp: sm_bits_iff)
  next
    fix j assume "j \<in> insert k ?B"
    then consider "j = k" | "j \<in> ?B" by auto
    then show "j \<in> sm_bits ?m'"
    proof cases
      case 1
      then show ?thesis using kb rl by (simp add: sm_bits_iff single_def bit_or_iff bit_single bit_power_two)
    next
      case 2
      then have "Min ?B div 8 \<le> j div 8" by (intro div_le_mono) simp
      then have "8 * off \<le> j" using lo div_mult_mod_eq [of j 8] by linarith
      moreover from this have "j - 8 * off + 8 * (off - ?off) = j - 8 * ?off" using off(1) by simp
      moreover have "bit ?x (rbit (j - 8 * ?off))" using 2 by (simp add: sm_bits_iff)
      ultimately show ?thesis
        using shift [of "j - 8 * off" "off - ?off"]
        by (simp add: sm_bits_iff single_def bit_or_iff bit_drop_bit_eq add.commute)
    qed
  qed
  moreover from this have "sm_wf ?m'"
    by (rule sm_wfI) (use L off in \<open>simp_all add: off_def\<close>)
  moreover have "SingleMask_insert m d = Inr ?m'"
    using mask_for_bit [OF kb] k wf(2,3) lt8 off(3)
    by (simp add: SingleMask_insert_def base_insert_def L_def [symmetric] offset_for_lsb off_def [symmetric] sh)
  ultimately show thesis using that by blast
qed

section \<open>Keeping some of the bits\<close>

text \<open>Rebuilding a mapping from some of its mask bits keeps exactly their key bits.\<close>

lemma SingleMask_mask_wf:
  assumes "sm_wf m" and "raw \<noteq> 0" and "\<And>i. bit raw i \<Longrightarrow> bit (mSuccessiveExtractionMask m) i"
  obtains m' where "SingleMask_mask m raw = Inr m'" "sm_wf m'"
    "sm_bits m' = (\<lambda>i. 8 * mOffsetInBytes m + rbit i) ` {i. bit raw i}"
proof -
  let ?off = "mOffsetInBytes m" and ?S = "rbit ` {i. bit raw i}"
  let ?B = "(\<lambda>i. 8 * mOffsetInBytes m + rbit i) ` {i. bit raw i}"
  have B: "?B = (+) (8 * ?off) ` ?S" by (simp add: image_image)
  have wf: "?off = Max (sm_bits m) div 8 - 7" "Max (sm_bits m) < 2048" using assms(1) by (simp_all add: sm_wf_def)
  have fin: "finite ?S" using set_ones [of raw] by (metis List.finite_set finite_imageI)
  have ne: "?S \<noteq> {}" using tzcnt_bit(1) [OF assms(2)] by blast
  note rel = relative_indices [OF assms(2)]
  have mono: "mono ((+) (8 * ?off))" by (simp add: mono_def)
  have minmax: "Min ?B = 8 * ?off + Min ?S" "Max ?B = 8 * ?off + Max ?S"
    unfolding B using mono_Min_commute [OF mono fin ne] mono_Max_commute [OF mono fin ne] by simp_all
  have "Max ?B \<in> ?B" unfolding B using fin ne by (intro Max_in) simp_all
  then have "Max ?B \<in> sm_bits m" using assms(3) by (auto simp: sm_bits_def')
  then have mxB: "Max ?B \<le> Max (sm_bits m)" by simp
  then have lim: "Max ?B < 2048" using wf(2) by simp
  have mS: "Min ?S \<le> Max ?S" using fin ne by simp
  define off where "off = Max ?B div 8 - 7"
  have "Max ?B div 8 \<le> Max (sm_bits m) div 8" using mxB by (rule div_le_mono)
  then have "off \<le> Max (sm_bits m) div 8 - 7" unfolding off_def by (rule diff_le_mono)
  with wf(1) have o: "off \<le> ?off" by simp
  have lt8: "?off - off < 8"
  proof -
    have "?off \<le> Max ?B div 8" unfolding minmax(2) by simp
    then show ?thesis unfolding off_def by linarith
  qed
  have off512: "?off < 512" using wf by simp
  have sh: "u16nat (sub32 ?off off) * 8 mod 65536 = 8 * (?off - off)"
    using o lt8 off512 by simp
  let ?m' = "single (Min ?B) (Max ?B) off (push_bit (8 * (?off - off)) raw)"
  have shift: "rbit (i + 8 * d) = rbit i + 8 * d" for i d
    by (simp add: rbit_def abs_bit_def algebra_simps)
  have top: "i + 8 * (?off - off) < 64" if "bit raw i" for i
  proof -
    have "8 * ?off + rbit i \<le> Max ?B" using that fin unfolding B by (intro Max_ge) auto
    then have "(8 * ?off + rbit i) div 8 \<le> Max ?B div 8" by (rule div_le_mono)
    then have "?off + i div 8 \<le> Max ?B div 8" by (simp only: mult.commute [of 8] div_mult_self3 rbit_div)
    moreover have "Max ?B div 8 \<le> off + 7" unfolding off_def by linarith
    ultimately have "i div 8 + (?off - off) \<le> 7" using o by linarith
    then show ?thesis using div_mult_mod_eq [of i 8] mod_less_divisor [of 8 i] by linarith
  qed
  have bits: "sm_bits ?m' = ?B"
  proof -
    have "{i. bit (push_bit (8 * (?off - off)) raw) i} = (\<lambda>i. i + 8 * (?off - off)) ` {i. bit raw i}"
      using top by (auto simp: bit_push_bit_iff image_iff intro!: exI [of _ "_ - 8 * (?off - off)"])
    then have "sm_bits ?m' = (\<lambda>i. 8 * off + rbit (i + 8 * (?off - off))) ` {i. bit raw i}"
      by (simp add: sm_bits_def' single_def image_image)
    also have "\<dots> = ?B" using o by (intro image_cong refl) (simp add: shift)
    finally show ?thesis .
  qed
  moreover from this have "sm_wf ?m'"
    by (rule sm_wfI) (use ne lim in \<open>simp_all add: off_def\<close>)
  moreover have "SingleMask_mask m raw = Inr ?m'"
  proof -
    have a: "u16nat ?off * 8 mod 65536 = 8 * ?off" using off512 by simp
    have b: "u16nat (8 * ?off + Min ?S) = Min ?B" "u16nat (8 * ?off + Max ?S) = Max ?B"
      using lim mS unfolding minmax by simp_all
    have c: "getSuccesiveByteOffsetForLeastSignificantBitIndex (Max ?B) = off"
      unfolding off_def by (rule offset_for_lsb) (use lim in simp)
    have p: "(2 :: nat) ^ 16 = 65536" by simp
    show ?thesis
      unfolding SingleMask_mask_def Let_def p a rel(1,2) b c sh using lt8 by simp
  qed
  ultimately show thesis using that by blast
qed

lemma SingleMask_needed_wf:
  assumes "sm_wf m" and "popcnt (mSuccessiveExtractionMask m) \<le> 32"
    and "\<exists>j < length (sm_positions m). bit msk j"
  obtains m' where "SingleMask_needed m msk = Inr m'" "sm_wf m'"
    "sm_bits m' = {sm_positions m ! j | j. j < length (sm_positions m) \<and> bit msk j}"
proof -
  let ?x = "mSuccessiveExtractionMask m"
  let ?raw = "pdep (ucast msk) ?x"
  have len: "length (sm_positions m) = popcnt ?x" by (simp add: sm_positions_def popcnt_def)
  have b: "bit (ucast msk :: u64) j \<longleftrightarrow> bit msk j" for j
    by (auto simp: bit_simps dest: bit_imp_le_length)
  have set: "{i. bit ?raw i} = {ones ?x ! j | j. j < length (ones ?x) \<and> bit msk j}"
  proof (intro set_eqI iffI; elim CollectE exE conjE)
    fix i assume "bit ?raw i"
    then have "bit ?x i" "bit msk (rank ?x i)" by (simp_all add: bit_pdep b)
    then show "i \<in> {ones ?x ! j | j. j < length (ones ?x) \<and> bit msk j}"
      using nth_ones_rank [of ?x i] by (auto intro!: exI [of _ "rank ?x i"])
  next
    fix i j assume "i = ones ?x ! j" "j < length (ones ?x)" "bit msk j"
    then show "i \<in> {i. bit ?raw i}"
      using nth_mem [of j "ones ?x"] by (simp add: bit_pdep b rank_nth_ones)
  qed
  obtain j where "j < length (ones ?x)" "bit msk j" using assms(3) by (auto simp: sm_positions_def)
  then have "ones ?x ! j \<in> {i. bit ?raw i}" using set by blast
  then have nz: "?raw \<noteq> 0" by auto
  obtain m' where m': "SingleMask_mask m ?raw = Inr m'" "sm_wf m'"
    "sm_bits m' = (\<lambda>i. 8 * mOffsetInBytes m + rbit i) ` {i. bit ?raw i}"
    by (rule SingleMask_mask_wf [OF assms(1) nz]) (simp_all add: bit_pdep)
  have "sm_bits m' = {sm_positions m ! j | j. j < length (sm_positions m) \<and> bit msk j}"
  proof -
    have "(\<lambda>i. 8 * mOffsetInBytes m + rbit i) ` {ones ?x ! j | j. j < length (ones ?x) \<and> bit msk j} =
        {8 * mOffsetInBytes m + rbit (ones ?x ! j) | j. j < length (ones ?x) \<and> bit msk j}" by auto
    also have "\<dots> = {sm_positions m ! j | j. j < length (sm_positions m) \<and> bit msk j}"
      by (rule Collect_cong, rule ex_cong1) (auto simp: sm_positions_def)
    finally show ?thesis unfolding m'(3) set .
  qed
  with m' show thesis using that by (simp add: SingleMask_needed_def getSuccessiveMaskForMask_def)
qed

end
