(* ===== verification/Single_Mask_Extract.thy ===== *)
theory Single_Mask_Extract
  imports Single_Mask
begin

text \<open>
  What a single mask extracts: the dense partial key of a key, the masks of single bits and of
  the prefix before a mismatch, the list of discriminative bits, and the restriction to the bits
  that are no wildcards of a rule.
\<close>

unbundle bit_operations_syntax

section \<open>Extracting the dense partial key\<close>

definition sm_valid :: "SingleMaskPartialKeyMapping \<Rightarrow> bool" where
  "sm_valid m \<longleftrightarrow> sm_wf m \<and> popcnt (mSuccessiveExtractionMask m) \<le> 32"

lemma sm_positions_abs: "sm_positions m = map (abs_bit (\<lambda>j. mOffsetInBytes m + j)) (ones (mSuccessiveExtractionMask m))"
  by (simp add: sm_positions_def abs_bit_offset)

lemma load64_key_bit:
  assumes "off + 8 \<le> length bs"
  obtains w where "load64 bs off = Inr w" "\<And>i. i < 64 \<Longrightarrow> bit w i = key_bit bs (abs_bit (\<lambda>j. off + j) i)"
proof -
  obtain w where w: "load64 bs off = Inr w" using assms by (simp add: load64_def)
  then have "\<And>i. i < 64 \<Longrightarrow> bit w i = key_bit bs (abs_bit (\<lambda>j. off + j) i)"
    by (simp add: load64_Inr key_bit_abs_bit)
  with w that show thesis by blast
qed

lemma ucast_pext:
  assumes "popcnt (x :: u64) \<le> 32"
  shows "(ucast (pext w x) :: u32) = of_bits (map (bit w) (ones x))"
  using assms unfolding pext_def popcnt_def by (simp add: ucast_of_bits)

lemma sm_extract_law:
  assumes "sm_valid m" and "mOffsetInBytes m + 8 \<le> length bs"
  shows "sm_extractMask m bs = Inr (of_bits (map (key_bit bs) (sm_positions m)))"
proof -
  let ?x = "mSuccessiveExtractionMask m"
  from assms(2) obtain w where w: "load64 bs (mOffsetInBytes m) = Inr w"
    "\<And>i. i < 64 \<Longrightarrow> bit w i = key_bit bs (abs_bit (\<lambda>j. mOffsetInBytes m + j) i)" by (rule load64_key_bit) blast
  have "map (bit w) (ones ?x) = map (key_bit bs) (sm_positions m)"
    using w(2) by (auto simp: sm_positions_abs dest: bit_imp_le_length)
  then show ?thesis
    using w(1) ucast_pext [of ?x w] assms(1) by (simp add: sm_extractMask_def extractMaskFromSuccessiveBytes_def sm_valid_def)
qed

interpretation single_mask: partial_key_mapping sm_extractMask sm_positions "\<lambda>m. mOffsetInBytes m + 8" sm_valid
proof
  show "sm_extractMask m bs = Inr (of_bits (map (key_bit bs) (sm_positions m)))"
    if "sm_valid m" "mOffsetInBytes m + 8 \<le> length bs" for m bs
    using that by (rule sm_extract_law)
  show "length (sm_positions m) \<le> 32" if "sm_valid m" for m
    using that by (simp add: sm_valid_def sm_positions_def popcnt_def)
qed

text \<open>Masks of key bits: a condition on key bits becomes a condition on the positions.\<close>

lemma extractMask_bits:
  assumes "sm_valid m" and "\<And>i. i < 64 \<Longrightarrow> bit w i \<longleftrightarrow> P (8 * mOffsetInBytes m + rbit i)"
  shows "extractMaskFromSuccessiveBytes m w = of_bits (map P (sm_positions m))"
proof -
  let ?x = "mSuccessiveExtractionMask m"
  have "map (bit w) (ones ?x) = map P (sm_positions m)"
    using assms(2) by (auto simp: sm_positions_def dest: bit_imp_le_length)
  then show ?thesis
    using ucast_pext [of ?x w] assms(1) by (simp add: extractMaskFromSuccessiveBytes_def sm_valid_def)
qed

lemma dbit_split:
  assumes "dbit_for d k"
  shows "unat (mByteIndex d) = k div 8" "unat (mByteRelativeBitIndex d) = k mod 8" "k < 2048"
    "unat (mAbsoluteBitIndex d) = k"
  using assms by (simp_all add: dbit_for_def)

lemma lex_index: "r < 8 \<Longrightarrow> s < 8 \<Longrightarrow> 8 * a + r < 8 * b + s \<longleftrightarrow> a < b \<or> a = b \<and> r < (s :: nat)"
  by linarith

lemma key_index_less_iff:
  "8 * off + rbit i < (k :: nat) \<longleftrightarrow> off + i div 8 < k div 8 \<or> off + i div 8 = k div 8 \<and> 7 - i mod 8 < k mod 8"
proof -
  have "8 * off + rbit i = 8 * (off + i div 8) + (7 - i mod 8)" by (simp add: rbit_def abs_bit_def)
  moreover have "k = 8 * (k div 8) + k mod 8" by simp
  moreover have "7 - i mod 8 < 8" "k mod 8 < 8" by simp_all
  ultimately show ?thesis using lex_index by metis
qed

lemma prefix_index:
  assumes "r \<le> (7 :: nat)"
  shows "i + 8 * (7 - r) < 56 \<or> 63 - (i + 8 * (7 - r)) < q \<and> i + 8 * (7 - r) < 64 \<longleftrightarrow>
    i div 8 < r \<or> i div 8 = r \<and> 7 - i mod 8 < q"
proof -
  have i: "i = 8 * (i div 8) + i mod 8" "i mod 8 < 8" by simp_all
  consider "i div 8 < r" | "i div 8 = r" | "r < i div 8" by linarith
  then show ?thesis
  proof cases
    case 1
    then have "i + 8 * (7 - r) < 56" using i assms by linarith
    with 1 show ?thesis by simp
  next
    case 2
    then have "i + 8 * (7 - r) = 56 + i mod 8" using i assms by linarith
    with 2 i(2) show ?thesis by simp
  next
    case 3
    then have "64 \<le> i + 8 * (7 - r)" using i assms by linarith
    with 3 show ?thesis by simp
  qed
qed

text \<open>The prefix mask holds exactly the discriminative bits before the mismatch.\<close>

lemma prefix_bits_mask:
  assumes "sm_valid m" and "dbit_for d k" and "8 * mOffsetInBytes m \<le> k"
  shows "sm_getPrefixBitsMask m d = Inr (of_bits (map (\<lambda>j. j < k) (sm_positions m)))"
proof -
  let ?off = "mOffsetInBytes m"
  note d = dbit_split [OF assms(2)]
  have ko: "?off \<le> k div 8" using assms(3) by (simp add: less_eq_div_iff_mult_less_eq mult.commute)
  then have r0: "int (k div 8) - int ?off \<ge> 0" by simp
  define top where "top = drop_bit (k mod 8) (- 1 :: u64) XOR push_bit 56 (- 1)"
  have top: "bit top i \<longleftrightarrow> i < 56 \<or> 63 - i < k mod 8 \<and> i < 64" for i
    using mod_less_divisor [of 8 k] by (auto simp: top_def bit_simps)
  have s1: "shr64 (- 1) (k mod 8) = Inr (drop_bit (k mod 8) (- 1))"
    by (rule shift_simps(3)) (use mod_less_divisor [of 8 k] in linarith)
  have result: "sm_getPrefixBitsMask m d =
      rbind (if int (k div 8) - int ?off > 7 then Inr (- 1)
             else shr64 top (nat ((7 - (int (k div 8) - int ?off)) * 8)))
        (\<lambda>w. Inr (extractMaskFromSuccessiveBytes m w))"
    unfolding sm_getPrefixBitsMask_def Let_def d(1,2) s1 rbind_simps(2) top_def [symmetric] using r0 by simp
  show ?thesis
  proof (cases "int (k div 8) - int ?off > 7")
    case True
    have "extractMaskFromSuccessiveBytes m (- 1) = of_bits (map (\<lambda>j. j < k) (sm_positions m))"
    proof (rule extractMask_bits [OF assms(1)])
      fix i :: nat assume "i < 64"
      then show "bit (- 1 :: u64) i \<longleftrightarrow> 8 * ?off + rbit i < k"
        using True by (auto simp: key_index_less_iff)
    qed
    then show ?thesis using True by (simp add: result)
  next
    case False
    let ?r = "k div 8 - ?off"
    have r2: "?r \<le> 7" using False ko by linarith
    then have "(7 - (int (k div 8) - int ?off)) * 8 = int (8 * (7 - ?r))" using ko by (simp add: of_nat_diff)
    note r = arg_cong [OF this, of nat, unfolded nat_int] r2
    have "extractMaskFromSuccessiveBytes m (drop_bit (8 * (7 - ?r)) top) = of_bits (map (\<lambda>j. j < k) (sm_positions m))"
    proof (rule extractMask_bits [OF assms(1)])
      fix i :: nat assume i: "i < 64"
      have "bit (drop_bit (8 * (7 - ?r)) top) i \<longleftrightarrow>
          i + 8 * (7 - ?r) < 56 \<or> 63 - (i + 8 * (7 - ?r)) < k mod 8 \<and> i + 8 * (7 - ?r) < 64"
        by (simp add: bit_drop_bit_eq top add.commute)
      also have "\<dots> \<longleftrightarrow> i div 8 < ?r \<or> i div 8 = ?r \<and> 7 - i mod 8 < k mod 8"
        by (rule prefix_index [OF r(2)])
      also have "\<dots> \<longleftrightarrow> 8 * ?off + rbit i < k"
      proof -
        have "i div 8 < ?r \<longleftrightarrow> ?off + i div 8 < k div 8" "i div 8 = ?r \<longleftrightarrow> ?off + i div 8 = k div 8"
          using ko by linarith+
        then show ?thesis by (simp add: key_index_less_iff)
      qed
      finally show "bit (drop_bit (8 * (7 - ?r)) top) i \<longleftrightarrow> 8 * ?off + rbit i < k" .
    qed
    moreover have "shr64 top (nat ((7 - (int (k div 8) - int ?off)) * 8)) = Inr (drop_bit (8 * (7 - ?r)) top)"
      unfolding r(1) by (rule shift_simps(3)) linarith
    ultimately show ?thesis using False unfolding result by (simp only: if_False rbind_simps)
  qed
qed

section \<open>Masks of single bits\<close>

lemma map_eq_position:
  assumes "distinct ps" "j < length ps"
  shows "map (\<lambda>k. k = ps ! j) ps = map (\<lambda>i. i = j) [0..<length ps]"
  by (rule nth_equalityI) (use assms in \<open>auto simp: nth_eq_iff_index_eq\<close>)

lemma getMaskFor_bit:
  assumes "sm_valid m" and "dbit_for d k" and "8 * mOffsetInBytes m \<le> k" "k < 8 * mOffsetInBytes m + 64"
  shows "sm_getMaskFor m d = Inr (of_bits (map (\<lambda>j. j = k) (sm_positions m)))"
proof -
  note d = dbit_split [OF assms(2)]
  have "extractMaskFromSuccessiveBytes m (push_bit (rbit (k - 8 * mOffsetInBytes m)) 1) =
      of_bits (map (\<lambda>j. j = k) (sm_positions m))"
  proof (rule extractMask_bits [OF assms(1)])
    fix i :: nat assume "i < 64"
    have "i = rbit (k - 8 * mOffsetInBytes m) \<longleftrightarrow> rbit i = k - 8 * mOffsetInBytes m" by (metis rbit_rbit)
    then show "bit (push_bit (rbit (k - 8 * mOffsetInBytes m)) (1 :: u64)) i \<longleftrightarrow>
        8 * mOffsetInBytes m + rbit i = k"
      using assms(3,4) by (auto simp: bit_single bit_power_two)
  qed
  then show ?thesis
    using mask_for_bit [OF assms(3,4)] d by (simp add: sm_getMaskFor_def)
qed

lemma getMaskForHighestBit_bit:
  assumes "sm_valid m"
  shows "sm_getMaskForHighestBit m = Inr (of_bits (map (\<lambda>j. j = Min (sm_bits m)) (sm_positions m)))"
proof -
  let ?k = "Min (sm_bits m)"
  have wf: "sm_bits m \<noteq> {}" "mMostSignificantDiscriminativeBitIndex m = ?k" "?k < 2048"
  proof -
    show 1: "sm_bits m \<noteq> {}" "mMostSignificantDiscriminativeBitIndex m = ?k"
      using assms by (simp_all add: sm_valid_def sm_wf_def)
    have "?k \<le> Max (sm_bits m)" using 1(1) by simp
    also have "\<dots> < 2048" using assms by (simp add: sm_valid_def sm_wf_def)
    finally show "?k < 2048" .
  qed
  note b = sm_bits_bounds [OF Min_in [OF finite_sm_bits wf(1)]]
  have "getSuccessiveMaskForAbsoluteBitPosition m ?k = getSuccessiveMaskForBit (mOffsetInBytes m) (?k div 8) (?k mod 8)"
    using wf(3) by (simp add: getSuccessiveMaskForAbsoluteBitPosition_def unat_of_nat take_bit_nat_eq_self)
  then have "sm_getMaskForHighestBit m = sm_getMaskFor m (DiscriminativeBit_at (of_nat ?k) 0)"
    using dbit_split [OF dbit_for_at [OF wf(3), of 0]] wf(2)
    by (simp add: sm_getMaskForHighestBit_def sm_getMaskFor_def)
  then show ?thesis using getMaskFor_bit [OF assms dbit_for_at [OF wf(3)] b] by simp
qed

lemma getAllMaskBits_all:
  assumes "sm_valid m"
  shows "sm_getAllMaskBits m = of_bits (map (\<lambda>_. True) (sm_positions m))"
proof -
  let ?x = "mSuccessiveExtractionMask m"
  have "map (bit ?x) (ones ?x) = map (\<lambda>_. True) (sm_positions m)" by (simp add: sm_positions_def)
  then show ?thesis
    using ucast_pext [of ?x ?x] assms by (simp add: sm_getAllMaskBits_def sm_valid_def)
qed

section \<open>The list of discriminative bits\<close>

text \<open>The loop takes the highest bit of the swapped mask, most significant key bit first.\<close>

lemma clear_top_popcnt:
  fixes w :: u64
  assumes "w \<noteq> 0"
  shows "popcnt (w AND NOT (drop_bit (lzcnt w) (push_bit 63 1))) < popcnt w"
    "ones (w AND NOT (drop_bit (lzcnt w) (push_bit 63 1))) = butlast (ones w)"
    "63 - lzcnt w = last (ones w)" "lzcnt w < 64"
proof -
  from assms obtain i where i: "bit w i" "\<And>j. i < j \<Longrightarrow> \<not> bit w j" "lzcnt w = LENGTH(64) - 1 - i" "i < LENGTH(64)"
    by (rule lzcnt_bit) blast
  define t where "t = drop_bit (lzcnt w) (push_bit 63 (1 :: u64))"
  have "t = push_bit i 1" unfolding t_def
    by (rule bit_word_eqI) (use i(3,4) in \<open>auto simp only: bit_drop_bit_eq o_def bit_single len_of_numeral_defs\<close>)
  then have b: "bit (w AND NOT t) j \<longleftrightarrow> bit w j \<and> j \<noteq> i" for j
    by (auto simp: bit_simps bit_single bit_power_two dest: bit_imp_le_length)
  have sp: "ones w = filter (bit w) [0..<i] @ [i]"
    using ones_split [OF i(4,1)] i(2) by (auto simp: filter_empty_conv)
  have "ones (w AND NOT t) = filter (\<lambda>j. j \<noteq> i) (ones w)"
    unfolding ones_def filter_filter by (rule filter_cong) (auto simp: b)
  also have "\<dots> = filter (bit w) [0..<i]" unfolding sp by (auto intro: filter_cong)
  finally have f: "ones (w AND NOT t) = filter (bit w) [0..<i]" .
  then show "ones (w AND NOT (drop_bit (lzcnt w) (push_bit 63 1))) = butlast (ones w)"
    unfolding t_def [symmetric] by (simp add: sp)
  show "popcnt (w AND NOT (drop_bit (lzcnt w) (push_bit 63 1))) < popcnt w"
    unfolding t_def [symmetric] popcnt_def f sp by simp
  show "63 - lzcnt w = last (ones w)" "lzcnt w < 64" using i(3,4) by (simp_all add: sp)
qed

function sm_bit_loop :: "nat \<Rightarrow> u64 \<Rightarrow> nat list \<Rightarrow> nat list" where
  "sm_bit_loop base swapedExtractionMask extractionBits =
     (if swapedExtractionMask = 0 then extractionBits
      else let bitIndex = lzcnt swapedExtractionMask;
               extractionBit = drop_bit bitIndex SUCCESSIVE_EXTRACTION_MASK_WITH_HIGHEST_BIT_SET
           in sm_bit_loop base (swapedExtractionMask AND NOT extractionBit)
                (extractionBits @ [u16nat (base + bitIndex)]))"
  by auto

termination
  by (relation "measure (\<lambda>(_, w, _). popcnt w)")
     (simp_all add: SUCCESSIVE_EXTRACTION_MASK_WITH_HIGHEST_BIT_SET_def clear_top_popcnt(1) [simplified])

declare sm_bit_loop.simps [simp del]

definition sm_getDiscriminativeBits :: "SingleMaskPartialKeyMapping \<Rightarrow> nat list" where
  "sm_getDiscriminativeBits m =
     sm_bit_loop (u16nat (mOffsetInBytes m) * 8 mod 2 ^ 16) (bswap64 (mSuccessiveExtractionMask m)) []"

lemma sm_bit_loop_ones:
  "sm_bit_loop base w acc = acc @ map (\<lambda>i. u16nat (base + (63 - i))) (rev (ones w))"
proof (induction "popcnt w" arbitrary: w acc rule: less_induct)
  case less
  show ?case
  proof (cases "w = 0")
    case True
    then show ?thesis by (simp add: sm_bit_loop.simps)
  next
    case False
    note c = clear_top_popcnt [OF False]
    define w' where "w' = w AND NOT (drop_bit (lzcnt w) (push_bit 63 1))"
    have o: "ones w = ones w' @ [63 - lzcnt w]"
      using c(2,3) False unfolding w'_def [symmetric] by (metis append_butlast_last_id ones_eq_Nil)
    have "sm_bit_loop base w acc = sm_bit_loop base w' (acc @ [u16nat (base + lzcnt w)])"
      unfolding sm_bit_loop.simps [of base w] Let_def SUCCESSIVE_EXTRACTION_MASK_WITH_HIGHEST_BIT_SET_def
        w'_def [symmetric] using False by simp
    also have "\<dots> = acc @ [u16nat (base + lzcnt w)] @ map (\<lambda>i. u16nat (base + (63 - i))) (rev (ones w'))"
      using less [of w'] c(1) unfolding w'_def [symmetric] by simp
    finally show ?thesis using c(4) by (simp add: o)
  qed
qed

text \<open>The loop lists the discriminative bits of the mapping in ascending order.\<close>

lemma sm_getDiscriminativeBits_sorted:
  assumes "sm_wf m"
  shows "sm_getDiscriminativeBits m = sorted_list_of_set (sm_bits m)"
proof -
  let ?x = "mSuccessiveExtractionMask m" and ?off = "mOffsetInBytes m"
  let ?f = "\<lambda>i. 8 * ?off + (63 - i)"
  have "?off = Max (sm_bits m) div 8 - 7" "Max (sm_bits m) < 2048" using assms by (simp_all add: sm_wf_def)
  then have off: "?off < 512" by linarith
  have "sm_getDiscriminativeBits m = map (\<lambda>i. u16nat (8 * ?off + (63 - i))) (rev (ones (bswap64 ?x)))"
    using off by (simp add: sm_getDiscriminativeBits_def sm_bit_loop_ones mult.commute)
  also have "\<dots> = map ?f (rev (ones (bswap64 ?x)))"
    using off by (intro map_cong refl) simp
  finally have eq: "sm_getDiscriminativeBits m = map ?f (rev (ones (bswap64 ?x)))" .
  have b: "i \<in> set (ones (bswap64 ?x)) \<Longrightarrow> i < 64" for i by (auto simp: bit_bswap64)
  have set: "set (map ?f (rev (ones (bswap64 ?x)))) = sm_bits m"
  proof (intro set_eqI iffI)
    fix k assume "k \<in> set (map ?f (rev (ones (bswap64 ?x))))"
    then obtain i where "k = ?f i" "bit (bswap64 ?x) i" by auto
    then show "k \<in> sm_bits m" by (auto simp: bit_bswap64_rbit sm_bits_iff)
  next
    fix k assume k: "k \<in> sm_bits m"
    note kb = sm_bits_bounds [OF k]
    define n where "n = 63 - (k - 8 * ?off)"
    have n: "k = ?f n" "63 - n = k - 8 * ?off" "n < 64" using kb unfolding n_def by linarith+
    have "bit (bswap64 ?x) n"
      using k n(2,3) by (simp add: bit_bswap64_rbit sm_bits_iff)
    then have "n \<in> set (rev (ones (bswap64 ?x)))" by simp
    with n(1) show "k \<in> set (map ?f (rev (ones (bswap64 ?x))))"
      unfolding list.set_map by (rule image_eqI)
  qed
  have "sorted_wrt (<) (ones (bswap64 ?x))" by (simp add: strict_sorted_iff)
  then have "sorted_wrt (\<lambda>i j. j < i) (rev (ones (bswap64 ?x)))" by (simp add: sorted_wrt_rev)
  then have "sorted_wrt (<) (map ?f (rev (ones (bswap64 ?x))))"
    unfolding sorted_wrt_map
  proof (rule sorted_wrt_mono_rel [rotated])
    fix i j assume "i \<in> set (rev (ones (bswap64 ?x)))" "j < i"
    moreover from this b [of i] have "i < 64" by simp
    ultimately show "?f i < ?f j" by linarith
  qed
  then show ?thesis unfolding eq using set by (metis strict_sorted_iff sorted_list_of_set_unique finite_sm_bits sorted_distinct_set_unique distinct_sorted_list_of_set sorted_sorted_list_of_set set_sorted_list_of_set)
qed

section \<open>Keys with wildcards\<close>

lemma and_eq_and_iff:
  fixes v w m :: "'a::len word"
  shows "v AND m = w AND m \<longleftrightarrow> (\<forall>i. bit m i \<longrightarrow> bit v i = bit w i)"
proof
  assume eq: "v AND m = w AND m"
  have "bit m i \<longrightarrow> bit v i = bit w i" for i
    using arg_cong [OF eq, of "\<lambda>u. bit u i"] by (auto simp: bit_and_iff)
  then show "\<forall>i. bit m i \<longrightarrow> bit v i = bit w i" by blast
qed (auto intro!: bit_word_eqI simp: bit_and_iff)

lemma pext_subset:
  "pext e x AND pext d x = pext e x \<longleftrightarrow> (\<forall>i. bit x i \<longrightarrow> bit e i \<longrightarrow> bit d i)"
proof -
  have "pext e x AND pext d x = pext e x \<longleftrightarrow> pext (e AND d) x = pext e x" by (simp add: pext_and)
  also have "\<dots> \<longleftrightarrow> (e AND d) AND x = e AND x" by (rule pext_eq_iff)
  also have "\<dots> \<longleftrightarrow> (\<forall>i. bit x i \<longrightarrow> bit e i \<longrightarrow> bit d i)"
    by (auto simp: and_eq_and_iff bit_and_iff)
  finally show ?thesis .
qed

lemma key_bit_mask:
  assumes "i < 64" shows "bit (bswap64 msk) i \<longleftrightarrow> key_bit (key_bytes msk) (rbit i)"
proof -
  have "rbit i < 64" using assms by simp
  have "rbit (63 - i) = 63 - rbit i"
  proof -
    have e: "rbit i = 8 * (i div 8) + (7 - i mod 8)" by (simp add: rbit_def abs_bit_def)
    show ?thesis unfolding rbit_complement [OF assms, symmetric] e
      using assms div_mult_mod_eq [of i 8] mod_less_divisor [of 8 i] by linarith
  qed
  with \<open>rbit i < 64\<close> show ?thesis using assms by (simp add: bit_bswap64_rbit key_bit_key_bytes)
qed

text \<open>The positions that are no wildcards, as a mask of the dense partial key.\<close>

lemma non_wildcard_mask:
  assumes "mOffsetInBytes m = 0"
    and x_def: "x = pext (mSuccessiveExtractionMask m XOR bswap64 msk) (mSuccessiveExtractionMask m)"
  shows "bit x j \<longleftrightarrow> j < length (sm_positions m) \<and> \<not> key_bit (key_bytes msk) (sm_positions m ! j)"
proof (cases "j < popcnt (mSuccessiveExtractionMask m)")
  case True
  let ?x = "mSuccessiveExtractionMask m"
  have b: "bit ?x (ones ?x ! j)" using True nth_mem [of j "ones ?x"] by (simp add: popcnt_def)
  then have "ones ?x ! j < 64" by (auto dest: bit_imp_le_length)
  moreover have "sm_positions m ! j = rbit (ones ?x ! j)" using True assms(1) by (simp add: sm_positions_def popcnt_def)
  ultimately show ?thesis
    using True b by (simp add: x_def bit_pext bit_xor_iff key_bit_mask sm_positions_def popcnt_def)
next
  case False
  then show ?thesis by (simp add: x_def bit_pext sm_positions_def popcnt_def)
qed

lemma popcnt_subset: "(\<And>i. bit x i \<Longrightarrow> i < n) \<Longrightarrow> popcnt x \<le> n"
  using card_mono [of "{..<n}" "{i. bit x i}"] by (auto simp: popcnt_card)

section \<open>Properties\<close>

text \<open>Inserting a bit that lies within eight bytes of all others, and restricting a mapping to
  the bits of some partial keys, give again a well-formed single mask: its first and last bit index,
  its offset and its extraction mask describe exactly the old bits with the new one, or the old bits
  that are needed.\<close>
theorem single_mask_invariant:
  "\<lbrakk>sm_wf m; dbit_for d k; int (k div 8) - int (Min (sm_bits m) div 8) < 8;
    int (Max (sm_bits m) div 8) - int (k div 8) < 8; popcnt (mSuccessiveExtractionMask m) \<le> 32;
    \<exists>j < length (sm_positions m). bit needed j\<rbrakk> \<Longrightarrow>
   (\<exists>m'. SingleMask_insert m d = Inr m' \<and> sm_wf m' \<and> sm_bits m' = insert k (sm_bits m)) \<and>
   (\<exists>m'. SingleMask_needed m needed = Inr m' \<and> sm_wf m' \<and>
      sm_bits m' = {sm_positions m ! j | j. j < length (sm_positions m) \<and> bit needed j})"
  by (rule conjI, rule SingleMask_insert_wf [of m d k], assumption+, blast,
      rule SingleMask_needed_wf [of m needed], assumption+, blast)

theorem single_mask_invariant_witness:
  "let m = single 5 5 0 4 in
   (\<exists>m'. SingleMask_insert m (DiscriminativeBit_at 60 0) = Inr m' \<and> sm_wf m' \<and> sm_bits m' = insert 60 (sm_bits m)) \<and>
   (\<exists>m'. SingleMask_needed m 1 = Inr m' \<and> sm_wf m' \<and>
      sm_bits m' = {sm_positions m ! j | j. j < length (sm_positions m) \<and> bit (1 :: u32) j})"
proof -
  have wf: "sm_wf (single 5 5 0 4)" and b: "sm_bits (single 5 5 0 4) = {5}"
    and p: "popcnt (mSuccessiveExtractionMask (single 5 5 0 4)) \<le> 32" "length (sm_positions (single 5 5 0 4)) = 1"
    by code_simp+
  have d: "dbit_for (DiscriminativeBit_at 60 0) 60" using dbit_for_at [of 60 0] by simp
  show ?thesis
    unfolding Let_def by (rule single_mask_invariant [OF wf d]) (simp_all add: b p exI [of _ 0])
qed

text \<open>C28: For all keys long enough the dense partial keys of a single mask are equal iff the keys
  agree on every discriminative bit; under the prefix mask of a bit they are equal iff the keys agree
  on every discriminative bit before it.\<close>
theorem single_mask_partial_keys_agree:
  "\<lbrakk>sm_valid m; dbit_for d k; 8 * mOffsetInBytes m \<le> k;
    mOffsetInBytes m + 8 \<le> length bs; mOffsetInBytes m + 8 \<le> length cs\<rbrakk> \<Longrightarrow>
   \<exists>a b p. sm_extractMask m bs = Inr a \<and> sm_extractMask m cs = Inr b \<and> sm_getPrefixBitsMask m d = Inr p \<and>
     (a = b \<longleftrightarrow> (\<forall>i \<in> sm_bits m. key_bit bs i = key_bit cs i)) \<and>
     (a AND p = b AND p \<longleftrightarrow> (\<forall>i \<in> sm_bits m. i < k \<longrightarrow> key_bit bs i = key_bit cs i))"
  using of_bits_map_eq [of "sm_positions m" "key_bit bs" "key_bit cs", where 'a = 32] single_mask.few [of m]
  by (auto simp: single_mask.extract_law prefix_bits_mask sm_bits_def and_eq_and_iff bit_of_bits all_set_conv_all_nth)

theorem single_mask_partial_keys_agree_witness:
  "let m = single 5 5 0 4; bs = replicate 8 0; cs = 4 # replicate 7 0 in
   \<exists>a b p. sm_extractMask m bs = Inr a \<and> sm_extractMask m cs = Inr b \<and>
     sm_getPrefixBitsMask m (DiscriminativeBit_at 6 0) = Inr p \<and>
     (a = b \<longleftrightarrow> (\<forall>i \<in> sm_bits m. key_bit bs i = key_bit cs i)) \<and>
     (a AND p = b AND p \<longleftrightarrow> (\<forall>i \<in> sm_bits m. i < 6 \<longrightarrow> key_bit bs i = key_bit cs i))"
proof -
  have v: "sm_valid (single 5 5 0 4)" by code_simp
  have d: "dbit_for (DiscriminativeBit_at 6 0) 6" using dbit_for_at [of 6 0] by simp
  show ?thesis
    unfolding Let_def by (rule single_mask_partial_keys_agree [OF v d]) (simp_all add: single_def)
qed

end
