(* ===== verification/Simd_Helper.thy ===== *)
theory Simd_Helper
  imports Simd_Registers
begin

text \<open>
  \<open>src/hot/commons/include/hot/commons/SIMDHelper.hpp\<close>: the operations on registers of 64, 128
  and 256 bits that the multi masks use.  A register is the list of its bytes, lowest first; its
  width is \<open>8\<close>, \<open>16\<close> or \<open>32\<close> bytes.
\<close>

unbundle bit_operations_syntax

section \<open>The operations that work byte by byte\<close>

definition moveMask8 :: "u8 list \<Rightarrow> u32" where
  "moveMask8 inputRegister = movemask8 inputRegister"

definition cmpeq_epi8 :: "u8 list \<Rightarrow> u8 list \<Rightarrow> u8 list" where
  "cmpeq_epi8 a b = cmpeq a b"

definition set1_epi8 :: "nat \<Rightarrow> u8 \<Rightarrow> u8 list" where
  "set1_epi8 width byte = set1 width byte"

definition zero_register :: "nat \<Rightarrow> u8 list" where
  "zero_register width = replicate width 0"

definition binaryAnd :: "u8 list \<Rightarrow> u8 list \<Rightarrow> u8 list" where
  "binaryAnd a b = map2 (AND) a b"

definition binaryOr :: "u8 list \<Rightarrow> u8 list \<Rightarrow> u8 list" where
  "binaryOr a b = map2 (OR) a b"

definition binaryAndNot :: "u8 list \<Rightarrow> u8 list \<Rightarrow> u8 list" where
  "binaryAndNot a b = map2 (\<lambda>x y. NOT x AND y) a b"

definition max_epu8 :: "u8 list \<Rightarrow> u8 list \<Rightarrow> u8 list" where
  "max_epu8 a b = map2 max a b"

definition maxValue :: "u8 list" where
  "maxValue = cmpeq_epi8 (zero_register 32) (zero_register 32)"

section \<open>Moving bytes\<close>

text \<open>
  The shift by one byte.  Registers of 64 and 128 bits have an instruction for it, with the shift
  of the 64-bit register given in bits; for 256 bits it is composed of \<open>_mm256_permute2x128_si256\<close>,
  whose control byte selects or clears each half, and of \<open>_mm256_alignr_epi8\<close>, which shifts the two
  halves separately.
\<close>

definition bslli :: "u8 list \<Rightarrow> nat \<Rightarrow> u8 list" where
  "bslli a n = replicate (min n (length a)) 0 @ take (length a - n) a"

definition permute2x128 :: "u8 list \<Rightarrow> u8 list \<Rightarrow> nat \<Rightarrow> u8 list" where
  "permute2x128 a b imm =
     (let half = (\<lambda>c. if bit c 3 then replicate 16 0
                      else [take 16 a, drop 16 a, take 16 b, drop 16 b] ! (c mod 4))
      in half (imm mod 16) @ half (imm div 16 mod 16))"

definition alignr :: "u8 list \<Rightarrow> u8 list \<Rightarrow> nat \<Rightarrow> u8 list" where
  "alignr a b n =
     take 16 (drop n (take 16 b @ take 16 a)) @ take 16 (drop n (drop 16 b @ drop 16 a))"

definition MM_SHUFFLE :: "nat \<Rightarrow> nat \<Rightarrow> nat \<Rightarrow> nat \<Rightarrow> nat" where
  "MM_SHUFFLE z y x w = 64 * z + 16 * y + 4 * x + w"

definition shiftLeftOneByte64 :: "u8 list \<Rightarrow> u8 list" where
  "shiftLeftOneByte64 a = bslli a (8 div 8)"

definition shiftLeftOneByte128 :: "u8 list \<Rightarrow> u8 list" where
  "shiftLeftOneByte128 a = bslli a 1"

definition shiftLeftOneByte256 :: "u8 list \<Rightarrow> u8 list" where
  "shiftLeftOneByte256 a = alignr a (permute2x128 a a (MM_SHUFFLE 0 0 2 0)) (16 - 1)"

definition shiftLeftOneByte :: "u8 list \<Rightarrow> u8 list" where
  "shiftLeftOneByte a =
     (if length a = 8 then shiftLeftOneByte64 a
      else if length a = 16 then shiftLeftOneByte128 a else shiftLeftOneByte256 a)"

text \<open>The wider register with a register as its lower half (\<open>_mm_cvtsi64_si128\<close>, \<open>_mm256_insertf128_si256\<close>).\<close>

definition convertWithZeroExtend128 :: "u8 list \<Rightarrow> u8 list" where
  "convertWithZeroExtend128 sourceRegister = sourceRegister @ replicate 8 0"

definition convertWithZeroExtend256 :: "u8 list \<Rightarrow> u8 list" where
  "convertWithZeroExtend256 sourceRegister = sourceRegister @ drop 16 (zero_register 32)"

definition convertWithZeroExtend :: "u8 list \<Rightarrow> u8 list" where
  "convertWithZeroExtend r = (if length r = 8 then convertWithZeroExtend128 r else convertWithZeroExtend256 r)"

text \<open>Loading a register from an array of 64-bit words given by its bytes, and storing it there.\<close>

definition toRegister :: "nat \<Rightarrow> u8 list \<Rightarrow> u8 list cxx" where
  "toRegister width mem = loadu width 0 mem"

definition store_register :: "u8 list \<Rightarrow> u8 list \<Rightarrow> u8 list cxx" where
  "store_register reg mem =
     (if length reg \<le> length mem then Inr (reg @ drop (length reg) mem) else Inl UB_Index)"

section \<open>Facts\<close>

named_theorems register_simps "registers as lists of bytes"

lemma register_lengths [simp, register_simps]:
  "length (cmpeq_epi8 a b) = min (length a) (length b)"
  "length (set1_epi8 n x) = n" "length (zero_register n) = n"
  "length (binaryAnd a b) = min (length a) (length b)"
  "length (binaryOr a b) = min (length a) (length b)"
  "length (binaryAndNot a b) = min (length a) (length b)"
  "length (max_epu8 a b) = min (length a) (length b)"
  by (simp_all add: cmpeq_epi8_def set1_epi8_def set1_def zero_register_def binaryAnd_def binaryOr_def
      binaryAndNot_def max_epu8_def)

lemma register_nth [simp, register_simps]:
  "i < length a \<Longrightarrow> i < length b \<Longrightarrow> cmpeq_epi8 a b ! i = (if a ! i = b ! i then - 1 else 0)"
  "i < n \<Longrightarrow> set1_epi8 n x ! i = x" "i < n \<Longrightarrow> zero_register n ! i = 0"
  "i < length a \<Longrightarrow> i < length b \<Longrightarrow> binaryAnd a b ! i = a ! i AND b ! i"
  "i < length a \<Longrightarrow> i < length b \<Longrightarrow> binaryOr a b ! i = a ! i OR b ! i"
  "i < length a \<Longrightarrow> i < length b \<Longrightarrow> binaryAndNot a b ! i = NOT (a ! i) AND b ! i"
  "i < length a \<Longrightarrow> i < length b \<Longrightarrow> max_epu8 a b ! i = max (a ! i) (b ! i)"
  by (simp_all add: cmpeq_epi8_def set1_epi8_def set1_def zero_register_def binaryAnd_def binaryOr_def
      binaryAndNot_def max_epu8_def)

text \<open>The composed shift of 256-bit registers is a shift by one byte, like the other two.\<close>

lemma length_32_split:
  assumes "length a = 32"
  obtains b c where "a = b @ c" "length b = 16" "length c = 16"
  using that [of "take 16 a" "drop 16 a"] assms by simp

lemma shiftLeftOneByte256_eq:
  assumes "length a = 32" shows "shiftLeftOneByte256 a = 0 # butlast a"
proof -
  obtain b c where a: "a = b @ c" "length b = 16" "length c = 16" using assms by (rule length_32_split)
  have "permute2x128 a a (MM_SHUFFLE 0 0 2 0) = replicate 16 0 @ b"
    using a by (simp add: permute2x128_def MM_SHUFFLE_def bit_iff_odd)
  then have "shiftLeftOneByte256 a = take 16 (drop 15 (replicate 16 0 @ b)) @ take 16 (drop 15 (b @ c))"
    using a by (simp add: shiftLeftOneByte256_def alignr_def)
  also have "\<dots> = (0 # take 15 b) @ (drop 15 b @ take 15 c)"
    using a by (simp add: drop_replicate take_Cons' numeral_eq_Suc)
  also have "\<dots> = 0 # (b @ take 15 c)" by simp
  also have "\<dots> = 0 # butlast a" using a by (simp add: butlast_append butlast_conv_take)
  finally show ?thesis .
qed

lemma shiftLeftOneByte_eq:
  assumes "length a \<in> {8, 16, 32}" shows "shiftLeftOneByte a = 0 # butlast a"
  using assms shiftLeftOneByte256_eq [of a]
  by (auto simp: shiftLeftOneByte_def shiftLeftOneByte64_def shiftLeftOneByte128_def bslli_def butlast_conv_take)

lemma convertWithZeroExtend_eq:
  assumes "length r \<in> {8, 16}" shows "convertWithZeroExtend r = r @ replicate (length r) 0"
  using assms
  by (auto simp: convertWithZeroExtend_def convertWithZeroExtend128_def convertWithZeroExtend256_def zero_register_def)

lemma toRegister_all [simp]: "length mem = n \<Longrightarrow> toRegister n mem = Inr mem"
  by (simp add: toRegister_def loadu_def)

end
