(* ===== verification/Multi_Mask.thy ===== *)
theory Multi_Mask
  imports Single_Mask Simd_Helper
begin

text \<open>
  \<open>src/hot/commons/include/hot/commons/MultiMaskPartialKeyMapping.hpp\<close>: a mapping whose
  discriminative bits lie in up to \<open>8\<close>, \<open>16\<close> or \<open>32\<close> key bytes, given by their positions and by an
  extraction byte for each.  The template parameter \<open>numberExtractionMasks\<close> is the argument \<open>n\<close>, one
  of \<open>1\<close>, \<open>2\<close> and \<open>4\<close>; the two arrays of \<open>n\<close> words are their bytes.
\<close>

unbundle bit_operations_syntax

section \<open>Bytes of the arrays\<close>

definition BYTE_WITH_HIGHEST_BIT_SET :: u8 where
  "BYTE_WITH_HIGHEST_BIT_SET = 0x80"

text \<open>
  The two arrays are adjacent members: a read one past the positions, which \<open>insert\<close> does before
  it knows that the position is unused, gives a byte of the data.
\<close>

definition mm_getExtractionBytePosition :: "MultiMaskPartialKeyMapping \<Rightarrow> nat \<Rightarrow> u8 cxx" where
  "mm_getExtractionBytePosition m index = byte_at (mExtractionPositions m @ mExtractionData m) index"

definition getExtractionByteAt :: "u8 list \<Rightarrow> nat \<Rightarrow> u8 cxx" where
  "getExtractionByteAt extractionData extractionByteIndex = byte_at extractionData extractionByteIndex"

definition setExtractionByteAt :: "u8 list \<Rightarrow> nat \<Rightarrow> u8 \<Rightarrow> u8 list cxx" where
  "setExtractionByteAt extractionData extractionByteIndex extractionByte =
     (if extractionByteIndex < length extractionData
      then Inr (extractionData [extractionByteIndex := extractionByte]) else Inl UB_Index)"

definition mm_getExtractionByte :: "MultiMaskPartialKeyMapping \<Rightarrow> nat \<Rightarrow> u8 cxx" where
  "mm_getExtractionByte m index = byte_at (mExtractionData m) index"

definition setExtractionByte ::
  "nat \<Rightarrow> u8 \<Rightarrow> MultiMaskPartialKeyMapping \<Rightarrow> MultiMaskPartialKeyMapping cxx" where
  "setExtractionByte index extractionByte m =
     rbind (setExtractionByteAt (mExtractionData m) index extractionByte) (\<lambda>d. Inr (m \<lparr> mExtractionData := d \<rparr>))"

definition setExtractionBytePosition ::
  "nat \<Rightarrow> u8 \<Rightarrow> MultiMaskPartialKeyMapping \<Rightarrow> MultiMaskPartialKeyMapping cxx" where
  "setExtractionBytePosition index position m =
     rbind (setExtractionByteAt (mExtractionPositions m) index position)
       (\<lambda>p. Inr (m \<lparr> mExtractionPositions := p \<rparr>))"

definition zeroInitializedArray :: "nat \<Rightarrow> u8 list" where
  "zeroInitializedArray n = concat (replicate n (bytes64 0))"

definition initializeDataAndPositionsWithZero ::
  "nat \<Rightarrow> MultiMaskPartialKeyMapping \<Rightarrow> MultiMaskPartialKeyMapping" where
  "initializeDataAndPositionsWithZero n m =
     m \<lparr> mExtractionPositions := zero_register (8 * n), mExtractionData := zero_register (8 * n) \<rparr>"

definition getPositionsRegister :: "nat \<Rightarrow> MultiMaskPartialKeyMapping \<Rightarrow> u8 list cxx" where
  "getPositionsRegister n m = toRegister (8 * n) (mExtractionPositions m)"

definition getExtractionDataRegister :: "nat \<Rightarrow> MultiMaskPartialKeyMapping \<Rightarrow> u8 list cxx" where
  "getExtractionDataRegister n m = toRegister (8 * n) (mExtractionData m)"

definition setPositions :: "u8 list \<Rightarrow> MultiMaskPartialKeyMapping \<Rightarrow> MultiMaskPartialKeyMapping cxx" where
  "setPositions positions m =
     rbind (store_register positions (mExtractionPositions m)) (\<lambda>p. Inr (m \<lparr> mExtractionPositions := p \<rparr>))"

definition setExtractionData :: "u8 list \<Rightarrow> MultiMaskPartialKeyMapping \<Rightarrow> MultiMaskPartialKeyMapping cxx" where
  "setExtractionData extractionData m =
     rbind (store_register extractionData (mExtractionData m)) (\<lambda>d. Inr (m \<lparr> mExtractionData := d \<rparr>))"

definition mm_getNumberExtractionBytes :: "MultiMaskPartialKeyMapping \<Rightarrow> nat" where
  "mm_getNumberExtractionBytes m = mNumberExtractionBytes m"

definition mm_calculateNumberBitsUsed :: "MultiMaskPartialKeyMapping \<Rightarrow> nat" where
  "mm_calculateNumberBitsUsed m = mNumberKeyBits m"

section \<open>Masks over the bytes\<close>

definition getMaskForPositionsLargerOrEqualTo :: "nat \<Rightarrow> MultiMaskPartialKeyMapping \<Rightarrow> nat \<Rightarrow> u8 list cxx" where
  "getMaskForPositionsLargerOrEqualTo n m bytePosition =
     (let bytePositionSearchRegister = set1_epi8 (8 * n) (of_nat bytePosition)
      in rbind (getPositionsRegister n m) (\<lambda>positionsRegister.
           Inr (cmpeq_epi8 positionsRegister (max_epu8 bytePositionSearchRegister positionsRegister))))"

definition getMaskForExtractionBytesUsed :: "MultiMaskPartialKeyMapping \<Rightarrow> u32 cxx" where
  "getMaskForExtractionBytesUsed m = shr32 (- 1) (sub32 32 (mNumberExtractionBytes m))"

definition getExtractionByteIndexForPosition :: "nat \<Rightarrow> MultiMaskPartialKeyMapping \<Rightarrow> nat \<Rightarrow> nat cxx" where
  "getExtractionByteIndexForPosition n m bytePosition =
     (let needle = set1_epi8 (8 * n) (of_nat bytePosition)
      in rbind (getPositionsRegister n m) (\<lambda>haystack.
         rbind (getMaskForExtractionBytesUsed m) (\<lambda>used.
           Inr (tzcnt (moveMask8 (cmpeq_epi8 needle haystack) AND used)))))"

definition getBytesUsedMaskForExtractionData ::
  "nat \<Rightarrow> MultiMaskPartialKeyMapping \<Rightarrow> u8 list \<Rightarrow> u32 cxx" where
  "getBytesUsedMaskForExtractionData n m extractionData =
     rbind (toRegister (8 * n) extractionData) (\<lambda>r.
     rbind (getMaskForExtractionBytesUsed m) (\<lambda>used.
       Inr (NOT (moveMask8 (cmpeq_epi8 r (zero_register (8 * n)))) AND used)))"

definition getLeastSignificantBytIndexForBytesUsedMask :: "u32 \<Rightarrow> nat" where
  "getLeastSignificantBytIndexForBytesUsedMask bytesUsedMask = sub32 31 (lzcnt bytesUsedMask)"

definition getExtractionByteWithBitSetAtRelativePosition :: "nat \<Rightarrow> u8 cxx" where
  "getExtractionByteWithBitSetAtRelativePosition byteRelativeBitPosition =
     (if byteRelativeBitPosition < 32 then Inr (drop_bit byteRelativeBitPosition BYTE_WITH_HIGHEST_BIT_SET)
      else Inl UB_Shift)"

section \<open>Extraction\<close>

definition mapInput :: "nat \<Rightarrow> MultiMaskPartialKeyMapping \<Rightarrow> u8 list \<Rightarrow> u8 list cxx" where
  "mapInput n m keyBytes =
     rfold (\<lambda>i mappedInputBytes.
       rbind (mm_getExtractionBytePosition m i) (\<lambda>position.
       rbind (byte_at keyBytes (unat position)) (\<lambda>b. setExtractionByteAt mappedInputBytes i b)))
       [0..<mNumberExtractionBytes m] (zeroInitializedArray n)"

text \<open>One \<open>pext\<close> a word; the results are put side by side, the first word lowest.\<close>

definition extractMaskForMappedInput :: "nat \<Rightarrow> MultiMaskPartialKeyMapping \<Rightarrow> u8 list \<Rightarrow> u32 cxx" where
  "extractMaskForMappedInput n m mappedInputData =
     (if n = 1 then
        rbind (load64 mappedInputData 0) (\<lambda>d0. rbind (load64 (mExtractionData m) 0) (\<lambda>mask1.
          Inr (ucast (pext d0 mask1))))
      else if n = 2 then
        rbind (load64 (mExtractionData m) 0) (\<lambda>mask1. rbind (load64 (mExtractionData m) 8) (\<lambda>mask2.
        rbind (load64 mappedInputData 0) (\<lambda>d0. rbind (load64 mappedInputData 8) (\<lambda>d1.
        rbind (shl64 (pext d1 mask2) (popcnt mask1)) (\<lambda>second.
          Inr (ucast (pext d0 mask1 + second)))))))
      else
        rbind (load64 (mExtractionData m) 0) (\<lambda>mask1. rbind (load64 (mExtractionData m) 8) (\<lambda>mask2.
        rbind (load64 (mExtractionData m) 16) (\<lambda>mask3. rbind (load64 (mExtractionData m) 24) (\<lambda>mask4.
        rbind (load64 mappedInputData 0) (\<lambda>d0. rbind (load64 mappedInputData 8) (\<lambda>d1.
        rbind (load64 mappedInputData 16) (\<lambda>d2. rbind (load64 mappedInputData 24) (\<lambda>d3.
        let firstOffset = popcnt mask1; secondOffset = popcnt mask2 + firstOffset;
            thirdOffset = popcnt mask3 + secondOffset
        in rbind (shl64 (pext d1 mask2) firstOffset) (\<lambda>second.
           rbind (shl64 (pext d2 mask3) secondOffset) (\<lambda>third.
           rbind (shl64 (pext d3 mask4) thirdOffset) (\<lambda>fourth.
             Inr (ucast (pext d0 mask1 + second + third + fourth))))))))))))))"

definition mm_extractMask :: "nat \<Rightarrow> MultiMaskPartialKeyMapping \<Rightarrow> u8 list \<Rightarrow> u32 cxx" where
  "mm_extractMask n m keyBytes = rbind (mapInput n m keyBytes) (extractMaskForMappedInput n m)"

text \<open>The version for a rule: it takes the wildcards and does not use them.\<close>

definition mm_extractMask_mask :: "nat \<Rightarrow> MultiMaskPartialKeyMapping \<Rightarrow> u8 list \<Rightarrow> u64 \<Rightarrow> u32 cxx" where
  "mm_extractMask_mask n m keyBytes msk = rbind (mapInput n m keyBytes) (extractMaskForMappedInput n m)"

definition mm_getPrefixBitsMask :: "nat \<Rightarrow> MultiMaskPartialKeyMapping \<Rightarrow> DiscriminativeBit \<Rightarrow> u32 cxx" where
  "mm_getPrefixBitsMask n m d =
     rbind (if unat (mByteRelativeBitIndex d) \<le> 8
            then Inr (ucast (push_bit (8 - unat (mByteRelativeBitIndex d)) (0xFF :: u32)) :: u8) else Inl UB_Shift)
       (\<lambda>subtreeMissmatchingByte. rbind (rfold (\<lambda>i prefixBits. rbind (mm_getExtractionBytePosition m i) (\<lambda>byteIndex.
             if unat byteIndex < unat (mByteIndex d) then setExtractionByteAt prefixBits i 0xFF
             else if unat byteIndex = unat (mByteIndex d)
                  then setExtractionByteAt prefixBits i subtreeMissmatchingByte
                  else Inr prefixBits))
             [0..<mNumberExtractionBytes m] (zeroInitializedArray n))
           (extractMaskForMappedInput n m))"

definition mm_getMaskForHighestBit :: "nat \<Rightarrow> MultiMaskPartialKeyMapping \<Rightarrow> u32 cxx" where
  "mm_getMaskForHighestBit n m =
     rbind (mm_getExtractionBytePosition m 0) (\<lambda>position.
       let byteRelativeBitPositionForHighestBit =
             sub32 (mMostSignificantDiscriminativeBitIndex m) (unat (convertBytesToBits (ucast position)))
       in rbind (getExtractionByteWithBitSetAtRelativePosition (u16nat byteRelativeBitPositionForHighestBit))
            (\<lambda>extractionByteForHighestBit.
              let extractionData = bytes64 (ucast extractionByteForHighestBit) @ drop 8 (zeroInitializedArray n)
              in extractMaskForMappedInput n m extractionData))"

definition mm_getMaskFor :: "nat \<Rightarrow> MultiMaskPartialKeyMapping \<Rightarrow> DiscriminativeBit \<Rightarrow> u32 cxx" where
  "mm_getMaskFor n m d =
     rbind (getExtractionByteIndexForPosition n m (unat (mByteIndex d))) (\<lambda>i.
     rbind (getExtractionByte d) (\<lambda>extractionByte.
     rbind (setExtractionByteAt (zeroInitializedArray n) i extractionByte)
       (extractMaskForMappedInput n m)))"

definition mm_getAllMaskBits :: "MultiMaskPartialKeyMapping \<Rightarrow> u32 cxx" where
  "mm_getAllMaskBits m = shr32 (- 1) (sub32 32 (mNumberKeyBits m))"

section \<open>Depositing partial keys\<close>

definition getUsedExtractionBitsForMask :: "nat \<Rightarrow> MultiMaskPartialKeyMapping \<Rightarrow> u32 \<Rightarrow> u8 list cxx" where
  "getUsedExtractionBitsForMask n m usedMaskBits =
     (if n = 1 then
        rbind (load64 (mExtractionData m) 0) (\<lambda>mask1. Inr (bytes64 (pdep (ucast usedMaskBits) mask1)))
      else if n = 2 then
        rbind (load64 (mExtractionData m) 0) (\<lambda>mask1. rbind (load64 (mExtractionData m) 8) (\<lambda>mask2.
        rbind (shr32 usedMaskBits (popcnt mask1)) (\<lambda>usedBits2.
          Inr (bytes64 (pdep (ucast usedMaskBits) mask1) @ bytes64 (pdep (ucast usedBits2) mask2)))))
      else
        rbind (load64 (mExtractionData m) 0) (\<lambda>mask1. rbind (load64 (mExtractionData m) 8) (\<lambda>mask2.
        rbind (load64 (mExtractionData m) 16) (\<lambda>mask3. rbind (load64 (mExtractionData m) 24) (\<lambda>mask4.
        let usedBits1 = (ucast usedMaskBits :: u64)
        in rbind (shr64 usedBits1 (popcnt mask1)) (\<lambda>usedBits2.
           rbind (shr64 usedBits2 (popcnt mask2)) (\<lambda>usedBits3.
           rbind (shr64 usedBits3 (popcnt mask3)) (\<lambda>usedBits4.
             Inr (bytes64 (pdep usedBits1 mask1) @ bytes64 (pdep usedBits2 mask2) @
                  bytes64 (pdep usedBits3 mask3) @ bytes64 (pdep usedBits4 mask4))))))))))"

definition mm_getMostSignifikantMaskBit :: "nat \<Rightarrow> MultiMaskPartialKeyMapping \<Rightarrow> u32 \<Rightarrow> u32 cxx" where
  "mm_getMostSignifikantMaskBit n m msk =
     rbind (getUsedExtractionBitsForMask n m msk) (\<lambda>usedExtractionBits.
     rbind (getBytesUsedMaskForExtractionData n m usedExtractionBits) (\<lambda>usedExtractionBytesMask.
       let highestExtractionByteIndex = tzcnt usedExtractionBytesMask
       in rbind (getExtractionByteAt usedExtractionBits highestExtractionByteIndex) (\<lambda>highestByte.
          rbind (getExtractionByteWithBitSetAtRelativePosition (lzcnt (ucast highestByte :: u32) - 24))
            (\<lambda>extractionByteWithHighestBitSet.
          rbind (setExtractionByteAt (zeroInitializedArray n) highestExtractionByteIndex
                   extractionByteWithHighestBitSet)
            (extractMaskForMappedInput n m)))))"

definition mm_getLeastSignificantBitIndex :: "nat \<Rightarrow> MultiMaskPartialKeyMapping \<Rightarrow> u32 \<Rightarrow> nat cxx" where
  "mm_getLeastSignificantBitIndex n m msk =
     rbind (getUsedExtractionBitsForMask n m msk) (\<lambda>usedExtractionBits.
     rbind (getBytesUsedMaskForExtractionData n m usedExtractionBits) (\<lambda>used.
       let lowestExtractionByteIndex = getLeastSignificantBytIndexForBytesUsedMask used
       in rbind (getExtractionByteAt usedExtractionBits lowestExtractionByteIndex) (\<lambda>lowestByte.
          rbind (mm_getExtractionBytePosition m lowestExtractionByteIndex) (\<lambda>position.
            Inr (u16nat (unat (convertBytesToBits (ucast position)) +
                   unat (getLeastSignificantBitIndexInByte lowestByte)))))))"

definition mm_createIntermediateKeyWithOnlySignificantBitsSet :: "MultiMaskPartialKeyMapping \<Rightarrow> u8 list cxx" where
  "mm_createIntermediateKeyWithOnlySignificantBitsSet m =
     rfold (\<lambda>i intermediateKey. rbind (mm_getExtractionBytePosition m i) (\<lambda>position.
              rbind (mm_getExtractionByte m i) (\<lambda>b. setExtractionByteAt intermediateKey (unat position) b)))
       [0..<mNumberExtractionBytes m] (replicate 256 0)"

text \<open>
  The set of discriminative bits, byte by byte and from the highest bit of each byte down; the
  inner loop clears one bit a round, so the number of its bits bounds the rounds.
\<close>

fun mm_byte_loop :: "nat \<Rightarrow> nat \<Rightarrow> u32 \<Rightarrow> nat list" where
  "mm_byte_loop 0 base extractionByte = []"
| "mm_byte_loop (Suc fuel) base extractionByte =
     (if extractionByte > 0
      then let byteRelativeBitPosition = lzcnt extractionByte - 24
           in u16nat (base + byteRelativeBitPosition) #
              mm_byte_loop fuel base
                (extractionByte AND NOT (ucast (drop_bit byteRelativeBitPosition BYTE_WITH_HIGHEST_BIT_SET)))
      else [])"

definition mm_getDiscriminativeBits :: "MultiMaskPartialKeyMapping \<Rightarrow> nat list cxx" where
  "mm_getDiscriminativeBits m =
     rfold (\<lambda>i extractionBits. rbind (mm_getExtractionBytePosition m i) (\<lambda>position.
              rbind (mm_getExtractionByte m i) (\<lambda>b.
                Inr (extractionBits @
                  mm_byte_loop 8 (unat (convertBytesToBits (ucast position))) (ucast b)))))
       [0..<mNumberExtractionBytes m] []"

end
