(* ===== verification/Mapping_Operations.thy ===== *)
theory Mapping_Operations
  imports Multi_Mask
begin

text \<open>
  The constructors of the multi masks and the operations that choose the kind of a mapping: adding
  a discriminative bit (\<open>insert\<close>), keeping the bits of some partial keys (\<open>extract\<close>) and choosing
  the width of the partial keys, from \<open>MultiMaskPartialKeyMapping.hpp\<close>,
  \<open>SingleMaskPartialKeyMapping.hpp\<close> and \<open>PartialKeyMappingHelpers.hpp\<close>.  The code passes the mapping
  it made to a function argument; here it is the result, tagged with its class.
\<close>

unbundle bit_operations_syntax

section \<open>Constructors of multi masks\<close>

definition multi_fields :: "nat \<Rightarrow> nat \<Rightarrow> nat \<Rightarrow> nat \<Rightarrow> u8 list \<Rightarrow> u8 list \<Rightarrow> MultiMaskPartialKeyMapping" where
  "multi_fields msb lsb numberBytes numberBits positions extractionData =
     \<lparr> mMostSignificantDiscriminativeBitIndex = msb, mLeastSignificantDiscriminativeBitIndex = lsb,
       mNumberExtractionBytes = numberBytes, mNumberKeyBits = numberBits,
       mExtractionPositions = positions, mExtractionData = extractionData \<rparr>"

text \<open>
  Copies.  For one and two masks a single register holds both arrays; four masks take two registers.
  The wider mapping extends each array by zeros.
\<close>

definition MultiMask_copy :: "nat \<Rightarrow> MultiMaskPartialKeyMapping \<Rightarrow> MultiMaskPartialKeyMapping cxx" where
  "MultiMask_copy n src =
     (if n = 4
      then rbind (getPositionsRegister n src) (\<lambda>p. rbind (getExtractionDataRegister n src) (\<lambda>d.
             Inr (src \<lparr> mExtractionPositions := p, mExtractionData := d \<rparr>)))
      else rbind (toRegister (16 * n) (mExtractionPositions src @ mExtractionData src)) (\<lambda>r.
             Inr (src \<lparr> mExtractionPositions := take (8 * n) r, mExtractionData := drop (8 * n) r \<rparr>)))"

definition MultiMask_extend :: "nat \<Rightarrow> MultiMaskPartialKeyMapping \<Rightarrow> MultiMaskPartialKeyMapping cxx" where
  "MultiMask_extend n src =
     rbind (getPositionsRegister (n div 2) src) (\<lambda>p. rbind (getExtractionDataRegister (n div 2) src) (\<lambda>d.
       Inr (src \<lparr> mExtractionPositions := convertWithZeroExtend p,
                  mExtractionData := convertWithZeroExtend d \<rparr>)))"

text \<open>From a single mask and a bit outside the reach of a single mask.\<close>

definition MultiMask_single ::
  "nat \<Rightarrow> SingleMaskPartialKeyMapping \<Rightarrow> DiscriminativeBit \<Rightarrow> MultiMaskPartialKeyMapping cxx" where
  "MultiMask_single n existing d =
     (let (msb, lsb) = base_insert (mMostSignificantDiscriminativeBitIndex existing,
                          mLeastSignificantDiscriminativeBitIndex existing) d;
          m0 = initializeDataAndPositionsWithZero n (multi_fields msb lsb 0 0 [] []);
          usedBytes = sm_getUsedBytesMask existing;
          existingNumberRandomBytes = popcnt usedBytes;
          isBefore = (of_bool (unat (mAbsoluteBitIndex d) < mMostSignificantDiscriminativeBitIndex existing) :: nat);
          newValueIndex = (1 - isBefore) * existingNumberRandomBytes
      in rbind (getExtractionByte d) (\<lambda>newByte.
         rbind (setExtractionByte newValueIndex newByte m0) (\<lambda>m1.
         rbind (setExtractionBytePosition newValueIndex (ucast (mByteIndex d)) m1) (\<lambda>m2.
         rbind (rfold (\<lambda>sourceByteIndex (targetIndex, m).
                  rbind (setExtractionBytePosition targetIndex (sm_getExtractionBytePosition existing sourceByteIndex) m) (\<lambda>m'.
                  rbind (sm_getExtractionByte existing sourceByteIndex) (\<lambda>b.
                  rbind (setExtractionByte targetIndex b m') (\<lambda>m''. Inr (Suc targetIndex, m'')))))
                (ones usedBytes) (isBefore, m2)) (\<lambda>(targetIndex, m3).
           Inr (m3 \<lparr> mNumberExtractionBytes := u16nat (existingNumberRandomBytes + 1),
                     mNumberKeyBits := u16nat (sm_calculateNumberBitsUsed existing + 1) \<rparr>))))))"

text \<open>A bit of a key byte that the mapping has already.\<close>

definition MultiMask_same ::
  "nat \<Rightarrow> MultiMaskPartialKeyMapping \<Rightarrow> DiscriminativeBit \<Rightarrow> nat \<Rightarrow> MultiMaskPartialKeyMapping cxx" where
  "MultiMask_same n existing d extractionByteIndex =
     rbind (MultiMask_copy n existing) (\<lambda>m.
     rbind (mm_getExtractionByte m extractionByteIndex) (\<lambda>existingExtractionByte.
     rbind (getExtractionByte d) (\<lambda>newBit.
       let newExtractionByte = existingExtractionByte OR newBit;
           isNewBit = (existingExtractionByte XOR newExtractionByte > 0)
       in rbind (setExtractionByte extractionByteIndex newExtractionByte m) (\<lambda>m'.
            Inr (m' \<lparr> mMostSignificantDiscriminativeBitIndex :=
                        min (mMostSignificantDiscriminativeBitIndex m) (unat (mAbsoluteBitIndex d)),
                      mLeastSignificantDiscriminativeBitIndex :=
                        max (mLeastSignificantDiscriminativeBitIndex m) (unat (mAbsoluteBitIndex d)),
                      mNumberKeyBits := u16nat (mNumberKeyBits m + of_bool isNewBit) \<rparr>)))))"

text \<open>
  A bit of a new key byte: the bytes from the given index on move up by one.  The arrays of the new
  object are not initialised before the registers are stored; they start as zeros here.
\<close>

definition moved_register :: "u8 list \<Rightarrow> u8 list \<Rightarrow> u8 list" where
  "moved_register lessSignificant r =
     binaryOr (binaryAndNot lessSignificant r) (shiftLeftOneByte (binaryAnd lessSignificant r))"

definition MultiMask_shift ::
  "nat \<Rightarrow> MultiMaskPartialKeyMapping \<Rightarrow> DiscriminativeBit \<Rightarrow> nat \<Rightarrow> u8 list \<Rightarrow> MultiMaskPartialKeyMapping cxx" where
  "MultiMask_shift n existing d extractionByteIndex maskForLessSignificantBytes =
     (let (msb, lsb) = base_insert (mMostSignificantDiscriminativeBitIndex existing,
                          mLeastSignificantDiscriminativeBitIndex existing) d;
          m0 = multi_fields msb lsb (u16nat (mNumberExtractionBytes existing + 1))
                 (u16nat (mNumberKeyBits existing + 1)) (zero_register (8 * n)) (zero_register (8 * n))
      in rbind (getPositionsRegister n existing) (\<lambda>positions.
         rbind (setPositions (moved_register maskForLessSignificantBytes positions) m0) (\<lambda>m1.
         rbind (getExtractionDataRegister n existing) (\<lambda>extractionData.
         rbind (setExtractionData (moved_register maskForLessSignificantBytes extractionData) m1) (\<lambda>m2.
         rbind (getExtractionByte d) (\<lambda>b.
         rbind (setExtractionByte extractionByteIndex b m2) (\<lambda>m3.
           setExtractionBytePosition extractionByteIndex (ucast (mByteIndex d)) m3)))))))"

definition MultiMask_grow ::
  "nat \<Rightarrow> MultiMaskPartialKeyMapping \<Rightarrow> DiscriminativeBit \<Rightarrow> nat \<Rightarrow> u8 list \<Rightarrow> MultiMaskPartialKeyMapping cxx" where
  "MultiMask_grow n existing d extractionByteIndex maskForLessSignificantBytes =
     rbind (MultiMask_extend n existing) (\<lambda>m.
       MultiMask_shift n m d extractionByteIndex (convertWithZeroExtend maskForLessSignificantBytes))"

text \<open>From the bytes of a mapping that are still used, and from arrays.\<close>

definition MultiMask_compact ::
  "nat \<Rightarrow> MultiMaskPartialKeyMapping \<Rightarrow> u32 \<Rightarrow> u8 list \<Rightarrow> nat \<Rightarrow> nat \<Rightarrow> nat \<Rightarrow> nat \<Rightarrow> MultiMaskPartialKeyMapping cxx" where
  "MultiMask_compact n existing bytesUsedMask extractionDataUsed msb lsb numberBytesUsed bitsUsed =
     rbind (rfold (\<lambda>extractionByteIndex (i, m).
              rbind (mm_getExtractionBytePosition existing extractionByteIndex) (\<lambda>position.
              rbind (setExtractionBytePosition i position m) (\<lambda>m'.
              rbind (byte_at extractionDataUsed extractionByteIndex) (\<lambda>b.
              rbind (setExtractionByte i b m') (\<lambda>m''. Inr (Suc i, m''))))))
            (ones bytesUsedMask)
            (0, initializeDataAndPositionsWithZero n (multi_fields msb lsb numberBytesUsed bitsUsed [] [])))
       (\<lambda>(i, m). Inr m)"

definition MultiMask_arrays ::
  "nat \<Rightarrow> nat \<Rightarrow> u8 list \<Rightarrow> u8 list \<Rightarrow> MultiMaskPartialKeyMapping cxx" where
  "MultiMask_arrays numberBytesUsed numberBitsUsed positions extractionData =
     rbind (getExtractionByteAt extractionData 0) (\<lambda>firstByte.
     rbind (getExtractionByteAt positions 0) (\<lambda>firstPosition.
     rbind (getExtractionByteAt extractionData (sub32 numberBytesUsed 1)) (\<lambda>lastByte.
     rbind (getExtractionByteAt positions (sub32 numberBytesUsed 1)) (\<lambda>lastPosition.
       Inr (multi_fields (u16nat (unat (getMostSignificantBitIndexInByte firstByte) + unat firstPosition * 8))
              (u16nat (unat (getLeastSignificantBitIndexInByte lastByte) + unat lastPosition * 8))
              numberBytesUsed numberBitsUsed positions extractionData)))))"

section \<open>Adding a bit\<close>

definition multi :: "nat \<Rightarrow> MultiMaskPartialKeyMapping \<Rightarrow> mapping" where
  "multi n m = (if n = 1 then MultiMapping1 m else if n = 2 then MultiMapping2 m else MultiMapping4 m)"

definition sm_insert :: "SingleMaskPartialKeyMapping \<Rightarrow> DiscriminativeBit \<Rightarrow> mapping cxx" where
  "sm_insert m d =
     (let isSingleMaskPartialKeyMapping =
            int (unat (mByteIndex d)) - int (mMostSignificantDiscriminativeBitIndex m div 8) < 8 \<and>
            int (mLeastSignificantDiscriminativeBitIndex m div 8) - int (unat (mByteIndex d)) < 8
      in if isSingleMaskPartialKeyMapping then rbind (SingleMask_insert m d) (\<lambda>m'. Inr (SingleMapping m'))
         else if sm_hasUnusedBytes m then rbind (MultiMask_single 1 m d) (\<lambda>m'. Inr (MultiMapping1 m'))
         else rbind (MultiMask_single 2 m d) (\<lambda>m'. Inr (MultiMapping2 m')))"

definition mm_insert :: "nat \<Rightarrow> MultiMaskPartialKeyMapping \<Rightarrow> DiscriminativeBit \<Rightarrow> mapping cxx" where
  "mm_insert n m d =
     rbind (getMaskForPositionsLargerOrEqualTo n m (unat (mByteIndex d))) (\<lambda>simdMask.
     rbind (shl32 (- 1) (mNumberExtractionBytes m)) (\<lambda>unusedBytes.
       let maskForPositionsLargerOrEqual = moveMask8 simdMask OR unusedBytes;
           possibleExtractionByteIndex = tzcnt maskForPositionsLargerOrEqual
       in rbind (mm_getExtractionBytePosition m possibleExtractionByteIndex) (\<lambda>position.
            let isByteContainedAtPosition =
                  possibleExtractionByteIndex < mNumberExtractionBytes m \<and> unat position = unat (mByteIndex d);
                nextNumberExtractionMasks = if n = 4 then n else n * 2
            in if isByteContainedAtPosition
               then rbind (MultiMask_same n m d possibleExtractionByteIndex) (\<lambda>m'. Inr (multi n m'))
               else if mNumberExtractionBytes m < n * 8
               then rbind (MultiMask_shift n m d possibleExtractionByteIndex simdMask) (\<lambda>m'. Inr (multi n m'))
               else if n = 4
               then rbind (MultiMask_shift n m d possibleExtractionByteIndex simdMask) (\<lambda>m'. Inr (multi n m'))
               else rbind (MultiMask_grow nextNumberExtractionMasks m d possibleExtractionByteIndex simdMask)
                      (\<lambda>m'. Inr (multi nextNumberExtractionMasks m')))))"

fun mapping_insert :: "mapping \<Rightarrow> DiscriminativeBit \<Rightarrow> mapping cxx" where
  "mapping_insert (SingleMapping m) d = sm_insert m d"
| "mapping_insert (MultiMapping1 m) d = mm_insert 1 m d"
| "mapping_insert (MultiMapping2 m) d = mm_insert 2 m d"
| "mapping_insert (MultiMapping4 m) d = mm_insert 4 m d"

section \<open>Keeping the bits of some partial keys\<close>

definition sm_extract :: "SingleMaskPartialKeyMapping \<Rightarrow> u32 \<Rightarrow> mapping cxx" where
  "sm_extract m bitsUsed = rbind (SingleMask_needed m bitsUsed) (\<lambda>m'. Inr (SingleMapping m'))"

definition mm_extract :: "nat \<Rightarrow> MultiMaskPartialKeyMapping \<Rightarrow> u32 \<Rightarrow> mapping cxx" where
  "mm_extract n m bitsUsed =
     rbind (getUsedExtractionBitsForMask n m bitsUsed) (\<lambda>extractionDataForBitsUsed.
     rbind (getBytesUsedMaskForExtractionData n m extractionDataForBitsUsed) (\<lambda>bytesUsedMask.
       let mostSignificantExtractionByteIndex = tzcnt bytesUsedMask;
           leastSignificantExtractionByteIndex = getLeastSignificantBytIndexForBytesUsedMask bytesUsedMask
       in rbind (mm_getExtractionBytePosition m leastSignificantExtractionByteIndex) (\<lambda>leastPosition.
          rbind (mm_getExtractionBytePosition m mostSignificantExtractionByteIndex) (\<lambda>mostPosition.
          rbind (getExtractionByteAt extractionDataForBitsUsed leastSignificantExtractionByteIndex) (\<lambda>leastByte.
          rbind (getExtractionByteAt extractionDataForBitsUsed mostSignificantExtractionByteIndex) (\<lambda>mostByte.
            let lsb = u16nat (unat (convertBytesToBits (ucast leastPosition)) +
                        unat (getLeastSignificantBitIndexInByte leastByte));
                msb = u16nat (unat (convertBytesToBits (ucast mostPosition)) +
                        unat (getMostSignificantBitIndexInByte mostByte));
                isRandomExtractionMask = (of_bool (sub32 (unat leastPosition) (unat mostPosition) \<ge> 8) :: nat);
                numberBytesUsed = popcnt bytesUsedMask;
                numberRandomExtractionMasksMinusOne = (numberBytesUsed - 1) div 8;
                masks = numberRandomExtractionMasksMinusOne + isRandomExtractionMask;
                compact = (\<lambda>k. rbind (MultiMask_compact k m bytesUsedMask extractionDataForBitsUsed
                                       msb lsb numberBytesUsed (popcnt bitsUsed)) (\<lambda>m'. Inr (multi k m')))
            in if masks = 0
               then rbind (SingleMask_random (mExtractionPositions m) extractionDataForBitsUsed bytesUsedMask msb lsb)
                      (\<lambda>m'. Inr (SingleMapping m'))
               else if masks = 1 then compact 1
               else if masks = 2 \<and> n \<ge> 2 then compact 2
               else if n \<ge> 4 then compact 4
               else Inl UB_Null))))))"

fun mapping_extract :: "mapping \<Rightarrow> u32 \<Rightarrow> mapping cxx" where
  "mapping_extract (SingleMapping m) bitsUsed = sm_extract m bitsUsed"
| "mapping_extract (MultiMapping1 m) bitsUsed = mm_extract 1 m bitsUsed"
| "mapping_extract (MultiMapping2 m) bitsUsed = mm_extract 2 m bitsUsed"
| "mapping_extract (MultiMapping4 m) bitsUsed = mm_extract 4 m bitsUsed"

section \<open>The width of the partial keys\<close>

text \<open>The mapping the operation is called with and the width in bits of its partial keys.\<close>

definition width_of_bits :: "nat \<Rightarrow> nat" where
  "width_of_bits numberBits =
     (if getMaximumMaskByteIndex (of_nat numberBits) = 0 then 8
      else if getMaximumMaskByteIndex (of_nat numberBits) = 1 then 16 else 32)"

definition sm_executeWithCorrectMask :: "SingleMaskPartialKeyMapping \<Rightarrow> (mapping \<times> nat) cxx" where
  "sm_executeWithCorrectMask m = Inr (SingleMapping m, width_of_bits (sm_calculateNumberBitsUsed m))"

definition mm_executeWithCorrectMask :: "nat \<Rightarrow> MultiMaskPartialKeyMapping \<Rightarrow> (mapping \<times> nat) cxx" where
  "mm_executeWithCorrectMask n m =
     (if n = 1 then Inr (MultiMapping1 m, width_of_bits (mm_calculateNumberBitsUsed m))
      else if n = 2 then
        (if mNumberKeyBits m \<le> 16 then Inr (MultiMapping2 m, 16)
         else rbind (MultiMask_extend 4 m) (\<lambda>m'. Inr (MultiMapping4 m', 32)))
      else Inr (MultiMapping4 m, 32))"

fun mapping_executeWithCorrectMask :: "mapping \<Rightarrow> (mapping \<times> nat) cxx" where
  "mapping_executeWithCorrectMask (SingleMapping m) = sm_executeWithCorrectMask m"
| "mapping_executeWithCorrectMask (MultiMapping1 m) = mm_executeWithCorrectMask 1 m"
| "mapping_executeWithCorrectMask (MultiMapping2 m) = mm_executeWithCorrectMask 2 m"
| "mapping_executeWithCorrectMask (MultiMapping4 m) = mm_executeWithCorrectMask 4 m"

text \<open>The smallest kind of mapping that holds the same bits.\<close>

definition mm_executeWithCompressed :: "nat \<Rightarrow> MultiMaskPartialKeyMapping \<Rightarrow> mapping cxx" where
  "mm_executeWithCompressed n m =
     rbind (mm_getExtractionBytePosition m (sub32 (mm_getNumberExtractionBytes m) 1)) (\<lambda>leastPosition.
     rbind (mm_getExtractionBytePosition m 0) (\<lambda>mostPosition.
       if mostPosition \<le> leastPosition \<and> unat leastPosition - unat mostPosition < 8 then
         rbind (getMaskForExtractionBytesUsed m) (\<lambda>used.
         rbind (SingleMask_random (mExtractionPositions m) (mExtractionData m) used
                  (mMostSignificantDiscriminativeBitIndex m) (mLeastSignificantDiscriminativeBitIndex m))
           (\<lambda>m'. Inr (SingleMapping m')))
       else if mm_getNumberExtractionBytes m \<le> 8 then
         rbind (MultiMask_arrays (mNumberExtractionBytes m) (mNumberKeyBits m)
                  (take 8 (mExtractionPositions m)) (take 8 (mExtractionData m))) (\<lambda>m'. Inr (MultiMapping1 m'))
       else if mm_getNumberExtractionBytes m \<le> 16 then
         rbind (MultiMask_arrays (mNumberExtractionBytes m) (mNumberKeyBits m)
                  (take 16 (mExtractionPositions m)) (take 16 (mExtractionData m))) (\<lambda>m'. Inr (MultiMapping2 m'))
       else Inr (multi n m)))"

section \<open>Compositions\<close>

definition extractAndExecuteWithCorrectMask :: "mapping \<Rightarrow> u32 \<Rightarrow> (mapping \<times> nat) cxx" where
  "extractAndExecuteWithCorrectMask extractionInformation compressionMask =
     rbind (mapping_extract extractionInformation compressionMask) mapping_executeWithCorrectMask"

definition extractAndAddAndExecuteWithCorrectMask ::
  "mapping \<Rightarrow> u32 \<Rightarrow> DiscriminativeBit \<Rightarrow> (mapping \<times> nat) cxx" where
  "extractAndAddAndExecuteWithCorrectMask extractionInformation compressionMask keyInformation =
     rbind (mapping_extract extractionInformation compressionMask) (\<lambda>intermediate.
     rbind (mapping_insert intermediate keyInformation) mapping_executeWithCorrectMask)"

end
