(* ===== verification/Multi_Mask_Extract.thy ===== *)
theory Multi_Mask_Extract
  imports Mapping_Operations Single_Mask_Extract
begin

text \<open>
  The invariant of the multi masks and what their extraction computes: the dense partial key is
  the word of the key bits at the positions of the mapping, in the order of the bytes.
\<close>

unbundle bit_operations_syntax

section \<open>Bits of byte arrays\<close>

definition bitb :: "u8 list \<Rightarrow> nat \<Rightarrow> bool" where
  "bitb xs i \<longleftrightarrow> i < 8 * length xs \<and> bit (xs ! (i div 8)) (i mod 8)"

definition onesb :: "u8 list \<Rightarrow> nat list" where
  "onesb xs = filter (bitb xs) [0..<8 * length xs]"

lemma set_onesb [simp]: "set (onesb xs) = {i. bitb xs i}"
  by (auto simp: onesb_def bitb_def)

lemma sorted_onesb [simp]: "sorted (onesb xs)" and distinct_onesb [simp]: "distinct (onesb xs)"
  by (simp_all add: onesb_def sorted_wrt_filter)

text \<open>The word \<open>k\<close> of an array.\<close>

definition word_of_bytes :: "u8 list \<Rightarrow> nat \<Rightarrow> u64" where
  "word_of_bytes xs k = of_bits (map (\<lambda>i. bitb xs (64 * k + i)) [0..<64])"

lemma bit_word_of_bytes [word_bits]: "bit (word_of_bytes xs k) i \<longleftrightarrow> i < 64 \<and> bitb xs (64 * k + i)"
  by (auto simp: word_of_bytes_def bit_of_bits)

lemma word_byte_index: "(64 * k + i) div 8 = 8 * k + i div 8" "(64 * k + i) mod 8 = i mod (8 :: nat)"
proof -
  have "64 * k + i = i + 8 * (8 * k)" by simp
  then show "(64 * k + i) div 8 = 8 * k + i div 8" "(64 * k + i) mod 8 = i mod 8"
    by (simp_all only: div_mult_self2 mod_mult_self2)
qed

lemma load64_word:
  assumes "8 * k + 8 \<le> length xs" shows "load64 xs (8 * k) = Inr (word_of_bytes xs k)"
  using assms by (auto simp: load64_Inr word_bits bitb_def word_byte_index)

lemma onesb_words:
  assumes "length xs = 8 * n"
  shows "onesb xs = concat (map (\<lambda>k. map ((+) (64 * k)) (ones (word_of_bytes xs k))) [0..<n])"
proof -
  have "filter (bitb xs) [0..<64 * n] =
      concat (map (\<lambda>k. map ((+) (64 * k)) (ones (word_of_bytes xs k))) [0..<n])"
  proof (induction n)
    case (Suc n)
    have "[0..<64 * Suc n] = [0..<64 * n] @ map ((+) (64 * n)) [0..<64]"
      using map_add_upt [of "64 * n" 64] upt_add_eq_append [of 0 "64 * n" 64]
      by (simp add: add.commute [of "64 * n"] cong: map_cong)
    moreover have "filter (bitb xs \<circ> (+) (64 * n)) [0..<64] = ones (word_of_bytes xs n)"
      by (auto simp: ones_def word_bits intro!: filter_cong)
    ultimately show ?case using Suc.IH by (simp add: filter_map)
  qed simp
  with assms show ?thesis by (simp add: onesb_def)
qed

lemma pext_words:
  "pext (word_of_bytes xs k) (word_of_bytes ys k) =
   of_bits (map (bitb xs) (map ((+) (64 * k)) (ones (word_of_bytes ys k))))"
  unfolding pext_def by (rule arg_cong [of _ _ of_bits]) (auto simp: word_bits)

lemma of_bits_append_add:
  assumes "length xs + length ys \<le> LENGTH('a)"
  shows "of_bits xs + push_bit (length xs) (of_bits ys) = (of_bits (xs @ ys) :: 'a::len word)"
proof -
  have "of_bits xs + push_bit (length xs) (of_bits ys) = of_bits xs OR push_bit (length xs) (of_bits ys :: 'a word)"
    by (rule disjunctive_add_eq_or, rule bit_word_eqI) (auto simp: word_bits bit_simps)
  also have "\<dots> = of_bits (xs @ ys)"
    by (rule bit_word_eqI) (use assms in \<open>auto simp: word_bits bit_simps nth_append\<close>)
  finally show ?thesis .
qed

section \<open>Extraction\<close>

lemma extractMaskForMappedInput_bits:
  assumes n: "n \<in> {1, 2, 4}" "length (mExtractionData m) = 8 * n" "length mapped = 8 * n"
    and few: "length (onesb (mExtractionData m)) \<le> 32"
  shows "extractMaskForMappedInput n m mapped = Inr (of_bits (map (bitb mapped) (onesb (mExtractionData m))))"
proof -
  let ?d = "mExtractionData m"
  define b where "b k = map (bitb mapped) (map ((+) (64 * k)) (ones (word_of_bytes ?d k)))" for k
  have pc: "popcnt (word_of_bytes ?d k) = length (b k)" for k by (simp add: popcnt_def b_def)
  have px: "pext (word_of_bytes mapped k) (word_of_bytes ?d k) = of_bits (b k)" for k
    unfolding b_def by (rule pext_words)
  have ob: "map (bitb mapped) (onesb ?d) = concat (map b [0..<n])"
    unfolding onesb_words [OF n(2)] b_def by (simp add: map_concat comp_def)
  have len: "length (concat (map b [0..<n])) \<le> 32" using few by (simp add: ob [symmetric])
  have l: "8 \<le> length xs \<Longrightarrow> load64 xs 0 = Inr (word_of_bytes xs 0)"
    "16 \<le> length xs \<Longrightarrow> load64 xs 8 = Inr (word_of_bytes xs 1)"
    "24 \<le> length xs \<Longrightarrow> load64 xs 16 = Inr (word_of_bytes xs 2)"
    "32 \<le> length xs \<Longrightarrow> load64 xs 24 = Inr (word_of_bytes xs 3)" for xs
    using load64_word [of 0 xs] load64_word [of 1 xs] load64_word [of 2 xs] load64_word [of 3 xs] by simp_all
  consider "n = 1" | "n = 2" | "n = 4" using n(1) by auto
  then show ?thesis
  proof cases
    case 1
    with n len show ?thesis by (simp add: extractMaskForMappedInput_def ob l px ucast_of_bits)
  next
    case 2
    then have u: "concat (map b [0..<n]) = b 0 @ b 1" by (simp add: upt_conv_Cons)
    with 2 n len show ?thesis
      by (simp add: extractMaskForMappedInput_def ob l px pc of_bits_append_add ucast_of_bits del: One_nat_def)
  next
    case 3
    have "[0..<4] = [0, 1, 2, 3 :: nat]" by (simp add: upt_conv_Cons)
    with 3 have u: "concat (map b [0..<n]) = b 0 @ b 1 @ b 2 @ b 3" by simp
    have s3: "of_bits (b 0) + push_bit (length (b 0)) (of_bits (b 1)) +
        push_bit (length (b 1) + length (b 0)) (of_bits (b 2)) +
        push_bit (length (b 2) + (length (b 1) + length (b 0))) (of_bits (b 3)) =
        (of_bits (b 0 @ b 1 @ b 2 @ b 3) :: u64)"
      using len u of_bits_append_add [of "b 0" "b 1", where 'a = 64] of_bits_append_add [of "b 0 @ b 1" "b 2", where 'a = 64]
        of_bits_append_add [of "b 0 @ b 1 @ b 2" "b 3", where 'a = 64] by (simp add: add_ac)
    with 3 n len u show ?thesis
      by (simp add: extractMaskForMappedInput_def ob l px pc ucast_of_bits Let_def del: One_nat_def)
  qed
qed

section \<open>The positions of a multi mask and its invariant\<close>

abbreviation mm_pos :: "MultiMaskPartialKeyMapping \<Rightarrow> nat \<Rightarrow> nat" where
  "mm_pos m j \<equiv> unat (mExtractionPositions m ! j)"

definition mm_positions :: "MultiMaskPartialKeyMapping \<Rightarrow> nat list" where
  "mm_positions m = map (abs_bit (mm_pos m)) (onesb (mExtractionData m))"

definition mm_bits :: "MultiMaskPartialKeyMapping \<Rightarrow> nat set" where
  "mm_bits m = set (mm_positions m)"

text \<open>
  The bytes in use come first, with ascending positions and at least one bit each; all others are
  zero in both arrays.
\<close>

definition mm_shape :: "nat \<Rightarrow> MultiMaskPartialKeyMapping \<Rightarrow> bool" where
  "mm_shape n m \<longleftrightarrow> n \<in> {1, 2, 4} \<and> length (mExtractionPositions m) = 8 * n \<and>
     length (mExtractionData m) = 8 * n \<and> 1 \<le> mNumberExtractionBytes m \<and> mNumberExtractionBytes m \<le> 8 * n \<and>
     (\<forall>i < mNumberExtractionBytes m. mExtractionData m ! i \<noteq> 0) \<and>
     (\<forall>i < 8 * n. mNumberExtractionBytes m \<le> i \<longrightarrow> mExtractionData m ! i = 0 \<and> mExtractionPositions m ! i = 0) \<and>
     sorted_wrt (<) (take (mNumberExtractionBytes m) (mExtractionPositions m))"

definition mm_wf :: "nat \<Rightarrow> MultiMaskPartialKeyMapping \<Rightarrow> bool" where
  "mm_wf n m \<longleftrightarrow> mm_shape n m \<and> mNumberKeyBits m = length (mm_positions m) \<and>
     mMostSignificantDiscriminativeBitIndex m = Min (mm_bits m) \<and>
     mLeastSignificantDiscriminativeBitIndex m = Max (mm_bits m)"

definition mm_valid :: "nat \<Rightarrow> MultiMaskPartialKeyMapping \<Rightarrow> bool" where
  "mm_valid n m \<longleftrightarrow> mm_wf n m \<and> mNumberKeyBits m \<le> 32"

text \<open>The bytes a key must have.\<close>

definition mm_reads :: "MultiMaskPartialKeyMapping \<Rightarrow> nat" where
  "mm_reads m = mm_pos m (mNumberExtractionBytes m - 1) + 1"

lemma mm_shapeD:
  assumes "mm_shape n m"
  shows "n \<in> {1, 2, 4}" "length (mExtractionPositions m) = 8 * n" "length (mExtractionData m) = 8 * n"
    "1 \<le> mNumberExtractionBytes m" "mNumberExtractionBytes m \<le> 8 * n"
    "\<And>i. i < mNumberExtractionBytes m \<Longrightarrow> mExtractionData m ! i \<noteq> 0"
    "\<And>i. i < 8 * n \<Longrightarrow> mNumberExtractionBytes m \<le> i \<Longrightarrow> mExtractionData m ! i = 0 \<and> mExtractionPositions m ! i = 0"
    "\<And>i j. i < j \<Longrightarrow> j < mNumberExtractionBytes m \<Longrightarrow> mm_pos m i < mm_pos m j"
  using assms by (auto simp: mm_shape_def sorted_wrt_iff_nth_less word_less_nat_alt)

lemma mm_pos_mono:
  assumes "mm_shape n m" "i \<le> j" "j < mNumberExtractionBytes m" shows "mm_pos m i \<le> mm_pos m j"
  using mm_shapeD(8) [OF assms(1), of i j] assms(2,3) by (cases "i = j") auto

lemma onesb_used:
  assumes "mm_shape n m" and "bitb (mExtractionData m) i"
  shows "i div 8 < mNumberExtractionBytes m" "i < 8 * (8 * n)"
proof -
  note s = mm_shapeD [OF assms(1)]
  show i: "i < 8 * (8 * n)" using assms(2) s(3) by (simp add: bitb_def)
  then have "i div 8 < 8 * n" by (simp add: less_mult_imp_div_less mult.commute)
  moreover have "mExtractionData m ! (i div 8) \<noteq> 0" using assms(2) by (auto simp: bitb_def)
  ultimately show "i div 8 < mNumberExtractionBytes m" using s(7) by (meson not_less)
qed

lemma mm_pos_bound:
  assumes "mm_shape n m" "i < mNumberExtractionBytes m" shows "mm_pos m i < mm_reads m"
  using mm_pos_mono [OF assms(1), of i "mNumberExtractionBytes m - 1"] assms(2)
  by (simp add: mm_reads_def less_Suc_eq_le)

lemma position_byte [simp]:
  "i < length (mExtractionPositions m) \<Longrightarrow> mm_getExtractionBytePosition m i = Inr (mExtractionPositions m ! i)"
  by (simp add: mm_getExtractionBytePosition_def byte_at_def nth_append)

lemma zeroInitializedArray_eq [simp]: "zeroInitializedArray n = replicate (8 * n) 0"
proof -
  have "bytes64 0 = replicate 8 0"
    by (rule nth_equalityI) (auto simp: word_bits intro: bit_word_eqI)
  then show ?thesis
    by (induction n) (simp_all add: zeroInitializedArray_def replicate_add [symmetric] add.commute)
qed

text \<open>A loop that fills an array byte by byte.\<close>

lemma rfold_fill:
  assumes "k \<le> length xs"
    and "\<And>i ys. i < k \<Longrightarrow> length ys = length xs \<Longrightarrow> ys ! i = xs ! i \<Longrightarrow> step i ys = Inr (ys [i := f i])"
  shows "rfold step [0..<k] xs = Inr (map f [0..<k] @ drop k xs)"
  using assms
proof (induction k)
  case (Suc k)
  have "rfold step [0..<k] xs = Inr (map f [0..<k] @ drop k xs)" using Suc.prems by (intro Suc.IH) auto
  moreover have "step k (map f [0..<k] @ drop k xs) = Inr ((map f [0..<k] @ drop k xs) [k := f k])"
    using Suc.prems by (intro Suc.prems(2)) (simp_all add: nth_append)
  moreover have "(map f [0..<k] @ drop k xs) [k := f k] = map f [0..<Suc k] @ drop (Suc k) xs"
    using Suc.prems(1) by (simp add: list_update_append Cons_nth_drop_Suc [symmetric])
  ultimately show ?case by (simp add: rfold_append)
qed simp

text \<open>What a mapping computes from an array whose bytes in use are given by a function.\<close>

lemma mapped_bits:
  assumes "mm_shape n m" and few: "length (mm_positions m) \<le> 32"
    and "\<And>i. bitb (mExtractionData m) i \<Longrightarrow> bit (f (i div 8)) (i mod 8) = P (abs_bit (mm_pos m) i)"
  shows "extractMaskForMappedInput n m
      (map f [0..<mNumberExtractionBytes m] @ drop (mNumberExtractionBytes m) (replicate (8 * n) 0)) =
    Inr (of_bits (map P (mm_positions m)))"
proof -
  note s = mm_shapeD [OF assms(1)]
  let ?mapped = "map f [0..<mNumberExtractionBytes m] @ drop (mNumberExtractionBytes m) (replicate (8 * n) 0)"
  have "bitb ?mapped i = P (abs_bit (mm_pos m) i)" if "bitb (mExtractionData m) i" for i
    using onesb_used [OF assms(1) that] s(5) assms(3) [OF that] by (simp add: bitb_def nth_append)
  then have eq: "map (bitb ?mapped) (onesb (mExtractionData m)) = map P (mm_positions m)"
    by (simp add: mm_positions_def)
  have "length ?mapped = 8 * n" using s(5) by simp
  moreover have "length (onesb (mExtractionData m)) \<le> 32" using few by (simp add: mm_positions_def)
  ultimately show ?thesis unfolding eq [symmetric] by (rule extractMaskForMappedInput_bits [OF s(1,3)])
qed

lemma mm_extract_law:
  assumes "mm_valid n m" and "mm_reads m \<le> length bs"
  shows "mm_extractMask n m bs = Inr (of_bits (map (key_bit bs) (mm_positions m)))"
proof -
  have sh: "mm_shape n m" and few: "length (mm_positions m) \<le> 32" using assms(1) by (auto simp: mm_valid_def mm_wf_def)
  note s = mm_shapeD [OF sh]
  have "mapInput n m bs = Inr (map (\<lambda>i. bs ! mm_pos m i) [0..<mNumberExtractionBytes m] @
      drop (mNumberExtractionBytes m) (replicate (8 * n) 0))"
    unfolding mapInput_def zeroInitializedArray_eq
  proof (rule rfold_fill)
    fix i and ys :: "u8 list" assume i: "i < mNumberExtractionBytes m" "length ys = length (replicate (8 * n) (0 :: u8))"
    have "mm_pos m i < length bs" using mm_pos_bound [OF sh i(1)] assms(2) by simp
    with i s(2,5) show "rbind (mm_getExtractionBytePosition m i) (\<lambda>position.
        rbind (byte_at bs (unat position)) (\<lambda>b. setExtractionByteAt ys i b)) = Inr (ys [i := bs ! mm_pos m i])"
      by (simp add: byte_at_def setExtractionByteAt_def)
  qed (use s(5) in simp)
  moreover have "bit (bs ! mm_pos m (i div 8)) (i mod 8) = key_bit bs (abs_bit (mm_pos m) i)" for i
    by (simp add: key_bit_abs_bit)
  ultimately show ?thesis unfolding mm_extractMask_def using mapped_bits [OF sh few] by simp
qed

interpretation multi_mask: partial_key_mapping "mm_extractMask n" mm_positions mm_reads "mm_valid n" for n
  by unfold_locales (simp_all add: mm_extract_law mm_valid_def mm_wf_def)

section \<open>Masks over the partial key\<close>

lemma bit_all_ones_byte: "j < 8 \<Longrightarrow> bit (0xFF :: u8) j" and bit_low_byte: "bit (0xFF :: u32) j \<longleftrightarrow> j < 8"
proof -
  have "(0xFF :: u8) = mask 8" "(0xFF :: u32) = mask 8" by (simp_all add: mask_eq_exp_minus_1)
  note eq = this
  show "j < 8 \<Longrightarrow> bit (0xFF :: u8) j" unfolding eq(1) bit_mask_iff by simp
  show "bit (0xFF :: u32) j \<longleftrightarrow> j < 8" unfolding eq(2) bit_mask_iff by auto
qed

lemma bit_prefix_byte:
  assumes "r < 8" "j < 8"
  shows "bit (ucast (push_bit (8 - r) (0xFF :: u32)) :: u8) j \<longleftrightarrow> 7 - j < r"
proof -
  have "bit (ucast (push_bit (8 - r) (0xFF :: u32)) :: u8) j \<longleftrightarrow> 8 - r \<le> j \<and> j - (8 - r) < 8"
    unfolding bit_unsigned_iff bit_push_bit_iff bit_low_byte using assms by auto
  also have "\<dots> \<longleftrightarrow> 7 - j < r" using assms by auto
  finally show ?thesis .
qed

text \<open>The mask of the bits before a discriminative bit.\<close>

lemma mm_prefix_bits_mask:
  assumes "mm_valid n m" and "dbit_for d k"
  shows "mm_getPrefixBitsMask n m d = Inr (of_bits (map (\<lambda>j. j < k) (mm_positions m)))"
proof -
  have sh: "mm_shape n m" and few: "length (mm_positions m) \<le> 32" using assms(1) by (auto simp: mm_valid_def mm_wf_def)
  note s = mm_shapeD [OF sh]
  have d: "unat (mByteIndex d) = k div 8" "unat (mByteRelativeBitIndex d) = k mod 8" "k mod 8 < 8"
    using assms(2) by (simp_all add: dbit_for_def)
  define top where "top = (ucast (push_bit (8 - k mod 8) (0xFF :: u32)) :: u8)"
  define f where "f i = (if mm_pos m i < k div 8 then 0xFF else if mm_pos m i = k div 8 then top else 0)" for i
  have lp: "rfold (\<lambda>i prefixBits. rbind (mm_getExtractionBytePosition m i) (\<lambda>byteIndex.
             if unat byteIndex < unat (mByteIndex d) then setExtractionByteAt prefixBits i 0xFF
             else if unat byteIndex = unat (mByteIndex d)
                  then setExtractionByteAt prefixBits i top
                  else Inr prefixBits))
             [0..<mNumberExtractionBytes m] (replicate (8 * n) 0) =
      Inr (map f [0..<mNumberExtractionBytes m] @ drop (mNumberExtractionBytes m) (replicate (8 * n) 0))"
  proof (rule rfold_fill)
    fix i and ys :: "u8 list"
    assume i: "i < mNumberExtractionBytes m" "length ys = length (replicate (8 * n) (0 :: u8))"
      "ys ! i = replicate (8 * n) 0 ! i"
    have "ys [i := 0] = ys" using i s(5) by (intro list_update_same_conv [THEN iffD2]) auto
    with i s(2,5) show "rbind (mm_getExtractionBytePosition m i) (\<lambda>byteIndex.
             if unat byteIndex < unat (mByteIndex d) then setExtractionByteAt ys i 0xFF
             else if unat byteIndex = unat (mByteIndex d)
                  then setExtractionByteAt ys i top
                  else Inr ys) = Inr (ys [i := f i])"
      by (simp add: setExtractionByteAt_def f_def d)
  qed (use s(5) in simp)
  have b: "bit (f (i div 8)) (i mod 8) \<longleftrightarrow> abs_bit (mm_pos m) i < k" for i
  proof -
    have "abs_bit (mm_pos m) i < 8 * (k div 8) + k mod 8 \<longleftrightarrow>
        mm_pos m (i div 8) < k div 8 \<or> mm_pos m (i div 8) = k div 8 \<and> 7 - i mod 8 < k mod 8"
      unfolding abs_bit_def by (rule lex_index) (simp_all add: d(3))
    then have "abs_bit (mm_pos m) i < k \<longleftrightarrow>
        mm_pos m (i div 8) < k div 8 \<or> mm_pos m (i div 8) = k div 8 \<and> 7 - i mod 8 < k mod 8" by simp
    then show ?thesis
      using bit_prefix_byte [OF d(3), of "i mod 8"] bit_all_ones_byte [of "i mod 8"]
      by (auto simp: f_def top_def)
  qed
  have "k mod 8 \<le> 8" using d(3) by simp
  then show ?thesis
    unfolding mm_getPrefixBitsMask_def d(2) zeroInitializedArray_eq top_def [symmetric]
    using lp mapped_bits [OF sh few b] by simp
qed

lemma mm_getAllMaskBits_all:
  assumes "mm_valid n m"
  shows "mm_getAllMaskBits m = Inr (of_bits (map (\<lambda>_. True) (mm_positions m)))"
proof -
  have n: "mNumberKeyBits m = length (mm_positions m)" "mNumberKeyBits m \<le> 32"
    using assms by (auto simp: mm_valid_def mm_wf_def)
  have "mm_positions m \<noteq> []"
  proof -
    have sh: "mm_shape n m" using assms by (auto simp: mm_valid_def mm_wf_def)
    note s = mm_shapeD [OF sh]
    have "mExtractionData m ! 0 \<noteq> 0" using s(4,6) by simp
    then obtain j where "bit (mExtractionData m ! 0) j" by (auto simp: bit_eq_iff)
    moreover from this have "j < 8" by (auto dest: bit_imp_le_length)
    ultimately have "bitb (mExtractionData m) j" using s(1,3) by (auto simp: bitb_def)
    then show ?thesis by (auto simp: mm_positions_def simp flip: set_empty)
  qed
  with n have lt: "32 - mNumberKeyBits m < 32" by auto
  have ml: "drop_bit (32 - N) (- 1 :: u32) = mask N" if "N \<le> 32" for N
  proof (rule bit_word_eqI)
    fix i assume "i < LENGTH(32)"
    then have "32 - N + i < 32 \<longleftrightarrow> i < N" using that by auto
    then show "bit (drop_bit (32 - N) (- 1 :: u32)) i \<longleftrightarrow> bit (mask N :: u32) i"
      using that by (simp add: bit_drop_bit_eq bit_mask_iff)
  qed
  have "mask (length (mm_positions m)) = (of_bits (map (\<lambda>_. True) (mm_positions m)) :: u32)"
    by (rule bit_word_eqI) (auto simp: word_bits bit_mask_iff)
  then show ?thesis using n lt ml [OF n(2)] by (simp only: mm_getAllMaskBits_def sub32_small shift32_simps) simp
qed

end
