(* ===== verification/Multi_Mask_Insert.thy ===== *)
theory Multi_Mask_Insert
  imports Multi_Mask_Extract
begin

text \<open>
  Adding a discriminative bit to a mapping of any kind keeps the mapping well-formed and adds
  exactly this bit, whichever of the five constructors the code chooses.
\<close>

unbundle bit_operations_syntax

section \<open>A multi mask as the list of its bytes\<close>

text \<open>
  The bytes in use as pairs of a position and an extraction byte, the mapping they make, and the
  key bits they stand for.
\<close>

definition byte_bits :: "(u8 \<times> u8) list \<Rightarrow> nat set" where
  "byte_bits es = {8 * unat p + (7 - j) | p b j. (p, b) \<in> set es \<and> bit b j}"

definition bytes_ok :: "nat \<Rightarrow> (u8 \<times> u8) list \<Rightarrow> bool" where
  "bytes_ok n es \<longleftrightarrow> n \<in> {1, 2, 4} \<and> es \<noteq> [] \<and> length es \<le> 8 * n \<and> sorted_wrt (<) (map fst es) \<and>
     (\<forall>(p, b) \<in> set es. b \<noteq> 0)"

definition pad :: "nat \<Rightarrow> u8 list \<Rightarrow> u8 list" where
  "pad n xs = xs @ replicate (8 * n - length xs) 0"

definition mm_of :: "nat \<Rightarrow> nat \<Rightarrow> nat \<Rightarrow> nat \<Rightarrow> (u8 \<times> u8) list \<Rightarrow> MultiMaskPartialKeyMapping" where
  "mm_of n msb lsb numberBits es =
     multi_fields msb lsb (length es) numberBits (pad n (map fst es)) (pad n (map snd es))"

lemma byte_bits_simps [simp]:
  "byte_bits [] = {}"
  "byte_bits (e # es) = {8 * unat (fst e) + (7 - j) | j. bit (snd e) j} \<union> byte_bits es"
  "byte_bits (es @ es') = byte_bits es \<union> byte_bits es'"
  by (simp add: byte_bits_def, cases e, auto simp: byte_bits_def)

lemma length_pad [simp]: "length xs \<le> 8 * n \<Longrightarrow> length (pad n xs) = 8 * n"
  by (simp add: pad_def)

lemma nth_pad: "i < 8 * n \<Longrightarrow> pad n xs ! i = (if i < length xs then xs ! i else 0)"
  by (auto simp: pad_def nth_append)

lemma mm_of_fields [simp]:
  "mMostSignificantDiscriminativeBitIndex (mm_of n msb lsb c es) = msb"
  "mLeastSignificantDiscriminativeBitIndex (mm_of n msb lsb c es) = lsb"
  "mNumberExtractionBytes (mm_of n msb lsb c es) = length es"
  "mNumberKeyBits (mm_of n msb lsb c es) = c"
  "mExtractionPositions (mm_of n msb lsb c es) = pad n (map fst es)"
  "mExtractionData (mm_of n msb lsb c es) = pad n (map snd es)"
  by (simp_all add: mm_of_def multi_fields_def)

lemma mm_of_shape: "bytes_ok n es \<Longrightarrow> mm_shape n (mm_of n msb lsb c es)"
proof -
  assume ok: "bytes_ok n es"
  then have len: "length es \<le> 8 * n" by (simp add: bytes_ok_def)
  have "pad n (map snd es) ! i \<noteq> 0" if "i < length es" for i
  proof -
    obtain q b where "es ! i = (q, b)" by fastforce
    moreover from this have "b \<noteq> 0" using ok nth_mem [OF that] by (auto simp: bytes_ok_def)
    ultimately show ?thesis using that len by (simp add: nth_pad)
  qed
  moreover have "take (length es) (pad n (map fst es)) = map fst es" by (simp add: pad_def)
  ultimately show ?thesis
    using ok len unfolding mm_shape_def mm_of_fields
    by (simp add: bytes_ok_def nth_pad Suc_le_eq)
qed

lemma mm_of_exists:
  assumes "mm_shape n m"
  obtains es where "bytes_ok n es"
    "m = mm_of n (mMostSignificantDiscriminativeBitIndex m) (mLeastSignificantDiscriminativeBitIndex m)
           (mNumberKeyBits m) es"
proof
  let ?k = "mNumberExtractionBytes m"
  let ?es = "zip (take ?k (mExtractionPositions m)) (take ?k (mExtractionData m))"
  note s = mm_shapeD [OF assms]
  have len: "length ?es = ?k" using s(2,3,5) by simp
  have fs: "map fst ?es = take ?k (mExtractionPositions m)" "map snd ?es = take ?k (mExtractionData m)"
    using s(2,3) by simp_all
  show "bytes_ok n ?es"
    using s(1,4,5,6) assms len unfolding bytes_ok_def fs mm_shape_def
    by (auto simp: set_zip)
  have "pad n (map fst ?es) = mExtractionPositions m" "pad n (map snd ?es) = mExtractionData m"
    unfolding fs using s(2,3,5,7) by (auto intro!: nth_equalityI simp: nth_pad)
  then show "m = mm_of n (mMostSignificantDiscriminativeBitIndex m) (mLeastSignificantDiscriminativeBitIndex m)
           (mNumberKeyBits m) ?es"
    using len by (simp add: mm_of_def multi_fields_def)
qed

lemma distinct_mm_positions:
  assumes "mm_shape n m" shows "distinct (mm_positions m)"
proof -
  have "inj_on (mm_pos m) {..<mNumberExtractionBytes m}"
    using mm_shapeD(8) [OF assms] by (intro linorder_inj_onI) (auto simp: less_le)
  then have "inj_on (abs_bit (mm_pos m)) {..<8 * mNumberExtractionBytes m}" by (rule abs_bit_inj)
  moreover have "set (onesb (mExtractionData m)) \<subseteq> {..<8 * mNumberExtractionBytes m}"
    using onesb_used [OF assms] by (auto simp: div_less_iff_less_mult mult.commute)
  ultimately show ?thesis by (auto simp: mm_positions_def distinct_map intro: inj_on_subset)
qed

lemma mm_positions_card: "mm_shape n m \<Longrightarrow> length (mm_positions m) = card (mm_bits m)"
  using distinct_mm_positions distinct_card by (fastforce simp: mm_bits_def)

lemma mm_bits_of:
  assumes "bytes_ok n es" shows "mm_bits (mm_of n msb lsb c es) = byte_bits es"
proof -
  have len: "length es \<le> 8 * n" using assms by (simp add: bytes_ok_def)
  have b: "bitb (pad n (map snd es)) i \<longleftrightarrow> i div 8 < length es \<and> bit (snd (es ! (i div 8))) (i mod 8)" for i
  proof -
    have "i div 8 < length es \<Longrightarrow> i < 8 * (8 * n)" using len by (simp add: div_less_iff_less_mult)
    moreover have "i < 8 * (8 * n) \<Longrightarrow> i div 8 < 8 * n" by (simp add: div_less_iff_less_mult mult.commute)
    ultimately show ?thesis using len by (auto simp: bitb_def nth_pad split: if_splits)
  qed
  have p: "abs_bit (mm_pos (mm_of n msb lsb c es)) i = 8 * unat (fst (es ! (i div 8))) + (7 - i mod 8)"
    if "i div 8 < length es" for i
    using that len by (simp add: abs_bit_def nth_pad)
  show ?thesis
  proof (intro set_eqI iffI)
    fix k assume "k \<in> mm_bits (mm_of n msb lsb c es)"
    then obtain i where i: "i div 8 < length es" "bit (snd (es ! (i div 8))) (i mod 8)"
      "k = 8 * unat (fst (es ! (i div 8))) + (7 - i mod 8)"
      using p by (auto simp: mm_bits_def mm_positions_def b)
    then have "(fst (es ! (i div 8)), snd (es ! (i div 8))) \<in> set es" by simp
    with i(2,3) show "k \<in> byte_bits es" unfolding byte_bits_def by blast
  next
    fix k assume "k \<in> byte_bits es"
    then obtain q x j where "(q, x) \<in> set es" "bit x j" and k: "k = 8 * unat q + (7 - j)"
      by (auto simp: byte_bits_def)
    moreover from \<open>bit x j\<close> have "j < 8" by (auto dest: bit_imp_le_length)
    ultimately obtain i where i: "i < length es" "es ! i = (q, x)" "bit x j" "j < 8" by (auto simp: in_set_conv_nth)
    from i(4) have d: "(8 * i + j) div 8 = i" "(8 * i + j) mod 8 = j" by simp_all
    have "8 * i + j \<in> set (onesb (pad n (map snd es)))" using i by (simp add: b d)
    moreover have "k = abs_bit (mm_pos (mm_of n msb lsb c es)) (8 * i + j)"
      using i k p [of "8 * i + j"] unfolding d by simp
    ultimately show "k \<in> mm_bits (mm_of n msb lsb c es)" unfolding mm_bits_def mm_positions_def by simp
  qed
qed

lemma byte_bits_nonempty:
  assumes "bytes_ok n es" shows "byte_bits es \<noteq> {}" "finite (byte_bits es)"
proof -
  from assms obtain p b es' where es: "es = (p, b) # es'" "b \<noteq> 0" by (cases es) (auto simp: bytes_ok_def)
  then obtain j where "bit b j" by (auto simp: bit_eq_iff)
  with es show "byte_bits es \<noteq> {}" by auto
  show "finite (byte_bits es)" using mm_bits_of [OF assms, of 0 0 0] by (metis List.finite_set mm_bits_def)
qed

text \<open>A mapping made of well-formed bytes is well-formed if the counters fit the bits.\<close>

lemma mm_of_wf:
  "bytes_ok n es \<Longrightarrow> mm_wf n (mm_of n msb lsb c es) \<longleftrightarrow>
     c = card (byte_bits es) \<and> msb = Min (byte_bits es) \<and> lsb = Max (byte_bits es)"
  using mm_positions_card [OF mm_of_shape, of n es msb lsb c]
  by (simp add: mm_wf_def mm_of_shape mm_bits_of)

section \<open>Moving bytes up\<close>

text \<open>
  The lanes from position \<open>length xs\<close> on are moved up by one; a register of zeros behind makes room.
\<close>

lemma moved_register_eq:
  assumes r: "r = xs @ ys @ replicate c 0" "length r \<in> {8, 16, 32}" "0 < c"
    and m: "length msk = length r" "\<And>i. i < length xs \<Longrightarrow> msk ! i = 0"
      "\<And>i. length xs \<le> i \<Longrightarrow> i < length xs + length ys \<Longrightarrow> msk ! i = - 1"
  shows "moved_register msk r = xs @ 0 # ys @ replicate (c - 1) 0"
proof (rule nth_equalityI)
  have len: "length (binaryAnd msk r) = length r" using m(1) by simp
  then have sh: "shiftLeftOneByte (binaryAnd msk r) = 0 # butlast (binaryAnd msk r)"
    using r(2) by (intro shiftLeftOneByte_eq) simp
  have lr: "length r = length xs + length ys + c" using r(1) by simp
  have ls: "length (shiftLeftOneByte (binaryAnd msk r)) = length r" using r(2) by (auto simp: sh m(1))
  show ll: "length (moved_register msk r) = length (xs @ 0 # ys @ replicate (c - 1) 0)"
    using ls m(1) lr r(3) by (simp add: moved_register_def)
  fix i assume "i < length (moved_register msk r)"
  then have i: "i < length r" using ll lr r(3) by simp
  have "moved_register msk r ! i = (NOT (msk ! i) AND r ! i) OR shiftLeftOneByte (binaryAnd msk r) ! i"
    using i m(1) ls by (simp add: moved_register_def)
  also have "shiftLeftOneByte (binaryAnd msk r) ! i = (if i = 0 then 0 else msk ! (i - 1) AND r ! (i - 1))"
    using i m(1) by (auto simp: sh nth_Cons' nth_butlast)
  finally have eq: "moved_register msk r ! i =
      (NOT (msk ! i) AND r ! i) OR (if i = 0 then 0 else msk ! (i - 1) AND r ! (i - 1))" .
  have z: "r ! j = 0" if "length xs + length ys \<le> j" "j < length r" for j
    using that lr unfolding r(1) nth_append by auto
  consider "i < length xs" | "i = length xs" | "length xs < i" "i \<le> length xs + length ys" | "length xs + length ys < i"
    by linarith
  then show "moved_register msk r ! i = (xs @ 0 # ys @ replicate (c - 1) 0) ! i"
  proof cases
    case 1
    then show ?thesis using eq m(2) [of i] m(2) [of "i - 1"] by (simp add: r(1) nth_append)
  next
    case 2
    have "(NOT (msk ! i) AND r ! i) = 0" using 2 m(3) [of i] z [of i] i by (cases "ys = []") auto
    moreover have "i \<noteq> 0 \<Longrightarrow> msk ! (i - 1) = 0" using 2 m(2) [of "i - 1"] by simp
    ultimately show ?thesis using eq 2 by (simp add: nth_append)
  next
    case 3
    define j where "j = i - Suc (length xs)"
    have j: "i = Suc (length xs + j)" "j < length ys" using 3 by (simp_all add: j_def)
    have "(NOT (msk ! i) AND r ! i) = 0" using 3 m(3) [of i] z [of i] i by (cases "i = length xs + length ys") auto
    moreover have "msk ! (i - 1) = - 1" using 3 m(3) [of "i - 1"] by simp
    moreover have "r ! (i - 1) = ys ! j" using j by (simp add: r(1) nth_append)
    ultimately show ?thesis using eq j by (simp add: nth_append)
  next
    case 4
    define j where "j = i - length xs - Suc (length ys)"
    have j: "i = length xs + Suc (length ys + j)" using 4 by (simp add: j_def)
    show ?thesis using eq z [of i] z [of "i - 1"] i lr 4 by (simp add: nth_append j)
  qed
qed

section \<open>The place of a byte\<close>

lemma bytes_split:
  assumes "bytes_ok n es"
  obtains lo hi where "es = lo @ hi" "\<And>e. e \<in> set lo \<Longrightarrow> fst e < q" "\<And>e. e \<in> set hi \<Longrightarrow> q \<le> fst e"
proof -
  have "\<exists>lo hi. es = lo @ hi \<and> (\<forall>e \<in> set lo. fst e < q) \<and> (\<forall>e \<in> set hi. q \<le> fst e)"
    if "sorted_wrt (<) (map fst es)" for es :: "(u8 \<times> u8) list"
    using that
  proof (induction es)
    case (Cons e es)
    then obtain lo hi where lh: "es = lo @ hi" "\<forall>e \<in> set lo. fst e < q" "\<forall>e \<in> set hi. q \<le> fst e" by auto
    show ?case
    proof (cases "fst e < q")
      case True
      with lh show ?thesis by (intro exI [of _ "e # lo"] exI [of _ hi]) simp
    next
      case False
      then have "\<forall>e' \<in> set es. q \<le> fst e'" using Cons.prems by fastforce
      with False show ?thesis by (intro exI [of _ "[]"] exI [of _ "e # es"]) (simp add: not_less)
    qed
  qed simp
  moreover have "sorted_wrt (<) (map fst es)" using assms by (simp add: bytes_ok_def)
  ultimately show thesis using that by blast
qed

lemma place_mask:
  assumes ok: "bytes_ok n (lo @ hi)" and lt: "\<And>e. e \<in> set lo \<Longrightarrow> fst e < q" "\<And>e. e \<in> set hi \<Longrightarrow> q \<le> fst e"
    and q: "of_nat b = q"
  obtains msk where "getMaskForPositionsLargerOrEqualTo n (mm_of n msb lsb c (lo @ hi)) b = Inr msk"
    "length msk = 8 * n" "\<And>i. i < length lo \<Longrightarrow> msk ! i = 0"
    "\<And>i. length lo \<le> i \<Longrightarrow> i < length lo + length hi \<Longrightarrow> msk ! i = - 1"
    "length lo + length hi < 32 \<Longrightarrow>
       tzcnt (moveMask8 msk OR push_bit (length lo + length hi) (- 1)) = length lo"
proof -
  let ?p = "pad n (map fst (lo @ hi))"
  let ?msk = "cmpeq_epi8 ?p (max_epu8 (set1_epi8 (8 * n) q) ?p)"
  have len: "length lo + length hi \<le> 8 * n" "length ?p = 8 * n" using ok by (simp_all add: bytes_ok_def)
  have msk: "?msk ! i = (if q \<le> ?p ! i then - 1 else 0)" if "i < 8 * n" for i
    using that len by (simp add: max_def)
  have lo: "?msk ! i = 0" if "i < length lo" for i
    using that len msk [of i] lt(1) [of "lo ! i"] by (simp add: nth_pad nth_append not_le)
  have hi: "?msk ! i = - 1" if "length lo \<le> i" "i < length lo + length hi" for i
  proof -
    have "i - length lo < length hi" using that by linarith
    then have "q \<le> fst (hi ! (i - length lo))" using lt(2) nth_mem by blast
    then show ?thesis using that len msk [of i] by (simp add: nth_pad nth_append)
  qed
  have pb: "bit (push_bit L (- 1 :: u32)) j \<longleftrightarrow> L \<le> j \<and> j < 32" for L j unfolding bit_push_bit_iff by auto
  have "tzcnt (moveMask8 ?msk OR push_bit (length lo + length hi) (- 1)) = length lo" if "length lo + length hi < 32"
  proof (rule tzcnt_eqI)
    have "bit (moveMask8 ?msk) (length lo) \<or> hi = []"
      using that len hi [of "length lo"] by (cases hi) (auto simp: moveMask8_def word_bits)
    then show "bit (moveMask8 ?msk OR push_bit (length lo + length hi) (- 1)) (length lo)"
      unfolding bit_or_iff pb using that by auto
    show "\<not> bit (moveMask8 ?msk OR push_bit (length lo + length hi) (- 1)) j" if "j < length lo" for j
      unfolding bit_or_iff pb using that lo [of j] by (simp add: moveMask8_def word_bits)
  qed
  moreover have "getMaskForPositionsLargerOrEqualTo n (mm_of n msb lsb c (lo @ hi)) b = Inr ?msk"
    using len(2) q by (simp add: getMaskForPositionsLargerOrEqualTo_def getPositionsRegister_def)
  ultimately show thesis using that [of ?msk] len(2) lo hi by simp
qed

section \<open>The constructors\<close>

lemma extraction_byte:
  assumes "dbit_for d k" shows "getExtractionByte d = Inr (push_bit (7 - k mod 8) 1)"
  using assms by (simp add: getExtractionByte_def dbit_for_def)

text \<open>The position byte and the extraction byte of a discriminative bit.\<close>

definition entry_of :: "nat \<Rightarrow> u8 \<times> u8" where
  "entry_of k = (of_nat (k div 8), push_bit (7 - k mod 8) 1)"

lemma dbit_position:
  assumes "dbit_for d k"
  shows "ucast (mByteIndex d) = fst (entry_of k)" "of_nat (unat (mByteIndex d)) = fst (entry_of k)"
    "unat (fst (entry_of k)) = k div 8" "unat (mByteIndex d) = k div 8"
proof -
  have b: "unat (mByteIndex d) = k div 8" "k div 8 < 256" using assms by (auto simp: dbit_for_def)
  show "unat (mByteIndex d) = k div 8" by (rule b(1))
  show "of_nat (unat (mByteIndex d)) = fst (entry_of k)" by (simp add: entry_of_def b)
  show "unat (fst (entry_of k)) = k div 8" using b(2) by (simp add: entry_of_def unat_of_nat_small)
  show "ucast (mByteIndex d) = fst (entry_of k)"
    by (simp add: entry_of_def b(1) [symmetric] of_nat_unat)
qed

lemma shift_mm_of:
  assumes ok: "bytes_ok n (lo @ hi)" "length (lo @ hi) < 8 * n" and d: "dbit_for d k"
    and m: "length msk = 8 * n" "\<And>i. i < length lo \<Longrightarrow> msk ! i = 0"
      "\<And>i. length lo \<le> i \<Longrightarrow> i < length lo + length hi \<Longrightarrow> msk ! i = - 1"
    and c: "c < 65535"
  shows "MultiMask_shift n (mm_of n msb lsb c (lo @ hi)) d (length lo) msk =
    Inr (mm_of n (min msb k) (max lsb k) (c + 1) (lo @ entry_of k # hi))"
proof -
  have n: "8 * n \<in> {8, 16, 32}" using ok(1) by (auto simp: bytes_ok_def)
  have len: "length lo + length hi < 8 * n" using ok(2) by simp
  have mv: "moved_register msk (pad n (map f (lo @ hi))) = map f lo @ 0 # map f hi @ replicate (8 * n - Suc (length lo + length hi)) 0"
    for f :: "u8 \<times> u8 \<Rightarrow> u8"
    using moved_register_eq [of "pad n (map f (lo @ hi))" "map f lo" "map f hi" "8 * n - (length lo + length hi)" msk]
      len n m by (simp add: pad_def)
  have st: "store_register r (zero_register (8 * n)) = Inr r" if "length r = 8 * n" for r
    using that by (simp add: store_register_def)
  have upd: "(map f lo @ 0 # map f hi @ replicate (8 * n - Suc (length lo + length hi)) 0) [length lo := f (entry_of k)] =
      pad n (map f (lo @ entry_of k # hi))" for f :: "u8 \<times> u8 \<Rightarrow> u8"
    by (simp add: pad_def list_update_append)
  have u: "u16nat (length (lo @ hi) + 1) = length (lo @ entry_of k # hi)" "u16nat (c + 1) = c + 1"
    using len n c by auto
  have k: "unat (mAbsoluteBitIndex d) = k" using d by (simp add: dbit_for_def)
  have eb: "getExtractionByte d = Inr (snd (entry_of k))" using extraction_byte [OF d] by (simp add: entry_of_def)
  let ?A = "\<lambda>f. map f lo @ 0 # map f hi @ replicate (8 * n - Suc (length lo + length hi)) (0 :: u8)"
  have lA: "length (?A f) = 8 * n" for f using len by simp
  show ?thesis
    unfolding MultiMask_shift_def Let_def base_insert_def prod.case mm_of_fields fst_conv snd_conv k u
      getPositionsRegister_def getExtractionDataRegister_def setPositions_def setExtractionData_def
      setExtractionByte_def setExtractionBytePosition_def setExtractionByteAt_def dbit_position(1) [OF d] eb
    using len
    by (simp add: mv st lA upd multi_fields_def mm_of_def del: append_Cons append_assoc map_append)
qed

lemma bytes_ok_pads:
  assumes "bytes_ok n es"
  shows "length (pad n (map fst es)) = 8 * n" "length (pad n (map snd es)) = 8 * n" "n \<in> {1, 2, 4}"
  using assms by (simp_all add: bytes_ok_def)

lemma copy_eq:
  assumes "length (mExtractionPositions m) = 8 * n" "length (mExtractionData m) = 8 * n"
  shows "MultiMask_copy n m = Inr m"
proof -
  have "toRegister (8 * n) (mExtractionPositions m) = Inr (mExtractionPositions m)"
    "toRegister (8 * n) (mExtractionData m) = Inr (mExtractionData m)"
    "toRegister (16 * n) (mExtractionPositions m @ mExtractionData m) =
       Inr (mExtractionPositions m @ mExtractionData m)"
    using assms by simp_all
  then show ?thesis
    using assms by (cases "n = 4") (simp_all add: MultiMask_copy_def getPositionsRegister_def getExtractionDataRegister_def)
qed

lemma copy_mm_of:
  "bytes_ok n es \<Longrightarrow> MultiMask_copy n (mm_of n msb lsb c es) = Inr (mm_of n msb lsb c es)"
  using bytes_ok_pads [of n es] by (intro copy_eq) simp_all

lemma new_bit_iff:
  fixes x :: u8
  assumes "j < 8" shows "x XOR (x OR push_bit j 1) > 0 \<longleftrightarrow> \<not> bit x j"
proof -
  define w :: u8 where "w = push_bit j 1"
  have w: "bit w i \<longleftrightarrow> i = j" for i unfolding w_def bit_single using assms by auto
  have "x XOR (x OR w) = 0 \<longleftrightarrow> (\<forall>i < 8. bit (x XOR (x OR w)) i = bit (0 :: u8) i)"
    by (simp only: word_eq_iff_bits) simp
  also have "\<dots> \<longleftrightarrow> bit x j" using assms by (auto simp: bit_xor_iff bit_or_iff w)
  finally show ?thesis unfolding w_def by (simp only: word_neq_0_conv [symmetric])
qed

lemma same_mm_of:
  assumes ok: "bytes_ok n (lo @ (fst (entry_of k), x) # hi)" and d: "dbit_for d k" and c: "c < 65535"
  shows "MultiMask_same n (mm_of n msb lsb c (lo @ (fst (entry_of k), x) # hi)) d (length lo) =
    Inr (mm_of n (min msb k) (max lsb k) (c + of_bool (\<not> bit x (7 - k mod 8)))
          (lo @ (fst (entry_of k), x OR snd (entry_of k)) # hi))"
proof -
  let ?es = "lo @ (fst (entry_of k), x) # hi"
  have len: "length ?es \<le> 8 * n" using ok by (simp add: bytes_ok_def)
  have x: "pad n (map snd ?es) ! length lo = x" using len by (simp add: nth_pad nth_append)
  have k: "unat (mAbsoluteBitIndex d) = k" using d by (simp add: dbit_for_def)
  have eb: "getExtractionByte d = Inr (snd (entry_of k))" using extraction_byte [OF d] by (simp add: entry_of_def)
  have nb: "x XOR (x OR snd (entry_of k)) > 0 \<longleftrightarrow> \<not> bit x (7 - k mod 8)"
    unfolding entry_of_def snd_conv by (rule new_bit_iff) simp
  have upd: "(pad n (map snd ?es)) [length lo := x OR snd (entry_of k)] =
      pad n (map snd (lo @ (fst (entry_of k), x OR snd (entry_of k)) # hi))"
    by (simp add: pad_def list_update_append)
  have pf: "pad n (map fst ?es) = pad n (map fst (lo @ (fst (entry_of k), x OR snd (entry_of k)) # hi))" by simp
  have l: "length lo < length (pad n (map snd ?es))" using len by simp
  have u: "u16nat (c + of_bool (\<not> bit x (7 - k mod 8))) = c + of_bool (\<not> bit x (7 - k mod 8))" using c by simp
  show ?thesis
    unfolding MultiMask_same_def copy_mm_of [OF ok] rbind_simps mm_getExtractionByte_def byte_at_def mm_of_fields
      setExtractionByte_def setExtractionByteAt_def eb Let_def if_P [OF l] x nb upd k u
    unfolding mm_of_def multi_fields_def by (simp add: pf)
qed

lemma extend_mm_of:
  assumes ok: "bytes_ok n es" and n: "n \<in> {1, 2}"
  shows "MultiMask_extend (n * 2) (mm_of n msb lsb c es) = Inr (mm_of (n * 2) msb lsb c es)"
    and "bytes_ok (n * 2) es"
proof -
  have len: "length es \<le> 8 * n" using ok by (simp add: bytes_ok_def)
  have e: "convertWithZeroExtend (pad n xs) = pad (n * 2) xs" if "length xs \<le> 8 * n" for xs
    using that n convertWithZeroExtend_eq [of "pad n xs"] by (auto simp: pad_def replicate_add [symmetric])
  show "MultiMask_extend (n * 2) (mm_of n msb lsb c es) = Inr (mm_of (n * 2) msb lsb c es)"
    using len by (simp add: MultiMask_extend_def getPositionsRegister_def getExtractionDataRegister_def e
        mm_of_def multi_fields_def)
  show "bytes_ok (n * 2) es" using ok n len by (auto simp: bytes_ok_def)
qed

lemma grow_mm_of:
  assumes ok: "bytes_ok n (lo @ hi)" and n: "n \<in> {1, 2}" and d: "dbit_for d k"
    and m: "length msk = 8 * n" "\<And>i. i < length lo \<Longrightarrow> msk ! i = 0"
      "\<And>i. length lo \<le> i \<Longrightarrow> i < length lo + length hi \<Longrightarrow> msk ! i = - 1"
    and c: "c < 65535"
  shows "MultiMask_grow (n * 2) (mm_of n msb lsb c (lo @ hi)) d (length lo) msk =
    Inr (mm_of (n * 2) (min msb k) (max lsb k) (c + 1) (lo @ entry_of k # hi))"
proof -
  have len: "length (lo @ hi) \<le> 8 * n" using ok by (simp add: bytes_ok_def)
  have cm: "convertWithZeroExtend msk = msk @ replicate (8 * n) 0"
    using convertWithZeroExtend_eq [of msk] m(1) n by auto
  have nz: "0 < n" using n by auto
  show ?thesis
    unfolding MultiMask_grow_def extend_mm_of(1) [OF ok n] rbind_simps cm
    by (rule shift_mm_of [OF extend_mm_of(2) [OF ok n] _ d])
       (use len m nz c in \<open>simp_all add: nth_append\<close>)
qed

text \<open>A loop that writes entries one after the other.\<close>

lemma write_entries:
  assumes "i + length xs \<le> length (mExtractionPositions m)" "i + length xs \<le> length (mExtractionData m)"
    and "\<And>x j m. x \<in> set xs \<Longrightarrow> step x (j, m) =
       rbind (setExtractionBytePosition j (p x) m) (\<lambda>m'. rbind (setExtractionByte j (b x) m') (\<lambda>m''. Inr (Suc j, m'')))"
  shows "rfold step xs (i, m) = Inr (i + length xs,
    m \<lparr> mExtractionPositions := take i (mExtractionPositions m) @ map p xs @ drop (i + length xs) (mExtractionPositions m),
        mExtractionData := take i (mExtractionData m) @ map b xs @ drop (i + length xs) (mExtractionData m) \<rparr>)"
  using assms
proof (induction xs arbitrary: i m)
  case (Cons x xs)
  let ?m = "m \<lparr> mExtractionPositions := (mExtractionPositions m) [i := p x], mExtractionData := (mExtractionData m) [i := b x] \<rparr>"
  have "step x (i, m) = Inr (Suc i, ?m)"
    using Cons.prems(1,2) Cons.prems(3) [of x i m]
    by (simp add: setExtractionBytePosition_def setExtractionByte_def setExtractionByteAt_def)
  moreover have "rfold step xs (Suc i, ?m) = Inr (Suc i + length xs,
    ?m \<lparr> mExtractionPositions := take (Suc i) (mExtractionPositions ?m) @ map p xs @ drop (Suc i + length xs) (mExtractionPositions ?m),
        mExtractionData := take (Suc i) (mExtractionData ?m) @ map b xs @ drop (Suc i + length xs) (mExtractionData ?m) \<rparr>)"
    using Cons.prems by (intro Cons.IH) auto
  moreover have "take (Suc i) (xs' [i := y]) = take i xs' @ [y]" if "i < length xs'" for xs' and y :: u8
    using that by (simp add: take_Suc_conv_app_nth)
  ultimately show ?case using Cons.prems(1,2) by (simp add: drop_update_cancel)
qed simp

section \<open>From a single mask\<close>

text \<open>The bytes in use of a single mask.\<close>

definition sm_bytes :: "SingleMaskPartialKeyMapping \<Rightarrow> (u8 \<times> u8) list" where
  "sm_bytes m = map (\<lambda>i. (sm_getExtractionBytePosition m i, bytes64 (mSuccessiveExtractionMask m) ! i))
                  (ones (sm_getUsedBytesMask m))"

lemma bit_usedBytes: "bit (sm_getUsedBytesMask m) i \<longleftrightarrow> i < 8 \<and> bytes64 (mSuccessiveExtractionMask m) ! i \<noteq> 0"
proof -
  have z: "bytes64 0 ! i = 0" if "i < 8" using that by (auto intro: bit_word_eqI simp: word_bits)
  have m: "bit (movemask8 (cmpeq (bytes64 (mSuccessiveExtractionMask m)) (bytes64 0))) i \<longleftrightarrow>
      i < 8 \<and> bytes64 (mSuccessiveExtractionMask m) ! i = 0"
    using z by (auto simp: word_bits split: if_splits)
  show ?thesis unfolding sm_getUsedBytesMask_def bit_xor_iff m bit_low_byte by auto
qed

lemma sm_bytes_facts:
  assumes "sm_wf m"
  shows "sorted_wrt (<) (map fst (sm_bytes m))" "\<forall>(p, b) \<in> set (sm_bytes m). b \<noteq> 0"
    "length (sm_bytes m) = popcnt (sm_getUsedBytesMask m)" "length (sm_bytes m) \<le> 8"
    "byte_bits (sm_bytes m) = sm_bits m" "sm_bytes m \<noteq> []"
proof -
  let ?x = "mSuccessiveExtractionMask m" and ?off = "mOffsetInBytes m"
  let ?u = "sm_getUsedBytesMask m"
  have bx: "bytes64 ?x ! i \<noteq> 0 \<longleftrightarrow> (\<exists>j < 8. bit ?x (8 * i + j))" if "i < 8" for i
    using that by (auto simp: word_eq_iff_bits word_bits)
  have small: "?off + i < 256" if i: "bit ?u i" for i
  proof -
    from i obtain j where j: "i < 8" "j < 8" "bit ?x (8 * i + j)" using bx by (auto simp: bit_usedBytes)
    then have "8 * ?off + rbit (8 * i + j) \<in> sm_bits m" by (auto simp: sm_bits_def')
    then have "8 * ?off + rbit (8 * i + j) \<le> Max (sm_bits m)" by simp
    moreover have "Max (sm_bits m) < 2048" using assms by (simp add: sm_wf_def)
    moreover have "rbit (8 * i + j) \<ge> 8 * i" using j(2) by (simp add: rbit_def abs_bit_def)
    ultimately show ?thesis by linarith
  qed
  have pos: "unat (sm_getExtractionBytePosition m i) = ?off + i" if "bit ?u i" for i
    unfolding sm_getExtractionBytePosition_def using small [OF that]
    by (subst unat_of_nat_small(3)) (simp_all add: add.commute)
  show "sorted_wrt (<) (map fst (sm_bytes m))"
    unfolding sm_bytes_def map_map comp_def fst_conv sorted_wrt_map
    by (rule sorted_wrt_mono_rel [of _ "(<)"]) (auto simp: word_less_nat_alt pos strict_sorted_iff)
  show "\<forall>(p, b) \<in> set (sm_bytes m). b \<noteq> 0" by (auto simp: sm_bytes_def bit_usedBytes)
  show l: "length (sm_bytes m) = popcnt ?u" by (simp add: sm_bytes_def popcnt_def)
  have "popcnt ?u \<le> 8" by (rule popcnt_subset) (simp add: bit_usedBytes)
  then show "length (sm_bytes m) \<le> 8" by (simp add: l)
  show bb: "byte_bits (sm_bytes m) = sm_bits m"
  proof (intro set_eqI iffI)
    fix k assume "k \<in> byte_bits (sm_bytes m)"
    then obtain i j where ij: "bit ?u i" "bit (bytes64 ?x ! i) j" "k = 8 * (?off + i) + (7 - j)"
      by (auto simp: byte_bits_def sm_bytes_def pos)
    then have "i < 8" "j < 8" "bit ?x (8 * i + j)" by (auto simp: bit_usedBytes word_bits)
    moreover from this have "k = 8 * ?off + rbit (8 * i + j)" using ij(3) by (simp add: rbit_def abs_bit_def)
    ultimately show "k \<in> sm_bits m" by (auto simp: sm_bits_def')
  next
    fix k assume "k \<in> sm_bits m"
    then obtain a where a: "bit ?x a" "k = 8 * ?off + rbit a" by (auto simp: sm_bits_def')
    define i j where "i = a div 8" and "j = a mod 8"
    have aj: "a = 8 * i + j" "j < 8" "i < 8" using a(1) by (auto simp: i_def j_def dest!: bit_imp_le_length)
    with a(1) have u: "bit ?u i" "bit (bytes64 ?x ! i) j" using bx [of i] by (auto simp: bit_usedBytes word_bits)
    have "k = 8 * unat (sm_getExtractionBytePosition m i) + (7 - j)"
      using a(2) aj pos [OF u(1)] by (simp add: rbit_def abs_bit_def)
    moreover have "(sm_getExtractionBytePosition m i, bytes64 ?x ! i) \<in> set (sm_bytes m)"
      using u(1) by (simp add: sm_bytes_def)
    ultimately show "k \<in> byte_bits (sm_bytes m)" using u(2) unfolding byte_bits_def by blast
  qed
  show "sm_bytes m \<noteq> []" using bb assms by (auto simp: sm_wf_def)
qed

lemma single_mm_of:
  assumes wf: "sm_wf m" and d: "dbit_for d k" and n: "0 < n" "length (sm_bytes m) < 8 * n"
  shows "MultiMask_single n m d =
    Inr (mm_of n (min (Min (sm_bits m)) k) (max (Max (sm_bits m)) k) (card (sm_bits m) + 1)
          (if k < Min (sm_bits m) then entry_of k # sm_bytes m else sm_bytes m @ [entry_of k]))"
proof -
  let ?es = "sm_bytes m" and ?u = "sm_getUsedBytesMask m" and ?x = "mSuccessiveExtractionMask m"
  note f = sm_bytes_facts [OF wf]
  have idx: "mMostSignificantDiscriminativeBitIndex m = Min (sm_bits m)" "mLeastSignificantDiscriminativeBitIndex m = Max (sm_bits m)"
    using wf by (simp_all add: sm_wf_def)
  have k: "unat (mAbsoluteBitIndex d) = k" using d by (simp add: dbit_for_def)
  have eb: "getExtractionByte d = Inr (snd (entry_of k))" using extraction_byte [OF d] by (simp add: entry_of_def)
  define i0 where "i0 = (of_bool (k < Min (sm_bits m)) :: nat)"
  define j where "j = (1 - i0) * popcnt ?u"
  have j: "j < 8 * n" using f(3) n by (cases "k < Min (sm_bits m)") (simp_all add: j_def i0_def)
  define m0 where "m0 = multi_fields (min (Min (sm_bits m)) k) (max (Max (sm_bits m)) k) 0 0
      ((replicate (8 * n) 0) [j := fst (entry_of k)]) ((replicate (8 * n) 0) [j := snd (entry_of k)])"
  let ?step = "\<lambda>sourceByteIndex (targetIndex, m').
      rbind (setExtractionBytePosition targetIndex (sm_getExtractionBytePosition m sourceByteIndex) m') (\<lambda>m1.
      rbind (sm_getExtractionByte m sourceByteIndex) (\<lambda>b.
      rbind (setExtractionByte targetIndex b m1) (\<lambda>m2. Inr (Suc targetIndex, m2))))"
  have lu: "length (ones ?u) = length ?es" using f(3) by (simp add: popcnt_def)
  have i0: "i0 + length ?es \<le> 8 * n" using n by (auto simp: i0_def)
  have ml: "length (mExtractionPositions m0) = 8 * n" "length (mExtractionData m0) = 8 * n"
    by (simp_all add: m0_def multi_fields_def)
  have wr: "rfold ?step (ones ?u) (i0, m0) = Inr (i0 + length (ones ?u),
    m0 \<lparr> mExtractionPositions := take i0 (mExtractionPositions m0) @ map (sm_getExtractionBytePosition m) (ones ?u) @
            drop (i0 + length (ones ?u)) (mExtractionPositions m0),
        mExtractionData := take i0 (mExtractionData m0) @ map ((!) (bytes64 ?x)) (ones ?u) @
            drop (i0 + length (ones ?u)) (mExtractionData m0) \<rparr>)"
  proof (rule write_entries)
    fix x j m' assume "x \<in> set (ones ?u)"
    then have "x < 8" by (simp add: bit_usedBytes)
    then have "sm_getExtractionByte m x = Inr (bytes64 ?x ! x)" by (simp add: sm_getExtractionByte_def byte_at_def)
    then show "?step x (j, m') = rbind (setExtractionBytePosition j (sm_getExtractionBytePosition m x) m')
        (\<lambda>m'. rbind (setExtractionByte j (bytes64 ?x ! x) m') (\<lambda>m''. Inr (Suc j, m'')))" by simp
  qed (use lu i0 ml in simp_all)
  have pads: "take i0 ((replicate (8 * n) 0) [j := g (entry_of k)]) @ map g ?es @
      drop (i0 + length ?es) ((replicate (8 * n) 0) [j := g (entry_of k)]) =
      pad n (map g (if k < Min (sm_bits m) then entry_of k # ?es else ?es @ [entry_of k]))" for g :: "u8 \<times> u8 \<Rightarrow> u8"
  proof (cases "k < Min (sm_bits m)")
    case True
    then have e: "i0 = 1" "j = 0" by (simp_all add: i0_def j_def)
    from n obtain r where r: "8 * n = Suc r" by (cases "8 * n") auto
    show ?thesis using True n by (simp add: e r pad_def)
  next
    case False
    then have e: "i0 = 0" "j = length ?es" using f(3) by (simp_all add: i0_def j_def)
    have "8 * n = length ?es + Suc (8 * n - Suc (length ?es))" using n by simp
    then have "replicate (8 * n) (0 :: u8) = replicate (length ?es) 0 @ 0 # replicate (8 * n - Suc (length ?es)) 0"
      by (metis replicate_Suc replicate_add)
    with False show ?thesis by (simp add: e pad_def list_update_append)
  qed
  have es: "map (sm_getExtractionBytePosition m) (ones ?u) = map fst ?es" "map ((!) (bytes64 ?x)) (ones ?u) = map snd ?es"
    by (simp_all add: sm_bytes_def)
  have st: "rbind (setExtractionByte j (snd (entry_of k)) (initializeDataAndPositionsWithZero n
      (multi_fields (min (Min (sm_bits m)) k) (max (Max (sm_bits m)) k) 0 0 [] []))) (\<lambda>m1.
      setExtractionBytePosition j (fst (entry_of k)) m1) = Inr m0"
    using j by (simp add: setExtractionByte_def setExtractionBytePosition_def setExtractionByteAt_def
        initializeDataAndPositionsWithZero_def multi_fields_def zero_register_def m0_def)
  have cnt: "u16nat (popcnt ?u + 1) = length ?es + 1" "u16nat (sm_calculateNumberBitsUsed m + 1) = card (sm_bits m) + 1"
    using f(3,4) popcnt_le [of ?x] by (simp_all add: sm_calculateNumberBitsUsed_def sm_bits_card)
  from st obtain m1 where m1: "setExtractionByte j (snd (entry_of k)) (initializeDataAndPositionsWithZero n
      (multi_fields (min (Min (sm_bits m)) k) (max (Max (sm_bits m)) k) 0 0 [] [])) = Inr m1"
    "setExtractionBytePosition j (fst (entry_of k)) m1 = Inr m0" by (auto simp: rbind_eq_Inr)
  show ?thesis
    unfolding MultiMask_single_def Let_def base_insert_def prod.case fst_conv snd_conv k idx eb rbind_simps
      i0_def [symmetric] j_def [symmetric] m1(1) dbit_position(1) [OF d] m1(2) wr cnt
    using pads [of fst] pads [of snd]
    by (auto simp: es lu m0_def multi_fields_def mm_of_def)
qed

section \<open>Adding a bit\<close>

lemma byte_bits_entry [simp]:
  "{8 * unat (fst (entry_of k)) + (7 - j) | j. bit (snd (entry_of k)) j} = {k}" if "k < 2048" for k
proof -
  have "k div 8 < 256" using that by simp
  then have u: "unat (fst (entry_of k)) = k div 8" by (simp add: entry_of_def unat_of_nat_small)
  have b: "bit (snd (entry_of k)) j \<longleftrightarrow> j = 7 - k mod 8" for j
    unfolding entry_of_def snd_conv bit_single by auto
  have "7 - (7 - k mod 8) = k mod 8" using mod_less_divisor [of 8 k] by linarith
  then show ?thesis unfolding u b by auto
qed

lemma entry_nonzero [simp]: "snd (entry_of k) \<noteq> 0"
proof
  assume "snd (entry_of k) = 0"
  moreover have "bit (snd (entry_of k)) (7 - k mod 8)" unfolding entry_of_def snd_conv bit_single by auto
  ultimately show False by simp
qed

lemma byte_has_bit:
  assumes "(p, b) \<in> set es" "b \<noteq> 0" obtains k' where "k' \<in> byte_bits es" "k' div 8 = unat p"
proof -
  from assms(2) obtain j where j: "bit b j" by (auto simp: bit_eq_iff)
  show thesis
  proof (rule that)
    show "8 * unat p + (7 - j) \<in> byte_bits es" using assms(1) j unfolding byte_bits_def by blast
    have "7 - j < 8" by simp
    then show "(8 * unat p + (7 - j)) div 8 = unat p" by (simp only: byte_index)
  qed
qed

definition mapping_wf :: "mapping \<Rightarrow> bool" where
  "mapping_wf M \<longleftrightarrow> (case M of SingleMapping m \<Rightarrow> sm_wf m | MultiMapping1 m \<Rightarrow> mm_wf 1 m
     | MultiMapping2 m \<Rightarrow> mm_wf 2 m | MultiMapping4 m \<Rightarrow> mm_wf 4 m)"

definition mapping_positions :: "mapping \<Rightarrow> nat list" where
  "mapping_positions M = (case M of SingleMapping m \<Rightarrow> sm_positions m | MultiMapping1 m \<Rightarrow> mm_positions m
     | MultiMapping2 m \<Rightarrow> mm_positions m | MultiMapping4 m \<Rightarrow> mm_positions m)"

definition mapping_bits :: "mapping \<Rightarrow> nat set" where
  "mapping_bits M = set (mapping_positions M)"

lemma mapping_multi [simp]:
  assumes "n \<in> {1, 2, 4}"
  shows "mapping_wf (multi n m) \<longleftrightarrow> mm_wf n m" "mapping_positions (multi n m) = mm_positions m"
    "mapping_bits (multi n m) = mm_bits m"
  using assms by (auto simp: mapping_wf_def mapping_positions_def mapping_bits_def mm_bits_def multi_def)

lemma mapping_single [simp]:
  "mapping_wf (SingleMapping m) = sm_wf m" "mapping_positions (SingleMapping m) = sm_positions m"
  "mapping_bits (SingleMapping m) = sm_bits m"
  by (simp_all add: mapping_wf_def mapping_positions_def mapping_bits_def sm_bits_def)

lemma mapping_kinds [simp]:
  "mapping_wf (MultiMapping1 m) = mm_wf 1 m" "mapping_wf (MultiMapping2 m) = mm_wf 2 m"
  "mapping_wf (MultiMapping4 m) = mm_wf 4 m" "mapping_bits (MultiMapping1 m) = mm_bits m"
  "mapping_bits (MultiMapping2 m) = mm_bits m" "mapping_bits (MultiMapping4 m) = mm_bits m"
  by (simp_all add: mapping_wf_def mapping_bits_def mapping_positions_def mm_bits_def)

text \<open>Counters that were right stay right when a new bit is added.\<close>

lemma add_bit_wf:
  assumes "bytes_ok n es" "byte_bits es = insert k B" "finite B" "B \<noteq> {}"
    and c: "c = card B + of_bool (k \<notin> B)"
  shows "mm_wf n (mm_of n (min (Min B) k) (max (Max B) k) c es) \<and>
    mm_bits (mm_of n (min (Min B) k) (max (Max B) k) c es) = insert k B"
  using assms by (auto simp: mm_of_wf mm_bits_of card_insert_if min.commute max.commute)

lemma sorted_insert_middle:
  assumes "sorted_wrt (<) (map fst (lo @ hi))" "\<And>e. e \<in> set lo \<Longrightarrow> fst e < q" "\<And>e. e \<in> set hi \<Longrightarrow> q < fst e"
  shows "sorted_wrt (<) (map fst (lo @ (q, b) # hi))"
  using assms by (auto simp: sorted_wrt_append)

lemma sm_insert_adds:
  assumes wf: "sm_wf m" and d: "dbit_for d k"
  shows "\<exists>M. sm_insert m d = Inr M \<and> mapping_wf M \<and> mapping_bits M = insert k (sm_bits m)"
proof -
  have idx: "mMostSignificantDiscriminativeBitIndex m = Min (sm_bits m)" "mLeastSignificantDiscriminativeBitIndex m = Max (sm_bits m)"
    and ne: "sm_bits m \<noteq> {}" and off: "mOffsetInBytes m = Max (sm_bits m) div 8 - 7"
    using wf by (simp_all add: sm_wf_def)
  have b: "unat (mByteIndex d) = k div 8" and k: "k < 2048" using d by (simp_all add: dbit_for_def)
  show ?thesis
  proof (cases "int (k div 8) - int (Min (sm_bits m) div 8) < 8 \<and> int (Max (sm_bits m) div 8) - int (k div 8) < 8")
    case True
    from SingleMask_insert_wf [OF wf d conjunct1 [OF True] conjunct2 [OF True]]
    obtain m' where "SingleMask_insert m d = Inr m'" "sm_wf m'" "sm_bits m' = insert k (sm_bits m)" .
    then show ?thesis using True by (simp add: sm_insert_def idx b)
  next
    case far: False
    let ?es = "sm_bytes m"
    note f = sm_bytes_facts [OF wf]
    have range: "Min (sm_bits m) div 8 \<le> unat (fst e) \<and> unat (fst e) \<le> Max (sm_bits m) div 8" if "e \<in> set ?es" for e
    proof -
      obtain p x where e: "e = (p, x)" by (cases e)
      with that f(2) have "x \<noteq> 0" by auto
      with that e obtain k' where "k' \<in> byte_bits ?es" "k' div 8 = unat p" by (auto elim: byte_has_bit)
      then show ?thesis using e f(5) by (metis Max_ge Min_le div_le_mono finite_sm_bits fst_conv)
    qed
    have spread: "Max (sm_bits m) div 8 \<le> Min (sm_bits m) div 8 + 7"
    proof -
      have "Min (sm_bits m) \<in> sm_bits m" using ne by simp
      then have "8 * mOffsetInBytes m \<le> Min (sm_bits m)" by (simp add: sm_bits_iff)
      then show ?thesis using off by linarith
    qed
    define es where "es = (if k < Min (sm_bits m) then entry_of k # ?es else ?es @ [entry_of k])"
    have q: "unat (fst (entry_of k)) = k div 8" by (rule dbit_position(3) [OF d])
    have side: "if k < Min (sm_bits m) then k div 8 < Min (sm_bits m) div 8 else Max (sm_bits m) div 8 < k div 8"
      using far spread div_le_mono [of k "Min (sm_bits m)" 8] div_le_mono [of "Min (sm_bits m)" k 8] by auto
    have srt: "sorted_wrt (<) (map fst es)"
    proof (cases "k < Min (sm_bits m)")
      case True
      then have "fst (entry_of k) < fst e" if "e \<in> set ?es" for e
        using side range [OF that] q by (simp add: word_less_nat_alt)
      with True f(1) show ?thesis by (auto simp: es_def)
    next
      case False
      then have "fst e < fst (entry_of k)" if "e \<in> set ?es" for e
        using side range [OF that] q by (simp add: word_less_nat_alt)
      with False f(1) show ?thesis by (auto simp: es_def sorted_wrt_append)
    qed
    have nz: "\<forall>(p, x) \<in> set es. x \<noteq> 0" using f(2) entry_nonzero [of k] by (cases "entry_of k") (auto simp: es_def)
    have bits: "byte_bits es = insert k (sm_bits m)" using f(5) k by (auto simp: es_def)
    have new: "k \<notin> sm_bits m" using side by (metis Max_ge Min_le div_le_mono finite_sm_bits leD)
    have ok: "bytes_ok n es" if "n \<in> {1, 2, 4}" "length ?es < 8 * n" for n
      using that srt nz by (auto simp: bytes_ok_def es_def)
    have res: "\<exists>m'. MultiMask_single n m d = Inr m' \<and> mm_wf n m' \<and> mm_bits m' = insert k (sm_bits m)"
      if "n \<in> {1, 2, 4}" "length ?es < 8 * n" for n
    proof -
      have "0 < n" using that(1) by auto
      from single_mm_of [OF wf d this that(2)]
        add_bit_wf [OF ok [OF that] bits finite_sm_bits ne, of "card (sm_bits m) + 1"] new
      show ?thesis by (auto simp: es_def)
    qed
    have un: "sm_hasUnusedBytes m \<longleftrightarrow> length ?es < 8"
    proof -
      let ?u = "sm_getUsedBytesMask m"
      have sub: "{i. bit ?u i} \<subseteq> {..<8}" by (auto simp: bit_usedBytes)
      have "?u = 0xFF \<longleftrightarrow> {i. bit ?u i} = {..<8}"
        unfolding word_eq_iff_bits bit_low_byte using sub by (auto dest: bit_imp_le_length)
      also have "\<dots> \<longleftrightarrow> card {i. bit ?u i} = 8" using sub by (metis card_lessThan card_subset_eq finite_lessThan)
      finally show ?thesis using f(3,4) by (auto simp: sm_hasUnusedBytes_def popcnt_card)
    qed
    show ?thesis
    proof (cases "length ?es < 8")
      case True
      from res [of 1] True obtain m' where "MultiMask_single 1 m d = Inr m'" "mm_wf 1 m'" "mm_bits m' = insert k (sm_bits m)"
        by auto
      then show ?thesis using far True un mapping_multi [of 1 m']
        by (auto simp: sm_insert_def idx b multi_def)
    next
      case False
      with f(4) have "length ?es < 8 * 2" by simp
      from res [of 2] this obtain m' where "MultiMask_single 2 m d = Inr m'" "mm_wf 2 m'" "mm_bits m' = insert k (sm_bits m)"
        by auto
      then show ?thesis using far False un mapping_multi [of 2 m']
        by (auto simp: sm_insert_def idx b multi_def)
    qed
  qed
qed

lemma bytes_le_bits:
  assumes "bytes_ok n es" shows "length es \<le> card (byte_bits es)"
proof -
  have "distinct (map fst es)" using assms by (simp add: bytes_ok_def strict_sorted_iff)
  then have "length es = card (fst ` set es)" using distinct_card [of "map fst es"] by simp
  also have "\<dots> = card (unat ` fst ` set es)" by (rule card_image [symmetric]) (simp add: inj_on_def word_unat_eq_iff)
  also have "\<dots> \<le> card ((\<lambda>k. k div 8) ` byte_bits es)"
  proof (rule card_mono)
    show "unat ` fst ` set es \<subseteq> (\<lambda>k. k div 8) ` byte_bits es"
    proof
      fix v assume "v \<in> unat ` fst ` set es"
      then obtain p b where pb: "(p, b) \<in> set es" "v = unat p" by auto
      then have "b \<noteq> 0" using assms by (auto simp: bytes_ok_def)
      from byte_has_bit [OF pb(1) this] show "v \<in> (\<lambda>k. k div 8) ` byte_bits es" using pb(2) by (metis imageI)
    qed
  qed (use byte_bits_nonempty(2) [OF assms] in simp)
  also have "\<dots> \<le> card (byte_bits es)" by (rule card_image_le) (rule byte_bits_nonempty(2) [OF assms])
  finally show ?thesis .
qed

lemma byte_bits_or:
  assumes "k < 2048" "q = fst (entry_of k)"
  shows "byte_bits [(q, x OR snd (entry_of k))] = insert k (byte_bits [(q, x)])"
  using byte_bits_entry [OF assms(1)] assms(2) by (auto simp: bit_or_iff)

lemma bit_in_bytes:
  assumes "bytes_ok n (lo @ (fst (entry_of k), x) # hi)" "k < 2048"
  shows "k \<in> byte_bits (lo @ (fst (entry_of k), x) # hi) \<longleftrightarrow> bit x (7 - k mod 8)"
proof
  have u: "unat (fst (entry_of k)) = k div 8" using assms(2) by (simp add: entry_of_def unat_of_nat_small)
  {
    assume "k \<in> byte_bits (lo @ (fst (entry_of k), x) # hi)"
    then obtain p y j where e: "(p, y) \<in> set (lo @ (fst (entry_of k), x) # hi)" "bit y j" "k = 8 * unat p + (7 - j)"
      unfolding byte_bits_def by blast
    have j: "7 - j < 8" "j < 8" using e(2) by (auto dest: bit_imp_le_length)
    from e(3) j(1) have p: "unat p = k div 8" "7 - j = k mod 8" by (simp_all only: byte_index)
    then have "p = fst (entry_of k)" using u by (simp add: word_unat_eq_iff)
    moreover have "distinct (map fst (lo @ (fst (entry_of k), x) # hi))"
      using assms(1) by (simp add: bytes_ok_def strict_sorted_iff)
    ultimately have "y = x" using e(1) by (auto simp: rev_image_eqI)
    moreover have "j = 7 - k mod 8" using p(2) j(2) by linarith
    ultimately show "bit x (7 - k mod 8)" using e(2) by simp
  }
  assume "bit x (7 - k mod 8)"
  moreover have "k = 8 * unat (fst (entry_of k)) + (7 - (7 - k mod 8))"
    unfolding u using mod_less_divisor [of 8 k] div_mult_mod_eq [of k 8] by linarith
  ultimately show "k \<in> byte_bits (lo @ (fst (entry_of k), x) # hi)"
    unfolding byte_bits_def by (intro CollectI exI [of _ "fst (entry_of k)"] exI [of _ x] exI [of _ "7 - k mod 8"]) simp
qed

lemma mm_insert_adds:
  assumes wf: "mm_wf n m" and few: "card (mm_bits m) \<le> 31" and d: "dbit_for d k"
  shows "\<exists>M. mm_insert n m d = Inr M \<and> mapping_wf M \<and> mapping_bits M = insert k (mm_bits m)"
proof -
  from wf have sh: "mm_shape n m" by (simp add: mm_wf_def)
  obtain es where ok: "bytes_ok n es" and m_es: "m = mm_of n (mMostSignificantDiscriminativeBitIndex m)
      (mLeastSignificantDiscriminativeBitIndex m) (mNumberKeyBits m) es" by (rule mm_of_exists [OF sh])
  let ?B = "byte_bits es" and ?q = "fst (entry_of k)"
  have B: "mm_bits m = ?B" using mm_bits_of [OF ok] m_es by metis
  have m: "m = mm_of n (Min ?B) (Max ?B) (card ?B) es"
    using m_es wf B mm_positions_card [OF sh] by (simp add: mm_wf_def)
  note fin = byte_bits_nonempty [OF ok]
  have k: "k < 2048" using d by (simp add: dbit_for_def)
  have cB: "card ?B < 65535" using few B by simp
  have n: "n \<in> {1, 2, 4}" "length es \<le> 8 * n" using ok by (simp_all add: bytes_ok_def)
  have le31: "length es \<le> 31" using bytes_le_bits [OF ok] few B by simp
  obtain lo hi where es: "es = lo @ hi" and lo: "\<And>e. e \<in> set lo \<Longrightarrow> fst e < ?q" and hi: "\<And>e. e \<in> set hi \<Longrightarrow> ?q \<le> fst e"
    by (rule bytes_split [OF ok, of ?q]) blast
  have m': "mm_of n (Min ?B) (Max ?B) (card ?B) (lo @ hi) = m" unfolding es [symmetric] by (rule m [symmetric])
  obtain msk where msk: "getMaskForPositionsLargerOrEqualTo n m (unat (mByteIndex d)) = Inr msk" "length msk = 8 * n"
    "\<And>i. i < length lo \<Longrightarrow> msk ! i = 0" "\<And>i. length lo \<le> i \<Longrightarrow> i < length lo + length hi \<Longrightarrow> msk ! i = - 1"
    "length lo + length hi < 32 \<Longrightarrow> tzcnt (moveMask8 msk OR push_bit (length lo + length hi) (- 1)) = length lo"
    by (rule place_mask [OF ok [unfolded es] lo hi dbit_position(2) [OF d], of "Min ?B" "Max ?B" "card ?B", unfolded m'])
       (assumption, assumption, rule that, simp_all)
  have tz: "tzcnt (moveMask8 msk OR push_bit (length es) (- 1)) = length lo"
    using msk(5) le31 unfolding es by simp
  let ?pos = "mm_getExtractionBytePosition m (length lo)"
  have "length lo < length (mExtractionPositions m @ mExtractionData m)" using n es mm_shapeD(2,3) [OF sh] by auto
  then obtain p where p: "?pos = Inr p" "p = (mExtractionPositions m @ mExtractionData m) ! length lo"
    by (simp add: mm_getExtractionBytePosition_def byte_at_def)
  have ph: "p = fst (hd hi)" if "hi \<noteq> []"
    using that p(2) n(2) es by (subst (asm) m) (auto simp: pad_def nth_append hd_conv_nth)
  have num: "mNumberExtractionBytes m = length es" by (subst m) simp
  have contained: "length lo < length es \<and> unat p = unat (mByteIndex d) \<longleftrightarrow> hi \<noteq> [] \<and> fst (hd hi) = ?q"
    using ph es dbit_position(3,4) [OF d] by (cases hi) (auto simp: word_unat_eq_iff)
  have shl: "shl32 (- 1) (length es) = Inr (push_bit (length es) (- 1))"
    using le31 by (simp only: shl32_def) simp
  have ins: "mm_insert n m d =
      (if hi \<noteq> [] \<and> fst (hd hi) = ?q then rbind (MultiMask_same n m d (length lo)) (\<lambda>m'. Inr (multi n m'))
       else if length es < n * 8 then rbind (MultiMask_shift n m d (length lo) msk) (\<lambda>m'. Inr (multi n m'))
       else if n = 4 then rbind (MultiMask_shift n m d (length lo) msk) (\<lambda>m'. Inr (multi n m'))
       else rbind (MultiMask_grow (n * 2) m d (length lo) msk) (\<lambda>m'. Inr (multi (n * 2) m')))"
    unfolding mm_insert_def msk(1) num shl rbind_simps Let_def tz p(1) contained by simp
  show ?thesis
  proof (cases "hi \<noteq> [] \<and> fst (hd hi) = ?q")
    case True
    then obtain x hi' where h: "hi = (?q, x) # hi'" by (metis list.collapse prod.collapse)
    let ?new = "lo @ (?q, x OR snd (entry_of k)) # hi'"
    have "x OR snd (entry_of k) \<noteq> 0" by (simp add: or_eq_0_iff)
    then have okn: "bytes_ok n ?new" using ok by (auto simp: es h bytes_ok_def sorted_wrt_append)
    have bb: "byte_bits ?new = insert k ?B"
      using byte_bits_or [OF k refl, of x] unfolding es h byte_bits_simps by auto
    have c: "card ?B + of_bool (\<not> bit x (7 - k mod 8)) = card ?B + of_bool (k \<notin> ?B)"
      using bit_in_bytes [OF ok [unfolded es h] k] by (simp add: es h)
    from same_mm_of [OF ok [unfolded es h] d cB, of "Min ?B" "Max ?B", unfolded m' [unfolded h]]
    have "MultiMask_same n m d (length lo) = Inr (mm_of n (min (Min ?B) k) (max (Max ?B) k)
        (card ?B + of_bool (\<not> bit x (7 - k mod 8))) ?new)" .
    then show ?thesis
      using True add_bit_wf [OF okn bb fin(2,1) c] mapping_multi [OF n(1)] unfolding ins B by simp
  next
    case False
    let ?new = "lo @ entry_of k # hi"
    have new: "k \<notin> ?B"
    proof
      assume "k \<in> ?B"
      then obtain p y j where e: "(p, y) \<in> set es" "bit y j" "k = 8 * unat p + (7 - j)" unfolding byte_bits_def by blast
      have "7 - j < 8" by simp
      with e(3) have "unat p = k div 8" by (simp only: byte_index)
      then have "p = ?q" using dbit_position(3) [OF d] by (simp add: word_unat_eq_iff)
      then have "(?q, y) \<in> set hi" using e(1) lo es by fastforce
      moreover have "fst (hd hi) \<le> fst e" if "e \<in> set hi" for e
        using ok that unfolding es bytes_ok_def by (cases hi) (auto simp: sorted_wrt_append)
      ultimately have "hi \<noteq> [] \<and> fst (hd hi) = ?q" using hi by (metis antisym empty_iff empty_set fst_conv hd_in_set)
      with False show False by simp
    qed
    have hi': "?q < fst e" if "e \<in> set hi" for e
    proof -
      have "hi \<noteq> []" using that by auto
      with False have "fst (hd hi) \<noteq> ?q" by simp
      moreover have "fst (hd hi) \<le> fst e"
        using ok that unfolding es bytes_ok_def by (cases hi) (auto simp: sorted_wrt_append)
      moreover have "?q \<le> fst (hd hi)" using hi \<open>hi \<noteq> []\<close> by simp
      ultimately show ?thesis by auto
    qed
    have srt: "sorted_wrt (<) (map fst ?new)"
      using sorted_insert_middle [OF _ lo hi', where b = "snd (entry_of k)"] ok by (simp add: es bytes_ok_def)
    have okn: "bytes_ok n' ?new" if "n' \<in> {1, 2, 4}" "length es < 8 * n'" for n'
    proof -
      have "\<forall>(p, b) \<in> set ?new. b \<noteq> 0"
        using ok entry_nonzero [of k] by (cases "entry_of k") (auto simp: es bytes_ok_def)
      then show ?thesis using that srt by (simp add: bytes_ok_def es)
    qed
    have bb: "byte_bits ?new = insert k ?B" using k by (auto simp: es)
    have c: "card ?B + 1 = card ?B + of_bool (k \<notin> ?B)" using new by simp
    show ?thesis
    proof (cases "length es < 8 * n")
      case True
      from shift_mm_of [OF ok [unfolded es] True [unfolded es] d msk(2,3,4) cB, of "Min ?B" "Max ?B", unfolded m']
      have "MultiMask_shift n m d (length lo) msk =
          Inr (mm_of n (min (Min ?B) k) (max (Max ?B) k) (card ?B + 1) ?new)" .
      then show ?thesis
        using add_bit_wf [OF okn [OF n(1) True] bb fin(2,1) c] mapping_multi [OF n(1)] False True
        unfolding ins B if_not_P [OF False] by (simp add: mult.commute)
    next
      case full: False
      then have n2: "n \<in> {1, 2}" "n * 2 \<in> {1, 2, 4}" "n \<noteq> 4" "length es < 8 * (n * 2)" using n le31 by auto
      from grow_mm_of [OF ok [unfolded es] n2(1) d msk(2,3,4) cB, of "Min ?B" "Max ?B", unfolded m']
      have "MultiMask_grow (n * 2) m d (length lo) msk =
          Inr (mm_of (n * 2) (min (Min ?B) k) (max (Max ?B) k) (card ?B + 1) ?new)" .
      then show ?thesis
        using add_bit_wf [OF okn [OF n2(2,4)] bb fin(2,1) c] mapping_multi [OF n2(2)] False full n2(3)
        unfolding ins B if_not_P [OF False] by (simp add: mult.commute)
    qed
  qed
qed

text \<open>C27: Adding a discriminative bit to a well-formed mapping of any kind, with at most 31 bits,
  never fails: the mapping made, of whichever of the four kinds, is well-formed again and its
  discriminative bits are the old ones and the new one.\<close>
theorem mapping_insert_adds:
  "\<lbrakk>mapping_wf M; card (mapping_bits M) \<le> 31; dbit_for d k\<rbrakk> \<Longrightarrow>
   \<exists>M'. mapping_insert M d = Inr M' \<and> mapping_wf M' \<and> mapping_bits M' = insert k (mapping_bits M)"
  using sm_insert_adds [of _ d k] mm_insert_adds [of 1 _ d k] mm_insert_adds [of 2 _ d k] mm_insert_adds [of 4 _ d k]
  by (cases M) (simp_all del: One_nat_def)

theorem mapping_insert_adds_witness:
  "let M = MultiMapping1 (mm_of 1 5 80 2 [(0, 4), (10, 128)]) in
   \<exists>M'. mapping_insert M (DiscriminativeBit_at 40 0) = Inr M' \<and> mapping_wf M' \<and>
     mapping_bits M' = insert 40 (mapping_bits M)"
  unfolding Let_def
proof (rule mapping_insert_adds)
  show "mapping_wf (MultiMapping1 (mm_of 1 5 80 2 [(0, 4), (10, 128)]))" by code_simp
  show "card (mapping_bits (MultiMapping1 (mm_of 1 5 80 2 [(0, 4), (10, 128)]))) \<le> 31" by code_simp
  show "dbit_for (DiscriminativeBit_at 40 0) 40" using dbit_for_at [of 40 0] by simp
qed

end
