(* ===== verification/Node_Commons.thy ===== *)
theory Node_Commons
  imports Mapping_Operations Bit_Mask32
begin

text \<open>
  The small types the nodes share, from \<open>src/hot/commons/include/hot/commons/\<close>: the kinds of nodes
  (\<open>NodeType.hpp\<close>, \<open>NodeParametersMapping.hpp\<close>) and the values passed between a node's operations
  (\<open>EntriesRange.hpp\<close>, \<open>BiNodeInformation.hpp\<close>, \<open>InsertInformation.hpp\<close>, \<open>BiNode.hpp\<close>,
  \<open>SearchResultForInsert.hpp\<close>, \<open>NodeAllocationInformation.hpp\<close>, \<open>EntryVectorInterface.hpp\<close>,
  \<open>PartialKeyConversionInformation.hpp\<close>).  Indices and counts of entries, at most 32, are natural
  numbers.
\<close>

unbundle bit_operations_syntax

section \<open>Kinds of nodes\<close>

datatype NodeType =
  SINGLE_MASK_8_BIT_PARTIAL_KEYS
| SINGLE_MASK_16_BIT_PARTIAL_KEYS
| SINGLE_MASK_32_BIT_PARTIAL_KEYS
| MULTI_MASK_8_BYTES_AND_8_BIT_PARTIAL_KEYS
| MULTI_MASK_8_BYTES_AND_16_BIT_PARTIAL_KEYS
| MULTI_MASK_8_BYTES_AND_32_BIT_PARTIAL_KEYS
| MULTI_MASK_16_BYTES_AND_16_BIT_PARTIAL_KEYS
| MULTI_MASK_32_BYTES_AND_32_BIT_PARTIAL_KEYS

text \<open>The value of an enumerator, and the enumerators in the order of their values.\<close>

fun NodeType_code :: "NodeType \<Rightarrow> nat" where
  "NodeType_code SINGLE_MASK_8_BIT_PARTIAL_KEYS = 0"
| "NodeType_code SINGLE_MASK_16_BIT_PARTIAL_KEYS = 1"
| "NodeType_code SINGLE_MASK_32_BIT_PARTIAL_KEYS = 2"
| "NodeType_code MULTI_MASK_8_BYTES_AND_8_BIT_PARTIAL_KEYS = 3"
| "NodeType_code MULTI_MASK_8_BYTES_AND_16_BIT_PARTIAL_KEYS = 4"
| "NodeType_code MULTI_MASK_8_BYTES_AND_32_BIT_PARTIAL_KEYS = 5"
| "NodeType_code MULTI_MASK_16_BYTES_AND_16_BIT_PARTIAL_KEYS = 6"
| "NodeType_code MULTI_MASK_32_BYTES_AND_32_BIT_PARTIAL_KEYS = 7"

definition NodeTypes :: "NodeType list" where
  "NodeTypes = [SINGLE_MASK_8_BIT_PARTIAL_KEYS, SINGLE_MASK_16_BIT_PARTIAL_KEYS,
     SINGLE_MASK_32_BIT_PARTIAL_KEYS, MULTI_MASK_8_BYTES_AND_8_BIT_PARTIAL_KEYS,
     MULTI_MASK_8_BYTES_AND_16_BIT_PARTIAL_KEYS, MULTI_MASK_8_BYTES_AND_32_BIT_PARTIAL_KEYS,
     MULTI_MASK_16_BYTES_AND_16_BIT_PARTIAL_KEYS, MULTI_MASK_32_BYTES_AND_32_BIT_PARTIAL_KEYS]"

text \<open>
  The value of the node type for a number of bits and bytes.  \<open>u\<close> and \<open>v\<close> are the undefined results
  of \<open>__builtin_clz\<close> at 0, which it meets for up to eight bits and for up to eight bytes.
\<close>

definition getRandomNodeType :: "nat \<Rightarrow> nat \<Rightarrow> u32 \<Rightarrow> u32 \<Rightarrow> u32" where
  "getRandomNodeType u v numberKeyBits numberRandomBytes =
     (let numberMaskBytes = 32 - of_nat (builtin_clz u ((numberKeyBits - 1) div 8)) :: u32;
          numberExtractionMasks = 32 - of_nat (builtin_clz v ((numberRandomBytes - 1) div 8)) :: u32;
          moreThanASingleExtractionMask = of_bool (numberExtractionMasks > 0)
      in 3 + numberMaskBytes + moreThanASingleExtractionMask * 2)"

fun nodeAlgorithmToString :: "NodeType \<Rightarrow> string" where
  "nodeAlgorithmToString SINGLE_MASK_8_BIT_PARTIAL_KEYS = ''SINGLE_MASK_8_BIT_PARTIAL_KEYS ''"
| "nodeAlgorithmToString SINGLE_MASK_16_BIT_PARTIAL_KEYS = ''SINGLE_MASK_16_BIT_PARTIAL_KEYS ''"
| "nodeAlgorithmToString SINGLE_MASK_32_BIT_PARTIAL_KEYS = ''SINGLE_MASK_32_BIT_PARTIAL_KEYS ''"
| "nodeAlgorithmToString MULTI_MASK_8_BYTES_AND_8_BIT_PARTIAL_KEYS = ''MULTI_MASK_8_BYTES_AND_8_BIT_PARTIAL_KEYS ''"
| "nodeAlgorithmToString MULTI_MASK_8_BYTES_AND_16_BIT_PARTIAL_KEYS = ''MULTI_MASK_8_BYTES_AND_16_BIT_PARTIAL_KEYS ''"
| "nodeAlgorithmToString MULTI_MASK_8_BYTES_AND_32_BIT_PARTIAL_KEYS = ''MULTI_MASK_8_BYTES_AND_32_BIT_PARTIAL_KEYS ''"
| "nodeAlgorithmToString MULTI_MASK_16_BYTES_AND_16_BIT_PARTIAL_KEYS = ''MULTI_MASK_16_BYTES_AND_16_BIT_PARTIAL_KEYS ''"
| "nodeAlgorithmToString MULTI_MASK_32_BYTES_AND_32_BIT_PARTIAL_KEYS = ''MULTI_MASK_32_BYTES_AND_32_BIT_PARTIAL_KEYS ''"

text \<open>
  The template parameters of a node: the class of its mapping and the width of its partial keys.
  Eight of the twelve combinations have a node type.
\<close>

datatype mapping_class = SingleMaskClass | MultiMaskClass1 | MultiMaskClass2 | MultiMaskClass4

fun class_of :: "mapping \<Rightarrow> mapping_class" where
  "class_of (SingleMapping m) = SingleMaskClass"
| "class_of (MultiMapping1 m) = MultiMaskClass1"
| "class_of (MultiMapping2 m) = MultiMaskClass2"
| "class_of (MultiMapping4 m) = MultiMaskClass4"

definition NodeParametersToNodeType :: "mapping_class \<Rightarrow> nat \<Rightarrow> NodeType option" where
  "NodeParametersToNodeType c w =
     (if c = SingleMaskClass \<and> w = 8 then Some SINGLE_MASK_8_BIT_PARTIAL_KEYS
      else if c = SingleMaskClass \<and> w = 16 then Some SINGLE_MASK_16_BIT_PARTIAL_KEYS
      else if c = SingleMaskClass \<and> w = 32 then Some SINGLE_MASK_32_BIT_PARTIAL_KEYS
      else if c = MultiMaskClass1 \<and> w = 8 then Some MULTI_MASK_8_BYTES_AND_8_BIT_PARTIAL_KEYS
      else if c = MultiMaskClass1 \<and> w = 16 then Some MULTI_MASK_8_BYTES_AND_16_BIT_PARTIAL_KEYS
      else if c = MultiMaskClass1 \<and> w = 32 then Some MULTI_MASK_8_BYTES_AND_32_BIT_PARTIAL_KEYS
      else if c = MultiMaskClass2 \<and> w = 16 then Some MULTI_MASK_16_BYTES_AND_16_BIT_PARTIAL_KEYS
      else if c = MultiMaskClass4 \<and> w = 32 then Some MULTI_MASK_32_BYTES_AND_32_BIT_PARTIAL_KEYS
      else None)"

fun NodeTypeToNodeParameters :: "NodeType \<Rightarrow> mapping_class \<times> nat" where
  "NodeTypeToNodeParameters SINGLE_MASK_8_BIT_PARTIAL_KEYS = (SingleMaskClass, 8)"
| "NodeTypeToNodeParameters SINGLE_MASK_16_BIT_PARTIAL_KEYS = (SingleMaskClass, 16)"
| "NodeTypeToNodeParameters SINGLE_MASK_32_BIT_PARTIAL_KEYS = (SingleMaskClass, 32)"
| "NodeTypeToNodeParameters MULTI_MASK_8_BYTES_AND_8_BIT_PARTIAL_KEYS = (MultiMaskClass1, 8)"
| "NodeTypeToNodeParameters MULTI_MASK_8_BYTES_AND_16_BIT_PARTIAL_KEYS = (MultiMaskClass1, 16)"
| "NodeTypeToNodeParameters MULTI_MASK_8_BYTES_AND_32_BIT_PARTIAL_KEYS = (MultiMaskClass1, 32)"
| "NodeTypeToNodeParameters MULTI_MASK_16_BYTES_AND_16_BIT_PARTIAL_KEYS = (MultiMaskClass2, 16)"
| "NodeTypeToNodeParameters MULTI_MASK_32_BYTES_AND_32_BIT_PARTIAL_KEYS = (MultiMaskClass4, 32)"

lemma NodeTypes_code [simp]: "NodeTypes ! NodeType_code t = t" "NodeType_code t < 8"
  by (cases t; simp add: NodeTypes_def)+

lemma node_parameters_exact:
  "NodeParametersToNodeType c w = Some t \<longleftrightarrow> NodeTypeToNodeParameters t = (c, w)"
  by (cases t) (auto simp: NodeParametersToNodeType_def)

section \<open>Values passed between the operations of a node\<close>

record EntriesRange =
  mFirstIndexInRange :: nat
  mNumberEntriesInRange :: nat

definition getLastIndexInRange :: "EntriesRange \<Rightarrow> nat" where
  "getLastIndexInRange r = sub32 (mFirstIndexInRange r + mNumberEntriesInRange r) 1"

record BiNodeInformation =
  mDiscriminativeBitIndex :: nat
  mDiscriminativeBitMask :: u32
  mLeftRange :: EntriesRange
  mRightRange :: EntriesRange

definition getTotalNumberEntries :: "BiNodeInformation \<Rightarrow> nat" where
  "getTotalNumberEntries b = mNumberEntriesInRange (mLeftRange b) + mNumberEntriesInRange (mRightRange b)"

record InsertInformation =
  mSubtreePrefixPartialKey :: u32
  mFirstIndexInAffectedSubtree :: nat
  mNumberEntriesInAffectedSubtree :: nat
  mKeyInformation :: DiscriminativeBit

definition getFirstIndexInAffectedSubtree :: "InsertInformation \<Rightarrow> nat" where
  "getFirstIndexInAffectedSubtree i = mFirstIndexInAffectedSubtree i"

definition getNumberEntriesInAffectedSubtree :: "InsertInformation \<Rightarrow> nat" where
  "getNumberEntriesInAffectedSubtree i = mNumberEntriesInAffectedSubtree i"

record SearchResultForInsert =
  mEntryIndex :: nat
  mMostSignificantBitIndex :: nat

definition SearchResultForInsert_init :: "nat \<Rightarrow> nat \<Rightarrow> SearchResultForInsert" where
  "SearchResultForInsert_init entryIndex mostSignificantBitIndex =
     \<lparr> mEntryIndex = entryIndex, mMostSignificantBitIndex = mostSignificantBitIndex \<rparr>"

record NodeAllocationInformation =
  mEntriesMask :: u32
  mTotalSizeInBytes :: u16
  mPointerOffset :: u16

definition MAXIMUM_NUMBER_NODE_ENTRIES :: nat where
  "MAXIMUM_NUMBER_NODE_ENTRIES = 32"

text \<open>The static array of a node class, filled by its \<open>getNodeAllocationInformation\<close>, and its lookup.\<close>

definition mAllocationInformations :: "(nat \<Rightarrow> 'i cxx) \<Rightarrow> 'i list cxx" where
  "mAllocationInformations getNodeAllocationInformation =
     rmap getNodeAllocationInformation [1..<Suc MAXIMUM_NUMBER_NODE_ENTRIES]"

definition getAllocationInformation :: "(nat \<Rightarrow> 'i cxx) \<Rightarrow> nat \<Rightarrow> 'i cxx" where
  "getAllocationInformation getNodeAllocationInformation numberEntries =
     rbind (mAllocationInformations getNodeAllocationInformation) (\<lambda>a.
       if 1 \<le> numberEntries \<and> numberEntries \<le> length a then Inr (a ! (numberEntries - 1)) else Inl UB_Index)"

record PartialKeyConversionInformation =
  mAdditionalMask :: u32
  mConversionMask :: u32

record entryVector =
  entry_value :: u64
  entry_mask_bits :: u64
  entry_pp :: u64

definition entryVector0 :: entryVector where
  "entryVector0 = \<lparr> entry_value = 0, entry_mask_bits = 0, entry_pp = 0 \<rparr>"

section \<open>A binary node\<close>

text \<open>The type of the children and their height are parameters, as in the template.\<close>

record 'c BiNode =
  bi_mDiscriminativeBitIndex :: nat
  bi_mHeight :: nat
  bi_mLeft :: 'c
  bi_mRight :: 'c

definition BiNode_of :: "nat \<Rightarrow> nat \<Rightarrow> 'c \<Rightarrow> 'c \<Rightarrow> 'c BiNode" where
  "BiNode_of discriminativeBitIndex height left right =
     \<lparr> bi_mDiscriminativeBitIndex = discriminativeBitIndex, bi_mHeight = height,
       bi_mLeft = left, bi_mRight = right \<rparr>"

definition createFromExistingAndNewEntry ::
  "('c \<Rightarrow> nat cxx) \<Rightarrow> DiscriminativeBit \<Rightarrow> 'c \<Rightarrow> 'c \<Rightarrow> 'c BiNode cxx" where
  "createFromExistingAndNewEntry getHeight discriminativeBit existingNode newEntry =
     rbind (getHeight existingNode) (\<lambda>height.
       let newHeight = u16nat (height + 1)
       in Inr (if mBitValue discriminativeBit \<noteq> 0
               then BiNode_of (unat (mAbsoluteBitIndex discriminativeBit)) newHeight existingNode newEntry
               else BiNode_of (unat (mAbsoluteBitIndex discriminativeBit)) newHeight newEntry existingNode))"

text \<open>With more than eight bits and bytes the value returned is that of a node type that holds them.\<close>

lemma node_type_of_counts:
  "list_all (\<lambda>bits. list_all (\<lambda>bytes. bytes \<le> bits \<longrightarrow>
     (case NodeTypeToNodeParameters (NodeTypes ! unat (getRandomNodeType 0 0 (of_nat bits) (of_nat bytes))) of
        (c, w) \<Rightarrow> bits \<le> w \<and> (c = MultiMaskClass2 \<and> bytes \<le> 16 \<or> c = MultiMaskClass4)))
     [9..<33]) [9..<33]"
  by code_simp

end
