(* ===== verification/Child_Pointer.thy ===== *)
theory Child_Pointer
  imports Node_Commons
begin

text \<open>
  \<open>src/hot/single-threaded/include/hot/singlethreaded/HOTSingleThreadedChildPointer.hpp\<close> and its
  interface: an entry of a node, either a leaf with its tuple identifier, wildcard mask, priority and
  further rules, or the tagged address of a node.  An \<open>intptr_t\<close> is its 64 bits; a left shift drops
  the bits shifted out and a right shift repeats the sign, as the code expects of the compiler.  What
  needs the nodes themselves (heights, subtrees) is in \<open>Hot_Node\<close>.
\<close>

unbundle bit_operations_syntax

section \<open>The record and its constructors\<close>

record HOTSingleThreadedChildPointer =
  mPointer :: u64
  mMask :: u64
  priority :: u64
  entryList :: "entryVector list"
  listSize :: u8

definition NODE_ALGORITHM_TYPE_EXTRACTION_MASK :: u64 where
  "NODE_ALGORITHM_TYPE_EXTRACTION_MASK = 0x7"

definition POINTER_AND_IS_LEAF_VALUE_MASK :: u64 where
  "POINTER_AND_IS_LEAF_VALUE_MASK = 15"

definition POINTER_EXTRACTION_MASK :: u64 where
  "POINTER_EXTRACTION_MASK = NOT POINTER_AND_IS_LEAF_VALUE_MASK"

definition NODE_ALGORITH_TYPE_HELPER_EXTRACTION_MASK :: u64 where
  "NODE_ALGORITH_TYPE_HELPER_EXTRACTION_MASK = push_bit 1 NODE_ALGORITHM_TYPE_EXTRACTION_MASK"

text \<open>
  The array of entries is initialised to zeros whenever a constructor does not set it.  Constructors
  that leave other members out leave them as the memory holds them, the argument \<open>mem\<close>.
\<close>

definition empty_entries :: "entryVector list" where
  "empty_entries = replicate 8 entryVector0"

definition ChildPointer0 :: HOTSingleThreadedChildPointer where
  "ChildPointer0 = \<lparr> mPointer = 0, mMask = 0, priority = 0, entryList = empty_entries, listSize = 0 \<rparr>"

definition ChildPointer_copy :: "HOTSingleThreadedChildPointer \<Rightarrow> HOTSingleThreadedChildPointer" where
  "ChildPointer_copy other =
     \<lparr> mPointer = mPointer other, mMask = mMask other, priority = priority other,
       entryList = entryList other, listSize = listSize other \<rparr>"

definition ChildPointer_assign ::
  "HOTSingleThreadedChildPointer \<Rightarrow> HOTSingleThreadedChildPointer \<Rightarrow> HOTSingleThreadedChildPointer" where
  "ChildPointer_assign this other =
     this \<lparr> mPointer := mPointer other, mMask := mMask other, priority := priority other,
            entryList := entryList other, listSize := listSize other \<rparr>"

definition ChildPointer_node ::
  "HOTSingleThreadedChildPointer \<Rightarrow> NodeType \<Rightarrow> u64 \<Rightarrow> HOTSingleThreadedChildPointer" where
  "ChildPointer_node mem nodeAlgorithmType node =
     mem \<lparr> mPointer := push_bit 1 (node OR of_nat (NodeType_code nodeAlgorithmType)),
           entryList := empty_entries \<rparr>"

definition ChildPointer_leaf :: "HOTSingleThreadedChildPointer \<Rightarrow> u64 \<Rightarrow> HOTSingleThreadedChildPointer" where
  "ChildPointer_leaf mem leafValue =
     mem \<lparr> mPointer := push_bit 1 leafValue OR 1, entryList := empty_entries \<rparr>"

definition ChildPointer_masked ::
  "HOTSingleThreadedChildPointer \<Rightarrow> u64 \<Rightarrow> u64 \<Rightarrow> HOTSingleThreadedChildPointer" where
  "ChildPointer_masked mem leafValue msk =
     mem \<lparr> mPointer := push_bit 1 leafValue OR 1, mMask := msk, entryList := empty_entries \<rparr>"

definition ChildPointer_rule ::
  "u64 \<Rightarrow> u64 \<Rightarrow> u64 \<Rightarrow> entryVector list \<Rightarrow> HOTSingleThreadedChildPointer" where
  "ChildPointer_rule leafValue msk prio WildcardList =
     \<lparr> mPointer = push_bit 1 leafValue OR 1, mMask = msk, priority = prio,
       entryList = WildcardList, listSize = 0 \<rparr>"

definition ChildPointer_rules ::
  "u64 \<Rightarrow> u64 \<Rightarrow> u64 \<Rightarrow> entryVector list \<Rightarrow> u8 \<Rightarrow> HOTSingleThreadedChildPointer" where
  "ChildPointer_rules leafValue msk prio WildcardList listsize =
     \<lparr> mPointer = push_bit 1 leafValue OR 1, mMask = msk, priority = prio,
       entryList = WildcardList, listSize = listsize \<rparr>"

section \<open>Queries\<close>

definition eq_pointers :: "HOTSingleThreadedChildPointer \<Rightarrow> HOTSingleThreadedChildPointer \<Rightarrow> bool" where
  "eq_pointers p other \<longleftrightarrow> mPointer p = mPointer other \<and> mMask p = mMask other"

definition neq_pointers :: "HOTSingleThreadedChildPointer \<Rightarrow> HOTSingleThreadedChildPointer \<Rightarrow> bool" where
  "neq_pointers p other \<longleftrightarrow> mPointer p \<noteq> mPointer other \<or> mMask p \<noteq> mMask other"

definition getNodeType :: "HOTSingleThreadedChildPointer \<Rightarrow> NodeType" where
  "getNodeType p =
     (let nodeAlgorithmCode = ucast (mPointer p AND NODE_ALGORITH_TYPE_HELPER_EXTRACTION_MASK) :: u32
      in NodeTypes ! unat (drop_bit 1 nodeAlgorithmCode))"

definition getNode :: "HOTSingleThreadedChildPointer \<Rightarrow> u64" where
  "getNode p = signed_drop_bit 1 (mPointer p) AND POINTER_EXTRACTION_MASK"

definition getTid :: "HOTSingleThreadedChildPointer \<Rightarrow> u64" where
  "getTid p = signed_drop_bit 1 (mPointer p)"

definition pointer_getMask :: "HOTSingleThreadedChildPointer \<Rightarrow> u64" where
  "pointer_getMask p = mMask p"

definition isLeaf :: "HOTSingleThreadedChildPointer \<Rightarrow> bool" where
  "isLeaf p \<longleftrightarrow> mPointer p AND 1 \<noteq> 0"

definition isNode :: "HOTSingleThreadedChildPointer \<Rightarrow> bool" where
  "isNode p \<longleftrightarrow> \<not> isLeaf p"

definition isAValidNode :: "HOTSingleThreadedChildPointer \<Rightarrow> bool" where
  "isAValidNode p \<longleftrightarrow> isNode p \<and> mPointer p \<noteq> 0"

definition isUnused :: "HOTSingleThreadedChildPointer \<Rightarrow> bool" where
  "isUnused p \<longleftrightarrow> \<not> isLeaf p \<and> getNode p = 0"

section \<open>Tagging loses nothing\<close>

lemma isLeaf_bit: "isLeaf p \<longleftrightarrow> bit (mPointer p) 0"
  by (auto simp: isLeaf_def bit_0 and_one_eq odd_iff_mod_2_eq_one)

lemma bit_mask15: "bit (15 :: u64) k \<longleftrightarrow> k < 4"
proof -
  have "(15 :: u64) = mask 4" by (simp add: mask_eq_exp_minus_1)
  then show ?thesis unfolding \<open>15 = mask 4\<close> bit_mask_iff by simp arith
qed

lemma bit_shifted: "bit (push_bit 1 (v :: u64) OR c) k \<longleftrightarrow> k < 64 \<and> 1 \<le> k \<and> bit v (k - 1) \<or> bit c k"
  unfolding bit_or_iff bit_push_bit_iff by auto

lemma bit_untag:
  "bit (signed_drop_bit 1 w :: u64) k \<longleftrightarrow> k < 64 \<and> bit w (if k = 63 then 63 else Suc k)"
  unfolding bit_signed_drop_bit_iff by (auto dest: bit_imp_le_length)

lemma type_code_bit: "bit (of_nat (NodeType_code t) :: u64) k \<Longrightarrow> k < 3"
proof (rule ccontr)
  assume b: "bit (of_nat (NodeType_code t) :: u64) k" and "\<not> k < 3"
  have "(of_nat (NodeType_code t) :: u64) = take_bit 3 (of_nat (NodeType_code t))"
    by (cases t) simp_all
  with b \<open>\<not> k < 3\<close> show False by (metis bit_take_bit_iff)
qed

lemma type_code_take: "take_bit 3 (of_nat (NodeType_code t) :: u64) = of_nat (NodeType_code t)"
  by (cases t) simp_all

lemma leaf_tid:
  "getTid (ChildPointer_rule v m p es) = v \<longleftrightarrow> bit v 63 = bit v 62"
proof -
  have b: "bit (getTid (ChildPointer_rule v m p es)) k \<longleftrightarrow> k < 64 \<and> bit v (min k 62)" for k
    unfolding getTid_def ChildPointer_rule_def HOTSingleThreadedChildPointer.simps bit_untag bit_shifted
    by (auto simp: min_def bit_1_iff dest: bit_imp_le_length)
  show ?thesis
  proof
    assume "getTid (ChildPointer_rule v m p es) = v"
    then show "bit v 63 = bit v 62" using b [of 63] by simp
  next
    assume "bit v 63 = bit v 62"
    then have "bit (getTid (ChildPointer_rule v m p es)) k = bit v k" if "k < 64" for k
      using b [of k] that by (cases "k = 63") (simp_all add: min_def)
    then show "getTid (ChildPointer_rule v m p es) = v" by (auto intro: bit_word_eqI)
  qed
qed

lemma mPointer_node: "mPointer (ChildPointer_node mem t a) = push_bit 1 (a OR of_nat (NodeType_code t))"
  by (simp add: ChildPointer_node_def)

lemma node_address:
  assumes "a AND 7 = 0" and "bit a 63 = bit a 62"
  shows "getNode (ChildPointer_node mem t a) = a AND NOT 8"
proof (rule bit_word_eqI)
  fix k assume k: "k < LENGTH(64)"
  have low: "\<not> bit a k" if "k < 3"
  proof -
    have "bit (7 :: u64) k" using that by (cases k; simp add: bit_numeral_rec(2) numeral_3_eq_3 less_Suc_eq) auto
    then show ?thesis using assms(1) by (metis bit_0_eq bit_and_iff bot_apply bot_bool_def)
  qed
  have "bit (8 :: u64) k \<longleftrightarrow> k = 3"
    using bit_exp_iff [of 3 k, where 'a = "64 word"] by auto
  moreover have "bit (getNode (ChildPointer_node mem t a)) k \<longleftrightarrow>
      k \<ge> 4 \<and> (bit a (min k 62) \<or> bit (of_nat (NodeType_code t) :: u64) (min k 62))"
    using k unfolding getNode_def mPointer_node
      bit_and_iff POINTER_EXTRACTION_MASK_def POINTER_AND_IS_LEAF_VALUE_MASK_def bit_not_iff bit_mask15 bit_untag
      bit_push_bit_iff bit_or_iff
    by (auto simp: min_def)
  moreover have "bit a (min k 62) = bit a k" using assms(2) k by (cases "k = 63") (simp_all add: min_def)
  ultimately show "bit (getNode (ChildPointer_node mem t a)) k \<longleftrightarrow> bit (a AND NOT 8) k"
    using type_code_bit [of t "min k 62"] k low unfolding bit_and_iff bit_not_iff by (auto simp: min_def)
qed

lemma node_tag: "a AND 7 = 0 \<Longrightarrow> getNodeType (ChildPointer_node mem t a) = t"
proof -
  assume a: "a AND 7 = 0"
  have m7: "(7 :: u64) = mask 3" by (simp add: mask_eq_exp_minus_1)
  have low: "\<not> bit a k" if "k < 3" for k
    using arg_cong [OF a, of "\<lambda>w. bit w k"] that by (simp add: m7 bit_and_iff bit_mask_iff)
  have "drop_bit 1 (ucast (mPointer (ChildPointer_node mem t a) AND NODE_ALGORITH_TYPE_HELPER_EXTRACTION_MASK) :: u32) =
     ucast (of_nat (NodeType_code t) :: u64)"
  proof (rule bit_word_eqI)
    fix k assume k: "k < LENGTH(32)"
    show "bit (drop_bit 1 (ucast (mPointer (ChildPointer_node mem t a) AND NODE_ALGORITH_TYPE_HELPER_EXTRACTION_MASK) :: u32)) k
      = bit (ucast (of_nat (NodeType_code t) :: u64) :: u32) k"
      using k low [of k] type_code_bit [of t k]
      unfolding bit_drop_bit_eq comp_def mPointer_node NODE_ALGORITH_TYPE_HELPER_EXTRACTION_MASK_def
        NODE_ALGORITHM_TYPE_EXTRACTION_MASK_def m7 bit_ucast_iff bit_and_iff bit_push_bit_iff bit_mask_iff bit_or_iff
      by (cases "k = 31") (auto dest: bit_imp_le_length)
  qed
  then show ?thesis
    by (simp only: getNodeType_def Let_def) (cases t; simp add: NodeTypes_def)
qed

text \<open>C25: A leaf and a node are told apart by the tag; the tuple identifier of a leaf comes back iff its
  two top bits agree; the type of a node comes back, and its address, if it is aligned as the nodes
  are declared (to 8 bytes), without bit 3: the address comes back iff it is even a multiple of 16.\<close>
theorem child_pointer_round_trip:
  assumes "a AND 7 = 0" and "bit a 63 = bit a 62"
  shows "isLeaf (ChildPointer_rule v m p es) \<and>
    (getTid (ChildPointer_rule v m p es) = v \<longleftrightarrow> bit v 63 = bit v 62) \<and>
    isNode (ChildPointer_node mem t a) \<and> getNodeType (ChildPointer_node mem t a) = t \<and>
    getNode (ChildPointer_node mem t a) = a AND NOT 8 \<and>
    (getNode (ChildPointer_node mem t a) = a \<longleftrightarrow> \<not> bit a 3)"
proof -
  have b8: "bit (8 :: u64) k \<longleftrightarrow> k = 3" for k using bit_exp_iff [of 3 k, where 'a = "64 word"] by auto
  have "a AND NOT 8 = a \<longleftrightarrow> \<not> bit a 3"
  proof
    assume "a AND NOT 8 = a"
    from arg_cong [OF this, of "\<lambda>w. bit w 3"] show "\<not> bit a 3" unfolding bit_and_iff bit_not_iff b8 by simp
  next
    assume "\<not> bit a 3"
    then show "a AND NOT 8 = a"
      by (intro bit_word_eqI) (unfold bit_and_iff bit_not_iff b8, auto)
  qed
  moreover have "isLeaf (ChildPointer_rule v m p es)"
    unfolding isLeaf_bit ChildPointer_rule_def HOTSingleThreadedChildPointer.simps bit_or_iff by simp
  moreover have "isNode (ChildPointer_node mem t a)"
    unfolding isNode_def isLeaf_bit mPointer_node bit_push_bit_iff by simp
  ultimately show ?thesis
    using leaf_tid [of v m p es] node_tag [OF assms(1)] node_address [OF assms] by metis
qed

theorem child_pointer_round_trip_witness:
  "let mem = ChildPointer0; v = 0xC0A80001; t = MULTI_MASK_8_BYTES_AND_8_BIT_PARTIAL_KEYS; a = 0x7F0000000048 in
   isLeaf (ChildPointer_rule v 0 1 empty_entries) \<and>
   (getTid (ChildPointer_rule v 0 1 empty_entries) = v \<longleftrightarrow> bit v 63 = bit v 62) \<and>
   isNode (ChildPointer_node mem t a) \<and> getNodeType (ChildPointer_node mem t a) = t \<and>
   getNode (ChildPointer_node mem t a) = a AND NOT 8 \<and>
   (getNode (ChildPointer_node mem t a) = a \<longleftrightarrow> \<not> bit a 3)"
  unfolding Let_def by (rule child_pointer_round_trip) simp_all

end
