(* ===== verification/Mapping_Queries.thy ===== *)
theory Mapping_Queries
  imports Multi_Mask_Insert Single_Mask_Extract
begin

text \<open>
  The queries of a mapping of any kind.  A node is a template over the class of its mapping; here the
  class is the constructor of \<open>mapping\<close>, and each query is the one of that class.  The laws say what
  every mapping answers in terms of its positions, whatever its class: the dense partial key, the bits
  before a discriminative bit, single bits, and the order of the positions.
\<close>

unbundle bit_operations_syntax

section \<open>The queries\<close>

fun mapping_extractMask :: "mapping \<Rightarrow> u8 list \<Rightarrow> u32 cxx" where
  "mapping_extractMask (SingleMapping m) keyBytes = sm_extractMask m keyBytes"
| "mapping_extractMask (MultiMapping1 m) keyBytes = mm_extractMask 1 m keyBytes"
| "mapping_extractMask (MultiMapping2 m) keyBytes = mm_extractMask 2 m keyBytes"
| "mapping_extractMask (MultiMapping4 m) keyBytes = mm_extractMask 4 m keyBytes"

text \<open>A multi mask takes no notice of the wildcards.\<close>

fun mapping_extractMask_mask ::
  "mapping \<Rightarrow> u8 list \<Rightarrow> u64 \<Rightarrow> Search_globals \<Rightarrow> (u32 \<times> Search_globals) cxx" where
  "mapping_extractMask_mask (SingleMapping m) keyBytes msk g = sm_extractMask_mask m keyBytes msk g"
| "mapping_extractMask_mask (MultiMapping1 m) keyBytes msk g =
     rbind (mm_extractMask_mask 1 m keyBytes msk) (\<lambda>k. Inr (k, g))"
| "mapping_extractMask_mask (MultiMapping2 m) keyBytes msk g =
     rbind (mm_extractMask_mask 2 m keyBytes msk) (\<lambda>k. Inr (k, g))"
| "mapping_extractMask_mask (MultiMapping4 m) keyBytes msk g =
     rbind (mm_extractMask_mask 4 m keyBytes msk) (\<lambda>k. Inr (k, g))"

fun mapping_getPrefixBitsMask :: "mapping \<Rightarrow> DiscriminativeBit \<Rightarrow> u32 cxx" where
  "mapping_getPrefixBitsMask (SingleMapping m) d = sm_getPrefixBitsMask m d"
| "mapping_getPrefixBitsMask (MultiMapping1 m) d = mm_getPrefixBitsMask 1 m d"
| "mapping_getPrefixBitsMask (MultiMapping2 m) d = mm_getPrefixBitsMask 2 m d"
| "mapping_getPrefixBitsMask (MultiMapping4 m) d = mm_getPrefixBitsMask 4 m d"

fun mapping_getMaskFor :: "mapping \<Rightarrow> DiscriminativeBit \<Rightarrow> u32 cxx" where
  "mapping_getMaskFor (SingleMapping m) d = sm_getMaskFor m d"
| "mapping_getMaskFor (MultiMapping1 m) d = mm_getMaskFor 1 m d"
| "mapping_getMaskFor (MultiMapping2 m) d = mm_getMaskFor 2 m d"
| "mapping_getMaskFor (MultiMapping4 m) d = mm_getMaskFor 4 m d"

fun mapping_getMaskForHighestBit :: "mapping \<Rightarrow> u32 cxx" where
  "mapping_getMaskForHighestBit (SingleMapping m) = sm_getMaskForHighestBit m"
| "mapping_getMaskForHighestBit (MultiMapping1 m) = mm_getMaskForHighestBit 1 m"
| "mapping_getMaskForHighestBit (MultiMapping2 m) = mm_getMaskForHighestBit 2 m"
| "mapping_getMaskForHighestBit (MultiMapping4 m) = mm_getMaskForHighestBit 4 m"

fun mapping_getAllMaskBits :: "mapping \<Rightarrow> u32 cxx" where
  "mapping_getAllMaskBits (SingleMapping m) = Inr (sm_getAllMaskBits m)"
| "mapping_getAllMaskBits (MultiMapping1 m) = mm_getAllMaskBits m"
| "mapping_getAllMaskBits (MultiMapping2 m) = mm_getAllMaskBits m"
| "mapping_getAllMaskBits (MultiMapping4 m) = mm_getAllMaskBits m"

fun mapping_getMostSignifikantMaskBit :: "mapping \<Rightarrow> u32 \<Rightarrow> u32 cxx" where
  "mapping_getMostSignifikantMaskBit (SingleMapping m) k = sm_getMostSignifikantMaskBit m k"
| "mapping_getMostSignifikantMaskBit (MultiMapping1 m) k = mm_getMostSignifikantMaskBit 1 m k"
| "mapping_getMostSignifikantMaskBit (MultiMapping2 m) k = mm_getMostSignifikantMaskBit 2 m k"
| "mapping_getMostSignifikantMaskBit (MultiMapping4 m) k = mm_getMostSignifikantMaskBit 4 m k"

fun mapping_getLeastSignificantBitIndex :: "mapping \<Rightarrow> u32 \<Rightarrow> nat cxx" where
  "mapping_getLeastSignificantBitIndex (SingleMapping m) k = Inr (sm_getLeastSignificantBitIndex m k)"
| "mapping_getLeastSignificantBitIndex (MultiMapping1 m) k = mm_getLeastSignificantBitIndex 1 m k"
| "mapping_getLeastSignificantBitIndex (MultiMapping2 m) k = mm_getLeastSignificantBitIndex 2 m k"
| "mapping_getLeastSignificantBitIndex (MultiMapping4 m) k = mm_getLeastSignificantBitIndex 4 m k"

fun mapping_calculateNumberBitsUsed :: "mapping \<Rightarrow> nat" where
  "mapping_calculateNumberBitsUsed (SingleMapping m) = sm_calculateNumberBitsUsed m"
| "mapping_calculateNumberBitsUsed (MultiMapping1 m) = mm_calculateNumberBitsUsed m"
| "mapping_calculateNumberBitsUsed (MultiMapping2 m) = mm_calculateNumberBitsUsed m"
| "mapping_calculateNumberBitsUsed (MultiMapping4 m) = mm_calculateNumberBitsUsed m"

fun mapping_createIntermediateKey :: "mapping \<Rightarrow> u8 list cxx" where
  "mapping_createIntermediateKey (SingleMapping m) = sm_createIntermediateKeyWithOnlySignificantBitsSet m"
| "mapping_createIntermediateKey (MultiMapping1 m) = mm_createIntermediateKeyWithOnlySignificantBitsSet m"
| "mapping_createIntermediateKey (MultiMapping2 m) = mm_createIntermediateKeyWithOnlySignificantBitsSet m"
| "mapping_createIntermediateKey (MultiMapping4 m) = mm_createIntermediateKeyWithOnlySignificantBitsSet m"

fun mapping_mostSignificantIndex :: "mapping \<Rightarrow> nat" where
  "mapping_mostSignificantIndex (SingleMapping m) = mMostSignificantDiscriminativeBitIndex m"
| "mapping_mostSignificantIndex (MultiMapping1 m) = mMostSignificantDiscriminativeBitIndex m"
| "mapping_mostSignificantIndex (MultiMapping2 m) = mMostSignificantDiscriminativeBitIndex m"
| "mapping_mostSignificantIndex (MultiMapping4 m) = mMostSignificantDiscriminativeBitIndex m"

fun mapping_getDiscriminativeBits :: "mapping \<Rightarrow> nat list cxx" where
  "mapping_getDiscriminativeBits (SingleMapping m) = Inr (sm_getDiscriminativeBits m)"
| "mapping_getDiscriminativeBits (MultiMapping1 m) = mm_getDiscriminativeBits m"
| "mapping_getDiscriminativeBits (MultiMapping2 m) = mm_getDiscriminativeBits m"
| "mapping_getDiscriminativeBits (MultiMapping4 m) = mm_getDiscriminativeBits m"

section \<open>Masks of single bits of a multi mask\<close>

lemma low_bits_mask: "0 < N \<Longrightarrow> N \<le> 32 \<Longrightarrow> shr32 (- 1) (sub32 32 N) = Inr (mask N)"
proof -
  assume N: "0 < N" "N \<le> 32"
  have "drop_bit (32 - N) (- 1 :: u32) = mask N"
  proof (rule bit_word_eqI)
    fix i assume "i < LENGTH(32)"
    then have "32 - N + i < 32 \<longleftrightarrow> i < N" using N by auto
    then show "bit (drop_bit (32 - N) (- 1 :: u32)) i \<longleftrightarrow> bit (mask N :: u32) i"
      using N by (simp add: bit_drop_bit_eq bit_mask_iff)
  qed
  moreover have "sub32 32 N = 32 - N" "32 - N < 32" using N by simp_all
  ultimately show ?thesis by (simp only: shift32_simps)
qed

lemma byte_index_of_position:
  assumes sh: "mm_shape n m" and i: "i < mNumberExtractionBytes m"
  shows "getExtractionByteIndexForPosition n m (mm_pos m i) = Inr i"
proof -
  note s = mm_shapeD [OF sh]
  let ?w = "moveMask8 (cmpeq_epi8 (set1_epi8 (8 * n) (of_nat (mm_pos m i))) (mExtractionPositions m))"
  have N: "mNumberExtractionBytes m \<le> 32" using s(1,5) by auto
  have eq: "mExtractionPositions m ! j = mExtractionPositions m ! i \<longleftrightarrow> j = i"
    if "j < mNumberExtractionBytes m" for j
    using s(8) [of i j] s(8) [of j i] i that by (metis less_irrefl linorder_neqE_nat)
  have b: "bit (?w AND mask (mNumberExtractionBytes m)) j \<longleftrightarrow> j = i" if "j < mNumberExtractionBytes m" for j
    using i N s(2,5) eq [OF that] that
    by (auto simp: moveMask8_def cmpeq_epi8_def set1_epi8_def word_bits bit_and_iff bit_mask_iff nth_cmpeq set1_def)
  have "tzcnt (?w AND mask (mNumberExtractionBytes m)) = i"
    by (rule tzcnt_eqI) (use b i in \<open>auto intro: less_trans\<close>)
  then show ?thesis
    using s(2,4) N by (simp add: getExtractionByteIndexForPosition_def getPositionsRegister_def
      getMaskForExtractionBytesUsed_def low_bits_mask)
qed

text \<open>An array with a single byte in use.\<close>

lemma single_byte_array:
  assumes "N \<le> K" "i < N"
  shows "(replicate K 0) [i := b] = map (\<lambda>j. if j = i then b else (0 :: u8)) [0..<N] @ drop N (replicate K 0)"
  by (rule nth_equalityI) (use assms in \<open>auto simp: nth_append nth_list_update\<close>)

lemma mm_bits_byte:
  assumes "mm_shape n m" and "k \<in> mm_bits m"
  obtains i where "i < mNumberExtractionBytes m" "mm_pos m i = k div 8"
proof -
  from assms(2) obtain x where "bitb (mExtractionData m) x" "k = abs_bit (mm_pos m) x"
    by (auto simp: mm_bits_def mm_positions_def)
  then show thesis using that [of "x div 8"] onesb_used [OF assms(1)] by simp
qed

lemma div_mod_eq_iff: "(a :: nat) = b \<longleftrightarrow> a div 8 = b div 8 \<and> a mod 8 = b mod 8"
  by (metis div_mult_mod_eq)

lemma single_bit_byte:
  assumes sh: "mm_shape n m" and few: "length (mm_positions m) \<le> 32"
    and i: "i < mNumberExtractionBytes m" "mm_pos m i = k div 8"
  shows "extractMaskForMappedInput n m ((replicate (8 * n) 0) [i := push_bit (7 - k mod 8) 1]) =
    Inr (of_bits (map (\<lambda>j. j = k) (mm_positions m)))"
proof -
  note s = mm_shapeD [OF sh]
  let ?f = "\<lambda>j. if j = i then push_bit (7 - k mod 8) 1 else (0 :: u8)"
  have b: "bit (?f (x div 8)) (x mod 8) \<longleftrightarrow> abs_bit (mm_pos m) x = k" if x: "bitb (mExtractionData m) x" for x
  proof -
    note u = onesb_used(1) [OF sh x]
    have "mm_pos m (x div 8) = mm_pos m i \<longleftrightarrow> x div 8 = i"
      using s(8) [of i "x div 8"] s(8) [of "x div 8" i] i u by (metis less_irrefl linorder_neqE_nat)
    moreover have "abs_bit (mm_pos m) x = k \<longleftrightarrow>
        mm_pos m (x div 8) = k div 8 \<and> 7 - x mod 8 = k mod 8"
      unfolding div_mod_eq_iff [of _ k] abs_bit_div_mod ..
    moreover have "7 - x mod 8 = k mod 8 \<longleftrightarrow> x mod 8 = 7 - k mod 8"
      using mod_less_divisor [of 8 x] mod_less_divisor [of 8 k] by arith
    moreover have "bit (push_bit (7 - k mod 8) (1 :: u8)) (x mod 8) \<longleftrightarrow> x mod 8 = 7 - k mod 8"
      unfolding bit_push_bit_iff bit_1_iff using mod_less_divisor [of 8 k] by auto
    ultimately show ?thesis using i by auto
  qed
  show ?thesis
    unfolding single_byte_array [OF s(5) i(1)] by (rule mapped_bits [OF sh few]) (rule b)
qed

lemma mm_getMaskFor_bit:
  assumes "mm_valid n m" and d: "dbit_for d k" and k: "k \<in> mm_bits m"
  shows "mm_getMaskFor n m d = Inr (of_bits (map (\<lambda>j. j = k) (mm_positions m)))"
proof -
  have sh: "mm_shape n m" and few: "length (mm_positions m) \<le> 32"
    using assms(1) by (auto simp: mm_valid_def mm_wf_def)
  obtain i where i: "i < mNumberExtractionBytes m" "mm_pos m i = k div 8" by (rule mm_bits_byte [OF sh k])
  have "i < 8 * n" using i(1) mm_shapeD(5) [OF sh] by simp
  then show ?thesis
    using byte_index_of_position [OF sh i(1)] single_bit_byte [OF sh few i] extraction_byte [OF d] dbit_split(1) [OF d] i(2)
    by (simp add: mm_getMaskFor_def setExtractionByteAt_def)
qed

lemma bytes64_of_byte: "bytes64 (ucast (b :: u8)) = b # replicate 7 0"
proof (rule nth_equalityI)
  fix i assume "i < length (bytes64 (ucast b))"
  then have i: "i < 8" by simp
  show "bytes64 (ucast b) ! i = (b # replicate 7 0) ! i"
  proof (cases i)
    case 0
    then show ?thesis by (intro bit_word_eqI) (simp add: word_bits bit_unsigned_iff)
  next
    case (Suc j)
    then have "\<not> bit b (8 * i + k)" for k by (auto dest: bit_imp_le_length)
    then show ?thesis using Suc i by (intro bit_word_eqI) (simp add: word_bits bit_unsigned_iff)
  qed
qed simp

lemma mm_getMaskForHighestBit_bit:
  assumes "mm_valid n m"
  shows "mm_getMaskForHighestBit n m = Inr (of_bits (map (\<lambda>j. j = Min (mm_bits m)) (mm_positions m)))"
proof -
  have sh: "mm_shape n m" and few: "length (mm_positions m) \<le> 32"
    and ms: "mMostSignificantDiscriminativeBitIndex m = Min (mm_bits m)"
    using assms by (auto simp: mm_valid_def mm_wf_def)
  note s = mm_shapeD [OF sh]
  let ?k = "Min (mm_bits m)"
  have ne: "mm_bits m \<noteq> {}" and fin: "finite (mm_bits m)"
  proof -
    have "mExtractionData m ! 0 \<noteq> 0" using s(4,6) by simp
    then obtain j where j: "bit (mExtractionData m ! 0) j" by (auto simp: bit_eq_iff)
    then have "j < 8" by (auto dest: bit_imp_le_length)
    with j have "bitb (mExtractionData m) j" using s(1,3) by (auto simp: bitb_def)
    then show "mm_bits m \<noteq> {}" by (auto simp: mm_bits_def mm_positions_def)
  qed (simp add: mm_bits_def)
  have first: "mm_pos m 0 = ?k div 8"
  proof -
    have k: "?k \<in> mm_bits m" using fin ne by simp
    obtain i where i: "i < mNumberExtractionBytes m" "mm_pos m i = ?k div 8" by (rule mm_bits_byte [OF sh k])
    have "mExtractionData m ! 0 \<noteq> 0" using s(4,6) by simp
    then obtain j where j: "bit (mExtractionData m ! 0) j" by (auto simp: bit_eq_iff)
    then have j8: "j < 8" by (auto dest: bit_imp_le_length)
    with j have "bitb (mExtractionData m) j" using s(1,3) by (auto simp: bitb_def)
    then have "abs_bit (mm_pos m) j \<in> mm_bits m" by (auto simp: mm_bits_def mm_positions_def)
    then have "?k \<le> abs_bit (mm_pos m) j" using fin by simp
    then have "?k div 8 \<le> abs_bit (mm_pos m) j div 8" by (rule div_le_mono)
    also have "\<dots> = mm_pos m 0" using j8 by simp
    finally show ?thesis using mm_pos_mono [OF sh, of 0 i] i by simp
  qed
  have pos: "0 < length (mExtractionPositions m)" using s(1,2) by auto
  have k8: "8 * mm_pos m 0 = ?k - ?k mod 8" "?k mod 8 \<le> ?k"
    using first by (simp_all add: minus_mod_eq_mult_div)
  have pk: "mm_pos m 0 < 256" using unsigned_less [of "mExtractionPositions m ! 0", where 'a = nat] by simp
  then have "?k div 8 < 256" using first by simp
  then have kb: "?k < 2048" by (simp add: div_less_iff_less_mult)
  have rel: "u16nat (sub32 ?k (unat (convertBytesToBits (ucast (mExtractionPositions m ! 0))))) = ?k mod 8"
  proof -
    have "unat (ucast (mExtractionPositions m ! 0) :: u16) = mm_pos m 0" by (simp add: unsigned_ucast_eq take_bit_nat_eq_self_iff pk order_less_trans [OF pk])
    then have "unat (convertBytesToBits (ucast (mExtractionPositions m ! 0))) = 8 * mm_pos m 0"
      using pk by (simp add: unat_convertBytesToBits)
    moreover have "sub32 ?k (?k - ?k mod 8) = ?k mod 8" using k8(2) kb by simp
    ultimately show ?thesis using k8(1) by simp
  qed
  have byte: "getExtractionByteWithBitSetAtRelativePosition (?k mod 8) = Inr (push_bit (7 - ?k mod 8) 1)"
  proof -
    have "list_all (\<lambda>r. drop_bit r (0x80 :: u8) = push_bit (7 - r) 1) [0..<8]" by code_simp
    then have "drop_bit (?k mod 8) (0x80 :: u8) = push_bit (7 - ?k mod 8) 1" unfolding list_all_iff by simp
    then show ?thesis
      by (simp add: getExtractionByteWithBitSetAtRelativePosition_def BYTE_WITH_HIGHEST_BIT_SET_def less_trans [OF mod_less_divisor])
  qed
  have arr: "bytes64 (ucast b) @ drop 8 (replicate (8 * n) 0) = (replicate (8 * n) 0) [0 := b]" for b :: u8
  proof -
    have "replicate (8 * n) 0 = (0 :: u8) # replicate 7 0 @ replicate (8 * n - 8) 0"
      using s(1) by (auto simp: replicate_add [symmetric] numeral_eq_Suc)
    then show ?thesis by (simp add: bytes64_of_byte)
  qed
  show ?thesis
    using pos single_bit_byte [OF sh few _ first] s(4) ms rel byte arr
    by (simp add: mm_getMaskForHighestBit_def)
qed

section \<open>Laws of every mapping\<close>

definition mapping_valid :: "mapping \<Rightarrow> bool" where
  "mapping_valid M \<longleftrightarrow> mapping_wf M \<and> length (mapping_positions M) \<le> 32"

text \<open>The bytes a key must have, and the bits whose prefix the mapping can be asked for.\<close>

fun mapping_reads :: "mapping \<Rightarrow> nat" where
  "mapping_reads (SingleMapping m) = mOffsetInBytes m + 8"
| "mapping_reads (MultiMapping1 m) = mm_reads m"
| "mapping_reads (MultiMapping2 m) = mm_reads m"
| "mapping_reads (MultiMapping4 m) = mm_reads m"

fun mapping_reach :: "mapping \<Rightarrow> nat \<Rightarrow> bool" where
  "mapping_reach (SingleMapping m) k \<longleftrightarrow> 8 * mOffsetInBytes m \<le> k"
| "mapping_reach (MultiMapping1 m) k \<longleftrightarrow> True"
| "mapping_reach (MultiMapping2 m) k \<longleftrightarrow> True"
| "mapping_reach (MultiMapping4 m) k \<longleftrightarrow> True"

lemma mapping_positions_kind [simp]:
  "mapping_positions (MultiMapping1 m) = mm_positions m" "mapping_positions (MultiMapping2 m) = mm_positions m"
  "mapping_positions (MultiMapping4 m) = mm_positions m"
  by (simp_all add: mapping_positions_def)

lemma mapping_valid_kind [simp]:
  "mapping_valid (SingleMapping m) \<longleftrightarrow> sm_valid m"
  "mapping_valid (MultiMapping1 mm) \<longleftrightarrow> mm_valid 1 mm" "mapping_valid (MultiMapping2 mm) \<longleftrightarrow> mm_valid 2 mm"
  "mapping_valid (MultiMapping4 mm) \<longleftrightarrow> mm_valid 4 mm"
  by (auto simp: mapping_valid_def sm_valid_def mm_valid_def mm_wf_def sm_positions_def popcnt_def)

lemma mapping_extract_law:
  "mapping_valid M \<Longrightarrow> mapping_reads M \<le> length bs \<Longrightarrow>
   mapping_extractMask M bs = Inr (of_bits (map (key_bit bs) (mapping_positions M)))"
  by (cases M) (simp_all add: single_mask.extract_law multi_mask.extract_law)

lemma mapping_few: "mapping_valid M \<Longrightarrow> length (mapping_positions M) \<le> 32"
  by (simp add: mapping_valid_def)

interpretation mapping: partial_key_mapping mapping_extractMask mapping_positions mapping_reads mapping_valid
  by unfold_locales (simp_all add: mapping_extract_law mapping_few)

lemma mapping_prefix_law:
  "mapping_valid M \<Longrightarrow> dbit_for d k \<Longrightarrow> mapping_reach M k \<Longrightarrow>
   mapping_getPrefixBitsMask M d = Inr (of_bits (map (\<lambda>j. j < k) (mapping_positions M)))"
  by (cases M) (simp_all add: prefix_bits_mask mm_prefix_bits_mask)

lemma mapping_maskFor_law:
  "mapping_valid M \<Longrightarrow> dbit_for d k \<Longrightarrow> k \<in> mapping_bits M \<Longrightarrow>
   mapping_getMaskFor M d = Inr (of_bits (map (\<lambda>j. j = k) (mapping_positions M)))"
  using sm_bits_bounds by (cases M) (simp_all add: getMaskFor_bit mm_getMaskFor_bit)

lemma mapping_highest_law:
  "mapping_valid M \<Longrightarrow>
   mapping_getMaskForHighestBit M = Inr (of_bits (map (\<lambda>j. j = Min (mapping_bits M)) (mapping_positions M)))"
  by (cases M) (simp_all add: getMaskForHighestBit_bit mm_getMaskForHighestBit_bit)

lemma mapping_all_law:
  "mapping_valid M \<Longrightarrow> mapping_getAllMaskBits M = Inr (mask (length (mapping_positions M)))"
proof -
  assume v: "mapping_valid M"
  have "mask (length ps) = (of_bits (map (\<lambda>_. True) ps) :: u32)" for ps :: "nat list"
    by (rule bit_word_eqI) (auto simp: word_bits bit_mask_iff)
  with v show ?thesis by (cases M) (simp_all add: getAllMaskBits_all mm_getAllMaskBits_all)
qed

lemma mapping_number_law: "mapping_wf M \<Longrightarrow> mapping_calculateNumberBitsUsed M = length (mapping_positions M)"
  by (cases M) (simp_all add: sm_calculateNumberBitsUsed_def sm_positions_def popcnt_def mm_calculateNumberBitsUsed_def mm_wf_def)

lemma mapping_most_law: "mapping_wf M \<Longrightarrow> mapping_mostSignificantIndex M = Min (mapping_bits M)"
  by (cases M) (simp_all add: sm_wf_def mm_wf_def)

text \<open>The positions are in the order of the bits in memory: bytes up, bits within a byte down.\<close>

lemma sorted_abs_bit:
  assumes "sorted_wrt (<) xs" and "\<And>i j. i \<in> set xs \<Longrightarrow> j \<in> set xs \<Longrightarrow> i div 8 < j div 8 \<Longrightarrow> p (i div 8) < p (j div 8)"
  shows "sorted_wrt (<) (map (rbit \<circ> abs_bit p) xs)"
proof -
  have r: "rbit (abs_bit p i) = 8 * p (i div 8) + i mod 8" for i
    unfolding rbit_def abs_bit_def [of "\<lambda>j. j"] abs_bit_div_mod
    using mod_less_divisor [of 8 i] by simp
  have "rbit (abs_bit p i) < rbit (abs_bit p j)" if ij: "i \<in> set xs" "j \<in> set xs" "i < j" for i j
  proof -
    have "i div 8 < j div 8 \<or> i div 8 = j div 8 \<and> i mod 8 < j mod 8"
      using ij(3) by (metis div_le_mono div_mult_mod_eq le_neq_implies_less nat_add_left_cancel_less less_imp_le)
    then show ?thesis unfolding r using assms(2) [OF ij(1,2)] mod_less_divisor [of 8 i] by auto
  qed
  then show ?thesis using assms(1) by (auto simp: sorted_wrt_map intro: sorted_wrt_mono_rel)
qed

lemma mapping_positions_sorted:
  assumes "mapping_wf M" shows "sorted_wrt (<) (map rbit (mapping_positions M))"
proof -
  have mm: "sorted_wrt (<) (map rbit (mm_positions m))" if "mm_shape n m" for n m
  proof -
    have "sorted_wrt (<) (onesb (mExtractionData m))"
      using sorted_onesb distinct_onesb by (simp add: strict_sorted_iff)
    then show ?thesis unfolding mm_positions_def map_map
      by (rule sorted_abs_bit) (use mm_shapeD(8) [OF that] onesb_used(1) [OF that] in auto)
  qed
  have sm: "sorted_wrt (<) (map rbit (sm_positions m))" for m
  proof -
    have "sorted_wrt (<) (ones (mSuccessiveExtractionMask m))"
      using sorted_ones distinct_ones by (simp add: strict_sorted_iff)
    then show ?thesis unfolding sm_positions_abs map_map by (rule sorted_abs_bit) auto
  qed
  show ?thesis using assms sm mm by (cases M) (auto simp: mm_wf_def)
qed

lemma mapping_positions_eq:
  assumes "mapping_wf M" shows "mapping_positions M = map rbit (sorted_list_of_set (rbit ` mapping_bits M))"
proof -
  have "sorted_list_of_set (rbit ` mapping_bits M) = map rbit (mapping_positions M)"
    unfolding mapping_bits_def set_map [symmetric]
    by (rule sorted_list_of_set.idem_if_sorted_distinct)
      (use mapping_positions_sorted [OF assms] in \<open>simp_all add: strict_sorted_iff\<close>)
  then show ?thesis by (simp add: comp_def)
qed

end
