(* ===== verification/Hot_Node.thy ===== *)
theory Hot_Node
  imports Mapping_Queries Child_Pointer Linearised_Trie
begin

text \<open>
  \<open>HOTSingleThreadedNodeBase.hpp\<close> and the first half of \<open>HOTSingleThreadedNode.hpp\<close> (in
  \<open>src/hot/single-threaded/include/hot/singlethreaded/\<close>): a node with its layout, its search, and the
  insertion of an entry.  A node is a template over the class of its mapping and the type of its
  partial keys; here the class is the constructor of the mapping and the type is its width in bits, 8,
  16 or 32.  Partial keys are held as 32-bit words below \<open>2 ^ width\<close> and truncated when they are stored.

  The partial keys are the start of the memory of the node: the searches read 32 of them whatever the
  number of entries, so \<open>mEntries\<close> continues with whatever the memory holds there.  The children are of
  any type \<open>'c\<close>, since the node only copies them.  The entries an operation reads or writes must be
  entries the node was allocated for, otherwise the outcome is \<open>UB_Index\<close>.  Assertions are compiled out
  in the release build (\<open>-DNDEBUG\<close>) and are not part of the model.
\<close>

unbundle bit_operations_syntax

section \<open>The node\<close>

record 'c HOTSingleThreadedNode =
  mHeight :: nat
  mUsedEntriesMask :: u32
  mDiscriminativeBitsRepresentation :: mapping
  key_width :: nat
  mEntries :: "u32 list"
  mPointers :: "'c list"

definition ALL_ENTRIES_USED :: u32 where
  "ALL_ENTRIES_USED = - 1"

definition getNumberEntries :: "'c HOTSingleThreadedNode \<Rightarrow> nat" where
  "getNumberEntries n = popcnt (mUsedEntriesMask n)"

definition node_isFull :: "'c HOTSingleThreadedNode \<Rightarrow> bool" where
  "node_isFull n \<longleftrightarrow> mUsedEntriesMask n = ALL_ENTRIES_USED"

text \<open>Reading and writing the entry \<open>i\<close>.\<close>

definition get_entry :: "'c HOTSingleThreadedNode \<Rightarrow> nat \<Rightarrow> u32 cxx" where
  "get_entry n i = (if i < getNumberEntries n \<and> i < length (mEntries n) then Inr (mEntries n ! i) else Inl UB_Index)"

definition get_pointer :: "'c HOTSingleThreadedNode \<Rightarrow> nat \<Rightarrow> 'c cxx" where
  "get_pointer n i = (if i < getNumberEntries n \<and> i < length (mPointers n) then Inr (mPointers n ! i) else Inl UB_Index)"

definition set_entry :: "nat \<Rightarrow> u32 \<Rightarrow> 'c HOTSingleThreadedNode \<Rightarrow> 'c HOTSingleThreadedNode cxx" where
  "set_entry i v n =
     (if i < getNumberEntries n \<and> i < length (mEntries n)
      then Inr (n \<lparr> mEntries := (mEntries n) [i := v AND mask (key_width n)] \<rparr>) else Inl UB_Index)"

definition set_pointer :: "nat \<Rightarrow> 'c \<Rightarrow> 'c HOTSingleThreadedNode \<Rightarrow> 'c HOTSingleThreadedNode cxx" where
  "set_pointer i p n =
     (if i < getNumberEntries n \<and> i < length (mPointers n)
      then Inr (n \<lparr> mPointers := (mPointers n) [i := p] \<rparr>) else Inl UB_Index)"

section \<open>Memory layout\<close>

text \<open>The sizes of the types on x86-64, in bytes: of a child pointer, and of a node without its keys.\<close>

definition sizeof_ChildPointer :: nat where
  "sizeof_ChildPointer = 224"

fun base_size :: "mapping_class \<Rightarrow> nat" where
  "base_size SingleMaskClass = 32"
| "base_size MultiMaskClass1 = 40"
| "base_size MultiMaskClass2 = 56"
| "base_size MultiMaskClass4 = 88"

definition calculatePointerSize :: "nat \<Rightarrow> u32" where
  "calculatePointerSize numberEntries =
     of_nat sizeof_ChildPointer * (if numberEntries < 3 then 3 else of_nat numberEntries)"

text \<open>The shift by 32 bits for no entries, and by a negative count above 32, are undefined.\<close>

definition convertNumbeEntriesToEntriesMask :: "nat \<Rightarrow> u32 cxx" where
  "convertNumbeEntriesToEntriesMask numberEntries =
     (if numberEntries \<le> 32 then shr32 (- 1) (32 - numberEntries) else Inl UB_Shift)"

definition getNodeAllocationInformation ::
  "mapping_class \<Rightarrow> nat \<Rightarrow> nat \<Rightarrow> NodeAllocationInformation cxx" where
  "getNodeAllocationInformation c width numberEntries =
     (let pointersSize = calculatePointerSize numberEntries;
          pointerOffset = estimateSize (width div 8) (of_nat numberEntries) + of_nat (base_size c) :: u16;
          rawSize = pointersSize + ucast pointerOffset
      in rbind (convertNumbeEntriesToEntriesMask numberEntries) (\<lambda>entriesMask.
           Inr \<lparr> mEntriesMask = entriesMask, mTotalSizeInBytes = ucast rawSize, mPointerOffset = pointerOffset \<rparr>))"

definition getNodeSizeInBytes :: "'c HOTSingleThreadedNode \<Rightarrow> u16 cxx" where
  "getNodeSizeInBytes n =
     rbind (getAllocationInformation
              (getNodeAllocationInformation (class_of (mDiscriminativeBitsRepresentation n)) (key_width n))
              (getNumberEntries n)) (\<lambda>i. Inr (mTotalSizeInBytes i))"

text \<open>The width of the partial keys of a node with one more entry, and the mapping it needs.\<close>

definition NextPartialKeyType :: "nat \<Rightarrow> nat" where
  "NextPartialKeyType w = (if w = 8 then 16 else 32)"

definition ToPartialKeyType :: "mapping_class \<Rightarrow> nat \<Rightarrow> nat" where
  "ToPartialKeyType c w =
     (if c = MultiMaskClass2 \<and> w = 8 then 16 else if c = MultiMaskClass4 \<and> w = 16 then 32 else w)"

fun ToDiscriminativeBitsRepresentation :: "mapping \<Rightarrow> nat \<Rightarrow> mapping cxx" where
  "ToDiscriminativeBitsRepresentation (MultiMapping2 m) w =
     (if w = 32 then rbind (MultiMask_extend 4 m) (\<lambda>m'. Inr (MultiMapping4 m')) else Inr (MultiMapping2 m))"
| "ToDiscriminativeBitsRepresentation M w = Inr M"

text \<open>
  The constructor all others start with.  The memory of the new object, the partial keys and children
  it happens to hold, is the argument \<open>mem\<close>; keys read from it have the width of the node.
\<close>

definition Node_base ::
  "u32 list \<times> 'c list \<Rightarrow> nat \<Rightarrow> nat \<Rightarrow> mapping \<Rightarrow> nat \<Rightarrow> 'c HOTSingleThreadedNode cxx" where
  "Node_base mem height numberEntries discriminativeBitsRepresentation width =
     rbind (getNodeAllocationInformation (class_of discriminativeBitsRepresentation) width numberEntries) (\<lambda>info.
       Inr \<lparr> mHeight = height, mUsedEntriesMask = mEntriesMask info,
             mDiscriminativeBitsRepresentation = discriminativeBitsRepresentation, key_width = width,
             mEntries = map (\<lambda>e. e AND mask width) (fst mem), mPointers = snd mem \<rparr>)"

section \<open>The partial keys by width\<close>

definition keys_search :: "nat \<Rightarrow> u32 \<Rightarrow> u32 list \<Rightarrow> Search_globals \<Rightarrow> (u32 \<times> Search_globals) cxx" where
  "keys_search w key es g =
     (if w = 8 then search_u8 (ucast key) (map ucast es) g
      else if w = 16 then search_u16 (ucast key) (map ucast es) g else search_u32 key es g)"

definition keys_findMasksByPattern :: "nat \<Rightarrow> u32 list \<Rightarrow> u32 \<Rightarrow> u32 cxx" where
  "keys_findMasksByPattern w es pat =
     (if w = 8 then findMasksByPattern 32 findMasks_u8 (map ucast es) (ucast pat)
      else if w = 16 then findMasksByPattern 16 findMasks_u16 (map ucast es) (ucast pat)
      else findMasksByPattern 8 findMasks_u32 es pat)"

definition keys_getAffectedSubtreeMask :: "nat \<Rightarrow> u32 list \<Rightarrow> u32 \<Rightarrow> u32 \<Rightarrow> u32 cxx" where
  "keys_getAffectedSubtreeMask w es pat expected =
     (if w = 8 then getAffectedSubtreeMask 32 findMasks_u8 (map ucast es) (ucast pat) (ucast expected)
      else if w = 16 then getAffectedSubtreeMask 16 findMasks_u16 (map ucast es) (ucast pat) (ucast expected)
      else getAffectedSubtreeMask 8 findMasks_u32 es pat expected)"

section \<open>Searching a node\<close>

text \<open>
  The index of the child a result mask leads to; \<open>undef\<close> is what \<open>bsr\<close> leaves for an empty mask.  The
  affected entries of a wildcard search are cut down to the entries in use.
\<close>

definition toResultIndex ::
  "nat \<Rightarrow> 'c HOTSingleThreadedNode \<Rightarrow> u32 \<Rightarrow> Search_globals \<Rightarrow> nat \<times> Search_globals" where
  "toResultIndex undef n resultMask g =
     (let resultMaskForChildsOnly = mUsedEntriesMask n AND resultMask;
          g' = g \<lparr> wildcard_affected_entry_mask := wildcard_affected_entry_mask g AND mUsedEntriesMask n \<rparr>
      in (nat (getMostSignificantBitIndex undef resultMaskForChildsOnly), g'))"

definition node_search ::
  "nat \<Rightarrow> 'c HOTSingleThreadedNode \<Rightarrow> u8 list \<Rightarrow> Search_globals \<Rightarrow> (nat \<times> Search_globals) cxx" where
  "node_search undef n keyBytes g =
     rbind (mapping_extractMask (mDiscriminativeBitsRepresentation n) keyBytes) (\<lambda>densePartialKey.
     rbind (keys_search (key_width n) densePartialKey (mEntries n) g) (\<lambda>(resultMask, g').
       Inr (toResultIndex undef n resultMask g')))"

definition node_searchForInsert ::
  "nat \<Rightarrow> 'c HOTSingleThreadedNode \<Rightarrow> u8 list \<Rightarrow> Search_globals
   \<Rightarrow> (nat \<times> SearchResultForInsert \<times> Search_globals) cxx" where
  "node_searchForInsert undef n keyBytes g =
     rbind (mapping_extractMask (mDiscriminativeBitsRepresentation n) keyBytes) (\<lambda>densePartialKey.
     rbind (keys_search (key_width n) densePartialKey (mEntries n) g) (\<lambda>(resultMask, g').
       let (resultIndex, g'') = toResultIndex undef n resultMask g'
       in Inr (resultIndex,
            SearchResultForInsert_init resultIndex (mapping_mostSignificantIndex (mDiscriminativeBitsRepresentation n)),
            g'')))"

definition node_searchForInsert_mask ::
  "nat \<Rightarrow> 'c HOTSingleThreadedNode \<Rightarrow> u8 list \<Rightarrow> u64 \<Rightarrow> Search_globals
   \<Rightarrow> (nat \<times> SearchResultForInsert \<times> Search_globals) cxx" where
  "node_searchForInsert_mask undef n keyBytes msk g =
     rbind (mapping_extractMask_mask (mDiscriminativeBitsRepresentation n) keyBytes msk g) (\<lambda>(densePartialKey, g').
     rbind (keys_search (key_width n) densePartialKey (mEntries n) g') (\<lambda>(resultMask, g'').
       let (resultIndex, g3) = toResultIndex undef n resultMask g''
       in Inr (resultIndex,
            SearchResultForInsert_init resultIndex (mapping_mostSignificantIndex (mDiscriminativeBitsRepresentation n)),
            g3)))"

section \<open>Inserting an entry\<close>

text \<open>Where a new entry belongs: the entries that agree with entry \<open>entryIndex\<close> before the new bit.\<close>

definition getInsertInformation ::
  "nat \<Rightarrow> 'c HOTSingleThreadedNode \<Rightarrow> nat \<Rightarrow> DiscriminativeBit \<Rightarrow> InsertInformation cxx" where
  "getInsertInformation undef n entryIndex discriminativeBit =
     rbind (get_entry n entryIndex) (\<lambda>existingEntryMask.
     rbind (mapping_getPrefixBitsMask (mDiscriminativeBitsRepresentation n) discriminativeBit) (\<lambda>prefix.
       let prefixBits = prefix AND mask (key_width n);
           subtreePrefixMask = existingEntryMask AND prefixBits
       in rbind (keys_getAffectedSubtreeMask (key_width n) (mEntries n) prefixBits subtreePrefixMask) (\<lambda>affected.
            let affectedSubtreeMask = affected AND mUsedEntriesMask n
            in Inr \<lparr> mSubtreePrefixPartialKey = subtreePrefixMask,
                     mFirstIndexInAffectedSubtree = builtin_ctz undef affectedSubtreeMask,
                     mNumberEntriesInAffectedSubtree = popcnt affectedSubtreeMask,
                     mKeyInformation = discriminativeBit \<rparr>)))"

text \<open>How partial keys are recoded for the mapping of the new node \<open>n\<close>.\<close>

definition getConversionInformation ::
  "'c HOTSingleThreadedNode \<Rightarrow> u32 \<Rightarrow> DiscriminativeBit \<Rightarrow> PartialKeyConversionInformation cxx" where
  "getConversionInformation n sourceMaskBits significantKeyInformation =
     rbind (mapping_getAllMaskBits (mDiscriminativeBitsRepresentation n)) (\<lambda>allTargetMaskBits.
     rbind (mapping_getMaskFor (mDiscriminativeBitsRepresentation n) significantKeyInformation) (\<lambda>a.
       let hasNewBit = of_bool (sourceMaskBits \<noteq> allTargetMaskBits) :: u32;
           additionalMask = a AND mask (key_width n);
           conversionMask = (allTargetMaskBits AND NOT (hasNewBit * additionalMask)) AND mask (key_width n)
       in Inr \<lparr> mAdditionalMask = additionalMask, mConversionMask = conversionMask \<rparr>))"

definition getConversionInformation_node ::
  "'c HOTSingleThreadedNode \<Rightarrow> 'c HOTSingleThreadedNode \<Rightarrow> DiscriminativeBit \<Rightarrow> PartialKeyConversionInformation cxx" where
  "getConversionInformation_node n sourceNode significantKeyInformation =
     rbind (mapping_getAllMaskBits (mDiscriminativeBitsRepresentation sourceNode)) (\<lambda>b.
       getConversionInformation n b significantKeyInformation)"

definition getConversionInformationForCompressionMask ::
  "'c HOTSingleThreadedNode \<Rightarrow> u32 \<Rightarrow> DiscriminativeBit \<Rightarrow> PartialKeyConversionInformation cxx" where
  "getConversionInformationForCompressionMask n compressionMask significantKeyInformation =
     getConversionInformation n (pext compressionMask compressionMask) significantKeyInformation"

text \<open>Writing a key and a child, and copying those of an entry of the source with its key recoded.\<close>

definition put_entry :: "nat \<Rightarrow> u32 \<Rightarrow> 'c \<Rightarrow> 'c HOTSingleThreadedNode \<Rightarrow> 'c HOTSingleThreadedNode cxx" where
  "put_entry i v p n = rbind (set_entry i v n) (set_pointer i p)"

definition copy_entry ::
  "'c HOTSingleThreadedNode \<Rightarrow> (u32 \<Rightarrow> u32) \<Rightarrow> nat \<Rightarrow> nat \<Rightarrow> 'c HOTSingleThreadedNode \<Rightarrow> 'c HOTSingleThreadedNode cxx" where
  "copy_entry sourceNode recode sourceIndex targetIndex n =
     rbind (get_entry sourceNode sourceIndex) (\<lambda>e.
     rbind (get_pointer sourceNode sourceIndex) (\<lambda>p. put_entry targetIndex (recode e) p n))"

definition Node_insert ::
  "u32 list \<times> 'c list \<Rightarrow> 'c HOTSingleThreadedNode \<Rightarrow> nat \<Rightarrow> mapping \<Rightarrow> nat \<Rightarrow> InsertInformation \<Rightarrow> 'c
   \<Rightarrow> 'c HOTSingleThreadedNode cxx" where
  "Node_insert mem sourceNode newNumberEntries discriminativeBitsRepresentation width insertInformation newValue =
     rbind (Node_base mem (mHeight sourceNode) newNumberEntries discriminativeBitsRepresentation width) (\<lambda>n0.
       let oldNumberEntries = sub32 newNumberEntries 1;
           keyInformation = mKeyInformation insertInformation
       in rbind (getConversionInformation_node n0 sourceNode keyInformation) (\<lambda>conversionInformation.
            let firstIndexInAffectedSubtree = getFirstIndexInAffectedSubtree insertInformation;
                numberEntriesInAffectedSubtree = getNumberEntriesInAffectedSubtree insertInformation;
                recode = (\<lambda>e. pdep e (mConversionMask conversionInformation));
                convertedSubTreePrefixMask = recode (mSubtreePrefixPartialKey insertInformation);
                firstIndexAfterAffectedSubtree = firstIndexInAffectedSubtree + numberEntriesInAffectedSubtree
            in rbind (rfold (\<lambda>i. copy_entry sourceNode recode i i) [0..<firstIndexInAffectedSubtree] n0) (\<lambda>n1.
               rbind (if mBitValue keyInformation \<noteq> 0
                 then rbind (rfold (\<lambda>i. copy_entry sourceNode recode i i)
                               [firstIndexInAffectedSubtree..<firstIndexAfterAffectedSubtree] n1)
                        (put_entry firstIndexAfterAffectedSubtree
                          (convertedSubTreePrefixMask OR mAdditionalMask conversionInformation) newValue)
                 else rbind (put_entry firstIndexInAffectedSubtree convertedSubTreePrefixMask newValue n1)
                        (rfold (\<lambda>i. copy_entry sourceNode (\<lambda>e. recode e OR mAdditionalMask conversionInformation) i (i + 1))
                          [firstIndexInAffectedSubtree..<firstIndexAfterAffectedSubtree]))
               (rfold (\<lambda>i. copy_entry sourceNode recode i (i + 1)) [firstIndexAfterAffectedSubtree..<oldNumberEntries]))))"

text \<open>
  Adding an entry: the mapping with the new bit decides the class of the new node and the width of its
  keys, which grows when the bits no longer fit.
\<close>

definition addEntry ::
  "u32 list \<times> 'c list \<Rightarrow> 'c HOTSingleThreadedNode \<Rightarrow> InsertInformation \<Rightarrow> 'c \<Rightarrow> 'c HOTSingleThreadedNode cxx" where
  "addEntry mem self insertInformation newValue =
     (let newNumberEntries = u16nat (getNumberEntries self + 1); w = key_width self
      in rbind (mapping_insert (mDiscriminativeBitsRepresentation self) (mKeyInformation insertInformation)) (\<lambda>newMapping.
         rbind (ToDiscriminativeBitsRepresentation newMapping w) (\<lambda>M1.
           if mapping_calculateNumberBitsUsed newMapping \<le> w
           then Node_insert mem self newNumberEntries M1 (ToPartialKeyType (class_of M1) w) insertInformation newValue
           else rbind (ToDiscriminativeBitsRepresentation M1 (NextPartialKeyType w)) (\<lambda>M2.
                  Node_insert mem self newNumberEntries M2 (ToPartialKeyType (class_of M1) (NextPartialKeyType w))
                    insertInformation newValue))))"

end
