(* ===== verification/Key_Trie.thy ===== *)
theory Key_Trie
  imports Mapping_Queries Linearised_Trie
begin

text \<open>
  The trie a node stands for: a binary Patricia trie over the bits of the keys, whose inner nodes test
  a bit and whose bits increase on every path.  Its leaves, the bits set on the way to each of them, the
  lookup of a key and the insertion of a leaf are the specification of the node operations.  The sparse
  partial key of a leaf is the word of the bits of its path at the positions of the mapping.
\<close>

unbundle bit_operations_syntax

section \<open>Tries over key bits\<close>

fun ordered :: "'v ptrie \<Rightarrow> bool" where
  "ordered (PLeaf v) \<longleftrightarrow> True"
| "ordered (PNode b l r) \<longleftrightarrow> (\<forall>c \<in> bits_of l \<union> bits_of r. b < c) \<and> ordered l \<and> ordered r"

text \<open>For each leaf the bits at which its path goes right.\<close>

fun paths :: "nat set \<Rightarrow> 'v ptrie \<Rightarrow> nat set list" where
  "paths P (PLeaf v) = [P]"
| "paths P (PNode b l r) = paths P l @ paths (insert b P) r"

fun key_walk :: "u8 list \<Rightarrow> 'v ptrie \<Rightarrow> nat" where
  "key_walk bs (PLeaf v) = 0"
| "key_walk bs (PNode b l r) = (if key_bit bs b then length (leaves l) + key_walk bs r else key_walk bs l)"

text \<open>
  Inserting a leaf: the subtree that leaf \<open>i\<close> belongs to below the bits before \<open>k\<close> becomes one side of a
  new inner node that tests \<open>k\<close>.
\<close>

definition join :: "nat \<Rightarrow> bool \<Rightarrow> 'v \<Rightarrow> 'v ptrie \<Rightarrow> 'v ptrie" where
  "join k side v t = (if side then PNode k t (PLeaf v) else PNode k (PLeaf v) t)"

fun insert_leaf :: "nat \<Rightarrow> bool \<Rightarrow> 'v \<Rightarrow> nat \<Rightarrow> 'v ptrie \<Rightarrow> 'v ptrie" where
  "insert_leaf k side v i (PLeaf u) = join k side v (PLeaf u)"
| "insert_leaf k side v i (PNode b l r) =
     (if b < k
      then (if i < length (leaves l) then PNode b (insert_leaf k side v i l) r
            else PNode b l (insert_leaf k side v (i - length (leaves l)) r))
      else join k side v (PNode b l r))"

text \<open>The bit \<open>k\<close> is not the one the subtree already tests.\<close>

fun insertable :: "nat \<Rightarrow> nat \<Rightarrow> 'v ptrie \<Rightarrow> bool" where
  "insertable k i (PLeaf u) \<longleftrightarrow> True"
| "insertable k i (PNode b l r) \<longleftrightarrow>
     (if b < k then (if i < length (leaves l) then insertable k i l else insertable k (i - length (leaves l)) r)
      else b \<noteq> k)"

abbreviation before :: "nat \<Rightarrow> nat set" where
  "before k \<equiv> {..<k}"

lemma length_paths [simp]: "length (paths P t) = length (leaves t)"
  by (induction t arbitrary: P) simp_all

lemma finite_bits_of [simp]: "finite (bits_of t)"
  by (induction t) simp_all

lemma paths_bounds: "Q \<in> set (paths P t) \<Longrightarrow> P \<subseteq> Q \<and> Q \<subseteq> P \<union> bits_of t"
  by (induction t arbitrary: P) (simp, fastforce)

lemma key_walk_less [simp]: "key_walk bs t < length (leaves t)"
  by (induction t) (simp_all add: trans_less_add1)

lemma leaves_pos: "0 < length (leaves t)"
  by simp

lemma card_bits_of: "card (bits_of t) < length (leaves t)"
proof (induction t)
  case (PNode b l r)
  have "card (bits_of (PNode b l r)) \<le> Suc (card (bits_of l \<union> bits_of r))" by (simp add: card_insert_if)
  also have "\<dots> \<le> Suc (card (bits_of l) + card (bits_of r))" using card_Un_le by simp
  finally show ?case using PNode.IH by simp
qed simp

lemma bits_of_join [simp]: "bits_of (join k side v t) = insert k (bits_of t)"
  by (simp add: join_def)

lemma bits_of_insert_leaf [simp]: "bits_of (insert_leaf k side v i t) = insert k (bits_of t)"
  by (induction t arbitrary: i) auto

lemma length_insert_leaf [simp]: "length (leaves (insert_leaf k side v i t)) = Suc (length (leaves t))"
  by (induction t arbitrary: i) (simp_all add: join_def)

lemma ordered_above: "ordered (PNode b l r) \<Longrightarrow> c \<in> bits_of (PNode b l r) \<Longrightarrow> b \<le> c"
  by (auto intro: less_imp_le)

lemma ordered_insert_leaf:
  "ordered t \<Longrightarrow> insertable k i t \<Longrightarrow> ordered (insert_leaf k side v i t)"
proof (induction t arbitrary: i)
  case (PNode b l r)
  show ?case
  proof (cases "b < k")
    case True
    with PNode show ?thesis by auto
  next
    case False
    with PNode.prems have "k < b" by (auto split: if_splits)
    then have "\<forall>c \<in> bits_of (PNode b l r). k < c" using ordered_above [OF PNode.prems(1)] less_le_trans by blast
    then show ?thesis using PNode.prems(1) False by (simp add: join_def)
  qed
qed (simp add: join_def)

text \<open>An ordered trie is well-formed: no bit occurs twice on a path.\<close>

lemma ordered_path_wf:
  "ordered t \<Longrightarrow> (\<forall>c \<in> bits_of t. c < w \<and> c \<notin> U) \<Longrightarrow> path_wf w U t"
proof (induction t arbitrary: U)
  case (PNode b l r)
  then have "\<forall>c \<in> bits_of l. c < w \<and> c \<notin> insert b U" "\<forall>c \<in> bits_of r. c < w \<and> c \<notin> insert b U" by auto
  with PNode show ?case by simp
qed simp

lemma ordered_prefix_bits: "ordered t \<Longrightarrow> prefix_bits (before k) t"
proof (induction t)
  case (PNode b l r)
  show ?case
  proof (cases "b < k")
    case False
    then have "bits_of (PNode b l r) \<inter> before k = {}" using ordered_above [OF PNode.prems] by force
    with False show ?thesis by simp
  qed (use PNode in simp)
qed simp

section \<open>The leaves and paths after an insertion\<close>

definition spliced :: "bool \<Rightarrow> nat \<Rightarrow> nat \<Rightarrow> 'a \<Rightarrow> ('a \<Rightarrow> 'a) \<Rightarrow> 'a list \<Rightarrow> 'a list" where
  "spliced side s c x f xs =
     take s xs @ (if side then take c (drop s xs) @ [x] else x # map f (take c (drop s xs))) @ drop (s + c) xs"

lemma spliced_left:
  assumes "s + c \<le> length xs"
  shows "spliced side s c x f (xs @ ys) = spliced side s c x f xs @ ys"
  using assms by (simp add: spliced_def)

lemma spliced_right:
  shows "spliced side (length xs + s) c x f (xs @ ys) = xs @ spliced side s c x f ys"
  by (simp add: spliced_def)

lemma leaves_insert_leaf:
  assumes "i < length (leaves t)"
  shows "leaves (insert_leaf k side v i t) =
    (case subtree_range (before k) i t of (s, c) \<Rightarrow> spliced side s c v id (leaves t))"
  using assms
proof (induction t arbitrary: i)
  case (PLeaf u)
  then show ?case by (simp add: join_def spliced_def)
next
  case (PNode b l r)
  show ?case
  proof (cases "b < k")
    case False
    then show ?thesis by (simp add: join_def spliced_def)
  next
    case bk: True
    show ?thesis
    proof (cases "i < length (leaves l)")
      case True
      then show ?thesis using bk PNode.IH(1) [OF True] subtree_range_bounds [OF True, of "before k"]
        by (simp add: spliced_left split_beta)
    next
      case False
      then have "i - length (leaves l) < length (leaves r)" using PNode.prems by simp
      then show ?thesis using bk False PNode.IH(2) by (simp add: spliced_right split_beta)
    qed
  qed
qed

lemma paths_insert:
  "paths (insert k P) t = map (insert k) (paths P t)"
proof (induction t arbitrary: P)
  case (PNode b l r)
  have "insert b (insert k P) = insert k (insert b P)" by blast
  then show ?case using PNode by simp
qed simp

lemma paths_insert_leaf:
  assumes "i < length (leaves t)" "ordered t" "insertable k i t" "P \<subseteq> before k"
  shows "paths P (insert_leaf k side v i t) =
    (case subtree_range (before k) i t of (s, c) \<Rightarrow>
       spliced side s c (paths P t ! i \<inter> before k \<union> (if side then {k} else {})) (insert k) (paths P t))"
  using assms
proof (induction t arbitrary: i P)
  case (PLeaf u)
  then have "P \<inter> before k = P" "i = 0" by auto
  then show ?case by (simp add: join_def spliced_def)
next
  case (PNode b l r)
  show ?case
  proof (cases "b < k")
    case False
    then have "k < b" using PNode.prems(3) by (auto split: if_splits)
    then have out: "\<forall>c \<in> bits_of (PNode b l r). k < c" using ordered_above [OF PNode.prems(2)] less_le_trans by blast
    have "paths P (PNode b l r) ! i \<in> set (paths P (PNode b l r))" using PNode.prems(1) by (metis length_paths nth_mem)
    note pb = paths_bounds [OF this]
    have "paths P (PNode b l r) ! i \<inter> before k = P"
    proof (intro equalityI subsetI)
      fix x assume x: "x \<in> paths P (PNode b l r) ! i \<inter> before k"
      then have "x \<in> P \<union> bits_of (PNode b l r)" "\<not> k < x" using pb by auto
      then show "x \<in> P" using out by blast
    qed (use pb PNode.prems(4) in blast)
    then show ?thesis using False
      by (simp add: join_def spliced_def paths_insert [symmetric] insert_commute [of k b])
  next
    case bk: True
    then have P: "P \<subseteq> before k" "insert b P \<subseteq> before k" using PNode.prems(4) by auto
    show ?thesis
    proof (cases "i < length (leaves l)")
      case True
      have "ordered l" "insertable k i l" using PNode.prems bk True by simp_all
      from PNode.IH(1) [OF True this P(1)] show ?thesis
        using bk True subtree_range_bounds [OF True, of "before k"] by (simp add: spliced_left split_beta nth_append)
    next
      case False
      then have i: "i - length (leaves l) < length (leaves r)" using PNode.prems(1) by simp
      have "ordered r" "insertable k (i - length (leaves l)) r" using PNode.prems bk False by simp_all
      from PNode.IH(2) [OF i this P(2)] show ?thesis
        using bk False by (simp add: split_beta nth_append) (metis length_paths spliced_right)
    qed
  qed
qed

section \<open>Sparse partial keys\<close>

text \<open>The partial key of a set of bits, for the positions \<open>ps\<close> of a mapping.\<close>

definition key_word :: "nat list \<Rightarrow> nat set \<Rightarrow> u32" where
  "key_word ps P = of_bits (map (\<lambda>k. k \<in> P) ps)"

definition sparse_keys :: "nat list \<Rightarrow> 'v ptrie \<Rightarrow> u32 list" where
  "sparse_keys ps t = map (key_word ps) (paths {} t)"

lemma bit_key_word [word_bits]: "bit (key_word ps P) j \<longleftrightarrow> j < 32 \<and> j < length ps \<and> ps ! j \<in> P"
  by (auto simp: key_word_def word_bits)

lemma key_word_and: "key_word ps P AND key_word ps Q = key_word ps (P \<inter> Q)"
  by (rule bit_word_eqI) (auto simp: word_bits bit_and_iff)

lemma key_word_or: "key_word ps P OR key_word ps Q = key_word ps (P \<union> Q)"
  by (rule bit_word_eqI) (auto simp: word_bits bit_or_iff)

lemma key_word_trunc: "length ps \<le> w \<Longrightarrow> key_word ps P AND mask w = key_word ps P"
  by (rule bit_word_eqI) (auto simp: word_bits bit_and_iff bit_mask_iff)

lemma key_word_empty [simp]: "key_word ps {} = 0"
  by (rule bit_word_eqI) (simp add: word_bits)

lemma key_word_UNIV: "key_word ps UNIV = mask (length ps)"
  by (rule bit_word_eqI) (auto simp: word_bits bit_mask_iff)

lemma length_sparse_keys [simp]: "length (sparse_keys ps t) = length (leaves t)"
  by (simp add: sparse_keys_def)

text \<open>Relabelling the bits of the trie by their index in the positions gives the trie of the partial keys.\<close>

fun relabel :: "(nat \<Rightarrow> nat) \<Rightarrow> 'v ptrie \<Rightarrow> 'v ptrie" where
  "relabel f (PLeaf v) = PLeaf v"
| "relabel f (PNode b l r) = PNode (f b) (relabel f l) (relabel f r)"

lemma leaves_relabel [simp]: "leaves (relabel f t) = leaves t"
  by (induction t) simp_all

lemma bits_of_relabel [simp]: "bits_of (relabel f t) = f ` bits_of t"
  by (induction t) auto

definition index_in :: "nat \<Rightarrow> nat list \<Rightarrow> nat" where
  "index_in k ps = length (takeWhile (\<lambda>x. x \<noteq> k) ps)"

lemma index_in_nth: "k \<in> set ps \<Longrightarrow> ps ! index_in k ps = k \<and> index_in k ps < length ps"
  by (induction ps) (auto simp: index_in_def)

lemma index_in_eq: "distinct ps \<Longrightarrow> j < length ps \<Longrightarrow> index_in (ps ! j) ps = j"
  using index_in_nth by (metis nth_eq_iff_index_eq nth_mem)

abbreviation index_trie :: "nat list \<Rightarrow> 'v ptrie \<Rightarrow> 'v ptrie" where
  "index_trie ps t \<equiv> relabel (\<lambda>k. index_in k ps) t"

lemma lin_index_trie:
  assumes "distinct ps" "length ps \<le> 32" "bits_of t \<subseteq> set ps"
  shows "lin (key_word ps P) (index_trie ps t) = map (key_word ps) (paths P t)"
  using assms(3)
proof (induction t arbitrary: P)
  case (PNode b l r)
  then have b: "index_in b ps < length ps" "ps ! index_in b ps = b" by (simp_all add: index_in_nth)
  have "key_word ps P OR push_bit (index_in b ps) 1 = key_word ps (insert b P)"
  proof (rule bit_word_eqI)
    fix j assume "j < LENGTH(32)"
    have "j < length ps \<Longrightarrow> ps ! j = b \<longleftrightarrow> j = index_in b ps"
      using b index_in_eq [OF assms(1), of j] by auto
    then show "bit (key_word ps P OR push_bit (index_in b ps) 1) j = bit (key_word ps (insert b P)) j"
      unfolding bit_or_iff bit_push_bit_iff bit_1_iff bit_key_word using b(1) assms(2) \<open>j < LENGTH(32)\<close> by auto
  qed
  with PNode show ?case by simp
qed simp

lemma path_wf_index_trie:
  assumes "distinct ps" "length ps \<le> w" "bits_of t \<subseteq> set ps" "ordered t"
  shows "path_wf w {} (index_trie ps t)"
proof -
  have "path_wf w ((\<lambda>k. index_in k ps) ` U) (index_trie ps t)"
    if "path_wf n U t" "U \<subseteq> set ps" "bits_of t \<subseteq> set ps" for n U
    using that
  proof (induction t arbitrary: U)
    case (PNode b l r)
    have inj: "inj_on (\<lambda>k. index_in k ps) (set ps)" by (rule inj_onI) (metis index_in_nth)
    have "index_in b ps < w" using PNode.prems(3) assms(2) index_in_nth [of b ps] by auto
    moreover have "index_in b ps \<notin> (\<lambda>k. index_in k ps) ` U"
      using PNode.prems inj by (auto simp: inj_on_def)
    ultimately show ?case using PNode.IH(1) [of "insert b U"] PNode.IH(2) [of "insert b U"] PNode.prems by simp
  qed simp
  moreover have "path_wf (Suc (Max (insert 0 (bits_of t)))) {} t"
    by (rule ordered_path_wf [OF assms(4)]) (simp add: less_Suc_eq_le Max_ge)
  ultimately show ?thesis using assms(3) by fastforce
qed

lemma walk_index_trie:
  assumes "distinct ps" "length ps \<le> 32" "bits_of t \<subseteq> set ps"
  shows "walk (of_bits (map (key_bit bs) ps) :: u32) (index_trie ps t) = key_walk bs t"
  using assms(3)
proof (induction t)
  case (PNode b l r)
  then have "bit (of_bits (map (key_bit bs) ps) :: u32) (index_in b ps) = key_bit bs b"
    using assms(2) index_in_nth [of b ps] by (simp add: word_bits)
  with PNode show ?case by simp
qed simp

lemma subtree_range_index_trie:
  assumes "bits_of t \<subseteq> set ps" "length ps \<le> 32"
  shows "subtree_range {j. bit (key_word ps P) j} i (index_trie ps t) = subtree_range P i t"
  using assms(1)
proof (induction t arbitrary: i)
  case (PNode b l r)
  then have "bit (key_word ps P) (index_in b ps) \<longleftrightarrow> b \<in> P"
    using assms(2) index_in_nth [of b ps] by (simp add: word_bits)
  with PNode show ?case by simp
qed simp

lemma prefix_bits_index_trie:
  assumes "bits_of t \<subseteq> set ps" "length ps \<le> 32" "prefix_bits P t"
  shows "prefix_bits {j. bit (key_word ps P) j} (index_trie ps t)"
proof -
  have b: "bit (key_word ps P) (index_in b ps) \<longleftrightarrow> b \<in> P" if "b \<in> set ps" for b
    using assms(2) that index_in_nth [of b ps] by (simp add: word_bits)
  show ?thesis using assms(1,3)
  proof (induction t)
    case (PNode b l r)
    have "bits_of (index_trie ps (PNode b l r)) \<inter> {j. bit (key_word ps P) j} = {}"
      if "bits_of (PNode b l r) \<inter> P = {}"
      unfolding bits_of_relabel using that PNode.prems(1) b by blast
    moreover have "b \<in> set ps" "bits_of l \<subseteq> set ps" "bits_of r \<subseteq> set ps" using PNode.prems(1) by simp_all
    ultimately show ?case using PNode.IH PNode.prems(2) b [of b] by (cases "b \<in> P") simp_all
  qed simp
qed

section \<open>Recoding partial keys for other positions\<close>

lemma filter_nth_index:
  "i < length xs \<Longrightarrow> Q (xs ! i) \<Longrightarrow>
   length (filter Q (take i xs)) < length (filter Q xs) \<and> filter Q xs ! length (filter Q (take i xs)) = xs ! i"
proof (induction xs arbitrary: i)
  case (Cons x xs)
  then show ?case by (cases i) auto
qed simp

lemma rank_key_word:
  assumes "i \<le> length ps" "length ps \<le> 32"
  shows "rank (key_word ps S) i = length (filter (\<lambda>k. k \<in> S) (take i ps))"
  using assms(1)
proof (induction i)
  case 0
  show ?case by (simp add: rank_def)
next
  case (Suc i)
  then have "bit (key_word ps S) i \<longleftrightarrow> ps ! i \<in> S" using assms(2) by (simp add: word_bits)
  with Suc show ?case by (simp add: rank_Suc take_Suc_conv_app_nth)
qed

lemma pdep_key_word:
  assumes "length ps' \<le> 32"
  shows "pdep (key_word (filter (\<lambda>k. k \<in> S) ps') P) (key_word ps' S) = key_word ps' (P \<inter> S)"
proof (rule bit_word_eqI)
  fix j assume "j < LENGTH(32)"
  have l: "length (filter (\<lambda>k. k \<in> S) ps') \<le> 32" using assms length_filter_le le_trans by blast
  show "bit (pdep (key_word (filter (\<lambda>k. k \<in> S) ps') P) (key_word ps' S)) j = bit (key_word ps' (P \<inter> S)) j"
  proof (cases "j < length ps' \<and> ps' ! j \<in> S")
    case True
    then show ?thesis
      using filter_nth_index [of j ps' "\<lambda>k. k \<in> S"] l assms
      by (auto simp: bit_pdep bit_key_word rank_key_word)
  next
    case False
    then show ?thesis by (auto simp: bit_pdep bit_key_word)
  qed
qed

end
