(* ===== verification/Hot_Node_Insert.thy ===== *)
theory Hot_Node_Insert
  imports Hot_Node Key_Trie
begin

text \<open>
  What a node means and what inserting does: \<open>node_wf n t\<close> relates a node to the trie over key bits that
  its mapping, partial keys and children represent.  Searching a node is looking the key up in the
  trie, the insert information is the subtree that the new bit cuts off, and adding an entry is
  inserting a leaf, whatever the kind of the node and of the node it becomes.
\<close>

unbundle bit_operations_syntax

section \<open>Partial keys of every width\<close>

definition fits :: "nat \<Rightarrow> u32 list \<Rightarrow> bool" where
  "fits w es \<longleftrightarrow> (\<forall>e \<in> set es. e AND mask w = e)"

lemma ucast_narrow_eq:
  fixes e y :: u32
  assumes "e AND mask LENGTH('a::len) = e" "y AND mask LENGTH('a) = y"
  shows "(ucast e :: 'a word) = ucast y \<longleftrightarrow> e = y"
proof
  assume eq: "(ucast e :: 'a word) = ucast y"
  show "e = y"
  proof (rule bit_word_eqI)
    fix j assume "j < LENGTH(32)"
    show "bit e j = bit y j"
    proof (cases "j < LENGTH('a)")
      case True
      then show ?thesis using arg_cong [OF eq, of "\<lambda>w. bit w j"] by (simp add: bit_unsigned_iff)
    next
      case False
      have "bit e j \<longleftrightarrow> bit (e AND mask LENGTH('a)) j" "bit y j \<longleftrightarrow> bit (y AND mask LENGTH('a)) j"
        using assms by simp_all
      with False show ?thesis by (simp add: bit_and_iff bit_mask_iff)
    qed
  qed
qed simp

lemma and_trunc: "(e :: u32) AND mask w = e \<Longrightarrow> (e AND x) AND mask w = e AND x"
  by (metis and.assoc and.commute)

lemma ucast_and: "(ucast (x AND y :: u32) :: 'a::len word) = ucast x AND ucast y"
  by (rule bit_word_eqI) (simp add: bit_unsigned_iff bit_and_iff)

lemma narrow_match:
  fixes e x y :: u32
  assumes "e AND mask LENGTH('a::len) = e" "y AND mask LENGTH('a) = y"
  shows "(ucast e :: 'a word) AND ucast x = ucast y \<longleftrightarrow> e AND x = y"
  unfolding ucast_and [symmetric] using and_trunc [OF assms(1)] assms(2) by (rule ucast_narrow_eq)

lemma entry_mask_cong: "(\<And>e. e \<in> set es \<Longrightarrow> P e = Q e) \<Longrightarrow> entry_mask P es = entry_mask Q es"
  unfolding entry_mask_def by (rule arg_cong [of _ _ of_bits]) (auto dest: in_set_takeD)

lemma keys_search_law:
  assumes "w \<in> {8, 16, 32}" "fits w es" "32 \<le> length es" "extract_mask g = 0"
  shows "keys_search w key es g = Inr (entry_mask (\<lambda>e. e AND key = e) es, g)"
  using assms narrow_match [where 'a = 8] narrow_match [where 'a = 16]
  by (auto simp: keys_search_def keys8.search_law keys16.search_law keys32.search_law search_spec_def
      entry_mask_map fits_def intro!: entry_mask_cong)

lemma keys_subtree_law:
  assumes "w \<in> {8, 16, 32}" "fits w es" "32 \<le> length es" "x AND mask w = x"
  shows "keys_getAffectedSubtreeMask w es pat x = Inr (entry_mask (\<lambda>e. e AND pat = x) es)"
  using assms narrow_match [where 'a = 8] narrow_match [where 'a = 16]
  by (auto simp: keys_getAffectedSubtreeMask_def keys8.subtree keys16.subtree keys32.subtree
      entry_mask_map fits_def intro!: entry_mask_cong)

lemma keys_pattern_law:
  assumes "w \<in> {8, 16, 32}" "fits w es" "32 \<le> length es" "pat AND mask w = pat"
  shows "keys_findMasksByPattern w es pat = Inr (entry_mask (\<lambda>e. e AND pat = pat) es)"
  using assms narrow_match [where 'a = 8] narrow_match [where 'a = 16]
  by (auto simp: keys_findMasksByPattern_def keys8.pattern keys16.pattern keys32.pattern
      entry_mask_map fits_def intro!: entry_mask_cong)

section \<open>A node and its trie\<close>

definition memory_ok :: "nat \<Rightarrow> u32 list \<times> 'c list \<Rightarrow> bool" where
  "memory_ok N mem \<longleftrightarrow> 32 \<le> length (fst mem) \<and> N \<le> length (snd mem)"

definition node_wf :: "'c HOTSingleThreadedNode \<Rightarrow> 'c ptrie \<Rightarrow> bool" where
  "node_wf n t \<longleftrightarrow>
     (let M = mDiscriminativeBitsRepresentation n; w = key_width n; N = length (leaves t)
      in mapping_wf M \<and> NodeParametersToNodeType (class_of M) w \<noteq> None \<and> length (mapping_positions M) \<le> w \<and>
         bits_of t = mapping_bits M \<and> ordered t \<and> N \<le> 32 \<and> mUsedEntriesMask n = mask N \<and>
         memory_ok N (mEntries n, mPointers n) \<and> fits w (mEntries n) \<and>
         take N (mEntries n) = sparse_keys (mapping_positions M) t \<and> take N (mPointers n) = leaves t)"

lemma node_type_width: "NodeParametersToNodeType c w \<noteq> None \<Longrightarrow> w \<in> {8, 16, 32}"
  by (auto simp: NodeParametersToNodeType_def split: if_splits)

lemma popcnt_mask: "N \<le> 32 \<Longrightarrow> popcnt (mask N :: u32) = N"
proof -
  assume "N \<le> 32"
  then have "{i. bit (mask N :: u32) i} = {..<N}" by (auto simp: bit_mask_iff)
  then show ?thesis by (simp add: popcnt_card)
qed

lemma distinct_mapping_positions: "mapping_wf M \<Longrightarrow> distinct (mapping_positions M)"
proof -
  assume "mapping_wf M"
  then have "distinct (map rbit (mapping_positions M))"
    using mapping_positions_sorted by (simp add: strict_sorted_iff)
  then show ?thesis by (simp add: distinct_map)
qed

lemma node_wfD:
  assumes "node_wf n t"
  defines "M \<equiv> mDiscriminativeBitsRepresentation n" and "w \<equiv> key_width n" and "N \<equiv> length (leaves t)"
  defines "ps \<equiv> mapping_positions M"
  shows "mapping_wf M" "mapping_valid M" "w \<in> {8, 16, 32}" "length ps \<le> w" "length ps \<le> 32" "distinct ps"
    "bits_of t = set ps" "ordered t" "N \<le> 32" "getNumberEntries n = N" "mUsedEntriesMask n = mask N"
    "32 \<le> length (mEntries n)" "fits w (mEntries n)" "N \<le> length (mPointers n)"
    "take N (mEntries n) = sparse_keys ps t" "take N (mPointers n) = leaves t"
    "NodeParametersToNodeType (class_of M) w \<noteq> None" "bits_of t = mapping_bits M"
proof -
  note a = assms(1) [unfolded node_wf_def Let_def memory_ok_def, folded M_def w_def N_def ps_def]
  show "mapping_wf M" "length ps \<le> w" "ordered t" "N \<le> 32" "mUsedEntriesMask n = mask N"
    "NodeParametersToNodeType (class_of M) w \<noteq> None" "bits_of t = mapping_bits M"
    "32 \<le> length (mEntries n)" "fits w (mEntries n)" "N \<le> length (mPointers n)"
    "take N (mEntries n) = sparse_keys ps t" "take N (mPointers n) = leaves t"
    using a by simp_all
  show w: "w \<in> {8, 16, 32}" using a node_type_width by blast
  then show "length ps \<le> 32" using a by auto
  then show "mapping_valid M" using a by (simp add: mapping_valid_def ps_def)
  show "distinct ps" using a distinct_mapping_positions unfolding ps_def by blast
  show "bits_of t = set ps" using a by (simp add: mapping_bits_def ps_def)
  show "getNumberEntries n = N" using a by (simp add: getNumberEntries_def popcnt_mask)
qed

lemma node_entry:
  assumes "node_wf n t" "i < length (leaves t)"
  shows "get_entry n i = Inr (key_word (mapping_positions (mDiscriminativeBitsRepresentation n)) (paths {} t ! i))"
    "get_pointer n i = Inr (leaves t ! i)"
    "mEntries n ! i = key_word (mapping_positions (mDiscriminativeBitsRepresentation n)) (paths {} t ! i)"
proof -
  note d = node_wfD [OF assms(1)]
  have "mEntries n ! i = take (length (leaves t)) (mEntries n) ! i" using assms(2) by simp
  also have "\<dots> = key_word (mapping_positions (mDiscriminativeBitsRepresentation n)) (paths {} t ! i)"
    unfolding d(15) using assms(2) by (simp add: sparse_keys_def)
  finally show e: "mEntries n ! i = key_word (mapping_positions (mDiscriminativeBitsRepresentation n)) (paths {} t ! i)" .
  have "mPointers n ! i = take (length (leaves t)) (mPointers n) ! i" using assms(2) by simp
  then have "mPointers n ! i = leaves t ! i" unfolding d(16) .
  then show "get_entry n i = Inr (key_word (mapping_positions (mDiscriminativeBitsRepresentation n)) (paths {} t ! i))"
    "get_pointer n i = Inr (leaves t ! i)"
    using assms(2) d(9,10,12,14) e by (simp_all add: get_entry_def get_pointer_def)
qed

section \<open>Searching\<close>

lemma node_lin:
  assumes "node_wf n t"
  defines "ps \<equiv> mapping_positions (mDiscriminativeBitsRepresentation n)"
  shows "path_wf 32 {} (index_trie ps t)" "take (length (leaves t)) (mEntries n) = lin 0 (index_trie ps t)"
proof -
  note d = node_wfD [OF assms(1), folded ps_def]
  show "path_wf 32 {} (index_trie ps t)" using d(5,6,7,8) by (intro path_wf_index_trie) simp_all
  show "take (length (leaves t)) (mEntries n) = lin 0 (index_trie ps t)"
    using d(15) lin_index_trie [OF d(6) d(5), of t "{}"] d(7) by (simp add: sparse_keys_def)
qed

lemma node_search_walk:
  assumes "node_wf n t" "extract_mask g = 0" "mapping_reads (mDiscriminativeBitsRepresentation n) \<le> length bs"
  shows "node_search undef n bs g = Inr (key_walk bs t,
    g \<lparr> wildcard_affected_entry_mask := wildcard_affected_entry_mask g AND mUsedEntriesMask n \<rparr>)"
proof -
  let ?ps = "mapping_positions (mDiscriminativeBitsRepresentation n)"
  let ?d = "of_bits (map (key_bit bs) ?ps) :: u32"
  note d = node_wfD [OF assms(1)]
  note l = node_lin [OF assms(1)]
  have "bsr undef (entry_mask (\<lambda>e. e AND ?d = e) (mEntries n) AND mask (length (leaves (index_trie ?ps t)))) =
      walk ?d (index_trie ?ps t)"
    by (rule search_result_index) (use l d(9) in simp_all)
  also have "\<dots> = key_walk bs t" using walk_index_trie [OF d(6) d(5), of t bs] d(7) by simp
  finally show ?thesis
    using mapping_extract_law [OF d(2) assms(3)] keys_search_law [OF d(3) d(13) d(12) assms(2)] d(11)
    by (simp add: node_search_def toResultIndex_def getMostSignificantBitIndex_def Let_def and.commute)
qed

section \<open>The affected subtree\<close>

lemma range_word:
  assumes "\<And>j. bit (m :: u32) j \<longleftrightarrow> s \<le> j \<and> j < s + c" "0 < c"
  shows "m \<noteq> 0" "tzcnt m = s" "popcnt m = c"
proof -
  have b: "bit m s" using assms by simp
  then show "m \<noteq> 0" by auto
  show "tzcnt m = s" by (rule tzcnt_eqI) (use assms b in auto)
  have "{j. bit m j} = {s..<s + c}" by (rule set_eqI) (simp add: assms(1))
  then show "popcnt m = c" by (simp add: popcnt_card)
qed

lemma subtree_range_pos: "i < length (leaves t) \<Longrightarrow> 0 < snd (subtree_range P i t)"
  using subtree_range_bounds [of i t P] by (auto simp: split_beta)

lemma insert_information:
  assumes wf: "node_wf n t" and i: "i < length (leaves t)" and d: "dbit_for d k"
    and r: "mapping_reach (mDiscriminativeBitsRepresentation n) k"
  shows "getInsertInformation undef n i d = Inr
    \<lparr> mSubtreePrefixPartialKey =
        key_word (mapping_positions (mDiscriminativeBitsRepresentation n)) (paths {} t ! i \<inter> before k),
      mFirstIndexInAffectedSubtree = fst (subtree_range (before k) i t),
      mNumberEntriesInAffectedSubtree = snd (subtree_range (before k) i t), mKeyInformation = d \<rparr>"
proof -
  let ?ps = "mapping_positions (mDiscriminativeBitsRepresentation n)" and ?N = "length (leaves t)"
  let ?x = "key_word ?ps (paths {} t ! i \<inter> before k)" and ?p = "key_word ?ps (before k)"
  obtain s c where sc: "subtree_range (before k) i t = (s, c)" by fastforce
  note wd = node_wfD [OF wf]
  note l = node_lin [OF wf]
  have p: "mapping_getPrefixBitsMask (mDiscriminativeBitsRepresentation n) d = Inr ?p"
    using mapping_prefix_law [OF wd(2) d r] by (simp add: key_word_def)
  have tr: "key_word ?ps P AND mask (key_width n) = key_word ?ps P" for P by (rule key_word_trunc [OF wd(4)])
  let ?m = "entry_mask (\<lambda>e. e AND ?p = ?x) (mEntries n)"
  have a: "keys_getAffectedSubtreeMask (key_width n) (mEntries n) ?p ?x = Inr ?m"
    by (rule keys_subtree_law [OF wd(3,13,12) tr])
  have pb: "prefix_bits {j. bit ?p j} (index_trie ?ps t)"
    by (rule prefix_bits_index_trie [OF _ wd(5) ordered_prefix_bits [OF wd(8)]]) (simp add: wd(7))
  have pw: "path_wf LENGTH(32) {j. bit (0 :: u32) j} (index_trie ?ps t)" using l(1) by simp
  have bits: "bit (?m AND mUsedEntriesMask n) j \<longleftrightarrow> s \<le> j \<and> j < s + c" for j
  proof (cases "j < ?N")
    case False
    then show ?thesis
      using subtree_range_bounds [OF i, of "before k"] sc wd(11) by (auto simp: bit_and_iff bit_mask_iff)
  next
    case True
    have e: "mEntries n ! x = lin 0 (index_trie ?ps t) ! x" if "x < ?N" for x
      using l(2) that by (metis nth_take)
    have x: "?x = mEntries n ! i AND ?p" by (simp add: node_entry(3) [OF wf i] key_word_and)
    have "lin 0 (index_trie ?ps t) ! j AND ?p = lin 0 (index_trie ?ps t) ! i AND ?p \<longleftrightarrow>
        (case subtree_range {j. bit ?p j} i (index_trie ?ps t) of (s, c) \<Rightarrow> s \<le> j \<and> j < s + c)"
      using subtree_range_exact [OF pw pb, of i j] i True by simp
    then have "mEntries n ! j AND ?p = ?x \<longleftrightarrow> s \<le> j \<and> j < s + c"
      using subtree_range_index_trie [of t ?ps "before k" i] wd(5,7) sc e [OF True] e [OF i] x by simp
    then show ?thesis
      using True wd(9,11,12) by (simp add: bit_and_iff bit_mask_iff word_bits)
  qed
  have "0 < c" using subtree_range_pos [OF i, of "before k"] sc by simp
  note rw = range_word [OF bits this]
  show ?thesis
    using node_entry(1) [OF wf i] p a rw sc
    by (simp add: getInsertInformation_def tr key_word_and builtin_ctz_def)
qed

section \<open>Filling a new node entry by entry\<close>

definition filled :: "'c HOTSingleThreadedNode \<Rightarrow> u32 list \<Rightarrow> 'c list \<Rightarrow> 'c HOTSingleThreadedNode" where
  "filled n es ps = n \<lparr> mEntries := es @ drop (length es) (mEntries n), mPointers := ps @ drop (length ps) (mPointers n) \<rparr>"

lemma filled_Nil [simp]: "filled n [] [] = n"
  by (simp add: filled_def)

lemma getNumberEntries_filled [simp]: "getNumberEntries (filled n es ps) = getNumberEntries n"
  by (simp add: getNumberEntries_def filled_def)

lemma filled_fields [simp]:
  "key_width (filled n es ps) = key_width n" "mUsedEntriesMask (filled n es ps) = mUsedEntriesMask n"
  "mDiscriminativeBitsRepresentation (filled n es ps) = mDiscriminativeBitsRepresentation n"
  "mHeight (filled n es ps) = mHeight n"
  by (simp_all add: filled_def)

definition roomy :: "'c HOTSingleThreadedNode \<Rightarrow> bool" where
  "roomy n \<longleftrightarrow> getNumberEntries n \<le> length (mEntries n) \<and> getNumberEntries n \<le> length (mPointers n)"

lemma append_drop_update:
  "length xs < length ys \<Longrightarrow> (xs @ drop (length xs) ys) [length xs := v] = (xs @ [v]) @ drop (Suc (length xs)) ys"
  by (simp add: list_update_append Cons_nth_drop_Suc [symmetric])

lemma put_filled:
  assumes "roomy n" "length es = i" "length ps = i" "i < getNumberEntries n"
  shows "put_entry i v p (filled n es ps) = Inr (filled n (es @ [v AND mask (key_width n)]) (ps @ [p]))"
proof -
  have i: "i < length (mEntries n)" "i < length (mPointers n)" using assms(1,4) by (simp_all add: roomy_def)
  have "(es @ drop i (mEntries n)) [i := v AND mask (key_width n)] = (es @ [v AND mask (key_width n)]) @ drop (Suc i) (mEntries n)"
    "(ps @ drop i (mPointers n)) [i := p] = (ps @ [p]) @ drop (Suc i) (mPointers n)"
    using append_drop_update [of es "mEntries n"] append_drop_update [of ps "mPointers n"] assms(2,3) i by simp_all
  then show ?thesis
    using assms i by (simp add: put_entry_def set_entry_def set_pointer_def filled_def getNumberEntries_def)
qed

lemma copies_filled:
  assumes "roomy n" "roomy src" "a \<le> b" "b \<le> getNumberEntries src" "b + d \<le> getNumberEntries n"
    "length es = a + d" "length ps = a + d"
  shows "rfold (\<lambda>i. copy_entry src f i (i + d)) [a..<b] (filled n es ps) =
    Inr (filled n (es @ map (\<lambda>e. f e AND mask (key_width n)) (take (b - a) (drop a (mEntries src))))
           (ps @ take (b - a) (drop a (mPointers src))))"
  using assms(3,4,5)
proof (induction b)
  case 0
  then show ?case by simp
next
  case (Suc b)
  show ?case
  proof (cases "a = Suc b")
    case True
    then show ?thesis by simp
  next
    case False
    then have ab: "a \<le> b" using Suc.prems by simp
    have b: "b < length (mEntries src)" "b < length (mPointers src)" "b < getNumberEntries src"
      using Suc.prems assms(2) by (auto simp: roomy_def)
    have sl: "take (Suc b - a) (drop a xs) = take (b - a) (drop a xs) @ [xs ! b]" if "b < length xs" for xs :: "'x list"
      using that ab by (simp add: Suc_diff_le take_Suc_conv_app_nth)
    let ?es = "es @ map (\<lambda>e. f e AND mask (key_width n)) (take (b - a) (drop a (mEntries src)))"
    let ?ps = "ps @ take (b - a) (drop a (mPointers src))"
    have "rfold (\<lambda>i. copy_entry src f i (i + d)) [a..<b] (filled n es ps) = Inr (filled n ?es ?ps)"
      by (rule Suc.IH) (use ab Suc.prems in simp_all)
    moreover have "copy_entry src f b (b + d) (filled n ?es ?ps) =
        Inr (filled n (?es @ [f (mEntries src ! b) AND mask (key_width n)]) (?ps @ [mPointers src ! b]))"
    proof -
      have "length ?es = b + d" "length ?ps = b + d" using assms(6,7) ab b by simp_all
      then show ?thesis
        using put_filled [OF assms(1), of ?es "b + d" ?ps] b Suc.prems
        by (simp add: copy_entry_def get_entry_def get_pointer_def)
    qed
    ultimately show ?thesis
      unfolding upt_Suc_append [OF ab] rfold_append sl [OF b(1)] sl [OF b(2)] by simp
  qed
qed

section \<open>The new node\<close>

lemma positions_filter:
  assumes "mapping_wf M" "mapping_wf M'" "mapping_bits M \<subseteq> mapping_bits M'"
  shows "mapping_positions M = filter (\<lambda>x. x \<in> mapping_bits M) (mapping_positions M')"
proof -
  let ?qs = "filter (\<lambda>x. x \<in> mapping_bits M) (mapping_positions M')"
  have "sorted_wrt (<) (map rbit ?qs)"
    using mapping_positions_sorted [OF assms(2)] by (simp add: sorted_wrt_map sorted_wrt_filter)
  moreover have "set (map rbit ?qs) = set (map rbit (mapping_positions M))"
    using assms(3) by (auto simp: mapping_bits_def)
  ultimately have "map rbit (mapping_positions M) = map rbit ?qs"
    using mapping_positions_sorted [OF assms(1)] by (intro strict_sorted_equal) simp_all
  then have "map rbit (map rbit (mapping_positions M)) = map rbit (map rbit ?qs)" by simp
  then show ?thesis by (simp add: comp_def)
qed

lemma conversion_information:
  assumes M: "mapping_valid M" and M': "mapping_valid M'" and B: "mapping_bits M' = insert k (mapping_bits M)"
    and d: "dbit_for d k" and w: "length (mapping_positions M') \<le> key_width n"
    and n: "mDiscriminativeBitsRepresentation n = M'" "mDiscriminativeBitsRepresentation src = M"
  shows "getConversionInformation_node n src d =
    Inr \<lparr> mAdditionalMask = key_word (mapping_positions M') {k},
          mConversionMask = key_word (mapping_positions M') (mapping_bits M) \<rparr>"
proof -
  let ?ps' = "mapping_positions M'" and ?ps = "mapping_positions M"
  have wf: "mapping_wf M" "mapping_wf M'" using M M' by (simp_all add: mapping_valid_def)
  have bits: "set ?ps = mapping_bits M" "set ?ps' = insert k (mapping_bits M)"
    using B by (simp_all add: mapping_bits_def)
  have len: "length ?ps = card (mapping_bits M)" "length ?ps' = card (insert k (mapping_bits M))"
    using distinct_mapping_positions wf bits by (metis distinct_card)+
  have fin: "finite (mapping_bits M)" using bits(1) by (metis List.finite_set)
  have le: "length ?ps' \<le> 32" "length ?ps \<le> 32" using M M' by (simp_all add: mapping_valid_def)
  have all: "mapping_getAllMaskBits M = Inr (key_word ?ps UNIV)" "mapping_getAllMaskBits M' = Inr (key_word ?ps' UNIV)"
    using mapping_all_law M M' by (simp_all add: key_word_UNIV)
  have a: "mapping_getMaskFor M' d = Inr (key_word ?ps' {k})"
    using mapping_maskFor_law [OF M' d] B by (simp add: key_word_def)
  have tr: "key_word ?ps' P AND mask (key_width n) = key_word ?ps' P" for P by (rule key_word_trunc [OF w])
  have masks: "(key_word ?ps UNIV :: u32) \<noteq> key_word ?ps' UNIV \<longleftrightarrow> length ?ps \<noteq> length ?ps'"
    unfolding key_word_UNIV
    by (metis le mask_eq_iff_eq_exp popcnt_mask)
  have new: "length ?ps \<noteq> length ?ps' \<longleftrightarrow> k \<notin> mapping_bits M" using fin by (simp add: len card_insert_if)
  have minus: "key_word ?ps' UNIV AND NOT (key_word ?ps' {k}) = key_word ?ps' (mapping_bits M)" if "k \<notin> mapping_bits M"
  proof (rule bit_word_eqI)
    fix j assume j: "j < LENGTH(32)"
    have "j < length ?ps' \<Longrightarrow> ?ps' ! j = k \<or> ?ps' ! j \<in> mapping_bits M" using bits(2) nth_mem by blast
    then show "bit (key_word ?ps' UNIV AND NOT (key_word ?ps' {k})) j = bit (key_word ?ps' (mapping_bits M)) j"
      using that j by (auto simp: bit_and_iff bit_not_iff bit_key_word)
  qed
  have same: "key_word ?ps' UNIV = key_word ?ps' (mapping_bits M)" if "k \<in> mapping_bits M"
    using that bits(2) nth_mem by (intro bit_word_eqI) (fastforce simp: bit_key_word)
  show ?thesis
    using minus same masks new tr all a n
    by (cases "k \<in> mapping_bits M")
      (simp_all add: getConversionInformation_node_def getConversionInformation_def Let_def)
qed

lemma Node_base_eq:
  assumes "0 < N" "N \<le> 32"
  shows "Node_base mem h N M w = Inr \<lparr> mHeight = h, mUsedEntriesMask = mask N,
    mDiscriminativeBitsRepresentation = M, key_width = w, mEntries = map (\<lambda>e. e AND mask w) (fst mem), mPointers = snd mem \<rparr>"
  using assms low_bits_mask [OF assms]
  by (simp add: Node_base_def getNodeAllocationInformation_def convertNumbeEntriesToEntriesMask_def Let_def)

lemma recoded:
  assumes "mapping_wf M" "mapping_wf M'" "mapping_bits M \<subseteq> mapping_bits M'" "length (mapping_positions M') \<le> 32"
    and "P \<subseteq> mapping_bits M"
  shows "pdep (key_word (mapping_positions M) P) (key_word (mapping_positions M') (mapping_bits M)) =
    key_word (mapping_positions M') P"
  using pdep_key_word [OF assms(4), of "mapping_bits M" P] positions_filter [OF assms(1-3)] assms(5)
  by (simp add: Int_absorb2)

lemma filled_wf:
  assumes "mapping_wf M" "NodeParametersToNodeType (class_of M) w \<noteq> None" "length (mapping_positions M) \<le> w"
    "bits_of t = mapping_bits M" "ordered t" "length (leaves t) \<le> 32" "memory_ok (length (leaves t)) mem"
  shows "node_wf (filled \<lparr> mHeight = h, mUsedEntriesMask = mask (length (leaves t)),
    mDiscriminativeBitsRepresentation = M, key_width = w, mEntries = map (\<lambda>e. e AND mask w) (fst mem), mPointers = snd mem \<rparr>
    (sparse_keys (mapping_positions M) t) (leaves t)) t"
proof -
  have "e AND mask w = e" if "e \<in> set (sparse_keys (mapping_positions M) t)" for e
    using that key_word_trunc [OF assms(3)] by (auto simp: sparse_keys_def)
  moreover have "e AND mask w = e" if "e \<in> set (drop (length (leaves t)) (map (\<lambda>e. e AND mask w) (fst mem)))" for e
    using in_set_dropD [OF that] by (auto simp: and.assoc)
  ultimately have "fits w (sparse_keys (mapping_positions M) t @ drop (length (leaves t)) (map (\<lambda>e. e AND mask w) (fst mem)))"
    unfolding fits_def by (metis Un_iff set_append)
  then show ?thesis
    using assms unfolding node_wf_def Let_def filled_def memory_ok_def by simp
qed

lemma slice_take: "b \<le> N \<Longrightarrow> take (b - a) (drop a xs) = take (b - a) (drop a (take N xs))"
  by (simp add: drop_take)

lemma Node_insert_wf:
  assumes wf: "node_wf src t" and i: "i < length (leaves t)" and d: "dbit_for d k"
    and ins: "insertable k i t" and room: "length (leaves t) \<le> 31"
    and M': "mapping_wf M'" "mapping_bits M' = insert k (mapping_bits (mDiscriminativeBitsRepresentation src))"
    and ty: "NodeParametersToNodeType (class_of M') w \<noteq> None" "length (mapping_positions M') \<le> w"
    and mem: "memory_ok (Suc (length (leaves t))) mem"
    and info: "info = \<lparr> mSubtreePrefixPartialKey =
        key_word (mapping_positions (mDiscriminativeBitsRepresentation src)) (paths {} t ! i \<inter> before k),
      mFirstIndexInAffectedSubtree = fst (subtree_range (before k) i t),
      mNumberEntriesInAffectedSubtree = snd (subtree_range (before k) i t), mKeyInformation = d \<rparr>"
  shows "\<exists>n'. Node_insert mem src (Suc (length (leaves t))) M' w info v = Inr n' \<and>
    node_wf n' (insert_leaf k (mBitValue d \<noteq> 0) v i t) \<and> mHeight n' = mHeight src"
proof -
  let ?M = "mDiscriminativeBitsRepresentation src" and ?N = "length (leaves t)"
  let ?ps = "mapping_positions ?M" and ?ps' = "mapping_positions M'" and ?side = "mBitValue d \<noteq> 0"
  let ?t' = "insert_leaf k ?side v i t" and ?Q = "paths {} t ! i \<inter> before k"
  obtain s c where sc: "subtree_range (before k) i t = (s, c)" by fastforce
  note wd = node_wfD [OF wf]
  have w: "w \<in> {8, 16, 32}" using node_type_width [OF ty(1)] .
  have le: "length ?ps' \<le> 32" using ty(2) w by auto
  then have valid': "mapping_valid M'" using M'(1) by (simp add: mapping_valid_def)
  have sub: "mapping_bits ?M \<subseteq> mapping_bits M'" using M'(2) by blast
  have range: "s \<le> i" "i < s + c" "s + c \<le> ?N" using subtree_range_bounds [OF i, of "before k"] sc by simp_all
  define n0 :: "'a HOTSingleThreadedNode" where
    "n0 = \<lparr> mHeight = mHeight src, mUsedEntriesMask = mask (Suc ?N),
            mDiscriminativeBitsRepresentation = M', key_width = w, mEntries = map (\<lambda>e. e AND mask w) (fst mem), mPointers = snd mem \<rparr>"
  have base: "Node_base mem (mHeight src) (Suc ?N) M' w = Inr n0"
    unfolding n0_def by (rule Node_base_eq) (use room in simp_all)
  have num: "getNumberEntries n0 = Suc ?N"
    using room by (simp add: n0_def getNumberEntries_def popcnt_mask)
  have "mEntries n0 = map (\<lambda>e. e AND mask w) (fst mem)" "mPointers n0 = snd mem" by (simp_all add: n0_def)
  then have roomy: "roomy n0" "roomy src"
    using mem room wd(9,10,12,14) by (auto simp: roomy_def num memory_ok_def)
  have conv: "getConversionInformation_node n0 src d =
      Inr \<lparr> mAdditionalMask = key_word ?ps' {k}, mConversionMask = key_word ?ps' (mapping_bits ?M) \<rparr>"
    by (rule conversion_information [OF wd(2) valid' M'(2) d]) (simp_all add: n0_def ty(2))
  have w0: "key_width n0 = w" by (simp add: n0_def)
  define rec where "rec e = pdep e (key_word ?ps' (mapping_bits ?M))" for e
  have rec: "rec (key_word ?ps P) = key_word ?ps' P" if "P \<subseteq> mapping_bits ?M" for P
    unfolding rec_def by (rule recoded [OF wd(1) M'(1) sub le that])
  have tr: "key_word ?ps' P AND mask w = key_word ?ps' P" for P by (rule key_word_trunc [OF ty(2)])
  have P: "P \<subseteq> mapping_bits ?M" if "P \<in> set (paths {} t)" for P
    using paths_bounds [OF that] wd(18) by simp
  have Q: "?Q \<subseteq> mapping_bits ?M" using P [of "paths {} t ! i"] i by (metis inf.coboundedI1 length_paths nth_mem)
  have slice: "take (b - a) (drop a (mEntries src)) = map (key_word ?ps) (take (b - a) (drop a (paths {} t)))"
    "take (b - a) (drop a (mPointers src)) = take (b - a) (drop a (leaves t))" if "b \<le> ?N" for a b
  proof -
    show "take (b - a) (drop a (mEntries src)) = map (key_word ?ps) (take (b - a) (drop a (paths {} t)))"
      unfolding slice_take [OF that, of a "mEntries src"] wd(15) by (simp add: sparse_keys_def take_map drop_map)
    show "take (b - a) (drop a (mPointers src)) = take (b - a) (drop a (leaves t))"
      unfolding slice_take [OF that, of a "mPointers src"] wd(16) ..
  qed
  have plain: "map (\<lambda>e. rec e AND mask w) (map (key_word ?ps) xs) = map (key_word ?ps') xs"
    and marked: "map (\<lambda>e. (rec e OR key_word ?ps' {k}) AND mask w) (map (key_word ?ps) xs) = map (\<lambda>P. key_word ?ps' (insert k P)) xs"
    if "set xs \<subseteq> set (paths {} t)" for xs
    using that rec P tr by (auto simp: key_word_or)
  have copy: "rfold (\<lambda>j. copy_entry src f j (j + off)) [a..<b] (filled n0 es qs) =
      Inr (filled n0 (es @ map (\<lambda>e. f e AND mask w) (map (key_word ?ps) (take (b - a) (drop a (paths {} t)))))
        (qs @ take (b - a) (drop a (leaves t))))"
    if "a \<le> b" "b \<le> ?N" "off \<le> 1" "length es = a + off" "length qs = a + off" for f a b off es qs
    using copies_filled [OF roomy that(1), of off es qs f] that slice [OF that(2), of a] w0 num wd(10) by simp
  have sets: "set (take x (drop y (paths {} t))) \<subseteq> set (paths {} t)" "set (drop y (paths {} t)) \<subseteq> set (paths {} t)"
    for x y by (meson order_trans set_drop_subset set_take_subset)+
  let ?E1 = "map (key_word ?ps') (take s (paths {} t))" and ?L1 = "take s (leaves t)"
  let ?mid = "take c (drop s (paths {} t))" and ?lmid = "take c (drop s (leaves t))"
  let ?rest = "drop (s + c) (paths {} t)" and ?lrest = "drop (s + c) (leaves t)"
  have l1: "length ?E1 = s" "length ?L1 = s" "length ?mid = c" "length ?lmid = c" using range by simp_all
  have r1: "rfold (\<lambda>j. copy_entry src rec j j) [0..<s] n0 = Inr (filled n0 ?E1 ?L1)"
    using copy [of 0 s 0 "[]" "[]" rec] range plain [OF set_take_subset [of s]] by (simp del: map_map map_eq_conv)
  have r3: "rfold (\<lambda>j. copy_entry src rec j (j + 1)) [s + c..<?N] (filled n0 es qs) =
      Inr (filled n0 (es @ map (key_word ?ps') ?rest) (qs @ ?lrest))"
    if "length es = Suc (s + c)" "length qs = Suc (s + c)" for es qs
    using copy [of "s + c" ?N 1 es qs rec] range that plain [OF sets(2) [of "s + c"]]
    by (simp del: map_map map_eq_conv)
  have old: "sub32 (Suc ?N) 1 = ?N" using room by simp
  have mid: "rbind (if ?side
      then rbind (rfold (\<lambda>j. copy_entry src rec j j) [s..<s + c] (filled n0 ?E1 ?L1))
             (put_entry (s + c) (rec (key_word ?ps ?Q) OR key_word ?ps' {k}) v)
      else rbind (put_entry s (rec (key_word ?ps ?Q)) v (filled n0 ?E1 ?L1))
             (rfold (\<lambda>j. copy_entry src (\<lambda>e. rec e OR key_word ?ps' {k}) j (j + 1)) [s..<s + c]))
      (rfold (\<lambda>j. copy_entry src rec j (j + 1)) [s + c..<?N]) =
    Inr (filled n0 (sparse_keys ?ps' ?t') (leaves ?t'))"
  proof (cases ?side)
    case True
    have "sparse_keys ?ps' ?t' = ?E1 @ map (key_word ?ps') ?mid @ [key_word ?ps' (?Q \<union> {k})] @ map (key_word ?ps') ?rest"
      using True paths_insert_leaf [OF i wd(8) ins, of "{}" ?side v] sc by (simp add: sparse_keys_def spliced_def)
    moreover have "leaves ?t' = ?L1 @ ?lmid @ [v] @ ?lrest"
      using True leaves_insert_leaf [OF i, of k ?side v] sc by (simp add: spliced_def)
    moreover have "rfold (\<lambda>j. copy_entry src rec j j) [s..<s + c] (filled n0 ?E1 ?L1) =
        Inr (filled n0 (?E1 @ map (key_word ?ps') ?mid) (?L1 @ ?lmid))"
      using copy [of s "s + c" 0 ?E1 ?L1 rec] range plain [OF sets(1) [of c s]] l1 by (simp del: map_map map_eq_conv)
    moreover have "put_entry (s + c) (rec (key_word ?ps ?Q) OR key_word ?ps' {k}) v
        (filled n0 (?E1 @ map (key_word ?ps') ?mid) (?L1 @ ?lmid)) =
        Inr (filled n0 ((?E1 @ map (key_word ?ps') ?mid) @ [key_word ?ps' (?Q \<union> {k})]) ((?L1 @ ?lmid) @ [v]))"
      using put_filled [OF roomy(1), of "?E1 @ map (key_word ?ps') ?mid" "s + c" "?L1 @ ?lmid"] l1 range num
      by (simp add: rec [OF Q] key_word_or tr w0)
    ultimately show ?thesis using True r3 l1 by simp
  next
    case False
    have "sparse_keys ?ps' ?t' = ?E1 @ [key_word ?ps' ?Q] @ map (\<lambda>P. key_word ?ps' (insert k P)) ?mid @ map (key_word ?ps') ?rest"
      using False paths_insert_leaf [OF i wd(8) ins, of "{}" ?side v] sc by (simp add: sparse_keys_def spliced_def)
    moreover have "leaves ?t' = ?L1 @ [v] @ ?lmid @ ?lrest"
      using False leaves_insert_leaf [OF i, of k ?side v] sc by (simp add: spliced_def)
    moreover have "put_entry s (rec (key_word ?ps ?Q)) v (filled n0 ?E1 ?L1) =
        Inr (filled n0 (?E1 @ [key_word ?ps' ?Q]) (?L1 @ [v]))"
      using put_filled [OF roomy(1), of ?E1 s ?L1] l1 range num by (simp add: rec [OF Q] tr w0)
    moreover have "rfold (\<lambda>j. copy_entry src (\<lambda>e. rec e OR key_word ?ps' {k}) j (j + 1)) [s..<s + c]
        (filled n0 (?E1 @ [key_word ?ps' ?Q]) (?L1 @ [v])) =
        Inr (filled n0 ((?E1 @ [key_word ?ps' ?Q]) @ map (\<lambda>P. key_word ?ps' (insert k P)) ?mid) ((?L1 @ [v]) @ ?lmid))"
      using copy [of s "s + c" 1 "?E1 @ [key_word ?ps' ?Q]" "?L1 @ [v]" "\<lambda>e. rec e OR key_word ?ps' {k}"]
        range marked [OF sets(1) [of c s]] l1 by (simp del: map_map map_eq_conv)
    ultimately show ?thesis using False r3 l1 by simp
  qed
  have rec_eq: "rec = (\<lambda>e. pdep e (key_word ?ps' (mapping_bits ?M)))" by (simp add: rec_def fun_eq_iff)
  have "Node_insert mem src (Suc ?N) M' w info v = Inr (filled n0 (sparse_keys ?ps' ?t') (leaves ?t'))"
    using base conv r1 [unfolded rec_eq] mid [unfolded rec_eq] old sc
    by (simp add: Node_insert_def info Let_def getFirstIndexInAffectedSubtree_def
        getNumberEntriesInAffectedSubtree_def cong: if_cong)
  moreover have "node_wf (filled n0 (sparse_keys ?ps' ?t') (leaves ?t')) ?t'"
    using filled_wf [OF M'(1) ty, of ?t' mem "mHeight src"] M'(2) wd(18) ordered_insert_leaf [OF wd(8) ins] room mem
    by (simp add: n0_def)
  ultimately show ?thesis by (simp add: n0_def)
qed

section \<open>Adding an entry\<close>

lemma extend_wf:
  assumes wf: "mm_wf n m" and n: "n \<in> {1, 2}"
  shows "\<exists>m'. MultiMask_extend (n * 2) m = Inr m' \<and> mm_wf (n * 2) m' \<and> mm_bits m' = mm_bits m"
proof -
  from wf have sh: "mm_shape n m" by (simp add: mm_wf_def)
  obtain es where ok: "bytes_ok n es" and m: "m = mm_of n (mMostSignificantDiscriminativeBitIndex m)
      (mLeastSignificantDiscriminativeBitIndex m) (mNumberKeyBits m) es" by (rule mm_of_exists [OF sh])
  let ?m' = "mm_of (n * 2) (mMostSignificantDiscriminativeBitIndex m)
      (mLeastSignificantDiscriminativeBitIndex m) (mNumberKeyBits m) es"
  note e = extend_mm_of [OF ok n]
  have B: "mm_bits m = byte_bits es" "mm_bits ?m' = byte_bits es"
    using mm_bits_of [OF ok] mm_bits_of [OF e(2)] m by metis+
  have "mm_wf (n * 2) ?m'"
    using wf mm_of_shape [OF e(2)] mm_positions_card [OF sh] mm_positions_card [OF mm_of_shape [OF e(2)]] B
    by (simp add: mm_wf_def)
  then show ?thesis using e(1) m B by metis
qed

lemma to_representation:
  assumes "mapping_wf M" "length (mapping_positions M) \<le> 32"
  shows "\<exists>M'. ToDiscriminativeBitsRepresentation M w = Inr M' \<and> mapping_wf M' \<and> mapping_bits M' = mapping_bits M \<and>
    class_of M' = (if class_of M = MultiMaskClass2 \<and> w = 32 then MultiMaskClass4 else class_of M)"
proof (cases M)
  case (MultiMapping2 m)
  show ?thesis
    using assms extend_wf [of 2 m] by (cases "w = 32") (auto simp: MultiMapping2)
qed (use assms in simp_all)

lemma insert_class:
  assumes "mapping_insert M d = Inr M'" "class_of M' = MultiMaskClass4"
  shows "class_of M = MultiMaskClass2 \<or> class_of M = MultiMaskClass4"
  using assms
  by (cases M) (auto simp: sm_insert_def mm_insert_def multi_def rbind_eq_Inr Let_def split: if_splits)

lemma positions_length: "mapping_wf M \<Longrightarrow> length (mapping_positions M) = card (mapping_bits M)"
  using distinct_mapping_positions distinct_card unfolding mapping_bits_def by metis

lemma node_types:
  "NodeParametersToNodeType c w \<noteq> None \<longleftrightarrow>
    (c = SingleMaskClass \<or> c = MultiMaskClass1) \<and> w \<in> {8, 16, 32} \<or> c = MultiMaskClass2 \<and> w = 16 \<or> c = MultiMaskClass4 \<and> w = 32"
  by (cases c) (auto simp: NodeParametersToNodeType_def)

lemma addEntry_wf:
  assumes wf: "node_wf n t" and i: "i < length (leaves t)" and room: "length (leaves t) \<le> 31"
    and d: "dbit_for d k" and r: "mapping_reach (mDiscriminativeBitsRepresentation n) k" and ins: "insertable k i t"
    and mem: "memory_ok (Suc (length (leaves t))) mem"
  shows "\<exists>info n'. getInsertInformation undef n i d = Inr info \<and> addEntry mem n info v = Inr n' \<and>
    node_wf n' (insert_leaf k (mBitValue d \<noteq> 0) v i t) \<and> mHeight n' = mHeight n"
proof -
  let ?M = "mDiscriminativeBitsRepresentation n" and ?w = "key_width n"
  note wd = node_wfD [OF wf]
  have few: "card (mapping_bits ?M) \<le> 30"
    using card_bits_of [of t] room wd(18) by (metis Suc_leI Suc_le_mono eval_nat_numeral(3) le_trans numeral_3_eq_3 numeral_One)
  then obtain M' where M': "mapping_insert ?M d = Inr M'" "mapping_wf M'" "mapping_bits M' = insert k (mapping_bits ?M)"
    using mapping_insert_adds [OF wd(1) _ d] by auto
  let ?c = "class_of M'" and ?L = "length (mapping_positions M')"
  have fin: "finite (mapping_bits ?M)" by (simp add: mapping_bits_def)
  have L: "?L \<le> Suc (length (mapping_positions ?M))" "?L \<le> 31"
    using positions_length [OF M'(2)] positions_length [OF wd(1)] few fin by (simp_all add: M'(3) card_insert_if)
  have num: "mapping_calculateNumberBitsUsed M' = ?L" by (rule mapping_number_law [OF M'(2)])
  have ty: "(class_of ?M = SingleMaskClass \<or> class_of ?M = MultiMaskClass1) \<and> ?w \<in> {8, 16, 32} \<or>
      class_of ?M = MultiMaskClass2 \<and> ?w = 16 \<or> class_of ?M = MultiMaskClass4 \<and> ?w = 32"
    using wd(17) unfolding node_types .
  have c4: "?c = MultiMaskClass4 \<Longrightarrow> ?w = 16 \<or> ?w = 32" using insert_class [OF M'(1)] ty by auto
  obtain info where info: "getInsertInformation undef n i d = Inr info"
    "info = \<lparr> mSubtreePrefixPartialKey = key_word (mapping_positions ?M) (paths {} t ! i \<inter> before k),
      mFirstIndexInAffectedSubtree = fst (subtree_range (before k) i t),
      mNumberEntriesInAffectedSubtree = snd (subtree_range (before k) i t), mKeyInformation = d \<rparr>"
    using insert_information [OF wf i d r] by blast
  have build: "\<exists>n'. Node_insert mem n (Suc (length (leaves t))) N w' info v = Inr n' \<and>
      node_wf n' (insert_leaf k (mBitValue d \<noteq> 0) v i t) \<and> mHeight n' = mHeight n"
    if "mapping_wf N" "mapping_bits N = mapping_bits M'" "NodeParametersToNodeType (class_of N) w' \<noteq> None" "?L \<le> w'" for N w'
  proof -
    have "length (mapping_positions N) = ?L"
      using positions_length [OF that(1)] positions_length [OF M'(2)] that(2) by simp
    then show ?thesis
      using Node_insert_wf [OF wf i d ins room that(1) _ that(3) _ mem info(2), of v] that(2,4) M'(3) by simp
  qed
  obtain M1 where M1: "ToDiscriminativeBitsRepresentation M' ?w = Inr M1" "mapping_wf M1"
    "mapping_bits M1 = mapping_bits M'" "class_of M1 = (if ?c = MultiMaskClass2 \<and> ?w = 32 then MultiMaskClass4 else ?c)"
    using to_representation [OF M'(2), of ?w] L by auto
  have nn: "u16nat (getNumberEntries n + 1) = Suc (length (leaves t))" using wd(10) room by simp
  have "\<exists>n'. addEntry mem n info v = Inr n' \<and> node_wf n' (insert_leaf k (mBitValue d \<noteq> 0) v i t) \<and> mHeight n' = mHeight n"
  proof (cases "?L \<le> ?w")
    case True
    have "NodeParametersToNodeType (class_of M1) (ToPartialKeyType (class_of M1) ?w) \<noteq> None"
      "?L \<le> ToPartialKeyType (class_of M1) ?w"
      using wd(3) c4 True unfolding node_types M1(4) by (cases ?c; auto simp: ToPartialKeyType_def)+
    from build [OF M1(2,3) this] show ?thesis
      using True M'(1) M1(1) nn info(2) by (simp add: addEntry_def Let_def num)
  next
    case False
    then have w: "?w = 8 \<or> ?w = 16" using wd(3) L by auto
    let ?w2 = "NextPartialKeyType ?w"
    have len1: "length (mapping_positions M1) \<le> 32"
      using positions_length [OF M1(2)] positions_length [OF M'(2)] M1(3) L by simp
    obtain M2 where M2: "ToDiscriminativeBitsRepresentation M1 ?w2 = Inr M2" "mapping_wf M2"
      "mapping_bits M2 = mapping_bits M1"
      "class_of M2 = (if class_of M1 = MultiMaskClass2 \<and> ?w2 = 32 then MultiMaskClass4 else class_of M1)"
      using to_representation [OF M1(2) len1, of ?w2] by auto
    have "NodeParametersToNodeType (class_of M2) (ToPartialKeyType (class_of M1) ?w2) \<noteq> None"
      "?L \<le> ToPartialKeyType (class_of M1) ?w2"
      using w c4 L(1) wd(4) unfolding node_types M2(4) M1(4)
      by (cases ?c; auto simp: ToPartialKeyType_def NextPartialKeyType_def)+
    from build [OF M2(2) _ this] M2(3) M1(3) show ?thesis
      using False M'(1) M1(1) M2(1) nn info(2) by (simp add: addEntry_def Let_def num)
  qed
  with info(1) show ?thesis by blast
qed

end
