(* ===== verification/Hot_Node_Contract.thy ===== *)
theory Hot_Node_Contract
  imports Hot_Node_Insert
begin

text \<open>
  What a node promises: searching it is looking the key up in its trie, adding an entry is inserting a
  leaf, and after it exactly the keys that belong to the new leaf find the new child.  The memory an
  allocation reserves holds the keys, the 32 lanes a search reads and the children without overlap.
\<close>

unbundle bit_operations_syntax

section \<open>Looking up after an insertion\<close>

lemma lookup_insert_leaf:
  assumes "i < length (leaves t)"
  shows "leaves (insert_leaf k side v i t) ! key_walk bs (insert_leaf k side v i t) =
    (case subtree_range (before k) i t of (s, c) \<Rightarrow>
       if s \<le> key_walk bs t \<and> key_walk bs t < s + c \<and> key_bit bs k = side then v else leaves t ! key_walk bs t)"
  using assms
proof (induction t arbitrary: i)
  case (PLeaf u)
  then show ?case by (auto simp: join_def)
next
  case (PNode b l r)
  have bounds: "key_walk bs l < length (leaves l)" "key_walk bs r < length (leaves r)" by (rule key_walk_less)+
  show ?case
  proof (cases "b < k")
    case False
    then show ?thesis using bounds by (auto simp: join_def nth_append)
  next
    case bk: True
    show ?thesis
    proof (cases "i < length (leaves l)")
      case True
      have "key_walk bs (insert_leaf k side v i l) < Suc (length (leaves l))"
        using key_walk_less [of bs "insert_leaf k side v i l"] by simp
      then show ?thesis
        using True bk PNode.IH(1) [OF True] subtree_range_bounds [OF True, of "before k"] bounds key_walk_less
        by (auto simp: split_beta nth_append)
    next
      case False
      then have i: "i - length (leaves l) < length (leaves r)" using PNode.prems by simp
      then show ?thesis
        using bk False PNode.IH(2) [OF i] bounds by (auto simp: split_beta nth_append)
    qed
  qed
qed


section \<open>The bytes of a key a mapping reads\<close>

lemma mm_reads_bound:
  assumes "mm_shape n m"
  shows "\<exists>k \<in> mm_bits m. mm_reads m = k div 8 + 1"
proof -
  let ?i = "mNumberExtractionBytes m - 1" and ?d = "mExtractionData m"
  note s = mm_shapeD [OF assms]
  have i: "?i < mNumberExtractionBytes m" "?i < length ?d" using s(3,4,5) by simp_all
  have "?d ! ?i \<noteq> 0" using assms i(1) by (simp add: mm_shape_def)
  then obtain r where r: "bit (?d ! ?i) r" by (auto simp: bit_eq_iff)
  then have r8: "r < 8" using bit_imp_le_length by fastforce
  then have b: "bitb ?d (8 * ?i + r)" using r i(2) by (simp add: bitb_def)
  then have "abs_bit (mm_pos m) (8 * ?i + r) \<in> mm_bits m" by (simp add: mm_bits_def mm_positions_def)
  moreover have "abs_bit (mm_pos m) (8 * ?i + r) div 8 = mm_pos m ?i" using r8 by (simp add: abs_bit_def)
  ultimately show ?thesis by (metis mm_reads_def)
qed

text \<open>A key that has all discriminative bits, and the eight bytes a single mask reads, is long enough.\<close>

lemma mapping_reads_le:
  assumes "mapping_wf M" "8 \<le> L" "\<And>k. k \<in> mapping_bits M \<Longrightarrow> k < 8 * L"
  shows "mapping_reads M \<le> L"
proof -
  have multi: "mm_reads m \<le> L" if "mm_wf n m" "mm_bits m = mapping_bits M" for n m
  proof -
    obtain k where "k \<in> mm_bits m" "mm_reads m = k div 8 + 1" using mm_reads_bound \<open>mm_wf n m\<close> mm_wf_def by blast
    with assms(3) [of k] that(2) show ?thesis by (simp add: less_mult_imp_div_less mult.commute Suc_leI)
  qed
  show ?thesis
  proof (cases M)
    case (SingleMapping m)
    then have "Max (sm_bits m) \<in> sm_bits m" "mOffsetInBytes m = Max (sm_bits m) div 8 - 7"
      using assms(1) by (auto simp: mapping_wf_def sm_wf_def sm_bits_def intro!: Max_in)
    then show ?thesis using assms(2) assms(3) [of "Max (sm_bits m)"] SingleMapping
      by (auto simp: mapping_bits_def mapping_positions_def sm_bits_def)
  qed (use assms(1) multi in \<open>auto simp: mapping_wf_def mapping_bits_def mapping_positions_def mm_bits_def\<close>)
qed

section \<open>The contract of a node\<close>

text \<open>C11: Searching a node of any kind for a key returns the index of the child that the trie leads to:
  following the discriminative bits of the key from the root.  The entries a wildcard search marked
  are cut down to those in use.\<close>
theorem node_search_is_trie_lookup:
  assumes "node_wf n t" and "extract_mask g = 0"
    and "mapping_reads (mDiscriminativeBitsRepresentation n) \<le> length bs"
  shows "node_search undef n bs g = Inr (key_walk bs t,
      g \<lparr> wildcard_affected_entry_mask := wildcard_affected_entry_mask g AND mUsedEntriesMask n \<rparr>) \<and>
    get_pointer n (key_walk bs t) = Inr (leaves t ! key_walk bs t)"
  using node_search_walk [OF assms] node_entry(2) [OF assms(1) key_walk_less] by blast

text \<open>C8: Adding an entry implements inserting a leaf: with the information computed for the entry
  \<open>i\<close> and a new bit, \<open>addEntry\<close> succeeds and yields a node for the trie with the new leaf, whatever
  the class and key width of the node and of the node it becomes, and whatever its memory held.\<close>
theorem add_entry_inserts_leaf:
  assumes "node_wf n t" and "i < length (leaves t)" and "length (leaves t) \<le> 31" and "dbit_for d k"
    and "mapping_reach (mDiscriminativeBitsRepresentation n) k" and "insertable k i t"
    and "memory_ok (Suc (length (leaves t))) mem"
  shows "\<exists>info n'. getInsertInformation undef n i d = Inr info \<and> addEntry mem n info v = Inr n' \<and>
    node_wf n' (insert_leaf k (mBitValue d \<noteq> 0) v i t) \<and> mHeight n' = mHeight n"
  using assms by (rule addEntry_wf)

text \<open>C10: After adding an entry a search finds the new child exactly for the keys that reach the
  affected entries and have the value of the new bit; every other key finds the child it found before.\<close>
theorem search_after_add_entry:
  assumes wf: "node_wf n t" and i: "i < length (leaves t)" and room: "length (leaves t) \<le> 31" and d: "dbit_for d k"
    and reach: "mapping_reach (mDiscriminativeBitsRepresentation n) k" and ins: "insertable k i t"
    and mem: "memory_ok (Suc (length (leaves t))) mem"
    and info: "getInsertInformation undef n i d = Inr info" and add: "addEntry mem n info v = Inr n'"
    and g: "extract_mask g = 0" and key: "8 \<le> length bs" "Max (insert k (bits_of t)) < 8 * length bs"
  shows "\<exists>j g1 j' g2. node_search undef n bs g = Inr (j, g1) \<and> node_search undef n' bs g = Inr (j', g2) \<and>
    get_pointer n' j' =
      (if getFirstIndexInAffectedSubtree info \<le> j \<and>
          j < getFirstIndexInAffectedSubtree info + getNumberEntriesInAffectedSubtree info \<and>
          key_bit bs k = (mBitValue d \<noteq> 0) then Inr v else get_pointer n j)"
proof -
  have wf': "node_wf n' (insert_leaf k (mBitValue d \<noteq> 0) v i t)"
    using addEntry_wf [OF wf i room d reach ins mem, of undef v] info add by auto
  have reads: "mapping_reads (mDiscriminativeBitsRepresentation n) \<le> length bs"
    "mapping_reads (mDiscriminativeBitsRepresentation n') \<le> length bs"
  proof -
    have c: "c < 8 * length bs" if "c \<in> insert k (bits_of t)" for c
      using Max_ge [OF _ that] key(2) by (simp add: le_less_trans)
    then show "mapping_reads (mDiscriminativeBitsRepresentation n) \<le> length bs"
      "mapping_reads (mDiscriminativeBitsRepresentation n') \<le> length bs"
      using key(1) node_wfD(1,18) [OF wf] node_wfD(1) [OF wf'] node_wfD(18) [OF wf', symmetric]
      by (auto intro!: mapping_reads_le)
  qed
  have range: "getFirstIndexInAffectedSubtree info = fst (subtree_range (before k) i t)"
    "getNumberEntriesInAffectedSubtree info = snd (subtree_range (before k) i t)"
    using insert_information [OF wf i d reach, of undef] info
    by (simp_all add: getFirstIndexInAffectedSubtree_def getNumberEntriesInAffectedSubtree_def)
  show ?thesis
    unfolding node_search_walk [OF wf g reads(1)] node_search_walk [OF wf' g reads(2)] range
    using node_entry(2) [OF wf key_walk_less, of bs] node_entry(2) [OF wf' key_walk_less, of bs]
      lookup_insert_leaf [OF i, of k "mBitValue d \<noteq> 0" v bs]
    by (simp add: split_beta)
qed

section \<open>Memory layout\<close>

lemma lookup_allocation:
  assumes "\<And>N. N \<in> set [1..<33] \<Longrightarrow> \<exists>i. f N = Inr i" "1 \<le> N" "N \<le> 32"
  shows "getAllocationInformation f N = f N"
proof -
  from assms(1) obtain g where g: "\<And>N. N \<in> set [1..<33] \<Longrightarrow> f N = Inr (g N)" by metis
  have "rmap f [1..<33] = Inr (map g [1..<33])" by (rule rmap_Inr_map) (rule g)
  moreover have "[1..<33] ! (N - 1) = N" using assms(2,3) by (simp add: nth_upt)
  ultimately show ?thesis
    using g [of N] assms(2,3)
    by (simp add: getAllocationInformation_def mAllocationInformations_def MAXIMUM_NUMBER_NODE_ENTRIES_def del: upt_rec_numeral)
qed

lemma align_of_nat:
  assumes "n \<le> 1000"
  shows "alignToNextHighestValueDivisableBy8 (of_nat n) = of_nat (8 * ((n + 7) div 8))"
proof -
  have u: "unat (of_nat n :: u16) = n" using assms by (simp add: unat_of_nat take_bit_nat_eq_self)
  have "(of_nat n :: u16) AND NOT 7 = push_bit 3 (drop_bit 3 (of_nat n))"
  proof (rule bit_word_eqI)
    fix j assume "j < LENGTH(16)"
    have "bit (7 :: u16) j \<longleftrightarrow> j < 3" using bit_mask_iff [where 'a = "16 word", of 3 j] \<open>j < LENGTH(16)\<close>
      by (simp add: mask_eq_exp_minus_1)
    then show "bit ((of_nat n :: u16) AND NOT 7) j = bit (push_bit 3 (drop_bit 3 (of_nat n :: u16))) j"
      using \<open>j < LENGTH(16)\<close>
      unfolding bit_and_iff bit_not_iff bit_push_bit_iff bit_drop_bit_eq comp_def by auto
  qed
  also have "\<dots> = of_nat (8 * (n div 8))"
  proof -
    have "(of_nat n :: u16) div 8 = of_nat (n div 8)"
      using assms by (simp add: word_unat_eq_iff unat_div u unat_of_nat take_bit_nat_eq_self)
    then show ?thesis by (simp add: push_bit_eq_mult drop_bit_eq_div)
  qed
  finally have r: "(of_nat n :: u16) AND NOT 7 = of_nat (8 * (n div 8))" .
  have z: "(of_nat n :: u16) mod 8 = 0 \<longleftrightarrow> n mod 8 = 0" by (simp add: word_unat_eq_iff unat_mod u)
  show ?thesis
  proof (cases "n mod 8 = 0")
    case True
    then have "8 * ((n + 7) div 8) = n" by presburger
    with True z show ?thesis by (simp add: alignToNextHighestValueDivisableBy8_def)
  next
    case False
    then have "8 * (n div 8) + 8 = 8 * ((n + 7) div 8)" by presburger
    then have "of_nat (8 * (n div 8)) + 8 = (of_nat (8 * ((n + 7) div 8)) :: u16)"
      by (metis of_nat_add of_nat_numeral)
    moreover have "(of_nat n :: u16) mod 8 \<noteq> 0" using False z by simp
    ultimately show ?thesis unfolding alignToNextHighestValueDivisableBy8_def r by simp
  qed
qed

text \<open>The sizes of a node of a class, key width and number of entries.\<close>

definition pointer_offset :: "mapping_class \<Rightarrow> nat \<Rightarrow> nat \<Rightarrow> nat" where
  "pointer_offset c w N = 8 * ((N * (w div 8) + 7) div 8) + base_size c"

lemma node_layout:
  assumes "w \<in> {8, 16, 32}" "1 \<le> N" "N \<le> 32"
  shows "\<exists>info. getNodeAllocationInformation c w N = Inr info \<and> mEntriesMask info = mask N \<and>
    unat (mPointerOffset info) = pointer_offset c w N \<and>
    unat (mTotalSizeInBytes info) = pointer_offset c w N + max 3 N * sizeof_ChildPointer"
proof -
  let ?po = "pointer_offset c w N"
  have small: "N * (w div 8) \<le> 128" "base_size c \<le> 88"
  proof -
    show "N * (w div 8) \<le> 128" using assms by auto
    show "base_size c \<le> 88" by (cases c) simp_all
  qed
  then have po: "?po \<le> 300" unfolding pointer_offset_def by linarith
  have "estimateSize (w div 8) (of_nat N) + of_nat (base_size c) = (of_nat ?po :: u16)"
    using small(1) assms(3) align_of_nat [of "N * (w div 8)"]
    by (simp add: estimateSize_def pointer_offset_def unat_of_nat take_bit_nat_eq_self)
  moreover have "calculatePointerSize N = of_nat (max 3 N * sizeof_ChildPointer)"
    by (auto simp: calculatePointerSize_def sizeof_ChildPointer_def max_def)
  moreover have u: "unat (of_nat ?po :: u16) = ?po" using po by (simp add: unat_of_nat take_bit_nat_eq_self)
  moreover have "ucast (of_nat ?po :: u16) = (of_nat ?po :: u32)" 
    using po u by (simp add: word_unat_eq_iff unsigned_ucast_eq unat_of_nat take_bit_nat_eq_self)
  moreover have "unat (ucast (of_nat (max 3 N * sizeof_ChildPointer) + of_nat ?po :: u32) :: u16) =
      ?po + max 3 N * sizeof_ChildPointer"
  proof -
    have "max 3 N * sizeof_ChildPointer + ?po < 2 ^ 16" using assms(3) po by (auto simp: sizeof_ChildPointer_def max_def)
    then show ?thesis
      by (simp add: unat_of_nat unsigned_ucast_eq take_bit_nat_eq_self flip: of_nat_add of_nat_mult)
  qed
  ultimately show ?thesis
    using low_bits_mask [OF _ assms(3)] assms
    by (simp add: getNodeAllocationInformation_def convertNumbeEntriesToEntriesMask_def Let_def)
qed

text \<open>C24: The layout of a node of up to 32 entries: the mask has a bit for every entry, the children
  start behind the keys and end before the end, 32 lanes of keys, which every search reads, lie inside
  the memory of the node, offset and size are multiples of 8 bytes and no 16-bit size wraps around.\<close>
theorem node_layout_bounds:
  assumes "w \<in> {8, 16, 32}" and "1 \<le> N" and "N \<le> 32"
  shows "\<exists>info. getNodeAllocationInformation c w N = Inr info \<and>
    getAllocationInformation (getNodeAllocationInformation c w) N = Inr info \<and>
    mEntriesMask info = mask N \<and>
    base_size c + N * (w div 8) \<le> unat (mPointerOffset info) \<and>
    unat (mPointerOffset info) + N * sizeof_ChildPointer \<le> unat (mTotalSizeInBytes info) \<and>
    base_size c + 32 * (w div 8) \<le> unat (mTotalSizeInBytes info) \<and>
    unat (mPointerOffset info) mod 8 = 0 \<and> unat (mTotalSizeInBytes info) mod 8 = 0"
proof -
  have all: "\<exists>info. getNodeAllocationInformation c w N = Inr info" if "N \<in> set [1..<33]" for N
    using node_layout [OF assms(1), of N c] that by auto
  have look: "getAllocationInformation (getNodeAllocationInformation c w) N = getNodeAllocationInformation c w N"
    using assms(2,3) by (intro lookup_allocation all)
  obtain info where i: "getNodeAllocationInformation c w N = Inr info" "mEntriesMask info = mask N"
    "unat (mPointerOffset info) = pointer_offset c w N"
    "unat (mTotalSizeInBytes info) = pointer_offset c w N + max 3 N * sizeof_ChildPointer"
    using node_layout [OF assms] by blast
  have "base_size c mod 8 = 0" by (cases c) simp_all
  moreover have "base_size c + 32 * (w div 8) \<le> pointer_offset c w N + max 3 N * sizeof_ChildPointer"
    using assms(1) by (auto simp: pointer_offset_def sizeof_ChildPointer_def max_def)
  moreover have "N * (w div 8) \<le> 8 * ((N * (w div 8) + 7) div 8)" by presburger
  ultimately show ?thesis
    using i look by (auto simp: pointer_offset_def sizeof_ChildPointer_def)
qed


theorem node_layout_bounds_witness:
  "\<exists>info. getNodeAllocationInformation MultiMaskClass4 32 32 = Inr info \<and>
    base_size MultiMaskClass4 + 32 * (32 div 8) \<le> unat (mPointerOffset info)"
  using node_layout_bounds [of 32 32 MultiMaskClass4] by auto

section \<open>Witnesses\<close>

text \<open>A node of two entries that tests bit 10, and the bit 20 on its right side.\<close>

definition example_node :: "nat HOTSingleThreadedNode" where
  "example_node = \<lparr> mHeight = 1, mUsedEntriesMask = 3,
     mDiscriminativeBitsRepresentation = SingleMapping
       \<lparr> mMostSignificantDiscriminativeBitIndex = 10, mLeastSignificantDiscriminativeBitIndex = 10,
         mOffsetInBytes = 0, mSuccessiveExtractionMask = 0x2000 \<rparr>,
     key_width = 8, mEntries = [0, 1] @ replicate 30 0xFF, mPointers = [7, 9] \<rparr>"

definition example_trie :: "nat ptrie" where
  "example_trie = PNode 10 (PLeaf 7) (PLeaf 9)"

lemma example_wf: "node_wf example_node example_trie"
  by code_simp

lemma example_leaves [simp]: "leaves example_trie = [7, 9]"
  by (simp add: example_trie_def)

lemma example_reads [simp]: "mapping_reads (mDiscriminativeBitsRepresentation example_node) = 8"
  "mapping_reach (mDiscriminativeBitsRepresentation example_node) k"
  by (simp_all add: example_node_def)

lemma example_insertable: "insertable 20 1 example_trie" "dbit_for (DiscriminativeBit_at 20 1) 20"
  "memory_ok (Suc (length (leaves example_trie))) (replicate 32 0, replicate 3 (0 :: nat))"
  using dbit_for_at [of 20 1] by (simp_all add: example_trie_def memory_ok_def)

theorem node_search_is_trie_lookup_witness:
  "\<exists>g. node_search 0 example_node [0, 0x20, 0, 0, 0, 0, 0, 0] \<lparr> extract_mask = 0, wildcard_affected_entry_mask = 0 \<rparr> = Inr (1, g) \<and>
    get_pointer example_node 1 = Inr 9"
proof -
  have "key_walk [0, 0x20, 0, 0, 0, 0, 0, 0] example_trie = 1" by code_simp
  then show ?thesis
    using node_search_is_trie_lookup [OF example_wf, of "\<lparr> extract_mask = 0, wildcard_affected_entry_mask = 0 \<rparr>"
        "[0, 0x20, 0, 0, 0, 0, 0, 0]" 0]
    by simp
qed

theorem add_entry_inserts_leaf_witness:
  "\<exists>info n'. getInsertInformation 0 example_node 1 (DiscriminativeBit_at 20 1) = Inr info \<and>
    addEntry (replicate 32 0, replicate 3 0) example_node info 11 = Inr n' \<and>
    node_wf n' (insert_leaf 20 (mBitValue (DiscriminativeBit_at 20 1) \<noteq> 0) 11 1 example_trie) \<and> mHeight n' = mHeight example_node"
  by (rule add_entry_inserts_leaf [OF example_wf _ _ example_insertable(2) example_reads(2) example_insertable(1,3)])
    simp_all


theorem search_after_add_entry_witness:
  "\<exists>info n' j g. getInsertInformation 0 example_node 1 (DiscriminativeBit_at 20 1) = Inr info \<and>
    addEntry (replicate 32 0, replicate 3 0) example_node info 11 = Inr n' \<and>
    node_search 0 n' [0, 0x20, 0x08, 0, 0, 0, 0, 0] \<lparr> extract_mask = 0, wildcard_affected_entry_mask = 0 \<rparr> = Inr (j, g) \<and>
    get_pointer n' j = Inr 11"
proof -
  let ?g = "\<lparr> extract_mask = 0, wildcard_affected_entry_mask = 0 \<rparr>" and ?bs = "[0, 0x20, 0x08, 0, 0, 0, 0, 0] :: u8 list"
  obtain info n' where n': "getInsertInformation 0 example_node 1 (DiscriminativeBit_at 20 1) = Inr info"
    "addEntry (replicate 32 0, replicate 3 0) example_node info 11 = Inr n'"
    using addEntry_wf [OF example_wf _ _ example_insertable(2) example_reads(2) example_insertable(1,3), of 0 11] by auto
  have range: "subtree_range (before 20) 1 example_trie = (1, 1)" by (simp add: example_trie_def)
  have info: "getFirstIndexInAffectedSubtree info = 1" "getNumberEntriesInAffectedSubtree info = 1"
    using insert_information [OF example_wf _ example_insertable(2) example_reads(2), of 1 0] n'(1) range
    by (auto simp: getFirstIndexInAffectedSubtree_def getNumberEntriesInAffectedSubtree_def)
  have k: "key_bit ?bs 20 = (mBitValue (DiscriminativeBit_at 20 1) \<noteq> 0)" "key_walk ?bs example_trie = 1" by code_simp+
  have "\<exists>j g1 j' g2. node_search 0 example_node ?bs ?g = Inr (j, g1) \<and> node_search 0 n' ?bs ?g = Inr (j', g2) \<and>
    get_pointer n' j' = (if getFirstIndexInAffectedSubtree info \<le> j \<and>
          j < getFirstIndexInAffectedSubtree info + getNumberEntriesInAffectedSubtree info \<and>
          key_bit ?bs 20 = (mBitValue (DiscriminativeBit_at 20 1) \<noteq> 0) then Inr 11 else get_pointer example_node j)"
    by (rule search_after_add_entry [OF example_wf _ _ example_insertable(2) example_reads(2) example_insertable(1,3) n'(1,2)])
      (simp_all add: example_trie_def)
  then show ?thesis
    using n' info k node_search_walk [OF example_wf, of ?g ?bs 0] by auto
qed

end
