(* ===== verification/Hot_Wildcard_Search.thy ===== *)
theory Hot_Wildcard_Search
  imports Hot_Node_Contract
begin

text \<open>
  Searching a node for a rule with wildcards, as an insertion does: \<open>searchForInsert\<close> with a mask of
  \<open>HOTSingleThreadedNode.hpp\<close> over every mapping and key width.  A single mask takes the wildcards out of the
  key and of the entries and records which entries agree with the rest; a multi mask ignores the wildcards.
\<close>

unbundle bit_operations_syntax

section \<open>Entries without the wildcard bits\<close>

lemma ucast_pext_bits:
  assumes "popcnt (x :: u64) \<le> LENGTH('a :: len)"
  shows "(ucast (pext a x) :: 'a word) AND ucast (pext b x) = ucast (pext a x) \<longleftrightarrow> (\<forall>i. bit x i \<longrightarrow> bit a i \<longrightarrow> bit b i)"
    and "(ucast (pext a x) :: 'a word) = ucast (pext b x) \<longleftrightarrow> (\<forall>i. bit x i \<longrightarrow> bit a i = bit b i)"
proof -
  have small: "bit (pext v x) i \<Longrightarrow> i < LENGTH('a)" for v i using assms by (simp add: bit_pext)
  have small64: "bit (pext v x) i \<Longrightarrow> i < 64" for v i using bit_imp_le_length [of "pext v x" i] by simp
  have u: "bit (ucast (pext v x) :: 'a word) i \<longleftrightarrow> bit (pext v x) i" for v i
    using small by (auto simp: bit_unsigned_iff)
  have "(ucast (pext a x) :: 'a word) AND ucast (pext b x) = ucast (pext a x) \<longleftrightarrow> pext a x AND pext b x = pext a x"
    by (auto simp: bit_eq_iff bit_and_iff u dest: small small64)
  then show "(ucast (pext a x) :: 'a word) AND ucast (pext b x) = ucast (pext a x) \<longleftrightarrow>
      (\<forall>i. bit x i \<longrightarrow> bit a i \<longrightarrow> bit b i)" by (simp add: pext_subset)
  have "(ucast (pext a x) :: 'a word) = ucast (pext b x) \<longleftrightarrow> pext a x = pext b x"
    by (auto simp: bit_eq_iff u dest: small small64)
  also have "\<dots> \<longleftrightarrow> a AND x = b AND x" by (rule pext_eq_iff)
  also have "\<dots> \<longleftrightarrow> (\<forall>i. bit x i \<longrightarrow> bit a i = bit b i)" by (rule and_eq_and_iff)
  finally show "(ucast (pext a x) :: 'a word) = ucast (pext b x) \<longleftrightarrow> (\<forall>i. bit x i \<longrightarrow> bit a i = bit b i)" .
qed

lemma masked_search:
  fixes es :: "u32 list"
  assumes x: "popcnt x \<le> LENGTH('a :: len)" "x \<noteq> 0" "extract_mask g = x" and es: "\<And>e. e \<in> set es \<Longrightarrow> e AND mask LENGTH('a) = e"
  shows "search_spec (ucast (pext d x) :: 'a word) (map ucast es) g =
    (entry_mask (\<lambda>e. \<forall>j. bit x j \<longrightarrow> bit e j \<longrightarrow> bit d j) es,
     g \<lparr> wildcard_affected_entry_mask := entry_mask (\<lambda>e. \<forall>j. bit x j \<longrightarrow> bit e j = bit d j) es \<rparr>)"
proof -
  have p: "project x (ucast e :: 'a word) = ucast (pext (ucast e) x)" if "e \<in> set es" for e
  proof -
    have "bit e j \<Longrightarrow> j < LENGTH('a)" for j using arg_cong [OF es [OF that], of "\<lambda>w. bit w j"] by (simp add: bit_and_iff bit_mask_iff)
    then have "(ucast (ucast e :: 'a word) :: u64) = ucast e" by (intro bit_word_eqI) (auto simp: bit_unsigned_iff)
    then show ?thesis by (simp add: project_def)
  qed
  have b: "bit (ucast e :: u64) j \<longleftrightarrow> bit e j" for e :: u32 and j
    by (auto simp: bit_unsigned_iff dest: bit_imp_le_length)
  have "entry_mask (\<lambda>e :: 'a word. e AND ucast (pext d x) = e) (map (project x) (map ucast es)) =
      entry_mask (\<lambda>e. \<forall>j. bit x j \<longrightarrow> bit e j \<longrightarrow> bit d j) es"
    "entry_mask (\<lambda>e :: 'a word. e = ucast (pext d x)) (map (project x) (map ucast es)) =
      entry_mask (\<lambda>e. \<forall>j. bit x j \<longrightarrow> bit e j = bit d j) es"
    unfolding entry_mask_map by (rule entry_mask_cong, simp only: p ucast_pext_bits [OF x(1)] b)+
  then show ?thesis using x(2,3) by (simp add: search_spec_def Let_def)
qed

lemma keys_search_masked:
  assumes w: "w \<in> {8, 16, 32}" and es: "fits w es" "32 \<le> length es" and x: "popcnt x \<le> w" "x \<noteq> 0" "extract_mask g = x"
  shows "keys_search w (ucast (pext d x)) es g = Inr (entry_mask (\<lambda>e. \<forall>j. bit x j \<longrightarrow> bit e j \<longrightarrow> bit d j) es,
    g \<lparr> wildcard_affected_entry_mask := entry_mask (\<lambda>e. \<forall>j. bit x j \<longrightarrow> bit e j = bit d j) es \<rparr>)"
proof -
  have n: "(ucast (ucast v :: u32) :: u8) = ucast v" "(ucast (ucast v :: u32) :: u16) = ucast v" for v :: u64
    by (rule bit_word_eqI, simp add: bit_unsigned_iff)+
  consider "w = 8" | "w = 16" | "w = 32" using w by blast
  then show ?thesis
  proof cases
    case 1
    then show ?thesis using masked_search [where 'a = 8, of x g es d] es x by (simp add: keys_search_def search_u8_spec n fits_def)
  next
    case 2
    then show ?thesis using masked_search [where 'a = 16, of x g es d] es x by (simp add: keys_search_def search_u16_spec n fits_def)
  next
    case 3
    have "map ucast es = es" by (rule map_idI) (rule bit_word_eqI, simp add: bit_unsigned_iff)
    with 3 show ?thesis using masked_search [where 'a = 32, of x g es d] es x by (simp add: keys_search_def search_u32_spec fits_def)
  qed
qed

section \<open>The search of a single mask\<close>

text \<open>The key with all wildcard bits set.\<close>

definition widened :: "u8 list \<Rightarrow> u64 \<Rightarrow> u8 list" where
  "widened bs msk = map2 (OR) bs (key_bytes msk)"

lemma key_bit_widened:
  assumes "length bs = 8" and "k < 64"
  shows "key_bit (widened bs msk) k \<longleftrightarrow> key_bit bs k \<or> key_bit (key_bytes msk) k"
proof -
  have "k div 8 < 8" using assms(2) by simp
  then show ?thesis using assms(1) by (simp add: key_bit_def widened_def bit_or_iff)
qed

lemma walk_0: "walk 0 t = 0"
  by (induction t) simp_all

text \<open>What the code extracts from the key, and the bits that are no wildcards.\<close>

lemma single_mask_wildcards:
  assumes v: "sm_valid m" and bs: "length bs = 8" "mOffsetInBytes m = 0" and msk: "msk \<noteq> 0"
  obtains x d where "sm_extractMask_mask m bs msk g = Inr (ucast (pext d x), g \<lparr> extract_mask := x \<rparr>)"
    "\<And>j. bit x j \<longleftrightarrow> j < length (sm_positions m) \<and> \<not> key_bit (key_bytes msk) (sm_positions m ! j)"
    "\<And>j. j < length (sm_positions m) \<Longrightarrow> bit d j \<longleftrightarrow> key_bit bs (sm_positions m ! j)"
proof -
  let ?ps = "sm_positions m"
  define x where "x = pext (mSuccessiveExtractionMask m XOR bswap64 msk) (mSuccessiveExtractionMask m)"
  note xb = non_wildcard_mask [OF bs(2) x_def]
  have n32: "length ?ps \<le> 32" using v by (simp add: sm_valid_def sm_positions_def popcnt_def)
  from bs obtain w where w: "load64 bs (mOffsetInBytes m) = Inr w" by (auto simp: load64_def)
  have dense: "extractMaskFromSuccessiveBytes m w = of_bits (map (key_bit bs) ?ps)"
    using sm_extract_law [OF v, of bs] w bs by (simp add: sm_extractMask_def)
  have "sm_extractMask_mask m bs msk g = Inr (ucast (pext (ucast (extractMaskFromSuccessiveBytes m w)) x), g \<lparr> extract_mask := x \<rparr>)"
    using w msk by (simp add: sm_extractMask_mask_def extractMaskFromSuccessiveBytes_mask_def Let_def
        x_def [symmetric] extractMaskFromSuccessiveBytes_def)
  moreover have "bit (ucast (extractMaskFromSuccessiveBytes m w) :: u64) j \<longleftrightarrow> key_bit bs (?ps ! j)" if "j < length ?ps" for j
    using that n32 by (simp add: dense bit_unsigned_iff word_bits)
  ultimately show thesis using that xb by blast
qed

text \<open>C20: Searching a node for a rule with wildcards, for keys of eight bytes.  In a node with a single mask and
  partial keys of any width: while some bit that the node tests is no wildcard, the search follows the node's trie with the key in which all
  wildcard bits are set, and it records as affected exactly the used entries whose partial key agrees with the
  key in every bit that is no wildcard; when all bits of the node are wildcards, it returns the first entry and
  keeps what was recorded.  In a node with a multi mask the wildcards are ignored: the search is the search of
  the key alone.\<close>
theorem node_wildcard_search:
  assumes wf: "node_wf n t" and bs: "length bs = 8" "mapping_reads (mDiscriminativeBitsRepresentation n) \<le> 8" and msk: "msk \<noteq> 0"
  shows "case mDiscriminativeBitsRepresentation n of
      SingleMapping m \<Rightarrow>
        if \<exists>k \<in> bits_of t. \<not> key_bit (key_bytes msk) k
        then \<exists>g'. node_searchForInsert_mask undef n bs msk g =
            Inr (key_walk (widened bs msk) t, SearchResultForInsert_init (key_walk (widened bs msk) t) (Min (bits_of t)), g') \<and>
          (\<forall>i. bit (wildcard_affected_entry_mask g') i \<longleftrightarrow> i < length (leaves t) \<and>
            (\<forall>k \<in> bits_of t. \<not> key_bit (key_bytes msk) k \<longrightarrow> (k \<in> paths {} t ! i \<longleftrightarrow> key_bit bs k)))
        else node_searchForInsert_mask undef n bs msk g = Inr (0, SearchResultForInsert_init 0 (Min (bits_of t)),
          g \<lparr> extract_mask := 0, wildcard_affected_entry_mask := wildcard_affected_entry_mask g AND mUsedEntriesMask n \<rparr>)
    | _ \<Rightarrow> node_searchForInsert_mask undef n bs msk g = node_searchForInsert undef n bs g"
proof (cases "mDiscriminativeBitsRepresentation n")
  case (SingleMapping m)
  let ?ps = "sm_positions m" and ?N = "length (leaves t)"
  let ?wild = "\<lambda>k. key_bit (key_bytes msk) k"
  note d = node_wfD [OF wf, unfolded SingleMapping, simplified]
  have ps: "mapping_positions (mDiscriminativeBitsRepresentation n) = ?ps" by (simp add: SingleMapping mapping_positions_def)
  note d = node_wfD [OF wf, unfolded ps]
  note l = node_lin [OF wf, unfolded ps]
  have v: "sm_valid m" "mOffsetInBytes m = 0" using d(2) bs(2) by (simp_all add: SingleMapping)
  have init: "mapping_mostSignificantIndex (mDiscriminativeBitsRepresentation n) = Min (bits_of t)"
    using mapping_most_law [OF d(1)] d(18) by simp
  have p64: "k < 64" if "k \<in> set ?ps" for k
    using sm_bits_bounds(2) [of k m] that v(2) by (simp add: sm_bits_def)
  obtain x e where x: "sm_extractMask_mask m bs msk g = Inr (ucast (pext e x), g \<lparr> extract_mask := x \<rparr>)"
    "\<And>j. bit x j \<longleftrightarrow> j < length ?ps \<and> \<not> ?wild (?ps ! j)" "\<And>j. j < length ?ps \<Longrightarrow> bit e j \<longleftrightarrow> key_bit bs (?ps ! j)"
    by (rule single_mask_wildcards [OF v(1) bs(1) v(2) msk]) blast
  have x0: "x = 0 \<longleftrightarrow> \<not> (\<exists>k \<in> bits_of t. \<not> ?wild k)"
  proof -
    have "x = 0 \<longleftrightarrow> (\<forall>j. \<not> bit x j)" by (auto intro: bit_word_eqI)
    then show ?thesis by (auto simp: d(7) x(2) all_set_conv_all_nth)
  qed
  have idx: "nat (getMostSignificantBitIndex undef (mUsedEntriesMask n AND r)) = walk y (index_trie ?ps t)"
    if "\<And>i. i < ?N \<Longrightarrow> bit r i \<longleftrightarrow> bit (entry_mask (\<lambda>e. e AND y = e) (mEntries n)) i" for r :: u32 and y
  proof -
    have "mUsedEntriesMask n AND r = entry_mask (\<lambda>e. e AND y = e) (mEntries n) AND mask (length (leaves (index_trie ?ps t)))"
      unfolding d(11) using that by (intro bit_word_eqI) (auto simp: bit_and_iff bit_mask_iff)
    moreover have "bsr undef (entry_mask (\<lambda>e. e AND y = e) (mEntries n) AND mask (length (leaves (index_trie ?ps t)))) = walk y (index_trie ?ps t)"
      by (rule search_result_index) (use l d(9) in simp_all)
    ultimately show ?thesis by (simp add: getMostSignificantBitIndex_def)
  qed
  show ?thesis
  proof (cases "x = 0")
    case True
    have none: "\<not> (\<exists>k \<in> bits_of t. \<not> ?wild k)" using True x0 by blast
    have "keys_search (key_width n) 0 (mEntries n) (g \<lparr> extract_mask := 0 \<rparr>) =
        Inr (entry_mask (\<lambda>e. e AND 0 = e) (mEntries n), g \<lparr> extract_mask := 0 \<rparr>)"
      by (rule keys_search_law [OF d(3) d(13) d(12)]) simp
    moreover have "nat (getMostSignificantBitIndex undef (mUsedEntriesMask n AND entry_mask (\<lambda>e. e AND 0 = e) (mEntries n))) = 0"
      using idx [of "entry_mask (\<lambda>e. e AND 0 = e) (mEntries n)" 0] by (simp add: walk_0)
    ultimately show ?thesis
      using x(1) none init by (simp add: SingleMapping node_searchForInsert_mask_def toResultIndex_def Let_def True)
  next
    case False
    have some: "\<exists>k \<in> bits_of t. \<not> ?wild k" using False x0 by blast
    have pop: "popcnt x \<le> key_width n" by (rule popcnt_subset) (use x(2) d(4) in auto)
    have search: "keys_search (key_width n) (ucast (pext e x)) (mEntries n) (g \<lparr> extract_mask := x \<rparr>) =
        Inr (entry_mask (\<lambda>v. \<forall>j. bit x j \<longrightarrow> bit v j \<longrightarrow> bit e j) (mEntries n), g \<lparr> extract_mask := x,
          wildcard_affected_entry_mask := entry_mask (\<lambda>v. \<forall>j. bit x j \<longrightarrow> bit v j = bit e j) (mEntries n) \<rparr>)"
      using keys_search_masked [OF d(3) d(13) d(12) pop False, of "g \<lparr> extract_mask := x \<rparr>" e] by simp
    let ?y = "of_bits (map (key_bit (widened bs msk)) ?ps) :: u32"
    have bit_used: "bit (entry_mask P (mEntries n)) i \<longleftrightarrow> P (key_word ?ps (paths {} t ! i))" if "i < ?N" for P i
      using node_entry(3) [OF wf that] that d(9,12) by (simp add: bit_entry_mask ps)
    have b: "bit (key_word ?ps Q) j \<longleftrightarrow> ?ps ! j \<in> Q" if "j < length ?ps" for j Q
      using that d(5) by (simp add: bit_key_word)
    have y: "bit ?y j \<longleftrightarrow> key_bit bs (?ps ! j) \<or> ?wild (?ps ! j)" if "j < length ?ps" for j
      using that d(5) key_bit_widened [OF bs(1) p64] by (simp add: word_bits)
    have yall: "key_word ?ps Q AND ?y = key_word ?ps Q \<longleftrightarrow> (\<forall>j < length ?ps. ?ps ! j \<in> Q \<longrightarrow> bit ?y j)" for Q
    proof (intro iffI allI impI)
      fix j assume eq: "key_word ?ps Q AND ?y = key_word ?ps Q" and j: "j < length ?ps" "?ps ! j \<in> Q"
      show "bit ?y j" using arg_cong [OF eq, of "\<lambda>w. bit w j"] b [OF j(1)] j(2) by (simp add: bit_and_iff)
    next
      assume "\<forall>j < length ?ps. ?ps ! j \<in> Q \<longrightarrow> bit ?y j"
      then show "key_word ?ps Q AND ?y = key_word ?ps Q" by (intro bit_word_eqI) (auto simp: bit_and_iff bit_key_word)
    qed
    have "nat (getMostSignificantBitIndex undef (mUsedEntriesMask n AND entry_mask (\<lambda>v. \<forall>j. bit x j \<longrightarrow> bit v j \<longrightarrow> bit e j) (mEntries n))) =
        walk ?y (index_trie ?ps t)"
      by (rule idx) (simp add: bit_used yall y x(2,3) b; blast)
    also have "\<dots> = key_walk (widened bs msk) t" by (rule walk_index_trie [OF d(6,5)]) (simp add: d(7))
    finally have walk: "nat (getMostSignificantBitIndex undef (mUsedEntriesMask n AND
        entry_mask (\<lambda>v. \<forall>j. bit x j \<longrightarrow> bit v j \<longrightarrow> bit e j) (mEntries n))) = key_walk (widened bs msk) t" .
    have affected: "bit (entry_mask (\<lambda>v. \<forall>j. bit x j \<longrightarrow> bit v j = bit e j) (mEntries n) AND mUsedEntriesMask n) i \<longleftrightarrow>
        i < ?N \<and> (\<forall>k \<in> bits_of t. \<not> ?wild k \<longrightarrow> (k \<in> paths {} t ! i \<longleftrightarrow> key_bit bs k))" for i
    proof (cases "i < ?N")
      case True
      then show ?thesis
        using d(9) by (simp add: bit_and_iff d(11) bit_mask_iff bit_used x(2,3) b d(7) all_set_conv_all_nth) (auto simp: b x(3))
    qed (simp add: bit_and_iff d(11) bit_mask_iff)
    show ?thesis
      using some x(1) search walk affected init
      by (simp add: SingleMapping node_searchForInsert_mask_def toResultIndex_def Let_def)
  qed
qed (simp_all add: node_searchForInsert_mask_def node_searchForInsert_def mm_extractMask_mask_def mm_extractMask_def
    rbind_def split: sum.split)

theorem node_wildcard_search_witness:
  "\<exists>g'. node_searchForInsert_mask 0 example_node [0, 0, 0, 0, 0, 0, 0, 0] (push_bit 60 1) \<lparr> extract_mask = 0, wildcard_affected_entry_mask = 3 \<rparr> =
      Inr (0, SearchResultForInsert_init 0 10, g') \<and> wildcard_affected_entry_mask g' = 1"
proof -
  let ?g = "\<lparr> extract_mask = 0, wildcard_affected_entry_mask = 3 \<rparr>" and ?bs = "[0, 0, 0, 0, 0, 0, 0, 0] :: u8 list"
  have w: "\<not> key_bit (key_bytes (push_bit 60 1)) 10" "\<not> key_bit ?bs 10" "key_walk (widened ?bs (push_bit 60 1)) example_trie = 0"
    "(push_bit 60 1 :: u64) \<noteq> 0" by code_simp+
  have t: "bits_of example_trie = {10}" "paths {} example_trie = [{}, {10}]" by (simp_all add: example_trie_def)
  obtain m where m: "mDiscriminativeBitsRepresentation example_node = SingleMapping m" "mOffsetInBytes m = 0" by (simp add: example_node_def)
  obtain g' where g': "node_searchForInsert_mask 0 example_node ?bs (push_bit 60 1) ?g = Inr (0, SearchResultForInsert_init 0 10, g')"
    "\<And>i. bit (wildcard_affected_entry_mask g') i \<longleftrightarrow> i < Suc (Suc 0) \<and> 10 \<notin> [{}, {10 :: nat}] ! i"
    using node_wildcard_search [OF example_wf, of ?bs "push_bit 60 1" 0 ?g] w(1,2,3,4) by (auto simp: m t)
  have "wildcard_affected_entry_mask g' = 1"
    by (rule bit_word_eqI) (auto simp: g'(2) bit_1_iff less_Suc_eq)
  then show ?thesis using g'(1) by blast
qed

end
