(* ===== verification/Hot_Lookup.thy ===== *)
theory Hot_Lookup
  imports Hot_Node_Contract Content_Helpers
begin

text \<open>
  Looking up a key in the tree of \<open>src/hot/single-threaded/include/hot/singlethreaded/HOTSingleThreaded.hpp\<close>,
  with the operations of a child pointer that read the node it points to
  (\<open>HOTSingleThreadedChildPointer.hpp\<close>) and the search of the program \<open>src/test/hot_tree.cpp\<close>.  The
  nodes in memory are a partial function of their addresses.  Keys and values have 64 bits and the key
  extractor, a template parameter, is the argument \<open>extractKey\<close>.  A loop over pointers may run forever in
  a memory with cycles, so the loops are partial functions: \<open>None\<close> is a loop that does not end.
\<close>

unbundle bit_operations_syntax

section \<open>Nodes in memory\<close>

type_synonym CP = HOTSingleThreadedChildPointer
type_synonym node_memory = "u64 \<Rightarrow> CP HOTSingleThreadedNode option"

text \<open>
  The dispatch on the type of the node: the object at the address must be a node of the type the
  pointer says, everything else is the use of an invalid pointer.
\<close>

definition executeForSpecificNodeType ::
  "node_memory \<Rightarrow> CP \<Rightarrow> (CP HOTSingleThreadedNode \<Rightarrow> 'r cxx) \<Rightarrow> 'r cxx" where
  "executeForSpecificNodeType nodes p operation =
     (case nodes (getNode p) of None \<Rightarrow> Inl UB_Null
      | Some n \<Rightarrow>
          if NodeTypeToNodeParameters (getNodeType p) = (class_of (mDiscriminativeBitsRepresentation n), key_width n)
          then operation n else Inl UB_Null)"

definition node_at :: "node_memory \<Rightarrow> CP \<Rightarrow> CP HOTSingleThreadedNode cxx" where
  "node_at nodes p = (case nodes (getNode p) of None \<Rightarrow> Inl UB_Null | Some n \<Rightarrow> Inr n)"

definition pointer_getHeight :: "node_memory \<Rightarrow> CP \<Rightarrow> nat cxx" where
  "pointer_getHeight nodes p = (if isLeaf p then Inr 0 else rbind (node_at nodes p) (\<lambda>n. Inr (mHeight n)))"

definition pointer_getNumberEntries :: "node_memory \<Rightarrow> CP \<Rightarrow> nat cxx" where
  "pointer_getNumberEntries nodes p =
     (if isLeaf p then Inr 1 else rbind (node_at nodes p) (\<lambda>n. Inr (getNumberEntries n)))"

definition pointer_getDiscriminativeBits :: "node_memory \<Rightarrow> CP \<Rightarrow> nat list cxx" where
  "pointer_getDiscriminativeBits nodes p =
     executeForSpecificNodeType nodes p (\<lambda>n. mapping_getDiscriminativeBits (mDiscriminativeBitsRepresentation n))"

text \<open>The child a search leads to, read from the memory it points to.\<close>

definition pointer_search ::
  "node_memory \<Rightarrow> nat \<Rightarrow> CP \<Rightarrow> u8 list \<Rightarrow> Search_globals \<Rightarrow> (CP \<times> Search_globals) cxx" where
  "pointer_search nodes undef p keyBytes g =
     executeForSpecificNodeType nodes p (\<lambda>n.
       rbind (node_search undef n keyBytes g) (\<lambda>(i, g').
       rbind (get_pointer n i) (\<lambda>c. Inr (c, g'))))"

partial_function (option) getSmallestLeafValueInSubtree :: "node_memory \<Rightarrow> CP \<Rightarrow> CP cxx option" where
  "getSmallestLeafValueInSubtree nodes p =
     (if isLeaf p then Some (Inr p)
      else case rbind (node_at nodes p) (\<lambda>n. get_pointer n 0) of
             Inl e \<Rightarrow> Some (Inl e) | Inr c \<Rightarrow> getSmallestLeafValueInSubtree nodes c)"

partial_function (option) getLargestLeafValueInSubtree :: "node_memory \<Rightarrow> CP \<Rightarrow> CP cxx option" where
  "getLargestLeafValueInSubtree nodes p =
     (if isLeaf p then Some (Inr p)
      else case rbind (node_at nodes p) (\<lambda>n. get_pointer n (sub32 (getNumberEntries n) 1)) of
             Inl e \<Rightarrow> Some (Inl e) | Inr c \<Rightarrow> getLargestLeafValueInSubtree nodes c)"

section \<open>The tree\<close>

text \<open>The root in use is a pointer to one of the two roots, or null in a new tree.\<close>

datatype root = Root_left | Root_right

record HOTSingleThreaded =
  mRoot :: "root option"
  mRoot_left :: CP
  mRoot_right :: CP

definition HOTSingleThreaded0 :: HOTSingleThreaded where
  "HOTSingleThreaded0 = \<lparr> mRoot = None, mRoot_left = ChildPointer0, mRoot_right = ChildPointer0 \<rparr>"

definition read_root :: "HOTSingleThreaded \<Rightarrow> CP cxx" where
  "read_root h = (case mRoot h of None \<Rightarrow> Inl UB_Null
     | Some Root_left \<Rightarrow> Inr (mRoot_left h) | Some Root_right \<Rightarrow> Inr (mRoot_right h))"

definition hot_isEmpty :: "HOTSingleThreaded \<Rightarrow> bool cxx" where
  "hot_isEmpty h = rbind (read_root h) (\<lambda>r. Inr (\<not> isLeaf r \<and> getNode r = 0))"

definition hot_isRootANode :: "HOTSingleThreaded \<Rightarrow> bool cxx" where
  "hot_isRootANode h = rbind (read_root h) (\<lambda>r. Inr (isNode r \<and> getNode r \<noteq> 0))"

definition hot_getHeight :: "node_memory \<Rightarrow> HOTSingleThreaded \<Rightarrow> nat cxx" where
  "hot_getHeight nodes h =
     rbind (hot_isEmpty h) (\<lambda>e. if e then Inr 0 else rbind (read_root h) (pointer_getHeight nodes))"

definition hasTheSameKey :: "(u64 \<Rightarrow> u64) \<Rightarrow> u64 \<Rightarrow> u64 \<Rightarrow> bool" where
  "hasTheSameKey extractKey tid key = contentEquals (extractKey (tidToValue64 tid)) key"

text \<open>
  The rule of a leaf, and otherwise the first of the rules in its list that matches the key.  The list
  is an array of eight entries.
\<close>

definition extractAndMatchLeafValue :: "(u64 \<Rightarrow> u64) \<Rightarrow> u64 \<Rightarrow> CP \<Rightarrow> u64 \<Rightarrow> u64 OptionalValue" where
  "extractAndMatchLeafValue extractKey junk_mask current key =
     (let v = tidToValue64 (getTid current) in OptionalValue2 (contentEquals (extractKey v) key) v junk_mask)"

fun match_entries ::
  "(u64 \<Rightarrow> u64) \<Rightarrow> u64 \<Rightarrow> u64 OptionalValue \<Rightarrow> entryVector list \<Rightarrow> nat \<Rightarrow> u64 OptionalValue cxx" where
  "match_entries extractKey key none es 0 = Inr none"
| "match_entries extractKey key none [] (Suc n) = Inl UB_Index"
| "match_entries extractKey key none (e # es) (Suc n) =
     (let value1 = tidToValue64 (signed_drop_bit 1 (entry_value e))
      in if contentEquals_mask (extractKey value1) key (entry_mask_bits e)
         then Inr (OptionalValue3 True value1 (entry_mask_bits e))
         else match_entries extractKey key none es n)"

definition extractAndMatchLeafValue_mask ::
  "(u64 \<Rightarrow> u64) \<Rightarrow> CP \<Rightarrow> u64 \<Rightarrow> u64 \<Rightarrow> u64 OptionalValue cxx" where
  "extractAndMatchLeafValue_mask extractKey current key msk =
     (let v = tidToValue64 (getTid current)
      in if contentEquals_mask (extractKey v) key msk then Inr (OptionalValue3 True v msk)
         else match_entries extractKey key (OptionalValue3 False v msk) (entryList current) (unat (listSize current)))"

section \<open>Lookup\<close>

partial_function (option) lookup_loop ::
  "node_memory \<Rightarrow> nat \<Rightarrow> u8 list \<Rightarrow> CP \<Rightarrow> Search_globals \<Rightarrow> (CP \<times> Search_globals) cxx option" where
  "lookup_loop nodes undef byteKey current g =
     (if \<not> isLeaf current \<and> getNode current \<noteq> 0
      then case pointer_search nodes undef current byteKey g of
             Inl e \<Rightarrow> Some (Inl e)
           | Inr (c, g') \<Rightarrow> lookup_loop nodes undef byteKey c g'
      else Some (Inr (current, g)))"

definition lookup ::
  "(u64 \<Rightarrow> u64) \<Rightarrow> node_memory \<Rightarrow> nat \<Rightarrow> u64 OptionalValue \<Rightarrow> u64 \<Rightarrow> int \<Rightarrow> Search_globals \<Rightarrow> HOTSingleThreaded
   \<Rightarrow> (u64 OptionalValue \<times> Search_globals \<times> HOTSingleThreaded) cxx option" where
  "lookup extractKey nodes undef junk key index g h =
     (let byteKey = interpretAsByteArray64 (toBigEndianByteOrder64 key);
          (h', start) = (if index = 1 then (h \<lparr> mRoot := Some Root_right \<rparr>, mRoot_right h)
                         else (h \<lparr> mRoot := Some Root_left \<rparr>, mRoot_left h))
      in case lookup_loop nodes undef byteKey start g of
           None \<Rightarrow> None
         | Some r \<Rightarrow> Some (rbind r (\<lambda>(current, g').
             rbind (if isLeaf current then extractAndMatchLeafValue_mask extractKey current key (mMask current)
                    else Inr (OptionalValue0 (mValue junk) (Rmask junk))) (\<lambda>v. Inr (v, g', h')))))"


text \<open>
  The program's search: the highest bit of the key selects the root, the other 63 are looked up.  Its
  state is the tree with the globals it uses.
\<close>

record hot_program =
  search_globals :: Search_globals
  key_index :: int
  match_count :: u64
  mTrie :: HOTSingleThreaded

definition IdentityKeyExtractor :: "u64 \<Rightarrow> u64" where
  "IdentityKeyExtractor v = v"

definition hot_search ::
  "node_memory \<Rightarrow> nat \<Rightarrow> u64 OptionalValue \<Rightarrow> u64 \<Rightarrow> hot_program \<Rightarrow> (bool \<times> hot_program) cxx option" where
  "hot_search nodes undef junk key s =
     (let new_key = key AND NOT (push_bit 63 1);
          index = int (unat (drop_bit 63 key AND 1))
      in map_option (\<lambda>r. rbind r (\<lambda>(result, g, h).
           let tmp = mIsValid result \<and> mValue result OR Rmask result = new_key OR Rmask result;
               s' = s \<lparr> search_globals := g, key_index := index, mTrie := h \<rparr>
           in Inr (if tmp then (True, s' \<lparr> match_count := match_count s + 1 \<rparr>) else (False, s'))))
         (lookup IdentityKeyExtractor nodes undef junk new_key index (search_globals s) (mTrie s)))"

section \<open>The trie that the nodes in memory make up\<close>

text \<open>A trie with its leaves replaced by tries, and the leaf that a key leads to.\<close>

fun graft :: "'a ptrie \<Rightarrow> 'b ptrie list \<Rightarrow> 'b ptrie" where
  "graft (PLeaf v) Ts = hd Ts"
| "graft (PNode b l r) Ts = PNode b (graft l (take (length (leaves l)) Ts)) (graft r (drop (length (leaves l)) Ts))"

fun find_leaf :: "u8 list \<Rightarrow> 'v ptrie \<Rightarrow> 'v" where
  "find_leaf bs (PLeaf v) = v"
| "find_leaf bs (PNode b l r) = (if key_bit bs b then find_leaf bs r else find_leaf bs l)"

inductive tree_at :: "node_memory \<Rightarrow> CP \<Rightarrow> CP ptrie \<Rightarrow> bool" for nodes where
  leaf: "isLeaf p \<Longrightarrow> tree_at nodes p (PLeaf p)"
| node: "\<not> isLeaf p \<Longrightarrow> getNode p \<noteq> 0 \<Longrightarrow> nodes (getNode p) = Some n \<Longrightarrow>
    NodeTypeToNodeParameters (getNodeType p) = (class_of (mDiscriminativeBitsRepresentation n), key_width n) \<Longrightarrow>
    node_wf n t \<Longrightarrow> list_all2 (tree_at nodes) (leaves t) Ts \<Longrightarrow> tree_at nodes p (graft t Ts)"

lemma find_leaf_walk: "find_leaf bs t = leaves t ! key_walk bs t"
  by (induction t) (simp_all add: nth_append)

lemma bits_of_graft:
  "length Ts = length (leaves t) \<Longrightarrow> bits_of (graft t Ts) = bits_of t \<union> (\<Union>T \<in> set Ts. bits_of T)"
proof (induction t arbitrary: Ts)
  case (PLeaf v)
  then obtain T where "Ts = [T]" by (auto simp: length_Suc_conv)
  then show ?case by simp
next
  case (PNode b l r)
  have "set Ts = set (take (length (leaves l)) Ts) \<union> set (drop (length (leaves l)) Ts)"
    by (metis append_take_drop_id set_append)
  with PNode show ?case by auto
qed

lemma find_leaf_graft:
  "length Ts = length (leaves t) \<Longrightarrow> find_leaf bs (graft t Ts) = find_leaf bs (Ts ! key_walk bs t)"
proof (induction t arbitrary: Ts)
  case (PLeaf v)
  then show ?case by (auto simp: length_Suc_conv)
next
  case (PNode b l r)
  have "key_walk bs l < length (leaves l)" by simp
  with PNode show ?case by simp
qed

section \<open>Lookup in memory is lookup in the trie\<close>

lemma executeForSpecificNodeType_node:
  assumes "nodes (getNode p) = Some n"
    "NodeTypeToNodeParameters (getNodeType p) = (class_of (mDiscriminativeBitsRepresentation n), key_width n)"
  shows "executeForSpecificNodeType nodes p operation = operation n"
  using assms by (simp add: executeForSpecificNodeType_def)

lemma lookup_loop_finds:
  assumes "tree_at nodes p T" and "extract_mask g = 0" and "8 \<le> length bs" "\<And>k. k \<in> bits_of T \<Longrightarrow> k < 8 * length bs"
  shows "\<exists>g'. lookup_loop nodes undef bs p g = Some (Inr (find_leaf bs T, g')) \<and> extract_mask g' = 0 \<and> isLeaf (find_leaf bs T)"
  using assms
proof (induction p T arbitrary: g rule: tree_at.induct)
  case (leaf p)
  then show ?case by (subst lookup_loop.simps) simp
next
  case (node p n t Ts)
  let ?i = "key_walk bs t"
  let ?g = "g \<lparr> wildcard_affected_entry_mask := wildcard_affected_entry_mask g AND mUsedEntriesMask n \<rparr>"
  have len: "length Ts = length (leaves t)" using node.IH by (simp add: list_all2_lengthD)
  have bits: "bits_of t \<subseteq> bits_of (graft t Ts)" "bits_of (Ts ! ?i) \<subseteq> bits_of (graft t Ts)"
    unfolding bits_of_graft [OF len] using len by auto
  note d = node_wfD [OF node.hyps(5)]
  have "mapping_reads (mDiscriminativeBitsRepresentation n) \<le> length bs"
    by (rule mapping_reads_le [OF d(1) node.prems(2)]) (use node.prems(3) bits(1) d(18) in auto)
  from node_search_walk [OF node.hyps(5) node.prems(1) this]
  have s: "pointer_search nodes undef p bs g = Inr (leaves t ! ?i, ?g)"
    using node_entry(2) [OF node.hyps(5) key_walk_less, of bs]
    by (simp add: pointer_search_def executeForSpecificNodeType_node [of nodes, OF node.hyps(3,4)])
  have "\<exists>g'. lookup_loop nodes undef bs (leaves t ! ?i) ?g = Some (Inr (find_leaf bs (Ts ! ?i), g')) \<and>
      extract_mask g' = 0 \<and> isLeaf (find_leaf bs (Ts ! ?i))"
  proof -
    have "tree_at nodes (leaves t ! ?i) (Ts ! ?i) \<and>
        (\<forall>g. extract_mask g = 0 \<longrightarrow> 8 \<le> length bs \<longrightarrow> (\<forall>k. k \<in> bits_of (Ts ! ?i) \<longrightarrow> k < 8 * length bs) \<longrightarrow>
          (\<exists>g'. lookup_loop nodes undef bs (leaves t ! ?i) g = Some (Inr (find_leaf bs (Ts ! ?i), g')) \<and>
            extract_mask g' = 0 \<and> isLeaf (find_leaf bs (Ts ! ?i))))"
      using list_all2_nthD [OF node.IH key_walk_less, of bs] by blast
    then show ?thesis using node.prems bits(2) by (auto simp: subset_iff)
  qed
  then show ?case
    using node.hyps(1,2) s by (subst lookup_loop.simps) (simp add: find_leaf_graft [OF len])
qed


section \<open>What a lookup finds\<close>

text \<open>The rules of a leaf in the order they are tried, as pairs of a value and a wildcard mask.\<close>

definition leaf_rules :: "CP \<Rightarrow> (u64 \<times> u64) list" where
  "leaf_rules c = (tidToValue64 (getTid c), mMask c) #
     map (\<lambda>e. (tidToValue64 (signed_drop_bit 1 (entry_value e)), entry_mask_bits e))
       (take (unat (listSize c)) (entryList c))"

definition first_match :: "(u64 \<Rightarrow> u64) \<Rightarrow> u64 \<Rightarrow> (u64 \<times> u64) list \<Rightarrow> (u64 \<times> u64) option" where
  "first_match extractKey key rs = List.find (\<lambda>(v, m). contentEquals_mask (extractKey v) key m) rs"

lemma match_entries_first:
  assumes "n \<le> length es"
  shows "match_entries extractKey key none es n = Inr
    (case first_match extractKey key (map (\<lambda>e. (tidToValue64 (signed_drop_bit 1 (entry_value e)), entry_mask_bits e)) (take n es)) of
       None \<Rightarrow> none | Some (v, m) \<Rightarrow> OptionalValue3 True v m)"
  using assms
proof (induction n arbitrary: es)
  case (Suc n)
  then show ?case by (cases es) (auto simp: first_match_def Let_def)
qed (simp add: first_match_def)

lemma leaf_match:
  assumes "unat (listSize c) \<le> length (entryList c)"
  shows "extractAndMatchLeafValue_mask extractKey c key (mMask c) = Inr
    (case first_match extractKey key (leaf_rules c) of
       None \<Rightarrow> OptionalValue3 False (tidToValue64 (getTid c)) (mMask c) | Some (v, m) \<Rightarrow> OptionalValue3 True v m)"
  using match_entries_first [OF assms]
  by (simp add: extractAndMatchLeafValue_mask_def Let_def leaf_rules_def first_match_def)

abbreviation root_of :: "int \<Rightarrow> HOTSingleThreaded \<Rightarrow> CP" where
  "root_of index h \<equiv> if index = 1 then mRoot_right h else mRoot_left h"

lemma lookup_finds:
  assumes "tree_at nodes (root_of index h) T" and "extract_mask g = 0" and "bits_of T \<subseteq> {..<64}"
    and "unat (listSize (find_leaf (key_bytes key) T)) \<le> length (entryList (find_leaf (key_bytes key) T))"
  shows "\<exists>g'. lookup extractKey nodes undef junk key index g h = Some (Inr
     (case first_match extractKey key (leaf_rules (find_leaf (key_bytes key) T)) of
        None \<Rightarrow> OptionalValue3 False (tidToValue64 (getTid (find_leaf (key_bytes key) T))) (mMask (find_leaf (key_bytes key) T))
      | Some (v, m) \<Rightarrow> OptionalValue3 True v m,
      g', h \<lparr> mRoot := Some (if index = 1 then Root_right else Root_left) \<rparr>)) \<and> extract_mask g' = 0"
proof -
  obtain g' where g': "lookup_loop nodes undef (key_bytes key) (root_of index h) g = Some (Inr (find_leaf (key_bytes key) T, g'))"
    "extract_mask g' = 0" "isLeaf (find_leaf (key_bytes key) T)"
    using lookup_loop_finds [OF assms(1,2), of "key_bytes key" undef] assms(3) by (auto simp: subset_iff)
  show ?thesis
    using g' leaf_match [OF assms(4), of extractKey key]
    by (cases "index = 1") (simp_all add: lookup_def key_bytes_def [symmetric] Let_def)
qed

text \<open>C12: A lookup ends without error and is a lookup in one binary trie over the bits of the key, however
  the trie is cut into nodes: in the leaf it leads to, the first of the rules that matches the key up
  to its wildcards is the result, with its value and mask.\<close>
theorem lookup_first_match:
  assumes "tree_at nodes (root_of index h) T" and "extract_mask g = 0" and "bits_of T \<subseteq> {..<64}"
    and "\<forall>c \<in> set (leaves T). unat (listSize c) \<le> length (entryList c)"
  shows "\<exists>v g' h'. lookup extractKey nodes undef junk key index g h = Some (Inr (v, g', h')) \<and>
    (if mIsValid v then Some (mValue v, Rmask v) else None) =
      first_match extractKey key (leaf_rules (find_leaf (key_bytes key) T)) \<and>
    extract_mask g' = 0 \<and> root_of index h' = root_of index h"
proof -
  have "find_leaf (key_bytes key) T \<in> set (leaves T)" unfolding find_leaf_walk by (rule nth_mem) simp
  then show ?thesis
    using lookup_finds [OF assms(1-3), of key extractKey undef junk] assms(4)
    by (fastforce simp: OptionalValue3_def split: option.splits)
qed

section \<open>Exact keys\<close>

text \<open>Every leaf lies on the side of each inner node that its own key has.\<close>

fun keyed :: "('v \<Rightarrow> u8 list) \<Rightarrow> 'v ptrie \<Rightarrow> bool" where
  "keyed f (PLeaf v) \<longleftrightarrow> True"
| "keyed f (PNode b l r) \<longleftrightarrow> (\<forall>c \<in> set (leaves l). \<not> key_bit (f c) b) \<and> (\<forall>c \<in> set (leaves r). key_bit (f c) b) \<and>
     keyed f l \<and> keyed f r"

lemma find_leaf_in: "find_leaf bs T \<in> set (leaves T)"
  by (induction T) auto

lemma keyed_find: "keyed f T \<Longrightarrow> c \<in> set (leaves T) \<Longrightarrow> find_leaf (f c) T = c"
  by (induction T) auto


definition leaf_value :: "CP \<Rightarrow> u64" where
  "leaf_value c = tidToValue64 (getTid c)"

lemma hot_search_finds:
  assumes "tree_at nodes (if bit key 63 then mRoot_right (mTrie s) else mRoot_left (mTrie s)) T"
    and "keyed (\<lambda>c. key_bytes (leaf_value c)) T" and "bits_of T \<subseteq> {..<64}"
    and "extract_mask (search_globals s) = 0"
    and "\<forall>c \<in> set (leaves T). mMask c = 0 \<and> listSize c = 0"
  shows "\<exists>s'. hot_search nodes undef junk key s =
      Some (Inr (\<exists>c \<in> set (leaves T). leaf_value c = key AND NOT (push_bit 63 1), s')) \<and>
    match_count s' = match_count s + of_bool (\<exists>c \<in> set (leaves T). leaf_value c = key AND NOT (push_bit 63 1)) \<and>
    extract_mask (search_globals s') = 0 \<and> mRoot_left (mTrie s') = mRoot_left (mTrie s) \<and> mRoot_right (mTrie s') = mRoot_right (mTrie s)"
proof -
  let ?k = "key AND NOT (push_bit 63 1)" and ?i = "int (unat (drop_bit 63 key AND 1))"
  let ?c = "find_leaf (key_bytes ?k) T"
  have "drop_bit 63 key AND 1 = of_bool (bit key 63)"
    by (rule bit_word_eqI) (auto simp: bit_and_iff bit_drop_bit_eq bit_1_iff intro!: Nat.gr0I)
  then have i: "?i = of_bool (bit key 63)" by simp
  have c: "?c \<in> set (leaves T)" by (rule find_leaf_in)
  then have rules: "leaf_rules ?c = [(leaf_value ?c, 0)]" and room: "unat (listSize ?c) \<le> length (entryList ?c)"
    using assms(5) by (simp_all add: leaf_rules_def leaf_value_def)
  have root: "tree_at nodes (root_of ?i (mTrie s)) T" using assms(1) unfolding i by simp
  have m: "contentEquals_mask (leaf_value ?c) ?k 0 \<longleftrightarrow> (\<exists>c \<in> set (leaves T). leaf_value c = ?k)"
    using c keyed_find [OF assms(2)] by (fastforce simp: contentEquals_mask_def)
  obtain g' where l: "lookup IdentityKeyExtractor nodes undef junk ?k ?i (search_globals s) (mTrie s) = Some (Inr
     (case first_match IdentityKeyExtractor ?k (leaf_rules ?c) of
        None \<Rightarrow> OptionalValue3 False (tidToValue64 (getTid ?c)) (mMask ?c) | Some (v, m) \<Rightarrow> OptionalValue3 True v m,
      g', mTrie s \<lparr> mRoot := Some (if ?i = 1 then Root_right else Root_left) \<rparr>))" "extract_mask g' = 0"
    using lookup_finds [OF root assms(4,3) room, of IdentityKeyExtractor undef junk] by blast
  have f: "first_match IdentityKeyExtractor ?k (leaf_rules ?c) =
      (if contentEquals_mask (leaf_value ?c) ?k 0 then Some (leaf_value ?c, 0) else None)"
    unfolding first_match_def rules by (simp add: IdentityKeyExtractor_def)
  show ?thesis
    using l(2) unfolding hot_search_def Let_def l(1) f m [symmetric]
    by (cases "contentEquals_mask (leaf_value ?c) ?k 0")
      (simp_all add: OptionalValue3_def contentEquals_mask_def)
qed

text \<open>In a tree of exact keys the program's search finds a key iff a leaf of the branch that the
  highest bit selects holds its other 63 bits; it ends without error and counts the match.\<close>
theorem hot_search_exact:
  assumes "tree_at nodes (if bit key 63 then mRoot_right (mTrie s) else mRoot_left (mTrie s)) T"
    and "keyed (\<lambda>c. key_bytes (leaf_value c)) T" and "bits_of T \<subseteq> {..<64}"
    and "extract_mask (search_globals s) = 0"
    and "\<forall>c \<in> set (leaves T). mMask c = 0 \<and> listSize c = 0"
  shows "\<exists>s'. hot_search nodes undef junk key s =
      Some (Inr (\<exists>c \<in> set (leaves T). leaf_value c = key AND NOT (push_bit 63 1), s')) \<and>
    match_count s' = match_count s + of_bool (\<exists>c \<in> set (leaves T). leaf_value c = key AND NOT (push_bit 63 1)) \<and>
    extract_mask (search_globals s') = 0 \<and> mRoot_left (mTrie s') = mRoot_left (mTrie s) \<and> mRoot_right (mTrie s') = mRoot_right (mTrie s)"
  by (rule hot_search_finds [OF assms])


section \<open>A tree of one node\<close>

definition example_leaf :: "u64 \<Rightarrow> CP" where
  "example_leaf v = ChildPointer_rules v 0 1 empty_entries 0"

definition example_root :: CP where
  "example_root = ChildPointer_node ChildPointer0 SINGLE_MASK_8_BIT_PARTIAL_KEYS 16"

definition example_tree :: "CP ptrie" where
  "example_tree = PNode 10 (PLeaf (example_leaf 5)) (PLeaf (example_leaf 0x20000000000007))"

definition example_memory :: node_memory where
  "example_memory = [16 \<mapsto> \<lparr> mHeight = 1, mUsedEntriesMask = 3,
     mDiscriminativeBitsRepresentation = SingleMapping
       \<lparr> mMostSignificantDiscriminativeBitIndex = 10, mLeastSignificantDiscriminativeBitIndex = 10,
         mOffsetInBytes = 0, mSuccessiveExtractionMask = 0x2000 \<rparr>,
     key_width = 8, mEntries = [0, 1] @ replicate 30 0xFF, mPointers = leaves example_tree \<rparr>]"

definition example_program :: hot_program where
  "example_program = \<lparr> search_globals = \<lparr> extract_mask = 0, wildcard_affected_entry_mask = 0 \<rparr>, key_index = 0,
     match_count = 0, mTrie = \<lparr> mRoot = None, mRoot_left = ChildPointer0, mRoot_right = example_root \<rparr> \<rparr>"

lemma example_tree_at: "tree_at example_memory example_root example_tree"
proof -
  have a: "getNode example_root = 16" "\<not> isLeaf example_root"
    "getNodeType example_root = SINGLE_MASK_8_BIT_PARTIAL_KEYS" by code_simp+
  have wf: "node_wf (the (example_memory 16)) example_tree" by code_simp
  have l: "isLeaf (example_leaf 5)" "isLeaf (example_leaf 0x20000000000007)" by code_simp+
  have "tree_at example_memory example_root (graft example_tree (map PLeaf (leaves example_tree)))"
    by (rule tree_at.node [OF a(2) _ _ _ wf]) (simp_all add: a example_memory_def example_tree_def tree_at.leaf [OF l(1)] tree_at.leaf [OF l(2)])
  then show ?thesis by (simp add: example_tree_def)
qed

lemma example_values: "leaf_value (example_leaf 5) = 5" "leaf_value (example_leaf 0x20000000000007) = 0x20000000000007"
  by code_simp+

lemma example_leaf_fields [simp]: "mMask (example_leaf v) = 0" "listSize (example_leaf v) = 0"
  by (simp_all add: example_leaf_def ChildPointer_rules_def)

lemma example_bits: "\<not> bit (5 :: u64) 53" "bit (0x20000000000007 :: u64) 53"
  by code_simp+

lemma example_keyed: "keyed (\<lambda>c. key_bytes (leaf_value c)) example_tree"
  using example_bits by (simp add: example_tree_def example_values key_bit_key_bytes)

theorem hot_search_exact_witness:
  "\<exists>s'. hot_search example_memory 0 (OptionalValue0 0 0) 0x8020000000000007 example_program = Some (Inr (True, s')) \<and>
    match_count s' = 1"
proof -
  have k: "(0x8020000000000007 :: u64) AND NOT (push_bit 63 1) = 0x20000000000007" "bit (0x8020000000000007 :: u64) 63"
    by code_simp+
  have "tree_at example_memory (if bit (0x8020000000000007 :: u64) 63 then mRoot_right (mTrie example_program)
      else mRoot_left (mTrie example_program)) example_tree"
    using example_tree_at k(2) by (simp add: example_program_def)
  from hot_search_exact [OF this example_keyed, of 0 "OptionalValue0 0 0"] show ?thesis
    unfolding k(1)
    by (auto simp: example_program_def example_tree_def example_values)
qed

theorem lookup_first_match_witness:
  "\<exists>v g' h'. lookup IdentityKeyExtractor example_memory 0 (OptionalValue0 0 0) 0x20000000000007 1
      (search_globals example_program) (mTrie example_program) = Some (Inr (v, g', h')) \<and>
    (if mIsValid v then Some (mValue v, Rmask v) else None) = Some (0x20000000000007, 0)"
proof -
  have t: "tree_at example_memory (root_of 1 (mTrie example_program)) example_tree"
    using example_tree_at by (simp add: example_program_def)
  have f: "first_match IdentityKeyExtractor 0x20000000000007 (leaf_rules (find_leaf (key_bytes 0x20000000000007) example_tree)) =
      Some (0x20000000000007, 0)"
    using example_bits(2) example_values(2)
    by (simp add: example_tree_def key_bit_key_bytes leaf_rules_def leaf_value_def first_match_def IdentityKeyExtractor_def
        contentEquals_mask_def)
  show ?thesis
    using lookup_first_match [OF t, where g = "search_globals example_program" and key = "0x20000000000007" and
        extractKey = IdentityKeyExtractor and undef = 0 and junk = "OptionalValue0 0 0"] f
    by (fastforce simp: example_program_def example_tree_def)
qed

end
