(* ===== verification/Mapping_Restrict.thy ===== *)
theory Mapping_Restrict
  imports Mapping_Queries Key_Trie
begin

text \<open>
  Restricting a mapping of any kind to some bits of its partial keys: the new mapping is well-formed,
  has exactly the key bits of these bits, and is of the smallest kind that holds their bytes.
\<close>

unbundle bit_operations_syntax

section \<open>The key bits that are kept\<close>

definition kept_bits :: "mapping \<Rightarrow> u32 \<Rightarrow> nat set" where
  "kept_bits M used = {mapping_positions M ! j | j. j < length (mapping_positions M) \<and> bit used j}"

lemma kept_subset: "kept_bits M used \<subseteq> mapping_bits M"
  by (auto simp: kept_bits_def mapping_bits_def)

section \<open>Depositing a partial key in the bytes of a multi mask\<close>

definition rankb :: "u8 list \<Rightarrow> nat \<Rightarrow> nat" where
  "rankb xs x = length (filter (bitb xs) [0..<x])"

lemma onesb_rankb:
  assumes "bitb xs x" shows "rankb xs x < length (onesb xs)" "onesb xs ! rankb xs x = x"
proof -
  have x: "x < 8 * length xs" using assms by (simp add: bitb_def)
  then have "[0..<8 * length xs] ! x = x" "take x [0..<8 * length xs] = [0..<x]" by simp_all
  then have r: "rankb xs x = length (filter (bitb xs) (take x [0..<8 * length xs]))" by (simp add: rankb_def)
  show "rankb xs x < length (onesb xs)" "onesb xs ! rankb xs x = x"
    unfolding r onesb_def using filter_nth_index [of x "[0..<8 * length xs]" "bitb xs"] x assms by simp_all
qed

lemma rankb_onesb: "j < length (onesb xs) \<Longrightarrow> rankb xs (onesb xs ! j) = j"
proof -
  assume j: "j < length (onesb xs)"
  then have "bitb xs (onesb xs ! j)" using nth_mem [OF j] by simp
  from onesb_rankb [OF this] show ?thesis using j nth_eq_iff_index_eq [OF distinct_onesb] by blast
qed

lemma rankb_word:
  assumes "i \<le> 64"
  shows "rankb xs (64 * k + i) = rankb xs (64 * k) + rank (word_of_bytes xs k) i"
proof -
  have "[0..<64 * k + i] = [0..<64 * k] @ map (\<lambda>j. j + 64 * k) [0..<i]"
    using upt_add_eq_append [of 0 "64 * k" i] map_add_upt [of "64 * k" i] by (simp add: add.commute)
  moreover have "length (filter (bitb xs \<circ> (\<lambda>j. j + 64 * k)) [0..<i]) = length (filter (bit (word_of_bytes xs k)) [0..<i])"
    using assms by (intro arg_cong [of _ _ length] filter_cong) (auto simp: word_bits add.commute)
  ultimately show ?thesis by (simp add: rankb_def rank_def filter_map)
qed

lemma rankb_words: "rankb xs (64 * Suc k) = rankb xs (64 * k) + popcnt (word_of_bytes xs k)"
proof -
  have "rank (word_of_bytes xs k) 64 = popcnt (word_of_bytes xs k)" by (simp add: rank_def popcnt_def ones_def)
  then show ?thesis using rankb_word [of 64 xs k] by (simp add: add.commute)
qed

lemma rankb_le: "rankb xs x \<le> length (onesb xs)"
proof (cases "x \<le> 8 * length xs")
  case True
  then have "[0..<8 * length xs] = [0..<x] @ [x..<8 * length xs]"
    using upt_add_eq_append [of 0 x "8 * length xs - x"] by simp
  then show ?thesis by (simp add: rankb_def onesb_def)
next
  case False
  then have "[0..<x] = [0..<8 * length xs] @ [8 * length xs..<x]"
    using upt_add_eq_append [of 0 "8 * length xs" "x - 8 * length xs"] by simp
  moreover have "filter (bitb xs) [8 * length xs..<x] = []" by (auto simp: filter_empty_conv bitb_def)
  ultimately show ?thesis by (simp add: rankb_def onesb_def)
qed

definition used_bytes :: "nat \<Rightarrow> u8 list \<Rightarrow> u32 \<Rightarrow> u8 list" where
  "used_bytes n data used =
     concat (map (\<lambda>k. bytes64 (pdep (drop_bit (rankb data (64 * k)) (ucast used)) (word_of_bytes data k))) [0..<n])"

lemma length_concat_bytes: "length (concat (map (\<lambda>k. bytes64 (f k)) [0..<n])) = 8 * n"
  by (induction n) simp_all

lemma length_used_bytes [simp]: "length (used_bytes n data used) = 8 * n"
  by (simp add: used_bytes_def length_concat_bytes)

lemma nth_concat_bytes:
  "i < 8 * n \<Longrightarrow> concat (map (\<lambda>k. bytes64 (f k)) [0..<n]) ! i = bytes64 (f (i div 8)) ! (i mod 8)"
proof (induction n)
  case (Suc n)
  show ?case
  proof (cases "i < 8 * n")
    case False
    with Suc.prems obtain r where r: "i = 8 * n + r" "r < 8" by (metis add_less_cancel_left less_eqE linorder_not_less mult_Suc_right add.commute)
    then show ?thesis by (simp add: nth_append length_concat_bytes)
  qed (use Suc in \<open>simp add: nth_append length_concat_bytes\<close>)
qed simp

lemma bitb_used:
  assumes "length data = 8 * n"
  shows "bitb (used_bytes n data used) x \<longleftrightarrow> bitb data x \<and> bit used (rankb data x)"
proof (cases "x < 64 * n")
  case True
  define k i where "k = x div 64" and "i = x mod 64"
  have x: "x = 64 * k + i" "i < 64" "k < n" using True by (simp_all add: k_def i_def less_mult_imp_div_less mult.commute)
  have i8: "i div 8 < 8" using x(2) by simp
  have d: "x div 8 = 8 * k + i div 8" "x mod 8 = i mod 8" unfolding x(1) word_byte_index by simp_all
  have d2: "(8 * k + i div 8) div 8 = k" "(8 * k + i div 8) mod 8 = i div 8" using i8 by simp_all
  have "8 * k + i div 8 < 8 * n" using x(3) i8 by linarith
  from nth_concat_bytes [OF this] have "used_bytes n data used ! (x div 8) =
      bytes64 (pdep (drop_bit (rankb data (64 * k)) (ucast used)) (word_of_bytes data k)) ! (i div 8)"
    unfolding used_bytes_def d(1) d2 .
  then have "bitb (used_bytes n data used) x \<longleftrightarrow>
      bit (bytes64 (pdep (drop_bit (rankb data (64 * k)) (ucast used)) (word_of_bytes data k)) ! (i div 8)) (i mod 8)"
    using True d(2) by (simp add: bitb_def)
  also have "\<dots> \<longleftrightarrow> bit (pdep (drop_bit (rankb data (64 * k)) (ucast used :: u64)) (word_of_bytes data k)) i"
    using x(2) by (simp add: bit_nth_bytes64)
  also have "\<dots> \<longleftrightarrow> bitb data x \<and> bit used (rankb data x)"
    using x rankb_word [of i data k] bit_imp_le_length [of used "rankb data x"]
    by (auto simp: bit_pdep word_bits bit_drop_bit_eq bit_ucast_iff)
  finally show ?thesis .
qed (use assms in \<open>auto simp: bitb_def\<close>)

lemma used_bytes_eq:
  assumes "n \<in> {1, 2, 4}" and "length (mExtractionData m) = 8 * n" and few: "length (onesb (mExtractionData m)) \<le> 31"
  shows "getUsedExtractionBitsForMask n m used = Inr (used_bytes n (mExtractionData m) used)"
proof -
  let ?d = "mExtractionData m"
  have l: "8 \<le> length ?d \<Longrightarrow> load64 ?d 0 = Inr (word_of_bytes ?d 0)"
    "16 \<le> length ?d \<Longrightarrow> load64 ?d 8 = Inr (word_of_bytes ?d 1)"
    "24 \<le> length ?d \<Longrightarrow> load64 ?d 16 = Inr (word_of_bytes ?d 2)"
    "32 \<le> length ?d \<Longrightarrow> load64 ?d 24 = Inr (word_of_bytes ?d 3)"
    using load64_word [of 0 ?d] load64_word [of 1 ?d] load64_word [of 2 ?d] load64_word [of 3 ?d] by simp_all
  have r: "rankb ?d 0 = 0" "rankb ?d 64 = popcnt (word_of_bytes ?d 0)"
    "rankb ?d 128 = popcnt (word_of_bytes ?d 0) + popcnt (word_of_bytes ?d 1)"
    "rankb ?d 192 = popcnt (word_of_bytes ?d 0) + popcnt (word_of_bytes ?d 1) + popcnt (word_of_bytes ?d 2)"
    using rankb_words [of ?d 0] rankb_words [of ?d 1] rankb_words [of ?d 2] by (simp_all add: rankb_def)
  have le: "rankb ?d 64 \<le> 31" "rankb ?d 128 \<le> 31" "rankb ?d 192 \<le> 31"
    using rankb_le [of ?d] few order_trans by blast+
  have dr: "ucast (drop_bit a used) = drop_bit a (ucast used :: u64)" for a
    by (rule bit_word_eqI) (auto simp: bit_ucast_iff bit_drop_bit_eq dest: bit_imp_le_length)
  consider "n = 1" | "n = 2" | "n = 4" using assms(1) by auto
  then show ?thesis
  proof cases
    case 1
    then show ?thesis using assms(2) l by (simp add: getUsedExtractionBitsForMask_def used_bytes_def r)
  next
    case 2
    have "[0..<2] = [0, 1 :: nat]" by (simp add: upt_conv_Cons)
    then show ?thesis using 2 assms(2) l le r
      by (simp add: getUsedExtractionBitsForMask_def used_bytes_def dr)
  next
    case 3
    have "[0..<4] = [0, 1, 2, 3 :: nat]" by (simp add: upt_conv_Cons)
    then show ?thesis using 3 assms(2) l le r
      by (simp add: getUsedExtractionBitsForMask_def used_bytes_def Let_def add.commute add.left_commute)
  qed
qed


section \<open>The bytes that are kept\<close>

lemma bytes_used_mask:
  assumes sh: "mm_shape n m" and E: "length E = 8 * n"
  obtains U where "getBytesUsedMaskForExtractionData n m E = Inr U"
    "\<And>i. bit U i \<longleftrightarrow> i < mNumberExtractionBytes m \<and> E ! i \<noteq> 0"
proof
  note s = mm_shapeD [OF sh]
  have N: "0 < mNumberExtractionBytes m" "mNumberExtractionBytes m \<le> 32" using s(1,4,5) by auto
  show "getBytesUsedMaskForExtractionData n m E =
      Inr (NOT (moveMask8 (cmpeq_epi8 E (zero_register (8 * n)))) AND mask (mNumberExtractionBytes m))"
    using E low_bits_mask [OF N] by (simp add: getBytesUsedMaskForExtractionData_def getMaskForExtractionBytesUsed_def)
  fix i
  show "bit (NOT (moveMask8 (cmpeq_epi8 E (zero_register (8 * n)))) AND mask (mNumberExtractionBytes m)) i \<longleftrightarrow>
      i < mNumberExtractionBytes m \<and> E ! i \<noteq> 0"
    using N E s(1,5) by (auto simp: moveMask8_def cmpeq_epi8_def zero_register_def word_bits bit_and_iff bit_not_iff bit_mask_iff nth_cmpeq)
qed

definition kept_bytes :: "u8 list \<Rightarrow> u8 list \<Rightarrow> u32 \<Rightarrow> (u8 \<times> u8) list" where
  "kept_bytes P E U = map (\<lambda>i. (P ! i, E ! i)) (ones U)"

lemma kept_bytes_ok:
  assumes sh: "mm_shape n m" and E: "length E = 8 * n" and sub: "\<And>x. bitb E x \<Longrightarrow> bitb (mExtractionData m) x"
    and U: "\<And>i. bit U i \<longleftrightarrow> i < mNumberExtractionBytes m \<and> E ! i \<noteq> 0"
  shows "sorted_wrt (<) (map fst (kept_bytes (mExtractionPositions m) E U))"
    "\<forall>(p, b) \<in> set (kept_bytes (mExtractionPositions m) E U). b \<noteq> 0"
    "byte_bits (kept_bytes (mExtractionPositions m) E U) = {abs_bit (mm_pos m) x | x. bitb E x}"
proof -
  note s = mm_shapeD [OF sh]
  show "sorted_wrt (<) (map fst (kept_bytes (mExtractionPositions m) E U))"
    unfolding kept_bytes_def map_map comp_def fst_conv sorted_wrt_map
    by (rule sorted_wrt_mono_rel [of _ "(<)"]) (auto simp: word_less_nat_alt U s(8) strict_sorted_iff)
  show "\<forall>(p, b) \<in> set (kept_bytes (mExtractionPositions m) E U). b \<noteq> 0"
    by (auto simp: kept_bytes_def U)
  show "byte_bits (kept_bytes (mExtractionPositions m) E U) = {abs_bit (mm_pos m) x | x. bitb E x}"
  proof (intro set_eqI iffI)
    fix k assume "k \<in> byte_bits (kept_bytes (mExtractionPositions m) E U)"
    then obtain i j where i: "bit U i" "bit (E ! i) j" "k = 8 * mm_pos m i + (7 - j)"
      by (auto simp: byte_bits_def kept_bytes_def)
    then have j: "j < 8" by (auto dest: bit_imp_le_length)
    then have d: "(8 * i + j) div 8 = i" "(8 * i + j) mod 8 = j" by simp_all
    have "i < 8 * n" using i(1) s(5) by (simp add: U)
    then have "bitb E (8 * i + j)" using i(2) j E by (simp add: bitb_def d)
    moreover have "k = abs_bit (mm_pos m) (8 * i + j)" using i(3) unfolding abs_bit_def d .
    ultimately show "k \<in> {abs_bit (mm_pos m) x | x. bitb E x}" by blast
  next
    fix k assume "k \<in> {abs_bit (mm_pos m) x | x. bitb E x}"
    then obtain x where x: "bitb E x" "k = 8 * mm_pos m (x div 8) + (7 - x mod 8)" by (auto simp: abs_bit_def)
    have "x div 8 < mNumberExtractionBytes m" by (rule onesb_used(1) [OF sh sub [OF x(1)]])
    moreover have b: "bit (E ! (x div 8)) (x mod 8)" using x(1) by (simp add: bitb_def)
    ultimately have "bit U (x div 8)" by (auto simp: U)
    then have "(mExtractionPositions m ! (x div 8), E ! (x div 8)) \<in> set (kept_bytes (mExtractionPositions m) E U)"
      by (auto simp: kept_bytes_def)
    with x(2) b show "k \<in> byte_bits (kept_bytes (mExtractionPositions m) E U)" unfolding byte_bits_def by blast
  qed
qed

lemma used_positions:
  assumes sh: "mm_shape n m"
  shows "{abs_bit (mm_pos m) x | x. bitb (used_bytes n (mExtractionData m) used) x} =
    {mm_positions m ! j | j. j < length (mm_positions m) \<and> bit used j}"
proof -
  let ?d = "mExtractionData m"
  have "bitb (used_bytes n ?d used) x \<longleftrightarrow> bitb ?d x \<and> bit used (rankb ?d x)" for x
    by (rule bitb_used) (rule mm_shapeD(3) [OF sh])
  moreover have "{x. bitb ?d x \<and> bit used (rankb ?d x)} = {onesb ?d ! j | j. j < length (onesb ?d) \<and> bit used j}"
    using onesb_rankb rankb_onesb nth_mem [of _ "onesb ?d"] by (auto; metis)
  ultimately have "{x. bitb (used_bytes n ?d used) x} = {onesb ?d ! j | j. j < length (onesb ?d) \<and> bit used j}" by simp
  then have "abs_bit (mm_pos m) ` {x. bitb (used_bytes n ?d used) x} =
      {abs_bit (mm_pos m) (onesb ?d ! j) | j. j < length (onesb ?d) \<and> bit used j}" by auto
  moreover have "{mm_positions m ! j | j. j < length (mm_positions m) \<and> bit used j} =
      {abs_bit (mm_pos m) (onesb ?d ! j) | j. j < length (onesb ?d) \<and> bit used j}"
    by (rule Collect_cong, rule ex_cong1) (auto simp: mm_positions_def)
  ultimately show ?thesis by auto
qed

section \<open>The first and the last bit\<close>

lemma unat_bit_index: "i < 8 \<Longrightarrow> unat (word_of_int (7 - int i) :: u16) = 7 - i"
proof -
  assume "i < 8"
  then have "7 - int i = int (7 - i)" by simp
  then have "(word_of_int (7 - int i) :: u16) = of_nat (7 - i)" by (simp only: of_int_of_nat_eq)
  then show ?thesis by (simp add: unat_of_nat_small)
qed

lemma top_bit_of_byte:
  fixes b :: u8
  assumes "b \<noteq> 0"
  obtains i where "i < 8" "bit b i" "\<And>j. bit b j \<Longrightarrow> j \<le> i" "unat (getMostSignificantBitIndexInByte b) = 7 - i"
proof
  let ?i = "Max {j. bit b j}"
  have fin: "finite {j. bit b j}" by (rule finite_subset [of _ "{..<8}"]) (auto dest: bit_imp_le_length)
  have ne: "{j. bit b j} \<noteq> {}" using assms by (auto simp: bit_eq_iff)
  show b: "bit b ?i" using Max_in [OF fin ne] by simp
  show i: "?i < 8" using bit_imp_le_length [OF b] by simp
  show m: "j \<le> ?i" if "bit b j" for j using that fin by simp
  have "lzcnt (ucast b :: u32) = 31 - ?i"
    using b i m by (subst lzcnt_eqI [of "ucast b :: u32" ?i]) (auto simp: bit_ucast_iff not_less [symmetric])
  then show "unat (getMostSignificantBitIndexInByte b) = 7 - ?i"
    using unat_bit_index [OF i] i by (simp add: getMostSignificantBitIndexInByte_def of_nat_diff)
qed

lemma low_bit_of_byte:
  fixes b :: u8
  assumes "b \<noteq> 0"
  obtains i where "i < 8" "bit b i" "\<And>j. bit b j \<Longrightarrow> i \<le> j" "unat (getLeastSignificantBitIndexInByte b) = 7 - i"
proof
  let ?i = "LEAST j. bit b j"
  obtain k where "bit b k" using assms by (auto simp: bit_eq_iff)
  then show b: "bit b ?i" by (rule LeastI)
  show i: "?i < 8" using bit_imp_le_length [OF b] by simp
  show m: "?i \<le> j" if "bit b j" for j using that by (rule Least_le)
  have "tzcnt (ucast b :: u32) = ?i"
    using b i m by (intro tzcnt_eqI) (auto simp: bit_ucast_iff dest!: not_less_Least)
  then show "unat (getLeastSignificantBitIndexInByte b) = 7 - ?i"
    using unat_bit_index [OF i] by (simp add: getLeastSignificantBitIndexInByte_def)
qed

text \<open>Of bytes in ascending order the first bit is the top bit of the first, the last the low bit of the last.\<close>

lemma finite_byte_bits: "finite (byte_bits es)"
proof -
  have "byte_bits es \<subseteq> (\<lambda>(e, j). 8 * unat (fst e) + (7 - j)) ` (set es \<times> {..<8})"
    by (force simp: byte_bits_def image_iff dest: bit_imp_le_length)
  then show ?thesis by (rule finite_subset) simp
qed

lemma byte_order: "unat p < unat q \<Longrightarrow> 8 * unat p + (7 - i) < 8 * unat q + (7 - j)"
  for p q :: u8 by linarith

lemma Min_byte_bits:
  assumes "sorted_wrt (<) (map fst ((p, b) # es))" "b \<noteq> 0"
  shows "Min (byte_bits ((p, b) # es)) = 8 * unat p + unat (getMostSignificantBitIndexInByte b)"
proof (rule Min_eqI)
  obtain i where i: "i < 8" "bit b i" "\<And>j. bit b j \<Longrightarrow> j \<le> i" "unat (getMostSignificantBitIndexInByte b) = 7 - i"
    using top_bit_of_byte [OF assms(2)] by metis
  show "8 * unat p + unat (getMostSignificantBitIndexInByte b) \<in> byte_bits ((p, b) # es)"
    using i(2) unfolding i(4) byte_bits_def by (intro CollectI exI [of _ p] exI [of _ b] exI [of _ i]) simp
  fix k assume "k \<in> byte_bits ((p, b) # es)"
  then obtain q x j where e: "(q, x) \<in> set ((p, b) # es)" "bit x j" "k = 8 * unat q + (7 - j)"
    unfolding byte_bits_def by blast
  then consider "q = p" "x = b" | "p < q" using assms(1) by fastforce
  then show "8 * unat p + unat (getMostSignificantBitIndexInByte b) \<le> k"
  proof cases
    case 1
    then show ?thesis using e(2,3) i(3) [of j] unfolding i(4) by (simp add: diff_le_mono2)
  next
    case 2
    then show ?thesis unfolding e(3) i(4) by (intro less_imp_le byte_order) (simp add: word_less_nat_alt)
  qed
qed (rule finite_byte_bits)

lemma Max_byte_bits:
  assumes "sorted_wrt (<) (map fst (es @ [(p, b)]))" "b \<noteq> 0"
  shows "Max (byte_bits (es @ [(p, b)])) = 8 * unat p + unat (getLeastSignificantBitIndexInByte b)"
proof (rule Max_eqI)
  obtain i where i: "i < 8" "bit b i" "\<And>j. bit b j \<Longrightarrow> i \<le> j" "unat (getLeastSignificantBitIndexInByte b) = 7 - i"
    using low_bit_of_byte [OF assms(2)] by metis
  show "8 * unat p + unat (getLeastSignificantBitIndexInByte b) \<in> byte_bits (es @ [(p, b)])"
    using i(2) unfolding i(4) byte_bits_def by (intro CollectI exI [of _ p] exI [of _ b] exI [of _ i]) simp
  fix k assume "k \<in> byte_bits (es @ [(p, b)])"
  then obtain q x j where e: "(q, x) \<in> set (es @ [(p, b)])" "bit x j" "k = 8 * unat q + (7 - j)"
    unfolding byte_bits_def by blast
  then consider "q = p" "x = b" | "q < p" using assms(1) by (fastforce simp: sorted_wrt_append)
  then show "k \<le> 8 * unat p + unat (getLeastSignificantBitIndexInByte b)"
  proof cases
    case 1
    then show ?thesis using e(2,3) i(3) [of j] unfolding i(4) by (simp add: diff_le_mono2)
  next
    case 2
    then show ?thesis unfolding e(3) i(4) by (intro less_imp_le byte_order) (simp add: word_less_nat_alt)
  qed
qed (rule finite_byte_bits)

section \<open>The new mapping\<close>

lemma compact_bytes:
  assumes "\<And>i. bit U i \<Longrightarrow> i < length P \<and> i < length E" and "mExtractionPositions m = P" and "popcnt U \<le> 8 * k"
  shows "MultiMask_compact k m U E msb lsb (popcnt U) c = Inr (mm_of k msb lsb c (kept_bytes P E U))"
proof -
  let ?m0 = "initializeDataAndPositionsWithZero k (multi_fields msb lsb (popcnt U) c [] [])"
  let ?step = "\<lambda>extractionByteIndex (i, m').
              rbind (mm_getExtractionBytePosition m extractionByteIndex) (\<lambda>position.
              rbind (setExtractionBytePosition i position m') (\<lambda>m'.
              rbind (byte_at E extractionByteIndex) (\<lambda>b.
              rbind (setExtractionByte i b m') (\<lambda>m''. Inr (Suc i, m'')))))"
  have l: "length (mExtractionPositions ?m0) = 8 * k" "length (mExtractionData ?m0) = 8 * k"
    by (simp_all add: initializeDataAndPositionsWithZero_def zero_register_def)
  have "rfold ?step (ones U) (0, ?m0) = Inr (0 + length (ones U),
    ?m0 \<lparr> mExtractionPositions := take 0 (mExtractionPositions ?m0) @ map ((!) P) (ones U) @ drop (0 + length (ones U)) (mExtractionPositions ?m0),
        mExtractionData := take 0 (mExtractionData ?m0) @ map ((!) E) (ones U) @ drop (0 + length (ones U)) (mExtractionData ?m0) \<rparr>)"
    by (rule write_entries)
      (use assms l in \<open>auto simp: popcnt_def mm_getExtractionBytePosition_def byte_at_def nth_append trans_less_add1\<close>)
  then show ?thesis
    by (simp add: MultiMask_compact_def initializeDataAndPositionsWithZero_def multi_fields_def mm_of_def pad_def
        kept_bytes_def popcnt_def zero_register_def comp_def)
qed

text \<open>The bytes written one by one into eight bytes.\<close>

lemma write_bytes:
  assumes "\<And>i. i \<in> set is \<Longrightarrow> i < length P \<and> i < length E \<and> off \<le> unat (P ! i) \<and> unat (P ! i) < off + 8"
    and "length bs = 8" and "distinct (map ((!) P) is)"
  obtains bs' where "rfold (\<lambda>extractionByteIndex successiveExtractionBytes.
              rbind (byte_at P extractionByteIndex) (\<lambda>position.
              rbind (byte_at E extractionByteIndex) (\<lambda>data.
                let targetExtractionBytePosition = sub32 (unat position) off
                in if targetExtractionBytePosition < 8
                   then Inr (successiveExtractionBytes [targetExtractionBytePosition := data])
                   else Inl UB_Index))) is bs = Inr bs'"
    "length bs' = 8" "\<And>i. i \<in> set is \<Longrightarrow> bs' ! (unat (P ! i) - off) = E ! i"
    "\<And>t. t < 8 \<Longrightarrow> (\<forall>i \<in> set is. unat (P ! i) \<noteq> off + t) \<Longrightarrow> bs' ! t = bs ! t"
  using assms
proof (induction "is" arbitrary: bs thesis)
  case (Cons i "is")
  have i: "i < length P" "i < length E" "off \<le> unat (P ! i)" "unat (P ! i) < off + 8" using Cons.prems(2) by simp_all
  have sub: "sub32 (unat (P ! i)) off = unat (P ! i) - off"
    using i(3) unsigned_less [of "P ! i", where 'a = nat] by (intro sub32_small) simp_all
  have ne: "unat (P ! j) \<noteq> unat (P ! i)" if "j \<in> set is" for j
    using Cons.prems(4) that by (auto simp: word_unat_eq_iff rev_image_eqI)
  show ?case
  proof (rule Cons.IH [of "bs [unat (P ! i) - off := E ! i]"])
    fix bs'
    assume r: "rfold (\<lambda>extractionByteIndex successiveExtractionBytes.
              rbind (byte_at P extractionByteIndex) (\<lambda>position.
              rbind (byte_at E extractionByteIndex) (\<lambda>data.
                let targetExtractionBytePosition = sub32 (unat position) off
                in if targetExtractionBytePosition < 8
                   then Inr (successiveExtractionBytes [targetExtractionBytePosition := data])
                   else Inl UB_Index))) is (bs [unat (P ! i) - off := E ! i]) = Inr bs'"
      and l: "length bs' = 8" and a: "\<And>i. i \<in> set is \<Longrightarrow> bs' ! (unat (P ! i) - off) = E ! i"
      and b: "\<And>t. t < 8 \<Longrightarrow> (\<forall>i \<in> set is. unat (P ! i) \<noteq> off + t) \<Longrightarrow>
        bs' ! t = bs [unat (P ! i) - off := E ! i] ! t"
    show thesis
    proof (rule Cons.prems(1) [OF _ l])
      have "bs' ! (unat (P ! i) - off) = E ! i"
        using b [of "unat (P ! i) - off"] i Cons.prems(3) ne by simp
      with a show "bs' ! (unat (P ! j) - off) = E ! j" if "j \<in> set (i # is)" for j using that by auto
      show "bs' ! t = bs ! t" if "t < 8" "\<forall>j \<in> set (i # is). unat (P ! j) \<noteq> off + t" for t
      proof -
        have "unat (P ! i) - off \<noteq> t" using that(2) i(3) by auto
        then show ?thesis using b [of t] that by simp
      qed
    qed (use r i sub in \<open>simp add: byte_at_def Let_def less_diff_conv2\<close>)
  qed (use Cons.prems in simp_all)
qed simp


lemma random_bytes:
  assumes es: "sorted_wrt (<) (map fst (kept_bytes P E U))" "\<forall>(p, b) \<in> set (kept_bytes P E U). b \<noteq> 0" "U \<noteq> 0"
    and U: "\<And>i. bit U i \<Longrightarrow> i < length P \<and> i < length E"
    and near: "\<And>i. bit U i \<Longrightarrow> off \<le> unat (P ! i) \<and> unat (P ! i) < off + 8"
    and off: "off = Max (byte_bits (kept_bytes P E U)) div 8 - 7"
  shows "\<exists>m. SingleMask_random P E U (Min (byte_bits (kept_bytes P E U))) (Max (byte_bits (kept_bytes P E U))) = Inr m \<and>
    sm_wf m \<and> sm_bits m = byte_bits (kept_bytes P E U)"
proof -
  let ?B = "byte_bits (kept_bytes P E U)"
  have ne: "?B \<noteq> {}" and lim: "\<And>k. k \<in> ?B \<Longrightarrow> k < 2048"
  proof -
    obtain i where "bit U i" using es(3) by (auto simp: bit_eq_iff)
    then have "(P ! i, E ! i) \<in> set (kept_bytes P E U)" "E ! i \<noteq> 0" using es(2) by (auto simp: kept_bytes_def)
    then show "?B \<noteq> {}" using byte_has_bit by blast
    fix k assume "k \<in> ?B"
    then obtain p b j where "k = 8 * unat p + (7 - j)" "(p, b) \<in> set (kept_bytes P E U)" by (auto simp: byte_bits_def)
    then show "k < 2048" using unsigned_less [of p, where 'a = nat] by simp
  qed
  have mx: "Max ?B < 2048" using lim Max_in [OF finite_byte_bits ne] by blast
  have "distinct (map ((!) P) (ones U))" using es(1) by (simp add: kept_bytes_def strict_sorted_iff comp_def)
  then obtain bs where bs: "rfold (\<lambda>extractionByteIndex successiveExtractionBytes.
              rbind (byte_at P extractionByteIndex) (\<lambda>position.
              rbind (byte_at E extractionByteIndex) (\<lambda>data.
                let targetExtractionBytePosition = sub32 (unat position) off
                in if targetExtractionBytePosition < 8
                   then Inr (successiveExtractionBytes [targetExtractionBytePosition := data])
                   else Inl UB_Index))) (ones U) (replicate 8 0) = Inr bs"
    "length bs = 8" "\<And>i. bit U i \<Longrightarrow> bs ! (unat (P ! i) - off) = E ! i"
    "\<And>t. t < 8 \<Longrightarrow> (\<forall>i. bit U i \<longrightarrow> unat (P ! i) \<noteq> off + t) \<Longrightarrow> bs ! t = 0"
    using write_bytes [of "ones U" P E off "replicate 8 0"] U near by (auto; metis nth_replicate)
  define w :: u64 where "w = word_of_bytes bs 0"
  let ?m = "single (Min ?B) (Max ?B) off w"
  have bw: "bit w a \<longleftrightarrow> a < 64 \<and> bit (bs ! (a div 8)) (a mod 8)" for a
    using bs(2) by (auto simp: w_def word_bits bitb_def)
  have bits: "sm_bits ?m = ?B"
  proof (intro set_eqI iffI)
    fix k assume "k \<in> sm_bits ?m"
    then obtain a where a: "a < 64" "bit (bs ! (a div 8)) (a mod 8)" "k = 8 * off + rbit a"
      by (auto simp: sm_bits_def' single_def bw)
    then have "bs ! (a div 8) \<noteq> 0" "a div 8 < 8" by auto
    with bs(4) obtain i where i: "bit U i" "unat (P ! i) = off + a div 8" by blast
    then have "k = 8 * unat (P ! i) + (7 - a mod 8)" using a(3) unfolding i(2) rbit_def abs_bit_def distrib_left by (simp only: add.assoc)
    moreover have "bit (E ! i) (a mod 8)" using bs(3) [OF i(1)] a(2) i(2) by simp
    moreover have "(P ! i, E ! i) \<in> set (kept_bytes P E U)" using i(1) by (auto simp: kept_bytes_def)
    ultimately show "k \<in> ?B" unfolding byte_bits_def by blast
  next
    fix k assume "k \<in> ?B"
    then obtain i j where i: "bit U i" "bit (E ! i) j" "k = 8 * unat (P ! i) + (7 - j)"
      by (auto simp: byte_bits_def kept_bytes_def)
    then have j: "j < 8" by (auto dest: bit_imp_le_length)
    define a where "a = 8 * (unat (P ! i) - off) + j"
    have d: "a div 8 = unat (P ! i) - off" "a mod 8 = j" "a < 64" using j near [OF i(1)] by (auto simp: a_def)
    then have "bit w a" using bs(3) [OF i(1)] i(2) by (simp add: bw)
    moreover have "k = 8 * off + rbit a"
      using i(3) near [OF i(1)] unfolding rbit_def abs_bit_def d by (auto simp: distrib_left [symmetric])
    ultimately show "k \<in> sm_bits ?m" by (auto simp: sm_bits_def' single_def)
  qed
  have "load64 bs 0 = Inr w" using load64_word [of 0 bs] bs(2) by (simp add: w_def)
  then have "SingleMask_random P E U (Min ?B) (Max ?B) = Inr ?m"
    using bs(1) offset_for_lsb [of "Max ?B"] mx
    by (simp add: SingleMask_random_def getSuccessiveExtractionMaskFromRandomBytes_def off [symmetric])
  moreover have "sm_wf ?m" by (rule sm_wfI [OF bits ne]) (use off mx in simp_all)
  ultimately show ?thesis using bits by blast
qed


section \<open>Restriction of any mapping\<close>

lemma card_kept:
  assumes "distinct ps" and "\<And>j. bit (used :: u32) j \<Longrightarrow> j < length ps"
  shows "card {ps ! j | j. j < length ps \<and> bit used j} = popcnt used"
proof -
  have "{ps ! j | j. j < length ps \<and> bit used j} = (!) ps ` {j. bit used j}" using assms(2) by auto
  moreover have "inj_on ((!) ps) {j. bit used j}"
    using assms by (auto simp: inj_on_def nth_eq_iff_index_eq)
  ultimately show ?thesis by (simp add: popcnt_card card_image)
qed

lemma few_bytes_near:
  assumes "sorted_wrt (<) (map fst (es :: (u8 \<times> u8) list))" and "\<And>e. e \<in> set es \<Longrightarrow> a \<le> unat (fst e) \<and> unat (fst e) < a + 8"
  shows "length es \<le> 8"
proof -
  have "distinct (map fst es)" using assms(1) by (simp add: strict_sorted_iff)
  then have "length es = card (unat ` set (map fst es))"
    by (subst card_image) (simp_all add: inj_on_def word_unat_eq_iff distinct_card [of "map fst es", simplified])
  also have "\<dots> \<le> card {a..<a + 8}" using assms(2) by (intro card_mono) auto
  finally show ?thesis by simp
qed

lemma mm_extract_restricts:
  assumes wf: "mm_wf n m" and few: "length (mm_positions m) \<le> 31"
    and used: "used \<noteq> 0" "\<And>j. bit used j \<Longrightarrow> j < length (mm_positions m)"
  shows "\<exists>M. mm_extract n m used = Inr M \<and> mapping_wf M \<and>
    mapping_bits M = {mm_positions m ! j | j. j < length (mm_positions m) \<and> bit used j}"
proof -
  have sh: "mm_shape n m" using wf by (simp add: mm_wf_def)
  note s = mm_shapeD [OF sh]
  let ?P = "mExtractionPositions m"
  define E where "E = used_bytes n (mExtractionData m) used"
  define B where "B = {mm_positions m ! j | j. j < length (mm_positions m) \<and> bit used j}"
  have le: "length E = 8 * n" by (simp add: E_def)
  have E: "getUsedExtractionBitsForMask n m used = Inr E"
    unfolding E_def by (rule used_bytes_eq) (use s(1,3) few in \<open>simp_all add: mm_positions_def\<close>)
  obtain U where U: "getBytesUsedMaskForExtractionData n m E = Inr U"
    "\<And>i. bit U i \<longleftrightarrow> i < mNumberExtractionBytes m \<and> E ! i \<noteq> 0" using bytes_used_mask [OF sh le] by metis
  have sub: "bitb E x \<Longrightarrow> bitb (mExtractionData m) x" for x
    using bitb_used [OF s(3)] by (simp add: E_def)
  note es = kept_bytes_ok [OF sh le sub U(2)]
  let ?es = "kept_bytes ?P E U"
  have B: "byte_bits ?es = B" using es(3) used_positions [OF sh, of used] by (simp add: E_def B_def)
  have cB: "card B = popcnt used" unfolding B_def by (rule card_kept [OF distinct_mm_positions [OF sh] used(2)])
  have "B \<noteq> {}" using used by (auto simp: B_def bit_eq_iff)
  then have U0: "U \<noteq> 0" using B by (auto simp: kept_bytes_def)
  then obtain i0 where "bit U i0" by (auto simp: bit_eq_iff)
  have lenes: "length ?es = popcnt U" by (simp add: kept_bytes_def popcnt_def)
  define i l where "i = tzcnt U" and "l = getLeastSignificantBytIndexForBytesUsedMask U"
  have i: "bit U i" "\<And>j. bit U j \<Longrightarrow> i \<le> j" using tzcnt_bit [OF U0] by (auto simp: i_def)
  obtain t where t: "bit U t" "\<And>j. t < j \<Longrightarrow> \<not> bit U j" "lzcnt U = 31 - t" "t < 32"
    by (rule lzcnt_bit [OF U0]) (rule that, simp_all)
  have l: "l = t" using t(3,4) by (simp add: l_def getLeastSignificantBytIndexForBytesUsedMask_def)
  have first: "?es = (?P ! i, E ! i) # map (\<lambda>i. (?P ! i, E ! i)) (tl (ones U))"
    using arg_cong [OF ones_Cons_tzcnt [OF U0], of "map (\<lambda>i. (?P ! i, E ! i))"] unfolding kept_bytes_def i_def list.map .
  have "filter (bit U) [Suc t..<LENGTH(32)] = []" using t(2) by (auto simp: filter_empty_conv)
  then have "ones U = filter (bit U) [0..<t] @ [t]" using ones_split [of t U] t by simp
  then have last: "?es = map (\<lambda>i. (?P ! i, E ! i)) (filter (bit U) [0..<t]) @ [(?P ! t, E ! t)]"
    by (simp add: kept_bytes_def)
  have iN: "i < mNumberExtractionBytes m" "E ! i \<noteq> 0" "t < mNumberExtractionBytes m" "E ! t \<noteq> 0"
    using i(1) t(1) by (simp_all add: U(2))
  have lt: "i < 8 * n" "t < 8 * n" using iN(1,3) s(5) by simp_all
  have mn: "Min B = 8 * mm_pos m i + unat (getMostSignificantBitIndexInByte (E ! i))"
    using Min_byte_bits [of "?P ! i" "E ! i"] es(1) iN(2) unfolding B [symmetric] first by blast
  have mx: "Max B = 8 * mm_pos m t + unat (getLeastSignificantBitIndexInByte (E ! t))"
    using Max_byte_bits [of _ "?P ! t" "E ! t"] es(1) iN(4) unfolding B [symmetric] last by blast
  obtain a where "unat (getMostSignificantBitIndexInByte (E ! i)) = 7 - a" using top_bit_of_byte [OF iN(2)] by metis
  then have d: "Min B div 8 = mm_pos m i" unfolding mn by (simp add: byte_index(1))
  obtain a where "unat (getLeastSignificantBitIndexInByte (E ! t)) = 7 - a" using low_bit_of_byte [OF iN(4)] by metis
  then have d2: "Max B div 8 = mm_pos m t" unfolding mx by (simp add: byte_index(1))
  have pos: "mm_getExtractionBytePosition m t = Inr (?P ! t)" "mm_getExtractionBytePosition m i = Inr (?P ! i)"
    using lt s(2) by (simp_all add: mm_getExtractionBytePosition_def byte_at_def nth_append)
  have byte: "getExtractionByteAt E t = Inr (E ! t)" "getExtractionByteAt E i = Inr (E ! i)"
    using lt le by (simp_all add: getExtractionByteAt_def byte_at_def)
  have Pu: "unat (?P ! j) < 256" for j using unsigned_less [of "?P ! j", where 'a = nat] by simp
  have base: "unat (convertBytesToBits (ucast (?P ! j))) = 8 * mm_pos m j" for j
  proof -
    have "unat (ucast (?P ! j) :: u16) = mm_pos m j"
      by (simp add: unsigned_ucast_eq take_bit_nat_eq_self_iff order_less_trans [OF Pu])
    then show ?thesis using Pu [of j] by (simp add: unat_convertBytesToBits)
  qed
  have lim: "Max B < 2048" "Min B < 2048" using d d2 Pu [of t] Pu [of i] by (simp_all add: div_less_iff_less_mult)
  have lsb: "u16nat (unat (convertBytesToBits (ucast (?P ! t))) + unat (getLeastSignificantBitIndexInByte (E ! t))) = Max B"
    and msb: "u16nat (unat (convertBytesToBits (ucast (?P ! i))) + unat (getMostSignificantBitIndexInByte (E ! i))) = Min B"
    using lim unfolding base mn mx by simp_all
  have "mm_pos m i \<le> mm_pos m t" using i(2) [OF t(1)] iN by (intro mm_pos_mono [OF sh]) simp_all
  then have dist: "sub32 (mm_pos m t) (mm_pos m i) = mm_pos m t - mm_pos m i"
    using Pu [of t] by (intro sub32_small) simp_all
  have range: "mm_pos m i \<le> mm_pos m j \<and> mm_pos m j \<le> mm_pos m t" if "bit U j" for j
  proof -
    have "j \<le> t" using t(2) that not_less by blast
    then show ?thesis using i(2) [OF that] iN(1,3) by (auto intro!: mm_pos_mono [OF sh])
  qed
  have single: "\<exists>M. rbind (SingleMask_random ?P E U (Min B) (Max B)) (\<lambda>m'. Inr (SingleMapping m')) = Inr M \<and>
      mapping_wf M \<and> mapping_bits M = B" if near: "mm_pos m t - mm_pos m i < 8"
  proof -
    have "\<exists>m'. SingleMask_random ?P E U (Min (byte_bits ?es)) (Max (byte_bits ?es)) = Inr m' \<and> sm_wf m' \<and> sm_bits m' = byte_bits ?es"
    proof (rule random_bytes [where off = "mm_pos m t - 7"])
      fix j assume j: "bit U j"
      show "mm_pos m t - 7 \<le> mm_pos m j \<and> mm_pos m j < mm_pos m t - 7 + 8" using range [OF j] near by linarith
      show "j < length ?P \<and> j < length E" using j s(2,5) le by (simp add: U(2))
    qed (use es(1,2) U0 d2 B in simp_all)
    then show ?thesis unfolding B by auto
  qed
  have many: "\<exists>M. rbind (MultiMask_compact k m U E (Min B) (Max B) (popcnt U) (popcnt used)) (\<lambda>m'. Inr (multi k m')) = Inr M \<and>
      mapping_wf M \<and> mapping_bits M = B" if k: "k \<in> {1, 2, 4}" "popcnt U \<le> 8 * k" for k
  proof -
    have ok: "bytes_ok k ?es" using k es(1,2) first lenes by (auto simp: bytes_ok_def)
    have "MultiMask_compact k m U E (Min B) (Max B) (popcnt U) (popcnt used) = Inr (mm_of k (Min B) (Max B) (popcnt used) ?es)"
      by (rule compact_bytes) (use k s(2,5) le U(2) in auto)
    then show ?thesis using mm_of_wf [OF ok] mm_bits_of [OF ok] B cB mapping_multi [OF k(1)] by simp
  qed
  have small: "popcnt U \<le> 8" if "mm_pos m t - mm_pos m i < 8"
    unfolding lenes [symmetric]
  proof (rule few_bytes_near [OF es(1), of "mm_pos m i"])
    fix e assume "e \<in> set ?es"
    then obtain j where "bit U j" "fst e = ?P ! j" by (auto simp: kept_bytes_def)
    then show "mm_pos m i \<le> unat (fst e) \<and> unat (fst e) < mm_pos m i + 8" using range [of j] that by auto
  qed
  have all: "popcnt U \<le> 8 * n" using popcnt_subset [of U "8 * n"] U(2) s(5) by (meson less_le_trans)
  let ?masks = "(popcnt U - 1) div 8 + of_bool (8 \<le> mm_pos m t - mm_pos m i)"
  have ex: "mm_extract n m used =
    (if ?masks = 0 then rbind (SingleMask_random ?P E U (Min B) (Max B)) (\<lambda>m'. Inr (SingleMapping m'))
     else if ?masks = 1 then rbind (MultiMask_compact 1 m U E (Min B) (Max B) (popcnt U) (popcnt used)) (\<lambda>m'. Inr (multi 1 m'))
     else if ?masks = 2 \<and> n \<ge> 2 then rbind (MultiMask_compact 2 m U E (Min B) (Max B) (popcnt U) (popcnt used)) (\<lambda>m'. Inr (multi 2 m'))
     else if n \<ge> 4 then rbind (MultiMask_compact 4 m U E (Min B) (Max B) (popcnt U) (popcnt used)) (\<lambda>m'. Inr (multi 4 m'))
     else Inl UB_Null)"
    unfolding mm_extract_def E U(1) rbind_simps Let_def i_def [symmetric] l_def [symmetric] l pos byte lsb msb dist ..
  show ?thesis
  proof (cases "mm_pos m t - mm_pos m i < 8")
    case True
    then show ?thesis using ex single [OF True] small [OF True] unfolding B_def [symmetric] by simp
  next
    case far: False
    consider "popcnt U \<le> 8" | "8 < popcnt U" "popcnt U \<le> 16" | "16 < popcnt U" by linarith
    then show ?thesis
    proof cases
      case 1
      then show ?thesis using ex far many [of 1] unfolding B_def [symmetric] by simp
    next
      case 2
      then have "(popcnt U - 1) div 8 = 1" by auto
      then show ?thesis using ex far many [of 2] 2 all s(1) unfolding B_def [symmetric] by auto
    next
      case 3
      then have "n = 4" using all s(1) by auto
      moreover have "2 \<le> (popcnt U - 1) div 8" using 3 by simp
      ultimately show ?thesis using ex far many [of 4] all unfolding B_def [symmetric] by simp
    qed
  qed
qed

text \<open>A mapping of any kind restricted to some bits of the partial keys.\<close>

lemma mapping_extract_restricts:
  assumes "mapping_wf M" and "length (mapping_positions M) \<le> 31"
    and "used \<noteq> 0" "\<And>j. bit used j \<Longrightarrow> j < length (mapping_positions M)"
  shows "\<exists>M'. mapping_extract M used = Inr M' \<and> mapping_wf M' \<and> mapping_bits M' = kept_bits M used"
proof (cases M)
  case (SingleMapping m)
  have p: "popcnt (mSuccessiveExtractionMask m) \<le> 32" and ex: "\<exists>j < length (sm_positions m). bit used j"
    using assms(2-4) SingleMapping by (auto simp: mapping_positions_def sm_positions_def popcnt_def bit_eq_iff)
  obtain m' where "SingleMask_needed m used = Inr m'" "sm_wf m'"
    "sm_bits m' = {sm_positions m ! j | j. j < length (sm_positions m) \<and> bit used j}"
    using SingleMask_needed_wf [OF _ p ex] assms(1) SingleMapping by (auto simp: mapping_wf_def)
  then show ?thesis using SingleMapping by (auto simp: sm_extract_def kept_bits_def mapping_positions_def)
next
  case (MultiMapping1 m)
  then show ?thesis using mm_extract_restricts [of 1 m used] assms by (simp add: kept_bits_def)
next
  case (MultiMapping2 m)
  then show ?thesis using mm_extract_restricts [of 2 m used] assms by (simp add: kept_bits_def)
next
  case (MultiMapping4 m)
  then show ?thesis using mm_extract_restricts [of 4 m used] assms by (simp add: kept_bits_def)
qed

section \<open>The property\<close>

text \<open>C26: Restricting a well-formed mapping of any kind to some bits of the partial keys never fails and
  gives a well-formed mapping, of whatever kind fits, whose discriminative bits are exactly the bits asked for.\<close>
theorem mapping_extract_keeps:
  assumes "mapping_wf M" and "length (mapping_positions M) \<le> 31"
    and "used \<noteq> 0" and "\<forall>j. bit used j \<longrightarrow> j < length (mapping_positions M)"
  shows "\<exists>M'. mapping_extract M used = Inr M' \<and> mapping_wf M' \<and>
    mapping_bits M' = {mapping_positions M ! j | j. j < length (mapping_positions M) \<and> bit used j}"
  using mapping_extract_restricts [OF assms(1-3)] assms(4) by (auto simp: kept_bits_def)

theorem mapping_extract_keeps_witness:
  "\<exists>M'. mapping_extract (MultiMapping1 (mm_of 1 5 80 2 [(0, 4), (10, 128)])) 2 = Inr M' \<and> mapping_wf M' \<and> mapping_bits M' = {80}"
proof -
  let ?M = "MultiMapping1 (mm_of 1 5 80 2 [(0, 4), (10, 128)])"
  have M: "mapping_wf ?M" "mapping_positions ?M = [5, 80]" by code_simp+
  have j: "bit (2 :: u32) j \<longleftrightarrow> j = 1" for j
    using bit_exp_iff [where 'a = "32 word", of 1 j] by auto
  have "{[5, 80] ! j | j. j < length [5, 80 :: nat] \<and> bit (2 :: u32) j} = {80 :: nat}" unfolding j by auto
  then show ?thesis using mapping_extract_keeps [OF M(1), of 2] M(2) j by simp
qed

end
