(* ===== verification/Hot_Node_Compress.thy ===== *)
theory Hot_Node_Compress
  imports Hot_Node_Contract Mapping_Restrict
begin

text \<open>
  Splitting a full node (\<open>HOTSingleThreadedNode.hpp\<close>, with \<open>TwoEntriesNode.hpp\<close>): the entries of a
  subtree are compressed into a new node whose mapping keeps only the bits they need, optionally with one
  entry added on the way, and the two halves become the children of a binary node.  What an operation
  returns is a child the node already had or a new node; the pointer to a new node is made when it is
  stored, so it is not part of the model here.  The argument \<open>mem\<close> is what the memory of a new node holds.
\<close>

unbundle bit_operations_syntax

section \<open>Compressing a range of entries\<close>

datatype 'c node_or_child = Existing 'c | Created "'c HOTSingleThreadedNode"

definition keys_getRelevantBitsForRange :: "nat \<Rightarrow> u32 list \<Rightarrow> nat \<Rightarrow> nat \<Rightarrow> u32 cxx" where
  "keys_getRelevantBitsForRange w es firstIndexInRange numberEntriesInRange =
     (if w = 8 then rbind (getRelevantBitsForRange (map ucast es :: u8 list) firstIndexInRange numberEntriesInRange) (\<lambda>r. Inr (ucast r))
      else if w = 16 then rbind (getRelevantBitsForRange (map ucast es :: u16 list) firstIndexInRange numberEntriesInRange) (\<lambda>r. Inr (ucast r))
      else getRelevantBitsForRange es firstIndexInRange numberEntriesInRange)"

definition compressRangeIntoNewNode ::
  "'c HOTSingleThreadedNode \<Rightarrow> u32 \<Rightarrow> nat \<Rightarrow> nat \<Rightarrow> nat \<Rightarrow> 'c HOTSingleThreadedNode \<Rightarrow> 'c HOTSingleThreadedNode cxx" where
  "compressRangeIntoNewNode sourceNode compressionMask firstIndexInSourceRange firstIndexInTarget numberEntriesInRange =
     rfold (\<lambda>j. copy_entry sourceNode (\<lambda>e. pext e compressionMask) (firstIndexInSourceRange + j) (firstIndexInTarget + j))
       [0..<numberEntriesInRange]"

text \<open>The constructor from a range, and the one from a range and a new entry.\<close>

definition Node_compress ::
  "u32 list \<times> 'c list \<Rightarrow> 'c HOTSingleThreadedNode \<Rightarrow> nat \<Rightarrow> mapping \<Rightarrow> nat \<Rightarrow> u32 \<Rightarrow> nat \<Rightarrow> nat
   \<Rightarrow> 'c HOTSingleThreadedNode cxx" where
  "Node_compress mem sourceNode newNumberEntries discriminativeBitsRepresentation width compressionMask
     firstIndexInRange numberEntriesInRange =
     rbind (Node_base mem (mHeight sourceNode) newNumberEntries discriminativeBitsRepresentation width) (\<lambda>n0.
     rbind (compressRangeIntoNewNode sourceNode compressionMask firstIndexInRange 0 numberEntriesInRange n0) (set_entry 0 0))"

definition Node_compress_insert ::
  "u32 list \<times> 'c list \<Rightarrow> 'c HOTSingleThreadedNode \<Rightarrow> nat \<Rightarrow> mapping \<Rightarrow> nat \<Rightarrow> u32 \<Rightarrow> nat \<Rightarrow> nat
   \<Rightarrow> InsertInformation \<Rightarrow> 'c \<Rightarrow> 'c HOTSingleThreadedNode cxx" where
  "Node_compress_insert mem sourceNode newNumberEntries discriminativeBitsRepresentation width compressionMask
     firstIndexInRange numberEntriesInRange insertInformation newValue =
     rbind (Node_base mem (mHeight sourceNode) newNumberEntries discriminativeBitsRepresentation width) (\<lambda>n0.
       let keyInformation = mKeyInformation insertInformation; bit_value = unat (mBitValue keyInformation)
       in rbind (getConversionInformationForCompressionMask n0 compressionMask keyInformation) (\<lambda>conversionInformation.
            let recode = (\<lambda>e. pdep (pext e compressionMask) (mConversionMask conversionInformation));
                newMask = recode (mSubtreePrefixPartialKey insertInformation)
                  OR of_nat bit_value * mAdditionalMask conversionInformation;
                firstAffected = getFirstIndexInAffectedSubtree insertInformation;
                numberAffected = getNumberEntriesInAffectedSubtree insertInformation;
                numberBefore = sub32 firstAffected firstIndexInRange;
                newBitForExistingEntries = sub32 1 bit_value;
                firstTargetInAffected = numberBefore + newBitForExistingEntries;
                additionalMaskForExistingEntries = mAdditionalMask conversionInformation * of_nat newBitForExistingEntries;
                untilEndOfAffected = numberBefore + numberAffected;
                sourceAfterAffected = firstIndexInRange + untilEndOfAffected;
                firstTargetAfterAffected = untilEndOfAffected + 1;
                numberAfterAffected = sub32 numberEntriesInRange untilEndOfAffected
            in rbind (rfold (\<lambda>j. copy_entry sourceNode recode (firstIndexInRange + j) j) [0..<numberBefore] n0) (\<lambda>n1.
               rbind (rfold (\<lambda>j. copy_entry sourceNode (\<lambda>e. recode e OR additionalMaskForExistingEntries)
                        (firstAffected + j) (firstTargetInAffected + j)) [0..<numberAffected] n1) (\<lambda>n2.
               rbind (rfold (\<lambda>j. copy_entry sourceNode recode (sourceAfterAffected + j) (firstTargetAfterAffected + j))
                        [0..<numberAfterAffected] n2) (\<lambda>n3.
               rbind (put_entry (numberBefore + bit_value * numberAffected) newMask newValue n3) (set_entry 0 0))))))"

section \<open>A node of two entries\<close>

definition createTwoEntriesNode :: "u32 list \<times> 'c list \<Rightarrow> 'c BiNode \<Rightarrow> 'c HOTSingleThreadedNode cxx" where
  "createTwoEntriesNode mem binaryNode =
     rbind (SingleMask_bit (DiscriminativeBit_at (of_nat (bi_mDiscriminativeBitIndex binaryNode)) 1)) (\<lambda>m.
     rbind (Node_base mem (bi_mHeight binaryNode) 2 (SingleMapping m) 8) (\<lambda>n0.
     rbind (set_entry 0 0 n0) (\<lambda>n1.
     rbind (set_entry 1 1 n1) (\<lambda>n2.
     rbind (set_pointer 0 (bi_mLeft binaryNode) n2) (set_pointer 1 (bi_mRight binaryNode))))))"

section \<open>Compressing and splitting\<close>

definition compressEntries ::
  "u32 list \<times> 'c list \<Rightarrow> 'c HOTSingleThreadedNode \<Rightarrow> nat \<Rightarrow> nat \<Rightarrow> 'c node_or_child cxx" where
  "compressEntries mem self firstIndexInRange numberEntriesInRange =
     rbind (keys_getRelevantBitsForRange (key_width self) (mEntries self) firstIndexInRange numberEntriesInRange) (\<lambda>relevantBits.
       if numberEntriesInRange > 1 then
         rbind (extractAndExecuteWithCorrectMask (mDiscriminativeBitsRepresentation self) relevantBits) (\<lambda>(M, w).
         rbind (Node_compress mem self numberEntriesInRange M w relevantBits firstIndexInRange numberEntriesInRange)
           (\<lambda>n. Inr (Created n)))
       else rbind (get_pointer self firstIndexInRange) (\<lambda>p. Inr (Existing p)))"

definition compressEntriesAndAddOneEntryIntoNewNode ::
  "('c \<Rightarrow> nat cxx) \<Rightarrow> u32 list \<times> 'c list \<Rightarrow> 'c HOTSingleThreadedNode \<Rightarrow> nat \<Rightarrow> nat \<Rightarrow> InsertInformation \<Rightarrow> 'c
   \<Rightarrow> 'c node_or_child cxx" where
  "compressEntriesAndAddOneEntryIntoNewNode getHeight mem self firstIndexInRange numberEntriesInRange insertInformation newValue =
     (if numberEntriesInRange \<noteq> 1 then
        rbind (keys_getRelevantBitsForRange (key_width self) (mEntries self) firstIndexInRange numberEntriesInRange) (\<lambda>relevantBits.
        rbind (extractAndAddAndExecuteWithCorrectMask (mDiscriminativeBitsRepresentation self) relevantBits
                 (mKeyInformation insertInformation)) (\<lambda>(M, w).
        rbind (Node_compress_insert mem self (u16nat (numberEntriesInRange + 1)) M w relevantBits
                 firstIndexInRange numberEntriesInRange insertInformation newValue) (\<lambda>n. Inr (Created n))))
      else
        rbind (get_pointer self firstIndexInRange) (\<lambda>p.
        rbind (createFromExistingAndNewEntry getHeight (mKeyInformation insertInformation) p newValue) (\<lambda>binaryNode.
        rbind (createTwoEntriesNode mem binaryNode) (\<lambda>n. Inr (Created n)))))"

definition getMaskForLargerEntries :: "'c HOTSingleThreadedNode \<Rightarrow> u32 cxx" where
  "getMaskForLargerEntries n =
     rbind (mapping_getMaskForHighestBit (mDiscriminativeBitsRepresentation n)) (\<lambda>maskWithMostSignificantBitSet.
     rbind (keys_findMasksByPattern (key_width n) (mEntries n) maskWithMostSignificantBitSet) (\<lambda>m.
       Inr (m AND mUsedEntriesMask n)))"

definition split ::
  "('c \<Rightarrow> nat cxx) \<Rightarrow> u32 list \<times> 'c list \<Rightarrow> u32 list \<times> 'c list \<Rightarrow> 'c HOTSingleThreadedNode \<Rightarrow> InsertInformation \<Rightarrow> 'c
   \<Rightarrow> 'c node_or_child BiNode cxx" where
  "split getHeight mem1 mem2 self insertInformation newValue =
     rbind (getMaskForLargerEntries self) (\<lambda>largerEntries.
       let numberLargerEntries = popcnt largerEntries;
           numberSmallerEntries = getNumberEntries self - numberLargerEntries;
           newLevel = u16nat (mHeight self + 1);
           root_bit = mapping_mostSignificantIndex (mDiscriminativeBitsRepresentation self)
       in if mFirstIndexInAffectedSubtree insertInformation \<ge> numberSmallerEntries
          then rbind (compressEntries mem1 self 0 numberSmallerEntries) (\<lambda>left.
               rbind (compressEntriesAndAddOneEntryIntoNewNode getHeight mem2 self numberSmallerEntries numberLargerEntries
                        insertInformation newValue) (\<lambda>right.
                 Inr (BiNode_of root_bit newLevel left right)))
          else rbind (compressEntriesAndAddOneEntryIntoNewNode getHeight mem1 self 0 numberSmallerEntries
                        insertInformation newValue) (\<lambda>left.
               rbind (compressEntries mem2 self numberSmallerEntries numberLargerEntries) (\<lambda>right.
                 Inr (BiNode_of root_bit newLevel left right))))"

definition getLeastSignificantDiscriminativeBitForEntry :: "'c HOTSingleThreadedNode \<Rightarrow> nat \<Rightarrow> nat cxx" where
  "getLeastSignificantDiscriminativeBitForEntry n entryIndex =
     (let nextEntryIndex = entryIndex + 1
      in rbind (get_entry n entryIndex) (\<lambda>e.
         rbind (if nextEntryIndex < getNumberEntries n then rbind (get_entry n nextEntryIndex) (\<lambda>e'. Inr (e OR e')) else Inr e)
           (mapping_getLeastSignificantBitIndex (mDiscriminativeBitsRepresentation n))))"

section \<open>Writing entries in any order\<close>

text \<open>The entries of \<open>n\<close> at the indices \<open>D\<close> are those of two given lists, all others are those of \<open>n0\<close>.\<close>

definition holds ::
  "nat set \<Rightarrow> u32 list \<Rightarrow> 'c list \<Rightarrow> 'c HOTSingleThreadedNode \<Rightarrow> 'c HOTSingleThreadedNode \<Rightarrow> bool" where
  "holds D es ps n0 n \<longleftrightarrow>
     n = n0 \<lparr> mEntries := mEntries n, mPointers := mPointers n \<rparr> \<and>
     length (mEntries n) = length (mEntries n0) \<and> length (mPointers n) = length (mPointers n0) \<and>
     (\<forall>i < length (mEntries n). mEntries n ! i = (if i \<in> D then es ! i else mEntries n0 ! i)) \<and>
     (\<forall>i < length (mPointers n). mPointers n ! i = (if i \<in> D then ps ! i else mPointers n0 ! i))"

lemma holds_start: "holds {} es ps n n"
  by (simp add: holds_def)

lemma holds_fields:
  assumes "holds D es ps n0 n"
  shows "mUsedEntriesMask n = mUsedEntriesMask n0" "key_width n = key_width n0" "getNumberEntries n = getNumberEntries n0"
    "mDiscriminativeBitsRepresentation n = mDiscriminativeBitsRepresentation n0" "mHeight n = mHeight n0"
proof -
  have "n = n0 \<lparr> mEntries := mEntries n, mPointers := mPointers n \<rparr>" using assms by (simp add: holds_def)
  then show a: "mUsedEntriesMask n = mUsedEntriesMask n0" "key_width n = key_width n0"
    "mDiscriminativeBitsRepresentation n = mDiscriminativeBitsRepresentation n0" "mHeight n = mHeight n0"
    by (metis HOTSingleThreadedNode.select_convs HOTSingleThreadedNode.surjective HOTSingleThreadedNode.update_convs(5,6))+
  show "getNumberEntries n = getNumberEntries n0" using a by (simp add: getNumberEntries_def)
qed

lemma holds_put:
  assumes h: "holds D es ps n0 n" and "roomy n0" "i < getNumberEntries n0" "es ! i = v AND mask (key_width n0)" "ps ! i = p"
  shows "\<exists>n'. put_entry i v p n = Inr n' \<and> holds (insert i D) es ps n0 n'"
proof -
  note f = holds_fields [OF h]
  have l: "i < length (mEntries n)" "i < length (mPointers n)" using assms(2,3) h by (auto simp: roomy_def holds_def)
  let ?n' = "n \<lparr> mEntries := (mEntries n) [i := v AND mask (key_width n)], mPointers := (mPointers n) [i := p] \<rparr>"
  have "put_entry i v p n = Inr ?n'"
    using l assms(3) f by (simp add: put_entry_def set_entry_def set_pointer_def getNumberEntries_def)
  moreover have "holds (insert i D) es ps n0 ?n'"
    using h l assms(4,5) f by (auto simp: holds_def nth_list_update)
  ultimately show ?thesis by blast
qed

lemma holds_copies:
  assumes h: "holds D es ps n0 n" and "roomy n0" "roomy src" "a + c \<le> getNumberEntries src" "d + c \<le> getNumberEntries n0"
    and "\<And>j. j < c \<Longrightarrow> es ! (d + j) = f (mEntries src ! (a + j)) AND mask (key_width n0)"
    and "\<And>j. j < c \<Longrightarrow> ps ! (d + j) = mPointers src ! (a + j)"
  shows "\<exists>n'. rfold (\<lambda>j. copy_entry src f (a + j) (d + j)) [0..<c] n = Inr n' \<and> holds (D \<union> {d..<d + c}) es ps n0 n'"
  using assms(4-)
proof (induction c)
  case 0
  then show ?case using h by simp
next
  case (Suc c)
  then obtain n' where n': "rfold (\<lambda>j. copy_entry src f (a + j) (d + j)) [0..<c] n = Inr n'"
    "holds (D \<union> {d..<d + c}) es ps n0 n'" by fastforce
  have "a + c < length (mEntries src)" "a + c < length (mPointers src)" "a + c < getNumberEntries src"
    using Suc.prems(1) assms(3) by (auto simp: roomy_def)
  then have step: "copy_entry src f (a + c) (d + c) n' = put_entry (d + c) (f (mEntries src ! (a + c))) (mPointers src ! (a + c)) n'"
    by (simp add: copy_entry_def get_entry_def get_pointer_def)
  moreover obtain n'' where "put_entry (d + c) (f (mEntries src ! (a + c))) (mPointers src ! (a + c)) n' = Inr n''"
    "holds (insert (d + c) (D \<union> {d..<d + c})) es ps n0 n''"
    using holds_put [OF n'(2) assms(2), of "d + c"] Suc.prems by fastforce
  moreover have "insert (d + c) (D \<union> {d..<d + c}) = D \<union> {d..<d + Suc c}" by auto
  ultimately show ?case
    using n'(1) by (simp add: rfold_append)
qed

lemma holds_filled:
  assumes "holds {..<N} es ps n0 n" "length es = N" "length ps = N" "N \<le> length (mEntries n0)" "N \<le> length (mPointers n0)"
  shows "n = filled n0 es ps"
proof -
  have "mEntries n = es @ drop N (mEntries n0)" "mPointers n = ps @ drop N (mPointers n0)"
    using assms by (auto intro!: nth_equalityI simp: holds_def nth_append)
  moreover have "n = n0 \<lparr> mEntries := mEntries n, mPointers := mPointers n \<rparr>" using assms(1) by (simp add: holds_def)
  ultimately show ?thesis using assms(2,3) by (simp add: filled_def)
qed

lemma zero_first:
  assumes "es \<noteq> []" "hd es = 0" "0 < getNumberEntries n0"
  shows "set_entry 0 0 (filled n0 es ps) = Inr (filled n0 es ps)"
  using assms by (cases es) (simp_all add: set_entry_def filled_def getNumberEntries_def)

section \<open>A subtree and its entries\<close>

text \<open>The leaves of \<open>s\<close> are those of \<open>t\<close> from index \<open>a\<close> on; \<open>pre\<close> are the bits set on the way to \<open>s\<close>.\<close>

definition subtrie :: "'v ptrie \<Rightarrow> nat \<Rightarrow> 'v ptrie \<Rightarrow> nat set \<Rightarrow> bool" where
  "subtrie t a s pre \<longleftrightarrow> a + length (leaves s) \<le> length (leaves t) \<and>
     (\<forall>j < length (leaves s). leaves t ! (a + j) = leaves s ! j \<and> paths {} t ! (a + j) = pre \<union> paths {} s ! j) \<and>
     bits_of s \<subseteq> bits_of t \<and> pre \<inter> bits_of s = {} \<and> pre \<subseteq> bits_of t \<and> ordered s"

lemma paths_union: "paths (R \<union> P) t = map ((\<union>) R) (paths P t)"
proof (induction t arbitrary: P)
  case (PNode b l r)
  have "insert b (R \<union> P) = R \<union> insert b P" by blast
  then show ?case using PNode by (simp del: Un_insert_right Un_insert_left)
qed simp

lemma subtrie_left: "ordered (PNode b l r) \<Longrightarrow> subtrie (PNode b l r) 0 l {}"
  by (auto simp: subtrie_def nth_append)

lemma subtrie_right: "ordered (PNode b l r) \<Longrightarrow> subtrie (PNode b l r) (length (leaves l)) r {b}"
  using paths_union [of "{b}" "{}" r] by (auto simp: subtrie_def nth_append)

lemma path_wf_disjoint: "path_wf w V t \<Longrightarrow> bits_of t \<inter> U = {} \<Longrightarrow> path_wf w (V \<union> U) t"
  by (induction t arbitrary: V) (auto simp flip: Un_insert_left)

lemma index_bits:
  assumes "distinct ps" "length ps \<le> 32" "S \<subseteq> set ps"
  shows "{k. bit (key_word ps S) k} = (\<lambda>k. index_in k ps) ` S"
proof (intro set_eqI iffI)
  fix j assume "j \<in> {k. bit (key_word ps S) k}"
  then have "j < length ps" "ps ! j \<in> S" by (simp_all add: word_bits)
  then show "j \<in> (\<lambda>k. index_in k ps) ` S" using index_in_eq [OF assms(1)] by force
next
  fix j assume "j \<in> (\<lambda>k. index_in k ps) ` S"
  then obtain k where "k \<in> S" "j = index_in k ps" by blast
  then show "j \<in> {k. bit (key_word ps S) k}" using assms index_in_nth [of k ps] by (auto simp: word_bits)
qed

lemma narrow_bit:
  assumes "(e :: u32) AND mask LENGTH('a::len) = e" shows "bit (ucast e :: 'a word) k \<longleftrightarrow> bit e k"
proof -
  have "bit e k \<longleftrightarrow> bit (e AND mask LENGTH('a)) k" using assms by simp
  then show ?thesis by (auto simp: bit_ucast_iff bit_and_iff bit_mask_iff)
qed

lemma rel_bits_cong:
  assumes "length xs = length ys" "\<And>i k. i < length ys \<Longrightarrow> bit (xs ! i) k \<longleftrightarrow> bit (ys ! i) k"
  shows "rel_bits xs = rel_bits ys"
  using assms by (auto simp: rel_bits_def)

lemma narrow_rel_bits:
  assumes "fits LENGTH('a::len) es"
  shows "rel_bits (take c (drop a (map ucast es :: 'a word list))) = rel_bits (take c (drop a es))"
proof (rule rel_bits_cong)
  fix i k assume "i < length (take c (drop a es))"
  then have a: "a \<le> length es" "a + i < length es" "i < c" by auto
  then have "es ! (a + i) AND mask LENGTH('a) = es ! (a + i)" using assms nth_mem by (auto simp: fits_def)
  from narrow_bit [OF this]
  show "bit (take c (drop a (map ucast es :: 'a word list)) ! i) k \<longleftrightarrow> bit (take c (drop a es) ! i) k" using a by simp
qed simp

lemma widen_bits:
  fixes x :: "'a::len word"
  assumes "LENGTH('a) \<le> 32" shows "{k. bit (ucast x :: u32) k} = {k. bit x k}"
  using assms bit_imp_le_length [of x] by (force simp: bit_ucast_iff)

lemma keys_relevant_law:
  assumes "w \<in> {8, 16, 32}" "fits w es" "a + c \<le> length es"
  obtains r where "keys_getRelevantBitsForRange w es a c = Inr r" "{k. bit r k} = rel_bits (take c (drop a es))"
proof -
  consider "w = 8" | "w = 16" | "w = 32" using assms(1) by auto
  then show thesis
  proof cases
    case 1
    obtain x :: u8 where "getRelevantBitsForRange (map ucast es :: u8 list) a c = Inr x"
      "{k. bit x k} = rel_bits (take c (drop a (map ucast es :: u8 list)))"
      using getRelevantBits_rel [of a c "map ucast es :: u8 list"] assms(3) by auto
    then show ?thesis using that [of "ucast x"] 1 assms(2) narrow_rel_bits [where 'a = 8, of es c a] widen_bits [of x]
      by (simp add: keys_getRelevantBitsForRange_def)
  next
    case 2
    obtain x :: u16 where "getRelevantBitsForRange (map ucast es :: u16 list) a c = Inr x"
      "{k. bit x k} = rel_bits (take c (drop a (map ucast es :: u16 list)))"
      using getRelevantBits_rel [of a c "map ucast es :: u16 list"] assms(3) by auto
    then show ?thesis using that [of "ucast x"] 2 assms(2) narrow_rel_bits [where 'a = 16, of es c a] widen_bits [of x]
      by (simp add: keys_getRelevantBitsForRange_def)
  next
    case 3
    then show ?thesis using getRelevantBits_rel [OF assms(3)] that by (auto simp: keys_getRelevantBitsForRange_def)
  qed
qed


lemma subtrie_relevant:
  assumes wf: "node_wf n t" and st: "subtrie t a s pre"
  shows "keys_getRelevantBitsForRange (key_width n) (mEntries n) a (length (leaves s)) =
    Inr (key_word (mapping_positions (mDiscriminativeBitsRepresentation n)) (bits_of s))"
proof -
  let ?ps = "mapping_positions (mDiscriminativeBitsRepresentation n)" and ?c = "length (leaves s)"
  note d = node_wfD [OF wf]
  have s: "a + ?c \<le> length (leaves t)" "bits_of s \<subseteq> set ?ps" "pre \<inter> bits_of s = {}" "pre \<subseteq> set ?ps" "ordered s"
    using st d(7) by (auto simp: subtrie_def)
  have len: "a + ?c \<le> length (mEntries n)" using s(1) d(9,12) by simp
  have slice: "take ?c (drop a (mEntries n)) = lin (key_word ?ps pre) (index_trie ?ps s)"
  proof -
    have "take ?c (drop a (mEntries n)) ! j = lin (key_word ?ps pre) (index_trie ?ps s) ! j" if "j < ?c" for j
    proof -
      have "take ?c (drop a (mEntries n)) ! j = mEntries n ! (a + j)" using that len by simp
      also have "\<dots> = key_word ?ps (pre \<union> paths {} s ! j)"
        using node_entry(3) [OF wf, of "a + j"] that s(1) st by (simp add: subtrie_def)
      also have "\<dots> = map (key_word ?ps) (paths pre s) ! j" using that paths_union [of pre "{}" s] by simp
      finally show ?thesis by (simp only: lin_index_trie [OF d(6) d(5) s(2)])
    qed
    then show ?thesis using len by (intro nth_equalityI) simp_all
  qed
  have "path_wf LENGTH(32) ({} \<union> {k. bit (key_word ?ps pre) k}) (index_trie ?ps s)"
  proof (rule path_wf_disjoint)
    show "path_wf LENGTH(32) {} (index_trie ?ps s)" using d(5) by (intro path_wf_index_trie [OF d(6) _ s(2,5)]) simp
    have "inj_on (\<lambda>k. index_in k ?ps) (set ?ps)" by (rule inj_onI) (metis index_in_nth)
    then show "bits_of (index_trie ?ps s) \<inter> {k. bit (key_word ?ps pre) k} = {}"
      unfolding index_bits [OF d(6,5) s(4)] bits_of_relabel using inj_on_image_Int [OF _ s(2,4)] s(3) by (metis Int_commute image_empty)
  qed
  then have "rel_bits (take ?c (drop a (mEntries n))) = bits_of (index_trie ?ps s)"
    unfolding slice by (intro rel_bits_lin) simp
  also have "\<dots> = {k. bit (key_word ?ps (bits_of s)) k}" unfolding index_bits [OF d(6,5) s(2)] by simp
  finally have rel: "rel_bits (take ?c (drop a (mEntries n))) = {k. bit (key_word ?ps (bits_of s)) k}" .
  obtain r where r: "keys_getRelevantBitsForRange (key_width n) (mEntries n) a ?c = Inr r"
    "{k. bit r k} = rel_bits (take ?c (drop a (mEntries n)))"
    by (rule keys_relevant_law [OF d(3,13) len])
  then have "{k. bit r k} = {k. bit (key_word ?ps (bits_of s)) k}" using rel by simp
  then have "r = key_word ?ps (bits_of s)" by (intro bit_word_eqI) blast
  with r(1) show ?thesis by simp
qed

section \<open>The mapping of a compressed node\<close>

lemma pext_key_word:
  assumes "length ps \<le> 32"
  shows "pext (key_word ps P) (key_word ps S) = key_word (filter (\<lambda>k. k \<in> S) ps) P"
proof -
  have o: "ones (key_word ps S) = filter (\<lambda>i. ps ! i \<in> S) [0..<length ps]"
  proof (rule sorted_distinct_set_unique)
    show "set (ones (key_word ps S)) = set (filter (\<lambda>i. ps ! i \<in> S) [0..<length ps])"
      using assms by (auto simp: word_bits)
  qed (simp_all add: sorted_wrt_filter)
  have f: "filter (\<lambda>k. k \<in> S) ps = map ((!) ps) (ones (key_word ps S))"
    using filter_map [of "\<lambda>k. k \<in> S" "(!) ps" "[0..<length ps]"] by (simp add: o map_nth comp_def)
  show ?thesis
  proof (rule bit_word_eqI)
    fix j assume "j < LENGTH(32)"
    have "ones (key_word ps S) ! j < length ps" if "j < length (ones (key_word ps S))"
      using nth_mem [OF that] by (simp add: word_bits)
    then show "bit (pext (key_word ps P) (key_word ps S)) j = bit (key_word (filter (\<lambda>k. k \<in> S) ps) P) j"
      using assms \<open>j < LENGTH(32)\<close> by (auto simp: word_bits popcnt_def f)
  qed
qed

lemma width_of_bits_law: "1 \<le> b \<Longrightarrow> b \<le> 32 \<Longrightarrow> b \<le> width_of_bits b \<and> width_of_bits b \<in> {8, 16, 32}"
proof -
  have "list_all (\<lambda>b. b \<le> width_of_bits b \<and> width_of_bits b \<in> {8, 16, 32}) [1..<33]" by code_simp
  moreover assume "1 \<le> b" "b \<le> 32"
  ultimately show ?thesis by (simp add: list_all_iff)
qed

lemma execute_law:
  assumes "mapping_wf M" "length (mapping_positions M) \<le> 32" "mapping_bits M \<noteq> {}"
  obtains M' w where "mapping_executeWithCorrectMask M = Inr (M', w)" "mapping_wf M'" "mapping_bits M' = mapping_bits M"
    "NodeParametersToNodeType (class_of M') w \<noteq> None" "length (mapping_positions M') \<le> w"
proof -
  let ?L = "length (mapping_positions M)"
  have L: "1 \<le> ?L" "?L \<le> 32" using assms(2,3) by (auto simp: mapping_bits_def Suc_le_eq)
  note wl = width_of_bits_law [OF L]
  have num: "mapping_calculateNumberBitsUsed M = ?L" by (rule mapping_number_law [OF assms(1)])
  show thesis
  proof (cases M)
    case (SingleMapping m)
    moreover have "NodeParametersToNodeType SingleMaskClass (width_of_bits ?L) \<noteq> None"
      using wl unfolding node_types by blast
    ultimately show ?thesis using that [of M "width_of_bits ?L"] assms(1) wl num
      by (simp add: sm_executeWithCorrectMask_def)
  next
    case (MultiMapping1 m)
    moreover have "NodeParametersToNodeType MultiMaskClass1 (width_of_bits ?L) \<noteq> None"
      using wl unfolding node_types by blast
    ultimately show ?thesis using that [of M "width_of_bits ?L"] assms(1) wl num
      by (simp add: mm_executeWithCorrectMask_def)
  next
    case (MultiMapping2 m)
    show ?thesis
    proof (cases "?L \<le> 16")
      case True
      moreover have "NodeParametersToNodeType MultiMaskClass2 16 \<noteq> None" unfolding node_types by simp
      ultimately show ?thesis using that [of M 16] assms(1) num MultiMapping2
        by (simp add: mm_executeWithCorrectMask_def mm_calculateNumberBitsUsed_def)
    next
      case False
      have "mm_wf 2 m" using assms(1) MultiMapping2 by simp
      from extend_wf [OF this] obtain m' where m': "MultiMask_extend 4 m = Inr m'" "mm_wf 4 m'" "mm_bits m' = mm_bits m"
        by auto
      then have "mapping_wf (MultiMapping4 m')" "mapping_bits (MultiMapping4 m') = mapping_bits M"
        by (simp_all add: MultiMapping2)
      moreover from this have "length (mapping_positions (MultiMapping4 m')) = ?L"
        using positions_length assms(1) by metis
      moreover have "NodeParametersToNodeType MultiMaskClass4 32 \<noteq> None" unfolding node_types by simp
      ultimately show ?thesis using that [of "MultiMapping4 m'" 32] False L num MultiMapping2 m'(1)
        by (simp add: mm_executeWithCorrectMask_def mm_calculateNumberBitsUsed_def)
    qed
  next
    case (MultiMapping4 m)
    moreover have "NodeParametersToNodeType MultiMaskClass4 32 \<noteq> None" unfolding node_types by simp
    ultimately show ?thesis using that [of M 32] assms(1) L by (simp add: mm_executeWithCorrectMask_def)
  qed
qed


section \<open>Compressing a subtree\<close>

fun represents :: "'c node_or_child \<Rightarrow> 'c ptrie \<Rightarrow> bool" where
  "represents (Existing c) t \<longleftrightarrow> t = PLeaf c"
| "represents (Created n) t \<longleftrightarrow> \<not> is_leaf t \<and> node_wf n t"

lemma is_leaf_insert_leaf [simp]: "\<not> is_leaf (insert_leaf k side v i t)"
  by (cases t) (simp_all add: join_def)

lemma node_few_bits:
  assumes "node_wf n t" shows "length (mapping_positions (mDiscriminativeBitsRepresentation n)) \<le> 31"
proof -
  note d = node_wfD [OF assms]
  have "length (mapping_positions (mDiscriminativeBitsRepresentation n)) = card (bits_of t)"
    using positions_length [OF d(1)] d(18) by simp
  then show ?thesis using card_bits_of [of t] d(9) by simp
qed

lemma kept_key_word:
  assumes "S \<subseteq> set (mapping_positions M)" "length (mapping_positions M) \<le> 32"
  shows "kept_bits M (key_word (mapping_positions M) S) = S"
proof -
  have "j < 32" if "j < length (mapping_positions M)" for j using that assms(2) by simp
  then have "kept_bits M (key_word (mapping_positions M) S) =
      {mapping_positions M ! j | j. j < length (mapping_positions M) \<and> mapping_positions M ! j \<in> S}"
    by (auto simp: kept_bits_def word_bits)
  also have "\<dots> = set (mapping_positions M) \<inter> S" by (auto simp: in_set_conv_nth)
  finally have "kept_bits M (key_word (mapping_positions M) S) = set (mapping_positions M) \<inter> S" .
  with assms(1) show ?thesis by blast
qed

lemma restricted_mapping:
  assumes wf: "node_wf n t" and st: "subtrie t a s pre" and ne: "bits_of s \<noteq> {}"
  defines "M \<equiv> mDiscriminativeBitsRepresentation n"
  shows "\<exists>M'. mapping_extract M (key_word (mapping_positions M) (bits_of s)) = Inr M' \<and> mapping_wf M' \<and>
    mapping_bits M' = bits_of s"
proof -
  note d = node_wfD [OF wf, folded M_def]
  have sub: "bits_of s \<subseteq> set (mapping_positions M)" using st d(7) by (auto simp: subtrie_def)
  have "key_word (mapping_positions M) (bits_of s) \<noteq> 0"
  proof
    assume "key_word (mapping_positions M) (bits_of s) = 0"
    then have "{k. bit (key_word (mapping_positions M) (bits_of s)) k} = {}" by simp
    with ne index_bits [OF d(6,5) sub] show False by simp
  qed
  from mapping_extract_restricts [OF d(1) node_few_bits [OF wf, folded M_def] this]
  show ?thesis using kept_key_word [OF sub d(5)] by (auto simp: word_bits)
qed

lemma key_word_cong: "(\<And>x. x \<in> set ps \<Longrightarrow> x \<in> P \<longleftrightarrow> x \<in> Q) \<Longrightarrow> key_word ps P = key_word ps Q"
  unfolding key_word_def by (rule arg_cong [of _ _ of_bits]) simp

lemma compressed_key:
  assumes wf: "node_wf n t" and st: "subtrie t a s pre"
    and M': "mapping_wf M'" "mapping_bits M' = bits_of s"
  defines "ps \<equiv> mapping_positions (mDiscriminativeBitsRepresentation n)"
  shows "P \<subseteq> bits_of t \<Longrightarrow> pext (key_word ps P) (key_word ps (bits_of s)) = key_word (mapping_positions M') P"
    and "j < length (leaves s) \<Longrightarrow>
      pext (mEntries n ! (a + j)) (key_word ps (bits_of s)) = key_word (mapping_positions M') (paths {} s ! j)"
proof -
  note d = node_wfD [OF wf, folded ps_def]
  have sub: "mapping_bits M' \<subseteq> mapping_bits (mDiscriminativeBitsRepresentation n)"
    using st M'(2) d(18) by (auto simp: subtrie_def)
  have f: "filter (\<lambda>k. k \<in> bits_of s) ps = mapping_positions M'"
    using positions_filter [OF M'(1) d(1) sub] by (simp add: M'(2) ps_def)
  show k: "pext (key_word ps P) (key_word ps (bits_of s)) = key_word (mapping_positions M') P" for P
    unfolding pext_key_word [OF d(5)] f ..
  assume j: "j < length (leaves s)"
  have bits: "set (mapping_positions M') = bits_of s" using M'(2) by (simp add: mapping_bits_def)
  have "mEntries n ! (a + j) = key_word ps (pre \<union> paths {} s ! j)"
    using node_entry(3) [OF wf, of "a + j", folded ps_def] j st by (simp add: subtrie_def)
  then have "pext (mEntries n ! (a + j)) (key_word ps (bits_of s)) = key_word (mapping_positions M') (pre \<union> paths {} s ! j)"
    by (simp add: k)
  also have "\<dots> = key_word (mapping_positions M') (paths {} s ! j)"
    by (rule key_word_cong) (use bits st in \<open>auto simp: subtrie_def\<close>)
  finally show "pext (mEntries n ! (a + j)) (key_word ps (bits_of s)) = key_word (mapping_positions M') (paths {} s ! j)" .
qed

lemma hd_paths [simp]: "hd (paths P t) = P"
proof (induction t arbitrary: P)
  case (PNode b l r)
  have "paths P l \<noteq> []" by (metis length_paths length_0_conv leaves_not_Nil)
  then show ?case using PNode.IH(1) by simp
qed simp

lemma sparse_keys_first: "sparse_keys ps t \<noteq> []" "hd (sparse_keys ps t) = 0"
proof -
  have "paths {} t \<noteq> []" by (metis length_paths length_0_conv leaves_not_Nil)
  then show "sparse_keys ps t \<noteq> []" "hd (sparse_keys ps t) = 0"
    using hd_paths [of "{}" t] by (simp_all add: sparse_keys_def hd_map)
qed

lemma compressEntries_wf:
  assumes wf: "node_wf n t" and st: "subtrie t a s pre" and mem: "memory_ok (length (leaves s)) mem"
  shows "\<exists>res. compressEntries mem n a (length (leaves s)) = Inr res \<and> represents res s \<and>
    (\<forall>n'. res = Created n' \<longrightarrow> mHeight n' = mHeight n)"
proof (cases s)
  case (PLeaf v)
  then have "a < length (leaves t)" "leaves t ! a = v" using st by (auto simp: subtrie_def)
  then show ?thesis
    using PLeaf subtrie_relevant [OF wf st] node_entry(2) [OF wf] by (simp add: compressEntries_def)
next
  case (PNode b l r)
  let ?M = "mDiscriminativeBitsRepresentation n" and ?N = "length (leaves s)"
  let ?ps = "mapping_positions ?M"
  note d = node_wfD [OF wf]
  have N: "1 < ?N" "a + ?N \<le> length (leaves t)" "ordered s" using PNode st leaves_pos [of l] leaves_pos [of r] by (auto simp: subtrie_def simp del: length_greater_0_conv)
  obtain Mi where Mi: "mapping_extract ?M (key_word ?ps (bits_of s)) = Inr Mi" "mapping_wf Mi" "mapping_bits Mi = bits_of s"
    using restricted_mapping [OF wf st] PNode by auto
  have "length (mapping_positions Mi) \<le> 32"
    using positions_length [OF Mi(2)] card_bits_of [of s] N d(9) by (simp add: Mi(3))
  then obtain M' w where M': "mapping_executeWithCorrectMask Mi = Inr (M', w)" "mapping_wf M'" "mapping_bits M' = bits_of s"
    "NodeParametersToNodeType (class_of M') w \<noteq> None" "length (mapping_positions M') \<le> w"
    using execute_law [OF Mi(2)] Mi(3) PNode by auto
  let ?ps' = "mapping_positions M'"
  define n0 :: "'a HOTSingleThreadedNode" where
    "n0 = \<lparr> mHeight = mHeight n, mUsedEntriesMask = mask ?N,
            mDiscriminativeBitsRepresentation = M', key_width = w, mEntries = map (\<lambda>e. e AND mask w) (fst mem), mPointers = snd mem \<rparr>"
  have base: "Node_base mem (mHeight n) ?N M' w = Inr n0"
    unfolding n0_def by (rule Node_base_eq) (use N d(9) in simp_all)
  have num: "getNumberEntries n0 = ?N" using N d(9) by (simp add: n0_def getNumberEntries_def popcnt_mask)
  have room: "?N \<le> length (mEntries n0)" "?N \<le> length (mPointers n0)"
    using mem N d(9) by (simp_all add: memory_ok_def n0_def)
  then have roomy: "roomy n0" "roomy n" using d(9,10,12,14) by (simp_all add: roomy_def num)
  have "\<exists>n'. rfold (\<lambda>j. copy_entry n (\<lambda>e. pext e (key_word ?ps (bits_of s))) (a + j) (0 + j)) [0..<?N] n0 = Inr n' \<and>
      holds ({} \<union> {0..<0 + ?N}) (sparse_keys ?ps' s) (leaves s) n0 n'"
  proof (rule holds_copies [OF holds_start roomy])
    fix j assume j: "j < ?N"
    show "sparse_keys ?ps' s ! (0 + j) = pext (mEntries n ! (a + j)) (key_word ?ps (bits_of s)) AND mask (key_width n0)"
      using j compressed_key(2) [OF wf st M'(2,3) j] key_word_trunc [OF M'(5)] by (simp add: sparse_keys_def n0_def)
    have "mPointers n ! (a + j) = take (length (leaves t)) (mPointers n) ! (a + j)" using j N(2) by simp
    then show "leaves s ! (0 + j) = mPointers n ! (a + j)" unfolding d(16) using st j by (simp add: subtrie_def)
  qed (use N num d(10) in simp_all)
  then obtain n' where n': "compressRangeIntoNewNode n (key_word ?ps (bits_of s)) a 0 ?N n0 = Inr n'"
    "holds {..<?N} (sparse_keys ?ps' s) (leaves s) n0 n'"
    by (auto simp: compressRangeIntoNewNode_def atLeast0LessThan)
  have "n' = filled n0 (sparse_keys ?ps' s) (leaves s)" by (rule holds_filled [OF n'(2)]) (use room in simp_all)
  moreover have "node_wf (filled n0 (sparse_keys ?ps' s) (leaves s)) s"
    unfolding n0_def by (rule filled_wf) (use M' N d(9) mem in simp_all)
  moreover have "set_entry 0 0 (filled n0 (sparse_keys ?ps' s) (leaves s)) = Inr (filled n0 (sparse_keys ?ps' s) (leaves s))"
    by (rule zero_first) (use sparse_keys_first num in simp_all)
  ultimately show ?thesis
    using subtrie_relevant [OF wf st] Mi(1) M'(1) N(1) base n'(1) PNode
    by (simp add: compressEntries_def extractAndExecuteWithCorrectMask_def Node_compress_def n0_def)
qed


section \<open>A node of two leaves\<close>

lemma two_entries_wf:
  assumes "k < 2048" "memory_ok 2 mem"
  shows "\<exists>n. createTwoEntriesNode mem (BiNode_of k h l r) = Inr n \<and> node_wf n (PNode k (PLeaf l) (PLeaf r)) \<and> mHeight n = h"
proof -
  have "dbit_for (DiscriminativeBit_at (of_nat k) 1) k" by (rule dbit_for_at [OF assms(1)])
  then obtain m where m: "SingleMask_bit (DiscriminativeBit_at (of_nat k) 1) = Inr m" "sm_wf m" "sm_bits m = {k}"
    by (rule SingleMask_bit_wf)
  let ?t = "PNode k (PLeaf l) (PLeaf r)"
  have "set (sm_positions m) = {k}" using m(3) by (simp add: sm_bits_def)
  moreover from this have "length (sm_positions m) = 1" using distinct_card [OF distinct_sm_positions, of m] by simp
  ultimately have ps: "sm_positions m = [k]" by (auto simp: length_Suc_conv)
  define n0 :: "'a HOTSingleThreadedNode" where
    "n0 = \<lparr> mHeight = h, mUsedEntriesMask = mask (length (leaves ?t)), mDiscriminativeBitsRepresentation = SingleMapping m,
            key_width = 8, mEntries = map (\<lambda>e. e AND mask 8) (fst mem), mPointers = snd mem \<rparr>"
  have base: "Node_base mem h 2 (SingleMapping m) 8 = Inr n0"
    using Node_base_eq [of 2 mem h "SingleMapping m" 8] by (simp add: n0_def numeral_2_eq_2)
  have num: "getNumberEntries n0 = 2" by (simp add: n0_def getNumberEntries_def popcnt_mask)
  have "2 \<le> length (mEntries n0)" "2 \<le> length (mPointers n0)" using assms(2) by (simp_all add: memory_ok_def n0_def)
  then obtain x y es p q qs where mem_eq: "mEntries n0 = x # y # es" "mPointers n0 = p # q # qs"
    by (auto simp: Suc_le_length_iff numeral_2_eq_2)
  have kw: "sparse_keys (mapping_positions (SingleMapping m)) ?t = [0, 1]"
  proof -
    have "key_word [k] {k} = 1" by (rule bit_word_eqI) (auto simp: word_bits bit_1_iff)
    then show ?thesis by (simp add: sparse_keys_def ps)
  qed
  have one: "(1 :: u32) AND mask 8 = 1" by (rule bit_word_eqI) (auto simp: bit_and_iff bit_mask_iff bit_1_iff)
  have "createTwoEntriesNode mem (BiNode_of k h l r) = Inr (filled n0 [0, 1] [l, r])"
    using base num mem_eq m(1) one
    by (simp add: createTwoEntriesNode_def BiNode_of_def set_entry_def set_pointer_def filled_def getNumberEntries_def n0_def)
  moreover have "node_wf (filled n0 (sparse_keys (mapping_positions (SingleMapping m)) ?t) (leaves ?t)) ?t"
    unfolding n0_def
  proof (rule filled_wf)
    show "NodeParametersToNodeType (class_of (SingleMapping m)) 8 \<noteq> None" unfolding node_types by simp
    show "bits_of ?t = mapping_bits (SingleMapping m)" using ps by (simp add: mapping_bits_def)
  qed (use m assms(2) ps in \<open>simp_all add: numeral_2_eq_2\<close>)
  ultimately show ?thesis unfolding kw by (simp add: n0_def)
qed

section \<open>Compressing a subtree and adding a leaf\<close>

lemma spliced_nth:
  assumes "s + c \<le> length xs"
  shows "j < s \<Longrightarrow> spliced side s c x f xs ! j = xs ! j"
    "j < c \<Longrightarrow> spliced side s c x f xs ! (s + of_bool (\<not> side) + j) = (if side then xs ! (s + j) else f (xs ! (s + j)))"
    "s + c + j < length xs \<Longrightarrow> spliced side s c x f xs ! (s + c + 1 + j) = xs ! (s + c + j)"
    "spliced side s c x f xs ! (s + of_bool side * c) = x"
  using assms by (auto simp: spliced_def nth_append add.assoc)

lemma conversion_for_mask:
  assumes wf: "node_wf n t" and st: "subtrie t a s pre"
    and Mi: "mapping_wf Mi" "mapping_bits Mi = bits_of s" and M': "mapping_wf M'" "mapping_bits M' = insert k (bits_of s)"
    and d: "dbit_for d k" and w: "length (mapping_positions M') \<le> key_width n0" "key_width n0 \<le> 32"
    and n0: "mDiscriminativeBitsRepresentation n0 = M'"
  shows "getConversionInformationForCompressionMask n0
      (key_word (mapping_positions (mDiscriminativeBitsRepresentation n)) (bits_of s)) d =
    Inr \<lparr> mAdditionalMask = key_word (mapping_positions M') {k}, mConversionMask = key_word (mapping_positions M') (bits_of s) \<rparr>"
proof -
  let ?c = "key_word (mapping_positions (mDiscriminativeBitsRepresentation n)) (bits_of s)"
  have sub: "bits_of s \<subseteq> bits_of t" using st by (simp add: subtrie_def)
  have "length (mapping_positions Mi) \<le> length (mapping_positions M')"
    using positions_length [OF Mi(1)] positions_length [OF M'(1)] Mi(2) M'(2) by (simp add: card_insert_if)
  then have v: "mapping_valid Mi" "mapping_valid M'" using Mi(1) M'(1) w by (simp_all add: mapping_valid_def)
  have "set (mapping_positions Mi) = bits_of s" using Mi(2) by (simp add: mapping_bits_def)
  then have "key_word (mapping_positions Mi) (bits_of s) = key_word (mapping_positions Mi) UNIV"
    by (intro key_word_cong) simp
  then have "mapping_getAllMaskBits Mi = Inr (pext ?c ?c)"
    using mapping_all_law [OF v(1)] compressed_key(1) [OF wf st Mi sub] by (simp add: key_word_UNIV)
  then have "getConversionInformationForCompressionMask n0 ?c d =
      getConversionInformation_node n0 (n0 \<lparr> mDiscriminativeBitsRepresentation := Mi \<rparr>) d"
    by (simp add: getConversionInformationForCompressionMask_def getConversionInformation_node_def)
  then show ?thesis
    using conversion_information [OF v _ d w(1) n0, of "n0 \<lparr> mDiscriminativeBitsRepresentation := Mi \<rparr>"] Mi(2) M'(2)
    by simp
qed


text \<open>The height of the half that gets the new entry.\<close>

definition added_height :: "('c \<Rightarrow> nat cxx) \<Rightarrow> 'c HOTSingleThreadedNode \<Rightarrow> 'c ptrie \<Rightarrow> nat" where
  "added_height getHeight n s =
     (case s of PLeaf u \<Rightarrow> (case getHeight u of Inl e \<Rightarrow> 0 | Inr h \<Rightarrow> u16nat (h + 1)) | PNode b l r \<Rightarrow> mHeight n)"

lemma compressEntriesAndAdd_wf:
  assumes wf: "node_wf n t" and st: "subtrie t a s pre" and i: "i < length (leaves s)" and room: "length (leaves s) \<le> 31"
    and d: "dbit_for d k" "mBitValue d \<in> {0, 1}" and ins: "insertable k i s"
    and mem: "memory_ok (Suc (length (leaves s))) mem" and h: "\<forall>c \<in> set (leaves s). \<exists>h. getHeight c = Inr h"
    and info: "info = \<lparr> mSubtreePrefixPartialKey =
        key_word (mapping_positions (mDiscriminativeBitsRepresentation n)) (paths {} t ! (a + i) \<inter> before k),
      mFirstIndexInAffectedSubtree = a + fst (subtree_range (before k) i s),
      mNumberEntriesInAffectedSubtree = snd (subtree_range (before k) i s), mKeyInformation = d \<rparr>"
  shows "\<exists>n'. compressEntriesAndAddOneEntryIntoNewNode getHeight mem n a (length (leaves s)) info v = Inr (Created n') \<and>
    node_wf n' (insert_leaf k (mBitValue d \<noteq> 0) v i s) \<and> mHeight n' = added_height getHeight n s"
proof (cases s)
  case (PLeaf u)
  then have u: "a < length (leaves t)" "leaves t ! a = u" "i = 0" using st i by (auto simp: subtrie_def)
  obtain hh where hh: "getHeight u = Inr hh" using h PLeaf by auto
  have k: "k < 2048" "unat (mAbsoluteBitIndex d) = k" using d(1) by (simp_all add: dbit_for_def)
  have "memory_ok 2 mem" using mem PLeaf by (simp add: numeral_2_eq_2)
  then obtain n' where "createTwoEntriesNode mem (BiNode_of k (u16nat (hh + 1)) (if mBitValue d \<noteq> 0 then u else v) (if mBitValue d \<noteq> 0 then v else u)) = Inr n'"
    "node_wf n' (PNode k (PLeaf (if mBitValue d \<noteq> 0 then u else v)) (PLeaf (if mBitValue d \<noteq> 0 then v else u)))"
    "mHeight n' = u16nat (hh + 1)"
    using two_entries_wf [OF k(1), of mem "u16nat (hh + 1)" "if mBitValue d \<noteq> 0 then u else v" "if mBitValue d \<noteq> 0 then v else u"]
    by blast
  then show ?thesis
    using PLeaf u hh k node_entry(2) [OF wf] info
    by (cases "mBitValue d \<noteq> 0")
      (simp_all add: compressEntriesAndAddOneEntryIntoNewNode_def createFromExistingAndNewEntry_def join_def added_height_def)
next
  case (PNode b l r)
  let ?M = "mDiscriminativeBitsRepresentation n" and ?N = "length (leaves s)" and ?side = "mBitValue d \<noteq> 0"
  let ?ps = "mapping_positions ?M" and ?t' = "insert_leaf k ?side v i s"
  let ?c = "key_word ?ps (bits_of s)"
  obtain s0 c0 where sc: "subtree_range (before k) i s = (s0, c0)" by fastforce
  have range: "s0 \<le> i" "i < s0 + c0" "s0 + c0 \<le> ?N" using subtree_range_bounds [OF i, of "before k"] sc by simp_all
  note wd = node_wfD [OF wf]
  have N: "1 < ?N" "a + ?N \<le> length (leaves t)" "ordered s" using PNode st leaves_pos [of l] leaves_pos [of r] by (auto simp: subtrie_def simp del: length_greater_0_conv)
  obtain Mi where Mi: "mapping_extract ?M ?c = Inr Mi" "mapping_wf Mi" "mapping_bits Mi = bits_of s"
    using restricted_mapping [OF wf st] PNode by auto
  have few: "card (bits_of s) \<le> 30" using card_bits_of [of s] room by simp
  obtain M1 where M1: "mapping_insert Mi d = Inr M1" "mapping_wf M1" "mapping_bits M1 = insert k (bits_of s)"
    using mapping_insert_adds [OF Mi(2) _ d(1)] few by (auto simp: Mi(3))
  have "length (mapping_positions M1) \<le> 32"
    using positions_length [OF M1(2)] few by (simp add: M1(3) card_insert_if)
  then obtain M' w where M': "mapping_executeWithCorrectMask M1 = Inr (M', w)" "mapping_wf M'" "mapping_bits M' = insert k (bits_of s)"
    "NodeParametersToNodeType (class_of M') w \<noteq> None" "length (mapping_positions M') \<le> w"
    using execute_law [OF M1(2)] M1(3) by auto
  let ?ps' = "mapping_positions M'"
  have w: "w \<in> {8, 16, 32}" by (rule node_type_width [OF M'(4)])
  then have le: "length ?ps' \<le> 32" "w \<le> 32" using M'(5) by auto
  define n0 :: "'a HOTSingleThreadedNode" where
    "n0 = \<lparr> mHeight = mHeight n, mUsedEntriesMask = mask (length (leaves ?t')),
            mDiscriminativeBitsRepresentation = M', key_width = w, mEntries = map (\<lambda>e. e AND mask w) (fst mem), mPointers = snd mem \<rparr>"
  have base: "Node_base mem (mHeight n) (Suc ?N) M' w = Inr n0"
    unfolding n0_def length_insert_leaf by (rule Node_base_eq) (use room in simp_all)
  have num: "getNumberEntries n0 = Suc ?N" using room by (simp add: n0_def getNumberEntries_def popcnt_mask)
  have room': "Suc ?N \<le> length (mEntries n0)" "Suc ?N \<le> length (mPointers n0)"
    using mem room by (simp_all add: memory_ok_def n0_def)
  then have roomy: "roomy n0" "roomy n" using wd(9,10,12,14) by (simp_all add: roomy_def num)
  have conv: "getConversionInformationForCompressionMask n0 ?c d =
      Inr \<lparr> mAdditionalMask = key_word ?ps' {k}, mConversionMask = key_word ?ps' (bits_of s) \<rparr>"
    by (rule conversion_for_mask [OF wf st Mi(2,3) M'(2,3) d(1)]) (use M'(5) le(2) in \<open>simp_all add: n0_def\<close>)
  define rec where "rec e = pdep (pext e ?c) (key_word ?ps' (bits_of s))" for e
  have sub: "mapping_bits Mi \<subseteq> mapping_bits M'" by (auto simp: Mi(3) M'(3))
  have rec0: "pdep (key_word (mapping_positions Mi) P) (key_word ?ps' (bits_of s)) = key_word ?ps' P" if "P \<subseteq> bits_of s" for P
    using recoded [OF Mi(2) M'(2) sub le(1), of P] that by (simp add: Mi(3))
  have path: "paths {} s ! j \<subseteq> bits_of s" if "j < ?N" for j
    using paths_bounds [OF nth_mem, of j "{}" s] that by simp
  have rec: "rec (mEntries n ! (a + j)) = key_word ?ps' (paths {} s ! j)" if "j < ?N" for j
    unfolding rec_def compressed_key(2) [OF wf st Mi(2,3) that] by (rule rec0 [OF path [OF that]])
  let ?Q = "paths {} s ! i \<inter> before k"
  have newkey: "rec (key_word ?ps (paths {} t ! (a + i) \<inter> before k)) = key_word ?ps' ?Q"
  proof -
    have "paths {} t ! (a + i) \<subseteq> bits_of t" using paths_bounds [OF nth_mem, of "a + i" "{}" t] i N(2) by simp
    then have "pext (key_word ?ps (paths {} t ! (a + i) \<inter> before k)) ?c =
        key_word (mapping_positions Mi) (paths {} t ! (a + i) \<inter> before k)"
      by (intro compressed_key(1) [OF wf st Mi(2,3)]) blast
    also have "\<dots> = key_word (mapping_positions Mi) ?Q"
      by (rule key_word_cong) (use st i Mi(3) in \<open>auto simp: subtrie_def mapping_bits_def\<close>)
    finally show ?thesis using rec0 [of ?Q] path [OF i] by (simp add: rec_def le_infI1)
  qed
  let ?es = "sparse_keys ?ps' ?t'" and ?ls = "leaves ?t'"
  have ls: "?ls = spliced ?side s0 c0 v id (leaves s)" using leaves_insert_leaf [OF i, of k ?side v] sc by simp
  have ps: "paths {} ?t' = spliced ?side s0 c0 (?Q \<union> (if ?side then {k} else {})) (insert k) (paths {} s)"
    using paths_insert_leaf [OF i N(3) ins, of "{}" ?side v] sc by simp
  have tr: "key_word ?ps' P AND mask w = key_word ?ps' P" for P by (rule key_word_trunc [OF M'(5)])
  have es: "?es ! j = key_word ?ps' (paths {} ?t' ! j)" if "j < Suc ?N" for j using that by (simp add: sparse_keys_def)
  have rp: "s0 + c0 \<le> length (paths {} s)" "s0 + c0 \<le> length (leaves s)" using range by simp_all
  note sp = spliced_nth [OF rp(1), where side = ?side and x = "?Q \<union> (if ?side then {k} else {})" and f = "insert k", folded ps]
  note sl = spliced_nth [OF rp(2), where side = ?side and x = v and f = id, folded ls]
  have ptr: "mPointers n ! (a + j) = leaves s ! j" if "j < ?N" for j
  proof -
    have "mPointers n ! (a + j) = take (length (leaves t)) (mPointers n) ! (a + j)" using that N(2) by simp
    then show ?thesis unfolding wd(16) using st that by (simp add: subtrie_def)
  qed
  have kw: "key_width n0 = w" by (simp add: n0_def)
  let ?nb = "of_bool (\<not> ?side) :: nat" and ?add = "if ?side then 0 else key_word ?ps' {k}"
  have "\<exists>n1. rfold (\<lambda>j. copy_entry n rec (a + j) (0 + j)) [0..<s0] n0 = Inr n1 \<and> holds ({} \<union> {0..<0 + s0}) ?es ?ls n0 n1"
    by (rule holds_copies [OF holds_start roomy])
      (use range N num wd(10) es sp(1) sl(1) rec ptr tr kw in simp_all)
  then obtain n1 where n1: "rfold (\<lambda>j. copy_entry n rec (a + j) j) [0..<s0] n0 = Inr n1" "holds {0..<s0} ?es ?ls n0 n1" by auto
  have "\<exists>n2. rfold (\<lambda>j. copy_entry n (\<lambda>e. rec e OR ?add) (a + s0 + j) (s0 + ?nb + j)) [0..<c0] n1 = Inr n2 \<and>
      holds ({0..<s0} \<union> {s0 + ?nb..<s0 + ?nb + c0}) ?es ?ls n0 n2"
  proof (rule holds_copies [OF n1(2) roomy])
    fix j assume j: "j < c0"
    have "s0 + ?nb + j < Suc ?N" using j range by (cases ?side) simp_all
    then show "?es ! (s0 + ?nb + j) = (rec (mEntries n ! (a + s0 + j)) OR ?add) AND mask (key_width n0)"
      using j range rec [of "s0 + j"] tr kw es sp(2) [OF j] by (cases ?side) (simp_all add: key_word_or add.assoc)
    show "?ls ! (s0 + ?nb + j) = mPointers n ! (a + s0 + j)"
      using j range ptr [of "s0 + j"] sl(2) [OF j] by (cases ?side) (simp_all add: add.assoc)
  qed (use range N num wd(10) in simp_all)
  then obtain n2 where n2: "rfold (\<lambda>j. copy_entry n (\<lambda>e. rec e OR ?add) (a + s0 + j) (s0 + ?nb + j)) [0..<c0] n1 = Inr n2"
    "holds ({0..<s0} \<union> {s0 + ?nb..<s0 + ?nb + c0}) ?es ?ls n0 n2" by blast
  have "\<exists>n3. rfold (\<lambda>j. copy_entry n rec (a + (s0 + c0) + j) (s0 + c0 + 1 + j)) [0..<?N - (s0 + c0)] n2 = Inr n3 \<and>
      holds ({0..<s0} \<union> {s0 + ?nb..<s0 + ?nb + c0} \<union> {s0 + c0 + 1..<s0 + c0 + 1 + (?N - (s0 + c0))}) ?es ?ls n0 n3"
  proof (rule holds_copies [OF n2(2) roomy])
    fix j assume j: "j < ?N - (s0 + c0)"
    then have j': "s0 + c0 + j < ?N" by simp
    then show "?es ! (s0 + c0 + 1 + j) = rec (mEntries n ! (a + (s0 + c0) + j)) AND mask (key_width n0)"
      using rec [OF j'] tr kw es [of "s0 + c0 + 1 + j"] sp(3) [of j] by (simp add: add.assoc)
    show "?ls ! (s0 + c0 + 1 + j) = mPointers n ! (a + (s0 + c0) + j)"
      using j' ptr [OF j'] sl(3) [of j] by (simp add: add.assoc)
  qed (use range N num wd(10) in simp_all)
  then obtain n3 where n3: "rfold (\<lambda>j. copy_entry n rec (a + (s0 + c0) + j) (s0 + c0 + 1 + j)) [0..<?N - (s0 + c0)] n2 = Inr n3"
    "holds ({0..<s0} \<union> {s0 + ?nb..<s0 + ?nb + c0} \<union> {s0 + c0 + 1..<s0 + c0 + 1 + (?N - (s0 + c0))}) ?es ?ls n0 n3" by blast
  let ?new = "s0 + of_bool ?side * c0" and ?key = "key_word ?ps' ?Q OR (if ?side then key_word ?ps' {k} else 0)"
  have "\<exists>n4. put_entry ?new ?key v n3 = Inr n4 \<and> holds (insert ?new ({0..<s0} \<union> {s0 + ?nb..<s0 + ?nb + c0} \<union>
      {s0 + c0 + 1..<s0 + c0 + 1 + (?N - (s0 + c0))})) ?es ?ls n0 n4"
  proof (rule holds_put [OF n3(2) roomy(1)])
    have lt: "?new < Suc ?N" using range by (cases ?side) simp_all
    then show "?new < getNumberEntries n0" by (simp add: num)
    show "?es ! ?new = ?key AND mask (key_width n0)"
      unfolding es [OF lt] sp(4) kw using tr by (cases ?side) (simp_all add: key_word_or)
    show "?ls ! ?new = v" by (rule sl(4))
  qed
  moreover have "insert ?new ({0..<s0} \<union> {s0 + ?nb..<s0 + ?nb + c0} \<union> {s0 + c0 + 1..<s0 + c0 + 1 + (?N - (s0 + c0))}) = {..<Suc ?N}"
    using range by (cases ?side) auto
  ultimately obtain n4 where n4: "put_entry ?new ?key v n3 = Inr n4" "holds {..<Suc ?N} ?es ?ls n0 n4" by auto
  have n4f: "n4 = filled n0 ?es ?ls" by (rule holds_filled [OF n4(2)]) (use room' in simp_all)
  have zero: "set_entry 0 0 n4 = Inr n4"
    unfolding n4f by (rule zero_first) (use sparse_keys_first num in simp_all)
  have res: "node_wf n4 ?t'"
    unfolding n4f n0_def by (rule filled_wf) (use M' N ordered_insert_leaf [OF N(3) ins] mem room in simp_all)
  have bv: "unat (mBitValue d) = of_bool ?side" "sub32 1 (of_bool ?side) = ?nb"
    "\<And>x :: u32. of_nat (of_bool ?side) * x = (if ?side then x else 0)" "\<And>x :: u32. x * of_nat ?nb = (if ?side then 0 else x)"
    using d(2) by auto
  have num32: "sub32 (a + s0) a = s0" "sub32 ?N (s0 + c0) = ?N - (s0 + c0)" "u16nat (?N + 1) = Suc ?N"
    using range room N(2) wd(9) by simp_all
  have fields: "getFirstIndexInAffectedSubtree info = a + s0" "getNumberEntriesInAffectedSubtree info = c0" "mKeyInformation info = d"
    "mSubtreePrefixPartialKey info = key_word ?ps (paths {} t ! (a + i) \<inter> before k)"
    unfolding info by (simp_all add: sc getFirstIndexInAffectedSubtree_def getNumberEntriesInAffectedSubtree_def)
  have ctor: "Node_compress_insert mem n (Suc ?N) M' w ?c a ?N info v = Inr n4"
    unfolding Node_compress_insert_def base rbind_simps Let_def fields bv num32 conv
      PartialKeyConversionInformation.simps rec_def [symmetric] newkey n1(1) n2(1) n3(1) n4(1) zero ..
  show ?thesis
    unfolding compressEntriesAndAddOneEntryIntoNewNode_def fields subtrie_relevant [OF wf st] rbind_simps num32
      extractAndAddAndExecuteWithCorrectMask_def Mi(1) M1(1) M'(1) prod.case ctor
    using N(1) res PNode by (simp add: added_height_def n4f n0_def)
qed


section \<open>Splitting\<close>

lemma larger_entries:
  assumes wf: "node_wf n (PNode b l r)"
  obtains m where "getMaskForLargerEntries n = Inr m" "popcnt m = length (leaves r)"
proof -
  let ?t = "PNode b l r" and ?M = "mDiscriminativeBitsRepresentation n"
  let ?ps = "mapping_positions ?M" and ?n = "length (leaves l)"
  note d = node_wfD [OF wf]
  have lt: "b < c" if "c \<in> bits_of l \<union> bits_of r" for c using d(8) that by simp
  have "Min (mapping_bits ?M) = b"
    using lt unfolding d(18) [symmetric] by (intro Min_eqI) (auto intro: less_imp_le)
  then have h: "mapping_getMaskForHighestBit ?M = Inr (key_word ?ps {b})"
    using mapping_highest_law [OF d(2)] by (simp add: key_word_def)
  let ?m = "entry_mask (\<lambda>e. e AND key_word ?ps {b} = key_word ?ps {b}) (mEntries n)"
  have p: "keys_findMasksByPattern (key_width n) (mEntries n) (key_word ?ps {b}) = Inr ?m"
    by (rule keys_pattern_law [OF d(3,13,12) key_word_trunc [OF d(4)]])
  have b: "b \<in> set ?ps" using d(7) by auto
  have in_path: "b \<in> paths {} ?t ! j \<longleftrightarrow> ?n \<le> j" if "j < length (leaves ?t)" for j
  proof (cases "j < ?n")
    case True
    then have "paths {} ?t ! j \<in> set (paths {} l)" by (simp add: nth_append)
    with True lt show ?thesis using paths_bounds by fastforce
  next
    case False
    then have "paths {} ?t ! j \<in> set (paths {b} r)" using that by (simp add: nth_append)
    with False show ?thesis using paths_bounds by fastforce
  qed
  have hit: "key_word ?ps (P \<inter> {b}) = key_word ?ps {b} \<longleftrightarrow> b \<in> P" for P
  proof
    assume eq: "key_word ?ps (P \<inter> {b}) = key_word ?ps {b}"
    have "index_in b ?ps \<in> {k. bit (key_word ?ps {b}) k}" using index_bits [OF d(6,5), of "{b}"] b by simp
    then have "bit (key_word ?ps (P \<inter> {b})) (index_in b ?ps)" using eq by simp
    then show "b \<in> P" using index_in_nth [OF b] by (simp add: word_bits)
  next
    assume "b \<in> P"
    then have "P \<inter> {b} = {b}" by blast
    then show "key_word ?ps (P \<inter> {b}) = key_word ?ps {b}" by simp
  qed
  have bits: "bit (?m AND mUsedEntriesMask n) j \<longleftrightarrow> ?n \<le> j \<and> j < ?n + length (leaves r)" for j
  proof (cases "j < length (leaves ?t)")
    case True
    then have "mEntries n ! j AND key_word ?ps {b} = key_word ?ps {b} \<longleftrightarrow> ?n \<le> j"
      using node_entry(3) [OF wf True] in_path [OF True] hit by (simp add: key_word_and)
    then show ?thesis using True d(9,11,12) by (simp add: bit_and_iff bit_mask_iff word_bits)
  qed (use d(11) in \<open>simp add: bit_and_iff bit_mask_iff\<close>)
  have "getMaskForLargerEntries n = Inr (?m AND mUsedEntriesMask n)"
    by (simp add: getMaskForLargerEntries_def h p)
  moreover have "popcnt (?m AND mUsedEntriesMask n) = length (leaves r)"
    by (rule range_word(3) [OF bits]) (rule leaves_pos)
  ultimately show thesis by (rule that)
qed

lemma memory_ok_mono: "memory_ok N mem \<Longrightarrow> N' \<le> N \<Longrightarrow> memory_ok N' mem"
  by (simp add: memory_ok_def)

lemma split_wf:
  assumes wf: "node_wf n (PNode b l r)" and i: "i < length (leaves (PNode b l r))" and d: "dbit_for d k" "mBitValue d \<in> {0, 1}"
    and reach: "mapping_reach (mDiscriminativeBitsRepresentation n) k" and ins: "insertable k i (PNode b l r)" and bk: "b < k"
    and mem: "memory_ok 32 mem1" "memory_ok 32 mem2"
    and h: "\<forall>c \<in> set (leaves (PNode b l r)). \<exists>h. getHeight c = Inr h"
  shows "\<exists>info L R. getInsertInformation undef n i d = Inr info \<and>
    split getHeight mem1 mem2 n info v = Inr (BiNode_of b (u16nat (mHeight n + 1)) L R) \<and>
    (if i < length (leaves l)
     then (\<exists>n'. L = Created n' \<and> node_wf n' (insert_leaf k (mBitValue d \<noteq> 0) v i l) \<and> mHeight n' = added_height getHeight n l) \<and>
       represents R r \<and> (\<forall>n'. R = Created n' \<longrightarrow> mHeight n' = mHeight n)
     else represents L l \<and> (\<forall>n'. L = Created n' \<longrightarrow> mHeight n' = mHeight n) \<and>
       (\<exists>n'. R = Created n' \<and> node_wf n' (insert_leaf k (mBitValue d \<noteq> 0) v (i - length (leaves l)) r) \<and>
         mHeight n' = added_height getHeight n r))"
proof -
  let ?t = "PNode b l r" and ?M = "mDiscriminativeBitsRepresentation n" and ?n = "length (leaves l)" and ?c = "length (leaves r)"
  note wd = node_wfD [OF wf]
  have ord: "ordered ?t" by (rule wd(8))
  note sl = subtrie_left [OF ord] and sr = subtrie_right [OF ord]
  have len: "?n + ?c \<le> 32" "0 < ?n" "0 < ?c" using wd(9) by simp_all
  obtain m where m: "getMaskForLargerEntries n = Inr m" "popcnt m = ?c" by (rule larger_entries [OF wf])
  have small: "getNumberEntries n - length (leaves r) = ?n" using wd(10) by simp
  have "Min (mapping_bits ?M) = b"
    using ord unfolding wd(18) [symmetric] by (intro Min_eqI) (auto intro: less_imp_le)
  then have root: "mapping_mostSignificantIndex ?M = b" using mapping_most_law [OF wd(1)] by simp
  obtain info where info: "getInsertInformation undef n i d = Inr info"
    "info = \<lparr> mSubtreePrefixPartialKey = key_word (mapping_positions ?M) (paths {} ?t ! i \<inter> before k),
      mFirstIndexInAffectedSubtree = fst (subtree_range (before k) i ?t),
      mNumberEntriesInAffectedSubtree = snd (subtree_range (before k) i ?t), mKeyInformation = d \<rparr>"
    using insert_information [OF wf i d(1) reach] by blast
  have first: "mFirstIndexInAffectedSubtree info = fst (subtree_range (before k) i ?t)" unfolding info(2) by simp
  have hl: "\<forall>c \<in> set (leaves l). \<exists>h. getHeight c = Inr h" and hr: "\<forall>c \<in> set (leaves r). \<exists>h. getHeight c = Inr h"
    using h by simp_all
  show ?thesis
  proof (cases "i < ?n")
    case True
    have range: "subtree_range (before k) i ?t = subtree_range (before k) i l" using bk True by simp
    have lt: "fst (subtree_range (before k) i l) < ?n" using subtree_range_bounds [OF True, of "before k"] True by (simp add: split_beta)
    obtain n' where L: "compressEntriesAndAddOneEntryIntoNewNode getHeight mem1 n 0 ?n info v = Inr (Created n')"
      "node_wf n' (insert_leaf k (mBitValue d \<noteq> 0) v i l)" "mHeight n' = added_height getHeight n l"
      using compressEntriesAndAdd_wf [OF wf sl True _ d _ memory_ok_mono [OF mem(1)] hl, where info = info and v = v] len ins bk True info(2)
      unfolding range by auto
    obtain R where R: "compressEntries mem2 n ?n ?c = Inr R" "represents R r" "\<forall>n'. R = Created n' \<longrightarrow> mHeight n' = mHeight n"
      using compressEntries_wf [OF wf sr memory_ok_mono [OF mem(2)]] len by auto
    have "split getHeight mem1 mem2 n info v = Inr (BiNode_of b (u16nat (mHeight n + 1)) (Created n') R)"
      using lt first [unfolded range] L(1) R(1) by (simp add: split_def m small Let_def root)
    then show ?thesis using info(1) L(2,3) R(2,3) unfolding if_P [OF True] by blast
  next
    case False
    then have i': "i - ?n < ?c" using i by simp
    have range: "subtree_range (before k) i ?t = (?n + fst (subtree_range (before k) (i - ?n) r), snd (subtree_range (before k) (i - ?n) r))"
      using bk False by (simp add: map_prod_def split_beta)
    obtain L where L: "compressEntries mem1 n 0 ?n = Inr L" "represents L l" "\<forall>n'. L = Created n' \<longrightarrow> mHeight n' = mHeight n"
      using compressEntries_wf [OF wf sl memory_ok_mono [OF mem(1)]] len by auto
    obtain n' where R: "compressEntriesAndAddOneEntryIntoNewNode getHeight mem2 n ?n ?c info v = Inr (Created n')"
      "node_wf n' (insert_leaf k (mBitValue d \<noteq> 0) v (i - ?n) r)" "mHeight n' = added_height getHeight n r"
      using compressEntriesAndAdd_wf [OF wf sr i' _ d _ memory_ok_mono [OF mem(2)] hr, where info = info and v = v] len ins bk False info(2)
      unfolding range by auto
    have "split getHeight mem1 mem2 n info v = Inr (BiNode_of b (u16nat (mHeight n + 1)) L (Created n'))"
      using first [unfolded range] L(1) R(1) by (simp add: split_def m small Let_def root)
    then show ?thesis using info(1) L(2,3) R(2,3) unfolding if_not_P [OF False] by blast
  qed
qed


section \<open>What splitting promises\<close>

text \<open>Compressing the entries of a subtree yields a node for exactly that subtree, of a kind that fits
  the bits it still needs, or the child itself when the subtree is a single leaf.\<close>
theorem compress_entries_subtree:
  assumes "node_wf n t" and "subtrie t a s pre" and "memory_ok (length (leaves s)) mem"
  shows "\<exists>res. compressEntries mem n a (length (leaves s)) = Inr res \<and> represents res s \<and>
    (\<forall>n'. res = Created n' \<longrightarrow> mHeight n' = mHeight n)"
  using assms by (rule compressEntries_wf)

text \<open>C9: Splitting a node, a full one included, implements inserting the leaf into its trie and
  cutting the result at the root: it never fails, the binary node tests the root bit one level higher, and
  its two sides are nodes (or single children) for the two subtrees, one of them with the new leaf.\<close>
theorem split_inserts_and_cuts:
  assumes "node_wf n (PNode b l r)" and "i < length (leaves (PNode b l r))" and "dbit_for d k" and "mBitValue d \<in> {0, 1}"
    and "mapping_reach (mDiscriminativeBitsRepresentation n) k" and "insertable k i (PNode b l r)" and "b < k"
    and "memory_ok 32 mem1" and "memory_ok 32 mem2"
    and "\<forall>c \<in> set (leaves (PNode b l r)). \<exists>h. getHeight c = Inr h"
  shows "\<exists>info B L R. getInsertInformation undef n i d = Inr info \<and> split getHeight mem1 mem2 n info v = Inr B \<and>
    insert_leaf k (mBitValue d \<noteq> 0) v i (PNode b l r) = PNode b L R \<and>
    represents (bi_mLeft B) L \<and> represents (bi_mRight B) R \<and>
    bi_mDiscriminativeBitIndex B = b \<and> bi_mHeight B = u16nat (mHeight n + 1)"
  using split_wf [OF assms, of undef v] assms(7) by (fastforce simp: BiNode_of_def split: if_splits)

section \<open>Witnesses\<close>

text \<open>A node of three entries: bit 10, and bit 30 on its right side.\<close>

definition example_node3 :: "nat HOTSingleThreadedNode" where
  "example_node3 = \<lparr> mHeight = 1, mUsedEntriesMask = 7,
     mDiscriminativeBitsRepresentation = SingleMapping
       \<lparr> mMostSignificantDiscriminativeBitIndex = 10, mLeastSignificantDiscriminativeBitIndex = 30,
         mOffsetInBytes = 0, mSuccessiveExtractionMask = 0x02002000 \<rparr>,
     key_width = 8, mEntries = [0, 1, 3] @ replicate 29 0xFF, mPointers = [7, 9, 11] \<rparr>"

definition example_trie3 :: "nat ptrie" where
  "example_trie3 = PNode 10 (PLeaf 7) (PNode 30 (PLeaf 9) (PLeaf 11))"

lemma example3_wf: "node_wf example_node3 example_trie3"
  by code_simp

lemma example3_facts:
  "insertable 20 2 example_trie3" "dbit_for (DiscriminativeBit_at 20 1) 20" "mBitValue (DiscriminativeBit_at 20 1) \<in> {0, 1}"
  "mapping_reach (mDiscriminativeBitsRepresentation example_node3) 20" "memory_ok 32 (replicate 32 0, replicate 32 (0 :: nat))"
  using dbit_for_at [of 20 1] by (simp_all add: example_trie3_def example_node3_def memory_ok_def DiscriminativeBit_at_def)

theorem compress_entries_subtree_witness:
  "\<exists>n'. compressEntries (replicate 32 0, replicate 32 0) example_node3 1 2 = Inr (Created n') \<and>
    node_wf n' (PNode 30 (PLeaf 9) (PLeaf 11)) \<and> mHeight n' = 1"
proof -
  have st: "subtrie example_trie3 1 (PNode 30 (PLeaf 9) (PLeaf 11)) {10}"
    using subtrie_right [of 10 "PLeaf 7" "PNode 30 (PLeaf 9) (PLeaf 11)"] by (simp add: example_trie3_def)
  obtain res where "compressEntries (replicate 32 0, replicate 32 0) example_node3 1 2 = Inr res"
    "represents res (PNode 30 (PLeaf 9) (PLeaf 11))" "\<forall>n'. res = Created n' \<longrightarrow> mHeight n' = mHeight example_node3"
    using compress_entries_subtree [OF example3_wf st, of "(replicate 32 0, replicate 32 0)"]
    by (auto simp: memory_ok_def numeral_2_eq_2)
  then show ?thesis by (cases res) (auto simp: example_node3_def)
qed

theorem split_inserts_and_cuts_witness:
  "\<exists>info B n'. getInsertInformation 0 example_node3 2 (DiscriminativeBit_at 20 1) = Inr info \<and>
    split (\<lambda>_. Inr 0) (replicate 32 0, replicate 32 0) (replicate 32 0, replicate 32 0) example_node3 info 13 = Inr B \<and>
    bi_mLeft B = Existing 7 \<and> bi_mRight B = Created n' \<and>
    node_wf n' (PNode 20 (PNode 30 (PLeaf 9) (PLeaf 11)) (PLeaf 13)) \<and> bi_mHeight B = 2"
proof -
  let ?mem = "(replicate 32 0, replicate 32 0)"
  obtain info B L R where B: "getInsertInformation 0 example_node3 2 (DiscriminativeBit_at 20 1) = Inr info"
    "split (\<lambda>_. Inr 0) ?mem ?mem example_node3 info 13 = Inr B"
    "insert_leaf 20 (mBitValue (DiscriminativeBit_at 20 1) \<noteq> 0) 13 2 example_trie3 = PNode 10 L R"
    "represents (bi_mLeft B) L" "represents (bi_mRight B) R" "bi_mHeight B = u16nat (mHeight example_node3 + 1)"
    using split_inserts_and_cuts [OF example3_wf [unfolded example_trie3_def] _ example3_facts(2,3,4) example3_facts(1) [unfolded example_trie3_def]
      _ example3_facts(5,5), of "\<lambda>_. Inr 0" 0 13]
    by (auto simp: example_trie3_def)
  have LR: "L = PLeaf 7" "R = PNode 20 (PNode 30 (PLeaf 9) (PLeaf 11)) (PLeaf 13)"
    using B(3) by (simp_all add: example_trie3_def join_def DiscriminativeBit_at_def)
  have "bi_mLeft B = Existing 7" using B(4) LR(1) by (cases "bi_mLeft B") simp_all
  moreover obtain n' where "bi_mRight B = Created n'" "node_wf n' R" using B(5) LR(2) by (cases "bi_mRight B") auto
  ultimately show ?thesis using B LR(2) by (auto simp: example_node3_def)
qed

end
