(* ===== verification/Memory_Pool.thy ===== *)
theory Memory_Pool
  imports Cxx_Prelude "HOL-Library.Multiset"
begin

text \<open>
  \<open>src/hot/single-threaded/include/hot/singlethreaded/MemoryPool.hpp\<close>: the pool that the nodes of the
  tree are allocated from.  For every size it keeps a list of the blocks given back; a block on a list
  holds its successor and the length of the list behind it, so a list is modelled by the addresses of
  its blocks.  The system's \<open>posix_memalign\<close> is the argument \<open>memalign\<close>, a function of the addresses in
  use, the alignment and the size; \<open>live\<close> are the addresses the program holds.
\<close>

unbundle bit_operations_syntax

section \<open>The pool\<close>

definition EVICTION_BEGIN_SIZE :: nat where
  "EVICTION_BEGIN_SIZE = 200"

definition EVICTION_END_SIZE :: nat where
  "EVICTION_END_SIZE = EVICTION_BEGIN_SIZE div 2"

definition SIZE_BEFORE_EVICTION_BEGIN_SIZE :: nat where
  "SIZE_BEFORE_EVICTION_BEGIN_SIZE = EVICTION_BEGIN_SIZE - 1"

definition ELEMENT_SIZE :: nat where
  "ELEMENT_SIZE = 8"

record MemoryPool =
  mFreeLists :: "u64 list list"
  mNumberAllocations :: u64
  mNumberFrees :: u64

definition MemoryPool0 :: "nat \<Rightarrow> MemoryPool" where
  "MemoryPool0 NUMBER_LISTS = \<lparr> mFreeLists = replicate NUMBER_LISTS [], mNumberAllocations = 0, mNumberFrees = 0 \<rparr>"

definition getListSize :: "u64 list \<Rightarrow> nat" where
  "getListSize freeList = length freeList"

text \<open>The index of the array of lists; sizes without a list are out of its bounds.\<close>

definition numberElementsToFreeListId :: "MemoryPool \<Rightarrow> nat \<Rightarrow> nat cxx" where
  "numberElementsToFreeListId P numberElements =
     (if 0 < numberElements \<and> numberElements \<le> length (mFreeLists P) then Inr (numberElements - 1) else Inl UB_Index)"

definition pooled :: "MemoryPool \<Rightarrow> u64 list" where
  "pooled P = concat (mFreeLists P)"

definition alloc ::
  "(u64 set \<Rightarrow> nat \<Rightarrow> nat \<Rightarrow> u64 option) \<Rightarrow> u64 set \<Rightarrow> nat \<Rightarrow> MemoryPool \<Rightarrow> (u64 \<times> MemoryPool) cxx" where
  "alloc memalign live numberElements P =
     rbind (numberElementsToFreeListId P numberElements) (\<lambda>i.
       let head = mFreeLists P ! i
       in if getListSize head = 0
          then case memalign (live \<union> set (pooled P)) ELEMENT_SIZE (numberElements * ELEMENT_SIZE) of
                 None \<Rightarrow> Inl Bad_Alloc
               | Some rawMemory \<Rightarrow> Inr (rawMemory, P \<lparr> mNumberAllocations := mNumberAllocations P + 1 \<rparr>)
          else Inr (hd head, P \<lparr> mFreeLists := (mFreeLists P) [i := tl head] \<rparr>))"

text \<open>Freeing the first blocks of a list until \<open>n\<close> are left.\<close>

definition freeEntry :: "u64 list \<times> u64 \<Rightarrow> u64 list \<times> u64" where
  "freeEntry = (\<lambda>(head, numberFrees). (tl head, numberFrees + 1))"

function free_down_to :: "nat \<Rightarrow> u64 list \<times> u64 \<Rightarrow> u64 list \<times> u64" where
  "free_down_to n (head, numberFrees) =
     (if getListSize head > n then free_down_to n (freeEntry (head, numberFrees)) else (head, numberFrees))"
  by pat_completeness auto
termination
  by (relation "measure (\<lambda>(n, s). length (fst s))") (auto simp: freeEntry_def getListSize_def)

definition returnToPool :: "nat \<Rightarrow> u64 \<Rightarrow> MemoryPool \<Rightarrow> MemoryPool cxx" where
  "returnToPool numberElements rawMemory P =
     rbind (numberElementsToFreeListId P numberElements) (\<lambda>i.
       let head = mFreeLists P ! i
       in if getListSize head < SIZE_BEFORE_EVICTION_BEGIN_SIZE
          then Inr (P \<lparr> mFreeLists := (mFreeLists P) [i := rawMemory # head] \<rparr>)
          else let (head', numberFrees) = free_down_to EVICTION_END_SIZE (head, mNumberFrees P + 1)
               in Inr (P \<lparr> mFreeLists := (mFreeLists P) [i := head'], mNumberFrees := numberFrees \<rparr>))"

text \<open>The destructor empties every list.\<close>

definition MemoryPool_destroy :: "MemoryPool \<Rightarrow> MemoryPool" where
  "MemoryPool_destroy P =
     fold (\<lambda>i P. let (head', numberFrees) = free_down_to 0 (mFreeLists P ! i, mNumberFrees P)
                 in P \<lparr> mFreeLists := (mFreeLists P) [i := head'], mNumberFrees := numberFrees \<rparr>)
       [0..<length (mFreeLists P)] P"

section \<open>Freeing\<close>

lemma free_down_to_drop:
  "free_down_to n (head, f) = (drop (length head - n) head, f + of_nat (length head - n))"
proof (induction "length head - n" arbitrary: head f)
  case 0
  then show ?case by (simp add: getListSize_def)
next
  case (Suc k)
  then have more: "n < length head" by simp
  then obtain a rest where head: "head = a # rest" by (cases head) auto
  have "free_down_to n (head, f) = free_down_to n (rest, f + 1)"
    using more by (simp add: getListSize_def freeEntry_def head)
  also have "\<dots> = (drop (length rest - n) rest, f + 1 + of_nat (length rest - n))"
    using Suc.hyps(1) [of rest "f + 1"] Suc.hyps(2) head by simp
  finally show ?case using more by (simp add: head Suc_diff_le drop_Cons')
qed

section \<open>The invariant\<close>

text \<open>What the program may rely on of the system's allocator: a new address that is not null and, as in the
  C library the code is built with, a multiple of 16 in the lower half of the address space.\<close>

definition usable_address :: "u64 \<Rightarrow> bool" where
  "usable_address a \<longleftrightarrow> a \<noteq> 0 \<and> a AND 15 = 0 \<and> \<not> bit a 63 \<and> \<not> bit a 62"

definition allocator_ok :: "(u64 set \<Rightarrow> nat \<Rightarrow> nat \<Rightarrow> u64 option) \<Rightarrow> bool" where
  "allocator_ok memalign \<longleftrightarrow> (\<forall>A n s a. memalign A n s = Some a \<longrightarrow> a \<notin> A \<and> usable_address a)"

text \<open>The blocks on the lists and those in use are different, no list grows without bound, and the two
  counters account for every block.\<close>

definition pool_wf :: "u64 set \<Rightarrow> MemoryPool \<Rightarrow> bool" where
  "pool_wf live P \<longleftrightarrow> distinct (pooled P) \<and> set (pooled P) \<inter> live = {} \<and>
     (\<forall>l \<in> set (mFreeLists P). length l \<le> SIZE_BEFORE_EVICTION_BEGIN_SIZE) \<and>
     (\<forall>a \<in> live \<union> set (pooled P). usable_address a) \<and> finite live \<and>
     mNumberAllocations P = mNumberFrees P + of_nat (card live) + of_nat (length (pooled P))"

lemma pooled_update:
  assumes "i < length ls"
  shows "mset (concat (ls [i := l])) + mset (ls ! i) = mset (concat ls) + mset l"
  using assms
proof (induction ls arbitrary: i)
  case (Cons x ls)
  show ?case
  proof (cases i)
    case (Suc j)
    then show ?thesis using Cons.IH [of j] Cons.prems by (simp add: ac_simps)
  qed (simp add: ac_simps)
qed simp

lemma small_update:
  "\<forall>l \<in> set ls. length l \<le> k \<Longrightarrow> length x \<le> k \<Longrightarrow> \<forall>l \<in> set (ls [i := x]). length l \<le> k"
  using set_update_subset_insert [of ls i x] by auto

lemma pool0_wf: "pool_wf {} (MemoryPool0 N)"
  by (simp add: pool_wf_def MemoryPool0_def pooled_def concat_replicate_trivial SIZE_BEFORE_EVICTION_BEGIN_SIZE_def)

lemma pool_wf_alloc:
  assumes wf: "pool_wf live P" and ok: "allocator_ok memalign"
    and n: "0 < n" "n \<le> length (mFreeLists P)"
  shows "alloc memalign live n P = Inl Bad_Alloc \<or> (\<exists>a P'. alloc memalign live n P = Inr (a, P') \<and>
    a \<notin> live \<and> usable_address a \<and> pool_wf (insert a live) P' \<and> length (mFreeLists P') = length (mFreeLists P))"
proof (cases "mFreeLists P ! (n - 1)")
  case Nil
  then show ?thesis
    using assms unfolding alloc_def numberElementsToFreeListId_def allocator_ok_def pool_wf_def
    by (fastforce simp: getListSize_def pooled_def split: option.splits)
next
  case (Cons a rest)
  let ?ls = "(mFreeLists P) [n - 1 := rest]"
  have "mset (concat ?ls) + mset (a # rest) = mset (pooled P) + mset rest"
    using pooled_update [of "n - 1" "mFreeLists P" rest] n Cons by (simp add: pooled_def)
  then have m: "mset (pooled P) = add_mset a (mset (concat ?ls))" by simp
  have d: "distinct (a # concat ?ls)"
    using wf unfolding pool_wf_def by (metis m mset.simps(2) mset_eq_imp_distinct_iff)
  have s: "set (pooled P) = insert a (set (concat ?ls))" and l: "length (pooled P) = Suc (length (concat ?ls))"
    using arg_cong [OF m, of set_mset] arg_cong [OF m, of size] by simp_all
  have live: "a \<notin> live" "finite live" using wf s by (auto simp: pool_wf_def)
  have "n - 1 < length (mFreeLists P)" using n by simp
  then have "a # rest \<in> set (mFreeLists P)" using Cons nth_mem by metis
  then have "length (a # rest) \<le> SIZE_BEFORE_EVICTION_BEGIN_SIZE" using wf unfolding pool_wf_def by blast
  then have small: "\<forall>l \<in> set ?ls. length l \<le> SIZE_BEFORE_EVICTION_BEGIN_SIZE"
    using wf by (intro small_update) (auto simp: pool_wf_def)
  have "pool_wf (insert a live) (P \<lparr> mFreeLists := ?ls \<rparr>)"
    using wf d s l live small by (auto simp: pool_wf_def pooled_def)
  then show ?thesis
    using n Cons live wf s by (auto simp: alloc_def numberElementsToFreeListId_def getListSize_def pool_wf_def)
qed

text \<open>Giving back a block that is in use; of a list that has grown too long the older half stays.\<close>

lemma pool_wf_return:
  assumes wf: "pool_wf live P" and a: "a \<in> live" and n: "0 < n" "n \<le> length (mFreeLists P)"
  shows "\<exists>P'. returnToPool n a P = Inr P' \<and> pool_wf (live - {a}) P' \<and> length (mFreeLists P') = length (mFreeLists P)"
proof -
  define i where "i = n - 1"
  let ?head = "mFreeLists P ! i"
  note w = wf [unfolded pool_wf_def]
  have card: "of_nat (card live) = 1 + (of_nat (card (live - {a})) :: u64)"
    using arg_cong [OF card_Suc_Diff1 [of live a], of of_nat] w a by (metis of_nat_Suc)
  have i: "i < length (mFreeLists P)" using n by (simp add: i_def)
  have fresh: "a \<notin> set (pooled P)" using w a by auto
  show ?thesis
  proof (cases "length ?head < SIZE_BEFORE_EVICTION_BEGIN_SIZE")
    case True
    let ?ls = "(mFreeLists P) [i := a # ?head]"
    define C where "C = concat ?ls"
    have q: "pooled (P \<lparr> mFreeLists := ?ls \<rparr>) = C" by (simp add: pooled_def C_def)
    have m: "mset (C) = add_mset a (mset (pooled P))"
      using pooled_update [OF i, of "a # ?head"] by (simp add: pooled_def C_def)
    have "distinct (C)"
      using mset_eq_imp_distinct_iff [of "C" "a # pooled P"] m w fresh by simp
    moreover have "set (C) = insert a (set (pooled P))" "length (C) = Suc (length (pooled P))"
      using arg_cong [OF m, of set_mset] arg_cong [OF m, of size] by simp_all
    moreover have "\<forall>l \<in> set ?ls. length l \<le> SIZE_BEFORE_EVICTION_BEGIN_SIZE"
      using w True by (intro small_update) simp_all
    moreover have "mNumberAllocations P = mNumberFrees P + of_nat (card (live - {a})) + of_nat (Suc (length (pooled P)))"
      using w unfolding card by simp
    ultimately have "pool_wf (live - {a}) (P \<lparr> mFreeLists := ?ls \<rparr>)"
      using w a unfolding pool_wf_def q by auto
    then show ?thesis
      using n True by (auto simp: returnToPool_def numberElementsToFreeListId_def getListSize_def i_def)
  next
    case False
    let ?k = "length ?head - EVICTION_END_SIZE"
    let ?ls = "(mFreeLists P) [i := drop ?k ?head]"
    let ?f = "mNumberFrees P + 1 + of_nat ?k"
    define C where "C = concat ?ls"
    have q: "pooled (P \<lparr> mFreeLists := ?ls, mNumberFrees := ?f \<rparr>) = C" by (simp add: pooled_def C_def)
    have "mset ?head = mset (take ?k ?head) + mset (drop ?k ?head)"
      by (metis append_take_drop_id mset_append)
    then have m: "mset (pooled P) = mset (take ?k ?head) + mset (C)"
      using pooled_update [OF i, of "drop ?k ?head"] by (simp add: pooled_def C_def ac_simps)
    have "size (mset (pooled P)) = size (mset (take ?k ?head)) + size (mset (C))"
      unfolding m by (rule size_union)
    then have l: "length (pooled P) = ?k + length (C)" by simp
    have s: "set (C) \<subseteq> set (pooled P)" using arg_cong [OF m, of set_mset] by auto
    have "distinct (C)"
      using mset_eq_imp_distinct_iff [of "take ?k ?head @ C" "pooled P"] m w by simp
    moreover have "\<forall>l \<in> set ?ls. length l \<le> SIZE_BEFORE_EVICTION_BEGIN_SIZE"
      using w nth_mem [OF i] by (intro small_update) (auto simp: le_diff_conv)
    moreover have "mNumberAllocations P = ?f + of_nat (card (live - {a})) + of_nat (length (C))"
      using w unfolding card l by simp
    ultimately have "pool_wf (live - {a}) (P \<lparr> mFreeLists := ?ls, mNumberFrees := ?f \<rparr>)"
      using w s unfolding pool_wf_def q by auto
    then show ?thesis
      using n False
      by (auto simp: returnToPool_def numberElementsToFreeListId_def getListSize_def i_def Let_def free_down_to_drop simp del: free_down_to.simps)
  qed
qed

section \<open>The properties of the pool\<close>

text \<open>C23: Whatever is allocated and given back in any order, a block handed out is never one in use, and
  the pool stays well-formed: its lists stay short, no block is on two lists or in use at the same
  time, and the counters of allocations and frees account for every block.\<close>
theorem pool_hands_out_unused:
  assumes "pool_wf live P" and "allocator_ok memalign" and "0 < n" and "n \<le> length (mFreeLists P)"
  shows "(alloc memalign live n P = Inl Bad_Alloc \<or> (\<exists>a P'. alloc memalign live n P = Inr (a, P') \<and>
      a \<notin> live \<and> usable_address a \<and> pool_wf (insert a live) P')) \<and>
    (\<forall>a \<in> live. \<exists>P'. returnToPool n a P = Inr P' \<and> pool_wf (live - {a}) P')"
  using pool_wf_alloc [OF assms] pool_wf_return [OF assms(1) _ assms(3,4)] by blast

text \<open>An allocator that hands out 16 and 32, and nothing else.\<close>

definition example_memalign :: "u64 set \<Rightarrow> nat \<Rightarrow> nat \<Rightarrow> u64 option" where
  "example_memalign A n s = (if 16 \<notin> A then Some 16 else if 32 \<notin> A then Some 32 else None)"

lemma example_allocator: "allocator_ok example_memalign"
proof -
  have "usable_address 16" "usable_address 32" by code_simp+
  then show ?thesis by (auto simp: allocator_ok_def example_memalign_def split: if_splits)
qed

theorem pool_hands_out_unused_witness:
  "\<exists>P P'. alloc example_memalign {} 3 (MemoryPool0 4) = Inr (16, P) \<and> pool_wf {16} P \<and>
    returnToPool 3 16 P = Inr P' \<and> pool_wf {} P'"
proof -
  have "alloc example_memalign {} 3 (MemoryPool0 4) = Inr (16, MemoryPool0 4 \<lparr> mNumberAllocations := 1 \<rparr>)"
    by (simp add: alloc_def numberElementsToFreeListId_def MemoryPool0_def getListSize_def example_memalign_def pooled_def)
  moreover from this have P: "pool_wf {16} (MemoryPool0 4 \<lparr> mNumberAllocations := 1 \<rparr>)"
    using pool_hands_out_unused [OF pool0_wf example_allocator, of 3 4] by (auto simp: MemoryPool0_def)
  moreover have "\<exists>P'. returnToPool 3 16 (MemoryPool0 4 \<lparr> mNumberAllocations := 1 \<rparr>) = Inr P' \<and> pool_wf ({16} - {16}) P'"
    using pool_hands_out_unused [OF P example_allocator, of 3] by (simp add: MemoryPool0_def)
  ultimately show ?thesis by auto
qed

end
