(* ===== verification/Hot_Tree.thy ===== *)
theory Hot_Tree
  imports Hot_Lookup Hot_Node_Compress Memory_Pool
begin

text \<open>
  Inserting into the tree of \<open>src/hot/single-threaded/include/hot/singlethreaded/HOTSingleThreaded.hpp\<close>.
  The state holds the nodes by their addresses, the pool they are allocated from, the two roots and the
  globals of the searches.  A pointer to a child pointer is a \<open>slot\<close>: a root, or an entry of the node at
  an address.  What the program does not determine is the argument of type \<open>runtime\<close>: the system's
  allocator, what a new object's memory holds, and the results of undefined intrinsics.
\<close>

unbundle bit_operations_syntax

section \<open>The state\<close>

definition MAXIMUM_NODE_SIZE_IN_LONGS :: nat where
  "MAXIMUM_NODE_SIZE_IN_LONGS = 65536"

text \<open>The globals of the program: \<open>hot_children\<close> are the branches of the top node \<open>hotTrie\<close> that are not null.\<close>

record hot_state =
  node_objects :: node_memory
  node_pool :: MemoryPool
  hot_roots :: HOTSingleThreaded
  hot_globals :: Search_globals
  flag_mask :: bool
  wildRule_count :: u64
  input_pp :: u64
  branch_index :: int
  T_left :: int
  T_right :: int
  hot_children :: "root set"
  node_count :: u64

record runtime =
  posix_memalign :: "u64 set \<Rightarrow> nat \<Rightarrow> nat \<Rightarrow> u64 option"
  new_contents :: "hot_state \<Rightarrow> nat \<Rightarrow> u32 list \<times> CP list"
  garbage :: "hot_state \<Rightarrow> CP"
  undef_index :: nat

datatype slot = Root_slot root | Entry_slot u64 nat

definition hot_state0 :: hot_state where
  "hot_state0 = \<lparr> node_objects = Map.empty, node_pool = MemoryPool0 MAXIMUM_NODE_SIZE_IN_LONGS,
     hot_roots = HOTSingleThreaded0, hot_globals = \<lparr> extract_mask = 0, wildcard_affected_entry_mask = 0 \<rparr>, flag_mask = False, wildRule_count = 0,
     input_pp = 0, branch_index = 0, T_left = 0, T_right = 0, hot_children = {}, node_count = 1 \<rparr>"

definition root_pointer :: "hot_state \<Rightarrow> root \<Rightarrow> CP" where
  "root_pointer st r = (case r of Root_left \<Rightarrow> mRoot_left (hot_roots st) | Root_right \<Rightarrow> mRoot_right (hot_roots st))"

definition set_root_pointer :: "root \<Rightarrow> CP \<Rightarrow> hot_state \<Rightarrow> hot_state" where
  "set_root_pointer r p st =
     (case r of Root_left \<Rightarrow> st \<lparr> hot_roots := hot_roots st \<lparr> mRoot_left := p \<rparr> \<rparr>
      | Root_right \<Rightarrow> st \<lparr> hot_roots := hot_roots st \<lparr> mRoot_right := p \<rparr> \<rparr>)"

definition read_slot :: "hot_state \<Rightarrow> slot \<Rightarrow> CP cxx" where
  "read_slot st s =
     (case s of Root_slot r \<Rightarrow> Inr (root_pointer st r)
      | Entry_slot a i \<Rightarrow> (case node_objects st a of None \<Rightarrow> Inl UB_Null | Some n \<Rightarrow> get_pointer n i))"

definition write_slot :: "slot \<Rightarrow> CP \<Rightarrow> hot_state \<Rightarrow> hot_state cxx" where
  "write_slot s p st =
     (case s of Root_slot r \<Rightarrow> Inr (set_root_pointer r p st)
      | Entry_slot a i \<Rightarrow> (case node_objects st a of None \<Rightarrow> Inl UB_Null
          | Some n \<Rightarrow> rbind (set_pointer i p n) (\<lambda>n'.
              Inr (st \<lparr> node_objects := (node_objects st) (a \<mapsto> n') \<rparr>))))"

section \<open>Creating and deleting nodes\<close>

text \<open>The node type is a constant of the class of the node; classes without one do not exist.\<close>

definition toChildPointer :: "CP \<Rightarrow> CP HOTSingleThreadedNode \<Rightarrow> u64 \<Rightarrow> CP cxx" where
  "toChildPointer mem n this =
     (case NodeParametersToNodeType (class_of (mDiscriminativeBitsRepresentation n)) (key_width n) of
        None \<Rightarrow> Inl UB_Null | Some mNodeType \<Rightarrow> Inr (ChildPointer_node mem mNodeType this))"

text \<open>
  \<open>operator new\<close> takes its memory from the pool; the constructor's result \<open>n\<close> is stored there.  Sizes
  are counted in longs, by the entries of the node.
\<close>

definition new_node :: "runtime \<Rightarrow> CP HOTSingleThreadedNode \<Rightarrow> hot_state \<Rightarrow> (CP \<times> hot_state) cxx" where
  "new_node rt n st =
     rbind (getNodeSizeInBytes n) (\<lambda>sizeInBytes.
     rbind (alloc (posix_memalign rt) (dom (node_objects st)) (unat sizeInBytes div 8) (node_pool st)) (\<lambda>(memory, P).
     rbind (toChildPointer (garbage rt st) n memory) (\<lambda>p.
       Inr (p, st \<lparr> node_objects := (node_objects st) (memory \<mapsto> n), node_pool := P \<rparr>))))"

definition delete_node :: "u64 \<Rightarrow> hot_state \<Rightarrow> hot_state cxx" where
  "delete_node rawMemory st =
     (case node_objects st rawMemory of None \<Rightarrow> Inl UB_Null
      | Some n \<Rightarrow>
          rbind (getNodeSizeInBytes n) (\<lambda>sizeInBytes.
          rbind (returnToPool (unat sizeInBytes div 8) rawMemory (node_pool st)) (\<lambda>P.
            Inr (st \<lparr> node_objects := (node_objects st) (rawMemory := None), node_pool := P \<rparr>))))"

text \<open>The results of operations on nodes, put into memory.\<close>

definition place :: "runtime \<Rightarrow> CP node_or_child \<Rightarrow> hot_state \<Rightarrow> (CP \<times> hot_state) cxx" where
  "place rt res st = (case res of Existing p \<Rightarrow> Inr (p, st) | Created n \<Rightarrow> new_node rt n st)"

definition tree_addEntry ::
  "runtime \<Rightarrow> CP HOTSingleThreadedNode \<Rightarrow> InsertInformation \<Rightarrow> CP \<Rightarrow> hot_state \<Rightarrow> (CP \<times> hot_state) cxx" where
  "tree_addEntry rt n insertInformation v st =
     rbind (addEntry (new_contents rt st 0) n insertInformation v) (\<lambda>n'. new_node rt n' st)"

definition tree_split ::
  "runtime \<Rightarrow> CP HOTSingleThreadedNode \<Rightarrow> InsertInformation \<Rightarrow> CP \<Rightarrow> hot_state \<Rightarrow> (CP BiNode \<times> hot_state) cxx" where
  "tree_split rt n insertInformation v st =
     rbind (split (pointer_getHeight (node_objects st)) (new_contents rt st 0) (new_contents rt st 1) n insertInformation v)
       (\<lambda>B. rbind (place rt (bi_mLeft B) st) (\<lambda>(left, st').
            rbind (place rt (bi_mRight B) st') (\<lambda>(right, st'').
              Inr (BiNode_of (bi_mDiscriminativeBitIndex B) (bi_mHeight B) left right, st''))))"

definition tree_two_entries :: "runtime \<Rightarrow> CP BiNode \<Rightarrow> hot_state \<Rightarrow> (CP \<times> hot_state) cxx" where
  "tree_two_entries rt B st =
     rbind (createTwoEntriesNode (new_contents rt st 0) B) (\<lambda>n. new_node rt n st)"

section \<open>The insert stack\<close>

record HOTSingleThreadedInsertStackEntry =
  mChildPointer :: slot
  mSearchResultForInsert :: SearchResultForInsert

text \<open>A stack of 64 entries, of which the first \<open>length stack\<close> are initialised.\<close>

type_synonym insert_stack = "HOTSingleThreadedInsertStackEntry list"

definition stack_at :: "insert_stack \<Rightarrow> nat \<Rightarrow> HOTSingleThreadedInsertStackEntry cxx" where
  "stack_at stack i = (if i < length stack then Inr (stack ! i) else Inl UB_Index)"

definition initLeaf :: "nat \<Rightarrow> slot \<Rightarrow> HOTSingleThreadedInsertStackEntry" where
  "initLeaf junk childPointer =
     \<lparr> mChildPointer = childPointer, mSearchResultForInsert = \<lparr> mEntryIndex = junk, mMostSignificantBitIndex = 65535 \<rparr> \<rparr>"

definition stack_push :: "insert_stack \<Rightarrow> HOTSingleThreadedInsertStackEntry \<Rightarrow> insert_stack cxx" where
  "stack_push stack e = (if length stack < 64 then Inr (stack @ [e]) else Inl UB_Index)"

text \<open>The path a key takes, with the wildcards \<open>wild\<close> of a rule if it has some.\<close>

definition search_step ::
  "runtime \<Rightarrow> u64 option \<Rightarrow> u8 list \<Rightarrow> hot_state \<Rightarrow> slot \<times> insert_stack
   \<Rightarrow> (bool \<times> (slot \<times> insert_stack) \<times> hot_state) cxx" where
  "search_step rt wild keyBytes st = (\<lambda>(current, stack).
     rbind (read_slot st current) (\<lambda>p.
       if isLeaf p
       then rbind (stack_push stack (initLeaf (undef_index rt) current)) (\<lambda>stack'. Inr (True, (current, stack'), st))
       else rbind (executeForSpecificNodeType (node_objects st) p (\<lambda>node.
              case wild of None \<Rightarrow> node_searchForInsert (undef_index rt) node keyBytes (hot_globals st)
              | Some msk \<Rightarrow> node_searchForInsert_mask (undef_index rt) node keyBytes msk (hot_globals st)))
              (\<lambda>(i, result, g).
            rbind (stack_push stack \<lparr> mChildPointer = current, mSearchResultForInsert = result \<rparr>) (\<lambda>stack'.
              Inr (False, (Entry_slot (getNode p) i, stack'), st \<lparr> hot_globals := g \<rparr>)))))"

partial_function (option) search_loop ::
  "runtime \<Rightarrow> u64 option \<Rightarrow> u8 list \<Rightarrow> slot \<times> insert_stack \<Rightarrow> hot_state \<Rightarrow> (insert_stack \<times> hot_state) cxx option" where
  "search_loop rt wild keyBytes pos st =
     (case search_step rt wild keyBytes st pos of
        Inl e \<Rightarrow> Some (Inl e)
      | Inr (finished, pos', st') \<Rightarrow>
          if finished then Some (Inr (snd pos', st')) else search_loop rt wild keyBytes pos' st')"

definition root_slot :: "hot_state \<Rightarrow> slot cxx" where
  "root_slot st = (case mRoot (hot_roots st) of None \<Rightarrow> Inl UB_Null | Some r \<Rightarrow> Inr (Root_slot r))"

text \<open>The stack that is filled and the depth of the leaf, its last entry.\<close>

definition searchForInsert ::
  "runtime \<Rightarrow> u8 list \<Rightarrow> hot_state \<Rightarrow> (insert_stack \<times> hot_state) cxx option" where
  "searchForInsert rt keyBytes st =
     (case root_slot st of Inl e \<Rightarrow> Some (Inl e) | Inr s \<Rightarrow> search_loop rt None keyBytes (s, []) st)"

definition searchForInsert_mask ::
  "runtime \<Rightarrow> u8 list \<Rightarrow> u64 \<Rightarrow> hot_state \<Rightarrow> (insert_stack \<times> hot_state) cxx option" where
  "searchForInsert_mask rt keyBytes msk st =
     (case root_slot st of Inl e \<Rightarrow> Some (Inl e) | Inr s \<Rightarrow> search_loop rt (Some msk) keyBytes (s, []) st)"

section \<open>Integrating a binary node\<close>

text \<open>Up the tree, until there is room for one more entry.\<close>

fun integrateBiNodeIntoTree ::
  "runtime \<Rightarrow> insert_stack \<Rightarrow> nat \<Rightarrow> CP BiNode \<Rightarrow> bool \<Rightarrow> hot_state \<Rightarrow> hot_state cxx" where
  "integrateBiNodeIntoTree rt stack 0 splitEntries newIsRight st =
     rbind (stack_at stack 0) (\<lambda>entry.
     rbind (tree_two_entries rt splitEntries st) (\<lambda>(p, st'). write_slot (mChildPointer entry) p st'))"
| "integrateBiNodeIntoTree rt stack (Suc parentDepth) splitEntries newIsRight st =
     rbind (stack_at stack parentDepth) (\<lambda>parentEntry.
     rbind (read_slot st (mChildPointer parentEntry)) (\<lambda>parentNodePointer.
     rbind (node_at (node_objects st) parentNodePointer) (\<lambda>existingParentNode.
       if mHeight existingParentNode > bi_mHeight splitEntries
       then rbind (stack_at stack (Suc parentDepth)) (\<lambda>entry.
            rbind (tree_two_entries rt splitEntries st) (\<lambda>(p, st'). write_slot (mChildPointer entry) p st'))
       else
         let significantKeyInformation = DiscriminativeBit_at (of_nat (bi_mDiscriminativeBitIndex splitEntries)) (of_bool newIsRight);
             entryIndex = mEntryIndex (mSearchResultForInsert parentEntry);
             entryOffset = (if newIsRight then 0 else 1);
             valueToInsert = (if newIsRight then bi_mRight splitEntries else bi_mLeft splitEntries);
             valueToReplace = (if newIsRight then bi_mLeft splitEntries else bi_mRight splitEntries)
         in executeForSpecificNodeType (node_objects st) parentNodePointer (\<lambda>parentNode.
              rbind (getInsertInformation (undef_index rt) parentNode entryIndex significantKeyInformation) (\<lambda>insertInformation.
                if \<not> node_isFull parentNode
                then rbind (tree_addEntry rt parentNode insertInformation valueToInsert st) (\<lambda>(newNodePointer, st1).
                     rbind (write_slot (Entry_slot (getNode newNodePointer) (entryIndex + entryOffset)) valueToReplace st1) (\<lambda>st2.
                     rbind (write_slot (mChildPointer parentEntry) newNodePointer st2)
                       (delete_node (getNode parentNodePointer))))
                else rbind (tree_split rt parentNode insertInformation valueToInsert st) (\<lambda>(newSplitEntries, st1).
                     rbind (pointer_getHeight (node_objects st1) (bi_mLeft newSplitEntries)) (\<lambda>leftHeight.
                     rbind (if leftHeight = mHeight parentNode
                            then pointer_getNumberEntries (node_objects st1) (bi_mLeft newSplitEntries) else Inr 1)
                       (\<lambda>numberEntriesInLowerPart.
                     let isInUpperPart = numberEntriesInLowerPart \<le> entryIndex;
                         correspondingEntryIndexInPart =
                           sub32 entryIndex (if isInUpperPart then numberEntriesInLowerPart else 0) + entryOffset;
                         containing = (if isInUpperPart then bi_mRight newSplitEntries else bi_mLeft newSplitEntries)
                     in rbind (write_slot (Entry_slot (getNode containing) correspondingEntryIndexInPart) valueToReplace st1) (\<lambda>st2.
                        rbind (integrateBiNodeIntoTree rt stack parentDepth newSplitEntries True st2)
                          (delete_node (getNode parentNodePointer)))))))))))"

section \<open>Inserting a value into the right node\<close>

text \<open>Both take the node \<open>existingNode\<close> at the address of \<open>existing\<close>.\<close>

definition insertNewValueResultingInNewPartitionRoot ::
  "runtime \<Rightarrow> CP \<Rightarrow> CP HOTSingleThreadedNode \<Rightarrow> insert_stack \<Rightarrow> DiscriminativeBit \<Rightarrow> nat \<Rightarrow> CP \<Rightarrow> hot_state \<Rightarrow> hot_state cxx" where
  "insertNewValueResultingInNewPartitionRoot rt existing existingNode stack keyInformation insertDepth valueToInsert st =
     rbind (stack_at stack insertDepth) (\<lambda>entry.
       if \<not> node_isFull existingNode
       then let insertInformation = \<lparr> mSubtreePrefixPartialKey = 0, mFirstIndexInAffectedSubtree = 0,
                  mNumberEntriesInAffectedSubtree = getNumberEntries existingNode, mKeyInformation = keyInformation \<rparr>
            in rbind (tree_addEntry rt existingNode insertInformation valueToInsert st) (\<lambda>(p, st1).
               rbind (write_slot (mChildPointer entry) p st1) (delete_node (getNode existing)))
       else rbind (read_slot st (mChildPointer entry)) (\<lambda>child.
            rbind (createFromExistingAndNewEntry (pointer_getHeight (node_objects st)) keyInformation child valueToInsert) (\<lambda>binaryNode.
              integrateBiNodeIntoTree rt stack insertDepth binaryNode True st)))"

definition insertNewValue ::
  "runtime \<Rightarrow> CP \<Rightarrow> CP HOTSingleThreadedNode \<Rightarrow> insert_stack \<Rightarrow> InsertInformation \<Rightarrow> nat \<Rightarrow> CP \<Rightarrow> hot_state \<Rightarrow> hot_state cxx" where
  "insertNewValue rt existing existingNode stack insertInformation insertDepth valueToInsert st =
     rbind (stack_at stack insertDepth) (\<lambda>entry.
       if \<not> node_isFull existingNode
       then rbind (tree_addEntry rt existingNode insertInformation valueToInsert st) (\<lambda>(p, st1).
            rbind (write_slot (mChildPointer entry) p st1) (delete_node (getNode existing)))
       else if unat (mAbsoluteBitIndex (mKeyInformation insertInformation)) > mMostSignificantBitIndex (mSearchResultForInsert entry)
       then rbind (tree_split rt existingNode insertInformation valueToInsert st) (\<lambda>(binaryNode, st1).
            rbind (integrateBiNodeIntoTree rt stack insertDepth binaryNode True st1) (delete_node (getNode existing)))
       else rbind (read_slot st (mChildPointer entry)) (\<lambda>child.
            rbind (createFromExistingAndNewEntry (pointer_getHeight (node_objects st)) (mKeyInformation insertInformation) child valueToInsert) (\<lambda>binaryNode.
              integrateBiNodeIntoTree rt stack insertDepth binaryNode True st)))"

definition insertNewValueIntoNode ::
  "runtime \<Rightarrow> insert_stack \<Rightarrow> DiscriminativeBit \<Rightarrow> nat \<Rightarrow> nat \<Rightarrow> CP \<Rightarrow> hot_state \<Rightarrow> hot_state cxx" where
  "insertNewValueIntoNode rt stack significantKeyInformation insertDepth leafDepth valueToInsert st =
     rbind (stack_at stack insertDepth) (\<lambda>insertStackEntry.
     rbind (read_slot st (mChildPointer insertStackEntry)) (\<lambda>existing.
     executeForSpecificNodeType (node_objects st) existing (\<lambda>existingNode.
       let entryIndex = mEntryIndex (mSearchResultForInsert insertStackEntry)
       in rbind (getInsertInformation (undef_index rt) existingNode entryIndex significantKeyInformation) (\<lambda>insertInformation.
            let isSingleEntry = (getNumberEntriesInAffectedSubtree insertInformation = 1);
                nextInsertDepth = insertDepth + 1;
                isLeafEntry = (nextInsertDepth = leafDepth)
            in if isSingleEntry \<and> isLeafEntry
               then rbind (stack_at stack nextInsertDepth) (\<lambda>next.
                    rbind (read_slot st (mChildPointer next)) (\<lambda>leafEntry.
                    rbind (createFromExistingAndNewEntry (pointer_getHeight (node_objects st)) (mKeyInformation insertInformation)
                             leafEntry valueToInsert) (\<lambda>binaryNode.
                      integrateBiNodeIntoTree rt stack nextInsertDepth binaryNode True st)))
               else if isSingleEntry
               then rbind (stack_at stack nextInsertDepth) (\<lambda>next.
                    rbind (read_slot st (mChildPointer next)) (\<lambda>child.
                    executeForSpecificNodeType (node_objects st) child (\<lambda>childPartition.
                      insertNewValueResultingInNewPartitionRoot rt child childPartition stack significantKeyInformation
                        nextInsertDepth valueToInsert st)))
               else insertNewValue rt existing existingNode stack insertInformation insertDepth valueToInsert st))))"

text \<open>The depth of the last node on the path whose root comes before the bit, or the root.\<close>

fun insert_depth :: "nat \<Rightarrow> nat \<Rightarrow> HOTSingleThreadedInsertStackEntry list \<Rightarrow> nat cxx" where
  "insert_depth bitIndex d [] = Inl UB_Index"
| "insert_depth bitIndex d (e # es) =
     (if bitIndex > mMostSignificantBitIndex (mSearchResultForInsert e) then insert_depth bitIndex (Suc d) es else Inr d)"

text \<open>
  \<open>executeForDiffingKeys\<close> runs its operation on a state; here the state is the tree's, or the error
  that stopped it, and with a rule it also reads \<open>flag_mask\<close>.
\<close>

definition insertWithInsertStack ::
  "runtime \<Rightarrow> insert_stack \<Rightarrow> nat \<Rightarrow> u64 \<Rightarrow> u8 list \<Rightarrow> u64 \<Rightarrow> hot_state \<Rightarrow> (bool \<times> hot_state) cxx" where
  "insertWithInsertStack rt stack leafDepth existingKey newKeyBytes newValue st =
     rbind (executeForDiffingKeys (undef_index rt) (key_bytes existingKey) newKeyBytes 8
       (\<lambda>significantKeyInformation r. rbind r (\<lambda>st.
          rbind (insert_depth (unat (mAbsoluteBitIndex significantKeyInformation)) 0 (tl stack)) (\<lambda>insertDepth.
            insertNewValueIntoNode rt stack significantKeyInformation insertDepth leafDepth
              (ChildPointer_leaf (garbage rt st) (valueToTid64 newValue)) st)))
       (Inr st)) (\<lambda>(inserted, r). rbind r (\<lambda>st'. Inr (inserted, st')))"

section \<open>Rules with wildcards\<close>

text \<open>
  A rule that agrees with the leaf it reaches up to a wildcard is added to the lists of the affected
  entries.  A list is an array of eight entries.
\<close>

definition add_rule :: "entryVector \<Rightarrow> CP \<Rightarrow> CP cxx" where
  "add_rule tmp p =
     (if unat (listSize p) < length (entryList p)
      then Inr (p \<lparr> entryList := (entryList p) [unat (listSize p) := tmp], listSize := listSize p + 1 \<rparr>)
      else Inl UB_Index)"

definition insertNewWildcardRuleIntoNode ::
  "runtime \<Rightarrow> insert_stack \<Rightarrow> DiscriminativeBit \<Rightarrow> nat \<Rightarrow> nat \<Rightarrow> CP \<Rightarrow> hot_state \<Rightarrow> hot_state cxx" where
  "insertNewWildcardRuleIntoNode rt stack significantKeyInformation insertDepth leafDepth valueToInsert st =
     rbind (stack_at stack insertDepth) (\<lambda>insertStackEntry.
     rbind (read_slot st (mChildPointer insertStackEntry)) (\<lambda>existing.
     executeForSpecificNodeType (node_objects st) existing (\<lambda>existingNode.
       let entryIndex = mEntryIndex (mSearchResultForInsert insertStackEntry)
       in rbind (getInsertInformation (undef_index rt) existingNode entryIndex significantKeyInformation) (\<lambda>insertInformation.
            let isSingleEntry = (getNumberEntriesInAffectedSubtree insertInformation = 1);
                isLeafEntry = (insertDepth + 1 = leafDepth);
                tmp = \<lparr> entry_value = mPointer valueToInsert, entry_mask_bits = mMask valueToInsert, entry_pp = priority valueToInsert \<rparr>;
                firstIndex = mFirstIndexInAffectedSubtree insertInformation;
                numberEntries = mNumberEntriesInAffectedSubtree insertInformation;
                add = (\<lambda>i st. rbind (read_slot st (Entry_slot (getNode existing) i)) (\<lambda>p.
                         rbind (add_rule tmp p) (\<lambda>p'.
                         rbind (write_slot (Entry_slot (getNode existing) i) p' st) (\<lambda>st'.
                           Inr (st' \<lparr> wildRule_count := wildRule_count st' + 1 \<rparr>)))))
            in if isSingleEntry \<and> isLeafEntry then add firstIndex st
               else if isSingleEntry then Inr st
               else rfold add [firstIndex..<firstIndex + numberEntries] st))))"

text \<open>Inserting with the wildcards of the new rule, and of the rule that is there.\<close>

definition insert_rule_at ::
  "runtime \<Rightarrow> insert_stack \<Rightarrow> nat \<Rightarrow> CP \<Rightarrow> DiscriminativeBit \<Rightarrow> (bool \<Rightarrow> hot_state cxx) \<Rightarrow> bool \<Rightarrow> hot_state cxx" where
  "insert_rule_at rt stack leafDepth valueToInsert significantKeyInformation r flag =
     rbind (r flag) (\<lambda>st.
     rbind (insert_depth (unat (mAbsoluteBitIndex significantKeyInformation)) 0 (tl stack)) (\<lambda>insertDepth.
       if flag
       then insertNewWildcardRuleIntoNode rt stack significantKeyInformation insertDepth leafDepth valueToInsert st
       else insertNewValueIntoNode rt stack significantKeyInformation insertDepth leafDepth valueToInsert st))"

definition with_flag :: "(bool \<times> bool \<times> (bool \<Rightarrow> hot_state cxx)) cxx \<Rightarrow> (bool \<times> hot_state) cxx" where
  "with_flag res = rbind res (\<lambda>(inserted, flag, r). rbind (r flag) (\<lambda>st. Inr (inserted, st \<lparr> flag_mask := flag \<rparr>)))"

definition insertWithInsertStack_mask ::
  "runtime \<Rightarrow> insert_stack \<Rightarrow> nat \<Rightarrow> u64 \<Rightarrow> u8 list \<Rightarrow> u64 \<Rightarrow> u64 \<Rightarrow> u64 \<Rightarrow> entryVector list \<Rightarrow> hot_state
   \<Rightarrow> (bool \<times> hot_state) cxx" where
  "insertWithInsertStack_mask rt stack leafDepth existingKey newKeyBytes newValue msk prio WildcardList st =
     with_flag (executeForDiffingKeys_mask (undef_index rt) msk (key_bytes existingKey) newKeyBytes 8
       (insert_rule_at rt stack leafDepth (ChildPointer_rule (valueToTid64 newValue) msk prio WildcardList))
       (flag_mask st, \<lambda>_. Inr st))"

definition insertWithInsertStack_masks ::
  "runtime \<Rightarrow> insert_stack \<Rightarrow> nat \<Rightarrow> u64 \<Rightarrow> u64 \<Rightarrow> u8 list \<Rightarrow> u64 \<Rightarrow> u64 \<Rightarrow> u64 \<Rightarrow> entryVector list \<Rightarrow> hot_state
   \<Rightarrow> (bool \<times> hot_state) cxx" where
  "insertWithInsertStack_masks rt stack leafDepth existingKey matchedMask newKeyBytes newValue msk prio WildcardList st =
     with_flag (executeForDiffingKeys_masks (undef_index rt) msk (key_bytes existingKey) matchedMask newKeyBytes 8
       (insert_rule_at rt stack leafDepth (ChildPointer_rule (valueToTid64 newValue) msk prio WildcardList))
       (flag_mask st, \<lambda>_. Inr st))"

section \<open>Insert\<close>

definition use_root :: "root \<Rightarrow> hot_state \<Rightarrow> hot_state" where
  "use_root r st = st \<lparr> hot_roots := hot_roots st \<lparr> mRoot := Some r \<rparr> \<rparr>"

text \<open>Results of searches that may not end.\<close>

definition after_search :: "'a cxx option \<Rightarrow> ('a \<Rightarrow> 'b cxx) \<Rightarrow> 'b cxx option" where
  "after_search r f = map_option (\<lambda>x. rbind x f) r"

text \<open>The root in use when it is a leaf and the keys differ: a node of two entries.\<close>

definition grow_root :: "runtime \<Rightarrow> root \<Rightarrow> CP \<Rightarrow> DiscriminativeBit \<Rightarrow> hot_state \<Rightarrow> hot_state cxx" where
  "grow_root rt r valueToInsert d st =
     rbind (createFromExistingAndNewEntry (pointer_getHeight (node_objects st)) d (root_pointer st r) valueToInsert) (\<lambda>binaryNode.
     rbind (tree_two_entries rt binaryNode st) (\<lambda>(p, st'). Inr (set_root_pointer r p st')))"

definition insert_into_root ::
  "runtime \<Rightarrow> (u64 \<Rightarrow> u64) \<Rightarrow> root \<Rightarrow> u64 \<Rightarrow> hot_state \<Rightarrow> (bool \<times> hot_state) cxx option" where
  "insert_into_root rt extractKey r v st0 =
     (let st = use_root r st0; p = root_pointer st r; keyBytes = key_bytes (extractKey v)
      in if isNode p \<and> getNode p \<noteq> 0
         then after_search (searchForInsert rt keyBytes st) (\<lambda>(stack, st1).
                let leafDepth = length stack - 1
                in rbind (stack_at stack leafDepth) (\<lambda>leaf.
                   rbind (read_slot st1 (mChildPointer leaf)) (\<lambda>q.
                     insertWithInsertStack rt stack leafDepth (extractKey (tidToValue64 (getTid q))) keyBytes v st1)))
         else if isLeaf p
         then Some (rbind (executeForDiffingKeys (undef_index rt) (key_bytes (extractKey (tidToValue64 (getTid p)))) keyBytes 8
                     (\<lambda>d x. rbind x (grow_root rt r (ChildPointer_leaf (garbage rt st) (valueToTid64 v)) d)) (Inr st))
                (\<lambda>(inserted, x). rbind x (\<lambda>st'. Inr (inserted, st'))))
         else Some (Inr (True, st)))"

definition insert_into_root_mask ::
  "runtime \<Rightarrow> (u64 \<Rightarrow> u64) \<Rightarrow> root \<Rightarrow> u64 \<Rightarrow> u64 \<Rightarrow> u64 \<Rightarrow> entryVector list \<Rightarrow> hot_state \<Rightarrow> (bool \<times> hot_state) cxx option" where
  "insert_into_root_mask rt extractKey r v msk prio WildcardList st0 =
     (let st = use_root r st0; p = root_pointer st r; keyBytes = key_bytes (extractKey v)
      in if isNode p \<and> getNode p \<noteq> 0
         then after_search (searchForInsert_mask rt keyBytes msk st) (\<lambda>(stack, st1).
                let leafDepth = length stack - 1
                in rbind (stack_at stack leafDepth) (\<lambda>leaf.
                   rbind (read_slot st1 (mChildPointer leaf)) (\<lambda>q.
                     insertWithInsertStack_masks rt stack leafDepth (extractKey (tidToValue64 (getTid q))) (mMask q)
                       keyBytes v msk prio WildcardList st1)))
         else if isLeaf p
         then Some (with_flag (executeForDiffingKeys_mask (undef_index rt) msk
                     (key_bytes (extractKey (tidToValue64 (getTid p)))) keyBytes 8
                     (\<lambda>d x flag. rbind (x flag)
                        (grow_root rt r (ChildPointer_rule (valueToTid64 v) msk prio WildcardList) d)) (flag_mask st, \<lambda>_. Inr st)))
         else Some (Inr (True, st)))"

text \<open>The branch is chosen by the globals the caller sets; a new branch starts with a leaf.\<close>

definition new_branch :: "root \<Rightarrow> CP \<Rightarrow> hot_state \<Rightarrow> hot_state cxx" where
  "new_branch r p st =
     (if r \<in> hot_children st then Inr (use_root r (set_root_pointer r p st)) else Inl UB_Null)"

definition HOT_insert ::
  "runtime \<Rightarrow> (u64 \<Rightarrow> u64) \<Rightarrow> u64 \<Rightarrow> hot_state \<Rightarrow> (bool \<times> hot_state) cxx option" where
  "HOT_insert rt extractKey v st =
     (if branch_index st = 1 \<and> T_right st = 1
      then Some (rbind (new_branch Root_right (ChildPointer_leaf (garbage rt st) (valueToTid64 v)) st) (\<lambda>st'. Inr (True, st')))
      else if branch_index st = 0 \<and> T_left st = 1
      then Some (rbind (new_branch Root_left (ChildPointer_leaf (garbage rt st) (valueToTid64 v)) st) (\<lambda>st'. Inr (True, st')))
      else if branch_index st = 1 \<and> T_right st = 0 then insert_into_root rt extractKey Root_right v st
      else if branch_index st = 0 \<and> T_left st = 0 then insert_into_root rt extractKey Root_left v st
      else Some (Inr (True, st)))"

definition HOT_insert_mask ::
  "runtime \<Rightarrow> (u64 \<Rightarrow> u64) \<Rightarrow> u64 \<Rightarrow> u64 \<Rightarrow> hot_state \<Rightarrow> (bool \<times> hot_state) cxx option" where
  "HOT_insert_mask rt extractKey v msk st =
     (let prio = input_pp st; WildcardList = empty_entries
      in if branch_index st = 1 \<and> T_right st = 1
         then Some (rbind (new_branch Root_right (ChildPointer_rule (valueToTid64 v) msk prio WildcardList) st) (\<lambda>st'. Inr (True, st')))
         else if branch_index st = 0 \<and> T_left st = 1
         then Some (rbind (new_branch Root_left (ChildPointer_rule (valueToTid64 v) msk prio WildcardList) st) (\<lambda>st'. Inr (True, st')))
         else if branch_index st = 1 \<and> T_right st = 0 then insert_into_root_mask rt extractKey Root_right v msk prio WildcardList st
         else if branch_index st = 0 \<and> T_left st = 0 then insert_into_root_mask rt extractKey Root_left v msk prio WildcardList st
         else Some (Inr (True, st)))"

text \<open>Replacing the value of a key, or inserting it; \<open>None\<close> of the result is an empty optional.\<close>

definition upsert ::
  "runtime \<Rightarrow> (u64 \<Rightarrow> u64) \<Rightarrow> u64 \<Rightarrow> hot_state \<Rightarrow> (u64 option \<times> hot_state) cxx option" where
  "upsert rt extractKey newValue st =
     (case mRoot (hot_roots st) of None \<Rightarrow> Some (Inl UB_Null)
      | Some r \<Rightarrow>
          let p = root_pointer st r; newKey = extractKey newValue; keyBytes = key_bytes newKey
          in if isNode p \<and> getNode p \<noteq> 0
             then after_search (searchForInsert rt keyBytes st) (\<lambda>(stack, st1).
                    let leafDepth = length stack - 1
                    in rbind (stack_at stack leafDepth) (\<lambda>leaf.
                       rbind (read_slot st1 (mChildPointer leaf)) (\<lambda>q.
                         let existingValue = tidToValue64 (getTid q)
                         in rbind (insertWithInsertStack rt stack leafDepth (extractKey existingValue) keyBytes newValue st1)
                              (\<lambda>(inserted, st2).
                                if inserted then Inr (None, st2)
                                else rbind (write_slot (mChildPointer leaf)
                                            (ChildPointer_leaf (garbage rt st2) (valueToTid64 newValue)) st2)
                                       (\<lambda>st3. Inr (Some existingValue, st3))))))
             else if isLeaf p
             then let existingValue = tidToValue64 (getTid p)
                  in if contentEquals (extractKey existingValue) newKey
                     then Some (Inr (Some existingValue,
                            set_root_pointer r (ChildPointer_leaf (garbage rt st) (valueToTid64 newValue)) st))
                     else after_search (HOT_insert rt extractKey newValue st) (\<lambda>(_, st'). Inr (None, st'))
             else Some (Inr (None, set_root_pointer r (ChildPointer_leaf (garbage rt st) (valueToTid64 newValue)) st)))"

section \<open>The program\<close>

text \<open>The highest bit of a key selects the branch, made when it is first used; the rest goes into its tree.\<close>

definition choose_branch :: "u64 \<Rightarrow> hot_state \<Rightarrow> hot_state" where
  "choose_branch key st =
     (let b = int (unat (drop_bit 63 key AND 1));
          r = (if b = 0 then Root_left else Root_right);
          new = (if r \<in> hot_children st then 0 else 1);
          st1 = st \<lparr> branch_index := b, hot_children := insert r (hot_children st),
                     node_count := node_count st + (if new = 1 then 1 else 0) \<rparr>
      in if b = 0 then st1 \<lparr> T_left := new \<rparr> else st1 \<lparr> T_right := new \<rparr>)"

definition program_insert :: "runtime \<Rightarrow> u64 \<Rightarrow> hot_state \<Rightarrow> (bool \<times> hot_state) cxx option" where
  "program_insert rt key st =
     (let new_value = key AND NOT (push_bit 63 1) in HOT_insert rt IdentityKeyExtractor new_value (choose_branch key st))"

definition program_insert_mask :: "runtime \<Rightarrow> u64 \<Rightarrow> u64 \<Rightarrow> hot_state \<Rightarrow> (bool \<times> hot_state) cxx option" where
  "program_insert_mask rt key msk st =
     (let new_value = key AND NOT (push_bit 63 1) in HOT_insert_mask rt IdentityKeyExtractor new_value msk (choose_branch key st))"

text \<open>The rules in the order they are given, each with its position as its priority.\<close>

fun insertRange_from ::
  "runtime \<Rightarrow> nat \<Rightarrow> (u64 \<times> u64) list \<Rightarrow> bool \<times> hot_state \<Rightarrow> (bool \<times> hot_state) cxx option" where
  "insertRange_from rt i [] (allInserted, st) = Some (Inr (allInserted, st))"
| "insertRange_from rt i ((key, msk) # insertKeys) (allInserted, st) =
     (let st1 = st \<lparr> input_pp := of_nat (i + 1), flag_mask := False,
            hot_globals := hot_globals st \<lparr> wildcard_affected_entry_mask := 0 \<rparr> \<rparr>
      in case program_insert_mask rt key msk st1 of
           None \<Rightarrow> None
         | Some (Inl e) \<Rightarrow> Some (Inl e)
         | Some (Inr (inserted, st2)) \<Rightarrow>
             insertRange_from rt (Suc i) insertKeys (allInserted \<and> inserted, st2 \<lparr> input_pp := 0 \<rparr>))"

definition insertRange ::
  "runtime \<Rightarrow> (u64 \<times> u64) list \<Rightarrow> hot_state \<Rightarrow> (bool \<times> hot_state) cxx option" where
  "insertRange rt insertKeys st = insertRange_from rt 0 insertKeys (True, st)"

end
