(* ===== verification/Hot_Memory.thy ===== *)
theory Hot_Memory
  imports Hot_Tree
begin

text \<open>
  Reasoning about the nodes in memory.  A heap holds a multiset of objects, each at its own address,
  besides a rest that is not touched; the laws below say what each operation does to the multiset.
  Every operation may fail for want of memory and never in any other way.
\<close>

unbundle bit_operations_syntax

section \<open>Results that are right unless memory runs out\<close>

text \<open>Memory runs out when the system's allocator refuses while fewer than \<open>2 ^ 40\<close> blocks are in use.\<close>

definition refuses :: "runtime \<Rightarrow> bool" where
  "refuses rt \<longleftrightarrow> (\<exists>A n s. card A < 2 ^ 40 \<and> posix_memalign rt A n s = None)"

definition returns :: "runtime \<Rightarrow> ('a \<Rightarrow> bool) \<Rightarrow> 'a cxx \<Rightarrow> bool" where
  "returns rt P res \<longleftrightarrow> (case res of Inl e \<Rightarrow> e = Bad_Alloc \<and> refuses rt | Inr x \<Rightarrow> P x)"

lemma returns_simps [simp]: "returns rt P (Inr x) \<longleftrightarrow> P x" "returns rt P (Inl e) \<longleftrightarrow> e = Bad_Alloc \<and> refuses rt"
  by (simp_all add: returns_def)

lemma returns_bind: "returns rt Q m \<Longrightarrow> (\<And>x. Q x \<Longrightarrow> returns rt P (f x)) \<Longrightarrow> returns rt P (rbind m f)"
  by (cases m) (simp_all add: returns_def)

lemma returns_mono: "returns rt P m \<Longrightarrow> (\<And>x. P x \<Longrightarrow> Q x) \<Longrightarrow> returns rt Q m"
  by (cases m) (simp_all add: returns_def)

section \<open>Heaps\<close>

type_synonym cell = "u64 \<times> CP HOTSingleThreadedNode"

definition occ :: "cell multiset \<Rightarrow> u64 \<Rightarrow> nat" where
  "occ M a = count (image_mset fst M) a"

lemma occ_simps [simp]:
  "occ {#} a = 0" "occ (add_mset (b, n) M) a = occ M a + of_bool (a = b)" "occ (M + N) a = occ M a + occ N a"
  by (simp_all add: occ_def)

definition addrs :: "cell multiset \<Rightarrow> u64 set" where
  "addrs M = {a. 0 < occ M a}"

lemma addrs_simps [simp]:
  "addrs {#} = {}" "addrs (add_mset (b, n) M) = insert b (addrs M)" "addrs (M + N) = addrs M \<union> addrs N"
  by (auto simp: addrs_def split: if_splits)

lemma addrs_iff: "a \<in> addrs M \<longleftrightarrow> (\<exists>n. (a, n) \<in># M)"
proof -
  have "a \<in> addrs M \<longleftrightarrow> a \<in># image_mset fst M"
    unfolding addrs_def occ_def by (simp only: mem_Collect_eq count_greater_zero_iff)
  then show ?thesis by force
qed

definition unique_addresses :: "cell multiset \<Rightarrow> bool" where
  "unique_addresses M \<longleftrightarrow> (\<forall>a. occ M a \<le> 1)"

definition heap_is :: "hot_state \<Rightarrow> node_memory \<Rightarrow> cell multiset \<Rightarrow> bool" where
  "heap_is st R M \<longleftrightarrow>
     unique_addresses M \<and> (\<forall>(a, n) \<in># M. node_objects st a = Some n \<and> R a = None) \<and>
     (\<forall>a. a \<notin> addrs M \<longrightarrow> node_objects st a = R a) \<and>
     pool_wf (dom (node_objects st)) (node_pool st) \<and> length (mFreeLists (node_pool st)) = MAXIMUM_NODE_SIZE_IN_LONGS"

text \<open>Everything but the nodes and the pool.\<close>

definition same_rest :: "hot_state \<Rightarrow> hot_state \<Rightarrow> bool" where
  "same_rest st st' \<longleftrightarrow> (\<exists>m P. st' = st \<lparr> node_objects := m, node_pool := P \<rparr>)"

lemma same_restI: "same_rest st (st \<lparr> node_objects := m, node_pool := P \<rparr>)"
  unfolding same_rest_def by (intro exI) (rule refl)

lemma same_rest_update [simp]:
  "same_rest st st" "same_rest st (st \<lparr> node_objects := m \<rparr>)" "same_rest st (st \<lparr> node_objects := m, node_pool := P \<rparr>)"
  using same_restI [where st = st and m = "node_objects st" and P = "node_pool st"]
    same_restI [where st = st and m = m and P = "node_pool st"] same_restI [where st = st and m = m and P = P]
  by simp_all

lemma same_rest_trans:
  assumes "same_rest st st'" and "same_rest st' st''"
  shows "same_rest st st''"
proof -
  obtain m P m' P' where "st' = st \<lparr> node_objects := m, node_pool := P \<rparr>" "st'' = st' \<lparr> node_objects := m', node_pool := P' \<rparr>"
    using assms unfolding same_rest_def by (elim exE) (rule that)
  then have "st'' = st \<lparr> node_objects := m', node_pool := P' \<rparr>" by simp
  then show ?thesis using same_restI by simp
qed

lemma same_rest_fields:
  assumes "same_rest st st'"
  shows "hot_roots st' = hot_roots st" "hot_globals st' = hot_globals st" "root_pointer st' r = root_pointer st r"
  using assms by (auto simp: same_rest_def root_pointer_def split: root.split)

lemma unique_union [simp]:
  "unique_addresses (M + N) \<longleftrightarrow> unique_addresses M \<and> unique_addresses N \<and> addrs M \<inter> addrs N = {}"
proof -
  have pt: "x + y \<le> 1 \<longleftrightarrow> x \<le> 1 \<and> y \<le> 1 \<and> (x = 0 \<or> y = 0)" for x y :: nat by arith
  have dis: "addrs M \<inter> addrs N = {} \<longleftrightarrow> (\<forall>a. occ M a = 0 \<or> occ N a = 0)" unfolding addrs_def by (auto simp: set_eq_iff)
  show ?thesis unfolding unique_addresses_def occ_simps pt dis by (simp only: all_conj_distrib)
qed

lemma unique_simps [simp]:
  "unique_addresses {#}"
  "unique_addresses (add_mset (a, n) M) \<longleftrightarrow> a \<notin> addrs M \<and> unique_addresses M"
proof -
  have one: "unique_addresses {#(a, n)#}" by (simp add: unique_addresses_def)
  show "unique_addresses (add_mset (a, n) M) \<longleftrightarrow> a \<notin> addrs M \<and> unique_addresses M"
    using unique_union [of "{#(a, n)#}" M] one by auto
qed (simp add: unique_addresses_def)

lemma heap_is_lookup: "heap_is st R M \<Longrightarrow> (a, n) \<in># M \<Longrightarrow> node_objects st a = Some n"
  unfolding heap_is_def by blast

lemma heap_is_fresh: "heap_is st R M \<Longrightarrow> node_objects st a = None \<Longrightarrow> a \<notin> addrs M \<and> R a = None"
proof -
  assume h: "heap_is st R M" and a: "node_objects st a = None"
  have "a \<notin> addrs M" using heap_is_lookup [OF h] a unfolding addrs_iff by fastforce
  then show ?thesis using h a by (simp add: heap_is_def)
qed

lemma heap_is_insert:
  assumes "heap_is st R M" and "node_objects st a = None"
    and "pool_wf (insert a (dom (node_objects st))) P" "length (mFreeLists P) = length (mFreeLists (node_pool st))"
  shows "heap_is (st \<lparr> node_objects := (node_objects st) (a \<mapsto> n), node_pool := P \<rparr>) R (add_mset (a, n) M)"
proof -
  have "b \<noteq> a" if "(b, m) \<in># M" for b m using heap_is_lookup [OF assms(1) that] assms(2) by auto
  then show ?thesis using assms heap_is_fresh [OF assms(1,2)] by (auto simp: heap_is_def)
qed

lemma heap_is_update:
  assumes "heap_is st R (add_mset (a, n) M)"
  shows "heap_is (st \<lparr> node_objects := (node_objects st) (a \<mapsto> n') \<rparr>) R (add_mset (a, n') M)"
proof -
  have "node_objects st a = Some n" using assms by (simp add: heap_is_lookup)
  then have "dom ((node_objects st) (a \<mapsto> n')) = dom (node_objects st)" by auto
  moreover have "b \<noteq> a" if "(b, m) \<in># M" for b m using assms that by (auto simp: heap_is_def addrs_iff)
  ultimately show ?thesis using assms by (auto simp: heap_is_def)
qed

lemma heap_is_remove:
  assumes "heap_is st R (add_mset (a, n) M)"
    and "pool_wf (dom (node_objects st) - {a}) P" "length (mFreeLists P) = length (mFreeLists (node_pool st))"
  shows "heap_is (st \<lparr> node_objects := (node_objects st) (a := None), node_pool := P \<rparr>) R M"
proof -
  have "b \<noteq> a" if "(b, m) \<in># M" for b m using assms(1) that by (auto simp: heap_is_def addrs_iff)
  then show ?thesis using assms by (auto simp: heap_is_def)
qed

text \<open>Objects may be counted to the rest.\<close>

lemma heap_is_frame:
  assumes "heap_is st R (M + N)"
  obtains R' where "heap_is st R' M" "\<And>st' M'. heap_is st' R' M' \<Longrightarrow> heap_is st' R (M' + N)"
proof -
  define R' where "R' a = (if a \<in> addrs N then node_objects st a else R a)" for a
  note h = assms [unfolded heap_is_def]
  have N: "R' a = Some n" "node_objects st a = Some n" "R a = None" if "(a, n) \<in># N" for a n
    using h that by (auto simp: R'_def addrs_iff)
  have sep: "addrs M \<inter> addrs N = {}" and u: "unique_addresses M" "unique_addresses N" using h by simp_all
  have M: "a \<notin> addrs N \<and> node_objects st a = Some n \<and> R a = None" if "(a, n) \<in># M" for a n
    proof -
    have "a \<in> addrs M" using that unfolding addrs_iff by blast
    then show ?thesis using h that sep by auto
  qed
  show thesis
  proof (rule that)
    show "heap_is st R' M"
      unfolding heap_is_def
    proof (intro conjI allI impI u(1))
      show "\<forall>(a, n) \<in># M. node_objects st a = Some n \<and> R' a = None" using M by (auto simp: R'_def)
      show "node_objects st a = R' a" if "a \<notin> addrs M" for a using h that by (simp add: R'_def)
    qed (use h in simp_all)
    fix st' M' assume h': "heap_is st' R' M'"
    have dis: "a \<notin> addrs M'" if an: "a \<in> addrs N" for a
    proof
      assume "a \<in> addrs M'"
      then obtain n where n: "(a, n) \<in># M'" unfolding addrs_iff by blast
      obtain n' where "(a, n') \<in># N" using an unfolding addrs_iff by blast
      then have "R' a = None" "R' a = Some n'" using n h' N(1) unfolding heap_is_def by blast+
      then show False by simp
    qed
    have M': "R a = None \<and> a \<notin> addrs N" if "(a, n) \<in># M'" for a n
    proof -
      have "a \<in> addrs M'" "R' a = None" using h' that unfolding heap_is_def addrs_iff by blast+
      then show ?thesis using dis [of a] by (cases "a \<in> addrs N") (simp_all add: R'_def)
    qed
    have N': "node_objects st' a = Some n" if "(a, n) \<in># N" for a n
    proof -
      have "a \<notin> addrs M'" using dis that unfolding addrs_iff by blast
      then have "node_objects st' a = R' a" using h' unfolding heap_is_def by blast
      then show ?thesis using N(1) [OF that] by simp
    qed
    show "heap_is st' R (M' + N)"
      unfolding heap_is_def
    proof (intro conjI allI impI)
      show "unique_addresses (M' + N)" using u(2) h' dis by (auto simp: heap_is_def)
      show "\<forall>(a, n) \<in># M' + N. node_objects st' a = Some n \<and> R a = None"
        using M' N' N(3) h' by (auto simp: heap_is_def)
      show "node_objects st' a = R a" if "a \<notin> addrs (M' + N)" for a
        using h' that by (simp add: heap_is_def R'_def)
    qed (use h' in \<open>simp_all add: heap_is_def\<close>)
  qed
qed

text \<open>How many nodes there are.\<close>

definition live_nodes :: "hot_state \<Rightarrow> nat" where
  "live_nodes st = card (dom (node_objects st))"

definition NODE_LIMIT :: nat where
  "NODE_LIMIT = 2 ^ 32"

lemma card_addrs: "unique_addresses M \<Longrightarrow> finite (addrs M) \<and> card (addrs M) = size M"
proof (induction M)
  case (add c M)
  obtain a n where c: "c = (a, n)" by (cases c)
  then show ?case using add by simp
qed simp

lemma heap_is_count:
  assumes "heap_is st R M"
  shows "live_nodes st = size M + card (dom R)"
proof -
  note h = assms [unfolded heap_is_def]
  have d: "dom (node_objects st) = addrs M \<union> dom R"
  proof (rule set_eqI)
    fix a show "a \<in> dom (node_objects st) \<longleftrightarrow> a \<in> addrs M \<union> dom R"
      using h heap_is_lookup [OF assms] by (cases "a \<in> addrs M") (force simp: addrs_iff domIff)+
  qed
  have "R a = None" if "(a, n) \<in># M" for a n using h that by blast
  then have "addrs M \<inter> dom R = {}" by (fastforce simp: addrs_iff)
  moreover have "finite (dom R)" using d h unfolding pool_wf_def by (metis finite_Un)
  ultimately show ?thesis using card_addrs [of M] h d by (simp add: live_nodes_def card_Un_disjoint)
qed

lemma pool_few: "pool_wf live P \<Longrightarrow> length (pooled P) \<le> length (mFreeLists P) * SIZE_BEFORE_EVICTION_BEGIN_SIZE"
proof -
  assume "pool_wf live P"
  then have "\<forall>l \<in> set (mFreeLists P). length l \<le> SIZE_BEFORE_EVICTION_BEGIN_SIZE" by (simp add: pool_wf_def)
  then have "sum_list (map length ls) \<le> length ls * SIZE_BEFORE_EVICTION_BEGIN_SIZE" if "set ls \<subseteq> set (mFreeLists P)" for ls
    using that by (induction ls) auto
  then show ?thesis by (simp add: pooled_def length_concat)
qed

lemma alloc_refused:
  assumes P: "pool_wf (dom (node_objects st)) P" "length (mFreeLists P) = MAXIMUM_NODE_SIZE_IN_LONGS"
    and few: "live_nodes st < NODE_LIMIT" and res: "alloc (posix_memalign rt) (dom (node_objects st)) n P = Inl Bad_Alloc"
  shows "refuses rt"
proof -
  let ?A = "dom (node_objects st) \<union> set (pooled P)"
  have "card (set (pooled P)) \<le> length (pooled P)" by (rule card_length)
  moreover have "card ?A \<le> live_nodes st + card (set (pooled P))" unfolding live_nodes_def by (rule card_Un_le)
  ultimately have "card ?A < 2 ^ 40"
    using pool_few [OF P(1)] few P(2)
    by (simp add: NODE_LIMIT_def MAXIMUM_NODE_SIZE_IN_LONGS_def SIZE_BEFORE_EVICTION_BEGIN_SIZE_def EVICTION_BEGIN_SIZE_def)
  moreover have "\<exists>m s. posix_memalign rt ?A m s = None"
    using res by (auto simp: alloc_def numberElementsToFreeListId_def Let_def split: if_splits option.splits)
  ultimately show ?thesis unfolding refuses_def by blast
qed

section \<open>Laws of the operations\<close>

text \<open>A pointer that fits a node.\<close>

definition points_to :: "CP \<Rightarrow> CP HOTSingleThreadedNode \<Rightarrow> bool" where
  "points_to p n \<longleftrightarrow> \<not> isLeaf p \<and> getNode p \<noteq> 0 \<and>
     NodeTypeToNodeParameters (getNodeType p) = (class_of (mDiscriminativeBitsRepresentation n), key_width n)"

lemma node_size:
  assumes "node_wf n t"
  obtains s where "getNodeSizeInBytes n = Inr s" "0 < unat s div 8" "unat s div 8 \<le> MAXIMUM_NODE_SIZE_IN_LONGS"
proof -
  note d = node_wfD [OF assms]
  let ?c = "class_of (mDiscriminativeBitsRepresentation n)" and ?w = "key_width n" and ?N = "length (leaves t)"
  have N: "1 \<le> ?N" by (simp add: Suc_leI)
  have "\<exists>i. getNodeAllocationInformation ?c ?w k = Inr i" if "k \<in> set [1..<33]" for k
    using node_layout [OF d(3), of k ?c] that by auto
  from lookup_allocation [OF this N d(9)] obtain i where i: "getAllocationInformation (getNodeAllocationInformation ?c ?w) ?N = Inr i"
    "unat (mTotalSizeInBytes i) = pointer_offset ?c ?w ?N + max 3 ?N * sizeof_ChildPointer"
    using node_layout [OF d(3) N d(9), of ?c] by auto
  have "getNodeSizeInBytes n = Inr (mTotalSizeInBytes i)" using i(1) d(10) by (simp add: getNodeSizeInBytes_def)
  moreover have "unat (mTotalSizeInBytes i) < 2 ^ LENGTH(16)" by (rule unsigned_less)
  moreover have "672 \<le> unat (mTotalSizeInBytes i)"
    unfolding i(2) sizeof_ChildPointer_def by (rule trans_le_add2) simp
  ultimately show thesis
    by (intro that [of "mTotalSizeInBytes i"]; simp add: MAXIMUM_NODE_SIZE_IN_LONGS_def)
qed

lemma usable_pointer:
  assumes "usable_address a"
  shows "getNode (ChildPointer_node mem t a) = a" "getNodeType (ChildPointer_node mem t a) = t"
    "\<not> isLeaf (ChildPointer_node mem t a)"
proof -
  have low: "\<not> bit a k" if "k < 4" for k
    using arg_cong [of _ _ "\<lambda>w. bit w k", OF conjunct1 [OF conjunct2 [OF assms [unfolded usable_address_def]]]] that
      bit_mask15 [of k] by (simp only: bit_and_iff bit_0_eq bot_apply bot_bool_def) blast
  have m: "(7 :: u64) = mask 3" "(8 :: u64) = push_bit 3 1" by (simp_all add: mask_eq_exp_minus_1)
  have a: "a AND 7 = 0" "a AND NOT 8 = a"
    by (rule bit_word_eqI; use low in \<open>auto simp only: m bit_and_iff bit_not_iff bit_mask_iff bit_single bit_0_eq bot_apply bot_bool_def possible_bit_word\<close>)+
  show "getNodeType (ChildPointer_node mem t a) = t" by (rule node_tag [OF a(1)])
  show "getNode (ChildPointer_node mem t a) = a"
    using node_address [OF a(1)] a(2) assms by (simp add: usable_address_def)
  show "\<not> isLeaf (ChildPointer_node mem t a)" unfolding isLeaf_bit mPointer_node bit_push_bit_iff by simp
qed

lemma new_node_law:
  assumes h: "heap_is st R M" and wf: "node_wf n t" and ok: "allocator_ok (posix_memalign rt)"
    and few: "live_nodes st < NODE_LIMIT"
  shows "returns rt (\<lambda>(p, st'). points_to p n \<and> same_rest st st' \<and> heap_is st' R (add_mset (getNode p, n) M)) (new_node rt n st)"
proof -
  obtain s where s: "getNodeSizeInBytes n = Inr s" "0 < unat s div 8" "unat s div 8 \<le> MAXIMUM_NODE_SIZE_IN_LONGS"
    by (rule node_size [OF wf])
  obtain ty where ty: "NodeParametersToNodeType (class_of (mDiscriminativeBitsRepresentation n)) (key_width n) = Some ty"
    using node_wfD(17) [OF wf] by auto
  let ?live = "dom (node_objects st)" and ?P = "node_pool st"
  have P: "pool_wf ?live ?P" "length (mFreeLists ?P) = MAXIMUM_NODE_SIZE_IN_LONGS" using h by (simp_all add: heap_is_def)
  from pool_wf_alloc [OF P(1) ok s(2)] consider "alloc (posix_memalign rt) ?live (unat s div 8) ?P = Inl Bad_Alloc"
    | a P' where "alloc (posix_memalign rt) ?live (unat s div 8) ?P = Inr (a, P')" "a \<notin> ?live" "usable_address a"
        "pool_wf (insert a ?live) P'" "length (mFreeLists P') = length (mFreeLists ?P)"
    using s(3) P(2) by auto
  then show ?thesis
  proof cases
    case 1
    then show ?thesis using alloc_refused [OF P few 1] by (simp add: new_node_def s)
  next
    case 2
    note p = usable_pointer [OF 2(3), of "garbage rt st" ty]
    have "points_to (ChildPointer_node (garbage rt st) ty a) n"
      using p 2(3) node_parameters_exact ty by (simp add: points_to_def usable_address_def)
    then show ?thesis
      using heap_is_insert [OF h _ 2(4,5), of n] 2(2) p(1) by (simp add: new_node_def s 2(1) toChildPointer_def ty domIff)
  qed
qed

lemma delete_node_law:
  assumes h: "heap_is st R (add_mset (a, n) M)" and wf: "node_wf n t"
  shows "\<exists>st'. delete_node a st = Inr st' \<and> same_rest st st' \<and> heap_is st' R M"
proof -
  obtain s where s: "getNodeSizeInBytes n = Inr s" "0 < unat s div 8" "unat s div 8 \<le> MAXIMUM_NODE_SIZE_IN_LONGS"
    by (rule node_size [OF wf])
  have a: "node_objects st a = Some n" using heap_is_lookup [OF h] by simp
  have P: "pool_wf (dom (node_objects st)) (node_pool st)" "length (mFreeLists (node_pool st)) = MAXIMUM_NODE_SIZE_IN_LONGS"
    using h by (simp_all add: heap_is_def)
  obtain P' where P': "returnToPool (unat s div 8) a (node_pool st) = Inr P'"
    "pool_wf (dom (node_objects st) - {a}) P'" "length (mFreeLists P') = length (mFreeLists (node_pool st))"
    using pool_wf_return [OF P(1) _ s(2), of a] a P(2) s(3) by auto
  then show ?thesis using heap_is_remove [OF h P'(2,3)] by (simp add: delete_node_def a s)
qed

lemma write_entry_law:
  assumes h: "heap_is st R (add_mset (a, n) M)" and "i < getNumberEntries n" "i < length (mPointers n)"
  shows "\<exists>st'. write_slot (Entry_slot a i) q st = Inr st' \<and> same_rest st st' \<and>
    heap_is st' R (add_mset (a, n \<lparr> mPointers := (mPointers n) [i := q] \<rparr>) M)"
  using heap_is_update [OF h] heap_is_lookup [OF h, of a n] assms(2,3)
  by (simp add: write_slot_def set_pointer_def)

end
