(* ===== verification/Hot_Shape.thy ===== *)
theory Hot_Shape
  imports Hot_Memory
begin

text \<open>
  The tree of nodes that a pointer leads to, as a value: its nodes with the binary tries they stand for.
  The frames of a path from the root are a context in which a subtree can be replaced, which is how
  insertion changes the tree.
\<close>

section \<open>Trees of nodes\<close>

datatype htree = HLeaf CP | HNode CP "CP HOTSingleThreadedNode" "CP ptrie" "htree list"

fun ptr :: "htree \<Rightarrow> CP" where
  "ptr (HLeaf p) = p"
| "ptr (HNode p n t cs) = p"

fun hheight :: "htree \<Rightarrow> nat" where
  "hheight (HLeaf p) = 0"
| "hheight (HNode p n t cs) = mHeight n"

fun cells :: "htree \<Rightarrow> cell multiset" where
  "cells (HLeaf p) = {#}"
| "cells (HNode p n t cs) = add_mset (getNode p, n) (sum_list (map cells cs))"

fun trie_of :: "htree \<Rightarrow> CP ptrie" where
  "trie_of (HLeaf p) = PLeaf p"
| "trie_of (HNode p n t cs) = graft t (map trie_of cs)"

fun hwf :: "htree \<Rightarrow> bool" where
  "hwf (HLeaf p) \<longleftrightarrow> isLeaf p"
| "hwf (HNode p n t cs) \<longleftrightarrow> points_to p n \<and> node_wf n t \<and> \<not> is_leaf t \<and> leaves t = map ptr cs \<and>
     (\<forall>c \<in> set cs. hwf c \<and> hheight c < mHeight n)"

fun root_bit :: "'v ptrie \<Rightarrow> nat" where
  "root_bit (PLeaf v) = 65535"
| "root_bit (PNode b l r) = b"

lemma in_sum_cells: "x \<in># sum_list (map cells cs) \<longleftrightarrow> (\<exists>c \<in> set cs. x \<in># cells c)"
  by (induction cs) auto

text \<open>The lookup of a key sees the trie of the tree.\<close>

lemma hwf_tree_at:
  "hwf h \<Longrightarrow> (\<And>a n. (a, n) \<in># cells h \<Longrightarrow> nodes a = Some n) \<Longrightarrow> tree_at nodes (ptr h) (trie_of h)"
proof (induction h)
  case (HLeaf p)
  then show ?case by (simp add: tree_at.leaf)
next
  case (HNode p n t cs)
  have mem: "nodes a = Some m" if "c \<in> set cs" "(a, m) \<in># cells c" for c a m
    using HNode.prems(2) [of a m] that by (auto simp: in_sum_cells)
  have "list_all2 (tree_at nodes) (leaves t) (map trie_of cs)"
    using HNode.IH HNode.prems(1) mem by (auto simp: list_all2_conv_all_nth)
  then show ?case
    using HNode.prems by (auto simp: points_to_def intro!: tree_at.node)
qed

text \<open>The height of a pointer in memory.\<close>

definition alive :: "hot_state \<Rightarrow> htree \<Rightarrow> bool" where
  "alive st h \<longleftrightarrow> pointer_getHeight (node_objects st) (ptr h) = Inr (hheight h)"

lemma hwf_alive:
  assumes "hwf h" and "\<And>a n. (a, n) \<in># cells h \<Longrightarrow> node_objects st a = Some n"
  shows "alive st h"
proof (cases h)
  case (HNode p n t cs)
  then have "node_objects st (getNode p) = Some n" "\<not> isLeaf p" using assms by (auto simp: points_to_def)
  then show ?thesis using HNode by (simp add: alive_def pointer_getHeight_def node_at_def)
qed (use assms(1) in \<open>simp add: alive_def pointer_getHeight_def\<close>)

section \<open>Changing a leaf of a node's trie\<close>

fun set_leaf :: "nat \<Rightarrow> 'v \<Rightarrow> 'v ptrie \<Rightarrow> 'v ptrie" where
  "set_leaf i q (PLeaf v) = PLeaf q"
| "set_leaf i q (PNode b l r) =
     (if i < length (leaves l) then PNode b (set_leaf i q l) r
      else PNode b l (set_leaf (i - length (leaves l)) q r))"

lemma bits_of_set_leaf: "bits_of (set_leaf i q t) = bits_of t"
  by (induction t arbitrary: i) simp_all

lemma set_leaf_simps [simp]:
  "i < length (leaves t) \<Longrightarrow> leaves (set_leaf i q t) = (leaves t) [i := q]"
  "bits_of (set_leaf i q t) = bits_of t" "paths P (set_leaf i q t) = paths P t"
  "ordered (set_leaf i q t) = ordered t" "is_leaf (set_leaf i q t) = is_leaf t"
  "root_bit (set_leaf i q t) = root_bit t"
proof -
  show "i < length (leaves t) \<Longrightarrow> leaves (set_leaf i q t) = (leaves t) [i := q]"
    by (induction t arbitrary: i) (auto simp: list_update_append)
  show "bits_of (set_leaf i q t) = bits_of t" by (rule bits_of_set_leaf)
  show "ordered (set_leaf i q t) = ordered t" by (induction t arbitrary: i) (simp_all add: bits_of_set_leaf)
  show "paths P (set_leaf i q t) = paths P t" by (induction t arbitrary: i P) simp_all
qed (cases t; simp)+

lemma length_set_leaf [simp]: "length (leaves (set_leaf i q t)) = length (leaves t)"
  by (induction t arbitrary: i) simp_all

lemma graft_set_leaf [simp]: "graft (set_leaf i q t) Ts = graft t Ts"
  by (induction t arbitrary: i Ts) simp_all

abbreviation set_ptr :: "nat \<Rightarrow> 'c \<Rightarrow> 'c HOTSingleThreadedNode \<Rightarrow> 'c HOTSingleThreadedNode" where
  "set_ptr i q n \<equiv> n \<lparr> mPointers := (mPointers n) [i := q] \<rparr>"

lemma node_wf_set_ptr:
  assumes "node_wf n t" and i: "i < length (leaves t)"
  shows "node_wf (set_ptr i q n) (set_leaf i q t)"
proof -
  note d = node_wfD [OF assms(1)]
  have "take (length (leaves t)) ((mPointers n) [i := q]) = (leaves t) [i := q]"
    using d(16) i by (simp add: take_update_swap)
  then show ?thesis using assms by (simp add: node_wf_def Let_def memory_ok_def sparse_keys_def)
qed

section \<open>Paths\<close>

type_synonym frame = "CP \<times> CP HOTSingleThreadedNode \<times> CP ptrie \<times> htree list \<times> nat"

text \<open>\<open>fs\<close> are the frames from the subtree \<open>h\<close> up to the root of \<open>H\<close>.\<close>

fun path_frames :: "htree \<Rightarrow> frame list \<Rightarrow> htree \<Rightarrow> bool" where
  "path_frames H [] h \<longleftrightarrow> H = h"
| "path_frames H ((p, n, t, cs, i) # fs) h \<longleftrightarrow> i < length cs \<and> cs ! i = h \<and> path_frames H fs (HNode p n t cs)"

fun ctx_cells :: "frame list \<Rightarrow> cell multiset" where
  "ctx_cells [] = {#}"
| "ctx_cells ((p, n, t, cs, i) # fs) =
     add_mset (getNode p, n) (sum_list (map cells (take i cs)) + sum_list (map cells (drop (Suc i) cs))) + ctx_cells fs"

fun trie_fill :: "frame list \<Rightarrow> CP ptrie \<Rightarrow> CP ptrie" where
  "trie_fill [] T = T"
| "trie_fill ((p, n, t, cs, i) # fs) T = trie_fill fs (graft t ((map trie_of cs) [i := T]))"

text \<open>The tree with the subtree replaced by one with the same pointer.\<close>

fun refill :: "frame list \<Rightarrow> htree \<Rightarrow> htree" where
  "refill [] h = h"
| "refill ((p, n, t, cs, i) # fs) h = refill fs (HNode p n t (cs [i := h]))"

lemma sum_list_update_cells:
  "i < length cs \<Longrightarrow> sum_list (map cells (cs [i := h])) =
     sum_list (map cells (take i cs)) + sum_list (map cells (drop (Suc i) cs)) + cells h"
  by (simp add: upd_conv_take_nth_drop)

lemma sum_list_cells:
  "i < length cs \<Longrightarrow> sum_list (map cells cs) =
     sum_list (map cells (take i cs)) + sum_list (map cells (drop (Suc i) cs)) + cells (cs ! i)"
  using sum_list_update_cells [of i cs "cs ! i"] by simp

lemma path_frames_wf: "path_frames H fs h \<Longrightarrow> hwf H \<Longrightarrow> hwf h"
proof (induction fs arbitrary: h)
  case (Cons f fs)
  obtain p n t cs i where f: "f = (p, n, t, cs, i)" by (metis prod_cases5)
  have "hwf (HNode p n t cs)" by (rule Cons.IH) (use Cons.prems f in simp_all)
  then show ?case using Cons.prems(1) f by auto
qed simp

lemma path_frames_cells: "path_frames H fs h \<Longrightarrow> cells H = ctx_cells fs + cells h"
proof (induction fs arbitrary: h)
  case (Cons f fs)
  obtain p n t cs i where f: "f = (p, n, t, cs, i)" by (metis prod_cases5)
  then show ?case using Cons sum_list_cells [of i cs] by (auto simp: ac_simps)
qed simp

lemma path_frames_trie: "path_frames H fs h \<Longrightarrow> trie_of H = trie_fill fs (trie_of h)"
proof (induction fs arbitrary: h)
  case (Cons f fs)
  obtain p n t cs i where f: "f = (p, n, t, cs, i)" by (metis prod_cases5)
  have "(map trie_of cs) [i := trie_of (cs ! i)] = map trie_of cs" if "i < length cs" for i
    using that by (metis list_update_id map_update)
  then show ?case using Cons f by auto
qed simp

text \<open>A subtree of height \<open>m\<close> fits below the frames.\<close>

fun room_above :: "frame list \<Rightarrow> nat \<Rightarrow> bool" where
  "room_above [] m \<longleftrightarrow> True"
| "room_above ((p, n, t, cs, i) # fs) m \<longleftrightarrow> m < mHeight n"

lemma path_room: "path_frames H fs h \<Longrightarrow> hwf H \<Longrightarrow> room_above fs (hheight h)"
proof (cases fs)
  case (Cons f fs')
  obtain p n t cs i where f: "f = (p, n, t, cs, i)" by (metis prod_cases5)
  assume path: "path_frames H fs h" "hwf H"
  then have "hwf (HNode p n t cs)" using path_frames_wf [of H fs' "HNode p n t cs"] Cons f by simp
  then show ?thesis using path(1) Cons f by auto
qed simp

lemma refill_law:
  assumes "path_frames H fs h" "hwf H" "hwf h'" "ptr h' = ptr h" "room_above fs (hheight h')"
  shows "hwf (refill fs h') \<and> cells (refill fs h') = ctx_cells fs + cells h' \<and>
    trie_of (refill fs h') = trie_fill fs (trie_of h') \<and> ptr (refill fs h') = ptr H \<and>
    hheight (refill fs h') = (if fs = [] then hheight h' else hheight H)"
  using assms
proof (induction fs arbitrary: h h')
  case (Cons f fs)
  obtain p n t cs i where f: "f = (p, n, t, cs, i)" by (metis prod_cases5)
  have wf: "hwf (HNode p n t cs)"
    by (rule path_frames_wf [of H fs]) (use Cons.prems(1,2) f in simp_all)
  have i: "i < length cs" "cs ! i = h" using Cons.prems(1) f by simp_all
  have up: "room_above fs (mHeight n)" using path_room [of H fs "HNode p n t cs"] Cons.prems(1,2) f by simp
  let ?h = "HNode p n t (cs [i := h'])"
  have "map ptr (cs [i := h']) = map ptr cs"
    using i Cons.prems(4) by (metis list_update_id map_update)
  moreover have "h \<in> set cs" using i nth_mem by blast
  ultimately have h: "hwf ?h"
    using wf Cons.prems(3,5) f by (auto dest!: set_update_subset_insert [THEN subsetD])
  have "map trie_of (cs [i := h']) = (map trie_of cs) [i := trie_of h']" by (rule map_update)
  then show ?case
    using Cons.IH [of "HNode p n t cs" ?h] Cons.prems(1,2) f h i(1) up
    by (auto simp: sum_list_update_cells ac_simps)
qed simp

section \<open>Slots of the tree\<close>

fun hole_slot :: "root \<Rightarrow> frame list \<Rightarrow> slot" where
  "hole_slot r [] = Root_slot r"
| "hole_slot r ((p, n, t, cs, i) # fs) = Entry_slot (getNode p) i"

lemma frame_node:
  assumes "path_frames H ((p, n, t, cs, i) # fs) h" "hwf H"
  shows "points_to p n" "node_wf n t" "\<not> is_leaf t" "leaves t = map ptr cs" "i < length (leaves t)" "leaves t ! i = ptr h"
    "get_pointer n i = Inr (ptr h)" "\<forall>c \<in> set cs. hwf c \<and> hheight c < mHeight n" "length (leaves t) = length cs"
proof -
  have "hwf (HNode p n t cs)" by (rule path_frames_wf [of H fs]) (use assms in simp_all)
  then show "points_to p n" "node_wf n t" "\<not> is_leaf t" and l: "leaves t = map ptr cs"
    and "\<forall>c \<in> set cs. hwf c \<and> hheight c < mHeight n" by simp_all
  show len: "length (leaves t) = length cs" using l by simp
  show "i < length (leaves t)" "leaves t ! i = ptr h" using assms(1) l by auto
  then show "get_pointer n i = Inr (ptr h)" using node_entry(2) [OF \<open>node_wf n t\<close>] by simp
qed

lemma read_hole:
  assumes "path_frames H fs h" "hwf H" "root_pointer st r = ptr H" "heap_is st R (ctx_cells fs + M)"
  shows "read_slot st (hole_slot r fs) = Inr (ptr h)"
proof (cases fs)
  case Nil
  then show ?thesis using assms by (simp add: read_slot_def)
next
  case (Cons f fs')
  obtain p n t cs i where f: "f = (p, n, t, cs, i)" by (metis prod_cases5)
  have "node_objects st (getNode p) = Some n"
    using heap_is_lookup [OF assms(4)] Cons f by simp
  then show ?thesis
    using frame_node(7) [of H p n t cs i fs' h] assms(1,2) Cons f by (simp add: read_slot_def)
qed

text \<open>The state after a change of the tree below root \<open>r\<close>.\<close>

definition rooted :: "root \<Rightarrow> CP \<Rightarrow> hot_state \<Rightarrow> hot_state \<Rightarrow> bool" where
  "rooted r q st st' \<longleftrightarrow> same_rest (set_root_pointer r q st) st'"

lemma set_root_same: "root_pointer st r = q \<Longrightarrow> set_root_pointer r q st = st"
  by (cases r) (auto simp: root_pointer_def set_root_pointer_def)

lemma write_hole:
  assumes path: "path_frames H fs h" and wf: "hwf H" and root: "root_pointer st r = ptr H"
    and heap: "heap_is st R (ctx_cells fs + cells h')" and h': "hwf h'" and low: "room_above fs (hheight h')"
  shows "\<exists>st' H'. write_slot (hole_slot r fs) (ptr h') st = Inr st' \<and> hwf H' \<and> heap_is st' R (cells H') \<and>
    trie_of H' = trie_fill fs (trie_of h') \<and> hheight H' = (if fs = [] then hheight h' else hheight H) \<and>
    rooted r (ptr H') st st'"
proof (cases fs)
  case Nil
  have "heap_is (set_root_pointer r (ptr h') st) R (cells h')"
    using heap Nil by (cases r) (simp_all add: heap_is_def set_root_pointer_def)
  then show ?thesis using Nil h' by (auto simp: write_slot_def rooted_def)
next
  case (Cons f fs')
  obtain p n t cs i where f: "f = (p, n, t, cs, i)" by (metis prod_cases5)
  note fn = frame_node [OF path [unfolded Cons f] wf]
  note d = node_wfD [OF fn(2)]
  let ?g = "HNode p (set_ptr i (ptr h') n) (set_leaf i (ptr h') t) (cs [i := h'])"
  let ?M = "sum_list (map cells (take i cs)) + sum_list (map cells (drop (Suc i) cs)) + ctx_cells fs' + cells h'"
  have "heap_is st R (add_mset (getNode p, n) ?M)" using heap Cons f by (simp add: ac_simps)
  from write_entry_law [OF this, of i "ptr h'"] obtain st' where st': "write_slot (Entry_slot (getNode p) i) (ptr h') st = Inr st'"
    "same_rest st st'" "heap_is st' R (add_mset (getNode p, set_ptr i (ptr h') n) ?M)"
    using fn(5) d(10,14) by auto
  have pf: "path_frames H fs' (HNode p n t cs)" and i: "i < length cs" "cs ! i = h" using path Cons f by auto
  have "h \<in> set cs" using i nth_mem by blast
  then have g: "hwf ?g"
    using fn h' low node_wf_set_ptr [OF fn(2,5)] Cons f
    by (auto simp: points_to_def map_update dest!: set_update_subset_insert [THEN subsetD])
  have G: "hwf (refill fs' ?g) \<and> cells (refill fs' ?g) = ctx_cells fs' + cells ?g \<and>
    trie_of (refill fs' ?g) = trie_fill fs' (trie_of ?g) \<and> ptr (refill fs' ?g) = ptr H \<and>
    hheight (refill fs' ?g) = (if fs' = [] then hheight ?g else hheight H)"
    by (rule refill_law [OF pf wf g]) (use path_room [OF pf wf] in simp_all)
  have "cells (refill fs' ?g) = add_mset (getNode p, set_ptr i (ptr h') n) ?M"
    using G i(1) by (simp add: sum_list_update_cells ac_simps)
  then have heap': "heap_is st' R (cells (refill fs' ?g))" using st'(3) by simp
  have "hheight H = mHeight n" if "fs' = []" using pf that by (metis hheight.simps(2) path_frames.simps(1))
  then have height: "hheight (refill fs' ?g) = hheight H" using G by simp
  have "trie_of (refill fs' ?g) = trie_fill fs (trie_of h')" using G Cons f by (simp add: map_update)
  then show ?thesis
    using st'(1,2) Cons f root set_root_same [of st r "ptr H"] G heap' height
    by (intro exI [of _ st'] exI [of _ "refill fs' ?g"]) (simp add: rooted_def)
qed

end
