(* ===== verification/Trie_Graft.thy ===== *)
theory Trie_Graft
  imports Hot_Lookup
begin

text \<open>
  Inserting a leaf into a trie made of tries: the nodes of the tree are cut out of one trie over the bits
  of the keys, and inserting into one node, or replacing one entry by two, is an insertion into the
  whole.
\<close>

section \<open>The bits on the path to a leaf\<close>

fun path_bits :: "nat \<Rightarrow> 'v ptrie \<Rightarrow> nat set" where
  "path_bits i (PLeaf v) = {}"
| "path_bits i (PNode b l r) =
     insert b (if i < length (leaves l) then path_bits i l else path_bits (i - length (leaves l)) r)"

lemma path_bits_subset: "path_bits i t \<subseteq> bits_of t"
  by (induction t arbitrary: i) auto

lemma subtree_path:
  "i < length (leaves t) \<Longrightarrow> \<forall>x \<in> path_bits i t. x < k \<Longrightarrow> subtree_range (before k) i t = (i, 1)"
  by (induction t arbitrary: i) auto

lemma subtree_single:
  "i < length (leaves t) \<Longrightarrow> snd (subtree_range (before k) i t) = 1 \<Longrightarrow> x \<in> path_bits i t \<Longrightarrow> x < k"
proof (induction t arbitrary: i)
  case (PNode b l r)
  have "2 \<le> length (leaves l) + length (leaves r)"
    using leaves_pos [of l] leaves_pos [of r] by linarith
  then have "b < k" using PNode.prems(2) by (auto split: if_splits)
  moreover have "i - length (leaves l) < length (leaves r)" if "\<not> i < length (leaves l)"
    using PNode.prems(1) that by simp
  ultimately show ?case using PNode by (auto split: if_splits)
qed simp

lemma insertable_path: "k \<notin> path_bits i t \<Longrightarrow> insertable k i t"
  by (induction t arbitrary: i) (auto split: if_splits)

section \<open>Inserting where a key leads\<close>

fun insert_key :: "nat \<Rightarrow> bool \<Rightarrow> 'v \<Rightarrow> u8 list \<Rightarrow> 'v ptrie \<Rightarrow> 'v ptrie" where
  "insert_key k side v bs (PLeaf u) = join k side v (PLeaf u)"
| "insert_key k side v bs (PNode b l r) =
     (if b < k then (if key_bit bs b then PNode b l (insert_key k side v bs r) else PNode b (insert_key k side v bs l) r)
      else join k side v (PNode b l r))"

fun stops :: "nat \<Rightarrow> 'v ptrie \<Rightarrow> bool" where
  "stops k (PLeaf v) \<longleftrightarrow> True"
| "stops k (PNode b l r) \<longleftrightarrow> \<not> b < k"

lemma insert_key_stops: "stops k t \<Longrightarrow> insert_key k side v bs t = join k side v t"
  by (cases t) simp_all

lemma insert_leaf_stops: "stops k t \<Longrightarrow> insert_leaf k side v i t = join k side v t"
  by (cases t) simp_all

lemma graft_append:
  "length xs = length (leaves l) \<Longrightarrow> graft (PNode b l r) (xs @ ys) = PNode b (graft l xs) (graft r ys)"
  by simp

lemma split_list_at:
  assumes "length Ts = m + n"
  obtains xs ys where "Ts = xs @ ys" "length xs = m" "length ys = n"
  using assms by (intro that [of "take m Ts" "drop m Ts"]) simp_all

lemma graft_join:
  assumes "length Ts = length (leaves t)"
  shows "graft (join k side v t) (if side then Ts @ [PLeaf w] else PLeaf w # Ts) = join k side w (graft t Ts)"
  using assms by (cases side) (simp_all add: join_def)

lemma length_spliced [simp]:
  "s + c \<le> length xs \<Longrightarrow> length (spliced side s c x f xs) = Suc (length xs)"
  by (simp add: spliced_def)

text \<open>A leaf inserted into a node is inserted into the whole trie.\<close>

lemma graft_insert:
  assumes "length Ts = length (leaves t)" and "stops k (Ts ! key_walk bs t)"
    and "subtree_range (before k) (key_walk bs t) t = (s, c)"
  shows "graft (insert_leaf k side v (key_walk bs t) t) (spliced side s c (PLeaf w) id Ts) = insert_key k side w bs (graft t Ts)"
  using assms
proof (induction t arbitrary: Ts s c)
  case (PLeaf u)
  then obtain T where T: "Ts = [T]" by (auto simp: length_Suc_conv)
  have "s = 0" "c = 1" "stops k T" using PLeaf.prems T by auto
  then show ?case by (cases side) (simp_all add: T spliced_def join_def insert_key_stops)
next
  case (PNode b l r)
  obtain xs ys where Ts: "Ts = xs @ ys" "length xs = length (leaves l)" "length ys = length (leaves r)"
    using split_list_at PNode.prems(1) by (metis leaves.simps(2) length_append)
  have w: "key_walk bs l < length xs" "key_walk bs r < length ys" using Ts by simp_all
  show ?case
  proof (cases "b < k")
    case True
    show ?thesis
    proof (cases "key_bit bs b")
      case False
      then have range: "subtree_range (before k) (key_walk bs l) l = (s, c)" using PNode.prems(3) True w Ts by simp
      then have sc: "s + c \<le> length xs" using subtree_range_bounds [of "key_walk bs l" l "before k"] Ts by simp
      have "stops k (xs ! key_walk bs l)" using PNode.prems(2) False w by (simp add: Ts(1) nth_append)
      from PNode.IH(1) [OF Ts(2) this range] show ?thesis
        using True False w Ts(2) graft_append [of "spliced side s c (PLeaf w) id xs" "insert_leaf k side v (key_walk bs l) l" b r ys] sc
        by (simp add: Ts(1) spliced_left del: graft.simps) simp
    next
      case bit: True
      obtain s' where s': "s = length xs + s'" "subtree_range (before k) (key_walk bs r) r = (s', c)"
        using PNode.prems(3) True bit Ts(2) by (cases "subtree_range (before k) (key_walk bs r) r") auto
      have split: "spliced side s c (PLeaf w) id Ts = xs @ spliced side s' c (PLeaf w) id ys"
        unfolding s'(1) Ts(1) by (rule spliced_right)
      have n: "insert_leaf k side v (key_walk bs (PNode b l r)) (PNode b l r) = PNode b l (insert_leaf k side v (key_walk bs r) r)"
        using True bit by simp
      have "stops k (ys ! key_walk bs r)" using PNode.prems(2) bit unfolding Ts(1) by (simp add: nth_append Ts(2))
      then have "graft (insert_leaf k side v (key_walk bs r) r) (spliced side s' c (PLeaf w) id ys) = insert_key k side w bs (graft r ys)"
        by (rule PNode.IH(2) [OF Ts(3) _ s'(2)])
      then show ?thesis using True bit unfolding split n unfolding Ts(1) graft_append [OF Ts(2)] by simp
    qed
  next
    case False
    then have "s = 0" "c = length Ts" using PNode.prems(1,3) by auto
    then have "spliced side s c (PLeaf w) id Ts = (if side then Ts @ [PLeaf w] else PLeaf w # Ts)"
      by (simp add: spliced_def)
    moreover have "stops k (PNode b l r)" using False by simp
    ultimately show ?thesis using graft_join [OF PNode.prems(1), of k side v w] False
      by (simp only: insert_leaf_stops graft.simps insert_key.simps if_False)
  qed
qed

text \<open>An entry replaced by two.\<close>

lemma graft_integrate:
  assumes "length Ts = length (leaves t)" and "i < length Ts" and "\<forall>x \<in> path_bits i t. x < b"
  shows "graft (insert_leaf b True v i t) (take i Ts @ [L, R] @ drop (Suc i) Ts) = graft t (Ts [i := PNode b L R])"
  using assms
proof (induction t arbitrary: i Ts)
  case (PLeaf u)
  then obtain T where "Ts = [T]" by (auto simp: length_Suc_conv)
  then show ?case using PLeaf by (simp add: join_def)
next
  case (PNode d l r)
  obtain xs ys where Ts: "Ts = xs @ ys" "length xs = length (leaves l)" "length ys = length (leaves r)"
    using split_list_at PNode.prems(1) by (metis leaves.simps(2) length_append)
  have d: "d < b" using PNode.prems(3) by simp
  show ?case
  proof (cases "i < length xs")
    case True
    have "take i Ts @ [L, R] @ drop (Suc i) Ts = (take i xs @ [L, R] @ drop (Suc i) xs) @ ys"
      using True by (simp add: Ts(1))
    moreover have "graft (insert_leaf b True v i l) (take i xs @ [L, R] @ drop (Suc i) xs) = graft l (xs [i := PNode b L R])"
      using PNode.IH(1) [OF Ts(2) True] PNode.prems(3) True Ts(2) by simp
    moreover have "length (take i xs @ [L, R] @ drop (Suc i) xs) = length (leaves (insert_leaf b True v i l))"
      using True Ts(2) by simp
    moreover have "insert_leaf b True v i (PNode d l r) = PNode d (insert_leaf b True v i l) r" using True d Ts(2) by simp
    moreover have "Ts [i := PNode b L R] = xs [i := PNode b L R] @ ys" using True by (simp add: Ts(1) list_update_append)
    moreover have "length (xs [i := PNode b L R]) = length (leaves l)" using Ts(2) by simp
    ultimately show ?thesis by (simp only: graft_append)
  next
    case False
    let ?j = "i - length xs"
    have j: "?j < length ys" using False PNode.prems(2) Ts(1) by simp
    have "take i Ts @ [L, R] @ drop (Suc i) Ts = xs @ take ?j ys @ [L, R] @ drop (Suc ?j) ys"
      using False by (simp add: Ts(1) Suc_diff_le)
    moreover have "graft (insert_leaf b True v ?j r) (take ?j ys @ [L, R] @ drop (Suc ?j) ys) = graft r (ys [?j := PNode b L R])"
      using PNode.IH(2) [OF Ts(3) j] PNode.prems(3) False Ts(2) by simp
    moreover have "insert_leaf b True v i (PNode d l r) = PNode d l (insert_leaf b True v ?j r)" using False d Ts(2) by simp
    moreover have "Ts [i := PNode b L R] = xs @ ys [?j := PNode b L R]" using False by (simp add: Ts(1) list_update_append)
    ultimately show ?thesis by (simp only: graft_append [OF Ts(2)])
  qed
qed

text \<open>Below the entry a key leads to.\<close>

lemma graft_descend:
  assumes "length Ts = length (leaves t)" and "\<forall>x \<in> path_bits (key_walk bs t) t. x < k"
  shows "insert_key k side v bs (graft t Ts) = graft t (Ts [key_walk bs t := insert_key k side v bs (Ts ! key_walk bs t)])"
  using assms
proof (induction t arbitrary: Ts)
  case (PLeaf u)
  then show ?case by (auto simp: length_Suc_conv)
next
  case (PNode d l r)
  obtain xs ys where Ts: "Ts = xs @ ys" "length xs = length (leaves l)" "length ys = length (leaves r)"
    using split_list_at PNode.prems(1) by (metis leaves.simps(2) length_append)
  have w: "key_walk bs l < length xs" using Ts(2) by simp
  have d: "d < k" using PNode.prems(2) by simp
  show ?case
  proof (cases "key_bit bs d")
    case True
    have "insert_key k side v bs (graft r ys) = graft r (ys [key_walk bs r := insert_key k side v bs (ys ! key_walk bs r)])"
      using PNode.IH(2) [OF Ts(3)] PNode.prems(2) True by simp
    moreover have "Ts [key_walk bs (PNode d l r) := x] = xs @ ys [key_walk bs r := x]" for x
      using True Ts(2) by (simp add: Ts(1) list_update_append)
    moreover have "Ts ! key_walk bs (PNode d l r) = ys ! key_walk bs r" using True Ts(2) by (simp add: Ts(1) nth_append)
    ultimately show ?thesis using True d unfolding Ts(1) by (simp only: graft_append [OF Ts(2)] insert_key.simps if_True)
  next
    case False
    have "insert_key k side v bs (graft l xs) = graft l (xs [key_walk bs l := insert_key k side v bs (xs ! key_walk bs l)])"
      using PNode.IH(1) [OF Ts(2)] PNode.prems(2) False w Ts(2) by simp
    moreover have "Ts [key_walk bs (PNode d l r) := x] = xs [key_walk bs l := x] @ ys" for x
      using False w by (simp add: Ts(1) list_update_append)
    moreover have "Ts ! key_walk bs (PNode d l r) = xs ! key_walk bs l" using False w by (simp add: Ts(1) nth_append)
    moreover have "length (xs [key_walk bs l := x]) = length (leaves l)" for x using Ts(2) by simp
    ultimately show ?thesis using False d unfolding Ts(1) by (simp only: graft_append Ts(2) insert_key.simps if_True if_False)
  qed
qed

section \<open>Tries whose leaves agree before every inner node\<close>

definition agree :: "('v \<Rightarrow> u8 list) \<Rightarrow> nat \<Rightarrow> 'v set \<Rightarrow> bool" where
  "agree f b S \<longleftrightarrow> (\<forall>c \<in> S. \<forall>d \<in> S. \<forall>x < b. key_bit (f c) x = key_bit (f d) x)"

lemma agreeD: "agree f b S \<Longrightarrow> c \<in> S \<Longrightarrow> d \<in> S \<Longrightarrow> x < b \<Longrightarrow> key_bit (f c) x = key_bit (f d) x"
  unfolding agree_def by blast

lemma agree_iff:
  assumes "w \<in> S"
  shows "agree f b S \<longleftrightarrow> (\<forall>c \<in> S. \<forall>x < b. key_bit (f c) x \<longleftrightarrow> key_bit (f w) x)"
  unfolding agree_def using assms by blast

lemma agree_insert:
  assumes S: "agree f b S" "w \<in> S" and v: "\<And>x. x < b \<Longrightarrow> key_bit (f v) x = key_bit (f w) x"
  shows "agree f b (insert v S)"
proof -
  have w: "w \<in> insert v S" using S(2) by blast
  show ?thesis unfolding agree_iff [OF w] using S(1) v unfolding agree_iff [OF S(2)] by blast
qed

lemma agree_mono: "agree f b S \<Longrightarrow> a \<le> b \<Longrightarrow> agree f a S"
  unfolding agree_def by (meson less_le_trans)

fun patricia :: "('v \<Rightarrow> u8 list) \<Rightarrow> 'v ptrie \<Rightarrow> bool" where
  "patricia f (PLeaf v) \<longleftrightarrow> True"
| "patricia f (PNode b l r) \<longleftrightarrow>
     (\<forall>c \<in> set (leaves l). \<not> key_bit (f c) b) \<and> (\<forall>c \<in> set (leaves r). key_bit (f c) b) \<and>
     agree f b (set (leaves (PNode b l r))) \<and> patricia f l \<and> patricia f r"

lemma patricia_keyed: "patricia f t \<Longrightarrow> keyed f t"
  by (induction t) auto

lemma leaf_exists: "\<exists>c. c \<in> set (leaves t)"
  using leaves_not_Nil [of t] by (cases "leaves t") auto

lemma bits_split:
  "patricia f t \<Longrightarrow> b \<in> bits_of t \<Longrightarrow> \<exists>c \<in> set (leaves t). \<exists>d \<in> set (leaves t). \<not> key_bit (f c) b \<and> key_bit (f d) b"
proof (induction t)
  case (PNode b' l r)
  consider "b = b'" | "b \<in> bits_of l" | "b \<in> bits_of r" using PNode.prems(2) by auto
  then show ?case
  proof cases
    case 1
    obtain c d where "c \<in> set (leaves l)" "d \<in> set (leaves r)" using leaf_exists by meson
    then show ?thesis using PNode.prems(1) 1 by (intro bexI [of _ c] bexI [of _ d]) auto
  next
    case 2
    then show ?thesis using PNode.IH(1) PNode.prems(1) by auto
  next
    case 3
    then show ?thesis using PNode.IH(2) PNode.prems(1) by auto
  qed
qed simp

lemma patricia_ordered: "patricia f t \<Longrightarrow> ordered t"
proof (induction t)
  case (PNode b l r)
  have "b < x" if sub: "s \<in> {l, r}" and x: "x \<in> bits_of s" for s x
  proof (rule ccontr)
    assume n: "\<not> b < x"
    have s: "patricia f s" using sub PNode.prems by auto
    obtain c d where c: "c \<in> set (leaves s)" "d \<in> set (leaves s)" "\<not> key_bit (f c) x" "key_bit (f d) x"
      using bits_split [OF s x] by blast
    show False
    proof (cases "x = b")
      case True
      then show False using PNode.prems c sub by auto
    next
      case False
      with n have "x < b" by simp
      moreover have "c \<in> set (leaves (PNode b l r))" "d \<in> set (leaves (PNode b l r))" using c(1,2) sub by auto
      moreover have "agree f b (set (leaves (PNode b l r)))" using PNode.prems by simp
      ultimately show False using agreeD [of f b _ c d x] c(3,4) by blast
    qed
  qed
  then show ?case using PNode by auto
qed simp

lemma set_leaves_insert_key: "set (leaves (insert_key k side v bs t)) = insert v (set (leaves t))"
  by (induction t) (auto simp: join_def)

lemma bits_of_insert_key: "bits_of (insert_key k side v bs t) = insert k (bits_of t)"
  by (induction t) (auto simp: join_def)

text \<open>Inserting a key at the first bit in which it differs from the leaf it leads to.\<close>

lemma patricia_join:
  assumes t: "patricia f t" "k \<notin> bits_of t" and w: "w \<in> set (leaves t)" and st: "stops k t"
    and pre: "\<And>x. x < k \<Longrightarrow> key_bit (f v) x = key_bit (f w) x" and diff: "key_bit (f v) k \<noteq> key_bit (f w) k"
    and side: "side = key_bit (f v) k"
  shows "patricia f (join k side v t)"
proof -
  have "agree f (Suc k) (set (leaves t))"
  proof (cases t)
    case (PNode b l r)
    then have "Suc k \<le> b" using t(2) st by auto
    moreover have "agree f b (set (leaves t))" using t(1) PNode by simp
    ultimately show ?thesis by (rule agree_mono [rotated])
  qed (simp add: agree_def)
  then have a: "key_bit (f c) x = key_bit (f w) x" if "c \<in> set (leaves t)" "x \<le> k" for c x
    using agreeD [of f "Suc k" "set (leaves t)" c w x] \<open>agree f (Suc k) (set (leaves t))\<close> w that by simp
  have "agree f k (insert v (set (leaves t)))"
    by (rule agree_insert [OF _ w pre]) (use a in \<open>auto simp: agree_def\<close>)
  then show ?thesis using t a diff side by (cases side) (auto simp: join_def insert_commute)
qed

lemma patricia_insert_key:
  assumes t: "patricia f t" "w = find_leaf bs t" and pre: "\<And>x. x < k \<Longrightarrow> key_bit bs x = key_bit (f w) x"
    and diff: "key_bit bs k \<noteq> key_bit (f w) k" and v: "f v = bs" and side: "side = key_bit bs k"
  shows "patricia f (insert_key k side v bs t)"
  using t
proof (induction t)
  case (PLeaf u)
  then show ?case using patricia_join [of f "PLeaf u" k u v side] pre diff v side by simp
next
  case (PNode b l r)
  let ?t = "PNode b l r"
  have w: "w \<in> set (leaves ?t)" unfolding PNode.prems(2) by (rule find_leaf_in)
  have "key_bit (f w) b = key_bit bs b"
    using PNode.prems find_leaf_in [of bs l] find_leaf_in [of bs r] by auto
  then have bk: "b \<noteq> k" using diff by auto
  have ag: "agree f b (set (leaves ?t))" using PNode.prems(1) by simp
  show ?case
  proof (cases "b < k")
    case True
    have new: "agree f b (insert v (set (leaves ?t)))"
      by (rule agree_insert [OF ag w]) (use pre v True in auto)
    show ?thesis
    proof (cases "key_bit bs b")
      case bit: True
      have "patricia f (insert_key k side v bs r)" using PNode.IH(2) PNode.prems bit by simp
      then show ?thesis
        using True bit PNode.prems(1) new v by (simp add: set_leaves_insert_key)
    next
      case False
      have "patricia f (insert_key k side v bs l)" using PNode.IH(1) PNode.prems False by simp
      then show ?thesis
        using True False PNode.prems(1) new v by (simp add: set_leaves_insert_key)
    qed
  next
    case False
    have "k \<notin> bits_of ?t" using patricia_ordered [OF PNode.prems(1)] False bk by auto
    then have "patricia f (join k side v ?t)"
      using patricia_join [OF PNode.prems(1) _ w, of k v side] pre diff v side False by simp
    then show ?thesis using False by simp
  qed
qed

end
