(* ===== verification/Hot_Integrate.thy ===== *)
theory Hot_Integrate
  imports Hot_Shape Trie_Graft
begin

text \<open>
  Integrating a binary node: the subtree at the end of a path is replaced by two, the nodes above make
  room or are split up to the root.  The trie of the tree changes as if one inner node had been put into it.
\<close>

unbundle bit_operations_syntax

section \<open>States that differ in the root\<close>

lemma same_rest_root: "same_rest st st' \<Longrightarrow> same_rest (set_root_pointer r q st) (set_root_pointer r q st')"
proof -
  assume "same_rest st st'"
  then obtain m P where e: "st' = st \<lparr> node_objects := m, node_pool := P \<rparr>" unfolding same_rest_def by blast
  have "set_root_pointer r q st' = set_root_pointer r q st \<lparr> node_objects := m, node_pool := P \<rparr>"
    unfolding e by (cases r) (simp_all add: set_root_pointer_def)
  then show ?thesis using same_restI by simp
qed

lemma rooted_after: "same_rest st st1 \<Longrightarrow> rooted r q st1 st2 \<Longrightarrow> rooted r q st st2"
  unfolding rooted_def by (rule same_rest_trans [OF same_rest_root])

lemma rooted_before: "rooted r q st st1 \<Longrightarrow> same_rest st1 st2 \<Longrightarrow> rooted r q st st2"
  unfolding rooted_def by (rule same_rest_trans)

section \<open>Nodes for the parts\<close>

lemma reach_of_bits:
  assumes "node_wf n t" "\<forall>x \<in> bits_of t. x < 64"
  shows "mapping_reads (mDiscriminativeBitsRepresentation n) \<le> 8" "mapping_reach (mDiscriminativeBitsRepresentation n) k"
proof -
  note d = node_wfD [OF assms(1)]
  show reads: "mapping_reads (mDiscriminativeBitsRepresentation n) \<le> 8"
    by (rule mapping_reads_le [OF d(1)]) (use assms(2) d(18) in auto)
  then show "mapping_reach (mDiscriminativeBitsRepresentation n) k"
    by (cases "mDiscriminativeBitsRepresentation n") simp_all
qed

text \<open>A node of two entries over two trees.\<close>

lemma two_entries_law:
  assumes heap: "heap_is st R (M + cells HL + cells HR)" and ok: "allocator_ok (posix_memalign rt)"
    and mem: "memory_ok 2 (new_contents rt st 0)" and b: "b < 2048" and few: "live_nodes st < NODE_LIMIT"
    and wf: "hwf HL" "hwf HR" "hheight HL < m" "hheight HR < m"
  shows "returns rt (\<lambda>(p, st'). \<exists>H. ptr H = p \<and> hwf H \<and> hheight H = m \<and> trie_of H = PNode b (trie_of HL) (trie_of HR) \<and>
    same_rest st st' \<and> heap_is st' R (M + cells H)) (tree_two_entries rt (BiNode_of b m (ptr HL) (ptr HR)) st)"
proof -
  let ?t = "PNode b (PLeaf (ptr HL)) (PLeaf (ptr HR))"
  obtain n where n: "createTwoEntriesNode (new_contents rt st 0) (BiNode_of b m (ptr HL) (ptr HR)) = Inr n"
    "node_wf n ?t" "mHeight n = m"
    using two_entries_wf [OF b mem, of m "ptr HL" "ptr HR"] by blast
  show ?thesis
    unfolding tree_two_entries_def n(1) rbind_simps
  proof (rule returns_mono [OF new_node_law [OF heap n(2) ok few]], clarify)
    fix p st' assume p: "points_to p n" "same_rest st st'" "heap_is st' R (add_mset (getNode p, n) (M + cells HL + cells HR))"
    show "\<exists>H. ptr H = p \<and> hwf H \<and> hheight H = m \<and> trie_of H = PNode b (trie_of HL) (trie_of HR) \<and>
        same_rest st st' \<and> heap_is st' R (M + cells H)"
      using p n(2,3) wf by (intro exI [of _ "HNode p n ?t [HL, HR]"]) (simp add: ac_simps)
  qed
qed

text \<open>A node with one entry replaced by two.\<close>

lemma pair_tree:
  assumes n': "node_wf n' (insert_leaf b True (ptr HR) i t)" and p: "points_to p n'"
    and t: "leaves t = map ptr cs" "i < length cs" "\<forall>x \<in> path_bits i t. x < b"
    and cs: "\<forall>c \<in> set cs. hwf c \<and> hheight c < mHeight n'"
    and new: "hwf HL" "hwf HR" "hheight HL < mHeight n'" "hheight HR < mHeight n'"
  defines "g \<equiv> HNode p (set_ptr i (ptr HL) n') (set_leaf i (ptr HL) (insert_leaf b True (ptr HR) i t))
    (take i cs @ [HL, HR] @ drop (Suc i) cs)"
  shows "hwf g \<and> trie_of g = graft t ((map trie_of cs) [i := PNode b (trie_of HL) (trie_of HR)]) \<and>
    cells g = add_mset (getNode p, set_ptr i (ptr HL) n')
      (sum_list (map cells (take i cs)) + sum_list (map cells (drop (Suc i) cs)) + cells HL + cells HR)"
proof -
  let ?t = "insert_leaf b True (ptr HR) i t"
  have i: "i < length (leaves t)" using t(1,2) by simp
  have "leaves ?t = take i (leaves t) @ [leaves t ! i, ptr HR] @ drop (Suc i) (leaves t)"
    using leaves_insert_leaf [OF i, of b True "ptr HR"] subtree_path [OF i t(3)] i
    by (simp add: spliced_def take_Suc_conv_app_nth [symmetric] Cons_nth_drop_Suc [symmetric])
  then have l: "leaves (set_leaf i (ptr HL) ?t) = map ptr (take i cs @ [HL, HR] @ drop (Suc i) cs)"
    using i t(1,2) by (simp add: list_update_append take_map drop_map)
  have wf: "node_wf (set_ptr i (ptr HL) n') (set_leaf i (ptr HL) ?t)"
    by (rule node_wf_set_ptr [OF n']) (use i in simp)
  have "graft ?t (take i (map trie_of cs) @ [trie_of HL, trie_of HR] @ drop (Suc i) (map trie_of cs)) =
      graft t ((map trie_of cs) [i := PNode b (trie_of HL) (trie_of HR)])"
    by (rule graft_integrate) (use t in simp_all)
  then have "trie_of g = graft t ((map trie_of cs) [i := PNode b (trie_of HL) (trie_of HR)])"
    by (simp add: g_def take_map drop_map)
  moreover have "hwf g" unfolding g_def
    using p wf l cs new by (auto simp: points_to_def dest: in_set_takeD in_set_dropD)
  ultimately show ?thesis by (simp add: g_def ac_simps)
qed

section \<open>The stack of a search\<close>

fun stack_ok :: "root \<Rightarrow> frame list \<Rightarrow> insert_stack \<Rightarrow> bool" where
  "stack_ok r [] stack \<longleftrightarrow> 0 < length stack \<and> mChildPointer (stack ! 0) = Root_slot r"
| "stack_ok r ((p, n, t, cs, i) # fs) stack \<longleftrightarrow>
     Suc (length fs) < length stack \<and> mChildPointer (stack ! Suc (length fs)) = Entry_slot (getNode p) i \<and>
     mSearchResultForInsert (stack ! length fs) = \<lparr> mEntryIndex = i, mMostSignificantBitIndex = root_bit t \<rparr> \<and>
     stack_ok r fs stack"

lemma stack_ok_top: "stack_ok r fs stack \<Longrightarrow> stack_at stack (length fs) = Inr (stack ! length fs) \<and>
    mChildPointer (stack ! length fs) = hole_slot r fs"
  by (cases fs) (auto simp: stack_at_def)

text \<open>The bits on a path increase from node to node.\<close>

fun bits_above :: "nat \<Rightarrow> frame list \<Rightarrow> bool" where
  "bits_above b [] \<longleftrightarrow> True"
| "bits_above b ((p, n, t, cs, i) # fs) \<longleftrightarrow>
     (\<forall>x \<in> path_bits i t. x < b) \<and> (\<forall>x \<in> bits_of t. x < 64) \<and> bits_above (root_bit t) fs"

section \<open>A tree that replaces the one below the root\<close>

definition tree_becomes :: "root \<Rightarrow> node_memory \<Rightarrow> CP ptrie \<Rightarrow> nat \<Rightarrow> hot_state \<Rightarrow> hot_state \<Rightarrow> bool" where
  "tree_becomes r R T m st st' \<longleftrightarrow>
     (\<exists>H. hwf H \<and> heap_is st' R (cells H) \<and> trie_of H = T \<and> hheight H \<le> m \<and> rooted r (ptr H) st st')"

lemma tree_becomes_after: "same_rest st st1 \<Longrightarrow> tree_becomes r R T m st1 st2 \<Longrightarrow> tree_becomes r R T m st st2"
  unfolding tree_becomes_def using rooted_after by blast

lemma tree_becomes_mono: "tree_becomes r R T m st st' \<Longrightarrow> m \<le> m' \<Longrightarrow> tree_becomes r R T m' st st'"
  unfolding tree_becomes_def using le_trans by blast

text \<open>A node replaced by another, which is then deleted.\<close>

lemma replace_node_law:
  assumes path: "path_frames H0 fs (HNode p n t cs)" and wf: "hwf H0" and root: "root_pointer st r = ptr H0"
    and heap: "heap_is st R (ctx_cells fs + cells g + {#(getNode p, n)#})" and g: "hwf g" "hheight g = mHeight n"
  shows "\<exists>st'. rbind (write_slot (hole_slot r fs) (ptr g) st) (delete_node (getNode p)) = Inr st' \<and>
    tree_becomes r R (trie_fill fs (trie_of g)) (hheight H0) st st'"
proof -
  have n: "node_wf n t" using path_frames_wf [OF path wf] by simp
  have up: "room_above fs (hheight g)" using path_room [OF path wf] g(2) by simp
  obtain R' where R': "heap_is st R' (ctx_cells fs + cells g)"
    "\<And>st' M'. heap_is st' R' M' \<Longrightarrow> heap_is st' R (M' + {#(getNode p, n)#})"
    by (rule heap_is_frame [OF heap]) blast
  obtain st1 H where st1: "write_slot (hole_slot r fs) (ptr g) st = Inr st1" "hwf H" "heap_is st1 R' (cells H)"
    "trie_of H = trie_fill fs (trie_of g)" "hheight H = (if fs = [] then hheight g else hheight H0)" "rooted r (ptr H) st st1"
    using write_hole [OF path wf root R'(1) g(1) up] by blast
  have "heap_is st1 R (add_mset (getNode p, n) (cells H))" using R'(2) [OF st1(3)] by simp
  from delete_node_law [OF this n] obtain st2 where st2: "delete_node (getNode p) st1 = Inr st2" "same_rest st1 st2" "heap_is st2 R (cells H)"
    by blast
  have "hheight H = hheight H0" using st1(5) g(2) path by (cases fs) auto
  then have "tree_becomes r R (trie_fill fs (trie_of g)) (hheight H0) st st2"
    using st1 st2 rooted_before unfolding tree_becomes_def by (intro exI [of _ H]) auto
  then show ?thesis using st1(1) st2(1) by simp
qed

text \<open>An old node that is deleted after an operation.\<close>

lemma delete_old:
  assumes heap: "heap_is st R (M + {#(a, n)#})" and n: "node_wf n t"
    and X: "\<And>R'. heap_is st R' M \<Longrightarrow> returns rt (tree_becomes r R' T m st) X"
  shows "returns rt (tree_becomes r R T m st) (rbind X (delete_node a))"
proof -
  obtain R' where R': "heap_is st R' M" "\<And>st' M'. heap_is st' R' M' \<Longrightarrow> heap_is st' R (M' + {#(a, n)#})"
    by (rule heap_is_frame [OF heap]) blast
  from X [OF R'(1)] show ?thesis
  proof (rule returns_bind)
    fix st3 assume "tree_becomes r R' T m st st3"
    then obtain H where H: "hwf H" "heap_is st3 R' (cells H)" "trie_of H = T" "hheight H \<le> m" "rooted r (ptr H) st st3"
      unfolding tree_becomes_def by blast
    have "heap_is st3 R (add_mset (a, n) (cells H))" using R'(2) [OF H(2)] by simp
    from delete_node_law [OF this n] obtain st4 where st4: "delete_node a st3 = Inr st4" "same_rest st3 st4" "heap_is st4 R (cells H)"
      by blast
    then show "returns rt (tree_becomes r R T m st) (delete_node a st3)"
      using H rooted_before [OF H(5) st4(2)] unfolding tree_becomes_def by (auto intro!: exI [of _ H])
  qed
qed

section \<open>Integrating where there is room\<close>

lemma integrate_here:
  assumes path: "path_frames H0 fs h" and wf: "hwf H0" and root: "root_pointer st r = ptr H0"
    and heap: "heap_is st R (ctx_cells fs + cells HL + cells HR)" and ok: "allocator_ok (posix_memalign rt)"
    and mem: "memory_ok 2 (new_contents rt st 0)" and b: "b < 2048" and few: "live_nodes st < NODE_LIMIT"
    and H: "hwf HL" "hwf HR" "hheight HL < m" "hheight HR < m" and room: "room_above fs m" and m: "fs = [] \<Longrightarrow> m \<le> Suc (hheight H0)"
  shows "returns rt (tree_becomes r R (trie_fill fs (PNode b (trie_of HL) (trie_of HR))) (Suc (hheight H0)) st)
    (rbind (tree_two_entries rt (BiNode_of b m (ptr HL) (ptr HR)) st) (\<lambda>(p, st'). write_slot (hole_slot r fs) p st'))"
proof (rule returns_bind [OF two_entries_law [OF heap ok mem b few H]], clarify)
  fix st1 H2
  assume H2: "hwf H2" "m = hheight H2" "trie_of H2 = PNode b (trie_of HL) (trie_of HR)" and st1: "same_rest st st1"
    "heap_is st1 R (ctx_cells fs + cells H2)"
  obtain st2 H where st2: "write_slot (hole_slot r fs) (ptr H2) st1 = Inr st2" "hwf H" "heap_is st2 R (cells H)"
    "trie_of H = trie_fill fs (trie_of H2)" "hheight H = (if fs = [] then hheight H2 else hheight H0)" "rooted r (ptr H) st1 st2"
    using write_hole [OF path wf _ st1(2) H2(1), of r] root same_rest_fields(3) [OF st1(1)] room H2(2) by auto
  have "tree_becomes r R (trie_fill fs (trie_of H2)) (Suc (hheight H0)) st1 st2"
    unfolding tree_becomes_def using st2 m H2(2) by (intro exI [of _ H]) auto
  from tree_becomes_after [OF st1(1) this]
  show "returns rt (tree_becomes r R (trie_fill fs (PNode b (trie_of HL) (trie_of HR))) (Suc (hheight H0)) st)
      (write_slot (hole_slot r fs) (ptr H2) st1)"
    using st2(1) H2(3) by simp
qed

text \<open>The parent gets one more entry.\<close>

lemma integrate_grow:
  assumes path: "path_frames H0 ((p, n, t, cs, i) # fs) h" and wf: "hwf H0" and root: "root_pointer st r = ptr H0"
    and heap: "heap_is st R (ctx_cells ((p, n, t, cs, i) # fs) + cells HL + cells HR)" and ok: "allocator_ok (posix_memalign rt)"
    and mem: "memory_ok 32 (new_contents rt st 0)" and b: "b < 2048" and few: "live_nodes st < NODE_LIMIT" and small: "length cs \<le> 31"
    and H: "hwf HL" "hwf HR" "hheight HL < mHeight n" "hheight HR < mHeight n"
    and above: "\<forall>x \<in> path_bits i t. x < b" "\<forall>x \<in> bits_of t. x < 64"
  shows "\<exists>info. getInsertInformation undef n i (DiscriminativeBit_at (of_nat b) 1) = Inr info \<and>
    returns rt (tree_becomes r R (trie_fill ((p, n, t, cs, i) # fs) (PNode b (trie_of HL) (trie_of HR))) (hheight H0) st)
      (rbind (tree_addEntry rt n info (ptr HR) st) (\<lambda>(q, st1).
         rbind (write_slot (Entry_slot (getNode q) i) (ptr HL) st1) (\<lambda>st2.
         rbind (write_slot (hole_slot r fs) q st2) (delete_node (getNode p)))))"
proof -
  note fn = frame_node [OF path wf]
  have pf: "path_frames H0 fs (HNode p n t cs)" and i: "i < length cs" using path by simp_all
  let ?M = "ctx_cells ((p, n, t, cs, i) # fs) + cells HL + cells HR" and ?v = "mBitValue (DiscriminativeBit_at (of_nat b) 1) \<noteq> 0"
  have v: "?v = True" by (simp add: DiscriminativeBit_at_def)
  have ins: "insertable b i t" by (rule insertable_path) (use above(1) in auto)
  have "memory_ok (Suc (length (leaves t))) (new_contents rt st 0)" by (rule memory_ok_mono [OF mem]) (use small fn(9) in simp)
  then obtain info n' where n': "getInsertInformation undef n i (DiscriminativeBit_at (of_nat b) 1) = Inr info"
    "addEntry (new_contents rt st 0) n info (ptr HR) = Inr n'" "node_wf n' (insert_leaf b True (ptr HR) i t)" "mHeight n' = mHeight n"
    using addEntry_wf [OF fn(2,5) _ dbit_for_at [OF b, of 1] reach_of_bits(2) [OF fn(2) above(2)] ins,
      where mem = "new_contents rt st 0" and undef = undef and v = "ptr HR", unfolded v] small fn(9) by auto
  have cs: "\<forall>c \<in> set cs. hwf c \<and> hheight c < mHeight n'" using fn(8) n'(4) by simp
  have len: "length (leaves (insert_leaf b True (ptr HR) i t)) = Suc (length cs)" using fn(9) by simp
  note d = node_wfD [OF n'(3)]
  have "returns rt (tree_becomes r R (trie_fill ((p, n, t, cs, i) # fs) (PNode b (trie_of HL) (trie_of HR))) (hheight H0) st)
      (rbind (new_node rt n' st) (\<lambda>(q, st1).
         rbind (write_slot (Entry_slot (getNode q) i) (ptr HL) st1) (\<lambda>st2.
         rbind (write_slot (hole_slot r fs) q st2) (delete_node (getNode p)))))"
  proof (rule returns_bind [OF new_node_law [OF heap n'(3) ok few]], clarify)
    fix q st1 assume q: "points_to q n'" and st1: "same_rest st st1" "heap_is st1 R (add_mset (getNode q, n') ?M)"
    note g = pair_tree [OF n'(3) q fn(4) i above(1) cs H(1,2) H(3,4) [folded n'(4)]]
    define G where "G = HNode q (set_ptr i (ptr HL) n') (set_leaf i (ptr HL) (insert_leaf b True (ptr HR) i t))
      (take i cs @ [HL, HR] @ drop (Suc i) cs)"
    have G: "hwf G" "trie_of G = graft t ((map trie_of cs) [i := PNode b (trie_of HL) (trie_of HR)])" "ptr G = q" "hheight G = mHeight n"
      "cells G = add_mset (getNode q, set_ptr i (ptr HL) n')
        (sum_list (map cells (take i cs)) + sum_list (map cells (drop (Suc i) cs)) + cells HL + cells HR)"
      using g n'(4) unfolding G_def by simp_all
    obtain st2 where st2: "write_slot (Entry_slot (getNode q) i) (ptr HL) st1 = Inr st2" "same_rest st1 st2"
      "heap_is st2 R (add_mset (getNode q, set_ptr i (ptr HL) n') ?M)"
      using write_entry_law [OF st1(2), of i "ptr HL"] d(10,14) i len by auto
    have eq: "add_mset (getNode q, set_ptr i (ptr HL) n') ?M = ctx_cells fs + cells G + {#(getNode p, n)#}"
      unfolding G(5) by (simp add: ac_simps)
    have heap2: "heap_is st2 R (ctx_cells fs + cells G + {#(getNode p, n)#})" using st2(3) unfolding eq .
    have root2: "root_pointer st2 r = ptr H0" using root same_rest_fields(3) st1(1) st2(2) by simp
    obtain st3 where st3: "rbind (write_slot (hole_slot r fs) q st2) (delete_node (getNode p)) = Inr st3"
      "tree_becomes r R (trie_fill fs (trie_of G)) (hheight H0) st2 st3"
      using replace_node_law [OF pf wf root2 heap2 G(1,4)] G(3) by auto
    have "tree_becomes r R (trie_fill fs (trie_of G)) (hheight H0) st st3"
      using tree_becomes_after st1(1) st2(2) st3(2) by blast
    then show "returns rt (tree_becomes r R (trie_fill ((p, n, t, cs, i) # fs) (PNode b (trie_of HL) (trie_of HR))) (hheight H0) st)
        (rbind (write_slot (Entry_slot (getNode q) i) (ptr HL) st1) (\<lambda>st2.
           rbind (write_slot (hole_slot r fs) q st2) (delete_node (getNode p))))"
      using st2(1) st3(1) G(2) by simp
  qed
  then show ?thesis using n'(1,2) by (auto simp: tree_addEntry_def)
qed

end
