(* ===== verification/Hot_Halves.thy ===== *)
theory Hot_Halves
  imports Hot_Integrate
begin

text \<open>
  Splitting a node of the tree: one half is a node with the new entry, the other a node for its entries or
  the only entry it has.
\<close>

unbundle bit_operations_syntax

section \<open>The half that stays as it is\<close>

text \<open>The entries the code counts for a child when the node above has height \<open>m\<close>.\<close>

fun lower_entries :: "nat \<Rightarrow> htree \<Rightarrow> nat" where
  "lower_entries m (HLeaf p) = 1"
| "lower_entries m (HNode p n t cs) = (if mHeight n = m then length cs else 1)"

lemma lower_entries_low: "hheight H < m \<Longrightarrow> lower_entries m H = 1"
  by (cases H) simp_all

lemma lower_entries_read:
  assumes "hwf H" and heap: "heap_is st R (M + cells H)"
  shows "\<exists>h. pointer_getHeight (node_objects st) (ptr H) = Inr h \<and>
    (if h = m then pointer_getNumberEntries (node_objects st) (ptr H) else Inr 1) = Inr (lower_entries m H)"
proof (cases H)
  case (HNode p n t cs)
  then have "points_to p n" "node_wf n t" "leaves t = map ptr cs" using assms(1) by simp_all
  moreover have "node_objects st (getNode p) = Some n" by (rule heap_is_lookup [OF heap]) (use HNode in simp)
  moreover have "getNumberEntries n = length (leaves t)" using node_wfD(10) [OF \<open>node_wf n t\<close>] .
  ultimately show ?thesis
    using HNode by (simp add: pointer_getHeight_def pointer_getNumberEntries_def node_at_def points_to_def)
qed (use assms(1) in \<open>simp add: pointer_getHeight_def pointer_getNumberEntries_def\<close>)

definition old_half :: "nat \<Rightarrow> CP ptrie \<Rightarrow> htree list \<Rightarrow> CP \<Rightarrow> htree \<Rightarrow> bool" where
  "old_half m s Cs q H \<longleftrightarrow> ptr H = q \<and> hwf H \<and> trie_of H = graft s (map trie_of Cs) \<and> hheight H \<le> m \<and>
     lower_entries m H = length (leaves s)"

lemma place_law:
  assumes res: "represents res s" "\<forall>n'. res = Created n' \<longrightarrow> mHeight n' = m" and s: "leaves s = map ptr Cs"
    and Cs: "\<forall>c \<in> set Cs. hwf c \<and> hheight c < m" and ok: "allocator_ok (posix_memalign rt)" and few: "live_nodes st < NODE_LIMIT"
    and heap: "heap_is st R (M + sum_list (map cells Cs))"
  shows "returns rt (\<lambda>(q, st'). \<exists>H. old_half m s Cs q H \<and> same_rest st st' \<and> heap_is st' R (M + cells H) \<and>
    live_nodes st' \<le> Suc (live_nodes st)) (place rt res st)"
proof (cases res)
  case (Existing c)
  then have "s = PLeaf c" using res by simp
  then obtain C where C: "Cs = [C]" "ptr C = c" using s by (cases Cs) auto
  have "old_half m s Cs c C" using Cs C \<open>s = PLeaf c\<close> by (simp add: old_half_def lower_entries_low)
  then show ?thesis using Existing heap C(1) by (auto simp: place_def)
next
  case (Created n)
  then have n: "node_wf n s" "\<not> is_leaf s" "mHeight n = m" using res by simp_all
  have "place rt res st = new_node rt n st" using Created by (simp add: place_def)
  moreover have "returns rt (\<lambda>(q, st'). \<exists>H. old_half m s Cs q H \<and> same_rest st st' \<and> heap_is st' R (M + cells H) \<and>
    live_nodes st' \<le> Suc (live_nodes st)) (new_node rt n st)"
  proof (rule returns_mono [OF new_node_law [OF heap n(1) ok few]], clarify)
    fix q st' assume q: "points_to q n" "same_rest st st'" "heap_is st' R (add_mset (getNode q, n) (M + sum_list (map cells Cs)))"
    have "length (leaves s) = length Cs" using s by simp
    then have "old_half m s Cs q (HNode q n s Cs)" using q(1) n s Cs by (simp add: old_half_def)
    then show "\<exists>H. old_half m s Cs q H \<and> same_rest st st' \<and> heap_is st' R (M + cells H) \<and> live_nodes st' \<le> Suc (live_nodes st)"
      using q(2,3) heap_is_count [OF heap] heap_is_count [OF q(3)] by (intro exI [of _ "HNode q n s Cs"]) simp
  qed
  ultimately show ?thesis by simp
qed

section \<open>Both halves\<close>

definition new_half ::
  "(CP \<Rightarrow> nat cxx) \<Rightarrow> CP HOTSingleThreadedNode \<Rightarrow> CP ptrie \<Rightarrow> CP ptrie \<Rightarrow> CP \<Rightarrow> CP HOTSingleThreadedNode \<Rightarrow> bool" where
  "new_half getHeight n s s' q n' \<longleftrightarrow> points_to q n' \<and> node_wf n' s' \<and> mHeight n' = added_height getHeight n s"

lemma split_law:
  assumes n: "node_wf n (PNode b l r)" "leaves l = map ptr cl" "leaves r = map ptr cr" "i < length (cl @ cr)"
    and cs: "\<forall>c \<in> set (cl @ cr). hwf c \<and> hheight c < mHeight n \<and> alive st c"
    and d: "dbit_for d k" "mBitValue d \<in> {0, 1}" "insertable k i (PNode b l r)" "b < k" "\<forall>x \<in> bits_of (PNode b l r). x < 64"
    and ok: "allocator_ok (posix_memalign rt)" and mem: "\<forall>j. memory_ok 32 (new_contents rt st j)"
    and few: "Suc (live_nodes st) < NODE_LIMIT" and heap: "heap_is st R (M + sum_list (map cells (if i < length cl then cr else cl)))"
  defines "side \<equiv> mBitValue d \<noteq> 0" and "height \<equiv> pointer_getHeight (node_objects st)"
  shows "\<exists>info. getInsertInformation undef n i d = Inr info \<and>
    returns rt (\<lambda>(B, st'). same_rest st st' \<and> live_nodes st' \<le> live_nodes st + 2 \<and>
      (\<exists>n' H qL qR. B = BiNode_of b (u16nat (mHeight n + 1)) qL qR \<and>
      (if i < length cl
       then new_half height n l (insert_leaf k side v i l) qL n' \<and> old_half (mHeight n) r cr qR H \<and>
         heap_is st' R (M + cells H + {#(getNode qL, n')#})
       else old_half (mHeight n) l cl qL H \<and> new_half height n r (insert_leaf k side v (i - length cl) r) qR n' \<and>
         heap_is st' R (M + cells H + {#(getNode qR, n')#}))))
     (tree_split rt n info v st)"
proof -
  have len: "length (leaves l) = length cl" "length (leaves r) = length cr" using n(2,3) by simp_all
  have i: "i < length (leaves (PNode b l r))" using n(4) len by simp
  have h: "\<forall>c \<in> set (leaves (PNode b l r)). \<exists>h. height c = Inr h"
    using cs n(2,3) by (auto simp: alive_def height_def)
  have reach: "mapping_reach (mDiscriminativeBitsRepresentation n) k" by (rule reach_of_bits(2) [OF n(1) d(5)])
  have mems: "memory_ok 32 (new_contents rt st 0)" "memory_ok 32 (new_contents rt st 1)" using mem by simp_all
  have "\<exists>info L R. getInsertInformation undef n i d = Inr info \<and>
    split height (new_contents rt st 0) (new_contents rt st 1) n info v = Inr (BiNode_of b (u16nat (mHeight n + 1)) L R) \<and>
    (if i < length (leaves l)
     then (\<exists>n'. L = Created n' \<and> node_wf n' (insert_leaf k (mBitValue d \<noteq> 0) v i l) \<and> mHeight n' = added_height height n l) \<and>
       represents R r \<and> (\<forall>n'. R = Created n' \<longrightarrow> mHeight n' = mHeight n)
     else represents L l \<and> (\<forall>n'. L = Created n' \<longrightarrow> mHeight n' = mHeight n) \<and>
       (\<exists>n'. R = Created n' \<and> node_wf n' (insert_leaf k (mBitValue d \<noteq> 0) v (i - length (leaves l)) r) \<and>
         mHeight n' = added_height height n r))"
    by (rule split_wf [OF n(1) i d(1,2) reach d(3,4) mems h])
  then obtain info L R' where s: "getInsertInformation undef n i d = Inr info"
    "split height (new_contents rt st 0) (new_contents rt st 1) n info v = Inr (BiNode_of b (u16nat (mHeight n + 1)) L R')"
    "if i < length cl
     then (\<exists>n'. L = Created n' \<and> node_wf n' (insert_leaf k side v i l) \<and> mHeight n' = added_height height n l) \<and>
       represents R' r \<and> (\<forall>n'. R' = Created n' \<longrightarrow> mHeight n' = mHeight n)
     else represents L l \<and> (\<forall>n'. L = Created n' \<longrightarrow> mHeight n' = mHeight n) \<and>
       (\<exists>n'. R' = Created n' \<and> node_wf n' (insert_leaf k side v (i - length cl) r) \<and> mHeight n' = added_height height n r)"
    unfolding len side_def [symmetric] by (elim exE conjE) (rule that)
  have ts: "tree_split rt n info v st = rbind (place rt L st) (\<lambda>(left, st'). rbind (place rt R' st') (\<lambda>(right, st'').
      Inr (BiNode_of b (u16nat (mHeight n + 1)) left right, st'')))"
    using s(2) by (simp add: tree_split_def height_def BiNode_of_def)
  have few0: "live_nodes st < NODE_LIMIT" using few by simp
  show ?thesis
  proof (cases "i < length cl")
    case True
    obtain n' where n': "L = Created n'" "node_wf n' (insert_leaf k side v i l)" "mHeight n' = added_height height n l"
      and R': "represents R' r" "\<forall>n'. R' = Created n' \<longrightarrow> mHeight n' = mHeight n"
      using s(3) unfolding if_P [OF True] by blast
    have heap1: "heap_is st R (M + sum_list (map cells cr))" using heap True by simp
    have "returns rt (\<lambda>(B, st'). same_rest st st' \<and> live_nodes st' \<le> live_nodes st + 2 \<and> (\<exists>n' H qL qR. B = BiNode_of b (u16nat (mHeight n + 1)) qL qR \<and>
         new_half height n l (insert_leaf k side v i l) qL n' \<and> old_half (mHeight n) r cr qR H \<and>
         heap_is st' R (M + cells H + {#(getNode qL, n')#})))
      (rbind (new_node rt n' st) (\<lambda>(left, st'). rbind (place rt R' st') (\<lambda>(right, st'').
        Inr (BiNode_of b (u16nat (mHeight n + 1)) left right, st''))))"
    proof (rule returns_bind [OF new_node_law [OF heap1 n'(2) ok few0]], clarify)
      fix q st1 assume q: "points_to q n'" "same_rest st st1" "heap_is st1 R (add_mset (getNode q, n') (M + sum_list (map cells cr)))"
      have heap2: "heap_is st1 R (M + {#(getNode q, n')#} + sum_list (map cells cr))" using q(3) by simp
      have n1: "live_nodes st1 = Suc (live_nodes st)" using heap_is_count [OF heap1] heap_is_count [OF heap2] by simp
      then have few1: "live_nodes st1 < NODE_LIMIT" using few by simp
      have cr: "\<forall>c \<in> set cr. hwf c \<and> hheight c < mHeight n" using cs by simp
      show "returns rt (\<lambda>(B, st'). same_rest st st' \<and> live_nodes st' \<le> live_nodes st + 2 \<and> (\<exists>n' H qL qR. B = BiNode_of b (u16nat (mHeight n + 1)) qL qR \<and>
           new_half height n l (insert_leaf k side v i l) qL n' \<and> old_half (mHeight n) r cr qR H \<and>
           heap_is st' R (M + cells H + {#(getNode qL, n')#})))
        (rbind (place rt R' st1) (\<lambda>(right, st''). Inr (BiNode_of b (u16nat (mHeight n + 1)) q right, st'')))"
      proof (rule returns_bind [OF place_law [OF R' n(3) cr ok few1 heap2]], clarify)
        fix q2 st2 H assume H: "old_half (mHeight n) r cr q2 H" "same_rest st1 st2" "heap_is st2 R (M + {#(getNode q, n')#} + cells H)"
          "live_nodes st2 \<le> Suc (live_nodes st1)"
        have "live_nodes st2 \<le> live_nodes st + 2" using H(4) n1 by simp
        moreover have "new_half height n l (insert_leaf k side v i l) q n'" using q(1) n'(2,3) by (simp add: new_half_def)
        moreover have "heap_is st2 R (M + cells H + {#(getNode q, n')#})" using H(3) by (simp add: ac_simps)
        moreover have "same_rest st st2" using q(2) H(2) by (rule same_rest_trans)
        ultimately show "returns rt (\<lambda>(B, st'). same_rest st st' \<and> live_nodes st' \<le> live_nodes st + 2 \<and> (\<exists>n' H qL qR. B = BiNode_of b (u16nat (mHeight n + 1)) qL qR \<and>
           new_half height n l (insert_leaf k side v i l) qL n' \<and> old_half (mHeight n) r cr qR H \<and>
           heap_is st' R (M + cells H + {#(getNode qL, n')#}))) (Inr (BiNode_of b (u16nat (mHeight n + 1)) q q2, st2))"
          using H(1) by auto
      qed
    qed
    then show ?thesis using True s(1) ts n'(1) by (auto simp: place_def)
  next
    case False
    obtain n' where n': "R' = Created n'" "node_wf n' (insert_leaf k side v (i - length cl) r)" "mHeight n' = added_height height n r"
      and L: "represents L l" "\<forall>n'. L = Created n' \<longrightarrow> mHeight n' = mHeight n"
      using s(3) unfolding if_not_P [OF False] by blast
    have heap1: "heap_is st R (M + sum_list (map cells cl))" using heap False by simp
    have cl: "\<forall>c \<in> set cl. hwf c \<and> hheight c < mHeight n" using cs by simp
    have "returns rt (\<lambda>(B, st'). same_rest st st' \<and> live_nodes st' \<le> live_nodes st + 2 \<and> (\<exists>n' H qL qR. B = BiNode_of b (u16nat (mHeight n + 1)) qL qR \<and>
         old_half (mHeight n) l cl qL H \<and> new_half height n r (insert_leaf k side v (i - length cl) r) qR n' \<and>
         heap_is st' R (M + cells H + {#(getNode qR, n')#})))
      (rbind (place rt L st) (\<lambda>(left, st'). rbind (new_node rt n' st') (\<lambda>(right, st'').
        Inr (BiNode_of b (u16nat (mHeight n + 1)) left right, st''))))"
    proof (rule returns_bind [OF place_law [OF L n(2) cl ok few0 heap1]], clarify)
      fix q st1 H assume H: "old_half (mHeight n) l cl q H" "same_rest st st1" "heap_is st1 R (M + cells H)" "live_nodes st1 \<le> Suc (live_nodes st)"
      have few1: "live_nodes st1 < NODE_LIMIT" using few H(4) by simp
      show "returns rt (\<lambda>(B, st'). same_rest st st' \<and> live_nodes st' \<le> live_nodes st + 2 \<and> (\<exists>n' H qL qR. B = BiNode_of b (u16nat (mHeight n + 1)) qL qR \<and>
           old_half (mHeight n) l cl qL H \<and> new_half height n r (insert_leaf k side v (i - length cl) r) qR n' \<and>
           heap_is st' R (M + cells H + {#(getNode qR, n')#})))
        (rbind (new_node rt n' st1) (\<lambda>(right, st''). Inr (BiNode_of b (u16nat (mHeight n + 1)) q right, st'')))"
      proof (rule returns_bind [OF new_node_law [OF H(3) n'(2) ok few1]], clarify)
        fix q2 st2 assume q: "points_to q2 n'" "same_rest st1 st2" "heap_is st2 R (add_mset (getNode q2, n') (M + cells H))"
        have "live_nodes st2 \<le> live_nodes st + 2" using heap_is_count [OF H(3)] heap_is_count [OF q(3)] H(4) by simp
        moreover have "new_half height n r (insert_leaf k side v (i - length cl) r) q2 n'" using q(1) n'(2,3) by (simp add: new_half_def)
        moreover have "heap_is st2 R (M + cells H + {#(getNode q2, n')#})" using q(3) by simp
        moreover have "same_rest st st2" using H(2) q(2) by (rule same_rest_trans)
        ultimately show "returns rt (\<lambda>(B, st'). same_rest st st' \<and> live_nodes st' \<le> live_nodes st + 2 \<and> (\<exists>n' H qL qR. B = BiNode_of b (u16nat (mHeight n + 1)) qL qR \<and>
           old_half (mHeight n) l cl qL H \<and> new_half height n r (insert_leaf k side v (i - length cl) r) qR n' \<and>
           heap_is st' R (M + cells H + {#(getNode qR, n')#}))) (Inr (BiNode_of b (u16nat (mHeight n + 1)) q q2, st2))"
          using H(1) by auto
      qed
    qed
    then show ?thesis using False s(1) ts n'(1) by (auto simp: place_def)
  qed
qed

end
