(* ===== verification/Hot_Integrate_Law.thy ===== *)
theory Hot_Integrate_Law
  imports Hot_Halves
begin

text \<open>
  The law of \<open>integrateBiNodeIntoTree\<close>: it ends with a tree of nodes for the trie in which the subtree at the
  end of the path has become the binary node.
\<close>

unbundle bit_operations_syntax

section \<open>A parent that is split\<close>

lemma added_height_eq:
  assumes "leaves s = map ptr Cs" "j < length Cs" "alive st (Cs ! j)" "mHeight n = Suc (hheight (Cs ! j))" "mHeight n < 65536"
  shows "added_height (pointer_getHeight (node_objects st)) n s = mHeight n"
proof (cases s)
  case (PLeaf u)
  then have "Cs = [Cs ! j]" "u = ptr (Cs ! j)" using assms(1,2) by (auto simp: map_eq_Cons_conv)
  then show ?thesis using PLeaf assms(3-5) by (simp add: added_height_def alive_def u16nat_def)
qed (simp add: added_height_def)

text \<open>The new half once the entry that is replaced is written.\<close>

lemma new_half_tree:
  assumes new: "new_half (pointer_getHeight (node_objects st)) n s (insert_leaf b True (ptr HR) j s) q n'"
    and s: "leaves s = map ptr Cs" "j < length Cs" "\<forall>x \<in> path_bits j s. x < b"
    and live: "alive st (Cs ! j)" "mHeight n = Suc (hheight (Cs ! j))" "mHeight n < 65536"
    and cs: "\<forall>c \<in> set Cs. hwf c \<and> hheight c < mHeight n" and H: "hwf HL" "hwf HR" "hheight HL < mHeight n" "hheight HR < mHeight n"
    and heap: "heap_is st1 R (M + (sum_list (map cells (take j Cs)) + sum_list (map cells (drop (Suc j) Cs)) + cells HL + cells HR) +
      {#(getNode q, n')#})"
  shows "mHeight n' = mHeight n" "getNumberEntries n' = Suc (length Cs)" "node_objects st1 (getNode q) = Some n'" "\<not> isLeaf q"
    "\<exists>st2 G. write_slot (Entry_slot (getNode q) j) (ptr HL) st1 = Inr st2 \<and> same_rest st1 st2 \<and> live_nodes st2 = live_nodes st1 \<and> hwf G \<and> ptr G = q \<and>
       hheight G = mHeight n \<and> trie_of G = graft s ((map trie_of Cs) [j := PNode b (trie_of HL) (trie_of HR)]) \<and>
       heap_is st2 R (M + cells G)"
proof -
  have n': "points_to q n'" "node_wf n' (insert_leaf b True (ptr HR) j s)" "mHeight n' = mHeight n"
    using new added_height_eq [OF s(1,2) live] by (simp_all add: new_half_def)
  then show "mHeight n' = mHeight n" "\<not> isLeaf q" by (simp_all add: points_to_def)
  have len: "length (leaves (insert_leaf b True (ptr HR) j s)) = Suc (length Cs)" using s(1) by simp
  note d = node_wfD [OF n'(2)]
  show num: "getNumberEntries n' = Suc (length Cs)" using d(10) len by simp
  show "node_objects st1 (getNode q) = Some n'" by (rule heap_is_lookup [OF heap]) simp
  let ?M = "M + (sum_list (map cells (take j Cs)) + sum_list (map cells (drop (Suc j) Cs)) + cells HL + cells HR)"
  have heap': "heap_is st1 R (add_mset (getNode q, n') ?M)" using heap by simp
  obtain st2 where st2: "write_slot (Entry_slot (getNode q) j) (ptr HL) st1 = Inr st2" "same_rest st1 st2"
    "heap_is st2 R (add_mset (getNode q, set_ptr j (ptr HL) n') ?M)"
    using write_entry_law [OF heap', of j "ptr HL"] d(14) len s(2) num by auto
  let ?G = "HNode q (set_ptr j (ptr HL) n') (set_leaf j (ptr HL) (insert_leaf b True (ptr HR) j s))
    (take j Cs @ [HL, HR] @ drop (Suc j) Cs)"
  note g = pair_tree [OF n'(2,1) s, of HL, unfolded n'(3), OF cs H]
  then have "heap_is st2 R (M + cells ?G)" using st2(3) by (simp add: ac_simps)
  moreover have "live_nodes st2 = live_nodes st1" using heap_is_count [OF heap'] heap_is_count [OF st2(3)] by simp
  ultimately show "\<exists>st2 G. write_slot (Entry_slot (getNode q) j) (ptr HL) st1 = Inr st2 \<and> same_rest st1 st2 \<and> live_nodes st2 = live_nodes st1 \<and> hwf G \<and> ptr G = q \<and>
       hheight G = mHeight n \<and> trie_of G = graft s ((map trie_of Cs) [j := PNode b (trie_of HL) (trie_of HR)]) \<and>
       heap_is st2 R (M + cells G)"
    using st2(1,2) g n'(3) by (intro exI [of _ st2] exI [of _ ?G]) simp
qed

lemma integrate_split:
  assumes path: "path_frames H0 ((p, n, PNode b0 l r, cs, i) # fs) h" and wf: "hwf H0"
    and heap: "heap_is st R (ctx_cells ((p, n, PNode b0 l r, cs, i) # fs) + cells HL + cells HR)" and ok: "allocator_ok (posix_memalign rt)"
    and mem: "\<forall>st j. memory_ok 32 (new_contents rt st j)" and b: "b < 2048" and few: "Suc (live_nodes st) < NODE_LIMIT"
    and H: "hwf HL" "hwf HR" "hheight HL < mHeight n" "hheight HR < mHeight n"
    and h: "alive st h" "mHeight n = Suc (hheight h)" "Suc (mHeight n) < 65536"
    and above: "\<forall>x \<in> path_bits i (PNode b0 l r). x < b" "\<forall>x \<in> bits_of (PNode b0 l r). x < 64"
    and cont: "\<And>HL' HR' st2. hwf HL' \<Longrightarrow> hwf HR' \<Longrightarrow> hheight HL' \<le> mHeight n \<Longrightarrow> hheight HR' \<le> mHeight n \<Longrightarrow>
      PNode b0 (trie_of HL') (trie_of HR') = graft (PNode b0 l r) ((map trie_of cs) [i := PNode b (trie_of HL) (trie_of HR)]) \<Longrightarrow>
      same_rest st st2 \<Longrightarrow> live_nodes st2 \<le> live_nodes st + 2 \<Longrightarrow>
      heap_is st2 R (ctx_cells fs + cells HL' + cells HR' + {#(getNode p, n)#}) \<Longrightarrow>
      returns rt P (f (BiNode_of b0 (Suc (mHeight n)) (ptr HL') (ptr HR')) st2)"
  shows "\<exists>info. getInsertInformation undef n i (DiscriminativeBit_at (of_nat b) 1) = Inr info \<and>
    returns rt P (rbind (tree_split rt n info (ptr HR) st) (\<lambda>(B, st1).
      rbind (pointer_getHeight (node_objects st1) (bi_mLeft B)) (\<lambda>leftHeight.
      rbind (if leftHeight = mHeight n then pointer_getNumberEntries (node_objects st1) (bi_mLeft B) else Inr 1) (\<lambda>num.
      rbind (write_slot (Entry_slot (getNode (if num \<le> i then bi_mRight B else bi_mLeft B)) (sub32 i (if num \<le> i then num else 0)))
        (ptr HL) st1) (f B)))))"
proof -
  note fn = frame_node [OF path wf]
  let ?d = "DiscriminativeBit_at (of_nat b) 1" and ?X = "PNode b (trie_of HL) (trie_of HR)"
  have i: "i < length cs" "cs ! i = h" using path by simp_all
  have v: "(mBitValue ?d \<noteq> 0) = True" "mBitValue ?d \<in> {0, 1}" by (simp_all add: DiscriminativeBit_at_def)
  define cl cr where "cl = take (length (leaves l)) cs" and "cr = drop (length (leaves l)) cs"
  have cs: "cs = cl @ cr" by (simp add: cl_def cr_def)
  have lens: "length cs = length (leaves l) + length (leaves r)" using fn(9) by simp
  have l: "leaves l = map ptr cl" "leaves r = map ptr cr"
  proof -
    have "leaves l @ leaves r = map ptr cl @ map ptr cr" using fn(4) cs by simp
    moreover have "length (leaves l) = length (map ptr cl)" using lens by (simp add: cl_def)
    ultimately show "leaves l = map ptr cl" "leaves r = map ptr cr" using append_eq_append_conv by blast+
  qed
  have len: "length cl = length (leaves l)" "length cr = length (leaves r)" using l by simp_all
  have small: "mHeight n < 65536" using h(3) by simp
  have ins: "insertable b i (PNode b0 l r)" by (rule insertable_path) (use above(1) in auto)
  have bb: "b0 < b" using above(1) by simp
  have live: "alive st c" if c: "c \<in> set cs" for c
  proof -
    obtain j where j: "j < length cs" "c = cs ! j" using c by (auto simp: in_set_conv_nth)
    show ?thesis
    proof (cases "j = i")
      case False
      have "c \<in> set (take i cs) \<or> c \<in> set (drop (Suc i) cs)"
        using j False by (cases "j < i") (auto simp: in_set_conv_nth intro: exI [of _ j] exI [of _ "j - Suc i"])
      moreover have "hwf c" using c fn(8) by simp
      ultimately show ?thesis
        by (intro hwf_alive) (auto simp: in_sum_cells intro!: heap_is_lookup [OF heap])
    qed (use h(1) i j in simp)
  qed
  have cs': "\<forall>c \<in> set (cl @ cr). hwf c \<and> hheight c < mHeight n \<and> alive st c" using fn(8) live cs by simp
  have il: "i < length (cl @ cr)" using i cs by simp
  show ?thesis
  proof (cases "i < length cl")
    case True
    define M where "M = {#(getNode p, n)#} + ctx_cells fs"
    have heap1: "heap_is st R (M + (sum_list (map cells (take i cl)) + sum_list (map cells (drop (Suc i) cl)) + cells HL + cells HR) +
        sum_list (map cells (if i < length cl then cr else cl)))"
      using heap True by (simp add: M_def cs ac_simps)
    obtain info where info: "getInsertInformation undef n i ?d = Inr info"
      "returns rt (\<lambda>(B, st'). same_rest st st' \<and> live_nodes st' \<le> live_nodes st + 2 \<and> (\<exists>n' H qL qR. B = BiNode_of b0 (u16nat (mHeight n + 1)) qL qR \<and>
         new_half (pointer_getHeight (node_objects st)) n l (insert_leaf b True (ptr HR) i l) qL n' \<and> old_half (mHeight n) r cr qR H \<and>
         heap_is st' R (M + (sum_list (map cells (take i cl)) + sum_list (map cells (drop (Suc i) cl)) + cells HL + cells HR) + cells H +
           {#(getNode qL, n')#}))) (tree_split rt n info (ptr HR) st)"
      using split_law [OF fn(2) l il cs' dbit_for_at [OF b] v(2) ins bb above(2) ok mem [THEN spec, of st] few heap1,
        unfolded v(1) if_P [OF True], of undef "ptr HR"] by blast
    have path': "\<forall>x \<in> path_bits i l. x < b" and hi: "cl ! i = h" using above(1) True len i(2) by (simp_all add: cs nth_append)
    have Cl: "\<forall>c \<in> set cl. hwf c \<and> hheight c < mHeight n" using cs' by simp
    show ?thesis
    proof (intro exI conjI, rule info(1), rule returns_bind [OF info(2)], clarify)
      fix n' HR' qL qR st1
      assume st1: "same_rest st st1" "live_nodes st1 \<le> live_nodes st + 2" and new: "new_half (pointer_getHeight (node_objects st)) n l (insert_leaf b True (ptr HR) i l) qL n'"
        and old: "old_half (mHeight n) r cr qR HR'" and heap2: "heap_is st1 R (M +
          (sum_list (map cells (take i cl)) + sum_list (map cells (drop (Suc i) cl)) + cells HL + cells HR) + cells HR' + {#(getNode qL, n')#})"
      have heap3: "heap_is st1 R (M + cells HR' +
          (sum_list (map cells (take i cl)) + sum_list (map cells (drop (Suc i) cl)) + cells HL + cells HR) + {#(getNode qL, n')#})"
        using heap2 by (simp add: ac_simps)
      note N = new_half_tree [OF new l(1) True path' h(1,2) [folded hi] small Cl H heap3]
      obtain st2 G where G: "write_slot (Entry_slot (getNode qL) i) (ptr HL) st1 = Inr st2" "same_rest st1 st2" "hwf G" "ptr G = qL"
        "hheight G = mHeight n" "trie_of G = graft l ((map trie_of cl) [i := ?X])" "heap_is st2 R (M + cells HR' + cells G)"
        "live_nodes st2 \<le> live_nodes st + 2"
        using N(5) st1(2) by auto
      have HR': "ptr HR' = qR" "hwf HR'" "trie_of HR' = graft r (map trie_of cr)" "hheight HR' \<le> mHeight n"
        using old by (simp_all add: old_half_def)
      have T: "PNode b0 (trie_of G) (trie_of HR') = graft (PNode b0 l r) ((map trie_of cs) [i := ?X])"
        using True graft_append [of "(map trie_of cl) [i := ?X]" l b0 r "map trie_of cr"] len
        by (simp only: G(6) HR'(3) cs map_append list_update_append length_map length_list_update if_P)
      have heap4: "heap_is st2 R (ctx_cells fs + cells G + cells HR' + {#(getNode p, n)#})"
        using G(7) by (simp add: M_def ac_simps)
      have fin: "returns rt P (f (BiNode_of b0 (Suc (mHeight n)) qL qR) st2)"
        using cont [OF G(3) HR'(2) _ HR'(4) T same_rest_trans [OF st1(1) G(2)] G(8) heap4] G(4,5) HR'(1) by simp
      have height: "pointer_getHeight (node_objects st1) qL = Inr (mHeight n)" "pointer_getNumberEntries (node_objects st1) qL = Inr (Suc (length cl))"
        using N(1-4) by (simp_all add: pointer_getHeight_def pointer_getNumberEntries_def node_at_def)
      have up: "\<not> Suc (length cl) \<le> i" "sub32 i 0 = i" using True fn(5) node_wfD(9) [OF fn(2)] by simp_all
      show "returns rt P (rbind (pointer_getHeight (node_objects st1) (bi_mLeft (BiNode_of b0 (u16nat (mHeight n + 1)) qL qR))) (\<lambda>leftHeight.
          rbind (if leftHeight = mHeight n then pointer_getNumberEntries (node_objects st1) (bi_mLeft (BiNode_of b0 (u16nat (mHeight n + 1)) qL qR)) else Inr 1) (\<lambda>num.
          rbind (write_slot (Entry_slot (getNode (if num \<le> i then bi_mRight (BiNode_of b0 (u16nat (mHeight n + 1)) qL qR)
              else bi_mLeft (BiNode_of b0 (u16nat (mHeight n + 1)) qL qR))) (sub32 i (if num \<le> i then num else 0)))
            (ptr HL) st1) (f (BiNode_of b0 (u16nat (mHeight n + 1)) qL qR)))))"
        using fin h(3) G(1) by (simp add: BiNode_of_def height up)
    qed
  next
    case False
    define j where "j = i - length cl"
    have ij: "i = length cl + j" and j: "j < length cr" using False il by (simp_all add: j_def)
    have nl: "\<not> i < length (leaves l)" using False len by simp
    define M where "M = {#(getNode p, n)#} + ctx_cells fs"
    have heap1: "heap_is st R (M + (sum_list (map cells (take j cr)) + sum_list (map cells (drop (Suc j) cr)) + cells HL + cells HR) +
        sum_list (map cells (if i < length cl then cr else cl)))"
      using heap False by (simp add: M_def cs ij ac_simps)
    obtain info where info: "getInsertInformation undef n i ?d = Inr info"
      "returns rt (\<lambda>(B, st'). same_rest st st' \<and> live_nodes st' \<le> live_nodes st + 2 \<and> (\<exists>n' H qL qR. B = BiNode_of b0 (u16nat (mHeight n + 1)) qL qR \<and>
         old_half (mHeight n) l cl qL H \<and> new_half (pointer_getHeight (node_objects st)) n r (insert_leaf b True (ptr HR) j r) qR n' \<and>
         heap_is st' R (M + (sum_list (map cells (take j cr)) + sum_list (map cells (drop (Suc j) cr)) + cells HL + cells HR) + cells H +
           {#(getNode qR, n')#}))) (tree_split rt n info (ptr HR) st)"
      using split_law [OF fn(2) l il cs' dbit_for_at [OF b] v(2) ins bb above(2) ok mem [THEN spec, of st] few heap1,
        unfolded v(1) if_not_P [OF False], of undef "ptr HR", folded j_def] by blast
    have path': "\<forall>x \<in> path_bits j r. x < b" and hi: "cr ! j = h"
      using above(1) nl len i(2) by (simp_all add: cs nth_append ij)
    have Cr: "\<forall>c \<in> set cr. hwf c \<and> hheight c < mHeight n" using cs' by simp
    show ?thesis
    proof (intro exI conjI, rule info(1), rule returns_bind [OF info(2)], clarify)
      fix n' HL' qL qR st1
      assume st1: "same_rest st st1" "live_nodes st1 \<le> live_nodes st + 2" and new: "new_half (pointer_getHeight (node_objects st)) n r (insert_leaf b True (ptr HR) j r) qR n'"
        and old: "old_half (mHeight n) l cl qL HL'" and heap2: "heap_is st1 R (M +
          (sum_list (map cells (take j cr)) + sum_list (map cells (drop (Suc j) cr)) + cells HL + cells HR) + cells HL' + {#(getNode qR, n')#})"
      have heap3: "heap_is st1 R (M + cells HL' +
          (sum_list (map cells (take j cr)) + sum_list (map cells (drop (Suc j) cr)) + cells HL + cells HR) + {#(getNode qR, n')#})"
        using heap2 by (simp add: ac_simps)
      obtain st2 G where G: "write_slot (Entry_slot (getNode qR) j) (ptr HL) st1 = Inr st2" "same_rest st1 st2" "hwf G" "ptr G = qR"
        "hheight G = mHeight n" "trie_of G = graft r ((map trie_of cr) [j := ?X])" "heap_is st2 R (M + cells HL' + cells G)"
        "live_nodes st2 \<le> live_nodes st + 2"
        using new_half_tree(5) [OF new l(2) j path' h(1,2) [folded hi] small Cr H heap3] st1(2) by auto
      have HL': "ptr HL' = qL" "hwf HL'" "trie_of HL' = graft l (map trie_of cl)" "hheight HL' \<le> mHeight n"
        "lower_entries (mHeight n) HL' = length cl"
        using old len by (simp_all add: old_half_def)
      have T: "PNode b0 (trie_of HL') (trie_of G) = graft (PNode b0 l r) ((map trie_of cs) [i := ?X])"
        using graft_append [of "map trie_of cl" l b0 r "(map trie_of cr) [j := ?X]"] len
        by (simp add: G(6) HL'(3) cs list_update_append ij)
      have heap4: "heap_is st2 R (ctx_cells fs + cells HL' + cells G + {#(getNode p, n)#})"
        using G(7) by (simp add: M_def ac_simps)
      have fin: "returns rt P (f (BiNode_of b0 (Suc (mHeight n)) qL qR) st2)"
        using cont [OF HL'(2) G(3) HL'(4) _ T same_rest_trans [OF st1(1) G(2)] G(8) heap4] G(4,5) HL'(1) by simp
      have heap5: "heap_is st1 R (M + (sum_list (map cells (take j cr)) + sum_list (map cells (drop (Suc j) cr)) + cells HL + cells HR) +
          {#(getNode qR, n')#} + cells HL')"
        using heap2 by (simp add: ac_simps)
      obtain hh where height: "pointer_getHeight (node_objects st1) qL = Inr hh"
        "(if hh = mHeight n then pointer_getNumberEntries (node_objects st1) qL else Inr 1) = Inr (length cl)"
        using lower_entries_read [OF HL'(2) heap5, of "mHeight n"] HL'(1,5) by auto
      have up: "length cl \<le> i" "sub32 i (length cl) = j" using ij fn(5) node_wfD(9) [OF fn(2)] by simp_all
      show "returns rt P (rbind (pointer_getHeight (node_objects st1) (bi_mLeft (BiNode_of b0 (u16nat (mHeight n + 1)) qL qR))) (\<lambda>leftHeight.
          rbind (if leftHeight = mHeight n then pointer_getNumberEntries (node_objects st1) (bi_mLeft (BiNode_of b0 (u16nat (mHeight n + 1)) qL qR)) else Inr 1) (\<lambda>num.
          rbind (write_slot (Entry_slot (getNode (if num \<le> i then bi_mRight (BiNode_of b0 (u16nat (mHeight n + 1)) qL qR)
              else bi_mLeft (BiNode_of b0 (u16nat (mHeight n + 1)) qL qR))) (sub32 i (if num \<le> i then num else 0)))
            (ptr HL) st1) (f (BiNode_of b0 (u16nat (mHeight n + 1)) qL qR)))))"
        unfolding BiNode_of_def BiNode.simps height(1) rbind_simps height(2) if_P [OF up(1)] up(2) G(1)
        using fin h(3) by (simp add: BiNode_of_def)
    qed
  qed
qed

section \<open>The whole path\<close>

lemma path_height: "path_frames H0 fs h \<Longrightarrow> hwf H0 \<Longrightarrow> hheight h \<le> hheight H0"
proof (induction fs arbitrary: h)
  case (Cons f fs)
  obtain p n t cs i where f: "f = (p, n, t, cs, i)" by (metis prod_cases5)
  have "hheight (HNode p n t cs) \<le> hheight H0" by (rule Cons.IH) (use Cons.prems f in simp_all)
  moreover have "h \<in> set cs" "hwf (HNode p n t cs)"
    using Cons.prems f path_frames_wf [of H0 fs "HNode p n t cs"] nth_mem by auto
  ultimately show ?case by auto
qed simp

lemma points_read:
  assumes "points_to p n" "node_objects st (getNode p) = Some n"
  shows "executeForSpecificNodeType (node_objects st) p f = f n" "node_at (node_objects st) p = Inr n"
    "pointer_getHeight (node_objects st) p = Inr (mHeight n)"
  using assms by (simp_all add: points_to_def executeForSpecificNodeType_node node_at_def pointer_getHeight_def)

lemma full_node: "node_wf n t \<Longrightarrow> node_isFull n \<longleftrightarrow> length (leaves t) = 32"
proof -
  assume n: "node_wf n t"
  note d = node_wfD [OF n]
  have "mask N = (mask 32 :: u32) \<longleftrightarrow> N = 32" if "N \<le> 32" for N :: nat
  proof
    assume "mask N = (mask 32 :: u32)"
    then have "popcnt (mask N :: u32) = popcnt (mask 32 :: u32)" by simp
    then show "N = 32" using popcnt_mask [of N] popcnt_mask [of 32] that by simp
  qed simp
  moreover have "ALL_ENTRIES_USED = mask 32" by (simp add: ALL_ENTRIES_USED_def mask_eq_exp_minus_1)
  ultimately show ?thesis using d(9,11) by (simp add: node_isFull_def)
qed

lemma integrate_law:
  assumes ok: "allocator_ok (posix_memalign rt)" and mem: "\<forall>st j. memory_ok 32 (new_contents rt st j)"
    and wf: "hwf H0" and low: "Suc (hheight H0) < 65536"
    and path: "path_frames H0 fs h" and root: "root_pointer st r = ptr H0" and stack: "stack_ok r fs stack"
    and heap: "heap_is st R (ctx_cells fs + cells HL + cells HR)"
    and H: "hwf HL" "hwf HR" "hheight HL \<le> hheight h" "hheight HR \<le> hheight h"
    and h: "alive st h" and above: "bits_above b fs" "b < 64" and few: "live_nodes st + 2 * length fs + 2 \<le> NODE_LIMIT"
  shows "returns rt (tree_becomes r R (trie_fill fs (PNode b (trie_of HL) (trie_of HR))) (Suc (hheight H0)) st)
    (integrateBiNodeIntoTree rt stack (length fs) (BiNode_of b (Suc (hheight h)) (ptr HL) (ptr HR)) True st)"
  using path root stack heap H h above few
proof (induction fs arbitrary: h HL HR b st R)
  case Nil
  have "hheight h \<le> hheight H0" by (rule path_height [OF Nil.prems(1) wf])
  then show ?case
    using integrate_here [OF Nil.prems(1) wf Nil.prems(2,4) ok memory_ok_mono [OF mem [THEN spec, THEN spec]] _ _ Nil.prems(5,6),
        of b "Suc (hheight h)"] Nil.prems stack_ok_top [OF Nil.prems(3)]
    by simp
next
  case (Cons f fs)
  obtain p n t cs i where f: "f = (p, n, t, cs, i)" by (metis prod_cases5)
  note P = Cons.prems [unfolded f]
  let ?B = "BiNode_of b (Suc (hheight h)) (ptr HL) (ptr HR)" and ?d = "DiscriminativeBit_at (of_nat b) 1"
  let ?Q = "tree_becomes r R (trie_fill ((p, n, t, cs, i) # fs) (PNode b (trie_of HL) (trie_of HR)))"
  note fn = frame_node [OF P(1) wf]
  have pf: "path_frames H0 fs (HNode p n t cs)" and i: "i < length cs" "cs ! i = h" using P(1) by simp_all
  have node: "node_objects st (getNode p) = Some n" by (rule heap_is_lookup [OF P(4)]) simp
  note pr = points_read [OF fn(1) node]
  have so: "stack_ok r fs stack" "mSearchResultForInsert (stack ! length fs) = \<lparr> mEntryIndex = i, mMostSignificantBitIndex = root_bit t \<rparr>"
    using P(3) by simp_all
  note top = stack_ok_top [OF so(1)] and top' = stack_ok_top [OF P(3), simplified]
  have heapf: "heap_is st R (ctx_cells fs + (add_mset (getNode p, n)
      (sum_list (map cells (take i cs)) + sum_list (map cells (drop (Suc i) cs))) + cells HL + cells HR))"
    using P(4) by (simp add: ac_simps)
  have hole: "read_slot st (hole_slot r fs) = Inr p" using read_hole [OF pf wf P(2) heapf] by simp
  have above: "\<forall>x \<in> path_bits i t. x < b" "\<forall>x \<in> bits_of t. x < 64" "bits_above (root_bit t) fs" using P(10) by simp_all
  have b: "b < 2048" and few: "live_nodes st < NODE_LIMIT" "Suc (live_nodes st) < NODE_LIMIT" using P(11,12) by simp_all
  have up: "hheight h < mHeight n" using path_room [OF P(1) wf] by simp
  have eq: "integrateBiNodeIntoTree rt stack (Suc (length fs)) ?B True st =
    (if Suc (hheight h) < mHeight n
     then rbind (tree_two_entries rt ?B st) (\<lambda>(q, st'). write_slot (hole_slot r ((p, n, t, cs, i) # fs)) q st')
     else rbind (getInsertInformation (undef_index rt) n i ?d) (\<lambda>info.
       if \<not> node_isFull n
       then rbind (tree_addEntry rt n info (ptr HR) st) (\<lambda>(q, st1).
         rbind (write_slot (Entry_slot (getNode q) i) (ptr HL) st1) (\<lambda>st2.
         rbind (write_slot (hole_slot r fs) q st2) (delete_node (getNode p))))
       else rbind (tree_split rt n info (ptr HR) st) (\<lambda>(B, st1).
         rbind (pointer_getHeight (node_objects st1) (bi_mLeft B)) (\<lambda>leftHeight.
         rbind (if leftHeight = mHeight n then pointer_getNumberEntries (node_objects st1) (bi_mLeft B) else Inr 1) (\<lambda>num.
         rbind (write_slot (Entry_slot (getNode (if num \<le> i then bi_mRight B else bi_mLeft B)) (sub32 i (if num \<le> i then num else 0)))
           (ptr HL) st1) (\<lambda>st2. rbind (integrateBiNodeIntoTree rt stack (length fs) B True st2) (delete_node (getNode p))))))))"
    by (simp add: top top' hole so(2) pr BiNode_of_def Let_def cong: if_cong)
  show ?case
  proof (cases "Suc (hheight h) < mHeight n")
    case True
    have "returns rt (?Q (Suc (hheight H0)) st)
        (rbind (tree_two_entries rt ?B st) (\<lambda>(q, st'). write_slot (hole_slot r ((p, n, t, cs, i) # fs)) q st'))"
      by (rule integrate_here [OF P(1) wf P(2,4) ok memory_ok_mono [OF mem [THEN spec, THEN spec]] b few(1) P(5,6)])
        (use True P(7,8) in simp_all)
    then show ?thesis using True eq by (simp add: f)
  next
    case False
    have mh: "mHeight n = Suc (hheight h)" using False up by simp
    have low': "hheight HL < mHeight n" "hheight HR < mHeight n" using P(7,8) mh by simp_all
    have len32: "length cs \<le> 32" using node_wfD(9) [OF fn(2)] fn(9) by simp
    show ?thesis
    proof (cases "node_isFull n")
      case notfull: False
      then have "length cs \<le> 31" using full_node [OF fn(2)] fn(9) len32 by simp
      then obtain info where info: "getInsertInformation (undef_index rt) n i ?d = Inr info"
        "returns rt (?Q (hheight H0) st) (rbind (tree_addEntry rt n info (ptr HR) st) (\<lambda>(q, st1).
           rbind (write_slot (Entry_slot (getNode q) i) (ptr HL) st1) (\<lambda>st2.
           rbind (write_slot (hole_slot r fs) q st2) (delete_node (getNode p)))))"
        using integrate_grow [OF P(1) wf P(2,4) ok mem [THEN spec, THEN spec] b few(1) _ P(5,6) low' above(1,2)] by blast
      have "returns rt (?Q (Suc (hheight H0)) st) (integrateBiNodeIntoTree rt stack (Suc (length fs)) ?B True st)"
        unfolding eq using returns_mono [OF info(2) tree_becomes_mono] False notfull info(1) by simp
      then show ?thesis by (simp add: f)
    next
      case full: True
      obtain b0 l0 r0 where t: "t = PNode b0 l0 r0" using fn(3) by (cases t) simp_all
      have nh: "Suc (mHeight n) < 65536" using path_height [OF pf wf] low by simp
      obtain info where info: "getInsertInformation (undef_index rt) n i ?d = Inr info"
        "returns rt (?Q (Suc (hheight H0)) st) (rbind (tree_split rt n info (ptr HR) st) (\<lambda>(B, st1).
         rbind (pointer_getHeight (node_objects st1) (bi_mLeft B)) (\<lambda>leftHeight.
         rbind (if leftHeight = mHeight n then pointer_getNumberEntries (node_objects st1) (bi_mLeft B) else Inr 1) (\<lambda>num.
         rbind (write_slot (Entry_slot (getNode (if num \<le> i then bi_mRight B else bi_mLeft B)) (sub32 i (if num \<le> i then num else 0)))
           (ptr HL) st1) (\<lambda>st2. rbind (integrateBiNodeIntoTree rt stack (length fs) B True st2) (delete_node (getNode p)))))))"
      proof (atomize_elim, rule integrate_split [OF P(1) [unfolded t] wf P(4) [unfolded t] ok mem b few(2) P(5,6) low' P(9) mh nh above(1,2) [unfolded t]])
        fix HL' HR' st2
        assume H': "hwf HL'" "hwf HR'" "hheight HL' \<le> mHeight n" "hheight HR' \<le> mHeight n"
          and T: "PNode b0 (trie_of HL') (trie_of HR') = graft (PNode b0 l0 r0) ((map trie_of cs) [i := PNode b (trie_of HL) (trie_of HR)])"
          and st2: "same_rest st st2" and n2: "live_nodes st2 \<le> live_nodes st + 2"
          and heap2: "heap_is st2 R (ctx_cells fs + cells HL' + cells HR' + {#(getNode p, n)#})"
        have root2: "root_pointer st2 r = ptr H0" using P(2) same_rest_fields(3) [OF st2] by simp
        have "node_objects st2 (getNode p) = Some n" by (rule heap_is_lookup [OF heap2]) simp
        then have live: "alive st2 (HNode p n t cs)" using points_read(3) [OF fn(1)] by (simp add: alive_def)
        have b0: "b0 < 64" using above(2) t by simp
        have "returns rt (tree_becomes r R (trie_fill fs (PNode b0 (trie_of HL') (trie_of HR'))) (Suc (hheight H0)) st2)
            (rbind (integrateBiNodeIntoTree rt stack (length fs) (BiNode_of b0 (Suc (mHeight n)) (ptr HL') (ptr HR')) True st2)
              (delete_node (getNode p)))"
        proof (rule delete_old [OF heap2 fn(2)])
          fix R' assume "heap_is st2 R' (ctx_cells fs + cells HL' + cells HR')"
          then show "returns rt (tree_becomes r R' (trie_fill fs (PNode b0 (trie_of HL') (trie_of HR'))) (Suc (hheight H0)) st2)
              (integrateBiNodeIntoTree rt stack (length fs) (BiNode_of b0 (Suc (mHeight n)) (ptr HL') (ptr HR')) True st2)"
            using Cons.IH [OF pf root2 so(1) _ H'(1,2) _ _ live] H'(3,4) above(3) t n2 P(12) b0 by simp
        qed
        then have "returns rt (tree_becomes r R (trie_fill fs (PNode b0 (trie_of HL') (trie_of HR'))) (Suc (hheight H0)) st)
            (rbind (integrateBiNodeIntoTree rt stack (length fs) (BiNode_of b0 (Suc (mHeight n)) (ptr HL') (ptr HR')) True st2)
              (delete_node (getNode p)))"
          by (rule returns_mono) (rule tree_becomes_after [OF st2])
        then show "returns rt (?Q (Suc (hheight H0)) st) (rbind (integrateBiNodeIntoTree rt stack (length fs)
            (BiNode_of b0 (Suc (mHeight n)) (ptr HL') (ptr HR')) True st2) (delete_node (getNode p)))"
          using T t by simp
      qed
      have "returns rt (?Q (Suc (hheight H0)) st) (integrateBiNodeIntoTree rt stack (Suc (length fs)) ?B True st)"
        unfolding eq using False full info by simp
      then show ?thesis by (simp add: f)
    qed
  qed
qed

end
