(* ===== verification/Hot_Insert_Law.thy ===== *)
theory Hot_Insert_Law
  imports Hot_Integrate_Law
begin

text \<open>
  Inserting a value below a path: the node at its end grows, is split, or becomes one side of a new binary
  node.  In each case the trie of the tree becomes the trie with the key inserted at its bit.
\<close>

unbundle bit_operations_syntax

section \<open>A new leaf among the children\<close>

lemma sum_cells_spliced:
  "s + c \<le> length cs \<Longrightarrow> sum_list (map cells (spliced side s c (HLeaf v) id cs)) = sum_list (map cells cs)"
proof -
  assume a: "s + c \<le> length cs"
  have "cs = take s cs @ take c (drop s cs) @ drop (s + c) cs"
    unfolding append.assoc [symmetric] take_add [symmetric] by simp
  from arg_cong [OF this, of "\<lambda>xs. sum_list (map cells xs)"]
  have "sum_list (map cells cs) = sum_list (map cells (take s cs)) + (sum_list (map cells (take c (drop s cs))) +
      sum_list (map cells (drop (s + c) cs)))"
    unfolding map_append sum_list_append .
  then show ?thesis by (simp add: spliced_def ac_simps)
qed

lemma map_spliced: "map g (spliced side s c x id xs) = spliced side s c (g x) id (map g xs)"
  by (simp add: spliced_def take_map drop_map)

lemma set_spliced: "set (spliced side s c x id xs) \<subseteq> insert x (set xs)"
  unfolding spliced_def by (auto dest: in_set_takeD in_set_dropD)

lemma grown_tree:
  assumes n': "node_wf n' (insert_leaf k side v i t)" and q: "points_to q n'" and t: "leaves t = map ptr cs"
    and i: "i = key_walk bs t" and st: "stops k (map trie_of cs ! i)" and v: "isLeaf v"
    and cs: "\<forall>c \<in> set cs. hwf c \<and> hheight c < mHeight n'"
  shows "\<exists>G. hwf G \<and> ptr G = q \<and> hheight G = mHeight n' \<and> trie_of G = insert_key k side v bs (graft t (map trie_of cs)) \<and>
    cells G = add_mset (getNode q, n') (sum_list (map cells cs))"
proof -
  obtain s c where sc: "subtree_range (before k) i t = (s, c)" by fastforce
  have il: "i < length (leaves t)" unfolding i by simp
  have len: "length (leaves t) = length cs" using t by simp
  have b: "s + c \<le> length cs" using subtree_range_bounds [OF il, of "before k"] sc len by simp
  let ?cs = "spliced side s c (HLeaf v) id cs"
  let ?G = "HNode q n' (insert_leaf k side v i t) ?cs"
  have "0 < mHeight n'" using cs il len by (cases cs) auto
  moreover have "leaves (insert_leaf k side v i t) = map ptr ?cs"
    using leaves_insert_leaf [OF il, of k side v] by (simp add: sc t map_spliced)
  ultimately have "hwf ?G" using n' q cs v set_spliced [of side s c "HLeaf v" cs] by auto
  moreover have "graft (insert_leaf k side v (key_walk bs t) t) (spliced side s c (PLeaf v) id (map trie_of cs)) =
      insert_key k side v bs (graft t (map trie_of cs))"
    by (rule graft_insert) (use st sc len i in simp_all)
  then have "trie_of ?G = insert_key k side v bs (graft t (map trie_of cs))" by (simp add: map_spliced i)
  ultimately show ?thesis using sum_cells_spliced [OF b] by (intro exI [of _ ?G]) simp
qed

section \<open>The node grows\<close>

lemma grow_value:
  assumes path: "path_frames H0 ((p, n, t, cs, i) # fs) h" and wf: "hwf H0" and root: "root_pointer st r = ptr H0"
    and heap: "heap_is st R (cells H0)" and ok: "allocator_ok (posix_memalign rt)"
    and mem: "memory_ok 32 (new_contents rt st 0)" and d: "dbit_for d k" and small: "length cs \<le> 31"
    and i: "i = key_walk bs t" and st: "stops k (trie_of h)" and ins: "insertable k i t"
    and low: "\<forall>x \<in> bits_of t. x < 64" and v: "isLeaf v" and few: "live_nodes st < NODE_LIMIT"
  shows "\<exists>info. getInsertInformation undef n i d = Inr info \<and>
    returns rt (tree_becomes r R (trie_fill fs (insert_key k (mBitValue d \<noteq> 0) v bs (graft t (map trie_of cs)))) (hheight H0) st)
      (rbind (tree_addEntry rt n info v st) (\<lambda>(q, st1). rbind (write_slot (hole_slot r fs) q st1) (delete_node (getNode p))))"
proof -
  note fn = frame_node [OF path wf]
  have pf: "path_frames H0 fs (HNode p n t cs)" and ic: "i < length cs" "cs ! i = h" using path by simp_all
  let ?side = "mBitValue d \<noteq> 0"
  have "memory_ok (Suc (length (leaves t))) (new_contents rt st 0)" by (rule memory_ok_mono [OF mem]) (use small fn(9) in simp)
  then obtain info n' where n': "getInsertInformation undef n i d = Inr info"
    "addEntry (new_contents rt st 0) n info v = Inr n'" "node_wf n' (insert_leaf k ?side v i t)" "mHeight n' = mHeight n"
    using addEntry_wf [OF fn(2,5) _ d reach_of_bits(2) [OF fn(2) low] ins, where mem = "new_contents rt st 0" and undef = undef and v = v]
      small fn(9) by auto
  have "returns rt (tree_becomes r R (trie_fill fs (insert_key k ?side v bs (graft t (map trie_of cs)))) (hheight H0) st)
      (rbind (new_node rt n' st) (\<lambda>(q, st1). rbind (write_slot (hole_slot r fs) q st1) (delete_node (getNode p))))"
  proof (rule returns_bind [OF new_node_law [OF heap n'(3) ok few]], clarify)
    fix q st1 assume q: "points_to q n'" and st1: "same_rest st st1" "heap_is st1 R (add_mset (getNode q, n') (cells H0))"
    obtain G where G: "hwf G" "ptr G = q" "hheight G = mHeight n'" "trie_of G = insert_key k ?side v bs (graft t (map trie_of cs))"
      "cells G = add_mset (getNode q, n') (sum_list (map cells cs))"
      using grown_tree [OF n'(3) q fn(4) i _ v] st ic fn(8) n'(4) by auto
    have "heap_is st1 R (ctx_cells fs + cells G + {#(getNode p, n)#})"
      using st1(2) unfolding G(5) path_frames_cells [OF pf] by (simp add: ac_simps)
    moreover have "root_pointer st1 r = ptr H0" using root same_rest_fields(3) [OF st1(1)] by simp
    ultimately obtain st2 where st2: "rbind (write_slot (hole_slot r fs) q st1) (delete_node (getNode p)) = Inr st2"
      "tree_becomes r R (trie_fill fs (trie_of G)) (hheight H0) st1 st2"
      using replace_node_law [OF pf wf _ _ G(1)] G(2,3) n'(4) by metis
    then show "returns rt (tree_becomes r R (trie_fill fs (insert_key k ?side v bs (graft t (map trie_of cs)))) (hheight H0) st)
        (rbind (write_slot (hole_slot r fs) q st1) (delete_node (getNode p)))"
      using tree_becomes_after [OF st1(1)] G(4) by simp
  qed
  then show ?thesis using n'(1,2) by (auto simp: tree_addEntry_def)
qed

section \<open>A new binary node\<close>

lemma heap_alive: "heap_is st R (M + cells h) \<Longrightarrow> hwf h \<Longrightarrow> alive st h"
  by (rule hwf_alive) (auto intro!: heap_is_lookup)

lemma integrate_value:
  assumes ok: "allocator_ok (posix_memalign rt)" and mem: "\<forall>st j. memory_ok 32 (new_contents rt st j)"
    and wf: "hwf H0" and low: "Suc (hheight H0) < 65536"
    and path: "path_frames H0 fs h" and root: "root_pointer st r = ptr H0" and stack: "stack_ok r fs stack"
    and heap: "heap_is st R (cells H0)" and above: "bits_above k fs" "k < 64" and d: "dbit_for d k" and v: "isLeaf v"
    and few: "live_nodes st + 2 * length fs + 2 \<le> NODE_LIMIT"
  shows "returns rt (tree_becomes r R (trie_fill fs (join k (mBitValue d \<noteq> 0) v (trie_of h))) (Suc (hheight H0)) st)
    (rbind (createFromExistingAndNewEntry (pointer_getHeight (node_objects st)) d (ptr h) v) (\<lambda>binaryNode.
      integrateBiNodeIntoTree rt stack (length fs) binaryNode True st))"
proof -
  have h: "hwf h" by (rule path_frames_wf [OF path wf])
  have heap': "heap_is st R (ctx_cells fs + cells h)" using heap unfolding path_frames_cells [OF path] .
  have live: "alive st h" by (rule heap_alive [OF heap' h])
  have nl: "hheight h < 65535" using path_height [OF path wf] low by simp
  have k: "unat (mAbsoluteBitIndex d) = k" using d by (simp add: dbit_for_def)
  have V: "hwf (HLeaf v)" "hheight (HLeaf v) \<le> hheight h" "cells (HLeaf v) = {#}" using v by simp_all
  note L = integrate_law [OF ok mem wf low path root stack, where R = R and b = k]
  show ?thesis
  proof (cases "mBitValue d \<noteq> 0")
    case True
    have "returns rt (tree_becomes r R (trie_fill fs (PNode k (trie_of h) (trie_of (HLeaf v)))) (Suc (hheight H0)) st)
        (integrateBiNodeIntoTree rt stack (length fs) (BiNode_of k (Suc (hheight h)) (ptr h) (ptr (HLeaf v))) True st)"
      by (rule L) (use heap' h V live above few in simp_all)
    then show ?thesis
      using live nl k True by (simp add: createFromExistingAndNewEntry_def alive_def join_def)
  next
    case False
    have "returns rt (tree_becomes r R (trie_fill fs (PNode k (trie_of (HLeaf v)) (trie_of h))) (Suc (hheight H0)) st)
        (integrateBiNodeIntoTree rt stack (length fs) (BiNode_of k (Suc (hheight h)) (ptr (HLeaf v)) (ptr h)) True st)"
      by (rule L) (use heap' h V live above few in simp_all)
    then show ?thesis
      using live nl k False by (simp add: createFromExistingAndNewEntry_def alive_def join_def)
  qed
qed

section \<open>The node is split\<close>

lemma split_value:
  assumes ok: "allocator_ok (posix_memalign rt)" and mem: "\<forall>st j. memory_ok 32 (new_contents rt st j)"
    and wf: "hwf H0" and low: "Suc (hheight H0) < 65536" and stack: "stack_ok r fs stack"
    and path: "path_frames H0 ((p, n, PNode b l r', cs, i) # fs) h" and root: "root_pointer st r = ptr H0"
    and heap: "heap_is st R (cells H0)" and d: "dbit_for d k" "mBitValue d \<in> {0, 1}"
    and i: "i = key_walk bs (PNode b l r')" and bk: "b < k" and many: "snd (subtree_range (before k) i (PNode b l r')) \<noteq> 1"
    and st: "stops k (trie_of h)" and ins: "insertable k i (PNode b l r')"
    and bits: "\<forall>x \<in> bits_of (PNode b l r'). x < 64" and above: "bits_above b fs" and v: "isLeaf v"
    and few: "live_nodes st + 2 * Suc (length fs) + 2 \<le> NODE_LIMIT"
  shows "\<exists>info. getInsertInformation undef n i d = Inr info \<and>
    returns rt (tree_becomes r R (trie_fill fs (insert_key k (mBitValue d \<noteq> 0) v bs (graft (PNode b l r') (map trie_of cs)))) (Suc (hheight H0)) st)
      (rbind (tree_split rt n info v st) (\<lambda>(binaryNode, st1).
         rbind (integrateBiNodeIntoTree rt stack (length fs) binaryNode True st1) (delete_node (getNode p))))"
proof -
  note fn = frame_node [OF path wf]
  have pf: "path_frames H0 fs (HNode p n (PNode b l r') cs)" and ic: "i < length cs" "cs ! i = h" using path by simp_all
  let ?side = "mBitValue d \<noteq> 0" and ?height = "pointer_getHeight (node_objects st)"
  define T where "T = insert_key k ?side v bs (graft (PNode b l r') (map trie_of cs))"
  let ?f = "\<lambda>(B, st1). rbind (integrateBiNodeIntoTree rt stack (length fs) B True st1) (delete_node (getNode p))"
  define cl cr where "cl = take (length (leaves l)) cs" and "cr = drop (length (leaves l)) cs"
  have cs: "cs = cl @ cr" by (simp add: cl_def cr_def)
  have lens: "length cs = length (leaves l) + length (leaves r')" using fn(9) by simp
  have lv: "leaves l = map ptr cl" "leaves r' = map ptr cr"
  proof -
    have "leaves l @ leaves r' = map ptr cl @ map ptr cr" using fn(4) cs by simp
    moreover have "length (leaves l) = length (map ptr cl)" using lens by (simp add: cl_def)
    ultimately show "leaves l = map ptr cl" "leaves r' = map ptr cr" using append_eq_append_conv by blast+
  qed
  have len: "length cl = length (leaves l)" "length cr = length (leaves r')" using lv by simp_all
  have H0: "cells H0 = {#(getNode p, n)#} + ctx_cells fs + sum_list (map cells cl) + sum_list (map cells cr)"
    unfolding path_frames_cells [OF pf] by (simp add: cs ac_simps)
  have cs': "\<forall>c \<in> set (cl @ cr). hwf c \<and> hheight c < mHeight n \<and> alive st c"
  proof
    fix c assume c: "c \<in> set (cl @ cr)"
    then have "hwf c \<and> hheight c < mHeight n" using fn(8) cs by simp
    moreover have "alive st c" if "hwf c" using that c
      by (intro hwf_alive) (auto simp: H0 in_sum_cells intro!: heap_is_lookup [OF heap])
    ultimately show "hwf c \<and> hheight c < mHeight n \<and> alive st c" by blast
  qed
  have nh: "Suc (mHeight n) < 65536" using path_height [OF pf wf] low by simp
  have k64: "b < 64" and few1: "Suc (live_nodes st) < NODE_LIMIT" using bits few by simp_all
  define M where "M = {#(getNode p, n)#} + ctx_cells fs"
  have finish: "returns rt (tree_becomes r R (trie_fill fs T) (Suc (hheight H0)) st)
      (?f (BiNode_of b (u16nat (mHeight n + 1)) (ptr HL) (ptr HR), st1))"
    if st1: "same_rest st st1" "heap_is st1 R (M + cells HL + cells HR)" "live_nodes st1 \<le> live_nodes st + 2" and H: "hwf HL" "hwf HR" "hheight HL \<le> mHeight n" "hheight HR \<le> mHeight n"
      and HT: "PNode b (trie_of HL) (trie_of HR) = T" for HL HR st1
  proof -
    have heap1: "heap_is st1 R (ctx_cells fs + cells HL + cells HR + {#(getNode p, n)#})"
      using st1(2) by (simp add: M_def ac_simps)
    have root1: "root_pointer st1 r = ptr H0" using root same_rest_fields(3) [OF st1(1)] by simp
    have "node_objects st1 (getNode p) = Some n" by (rule heap_is_lookup [OF heap1]) simp
    then have live: "alive st1 (HNode p n (PNode b l r') cs)" using points_read(3) [OF fn(1)] by (simp add: alive_def)
    have "returns rt (tree_becomes r R (trie_fill fs T) (Suc (hheight H0)) st1)
        (rbind (integrateBiNodeIntoTree rt stack (length fs) (BiNode_of b (Suc (mHeight n)) (ptr HL) (ptr HR)) True st1) (delete_node (getNode p)))"
    proof (rule delete_old [OF heap1 fn(2)])
      fix R' assume "heap_is st1 R' (ctx_cells fs + cells HL + cells HR)"
      from integrate_law [OF ok mem wf low pf root1 stack this H(1,2) _ _ live above k64] H(3,4) st1(3) few
      show "returns rt (tree_becomes r R' (trie_fill fs T) (Suc (hheight H0)) st1)
          (integrateBiNodeIntoTree rt stack (length fs) (BiNode_of b (Suc (mHeight n)) (ptr HL) (ptr HR)) True st1)"
        unfolding HT by simp
    qed
    from returns_mono [OF this tree_becomes_after [OF st1(1)]] nh show ?thesis by simp
  qed
  have new: "\<exists>G. hwf G \<and> ptr G = q \<and> hheight G = mHeight n \<and> trie_of G = insert_key k ?side v bs (graft s (map trie_of Cs)) \<and>
      cells G = add_mset (getNode q, n') (sum_list (map cells Cs))"
    if half: "new_half ?height n s (insert_leaf k ?side v (key_walk bs s) s) q n'" and s: "leaves s = map ptr Cs"
      "snd (subtree_range (before k) (key_walk bs s) s) \<noteq> 1" "stops k (map trie_of Cs ! key_walk bs s)"
      and C: "\<forall>c \<in> set Cs. hwf c \<and> hheight c < mHeight n" for s q n' Cs
  proof -
    have "mHeight n' = mHeight n" using half s(2) by (cases s) (simp_all add: new_half_def added_height_def)
    moreover have "node_wf n' (insert_leaf k ?side v (key_walk bs s) s)" "points_to q n'" using half by (simp_all add: new_half_def)
    ultimately show ?thesis using grown_tree [OF _ _ s(1) refl s(3) v] C by metis
  qed
  have il: "i < length (cl @ cr)" using ic cs by simp
  show ?thesis
  proof (cases "key_bit bs b")
    case False
    then have i': "i = key_walk bs l" "i < length cl" using i len by simp_all
    have hc: "map trie_of cl ! i = trie_of h" using ic i' by (simp add: cs nth_append)
    have many': "snd (subtree_range (before k) (key_walk bs l) l) \<noteq> 1" using many bk i' len by simp
    have Cl: "\<forall>c \<in> set cl. hwf c \<and> hheight c < mHeight n" using cs' by simp
    have heap1: "heap_is st R (M + sum_list (map cells cl) + sum_list (map cells (if i < length cl then cr else cl)))"
      using heap i'(2) by (simp add: H0 M_def ac_simps)
    obtain info where info: "getInsertInformation undef n i d = Inr info"
      "returns rt (\<lambda>(B, st'). same_rest st st' \<and> live_nodes st' \<le> live_nodes st + 2 \<and> (\<exists>n' H qL qR. B = BiNode_of b (u16nat (mHeight n + 1)) qL qR \<and>
         new_half ?height n l (insert_leaf k ?side v i l) qL n' \<and> old_half (mHeight n) r' cr qR H \<and>
         heap_is st' R (M + sum_list (map cells cl) + cells H + {#(getNode qL, n')#}))) (tree_split rt n info v st)"
      using split_law [OF fn(2) lv il cs' d ins bk bits ok mem [THEN spec, of st] few1 heap1, unfolded if_P [OF i'(2)], of undef v] by blast
    have "returns rt (tree_becomes r R (trie_fill fs T) (Suc (hheight H0)) st) (rbind (tree_split rt n info v st) ?f)"
    proof (rule returns_bind [OF info(2)], clarify)
      fix n' H qL qR st1
      assume st1: "same_rest st st1" "heap_is st1 R (M + sum_list (map cells cl) + cells H + {#(getNode qL, n')#})" "live_nodes st1 \<le> live_nodes st + 2"
        and half: "new_half ?height n l (insert_leaf k ?side v i l) qL n'" "old_half (mHeight n) r' cr qR H"
      obtain G where G: "hwf G" "ptr G = qL" "hheight G = mHeight n" "trie_of G = insert_key k ?side v bs (graft l (map trie_of cl))"
        "cells G = add_mset (getNode qL, n') (sum_list (map cells cl))"
        using new [OF half(1) [unfolded i'(1)] lv(1) many' _ Cl] st hc i'(1) by auto
      have H: "ptr H = qR" "hwf H" "trie_of H = graft r' (map trie_of cr)" "hheight H \<le> mHeight n"
        using half(2) by (simp_all add: old_half_def)
      have "PNode b (trie_of G) (trie_of H) = T"
        using False bk len by (simp add: T_def G(4) H(3) cs)
      moreover have "heap_is st1 R (M + cells G + cells H)" using st1(2) by (simp add: G(5) ac_simps)
      ultimately show "returns rt (tree_becomes r R (trie_fill fs T) (Suc (hheight H0)) st)
          (rbind (integrateBiNodeIntoTree rt stack (length fs) (BiNode_of b (u16nat (mHeight n + 1)) qL qR) True st1) (delete_node (getNode p)))"
        using finish [OF st1(1) _ st1(3) G(1) H(2) _ H(4)] G(2,3) H(1) by simp
    qed
    then show ?thesis using info(1) unfolding T_def by blast
  next
    case True
    define j where "j = i - length cl"
    have ij: "i = length cl + j" "j = key_walk bs r'" "\<not> i < length cl" "j < length cr" using True i len by (simp_all add: j_def)
    have hc: "map trie_of cr ! j = trie_of h" using ic ij(4) by (simp add: cs nth_append ij(1))
    have many': "snd (subtree_range (before k) (key_walk bs r') r') \<noteq> 1"
      using many bk ij len by (simp add: map_prod_def split_beta)
    have Cr: "\<forall>c \<in> set cr. hwf c \<and> hheight c < mHeight n" using cs' by simp
    have heap1: "heap_is st R (M + sum_list (map cells cr) + sum_list (map cells (if i < length cl then cr else cl)))"
      using heap ij(3) by (simp add: H0 M_def ac_simps)
    obtain info where info: "getInsertInformation undef n i d = Inr info"
      "returns rt (\<lambda>(B, st'). same_rest st st' \<and> live_nodes st' \<le> live_nodes st + 2 \<and> (\<exists>n' H qL qR. B = BiNode_of b (u16nat (mHeight n + 1)) qL qR \<and>
         old_half (mHeight n) l cl qL H \<and> new_half ?height n r' (insert_leaf k ?side v j r') qR n' \<and>
         heap_is st' R (M + sum_list (map cells cr) + cells H + {#(getNode qR, n')#}))) (tree_split rt n info v st)"
      using split_law [OF fn(2) lv il cs' d ins bk bits ok mem [THEN spec, of st] few1 heap1, unfolded if_not_P [OF ij(3)], of undef v,
        folded j_def] by blast
    have "returns rt (tree_becomes r R (trie_fill fs T) (Suc (hheight H0)) st) (rbind (tree_split rt n info v st) ?f)"
    proof (rule returns_bind [OF info(2)], clarify)
      fix n' H qL qR st1
      assume st1: "same_rest st st1" "heap_is st1 R (M + sum_list (map cells cr) + cells H + {#(getNode qR, n')#})" "live_nodes st1 \<le> live_nodes st + 2"
        and half: "old_half (mHeight n) l cl qL H" "new_half ?height n r' (insert_leaf k ?side v j r') qR n'"
      obtain G where G: "hwf G" "ptr G = qR" "hheight G = mHeight n" "trie_of G = insert_key k ?side v bs (graft r' (map trie_of cr))"
        "cells G = add_mset (getNode qR, n') (sum_list (map cells cr))"
        using new [OF half(2) [unfolded ij(2)] lv(2) many' _ Cr] st hc ij(2) by auto
      have H: "ptr H = qL" "hwf H" "trie_of H = graft l (map trie_of cl)" "hheight H \<le> mHeight n"
        using half(1) by (simp_all add: old_half_def)
      have "PNode b (trie_of H) (trie_of G) = T"
        using True bk len by (simp add: T_def G(4) H(3) cs)
      moreover have "heap_is st1 R (M + cells H + cells G)" using st1(2) by (simp add: G(5) ac_simps)
      ultimately show "returns rt (tree_becomes r R (trie_fill fs T) (Suc (hheight H0)) st)
          (rbind (integrateBiNodeIntoTree rt stack (length fs) (BiNode_of b (u16nat (mHeight n + 1)) qL qR) True st1) (delete_node (getNode p)))"
        using finish [OF st1(1) _ st1(3) H(2) G(1) H(4)] G(2,3) H(1) by simp
    qed
    then show ?thesis using info(1) unfolding T_def by blast
  qed
qed

end
