(* ===== verification/Hot_Insert_Node.thy ===== *)
theory Hot_Insert_Node
  imports Hot_Insert_Law
begin

text \<open>
  The law of \<open>insertNewValueIntoNode\<close>: whichever way the value is put into the tree, the trie of the tree
  is the old one with the key inserted.
\<close>

unbundle bit_operations_syntax

section \<open>Bits below a node\<close>

lemma root_bit_least: "ordered T \<Longrightarrow> x \<in> bits_of T \<Longrightarrow> root_bit T \<le> x"
  by (cases T) (auto intro: less_imp_le)

lemma ordered_graft:
  "ordered (graft t Ts) \<Longrightarrow> length Ts = length (leaves t) \<Longrightarrow> i < length Ts \<Longrightarrow>
   ordered t \<and> ordered (Ts ! i) \<and> (\<forall>x \<in> path_bits i t. \<forall>y \<in> bits_of (Ts ! i). x < y)"
proof (induction t arbitrary: Ts i)
  case (PLeaf v)
  then show ?case by (auto simp: length_Suc_conv)
next
  case (PNode b l r)
  obtain xs ys where Ts: "Ts = xs @ ys" "length xs = length (leaves l)" "length ys = length (leaves r)"
    using split_list_at PNode.prems(2) by (metis leaves.simps(2) length_append)
  have o: "ordered (graft l xs)" "ordered (graft r ys)" "\<forall>c \<in> bits_of (graft l xs) \<union> bits_of (graft r ys). b < c"
    using PNode.prems(1) unfolding Ts(1) graft_append [OF Ts(2)] by simp_all
  note bg = bits_of_graft [OF Ts(2)] bits_of_graft [OF Ts(3)]
  have pos: "0 < length xs" "0 < length ys" using Ts by simp_all
  have "ordered l" "ordered r" using PNode.IH(1) [OF o(1) Ts(2) pos(1)] PNode.IH(2) [OF o(2) Ts(3) pos(2)] by blast+
  then have t: "ordered (PNode b l r)" using o(3) bg by auto
  show ?case
  proof (cases "i < length xs")
    case True
    then show ?thesis using PNode.IH(1) [OF o(1) Ts(2) True] t o(3) bg Ts(2) nth_mem [OF True] by (auto simp: Ts(1) nth_append)
  next
    case False
    then have j: "i - length xs < length ys" using PNode.prems(3) Ts(1) by simp
    then show ?thesis using PNode.IH(2) [OF o(2) Ts(3) j] t o(3) bg Ts(2) False nth_mem [OF j] by (auto simp: Ts(1) nth_append)
  qed
qed

lemma path_ordered: "path_frames H0 fs h \<Longrightarrow> hwf H0 \<Longrightarrow> ordered (trie_of H0) \<Longrightarrow> ordered (trie_of h) \<and> bits_of (trie_of h) \<subseteq> bits_of (trie_of H0)"
proof (induction fs arbitrary: h)
  case (Cons f fs)
  obtain p n t cs i where f: "f = (p, n, t, cs, i)" by (metis prod_cases5)
  have pf: "path_frames H0 fs (HNode p n t cs)" "i < length cs" "cs ! i = h" using Cons.prems(1) f by simp_all
  have l: "leaves t = map ptr cs" using frame_node(4) Cons.prems(1,2) f by blast
  have o: "ordered (graft t (map trie_of cs))" "bits_of (graft t (map trie_of cs)) \<subseteq> bits_of (trie_of H0)"
    using Cons.IH [OF pf(1)] Cons.prems(2,3) by simp_all
  moreover have "bits_of (trie_of h) \<subseteq> bits_of (graft t (map trie_of cs))"
    using bits_of_graft [of "map trie_of cs" t] l pf nth_mem [of i cs] by auto
  ultimately show ?case using ordered_graft [OF o(1), of i] l pf by auto
qed simp

lemma read_tree:
  assumes "path_frames H0 fs h" "hwf H0" "root_pointer st r = ptr H0" "heap_is st R (cells H0)"
  shows "read_slot st (hole_slot r fs) = Inr (ptr h)"
  by (rule read_hole [OF assms(1-3)]) (use assms(4) in \<open>unfold path_frames_cells [OF assms(1)]\<close>)

section \<open>A node that becomes one side of a new root\<close>

lemma root_information:
  assumes n: "node_wf n t" and low: "\<forall>x \<in> bits_of t. k < x" and d: "dbit_for d k" and reach: "mapping_reach (mDiscriminativeBitsRepresentation n) k"
    and i: "i < length (leaves t)"
  shows "getInsertInformation undef n i d = Inr \<lparr> mSubtreePrefixPartialKey = 0, mFirstIndexInAffectedSubtree = 0,
    mNumberEntriesInAffectedSubtree = getNumberEntries n, mKeyInformation = d \<rparr>"
proof -
  have "paths {} t ! i \<subseteq> bits_of t" using paths_bounds [of "paths {} t ! i" "{}" t] nth_mem [of i "paths {} t"] i by simp
  then have "paths {} t ! i \<inter> before k = {}" using low by fastforce
  moreover have "subtree_range (before k) i t = (0, length (leaves t))" using low by (cases t) auto
  ultimately show ?thesis using insert_information [OF n i d reach, of undef] node_wfD(10) [OF n] by simp
qed

lemma partition_root_law:
  assumes ok: "allocator_ok (posix_memalign rt)" and mem: "\<forall>st j. memory_ok 32 (new_contents rt st j)"
    and wf: "hwf H0" and low: "Suc (hheight H0) < 65536" and stack: "stack_ok r fs stack"
    and path: "path_frames H0 fs (HNode p n t cs)" and root: "root_pointer st r = ptr H0"
    and heap: "heap_is st R (cells H0)" and d: "dbit_for d k" and bits: "\<forall>x \<in> bits_of (graft t (map trie_of cs)). k < x \<and> x < 64"
    and above: "bits_above k fs" and k: "k < 64" and v: "isLeaf v" and few: "live_nodes st + 2 * length fs + 2 \<le> NODE_LIMIT"
  shows "returns rt (tree_becomes r R (trie_fill fs (insert_key k (mBitValue d \<noteq> 0) v bs (graft t (map trie_of cs)))) (Suc (hheight H0)) st)
    (insertNewValueResultingInNewPartitionRoot rt p n stack d (length fs) v st)"
proof -
  have w: "hwf (HNode p n t cs)" by (rule path_frames_wf [OF path wf])
  have len: "length (map trie_of cs) = length (leaves t)" using w by simp
  note bg = bits_of_graft [OF len]
  define i where "i = key_walk bs t"
  have i: "i < length cs" "i < length (leaves t)" using len by (simp_all add: i_def)
  have path': "path_frames H0 ((p, n, t, cs, i) # fs) (cs ! i)" using path i by simp
  note fn = frame_node [OF path' wf]
  have tb: "\<forall>x \<in> bits_of t. k < x" "\<forall>x \<in> bits_of t. x < 64" using bits bg by auto
  have st: "stops k (trie_of (cs ! i))"
  proof -
    have "bits_of (trie_of (cs ! i)) \<subseteq> bits_of (graft t (map trie_of cs))" using bg nth_mem [OF i(1)] by auto
    then show ?thesis using bits by (cases "trie_of (cs ! i)") auto
  qed
  have ins: "insertable k i t" using tb(1) by (cases t) auto
  have stg: "stops k (graft t (map trie_of cs))" using bits by (cases "graft t (map trie_of cs)") auto
  note top = stack_ok_top [OF stack]
  have hole: "read_slot st (hole_slot r fs) = Inr p" using read_tree [OF path wf root heap] by simp
  show ?thesis
  proof (cases "node_isFull n")
    case False
    then have "length cs \<le> 31" using full_node [OF fn(2)] fn(9) node_wfD(9) [OF fn(2)] by simp
    from grow_value [OF path' wf root heap ok mem [THEN spec, THEN spec] d this i_def st ins tb(2) v _, of "undef_index rt"] few
    have "returns rt (tree_becomes r R (trie_fill fs (insert_key k (mBitValue d \<noteq> 0) v bs (graft t (map trie_of cs)))) (hheight H0) st)
      (rbind (tree_addEntry rt n \<lparr> mSubtreePrefixPartialKey = 0, mFirstIndexInAffectedSubtree = 0,
          mNumberEntriesInAffectedSubtree = getNumberEntries n, mKeyInformation = d \<rparr> v st)
        (\<lambda>(q, st1). rbind (write_slot (hole_slot r fs) q st1) (delete_node (getNode p))))"
      using root_information [OF fn(2) tb(1) d reach_of_bits(2) [OF fn(2) tb(2)] i(2), of "undef_index rt"] by simp
    from returns_mono [OF this tree_becomes_mono] show ?thesis
      using False top by (simp add: insertNewValueResultingInNewPartitionRoot_def)
  next
    case True
    from integrate_value [OF ok mem wf low path root stack heap above k d v few]
    have "returns rt (tree_becomes r R (trie_fill fs (insert_key k (mBitValue d \<noteq> 0) v bs (graft t (map trie_of cs)))) (Suc (hheight H0)) st)
      (rbind (createFromExistingAndNewEntry (pointer_getHeight (node_objects st)) d p v) (\<lambda>binaryNode.
        integrateBiNodeIntoTree rt stack (length fs) binaryNode True st))"
      by (simp add: insert_key_stops [OF stg])
    then show ?thesis
      using True top hole by (simp add: insertNewValueResultingInNewPartitionRoot_def)
  qed
qed

section \<open>The node found\<close>

lemma insert_value_law:
  assumes ok: "allocator_ok (posix_memalign rt)" and mem: "\<forall>st j. memory_ok 32 (new_contents rt st j)"
    and wf: "hwf H0" and low: "Suc (hheight H0) < 65536" and stack: "stack_ok r ((p, n, t, cs, i) # fs) stack"
    and path: "path_frames H0 ((p, n, t, cs, i) # fs) h" and root: "root_pointer st r = ptr H0"
    and heap: "heap_is st R (cells H0)" and d: "dbit_for d k" "mBitValue d \<in> {0, 1}" and i: "i = key_walk bs t"
    and many: "snd (subtree_range (before k) i t) \<noteq> 1" and st: "stops k (trie_of h)" and new: "k \<notin> path_bits i t"
    and bits: "\<forall>x \<in> bits_of t. x < 64" and above: "bits_above (root_bit t) fs" "fs = [] \<or> root_bit t < k" and k: "k < 64" and v: "isLeaf v"
    and few: "live_nodes st + 2 * Suc (length fs) + 2 \<le> NODE_LIMIT"
  shows "\<exists>info. getInsertInformation (undef_index rt) n i d = Inr info \<and>
    returns rt (tree_becomes r R (trie_fill fs (insert_key k (mBitValue d \<noteq> 0) v bs (graft t (map trie_of cs)))) (Suc (hheight H0)) st)
    (insertNewValue rt p n stack info (length fs) v st)"
proof -
  note fn = frame_node [OF path wf]
  have pf: "path_frames H0 fs (HNode p n t cs)" using path by simp
  have so: "stack_ok r fs stack" "mSearchResultForInsert (stack ! length fs) = \<lparr> mEntryIndex = i, mMostSignificantBitIndex = root_bit t \<rparr>"
    using stack by simp_all
  note top = stack_ok_top [OF so(1)]
  have hole: "read_slot st (hole_slot r fs) = Inr p" using read_tree [OF pf wf root heap] by simp
  have ins: "insertable k i t" by (rule insertable_path [OF new])
  have kd: "unat (mAbsoluteBitIndex d) = k" using d(1) by (simp add: dbit_for_def)
  obtain b l r' where t: "t = PNode b l r'" using fn(3) by (cases t) simp_all
  obtain info where info: "getInsertInformation (undef_index rt) n i d = Inr info" "mKeyInformation info = d"
    using insert_information [OF fn(2,5) d(1) reach_of_bits(2) [OF fn(2) bits]] by auto
  have full: "node_isFull n \<or> length cs \<le> 31" using full_node [OF fn(2)] fn(9) node_wfD(9) [OF fn(2)] by auto
  consider "\<not> node_isFull n" | "node_isFull n" "b < k" | "node_isFull n" "\<not> b < k" by blast
  then have "returns rt (tree_becomes r R (trie_fill fs (insert_key k (mBitValue d \<noteq> 0) v bs (graft t (map trie_of cs)))) (Suc (hheight H0)) st)
    (insertNewValue rt p n stack info (length fs) v st)"
  proof cases
    case 1
    then have "length cs \<le> 31" using full by blast
    from grow_value [OF path wf root heap ok mem [THEN spec, THEN spec] d(1) this i st ins bits v _, of "undef_index rt"] few
    have "returns rt (tree_becomes r R (trie_fill fs (insert_key k (mBitValue d \<noteq> 0) v bs (graft t (map trie_of cs)))) (hheight H0) st)
      (rbind (tree_addEntry rt n info v st) (\<lambda>(q, st1). rbind (write_slot (hole_slot r fs) q st1) (delete_node (getNode p))))"
      using info(1) by simp
    from returns_mono [OF this tree_becomes_mono] show ?thesis using 1 top by (simp add: insertNewValue_def)
  next
    case 2
    have above': "bits_above b fs" using above(1) t by simp
    from split_value [OF ok mem wf low so(1) path [unfolded t] root heap d i [unfolded t] 2(2) many [unfolded t] st ins [unfolded t]
        bits [unfolded t] above' v few, of "undef_index rt"]
    show ?thesis using 2 top so(2) kd info by (simp add: insertNewValue_def t)
  next
    case 3
    then have "k < b" using new t by (cases "k = b") auto
    then have fs: "fs = []" using above(2) t by auto
    have "stops k (graft t (map trie_of cs))" using 3(2) t by simp
    from integrate_value [OF ok mem wf low pf root so(1) heap _ k d(1) v] few
    have "returns rt (tree_becomes r R (trie_fill fs (insert_key k (mBitValue d \<noteq> 0) v bs (graft t (map trie_of cs)))) (Suc (hheight H0)) st)
      (rbind (createFromExistingAndNewEntry (pointer_getHeight (node_objects st)) d p v) (\<lambda>binaryNode.
        integrateBiNodeIntoTree rt stack (length fs) binaryNode True st))"
      by (simp add: insert_key_stops [OF \<open>stops k (graft t (map trie_of cs))\<close>] fs)
    then show ?thesis using 3 top so(2) kd info hole t by (simp add: insertNewValue_def)
  qed
  then show ?thesis using info(1) by blast
qed

lemma insert_into_node_law:
  assumes ok: "allocator_ok (posix_memalign rt)" and mem: "\<forall>st j. memory_ok 32 (new_contents rt st j)"
    and wf: "hwf H0" and low: "Suc (hheight H0) < 65536" and stack: "stack_ok r ((p, n, t, cs, i) # fs) stack"
    and path: "path_frames H0 ((p, n, t, cs, i) # fs) h" and root: "root_pointer st r = ptr H0"
    and heap: "heap_is st R (cells H0)" and d: "dbit_for d k" "mBitValue d \<in> {0, 1}" and i: "i = key_walk bs t"
    and st: "k < root_bit (trie_of h)" and new: "k \<notin> path_bits i t" and ord: "ordered (graft t (map trie_of cs))"
    and bits: "\<forall>x \<in> bits_of (graft t (map trie_of cs)). x < 64"
    and above: "bits_above (root_bit t) fs" "fs = [] \<or> root_bit t < k" and k: "k < 64" and v: "isLeaf v"
    and few: "live_nodes st + 2 * Suc (length fs) + 2 \<le> NODE_LIMIT" and leaf: "Suc (length fs) = leafDepth \<longleftrightarrow> (\<exists>q. h = HLeaf q)"
  shows "returns rt (tree_becomes r R (trie_fill fs (insert_key k (mBitValue d \<noteq> 0) v bs (graft t (map trie_of cs)))) (Suc (hheight H0)) st)
    (insertNewValueIntoNode rt stack d (length fs) leafDepth v st)"
proof -
  note fn = frame_node [OF path wf]
  let ?T = "trie_fill fs (insert_key k (mBitValue d \<noteq> 0) v bs (graft t (map trie_of cs)))"
  have pf: "path_frames H0 fs (HNode p n t cs)" and ic: "i < length cs" "cs ! i = h" using path by simp_all
  have so: "stack_ok r fs stack" "mSearchResultForInsert (stack ! length fs) = \<lparr> mEntryIndex = i, mMostSignificantBitIndex = root_bit t \<rparr>"
    using stack by simp_all
  note top = stack_ok_top [OF so(1)] and top' = stack_ok_top [OF stack, simplified]
  have node: "node_objects st (getNode p) = Some n" by (rule heap_is_lookup [OF heap]) (simp add: path_frames_cells [OF pf])
  note pr = points_read [OF fn(1) node]
  have hole: "read_slot st (hole_slot r fs) = Inr p" "read_slot st (Entry_slot (getNode p) i) = Inr (ptr h)"
    using read_tree [OF pf wf root heap] read_tree [OF path wf root heap] by simp_all
  have len: "length (map trie_of cs) = length (leaves t)" using fn(9) by simp
  have tb: "\<forall>x \<in> bits_of t. x < 64" using bits bits_of_graft [OF len] by simp
  have stop: "stops k (trie_of h)" using st by (cases "trie_of h") auto
  let ?c = "snd (subtree_range (before k) i t)"
  obtain info where info: "getInsertInformation (undef_index rt) n i d = Inr info" "getNumberEntriesInAffectedSubtree info = ?c"
      "mKeyInformation info = d"
    using insert_information [OF fn(2,5) d(1) reach_of_bits(2) [OF fn(2) tb]] by (auto simp: getNumberEntriesInAffectedSubtree_def)
  show ?thesis
  proof (cases "?c = 1")
    case False
    from insert_value_law [OF ok mem wf low stack path root heap d i False stop new tb above k v few]
    show ?thesis using False top so(2) hole info by (simp add: insertNewValueIntoNode_def Let_def pr)
  next
    case single: True
    have below: "\<forall>x \<in> path_bits i t. x < k" using subtree_single [OF fn(5) single] by blast
    then have above': "bits_above k ((p, n, t, cs, i) # fs)" using tb above(1) by simp
    have T: "trie_fill ((p, n, t, cs, i) # fs) (insert_key k (mBitValue d \<noteq> 0) v bs (trie_of h)) = ?T"
      using graft_descend [OF len, of bs k "mBitValue d \<noteq> 0" v] below ic i by simp
    show ?thesis
    proof (cases h)
      case (HLeaf q)
      from integrate_value [OF ok mem wf low path root stack heap above' k d(1) v] few
      have "returns rt (tree_becomes r R ?T (Suc (hheight H0)) st)
          (rbind (createFromExistingAndNewEntry (pointer_getHeight (node_objects st)) d (ptr h) v) (\<lambda>binaryNode.
            integrateBiNodeIntoTree rt stack (Suc (length fs)) binaryNode True st))"
        using T by (simp add: insert_key_stops [OF stop])
      then show ?thesis
        using single HLeaf leaf top top' so(2) hole info
        by (simp add: insertNewValueIntoNode_def Let_def pr del: integrateBiNodeIntoTree.simps)
    next
      case (HNode p' n' t' cs')
      have node': "node_objects st (getNode p') = Some n'"
        by (rule heap_is_lookup [OF heap]) (simp add: path_frames_cells [OF path] HNode)
      have w': "hwf (HNode p' n' t' cs')" using path_frames_wf [OF path wf] HNode by simp
      then have "points_to p' n'" by simp
      note pr' = points_read(1) [OF this node']
      have sub: "bits_of (trie_of h) \<subseteq> bits_of (graft t (map trie_of cs))" using bits_of_graft [OF len] ic nth_mem [of i cs] by auto
      have "k < x \<and> x < 64" if "x \<in> bits_of (graft t' (map trie_of cs'))" for x
      proof -
        have x: "x \<in> bits_of (trie_of h)" using that HNode by simp
        have oh: "ordered (trie_of h)" using ordered_graft [OF ord len, of i] ic by simp
        show ?thesis using st root_bit_least [OF oh x] x sub bits by auto
      qed
      then have "returns rt (tree_becomes r R ?T (Suc (hheight H0)) st)
          (insertNewValueResultingInNewPartitionRoot rt p' n' stack d (Suc (length fs)) v st)"
        using partition_root_law [OF ok mem wf low stack path [unfolded HNode] root heap d(1) _ above' k v _, of bs] T HNode few by simp
      then show ?thesis
        using single HNode leaf top top' so(2) hole info by (simp add: insertNewValueIntoNode_def Let_def pr pr')
    qed
  qed
qed

end
