(* ===== verification/Hot_Insert_Search.thy ===== *)
theory Hot_Insert_Search
  imports Hot_Insert_Node
begin

text \<open>
  The search that fills the insert stack: it follows the path of the key, records a frame for each node on
  it and ends at the leaf of the key within the 64 entries of the stack.
\<close>

unbundle bit_operations_syntax

section \<open>The search within a node\<close>

lemma extractMask_exact:
  "extract_mask g = 0 \<Longrightarrow> mapping_extractMask_mask M bs 0 g = rbind (mapping_extractMask M bs) (\<lambda>k. Inr (k, g))"
  by (cases M) (simp_all add: sm_extractMask_mask_def sm_extractMask_def extractMaskFromSuccessiveBytes_mask_def
      extractMaskFromSuccessiveBytes_def mm_extractMask_mask_def mm_extractMask_def rbind_def split: sum.splits)

lemma node_root_bit: "node_wf n t \<Longrightarrow> \<not> is_leaf t \<Longrightarrow> mapping_mostSignificantIndex (mDiscriminativeBitsRepresentation n) = root_bit t"
proof -
  assume n: "node_wf n t" and t: "\<not> is_leaf t"
  note d = node_wfD [OF n]
  have "Min (bits_of t) = root_bit t" using t d(8) by (cases t) (auto intro!: Min_eqI intro: less_imp_le)
  then show ?thesis using mapping_most_law [OF d(1)] d(18) by simp
qed

lemma searchForInsert_walk:
  assumes n: "node_wf n t" "\<not> is_leaf t" and g: "extract_mask g = 0" and reads: "mapping_reads (mDiscriminativeBitsRepresentation n) \<le> length bs"
  shows "\<exists>g'. extract_mask g' = 0 \<and>
    node_searchForInsert undef n bs g = Inr (key_walk bs t, \<lparr> mEntryIndex = key_walk bs t, mMostSignificantBitIndex = root_bit t \<rparr>, g') \<and>
    node_searchForInsert_mask undef n bs 0 g = Inr (key_walk bs t, \<lparr> mEntryIndex = key_walk bs t, mMostSignificantBitIndex = root_bit t \<rparr>, g')"
proof -
  from node_search_walk [OF n(1) g reads, of undef]
  obtain dense m g1 where s: "mapping_extractMask (mDiscriminativeBitsRepresentation n) bs = Inr dense"
    "keys_search (key_width n) dense (mEntries n) g = Inr (m, g1)"
    "toResultIndex undef n m g1 = (key_walk bs t, g \<lparr> wildcard_affected_entry_mask := wildcard_affected_entry_mask g AND mUsedEntriesMask n \<rparr>)"
    by (auto simp: node_search_def rbind_eq_Inr)
  show ?thesis
    using g by (simp add: node_searchForInsert_def node_searchForInsert_mask_def extractMask_exact s node_root_bit [OF n]
        SearchResultForInsert_init_def)
qed

section \<open>The path of a key\<close>

fun walks :: "u8 list \<Rightarrow> frame list \<Rightarrow> bool" where
  "walks bs [] \<longleftrightarrow> True"
| "walks bs ((p, n, t, cs, i) # fs) \<longleftrightarrow> i = key_walk bs t \<and> walks bs fs"

lemma root_bit_in: "\<not> is_leaf t \<Longrightarrow> i < length (leaves t) \<Longrightarrow> root_bit t \<in> path_bits i t"
  by (cases t) simp_all

lemma root_bit_graft: "\<not> is_leaf t \<Longrightarrow> root_bit (graft t Ts) = root_bit t"
  by (cases t) simp_all

text \<open>The first bits of the nodes on a path increase from 1, so a path has at most 63 nodes.\<close>

lemma depth_bound:
  assumes "path_frames H0 fs (HNode p n t cs)" "hwf H0" "ordered (trie_of H0)" "0 \<notin> bits_of (trie_of H0)"
  shows "length fs < root_bit t"
  using assms(1)
proof (induction fs arbitrary: p n t cs)
  case Nil
  then have "root_bit t \<in> bits_of (trie_of H0)" using assms(2) by (cases t) auto
  then show ?case using assms(4) by (cases "root_bit t") auto
next
  case (Cons f fs)
  obtain p' n' t' cs' i where f: "f = (p', n', t', cs', i)" by (metis prod_cases5)
  have pf: "path_frames H0 fs (HNode p' n' t' cs')" and i: "i < length cs'" "cs' ! i = HNode p n t cs" using Cons.prems f by simp_all
  have "length fs < root_bit t'" by (rule Cons.IH [OF pf])
  moreover have "root_bit t' < root_bit t"
  proof -
    note fn = frame_node [OF Cons.prems [unfolded f] assms(2)]
    have "ordered (graft t' (map trie_of cs'))" using path_ordered [OF pf assms(2,3)] by simp
    then have "\<forall>x \<in> path_bits i t'. \<forall>y \<in> bits_of (graft t (map trie_of cs)). x < y"
      using ordered_graft [of t' "map trie_of cs'" i] fn(9) i by simp
    moreover have "root_bit t' \<in> path_bits i t'" by (rule root_bit_in [OF fn(3,5)])
    moreover have "root_bit t \<in> bits_of (graft t (map trie_of cs))"
      using path_frames_wf [OF Cons.prems assms(2)] by (cases t) simp_all
    ultimately show ?thesis by blast
  qed
  ultimately show ?case by simp
qed

lemma depth_bound_leaf:
  assumes "path_frames H0 fs (HLeaf q)" "hwf H0" "ordered (trie_of H0)" "bits_of (trie_of H0) \<subseteq> {1..<64}"
  shows "length fs < 64"
proof (cases fs)
  case (Cons f fs')
  obtain p n t cs i where f: "f = (p, n, t, cs, i)" by (metis prod_cases5)
  have pf: "path_frames H0 fs' (HNode p n t cs)" using assms(1) Cons f by simp
  have "length fs' < root_bit t" by (rule depth_bound [OF pf assms(2,3)]) (use assms(4) in auto)
  moreover have "root_bit t \<in> bits_of (trie_of H0)"
    using path_ordered [OF pf assms(2,3)] path_frames_wf [OF pf assms(2)] by (cases t) auto
  ultimately show ?thesis using assms(4) Cons by auto
qed simp

section \<open>The loop\<close>

lemma root_pointer_globals [simp]: "root_pointer (st \<lparr> hot_globals := g \<rparr>) r = root_pointer st r"
  by (cases r) (simp_all add: root_pointer_def)

lemma read_slot_globals [simp]: "read_slot (st \<lparr> hot_globals := g \<rparr>) s = read_slot st s"
  by (cases s) (simp_all add: read_slot_def)

lemma heap_is_globals [simp]: "heap_is (st \<lparr> hot_globals := g \<rparr>) R M \<longleftrightarrow> heap_is st R M"
  by (simp add: heap_is_def)

lemma stack_ok_append: "stack_ok r fs xs \<Longrightarrow> stack_ok r fs (xs @ ys)"
proof (induction r fs xs rule: stack_ok.induct)
  case (2 r p n t cs i fs xs)
  then show ?case by (simp add: nth_append)
qed (simp add: nth_append)

lemma search_loop_law:
  assumes wf: "hwf H0" and root: "root_pointer st r = ptr H0" and heap: "heap_is st R (cells H0)"
    and ord: "ordered (trie_of H0)" and bits: "bits_of (trie_of H0) \<subseteq> {1..<64}" and wild: "wild = None \<or> wild = Some 0"
    and len8: "length bs = 8"
    and path: "path_frames H0 fs h" and walk: "walks bs fs" and stack: "length stack = length fs"
      "\<And>e. mChildPointer e = hole_slot r fs \<Longrightarrow> stack_ok r fs (stack @ [e])" and g: "extract_mask g = 0"
  shows "\<exists>stack' fs' g'. search_loop rt wild bs (hole_slot r fs, stack) (st \<lparr> hot_globals := g \<rparr>) =
      Some (Inr (stack', st \<lparr> hot_globals := g' \<rparr>)) \<and> extract_mask g' = 0 \<and>
    path_frames H0 fs' (HLeaf (find_leaf bs (trie_of h))) \<and> walks bs fs' \<and> stack_ok r fs' stack' \<and>
    length stack' = Suc (length fs') \<and> mMostSignificantBitIndex (mSearchResultForInsert (stack' ! length fs')) = 65535"
  using path walk stack g
proof (induction h arbitrary: fs stack g)
  case (HLeaf q)
  let ?st = "st \<lparr> hot_globals := g \<rparr>"
  have rd: "read_slot st (hole_slot r fs) = Inr q"
    using read_tree [OF HLeaf.prems(1) wf root heap] by simp
  have lf: "isLeaf q" using path_frames_wf [OF HLeaf.prems(1) wf] by simp
  have room: "length stack < 64" using depth_bound_leaf [OF HLeaf.prems(1) wf ord bits] HLeaf.prems(3) by simp
  let ?e = "initLeaf (undef_index rt) (hole_slot r fs)"
  have "search_loop rt wild bs (hole_slot r fs, stack) ?st = Some (Inr (stack @ [?e], ?st))"
    by (subst search_loop.simps) (simp add: search_step_def rd lf stack_push_def room)
  moreover have "stack_ok r fs (stack @ [?e])" by (rule HLeaf.prems(4)) (simp add: initLeaf_def)
  moreover have "mMostSignificantBitIndex (mSearchResultForInsert ((stack @ [?e]) ! length fs)) = 65535"
    using HLeaf.prems(3) by (simp add: nth_append initLeaf_def)
  ultimately show ?case using HLeaf.prems
    by (intro exI [of _ "stack @ [?e]"] exI [of _ fs] exI [of _ g]) simp
next
  case (HNode p n t cs)
  let ?st = "st \<lparr> hot_globals := g \<rparr>" and ?i = "key_walk bs t"
  have w: "hwf (HNode p n t cs)" by (rule path_frames_wf [OF HNode.prems(1) wf])
  have rd: "read_slot st (hole_slot r fs) = Inr p"
    using read_tree [OF HNode.prems(1) wf root heap] by simp
  have node: "node_objects st (getNode p) = Some n"
    using heap_is_lookup [OF heap, of "getNode p" n] path_frames_cells [OF HNode.prems(1)] by simp
  have pn: "points_to p n" "node_wf n t" "\<not> is_leaf t" "leaves t = map ptr cs" using w by simp_all
  note pr = points_read [OF pn(1) node]
  have sub: "bits_of (graft t (map trie_of cs)) \<subseteq> {1..<64}" using path_ordered [OF HNode.prems(1) wf ord] bits by auto
  have lenT: "length (map trie_of cs) = length (leaves t)" using pn(4) by simp
  have tb: "\<forall>x \<in> bits_of t. x < 64" using sub bits_of_graft [OF lenT] by auto
  have room: "length stack < 64"
  proof -
    have "length fs < root_bit t" by (rule depth_bound [OF HNode.prems(1) wf ord]) (use bits in auto)
    moreover have "root_bit t < 64" using tb pn(3) by (cases t) simp_all
    ultimately show ?thesis using HNode.prems(3) by simp
  qed
  have reads: "mapping_reads (mDiscriminativeBitsRepresentation n) \<le> length bs" using reach_of_bits(1) [OF pn(2) tb] len8 by simp
  let ?res = "\<lparr> mEntryIndex = ?i, mMostSignificantBitIndex = root_bit t \<rparr>"
  obtain g1 where g1: "extract_mask g1 = 0" "node_searchForInsert (undef_index rt) n bs g = Inr (?i, ?res, g1)"
    "node_searchForInsert_mask (undef_index rt) n bs 0 g = Inr (?i, ?res, g1)"
    using searchForInsert_walk [OF pn(2,3) HNode.prems(5) reads] by blast
  let ?e = "\<lparr> mChildPointer = hole_slot r fs, mSearchResultForInsert = ?res \<rparr>" and ?f = "(p, n, t, cs, ?i)"
  have ne: "\<not> isLeaf p" using pn(1) by (simp add: points_to_def)
  have step: "search_step rt wild bs ?st (hole_slot r fs, stack) =
      Inr (False, (hole_slot r (?f # fs), stack @ [?e]), st \<lparr> hot_globals := g1 \<rparr>)"
    using wild by (elim disjE) (simp_all add: search_step_def rd ne pr g1 stack_push_def room cong: if_cong)
  have i: "?i < length cs" using key_walk_less [of bs t] lenT by simp
  have path': "path_frames H0 (?f # fs) (cs ! ?i)" using HNode.prems(1) i by simp
  have stack': "stack_ok r (?f # fs) ((stack @ [?e]) @ [e])" if "mChildPointer e = hole_slot r (?f # fs)" for e
    using that HNode.prems(3) stack_ok_append [OF HNode.prems(4) [of ?e], of "[e]"] by (simp add: nth_append)
  have "\<exists>stack' fs' g'. search_loop rt wild bs (hole_slot r (?f # fs), stack @ [?e]) (st \<lparr> hot_globals := g1 \<rparr>) =
      Some (Inr (stack', st \<lparr> hot_globals := g' \<rparr>)) \<and> extract_mask g' = 0 \<and>
    path_frames H0 fs' (HLeaf (find_leaf bs (trie_of (cs ! ?i)))) \<and> walks bs fs' \<and> stack_ok r fs' stack' \<and>
    length stack' = Suc (length fs') \<and> mMostSignificantBitIndex (mSearchResultForInsert (stack' ! length fs')) = 65535"
    by (rule HNode.IH [OF nth_mem [OF i] path' _ _ stack' g1(1)]) (use HNode.prems(2,3) in simp_all)
  moreover have "find_leaf bs (trie_of (HNode p n t cs)) = find_leaf bs (trie_of (cs ! ?i))"
    using find_leaf_graft [OF lenT] i by simp
  moreover have "search_loop rt wild bs (hole_slot r fs, stack) ?st =
      search_loop rt wild bs (hole_slot r (?f # fs), stack @ [?e]) (st \<lparr> hot_globals := g1 \<rparr>)"
    by (subst search_loop.simps) (simp only: step sum.case prod.case if_False)
  ultimately show ?case by simp
qed

end
