(* ===== verification/Hot_Insert_Tree.thy ===== *)
theory Hot_Insert_Tree
  imports Hot_Insert_Search
begin

text \<open>
  Finding the node to insert into, and the law of the whole insertion into the tree of a root.
\<close>

unbundle bit_operations_syntax

section \<open>The depth\<close>

lemma insert_depth_spec:
  "\<exists>j < length es. \<not> mMostSignificantBitIndex (mSearchResultForInsert (es ! j)) < k \<Longrightarrow>
   \<exists>d < length es. insert_depth k a es = Inr (a + d) \<and> \<not> mMostSignificantBitIndex (mSearchResultForInsert (es ! d)) < k \<and>
     (\<forall>j < d. mMostSignificantBitIndex (mSearchResultForInsert (es ! j)) < k)"
proof (induction es arbitrary: a)
  case (Cons e es)
  show ?case
  proof (cases "mMostSignificantBitIndex (mSearchResultForInsert e) < k")
    case True
    have "\<exists>j < length es. \<not> mMostSignificantBitIndex (mSearchResultForInsert (es ! j)) < k"
      using Cons.prems True by (metis (no_types, lifting) length_Cons less_Suc_eq_0_disj nth_Cons_0 nth_Cons_Suc)
    from Cons.IH [OF this, of "Suc a"] obtain d where "d < length es" "insert_depth k (Suc a) es = Inr (Suc a + d)"
      "\<not> mMostSignificantBitIndex (mSearchResultForInsert (es ! d)) < k"
      "\<forall>j < d. mMostSignificantBitIndex (mSearchResultForInsert (es ! j)) < k" by blast
    then show ?thesis using True by (intro exI [of _ "Suc d"]) (auto simp: less_Suc_eq_0_disj)
  next
    case False
    then show ?thesis by (intro exI [of _ 0]) simp
  qed
qed simp

section \<open>Parts of a path\<close>

lemma stack_ok_suffix: "stack_ok r (deep @ fs) stack \<Longrightarrow> stack_ok r fs stack"
proof (induction deep)
  case (Cons f deep)
  obtain p n t cs i where f: "f = (p, n, t, cs, i)" by (metis prod_cases5)
  then show ?case using Cons by simp
qed simp

lemma walks_suffix: "walks bs (deep @ fs) \<Longrightarrow> walks bs fs"
proof (induction deep)
  case (Cons f deep)
  obtain p n t cs i where f: "f = (p, n, t, cs, i)" by (metis prod_cases5)
  then show ?case using Cons by simp
qed simp

lemma path_suffix:
  "path_frames H0 (deep @ fs) h \<Longrightarrow> \<exists>h'. path_frames H0 fs h' \<and>
     (deep = [] \<and> h' = h \<or> (\<exists>deep' p n t cs i. deep = deep' @ [(p, n, t, cs, i)] \<and> h' = HNode p n t cs))"
proof (induction deep arbitrary: h)
  case (Cons f deep)
  obtain p n t cs i where f: "f = (p, n, t, cs, i)" by (metis prod_cases5)
  have "path_frames H0 (deep @ fs) (HNode p n t cs)" using Cons.prems f by simp
  from Cons.IH [OF this] f show ?case by (metis append_Cons append_Nil)
qed simp

lemma path_bits_above:
  assumes "path_frames H0 fs (HNode p n t cs)" "hwf H0" "ordered (trie_of H0)" "\<forall>x \<in> bits_of (trie_of H0). x < 64"
  shows "bits_above (root_bit t) fs"
  using assms(1)
proof (induction fs arbitrary: p n t cs)
  case (Cons f fs)
  obtain p' n' t' cs' i where f: "f = (p', n', t', cs', i)" by (metis prod_cases5)
  have pf: "path_frames H0 fs (HNode p' n' t' cs')" and i: "i < length cs'" "cs' ! i = HNode p n t cs" using Cons.prems f by simp_all
  note fn = frame_node [OF Cons.prems [unfolded f] assms(2)]
  have o: "ordered (graft t' (map trie_of cs'))" "bits_of (graft t' (map trie_of cs')) \<subseteq> bits_of (trie_of H0)"
    using path_ordered [OF pf assms(2,3)] by simp_all
  have len: "length (map trie_of cs') = length (leaves t')" using fn(9) by simp
  have "root_bit t \<in> bits_of (graft t (map trie_of cs))"
    using path_frames_wf [OF Cons.prems assms(2)] by (cases t) simp_all
  then have "\<forall>x \<in> path_bits i t'. x < root_bit t" using ordered_graft [OF o(1) len, of i] i by simp
  moreover have "\<forall>x \<in> bits_of t'. x < 64" using o(2) bits_of_graft [OF len] assms(4) by auto
  ultimately show ?case using Cons.IH [OF pf] f by simp
qed simp

lemma fill_insert:
  "path_frames H0 fs h \<Longrightarrow> hwf H0 \<Longrightarrow> walks bs fs \<Longrightarrow> bits_above b fs \<Longrightarrow> b \<le> k \<Longrightarrow>
   trie_fill fs (insert_key k side v bs T) = insert_key k side v bs (trie_fill fs T)"
proof (induction fs arbitrary: h b T)
  case (Cons f fs)
  obtain p n t cs i where f: "f = (p, n, t, cs, i)" by (metis prod_cases5)
  have path: "path_frames H0 ((p, n, t, cs, i) # fs) h" and pf: "path_frames H0 fs (HNode p n t cs)" using Cons.prems(1) f by simp_all
  note fn = frame_node [OF path Cons.prems(2)]
  have ab: "\<forall>x \<in> path_bits i t. x < b" "bits_above (root_bit t) fs" and i: "i = key_walk bs t" "walks bs fs"
    using Cons.prems(3,4) f by simp_all
  have "root_bit t < b" using ab(1) root_bit_in [OF fn(3,5)] by blast
  then have IH: "trie_fill fs (insert_key k side v bs T') = insert_key k side v bs (trie_fill fs T')" for T'
    using Cons.IH [OF pf Cons.prems(2) i(2) ab(2)] Cons.prems(5) by simp
  have len: "length ((map trie_of cs) [i := T]) = length (leaves t)" using fn(9) by simp
  have eq: "insert_key k side v bs (graft t ((map trie_of cs) [i := T])) = graft t ((map trie_of cs) [i := insert_key k side v bs T])"
    using graft_descend [OF len, of bs k side v] ab(1) Cons.prems(5) i(1) fn(5,9) by fastforce
  show ?case unfolding f trie_fill.simps IH [symmetric] eq ..
qed simp

section \<open>The bits a key meets\<close>

lemma path_bits_graft:
  "length Ts = length (leaves t) \<Longrightarrow> path_bits (key_walk bs (graft t Ts)) (graft t Ts) =
     path_bits (key_walk bs t) t \<union> path_bits (key_walk bs (Ts ! key_walk bs t)) (Ts ! key_walk bs t)"
proof (induction t arbitrary: Ts)
  case (PLeaf v)
  then show ?case by (auto simp: length_Suc_conv)
next
  case (PNode b l r)
  obtain xs ys where Ts: "Ts = xs @ ys" "length xs = length (leaves l)" "length ys = length (leaves r)"
    using split_list_at PNode.prems by (metis leaves.simps(2) length_append)
  have w: "key_walk bs l < length xs" "key_walk bs (graft l xs) < length (leaves (graft l xs))" using Ts(2) by simp_all
  show ?case
    using PNode.IH(1) [OF Ts(2)] PNode.IH(2) [OF Ts(3)] w Ts(2) unfolding Ts(1) graft_append [OF Ts(2)]
    by (cases "key_bit bs b") (simp_all add: nth_append)
qed

lemma frames_path_bits:
  "path_frames H0 fs h \<Longrightarrow> hwf H0 \<Longrightarrow> walks bs fs \<Longrightarrow>
   path_bits (key_walk bs (trie_of h)) (trie_of h) \<subseteq> path_bits (key_walk bs (trie_of H0)) (trie_of H0)"
proof (induction fs arbitrary: h)
  case (Cons f fs)
  obtain p n t cs i where f: "f = (p, n, t, cs, i)" by (metis prod_cases5)
  have path: "path_frames H0 ((p, n, t, cs, i) # fs) h" and pf: "path_frames H0 fs (HNode p n t cs)" using Cons.prems(1) f by simp_all
  have len: "length (map trie_of cs) = length (leaves t)" using frame_node(9) [OF path Cons.prems(2)] by simp
  have "path_bits (key_walk bs (trie_of (HNode p n t cs))) (trie_of (HNode p n t cs)) \<subseteq> path_bits (key_walk bs (trie_of H0)) (trie_of H0)"
    by (rule Cons.IH [OF pf Cons.prems(2)]) (use Cons.prems(3) f in simp)
  then show ?case using path_bits_graft [OF len, of bs] path Cons.prems(3) f by auto
qed simp

lemma path_bits_keyed: "keyed f T \<Longrightarrow> x \<in> path_bits (key_walk bs T) T \<Longrightarrow> key_bit (f (find_leaf bs T)) x = key_bit bs x"
  using find_leaf_in by (induction T) (fastforce split: if_splits)+

section \<open>The node to insert into\<close>

text \<open>
  The node in whose range of bits the new bit lies: the path above it is kept, what it leads to is a
  subtree that the bit comes before, and inserting there is inserting into the whole trie.
\<close>

lemma insert_frame:
  assumes wf: "hwf H0" and ord: "ordered (trie_of H0)" and bits: "bits_of (trie_of H0) \<subseteq> {1..<64}"
    and path: "path_frames H0 (deep @ (p, n, t, cs, i) # fs) (HLeaf q)" and walk: "walks bs (deep @ (p, n, t, cs, i) # fs)"
    and k: "k < 64" and new: "k \<notin> path_bits (key_walk bs (trie_of H0)) (trie_of H0)" and top: "fs = [] \<or> root_bit t \<le> k"
    and below: "\<And>deep' p2 n2 t2 cs2 i2. deep = deep' @ [(p2, n2, t2, cs2, i2)] \<Longrightarrow> k \<le> root_bit t2"
  obtains h where "path_frames H0 ((p, n, t, cs, i) # fs) h" "i = key_walk bs t" "walks bs fs" "k \<notin> path_bits i t"
    "fs = [] \<or> root_bit t < k" "k < root_bit (trie_of h)" "bits_above (root_bit t) fs"
    "\<And>side v. trie_fill fs (insert_key k side v bs (graft t (map trie_of cs))) = insert_key k side v bs (trie_of H0)"
    "deep = [] \<longleftrightarrow> (\<exists>q. h = HLeaf q)"
proof -
  obtain h where h: "path_frames H0 ((p, n, t, cs, i) # fs) h"
    "deep = [] \<and> h = HLeaf q \<or> (\<exists>deep' p n t cs i. deep = deep' @ [(p, n, t, cs, i)] \<and> h = HNode p n t cs)"
    using path_suffix [OF path] by auto
  have pf: "path_frames H0 fs (HNode p n t cs)" using h(1) by simp
  note fn = frame_node [OF h(1) wf]
  have wk: "i = key_walk bs t" "walks bs fs" using walks_suffix [OF walk] by simp_all
  have above: "bits_above (root_bit t) fs" by (rule path_bits_above [OF pf wf ord]) (use bits in auto)
  have len: "length (map trie_of cs) = length (leaves t)" using fn(9) by simp
  have K: "path_bits i t \<subseteq> path_bits (key_walk bs (trie_of H0)) (trie_of H0)"
    using frames_path_bits [OF pf wf wk(2)] path_bits_graft [OF len, of bs] wk(1) by auto
  then have kt: "k \<notin> path_bits i t" using new by blast
  then have top': "fs = [] \<or> root_bit t < k" using top root_bit_in [OF fn(3,5)] le_neq_implies_less by blast
  have st: "k < root_bit (trie_of h)"
  proof (cases h)
    case (HNode p2 n2 t2 cs2)
    then obtain deep' p3 n3 t3 cs3 i3 where deep: "deep = deep' @ [(p3, n3, t3, cs3, i3)]" "h = HNode p3 n3 t3 cs3" using h(2) by auto
    then have le: "k \<le> root_bit t2" using below HNode by auto
    have w2: "\<not> is_leaf t2" "leaves t2 = map ptr cs2" using path_frames_wf [OF h(1) wf] HNode by simp_all
    have "root_bit t2 \<in> path_bits (key_walk bs t2) t2" by (rule root_bit_in [OF w2(1) key_walk_less])
    then have "root_bit t2 \<in> path_bits (key_walk bs (trie_of h)) (trie_of h)"
      using path_bits_graft [of "map trie_of cs2" t2 bs] w2(2) HNode by simp
    moreover have "walks bs ((p, n, t, cs, i) # fs)" using wk by simp
    ultimately have "root_bit t2 \<noteq> k" using frames_path_bits [OF h(1) wf] new by blast
    then show ?thesis using le root_bit_graft [OF w2(1), of "map trie_of cs2"] HNode by simp
  qed (use k in simp)
  have fill: "trie_fill fs (insert_key k side v bs (graft t (map trie_of cs))) = insert_key k side v bs (trie_of H0)" for side v
  proof (cases "fs = []")
    case False
    then have "root_bit t \<le> k" using top by simp
    from fill_insert [OF pf wf wk(2) above this] show ?thesis using path_frames_trie [OF pf] by simp
  qed (use pf in simp)
  have "deep = [] \<longleftrightarrow> (\<exists>q. h = HLeaf q)" using h(2) by auto
  then show thesis using that [OF h(1) wk kt top' st above fill] by blast
qed

section \<open>The whole insertion\<close>

lemma insert_tree_law:
  assumes ok: "allocator_ok (posix_memalign rt)" and mem: "\<forall>st j. memory_ok 32 (new_contents rt st j)"
    and wf: "hwf H0" and low: "Suc (hheight H0) < 65536" and root: "root_pointer st r = ptr H0" and heap: "heap_is st R (cells H0)"
    and ord: "ordered (trie_of H0)" and bits: "bits_of (trie_of H0) \<subseteq> {1..<64}"
    and path: "path_frames H0 fs (HLeaf q)" "fs \<noteq> []" and walk: "walks bs fs" and stack: "stack_ok r fs stack" "length stack = Suc (length fs)"
    and last_entry: "mMostSignificantBitIndex (mSearchResultForInsert (stack ! length fs)) = 65535"
    and d: "dbit_for d k" "mBitValue d \<in> {0, 1}" and k: "k < 64" and v: "isLeaf v"
    and new: "k \<notin> path_bits (key_walk bs (trie_of H0)) (trie_of H0)"
    and few: "live_nodes st + 2 * length fs + 2 \<le> NODE_LIMIT"
  shows "returns rt (tree_becomes r R (insert_key k (mBitValue d \<noteq> 0) v bs (trie_of H0)) (Suc (hheight H0)) st)
    (rbind (insert_depth k 0 (tl stack)) (\<lambda>insertDepth. insertNewValueIntoNode rt stack d insertDepth (length fs) v st))"
proof -
  let ?msb = "\<lambda>j. mMostSignificantBitIndex (mSearchResultForInsert (stack ! j))"
  have tl: "tl stack ! j = stack ! Suc j" if "j < length fs" for j using that stack(2) by (simp add: nth_tl)
  have "\<exists>j < length (tl stack). \<not> mMostSignificantBitIndex (mSearchResultForInsert (tl stack ! j)) < k"
    using last_entry stack(2) path(2) k tl by (intro exI [of _ "length fs - 1"]) (cases fs; simp)
  then obtain e where e: "e < length fs" "insert_depth k 0 (tl stack) = Inr e" "\<not> ?msb (Suc e) < k" "\<forall>j < e. ?msb (Suc j) < k"
    using insert_depth_spec [of "tl stack" k 0] tl stack(2) by (auto 4 3 dest: less_trans)
  define deep where "deep = take (length fs - Suc e) fs"
  obtain f fs' where f: "drop (length fs - Suc e) fs = f # fs'" using e(1) by (cases "drop (length fs - Suc e) fs") simp_all
  obtain p n t cs i where ft: "f = (p, n, t, cs, i)" by (metis prod_cases5)
  have fs: "fs = deep @ (p, n, t, cs, i) # fs'" unfolding deep_def f [symmetric, unfolded ft] by simp
  have "length (drop (length fs - Suc e) fs) = Suc e" using e(1) by simp
  then have len': "length fs' = e" by (simp add: f)
  have so: "stack_ok r ((p, n, t, cs, i) # fs') stack" using stack_ok_suffix stack(1) fs by blast
  have top: "fs' = [] \<or> root_bit t \<le> k"
  proof (cases e)
    case (Suc e')
    then show ?thesis using e(4) [rule_format, of e'] so len' by simp
  qed (use len' in simp)
  have below: "k \<le> root_bit t2" if "deep = deep' @ [(p2, n2, t2, cs2, i2)]" for deep' p2 n2 t2 cs2 i2
  proof -
    have "stack_ok r ((p2, n2, t2, cs2, i2) # (p, n, t, cs, i) # fs') stack"
      by (rule stack_ok_suffix [of _ deep']) (use stack(1) fs that in simp)
    then show ?thesis using e(3) len' by simp
  qed
  obtain h where h: "path_frames H0 ((p, n, t, cs, i) # fs') h" "i = key_walk bs t" "walks bs fs'" "k \<notin> path_bits i t"
    "fs' = [] \<or> root_bit t < k" "k < root_bit (trie_of h)" "bits_above (root_bit t) fs'"
    "\<And>side v. trie_fill fs' (insert_key k side v bs (graft t (map trie_of cs))) = insert_key k side v bs (trie_of H0)"
    "deep = [] \<longleftrightarrow> (\<exists>q. h = HLeaf q)"
    by (rule insert_frame [OF wf ord bits path(1) [unfolded fs] walk [unfolded fs] k new top below]) blast+
  have T: "ordered (graft t (map trie_of cs))" "\<forall>x \<in> bits_of (graft t (map trie_of cs)). x < 64"
    using path_ordered [OF _ wf ord, of fs' "HNode p n t cs"] h(1) bits by auto
  have few': "live_nodes st + 2 * Suc (length fs') + 2 \<le> NODE_LIMIT" using few e(1) len' by simp
  have leaf: "Suc (length fs') = length fs \<longleftrightarrow> (\<exists>q. h = HLeaf q)" using h(9) fs by auto
  from insert_into_node_law [OF ok mem wf low so h(1) root heap d h(2,6,4) T h(7,5) k v few' leaf]
  show ?thesis unfolding e(2) rbind_simps h(8) len' by simp
qed

end
