(* ===== verification/Hot_Exact.thy ===== *)
theory Hot_Exact
  imports Hot_Insert_Tree
begin

text \<open>
  Rules without wildcards: the tries of exact keys, the comparison of keys when all masks are zero, and the
  law of an insertion into the tree of one root.
\<close>

unbundle bit_operations_syntax

section \<open>Comparing with masks that are zero\<close>

lemma bytes64_zero: "k < 8 \<Longrightarrow> byte_at (bytes64 0) k = Inr 0"
proof -
  assume k: "k < 8"
  have z: "of_bits (map (\<lambda>j. bit (0 :: u64) (8 * k + j)) [0..<8]) = (0 :: u8)"
    by (rule bit_word_eqI) (simp add: word_bits)
  show ?thesis using k z by (simp add: byte_at_def bytes64_def)
qed

lemma diffing_rules_zero:
  assumes "\<forall>k \<in> set ks. k < 8"
  shows "diffing_rules undef (bytes64 0) (bytes64 0) e n ks operation (fl, s) =
      rbind (diffing_keys undef e n ks operation s) (\<lambda>(b, s'). Inr (b, fl, s'))"
    "diffing_rule undef (bytes64 0) e n ks operation (fl, s) =
      rbind (diffing_keys undef e n ks operation s) (\<lambda>(b, s'). Inr (b, fl, s'))"
  using assms
  by (induction ks) (auto simp: bytes64_zero rbind_def split: sum.split)

definition key_diff :: "u64 \<Rightarrow> u64 \<Rightarrow> (DiscriminativeBit \<Rightarrow> 's \<Rightarrow> 's) \<Rightarrow> 's \<Rightarrow> bool \<times> 's" where
  "key_diff w v operation s =
     (case first_diff (key_bit (key_bytes w)) (key_bit (key_bytes v)) [0..<64] of
        None \<Rightarrow> (False, s)
      | Some k \<Rightarrow> (True, operation (DiscriminativeBit_at (of_nat k) (of_bool (key_bit (key_bytes v) k))) s))"

lemma executeForDiffingKeys_masks_zero:
  "executeForDiffingKeys_masks undef 0 (key_bytes w) 0 (key_bytes v) 8 operation (fl, s) =
     (case key_diff w v operation s of (b, s') \<Rightarrow> Inr (b, fl, s'))"
  "executeForDiffingKeys_mask undef 0 (key_bytes w) (key_bytes v) 8 operation (fl, s) =
     (case key_diff w v operation s of (b, s') \<Rightarrow> Inr (b, fl, s'))"
proof -
  have z: "bswap64 0 = 0" by (rule bit_word_eqI) (simp add: bswap64_def word_bits)
  have "diffing_keys undef (key_bytes w) (key_bytes v) [0..<8] operation s = Inr (key_diff w v operation s)"
    using diffing_keys_spec [of 8 "key_bytes w" "key_bytes v" 0 undef operation s]
    by (simp add: diffing_spec_def key_diff_def)
  then show "executeForDiffingKeys_masks undef 0 (key_bytes w) 0 (key_bytes v) 8 operation (fl, s) =
     (case key_diff w v operation s of (b, s') \<Rightarrow> Inr (b, fl, s'))"
    "executeForDiffingKeys_mask undef 0 (key_bytes w) (key_bytes v) 8 operation (fl, s) =
     (case key_diff w v operation s of (b, s') \<Rightarrow> Inr (b, fl, s'))"
    by (simp_all add: executeForDiffingKeys_masks_def executeForDiffingKeys_mask_def z diffing_rules_zero split: prod.split)
qed

lemma key_diff_same: "key_diff w w operation s = (False, s)"
proof -
  have "first_diff f f ks = None" for f ks by (simp add: first_diff_None)
  then show ?thesis by (simp add: key_diff_def)
qed

lemma key_diff_differ:
  assumes "w \<noteq> v"
  obtains k where "k < 64" "key_diff w v operation s =
      (True, operation (DiscriminativeBit_at (of_nat k) (of_bool (key_bit (key_bytes v) k))) s)"
    "key_bit (key_bytes v) k \<noteq> key_bit (key_bytes w) k" "\<And>x. x < k \<Longrightarrow> key_bit (key_bytes v) x = key_bit (key_bytes w) x"
proof -
  let ?d = "first_diff (key_bit (key_bytes w)) (key_bit (key_bytes v)) [0..<64]"
  have "?d \<noteq> None"
  proof
    assume "?d = None"
    then have *: "\<forall>k < 64. bit w (63 - k) = bit v (63 - k)" by (auto simp: first_diff_None key_bit_key_bytes)
    have "bit w n = bit v n" if "n < 64" for n using * [rule_format, of "63 - n"] that by simp
    then have "w = v" by (simp add: word_eq_iff_bits)
    with assms show False ..
  qed
  then obtain k where k: "?d = Some k" by auto
  then have "k < 64" "key_bit (key_bytes w) k \<noteq> key_bit (key_bytes v) k" "\<forall>j < k. key_bit (key_bytes w) j = key_bit (key_bytes v) j"
    by (simp_all add: first_diff_def find_Some_upt)
  then show thesis using k by (intro that [of k]) (simp_all add: key_diff_def)
qed

section \<open>Tries of exact keys\<close>

abbreviation leaf_key :: "CP \<Rightarrow> u8 list" where
  "leaf_key c \<equiv> key_bytes (leaf_value c)"

definition exact_trie :: "CP ptrie \<Rightarrow> bool" where
  "exact_trie T \<longleftrightarrow> patricia leaf_key T \<and> bits_of T \<subseteq> {1..<64} \<and>
     (\<forall>c \<in> set (leaves T). isLeaf c \<and> mMask c = 0 \<and> listSize c = 0)"

definition values_of :: "CP ptrie \<Rightarrow> u64 set" where
  "values_of T = leaf_value ` set (leaves T)"

lemma bit_INTPTR_MAX: "bit INTPTR_MAX k \<longleftrightarrow> k < 63"
proof -
  have m: "INTPTR_MAX = mask 63" by (simp add: INTPTR_MAX_def mask_eq_exp_minus_1)
  show ?thesis unfolding m by (auto simp: bit_mask_iff)
qed

lemma leaf_value_top: "\<not> bit (leaf_value c) 63"
  by (simp add: leaf_value_def tidToValue64_def bit_and_iff bit_INTPTR_MAX)

lemma leaf_value_rule:
  assumes "\<not> bit v 63"
  shows "leaf_value (ChildPointer_rule (valueToTid64 v) msk prio es) = v"
proof (rule bit_word_eqI)
  fix k assume k: "k < LENGTH(64)"
  have b: "bit (getTid (ChildPointer_rule v msk prio es)) k \<longleftrightarrow> k < 64 \<and> bit v (min k 62)" for k
    unfolding getTid_def ChildPointer_rule_def HOTSingleThreadedChildPointer.simps bit_untag bit_shifted
    by (auto simp: min_def bit_1_iff dest: bit_imp_le_length)
  have "k = 63 \<or> k < 63" using k by auto
  then show "bit (leaf_value (ChildPointer_rule (valueToTid64 v) msk prio es)) k = bit v k"
    using assms b [of k] k
    by (auto simp: leaf_value_def tidToValue64_def valueToTid64_def bit_and_iff bit_INTPTR_MAX min_def)
qed

lemma exact_trie_leaf: "\<not> bit v 63 \<Longrightarrow> exact_trie (PLeaf (ChildPointer_rule (valueToTid64 v) 0 prio es))"
  by (simp add: exact_trie_def ChildPointer_rule_def isLeaf_def word_ao_dist)

lemma exact_find:
  assumes "exact_trie T"
  shows "leaf_value (find_leaf (key_bytes v) T) = v \<longleftrightarrow> v \<in> values_of T"
proof
  assume "v \<in> values_of T"
  then obtain c where c: "c \<in> set (leaves T)" "leaf_value c = v" by (auto simp: values_of_def)
  have "keyed leaf_key T" using assms patricia_keyed [of leaf_key T] by (simp add: exact_trie_def)
  from keyed_find [OF this c(1)] show "leaf_value (find_leaf (key_bytes v) T) = v" using c(2) by simp
next
  assume "leaf_value (find_leaf (key_bytes v) T) = v"
  then show "v \<in> values_of T"
    unfolding values_of_def using find_leaf_in [of "key_bytes v" T] by (intro image_eqI [of _ _ "find_leaf (key_bytes v) T"]) simp_all
qed

lemma exact_insert:
  assumes T: "exact_trie T" and v: "leaf_value c = v" "isLeaf c" "mMask c = 0" "listSize c = 0"
    and k: "k < 64" and w: "w = leaf_value (find_leaf (key_bytes v) T)"
    and diff: "key_bit (key_bytes v) k \<noteq> key_bit (key_bytes w) k"
    and pre: "\<And>x. x < k \<Longrightarrow> key_bit (key_bytes v) x = key_bit (key_bytes w) x"
  shows "exact_trie (insert_key k (key_bit (key_bytes v) k) c (key_bytes v) T)"
    "values_of (insert_key k (key_bit (key_bytes v) k) c (key_bytes v) T) = insert v (values_of T)"
    "k \<notin> path_bits (key_walk (key_bytes v) T) T"
proof -
  have p: "patricia leaf_key T" using T by (simp add: exact_trie_def)
  have "patricia leaf_key (insert_key k (key_bit (key_bytes v) k) c (key_bytes v) T)"
    by (rule patricia_insert_key [OF p refl]) (use diff pre w v(1) in auto)
  moreover have "k \<noteq> 0"
  proof
    assume "k = 0"
    then show False using diff leaf_value_top [of c] leaf_value_top [of "find_leaf (key_bytes v) T"] v(1) w
      by (simp add: key_bit_key_bytes)
  qed
  ultimately show "exact_trie (insert_key k (key_bit (key_bytes v) k) c (key_bytes v) T)"
    using T k v by (auto simp: exact_trie_def bits_of_insert_key set_leaves_insert_key)
  show "values_of (insert_key k (key_bit (key_bytes v) k) c (key_bytes v) T) = insert v (values_of T)"
    using v(1) by (simp add: values_of_def set_leaves_insert_key)
  show "k \<notin> path_bits (key_walk (key_bytes v) T) T"
    using path_bits_keyed [OF patricia_keyed [OF p], of k "key_bytes v"] diff w by auto
qed

section \<open>The tree of a root\<close>

text \<open>A root leads to a tree of nodes whose trie holds the values \<open>V\<close>; the rest of the memory is \<open>R\<close>.\<close>

definition holds_values :: "root \<Rightarrow> node_memory \<Rightarrow> u64 set \<Rightarrow> hot_state \<Rightarrow> bool" where
  "holds_values r R V st \<longleftrightarrow> (\<exists>H. hwf H \<and> root_pointer st r = ptr H \<and> heap_is st R (cells H) \<and>
     exact_trie (trie_of H) \<and> values_of (trie_of H) = V \<and> hheight H < card V)"

text \<open>What an operation on the tree of one root may change: the nodes, the pool, this root and some globals.\<close>

definition same_others :: "root \<Rightarrow> hot_state \<Rightarrow> hot_state \<Rightarrow> bool" where
  "same_others r st st' \<longleftrightarrow> hot_children st' = hot_children st \<and>
     (\<forall>r'. r' \<noteq> r \<longrightarrow> root_pointer st' r' = root_pointer st r') \<and> extract_mask (hot_globals st') = 0"

lemma root_pointer_set [simp]: "root_pointer (set_root_pointer r q st) r' = (if r' = r then q else root_pointer st r')"
  by (cases r; cases r') (simp_all add: root_pointer_def set_root_pointer_def)

lemma set_root_fields [simp]:
  "node_objects (set_root_pointer r q st) = node_objects st" "node_pool (set_root_pointer r q st) = node_pool st"
  "hot_globals (set_root_pointer r q st) = hot_globals st" "hot_children (set_root_pointer r q st) = hot_children st"
  "flag_mask (set_root_pointer r q st) = flag_mask st"
  by (cases r; simp add: set_root_pointer_def)+

lemma rooted_fields:
  assumes "rooted r q st st'"
  shows "root_pointer st' r' = (if r' = r then q else root_pointer st r')" "hot_globals st' = hot_globals st"
    "hot_children st' = hot_children st" "flag_mask st' = flag_mask st" "mRoot (hot_roots st') = mRoot (hot_roots st)"
  using assms by (auto simp: rooted_def same_rest_def root_pointer_def split: root.splits)
    (auto simp: set_root_pointer_def split: root.splits)

lemma heap_is_root [simp]: "heap_is (set_root_pointer r q st) R M \<longleftrightarrow> heap_is st R M"
  by (simp add: heap_is_def)

lemma tree_becomes_values:
  assumes T: "tree_becomes r R T m st st'" and V: "exact_trie T" "values_of T = V" "m < card V" and g: "extract_mask (hot_globals st) = 0"
  shows "holds_values r R V st' \<and> same_others r st st' \<and> flag_mask st' = flag_mask st \<and> mRoot (hot_roots st') = mRoot (hot_roots st)"
proof -
  obtain H where H: "hwf H" "heap_is st' R (cells H)" "trie_of H = T" "hheight H \<le> m" "rooted r (ptr H) st st'"
    using T unfolding tree_becomes_def by blast
  note f = rooted_fields [OF H(5)]
  have "holds_values r R V st'"
    unfolding holds_values_def using H V f(1) [of r] by (intro exI [of _ H]) simp
  then show ?thesis using f g by (simp add: same_others_def)
qed

end
