(* ===== verification/Hot_Exact_Insert.thy ===== *)
theory Hot_Exact_Insert
  imports Hot_Exact
begin

text \<open>
  Inserting a rule without wildcards into the tree of one root, and into the branch that its highest bit
  selects.
\<close>

unbundle bit_operations_syntax

section \<open>Fields that the operations set\<close>

lemma root_pointer_updates [simp]:
  "root_pointer (st \<lparr> flag_mask := b \<rparr>) r = root_pointer st r" "root_pointer (use_root r' st) r = root_pointer st r"
  by (cases r; simp add: root_pointer_def use_root_def)+

lemma use_root_fields [simp]:
  "node_objects (use_root r st) = node_objects st" "node_pool (use_root r st) = node_pool st"
  "hot_globals (use_root r st) = hot_globals st" "hot_children (use_root r st) = hot_children st"
  "flag_mask (use_root r st) = flag_mask st" "mRoot (hot_roots (use_root r st)) = Some r"
  by (simp_all add: use_root_def)

lemma heap_is_updates [simp]:
  "heap_is (st \<lparr> flag_mask := b \<rparr>) R M \<longleftrightarrow> heap_is st R M" "heap_is (use_root r st) R M \<longleftrightarrow> heap_is st R M"
  by (simp_all add: heap_is_def)

lemma holds_values_updates [simp]:
  "holds_values r R V (st \<lparr> flag_mask := b \<rparr>) \<longleftrightarrow> holds_values r R V st"
  "holds_values r R V (st \<lparr> hot_globals := g \<rparr>) \<longleftrightarrow> holds_values r R V st"
  "holds_values r R V (use_root r' st) \<longleftrightarrow> holds_values r R V st"
  by (simp_all add: holds_values_def)

section \<open>A root that is a leaf\<close>

lemma grow_root_law:
  assumes ok: "allocator_ok (posix_memalign rt)" and mem: "memory_ok 32 (new_contents rt st 0)" and heap: "heap_is st R {#}"
    and leaf: "isLeaf (root_pointer st r)" "isLeaf c" and d: "dbit_for d k" "k < 64" and few: "live_nodes st < NODE_LIMIT"
  shows "returns rt (tree_becomes r R (join k (mBitValue d \<noteq> 0) c (PLeaf (root_pointer st r))) 1 st) (grow_root rt r c d st)"
proof -
  let ?side = "mBitValue d \<noteq> 0" and ?p = "root_pointer st r"
  define L where "L = (if ?side then ?p else c)"
  define K where "K = (if ?side then c else ?p)"
  have lk: "isLeaf L" "isLeaf K" using leaf by (simp_all add: L_def K_def)
  have B: "createFromExistingAndNewEntry (pointer_getHeight (node_objects st)) d ?p c = Inr (BiNode_of k 1 L K)"
    using leaf(1) d(1) by (simp add: createFromExistingAndNewEntry_def pointer_getHeight_def dbit_for_def L_def K_def)
  have T: "PNode k (PLeaf L) (PLeaf K) = join k ?side c (PLeaf ?p)" by (simp add: join_def L_def K_def)
  have heap': "heap_is st R ({#} + cells (HLeaf L) + cells (HLeaf K))" using heap by simp
  have b: "k < 2048" using d(2) by simp
  from two_entries_law [OF heap' ok memory_ok_mono [OF mem] b few, of 1] lk
  have "returns rt (\<lambda>(p, st'). \<exists>H. ptr H = p \<and> hwf H \<and> hheight H = 1 \<and> trie_of H = join k ?side c (PLeaf ?p) \<and>
      same_rest st st' \<and> heap_is st' R (cells H)) (tree_two_entries rt (BiNode_of k 1 L K) st)"
    unfolding T [symmetric] by simp
  then have "returns rt (tree_becomes r R (join k ?side c (PLeaf ?p)) 1 st)
      (rbind (tree_two_entries rt (BiNode_of k 1 L K) st) (\<lambda>(p, st'). Inr (set_root_pointer r p st')))"
  proof (rule returns_bind, clarify)
    fix st' H assume H: "hwf H" "hheight H = 1" "trie_of H = join k ?side c (PLeaf ?p)" "same_rest st st'" "heap_is st' R (cells H)"
    have "rooted r (ptr H) st (set_root_pointer r (ptr H) st')" unfolding rooted_def by (rule same_rest_root [OF H(4)])
    then show "returns rt (tree_becomes r R (join k ?side c (PLeaf ?p)) 1 st) (Inr (set_root_pointer r (ptr H) st'))"
      using H by (auto simp: tree_becomes_def intro!: exI [of _ H])
  qed
  then show ?thesis by (simp add: grow_root_def B)
qed

section \<open>The tree of a root\<close>

lemma finite_values: "finite (values_of T)"
  by (simp add: values_of_def)

lemma dbit_value: "mBitValue (DiscriminativeBit_at k (of_bool x)) \<noteq> 0 \<longleftrightarrow> x" "mBitValue (DiscriminativeBit_at k (of_bool x)) \<in> {0, 1}"
  by (cases x; simp add: DiscriminativeBit_at_def)+

definition inserted_ok :: "root \<Rightarrow> node_memory \<Rightarrow> u64 \<Rightarrow> u64 set \<Rightarrow> hot_state \<Rightarrow> bool \<times> hot_state \<Rightarrow> bool" where
  "inserted_ok r R v V st = (\<lambda>(inserted, st'). inserted = (v \<notin> V) \<and> holds_values r R (insert v V) st' \<and>
     same_others r st st' \<and> \<not> flag_mask st' \<and> mRoot (hot_roots st') = Some r)"

lemma insert_into_root_law:
  assumes ok: "allocator_ok (posix_memalign rt)" and mem: "\<forall>st j. memory_ok 32 (new_contents rt st j)"
    and hv: "holds_values r R V st0" and g: "extract_mask (hot_globals st0) = 0" and flag: "\<not> flag_mask st0"
    and low: "card V < 65535" and v: "\<not> bit v 63" and few: "live_nodes st0 + 200 \<le> NODE_LIMIT"
  shows "\<exists>res. insert_into_root_mask rt IdentityKeyExtractor r v 0 prio es st0 = Some res \<and> returns rt (inserted_ok r R v V st0) res"
proof -
  obtain H where H: "hwf H" "root_pointer st0 r = ptr H" "heap_is st0 R (cells H)" "exact_trie (trie_of H)"
    "values_of (trie_of H) = V" "hheight H < card V" using hv unfolding holds_values_def by blast
  define st where "st = use_root r st0"
  define c where "c = ChildPointer_rule (valueToTid64 v) 0 prio es"
  have st: "root_pointer st r = ptr H" "heap_is st R (cells H)" "extract_mask (hot_globals st) = 0" "\<not> flag_mask st"
    "mRoot (hot_roots st) = Some r" using H(2,3) g flag by (simp_all add: st_def)
  have others: "same_others r st0 st' \<longleftrightarrow> same_others r st st'" for st' by (simp add: same_others_def st_def)
  have c: "leaf_value c = v" "isLeaf c" "mMask c = 0" "listSize c = 0"
    using leaf_value_rule [OF v] by (simp_all add: c_def ChildPointer_rule_def isLeaf_def word_ao_dist)
  define q where "q = find_leaf (key_bytes v) (trie_of H)"
  define w where "w = leaf_value q"
  have wV: "w = v \<longleftrightarrow> v \<in> V" using exact_find [OF H(4), of v] H(5) by (simp add: w_def q_def)
  have qm: "mMask q = 0" using H(4) find_leaf_in [of "key_bytes v" "trie_of H"] by (simp add: exact_trie_def q_def)
  have few': "live_nodes st < NODE_LIMIT" using few by (simp add: live_nodes_def st_def)
  have finV: "finite V" using H(5) finite_values by blast
  have unchanged: "inserted_ok r R v V st0 (False, (st \<lparr> hot_globals := g' \<rparr>) \<lparr> flag_mask := False \<rparr>)"
    if "w = v" "extract_mask g' = 0" for g'
    using that wV hv by (auto simp: inserted_ok_def insert_absorb same_others_def st_def)
  have grown: "inserted_ok r R v V st0 (True, st'' \<lparr> flag_mask := False \<rparr>)"
    if t: "tree_becomes r R (insert_key k (key_bit (key_bytes v) k) c (key_bytes v) (trie_of H)) m (st \<lparr> hot_globals := g' \<rparr>) st''"
      and k: "w \<noteq> v" "k < 64" "key_bit (key_bytes v) k \<noteq> key_bit (key_bytes w) k" "\<And>x. x < k \<Longrightarrow> key_bit (key_bytes v) x = key_bit (key_bytes w) x"
      and m: "m \<le> Suc (hheight H)" and g': "extract_mask g' = 0" for k m g' st''
  proof -
    note e = exact_insert(1,2) [OF H(4) c k(2) _ k(3,4), unfolded w_def q_def, OF refl]
    have "m < card (insert v V)" using wV k(1) m H(6) finV by simp
    with tree_becomes_values [OF t] e H(5) g' k(1) wV show ?thesis
      by (simp add: inserted_ok_def w_def q_def same_others_def st_def)
  qed
  show ?thesis
  proof (cases H)
    case (HLeaf p)
    then have p: "isLeaf p" "q = p" using H(1) by (simp_all add: q_def)
    have run: "insert_into_root_mask rt IdentityKeyExtractor r v 0 prio es st0 =
      Some (with_flag (case key_diff w v (\<lambda>d x flag. rbind (x flag) (grow_root rt r c d)) (\<lambda>_. Inr st) of (b, s') \<Rightarrow> Inr (b, False, s')))"
      using p HLeaf H(2) st(4) by (simp add: insert_into_root_mask_def Let_def st_def [symmetric] isNode_def
          IdentityKeyExtractor_def executeForDiffingKeys_masks_zero c_def [symmetric] st(1) w_def leaf_value_def)
    show ?thesis
    proof (cases "w = v")
      case True
      then show ?thesis
        using unchanged [OF True st(3)] by (simp add: run key_diff_same with_flag_def)
    next
      case False
      obtain k where k: "k < 64" "key_diff w v (\<lambda>d x (flag :: bool). rbind (x flag) (grow_root rt r c d)) (\<lambda>_. Inr st) =
          (True, (\<lambda>flag. rbind (Inr st) (grow_root rt r c (DiscriminativeBit_at (of_nat k) (of_bool (key_bit (key_bytes v) k))))))"
        "key_bit (key_bytes v) k \<noteq> key_bit (key_bytes w) k" "\<And>x. x < k \<Longrightarrow> key_bit (key_bytes v) x = key_bit (key_bytes w) x"
        by (rule key_diff_differ [OF False, where operation = "\<lambda>d x (flag :: bool). rbind (x flag) (grow_root rt r c d)" and s = "\<lambda>_. Inr st"]) blast
      let ?d = "DiscriminativeBit_at (of_nat k) (of_bool (key_bit (key_bytes v) k))"
      have d: "dbit_for ?d k" by (rule dbit_for_at) (use k(1) in simp)
      have leafp: "isLeaf (root_pointer st r)" using st(1) HLeaf p(1) by simp
      have heap0: "heap_is st R {#}" using st(2) HLeaf by simp
      from grow_root_law [OF ok mem [THEN spec, THEN spec] heap0 leafp c(2) d k(1)] few'
      have "returns rt (tree_becomes r R (insert_key k (key_bit (key_bytes v) k) c (key_bytes v) (trie_of H)) 1 st) (grow_root rt r c ?d st)"
        using st(1) HLeaf by (simp only: dbit_value(1) insert_key.simps ptr.simps trie_of.simps)
      then have "returns rt (inserted_ok r R v V st0) (rbind (grow_root rt r c ?d st) (\<lambda>st'. Inr (True, st' \<lparr> flag_mask := False \<rparr>)))"
      proof (rule returns_bind)
        fix x assume x: "tree_becomes r R (insert_key k (key_bit (key_bytes v) k) c (key_bytes v) (trie_of H)) 1 st x"
        show "returns rt (inserted_ok r R v V st0) (Inr (True, x \<lparr> flag_mask := False \<rparr>))"
          using grown [of k 1 "hot_globals st" x, OF _ False k(1,3,4) _ st(3)] x by simp
      qed
      then show ?thesis unfolding run k(2) with_flag_def prod.case rbind_simps by simp
    qed
  next
    case (HNode p n t cs)
    then have p: "points_to p n" using H(1) by simp
    have path0: "path_frames H [] H" by simp
    have bits: "bits_of (trie_of H) \<subseteq> {1..<64}" and ord: "ordered (trie_of H)"
      using H(4) patricia_ordered by (auto simp: exact_trie_def)
    obtain stack fs g' where s: "search_loop rt (Some 0) (key_bytes v) (Root_slot r, []) st = Some (Inr (stack, st \<lparr> hot_globals := g' \<rparr>))"
      "extract_mask g' = 0" "path_frames H fs (HLeaf q)" "walks (key_bytes v) fs" "stack_ok r fs stack" "length stack = Suc (length fs)"
      "mMostSignificantBitIndex (mSearchResultForInsert (stack ! length fs)) = 65535"
      using search_loop_law [OF H(1) st(1,2) ord bits _ _ path0, of "Some 0" "key_bytes v" "[]" "hot_globals st" rt] st(3)
      by (auto simp: q_def)
    let ?st1 = "st \<lparr> hot_globals := g' \<rparr>"
    have fs: "fs \<noteq> []" using s(3) HNode by auto
    have leafq: "read_slot ?st1 (mChildPointer (stack ! length fs)) = Inr q"
      using read_tree [OF s(3) H(1) st(1,2)] stack_ok_top [OF s(5)] by simp
    have run: "insert_into_root_mask rt IdentityKeyExtractor r v 0 prio es st0 =
      Some (with_flag (case key_diff w v (insert_rule_at rt stack (length fs) c) (\<lambda>_. Inr ?st1) of (b, s') \<Rightarrow> Inr (b, False, s')))"
    proof -
      have "searchForInsert_mask rt (key_bytes v) 0 st = Some (Inr (stack, ?st1))"
        by (simp add: searchForInsert_mask_def root_slot_def st(5) s(1))
      moreover have "stack_at stack (length fs) = Inr (stack ! length fs)" using stack_ok_top [OF s(5)] by simp
      ultimately show ?thesis
        using p H(2) HNode st(4) leafq s(6) qm
        by (simp add: insert_into_root_mask_def Let_def st_def [symmetric] isNode_def points_to_def st(1)
            IdentityKeyExtractor_def after_search_def insertWithInsertStack_masks_def executeForDiffingKeys_masks_zero
            c_def [symmetric] w_def leaf_value_def)
    qed
    show ?thesis
    proof (cases "w = v")
      case True
      then show ?thesis
        using unchanged [OF True s(2)] by (simp add: run key_diff_same with_flag_def)
    next
      case False
      obtain k where k: "k < 64" "key_diff w v (insert_rule_at rt stack (length fs) c) (\<lambda>_. Inr ?st1) =
          (True, insert_rule_at rt stack (length fs) c (DiscriminativeBit_at (of_nat k) (of_bool (key_bit (key_bytes v) k))) (\<lambda>_. Inr ?st1))"
        "key_bit (key_bytes v) k \<noteq> key_bit (key_bytes w) k" "\<And>x. x < k \<Longrightarrow> key_bit (key_bytes v) x = key_bit (key_bytes w) x"
        by (rule key_diff_differ [OF False, where operation = "insert_rule_at rt stack (length fs) c" and s = "\<lambda>_. Inr ?st1"]) blast
      let ?d = "DiscriminativeBit_at (of_nat k) (of_bool (key_bit (key_bytes v) k))"
      have d: "dbit_for ?d k" by (rule dbit_for_at) (use k(1) in simp)
      have heap1: "heap_is ?st1 R (cells H)" and root1: "root_pointer ?st1 r = ptr H" using st(1,2) by simp_all
      have low': "Suc (hheight H) < 65536" using H(6) low by simp
      have "length fs < 64" by (rule depth_bound_leaf [OF s(3) H(1) ord bits])
      then have few2: "live_nodes ?st1 + 2 * length fs + 2 \<le> NODE_LIMIT" using few by (simp add: live_nodes_def st_def)
      note new = exact_insert(3) [OF H(4) c k(1) _ k(3,4), unfolded w_def q_def, OF refl]
      have "returns rt (tree_becomes r R (insert_key k (key_bit (key_bytes v) k) c (key_bytes v) (trie_of H)) (Suc (hheight H)) ?st1)
          (rbind (insert_depth k 0 (tl stack)) (\<lambda>insertDepth. insertNewValueIntoNode rt stack ?d insertDepth (length fs) c ?st1))"
        using insert_tree_law [OF ok mem H(1) low' root1 heap1 ord bits s(3) fs s(4,5,6,7) d dbit_value(2) k(1) c(2)] few2 new k(3,4)
        unfolding dbit_value(1) by (simp add: w_def q_def)
      then have "returns rt (inserted_ok r R v V st0) (rbind (rbind (insert_depth k 0 (tl stack))
          (\<lambda>insertDepth. insertNewValueIntoNode rt stack ?d insertDepth (length fs) c ?st1)) (\<lambda>st'. Inr (True, st' \<lparr> flag_mask := False \<rparr>)))"
      proof (rule returns_bind)
        fix x assume x: "tree_becomes r R (insert_key k (key_bit (key_bytes v) k) c (key_bytes v) (trie_of H)) (Suc (hheight H)) ?st1 x"
        show "returns rt (inserted_ok r R v V st0) (Inr (True, x \<lparr> flag_mask := False \<rparr>))"
          using grown [OF x False k(1,3,4) _ s(2)] by simp
      qed
      moreover have "unat (mAbsoluteBitIndex ?d) = k" using d by (simp add: dbit_for_def)
      ultimately show ?thesis unfolding run k(2) with_flag_def prod.case rbind_simps insert_rule_at_def by simp
    qed
  qed
qed

end
