(* ===== verification/Hot_Tree_Contract.thy ===== *)
theory Hot_Tree_Contract
  imports Hot_Exact_Insert
begin

text \<open>
  The contract of the tree for rules without wildcards: the program stores a set of keys.  The memory holds
  the trees of the two branches and nothing else, inserting a key puts it into the set, and the search
  decides whether a key is in it.
\<close>

unbundle bit_operations_syntax

section \<open>A key is a branch and 63 bits\<close>

definition branch_of :: "u64 \<Rightarrow> root" where
  "branch_of key = (if bit key 63 then Root_right else Root_left)"

definition low_bits :: "u64 \<Rightarrow> u64" where
  "low_bits key = key AND NOT (push_bit 63 1)"

abbreviation other :: "root \<Rightarrow> root" where
  "other r \<equiv> (case r of Root_left \<Rightarrow> Root_right | Root_right \<Rightarrow> Root_left)"

lemma bit_low_bits: "bit (low_bits key) n \<longleftrightarrow> bit key n \<and> n \<noteq> 63"
proof -
  have "bit (push_bit 63 1 :: u64) n \<longleftrightarrow> n = 63" using bit_single [where 'a = 64, of 63 n] by auto
  then show ?thesis unfolding low_bits_def bit_and_iff bit_not_iff by (auto simp: possible_bit_word dest: bit_imp_le_length)
qed

lemma key_eqI:
  assumes "branch_of k = branch_of key" and "low_bits k = low_bits key"
  shows "k = key"
proof (rule bit_word_eqI)
  fix n
  have "bit (low_bits k) n = bit (low_bits key) n" using assms(2) by simp
  then show "bit k n = bit key n"
    using assms(1) unfolding bit_low_bits by (cases "n = 63") (auto simp: branch_of_def split: if_splits)
qed

text \<open>The values that the keys of a set leave in the tree of a branch.\<close>

definition values_in :: "u64 set \<Rightarrow> root \<Rightarrow> u64 set" where
  "values_in K r = low_bits ` {k \<in> K. branch_of k = r}"

lemma values_in_iff: "low_bits key \<in> values_in K (branch_of key) \<longleftrightarrow> key \<in> K"
  unfolding values_in_def by (auto dest: key_eqI)

lemma values_in_insert: "values_in (insert k K) = (values_in K) (branch_of k := insert (low_bits k) (values_in K (branch_of k)))"
  by (rule ext) (auto simp: values_in_def)

lemma card_values_in:
  assumes "finite K"
  shows "card (values_in K Root_left) + card (values_in K Root_right) = card K"
proof -
  have inj: "inj_on low_bits {k \<in> K. branch_of k = r}" for r by (intro inj_onI) (auto intro: key_eqI)
  have "K = {k \<in> K. branch_of k = Root_left} \<union> {k \<in> K. branch_of k = Root_right}"
    by (auto simp: branch_of_def)
  then have "card K = card ({k \<in> K. branch_of k = Root_left} \<union> {k \<in> K. branch_of k = Root_right})" by simp
  also have "\<dots> = card {k \<in> K. branch_of k = Root_left} + card {k \<in> K. branch_of k = Root_right}"
    using assms by (intro card_Un_disjoint) auto
  finally show ?thesis by (simp add: values_in_def card_image [OF inj])
qed

section \<open>How many nodes there are\<close>

lemma leaves_of_graft: "length Ts = length (leaves t) \<Longrightarrow> leaves (graft t Ts) = concat (map leaves Ts)"
proof (induction t arbitrary: Ts)
  case (PLeaf v)
  then show ?case by (auto simp: length_Suc_conv)
next
  case (PNode b l r)
  have "concat (map leaves Ts) = concat (map leaves (take (length (leaves l)) Ts)) @ concat (map leaves (drop (length (leaves l)) Ts))"
    by (metis append_take_drop_id concat_append map_append)
  with PNode show ?case by simp
qed

lemma size_sum_cells: "size (sum_list (map cells cs)) = sum_list (map (\<lambda>c. size (cells c)) cs)"
  by (induction cs) simp_all

lemma nodes_below_leaves: "hwf h \<Longrightarrow> size (cells h) < length (leaves (trie_of h))"
proof (induction h)
  case (HNode p n t cs)
  have hs: "\<forall>c \<in> set cs. size (cells c) < length (leaves (trie_of c))" using HNode.IH HNode.prems by simp
  have le: "sum_list (map (\<lambda>c. size (cells c)) cs) + length cs \<le> sum_list (map (\<lambda>c. length (leaves (trie_of c))) cs)"
    using hs
  proof (induction cs)
    case (Cons c cs)
    have "size (cells c) < length (leaves (trie_of c))" using Cons.prems by simp
    moreover have "sum_list (map (\<lambda>c. size (cells c)) cs) + length cs \<le> sum_list (map (\<lambda>c. length (leaves (trie_of c))) cs)"
      using Cons.prems by (intro Cons.IH) auto
    ultimately show ?case by simp
  qed simp
  have l: "leaves t = map ptr cs" using HNode.prems by simp
  have "2 \<le> length (leaves t)"
  proof (cases t)
    case (PNode b t1 t2)
    have "1 \<le> length (leaves t1)" "1 \<le> length (leaves t2)" by (simp_all add: Suc_leI)
    then show ?thesis using PNode add_mono [of 1 "length (leaves t1)" 1 "length (leaves t2)"] by simp
  qed (use HNode.prems in simp)
  then have "2 \<le> length cs" using l by simp
  moreover have "length (leaves (trie_of (HNode p n t cs))) = sum_list (map (\<lambda>c. length (leaves (trie_of c))) cs)"
    using l by (simp add: leaves_of_graft length_concat comp_def)
  ultimately show ?case using le by (simp add: size_sum_cells)
qed simp

lemma leaf_values_distinct: "keyed leaf_key T \<Longrightarrow> distinct (map leaf_value (leaves T))"
proof (induction T)
  case (PNode b l r)
  have "leaf_value c \<noteq> leaf_value c'" if "c \<in> set (leaves l)" "c' \<in> set (leaves r)" for c c'
    using PNode.prems that by auto
  with PNode show ?case by auto
qed simp

lemma nodes_below_values:
  assumes "hwf H" and "exact_trie (trie_of H)" and "values_of (trie_of H) = V"
  shows "size (cells H) < card V"
proof -
  have "distinct (map leaf_value (leaves (trie_of H)))"
    by (rule leaf_values_distinct [OF patricia_keyed]) (use assms(2) in \<open>simp add: exact_trie_def\<close>)
  then have "card V = length (leaves (trie_of H))"
    using distinct_card [of "map leaf_value (leaves (trie_of H))"] assms(3) by (simp add: values_of_def)
  then show ?thesis using nodes_below_leaves [OF assms(1)] by simp
qed

section \<open>The set of keys\<close>

definition branch_cells :: "htree option \<Rightarrow> cell multiset" where
  "branch_cells B = (case B of None \<Rightarrow> {#} | Some H \<Rightarrow> cells H)"

definition branch_holds :: "hot_state \<Rightarrow> root \<Rightarrow> u64 set \<Rightarrow> htree option \<Rightarrow> bool" where
  "branch_holds st r V B \<longleftrightarrow>
     (case B of None \<Rightarrow> r \<notin> hot_children st \<and> root_pointer st r = ChildPointer0 \<and> V = {}
      | Some H \<Rightarrow> r \<in> hot_children st \<and> hwf H \<and> root_pointer st r = ptr H \<and> exact_trie (trie_of H) \<and>
          values_of (trie_of H) = V \<and> hheight H < card V)"

definition holds_keys :: "u64 set \<Rightarrow> hot_state \<Rightarrow> bool" where
  "holds_keys K st \<longleftrightarrow> finite K \<and> extract_mask (hot_globals st) = 0 \<and>
     (\<exists>B. (\<forall>r. branch_holds st r (values_in K r) (B r)) \<and>
       heap_is st Map.empty (branch_cells (B Root_left) + branch_cells (B Root_right)))"

lemma both_roots: "(\<forall>r. P r) \<longleftrightarrow> P r \<and> P (other r)"
  by (cases r) (metis root.exhaust root.simps(3,4))+

lemma cells_focus: "branch_cells (B Root_left) + branch_cells (B Root_right) = branch_cells (B r) + branch_cells (B (other r))"
  by (cases r) (simp_all add: add.commute)

lemma holds_keysE:
  assumes "holds_keys K st"
  obtains B where "branch_holds st r (values_in K r) (B r)" "branch_holds st (other r) (values_in K (other r)) (B (other r))"
    "heap_is st Map.empty (branch_cells (B r) + branch_cells (B (other r)))"
  using assms unfolding holds_keys_def cells_focus [of _ r] by blast

lemma holds_keysI:
  assumes "finite K" "extract_mask (hot_globals st) = 0" "branch_holds st r (values_in K r) B"
    "branch_holds st (other r) (values_in K (other r)) B'" "heap_is st Map.empty (branch_cells B + branch_cells B')"
  shows "holds_keys K st"
proof -
  define f where "f x = (if x = r then B else B')" for x
  have f: "f r = B" "f (other r) = B'" by (cases r; simp add: f_def)+
  have "(\<forall>x. branch_holds st x (values_in K x) (f x)) \<and> heap_is st Map.empty (branch_cells (f Root_left) + branch_cells (f Root_right))"
    unfolding both_roots [of _ r] cells_focus [of _ r] f using assms by simp
  then show ?thesis using assms(1,2) unfolding holds_keys_def by blast
qed

lemma branch_cells_few: "branch_holds st r V B \<Longrightarrow> size (branch_cells B) \<le> card V"
  using nodes_below_values by (auto simp: branch_holds_def branch_cells_def split: option.splits intro: less_imp_le)

lemma few_nodes:
  assumes "holds_keys K st"
  shows "live_nodes st \<le> card K"
proof -
  obtain B where B: "branch_holds st Root_left (values_in K Root_left) (B Root_left)"
    "branch_holds st (other Root_left) (values_in K (other Root_left)) (B (other Root_left))"
    "heap_is st Map.empty (branch_cells (B Root_left) + branch_cells (B (other Root_left)))"
    by (rule holds_keysE [OF assms, of Root_left])
  have "live_nodes st = size (branch_cells (B Root_left)) + size (branch_cells (B (other Root_left)))"
    using heap_is_count [OF B(3)] by simp
  also have "\<dots> \<le> card (values_in K Root_left) + card (values_in K (other Root_left))"
    using branch_cells_few [OF B(1)] branch_cells_few [OF B(2)] by simp
  also have "\<dots> = card K" using card_values_in assms by (simp add: holds_keys_def)
  finally show ?thesis .
qed

lemma MemoryPool0_lists: "length (mFreeLists (MemoryPool0 n)) = n"
  by (simp add: MemoryPool0_def)

lemma no_keys: "holds_keys {} hot_state0"
  by (rule holds_keysI [where r = Root_left and B = None and B' = None])
    (simp_all add: branch_holds_def branch_cells_def values_in_def hot_state0_def root_pointer_def HOTSingleThreaded0_def
      heap_is_def pool0_wf MemoryPool0_lists)

section \<open>Inserting a key\<close>

lemma holds_keys_cong:
  assumes "node_objects st' = node_objects st" "node_pool st' = node_pool st" "\<And>r. root_pointer st' r = root_pointer st r"
    "hot_children st' = hot_children st" "extract_mask (hot_globals st') = extract_mask (hot_globals st)"
  shows "holds_keys K st' = holds_keys K st"
proof -
  have "branch_holds st' r V B = branch_holds st r V B" "heap_is st' R M = heap_is st R M" for r V B R M
    by (simp_all add: branch_holds_def heap_is_def assms split: option.split)
  then show ?thesis by (simp add: holds_keys_def assms(5))
qed

lemma branch_index_of: "int (unat (drop_bit 63 key AND 1)) = (if branch_of key = Root_left then 0 else 1)" for key :: u64
proof -
  have "drop_bit 63 key AND 1 = of_bool (bit key 63)"
    by (rule bit_word_eqI) (auto simp: bit_and_iff bit_drop_bit_eq bit_1_iff intro!: Nat.gr0I)
  then show ?thesis by (simp add: branch_of_def)
qed

lemma choose_branch_fields [simp]:
  "node_objects (choose_branch key st) = node_objects st" "node_pool (choose_branch key st) = node_pool st"
  "hot_roots (choose_branch key st) = hot_roots st" "hot_globals (choose_branch key st) = hot_globals st"
  "flag_mask (choose_branch key st) = flag_mask st" "input_pp (choose_branch key st) = input_pp st"
  "root_pointer (choose_branch key st) r = root_pointer st r"
  "hot_children (choose_branch key st) = insert (branch_of key) (hot_children st)"
  unfolding choose_branch_def Let_def branch_index_of
  by (simp_all add: root_pointer_def branch_of_def split: root.split)

lemma HOT_insert_mask_branch:
  "HOT_insert_mask rt extractKey v msk (choose_branch key st) =
     (if branch_of key \<in> hot_children st
      then insert_into_root_mask rt extractKey (branch_of key) v msk (input_pp st) empty_entries (choose_branch key st)
      else Some (Inr (True, use_root (branch_of key) (set_root_pointer (branch_of key)
        (ChildPointer_rule (valueToTid64 v) msk (input_pp st) empty_entries) (choose_branch key st)))))"
proof -
  have "branch_index (choose_branch key st) = (if branch_of key = Root_left then 0 else 1)"
    "branch_of key = Root_left \<Longrightarrow> T_left (choose_branch key st) = (if Root_left \<in> hot_children st then 0 else 1)"
    "branch_of key \<noteq> Root_left \<Longrightarrow> T_right (choose_branch key st) = (if Root_right \<in> hot_children st then 0 else 1)"
    unfolding choose_branch_def Let_def branch_index_of by (simp_all add: branch_of_def split: if_splits)
  then show ?thesis
    by (cases "branch_of key") (simp_all add: HOT_insert_mask_def Let_def new_branch_def)
qed

lemma values_in_same:
  "values_in (insert key K) (branch_of key) = insert (low_bits key) (values_in K (branch_of key))"
  "values_in (insert key K) (other (branch_of key)) = values_in K (other (branch_of key))"
proof -
  have "other (branch_of key) \<noteq> branch_of key" by (simp split: root.split)
  then show "values_in (insert key K) (other (branch_of key)) = values_in K (other (branch_of key))" by (simp add: values_in_insert)
qed (simp add: values_in_insert)

lemma low_bits_top: "\<not> bit (low_bits key) 63"
  by (simp add: bit_low_bits)

lemma other_same:
  assumes "branch_holds st (other r) V B" and "same_others r st st'"
  shows "branch_holds st' (other r) V B"
proof -
  have "other r \<noteq> r" by (simp split: root.split)
  then show ?thesis using assms by (simp add: branch_holds_def same_others_def split: option.splits)
qed

lemma insert_key_law:
  assumes ok: "allocator_ok (posix_memalign rt)" and mem: "\<forall>st j. memory_ok 32 (new_contents rt st j)"
    and K: "holds_keys K st" and flag: "\<not> flag_mask st" and low: "card K < 65535"
  shows "\<exists>res. program_insert_mask rt key 0 st = Some res \<and>
    returns rt (\<lambda>(inserted, st'). inserted = (key \<notin> K) \<and> holds_keys (insert key K) st' \<and>
      mRoot (hot_roots st') = Some (branch_of key)) res"
proof -
  define r v st1 where "r = branch_of key" and "v = low_bits key" and "st1 = choose_branch key st"
  note old = values_in_iff [of key K, folded r_def v_def]
  have fin: "finite K" and em: "extract_mask (hot_globals st) = 0" using K by (simp_all add: holds_keys_def)
  obtain B where B: "branch_holds st r (values_in K r) (B r)" "branch_holds st (other r) (values_in K (other r)) (B (other r))"
    "heap_is st Map.empty (branch_cells (B r) + branch_cells (B (other r)))" by (rule holds_keysE [OF K])
  have stored: "holds_keys (insert key K) st'"
    if "same_others r st1 st'" "branch_holds st' r (insert v (values_in K r)) (Some H)"
      "heap_is st' Map.empty (cells H + branch_cells (B (other r)))" for st' H
  proof (rule holds_keysI [where r = r and B = "Some H" and B' = "B (other r)"])
    have "other r \<noteq> r" by (simp split: root.split)
    then have "branch_holds st1 (other r) (values_in K (other r)) (B (other r))"
      using B(2) by (simp add: branch_holds_def st1_def r_def split: option.splits)
    then show "branch_holds st' (other r) (values_in (insert key K) (other r)) (B (other r))"
      using other_same [OF _ that(1)] by (simp add: values_in_same(2) r_def)
  qed (use that fin in \<open>simp_all add: branch_cells_def values_in_same(1) r_def v_def same_others_def\<close>)
  show ?thesis
  proof (cases "r \<in> hot_children st")
    case True
    then obtain H where H: "B r = Some H" "hwf H" "root_pointer st r = ptr H" "exact_trie (trie_of H)"
      "values_of (trie_of H) = values_in K r" "hheight H < card (values_in K r)"
      using B(1) by (auto simp: branch_holds_def split: option.splits)
    have "heap_is st1 Map.empty (cells H + branch_cells (B (other r)))"
      using B(3) H(1) by (simp add: heap_is_def st1_def branch_cells_def)
    then obtain R where R: "heap_is st1 R (cells H)"
      "\<And>st' M. heap_is st' R M \<Longrightarrow> heap_is st' Map.empty (M + branch_cells (B (other r)))"
      by (rule heap_is_frame) blast
    have "holds_values r R (values_in K r) st1"
      unfolding holds_values_def using H R(1) by (intro exI [of _ H]) (simp add: st1_def)
    moreover have "card (values_in K r) < 65535"
      using card_values_in [OF fin] low by (cases r) simp_all
    moreover have "live_nodes st1 + 200 \<le> NODE_LIMIT"
      using few_nodes [OF K] low by (simp add: live_nodes_def st1_def NODE_LIMIT_def)
    ultimately obtain res where res: "insert_into_root_mask rt IdentityKeyExtractor r v 0 (input_pp st) empty_entries st1 = Some res"
      "returns rt (inserted_ok r R v (values_in K r) st1) res"
      using insert_into_root_law [OF ok mem, of r R "values_in K r" st1 v "input_pp st" empty_entries] em flag low_bits_top
      by (auto simp: st1_def v_def)
    have "program_insert_mask rt key 0 st = Some res"
      using True res(1) unfolding program_insert_mask_def Let_def low_bits_def [symmetric] HOT_insert_mask_branch r_def v_def st1_def by simp
    moreover have "returns rt (\<lambda>(inserted, st'). inserted = (key \<notin> K) \<and> holds_keys (insert key K) st' \<and>
      mRoot (hot_roots st') = Some (branch_of key)) res"
      using res(2)
    proof (rule returns_mono, clarify)
      fix inserted st' assume "inserted_ok r R v (values_in K r) st1 (inserted, st')"
      then have i: "inserted = (v \<notin> values_in K r)" "holds_values r R (insert v (values_in K r)) st'" "same_others r st1 st'"
        "mRoot (hot_roots st') = Some r"
        by (simp_all add: inserted_ok_def)
      obtain H' where H': "hwf H'" "root_pointer st' r = ptr H'" "heap_is st' R (cells H')" "exact_trie (trie_of H')"
        "values_of (trie_of H') = insert v (values_in K r)" "hheight H' < card (insert v (values_in K r))"
        using i(2) unfolding holds_values_def by blast
      have "branch_holds st' r (insert v (values_in K r)) (Some H')"
        using H' i(3) True by (simp add: branch_holds_def same_others_def st1_def)
      then show "inserted = (key \<notin> K) \<and> holds_keys (insert key K) st' \<and> mRoot (hot_roots st') = Some (branch_of key)"
        using stored [OF i(3) _ R(2) [OF H'(3)]] i(1,4) old by (simp add: r_def)
    qed
    ultimately show ?thesis by blast
  next
    case False
    then have none: "B r = None" "values_in K r = {}" using B(1) by (auto simp: branch_holds_def split: option.splits)
    let ?c = "ChildPointer_rule (valueToTid64 v) 0 (input_pp st) empty_entries"
    let ?st = "use_root r (set_root_pointer r ?c st1)"
    have c: "isLeaf ?c" "leaf_value ?c = v"
      using leaf_value_rule [OF low_bits_top] by (simp_all add: v_def ChildPointer_rule_def isLeaf_def word_ao_dist)
    have "branch_holds ?st r (insert v (values_in K r)) (Some (HLeaf ?c))"
      using c none(2) exact_trie_leaf [OF low_bits_top, of key "input_pp st" empty_entries]
      by (simp add: branch_holds_def values_of_def st1_def r_def v_def)
    moreover have "heap_is ?st Map.empty (cells (HLeaf ?c) + branch_cells (B (other r)))"
      using B(3) none(1) by (simp add: heap_is_def st1_def branch_cells_def)
    moreover have "same_others r st1 ?st" using em by (simp add: same_others_def st1_def)
    ultimately have "holds_keys (insert key K) ?st" using stored by blast
    moreover have "program_insert_mask rt key 0 st = Some (Inr (True, ?st))"
      using False unfolding program_insert_mask_def Let_def low_bits_def [symmetric] HOT_insert_mask_branch r_def v_def st1_def by simp
    moreover have "key \<notin> K" using old none(2) by simp
    ultimately show ?thesis by (simp add: r_def)
  qed
qed

section \<open>Inserting the rules and searching\<close>

lemma insertRange_law:
  assumes ok: "allocator_ok (posix_memalign rt)" and mem: "\<forall>st j. memory_ok 32 (new_contents rt st j)"
  shows "holds_keys K st \<Longrightarrow> card K + length ks < 65536 \<Longrightarrow>
    \<exists>res. insertRange_from rt i (map (\<lambda>k. (k, 0)) ks) (all, st) = Some res \<and>
      returns rt (\<lambda>(all', st'). all' = (all \<and> distinct ks \<and> K \<inter> set ks = {}) \<and> holds_keys (K \<union> set ks) st' \<and>
        mRoot (hot_roots st') = (if ks = [] then mRoot (hot_roots st) else Some (branch_of (last ks)))) res"
proof (induction ks arbitrary: i all st K)
  case (Cons k ks)
  let ?st = "st \<lparr> input_pp := of_nat (i + 1), flag_mask := False,
    hot_globals := hot_globals st \<lparr> wildcard_affected_entry_mask := 0 \<rparr> \<rparr>"
  have "holds_keys K ?st = holds_keys K st" by (rule holds_keys_cong) (simp_all add: root_pointer_def split: root.split)
  then obtain res where res: "program_insert_mask rt k 0 ?st = Some res"
    "returns rt (\<lambda>(inserted, st'). inserted = (k \<notin> K) \<and> holds_keys (insert k K) st' \<and> mRoot (hot_roots st') = Some (branch_of k)) res"
    using insert_key_law [OF ok mem, of K ?st k] Cons.prems by auto
  show ?case
  proof (cases res)
    case (Inl e)
    then show ?thesis using res by simp
  next
    case (Inr x)
    obtain inserted st2 where x: "x = (inserted, st2)" by (cases x)
    have i2: "inserted = (k \<notin> K)" "holds_keys (insert k K) st2" "mRoot (hot_roots st2) = Some (branch_of k)" using res(2) Inr x by simp_all
    have "holds_keys (insert k K) (st2 \<lparr> input_pp := 0 \<rparr>) = holds_keys (insert k K) st2"
      by (rule holds_keys_cong) (simp_all add: root_pointer_def split: root.split)
    moreover have m: "mRoot (hot_roots (st2 \<lparr> input_pp := 0 \<rparr>)) = Some (branch_of k)" using i2(3) by simp
    moreover have "card (insert k K) + length ks < 65536"
      using Cons.prems card_insert_le_m1 [of "Suc (card K)" K k] by (simp add: holds_keys_def card_insert_if split: if_splits)
    ultimately obtain res' where res': "insertRange_from rt (Suc i) (map (\<lambda>k. (k, 0)) ks) (all \<and> inserted, st2 \<lparr> input_pp := 0 \<rparr>) = Some res'"
      "returns rt (\<lambda>(all', st'). all' = ((all \<and> inserted) \<and> distinct ks \<and> insert k K \<inter> set ks = {}) \<and> holds_keys (insert k K \<union> set ks) st' \<and>
        mRoot (hot_roots st') = (if ks = [] then Some (branch_of k) else Some (branch_of (last ks)))) res'"
      using Cons.IH [of "insert k K" "st2 \<lparr> input_pp := 0 \<rparr>" "Suc i" "all \<and> inserted"] i2(2) unfolding m by blast
    have "returns rt (\<lambda>(all', st'). all' = (all \<and> distinct (k # ks) \<and> K \<inter> set (k # ks) = {}) \<and> holds_keys (K \<union> set (k # ks)) st' \<and>
        mRoot (hot_roots st') = Some (branch_of (last (k # ks)))) res'"
      by (rule returns_mono [OF res'(2)]) (auto simp: i2(1))
    then show ?thesis using res(1) res'(1) Inr x by (simp add: Let_def)
  qed
qed simp

definition roots_agree :: "HOTSingleThreaded \<Rightarrow> HOTSingleThreaded \<Rightarrow> bool" where
  "roots_agree h h' \<longleftrightarrow> mRoot_left h = mRoot_left h' \<and> mRoot_right h = mRoot_right h'"

lemma search_empty_branch:
  assumes "(if bit key 63 then mRoot_right (mTrie s) else mRoot_left (mTrie s)) = ChildPointer0"
  shows "\<exists>s'. hot_search nodes undef junk key s = Some (Inr (False, s')) \<and> match_count s' = match_count s \<and>
    roots_agree (mTrie s') (mTrie s) \<and> search_globals s' = search_globals s"
proof -
  have "root_of (int (unat (drop_bit 63 key AND 1))) (mTrie s) = ChildPointer0"
    using assms unfolding branch_index_of by (simp add: branch_of_def split: if_splits)
  moreover have "\<not> isLeaf ChildPointer0" "getNode ChildPointer0 = 0" by code_simp+
  ultimately show ?thesis
    unfolding hot_search_def lookup_def Let_def roots_agree_def
    by (subst lookup_loop.simps) (simp add: OptionalValue0_def split: if_splits)
qed

lemma search_law:
  assumes K: "holds_keys K st" and s: "roots_agree (mTrie s) (hot_roots st)" "extract_mask (search_globals s) = 0"
  shows "\<exists>s'. hot_search (node_objects st) undef junk key s = Some (Inr (key \<in> K, s')) \<and>
    match_count s' = match_count s + of_bool (key \<in> K) \<and> roots_agree (mTrie s') (hot_roots st) \<and> extract_mask (search_globals s') = 0"
proof -
  let ?r = "branch_of key"
  obtain B where B: "branch_holds st ?r (values_in K ?r) (B ?r)"
    "heap_is st Map.empty (branch_cells (B ?r) + branch_cells (B (other ?r)))" by (rule holds_keysE [OF K])
  have root: "(if bit key 63 then mRoot_right (mTrie s) else mRoot_left (mTrie s)) = root_pointer st ?r"
    using s(1) by (simp add: root_pointer_def branch_of_def roots_agree_def)
  show ?thesis
  proof (cases "B ?r")
    case (Some H)
    then have H: "hwf H" "root_pointer st ?r = ptr H" "exact_trie (trie_of H)" "values_of (trie_of H) = values_in K ?r"
      using B(1) by (simp_all add: branch_holds_def)
    have "tree_at (node_objects st) (ptr H) (trie_of H)"
      using hwf_tree_at [OF H(1)] heap_is_lookup [OF B(2)] Some by (simp add: branch_cells_def)
    then have t: "tree_at (node_objects st) (if bit key 63 then mRoot_right (mTrie s) else mRoot_left (mTrie s)) (trie_of H)"
      unfolding root H(2) .
    have ex: "keyed leaf_key (trie_of H)" "bits_of (trie_of H) \<subseteq> {..<64}" "\<forall>c \<in> set (leaves (trie_of H)). mMask c = 0 \<and> listSize c = 0"
      using H(3) patricia_keyed [of leaf_key "trie_of H"] by (auto simp: exact_trie_def)
    have "(\<exists>c \<in> set (leaves (trie_of H)). leaf_value c = key AND NOT (push_bit 63 1)) \<longleftrightarrow> low_bits key \<in> values_in K ?r"
      unfolding low_bits_def [symmetric] H(4) [symmetric] values_of_def image_iff by (rule bex_cong [OF refl]) (rule eq_commute)
    also have "\<dots> \<longleftrightarrow> key \<in> K" by (rule values_in_iff)
    finally show ?thesis
      using hot_search_finds [OF t ex(1,2) s(2) ex(3), of undef junk] s(1) by (auto simp: roots_agree_def)
  next
    case None
    then have "root_pointer st ?r = ChildPointer0" "key \<notin> K"
      using B(1) values_in_iff [of key K] by (simp_all add: branch_holds_def)
    then show ?thesis using search_empty_branch [of key s "node_objects st" undef junk] root s by (auto simp: roots_agree_def)
  qed
qed

text \<open>C7: Inserting a rule without wildcards implements insertion into a set of keys: the result says whether
  the key is new, the memory afterwards holds the trees of exactly the keys of the new set and no other node,
  and the only failure is an allocator that refuses.\<close>
theorem program_insert_set:
  assumes "allocator_ok (posix_memalign rt)" and "\<forall>st j. memory_ok 32 (new_contents rt st j)"
    and "holds_keys K st" and "\<not> flag_mask st" and "card K < 65535"
  shows "\<exists>res. program_insert_mask rt key 0 st = Some res \<and>
    (case res of Inl e \<Rightarrow> e = Bad_Alloc \<and> refuses rt
     | Inr (inserted, st') \<Rightarrow> inserted = (key \<notin> K) \<and> holds_keys (insert key K) st' \<and> live_nodes st' \<le> card (insert key K))"
proof -
  obtain res where res: "program_insert_mask rt key 0 st = Some res"
    "returns rt (\<lambda>(inserted, st'). inserted = (key \<notin> K) \<and> holds_keys (insert key K) st' \<and> mRoot (hot_roots st') = Some (branch_of key)) res"
    using insert_key_law [OF assms] by blast
  then show ?thesis using few_nodes by (cases res) auto
qed

section \<open>A run of the program\<close>

text \<open>An allocator that hands out the first multiple of 16 that is not in use, and memory of zeros.\<close>

definition first_fit :: "u64 set \<Rightarrow> nat \<Rightarrow> nat \<Rightarrow> u64 option" where
  "first_fit A n s = map_option (\<lambda>i. of_nat (16 * Suc i)) (List.find (\<lambda>i. of_nat (16 * Suc i) \<notin> A) [0..<2 ^ 40])"

definition example_runtime :: runtime where
  "example_runtime = \<lparr> posix_memalign = first_fit, new_contents = (\<lambda>_ _. (replicate 32 0, replicate 32 ChildPointer0)),
     garbage = (\<lambda>_. ChildPointer0), undef_index = 0 \<rparr>"

lemma bit_word_of_nat: "bit (of_nat n :: 'a :: len word) k \<longleftrightarrow> k < LENGTH('a) \<and> bit n k"
  by (transfer fixing: n k) (simp add: bit_take_bit_iff bit_of_nat_iff possible_bit_def)

lemma first_fit_address:
  assumes "i < 2 ^ 40"
  shows "unat (of_nat (16 * Suc i) :: u64) = 16 * Suc i" "usable_address (of_nat (16 * Suc i))"
proof -
  have small: "16 * Suc i < 2 ^ 45" using assms by simp
  then have "16 * Suc i < 2 ^ LENGTH(64)" by simp
  then show u: "unat (of_nat (16 * Suc i) :: u64) = 16 * Suc i" 
    unfolding unsigned_of_nat of_nat_id by (rule take_bit_nat_eq_self)
  have m: "(15 :: u64) = mask 4" by (simp add: mask_eq_exp_minus_1)
  have "(of_nat (16 * Suc i) :: u64) = push_bit 4 (of_nat (Suc i))"
    unfolding push_bit_eq_mult by (simp add: algebra_simps)
  then have "(of_nat (16 * Suc i) :: u64) AND 15 = 0"
    unfolding m by (intro bit_word_eqI) (simp add: bit_and_iff bit_mask_iff bit_push_bit_iff)
  moreover have "\<not> bit (of_nat (16 * Suc i) :: u64) k" if "45 \<le> k" for k
  proof -
    have "16 * Suc i < 2 ^ k" using small power_increasing [OF that, of "2 :: nat"] by linarith
    then have "\<not> bit (16 * Suc i) k" by (simp add: bit_iff_odd)
    then show ?thesis unfolding bit_word_of_nat by blast
  qed
  moreover have "(of_nat (16 * Suc i) :: u64) \<noteq> 0" using u by auto
  ultimately show "usable_address (of_nat (16 * Suc i))" by (simp add: usable_address_def)
qed

lemma find_upt: "List.find P [0..<n] = Some i \<Longrightarrow> i < n \<and> P i" "List.find P [0..<n] = None \<longleftrightarrow> (\<forall>i < n. \<not> P i)"
  by (auto simp: find_Some_iff find_None_iff)

lemma first_fit_ok: "allocator_ok first_fit"
  unfolding allocator_ok_def first_fit_def using find_upt(1) first_fit_address(2) by fastforce

lemma first_fit_never_refuses: "\<not> refuses example_runtime"
proof -
  have "2 ^ 40 \<le> card A" if "first_fit A n s = None" for A n s
  proof -
    let ?f = "\<lambda>i. of_nat (16 * Suc i) :: u64"
    have sub: "?f ` {..<2 ^ 40} \<subseteq> A" using that unfolding first_fit_def by (auto simp: find_upt(2))
    have "inj_on ?f {..<2 ^ 40}"
    proof (rule inj_onI)
      fix x y assume xy: "x \<in> {..<(2 :: nat) ^ 40}" "y \<in> {..<(2 :: nat) ^ 40}" "?f x = ?f y"
      have "16 * Suc x = 16 * Suc y" using arg_cong [OF xy(3), of unat] first_fit_address(1) xy(1,2) by (simp only: lessThan_iff)
      then show "x = y" by simp
    qed
    then have "card (?f ` {..<2 ^ 40}) = 2 ^ 40" by (simp only: card_image card_lessThan)
    then show ?thesis using card_mono [OF finite sub] by simp
  qed
  then show ?thesis unfolding refuses_def example_runtime_def by (fastforce simp: not_less [symmetric])
qed

lemma example_runtime_ok:
  "allocator_ok (posix_memalign example_runtime)" "\<forall>st j. memory_ok 32 (new_contents example_runtime st j)"
  using first_fit_ok by (simp_all add: example_runtime_def memory_ok_def)

theorem program_insert_set_witness:
  "\<exists>st. program_insert_mask example_runtime 7 0 hot_state0 = Some (Inr (True, st)) \<and> holds_keys {7} st \<and> live_nodes st \<le> 1"
proof -
  have "\<exists>res. program_insert_mask example_runtime 7 0 hot_state0 = Some res \<and>
    (case res of Inl e \<Rightarrow> e = Bad_Alloc \<and> refuses example_runtime
     | Inr (inserted, st') \<Rightarrow> inserted = (7 \<notin> ({} :: u64 set)) \<and> holds_keys (insert 7 {}) st' \<and> live_nodes st' \<le> card (insert 7 ({} :: u64 set)))"
    using program_insert_set [OF example_runtime_ok no_keys, of 7] by (simp add: hot_state0_def)
  then obtain res where res: "program_insert_mask example_runtime 7 0 hot_state0 = Some res"
    "case res of Inl e \<Rightarrow> e = Bad_Alloc \<and> refuses example_runtime
     | Inr (inserted, st') \<Rightarrow> inserted = (7 \<notin> ({} :: u64 set)) \<and> holds_keys (insert 7 {}) st' \<and> live_nodes st' \<le> card (insert 7 ({} :: u64 set))"
    by blast
  then show ?thesis using first_fit_never_refuses by (cases res) auto
qed

end
