(* ===== verification/Hot_Release.thy ===== *)
theory Hot_Release
  imports Hot_Tree_Contract
begin

text \<open>
  Releasing a tree: \<open>free\<close> and \<open>deleteSubtree\<close> of \<open>HOTSingleThreadedChildPointer.hpp\<close> and the destructor
  and move operations of \<open>HOTSingleThreaded.hpp\<close>.
\<close>

section \<open>The operations\<close>

definition node_children :: "'c HOTSingleThreadedNode \<Rightarrow> 'c list cxx" where
  "node_children n = rmap (get_pointer n) [0..<getNumberEntries n]"

definition pointer_free :: "CP \<Rightarrow> hot_state \<Rightarrow> hot_state cxx" where
  "pointer_free p st = executeForSpecificNodeType (node_objects st) p (\<lambda>n. delete_node (getNode p) st)"

text \<open>
  \<open>deleteSubtree\<close> for each of a node's children in turn; a node is deleted after its children.  The
  memory may have cycles, so this need not end.
\<close>

partial_function (option) deleteSubtree_each :: "CP list \<Rightarrow> hot_state \<Rightarrow> hot_state cxx option" where
  "deleteSubtree_each ps st =
     (case ps of [] \<Rightarrow> Some (Inr st)
      | p # ps' \<Rightarrow>
          if isNode p \<and> getNode p \<noteq> 0
          then (case executeForSpecificNodeType (node_objects st) p node_children of
                  Inl e \<Rightarrow> Some (Inl e)
                | Inr cs \<Rightarrow>
                    Option.bind (deleteSubtree_each cs st) (\<lambda>r.
                      case rbind r (delete_node (getNode p)) of
                        Inl e \<Rightarrow> Some (Inl e)
                      | Inr st' \<Rightarrow> deleteSubtree_each ps' st'))
          else deleteSubtree_each ps' st)"

definition deleteSubtree :: "CP \<Rightarrow> hot_state \<Rightarrow> hot_state cxx option" where
  "deleteSubtree p st = deleteSubtree_each [p] st"

text \<open>The destructor releases the tree of the root in use.\<close>

definition HOT_destroy :: "hot_state \<Rightarrow> hot_state cxx option" where
  "HOT_destroy st =
     (case mRoot (hot_roots st) of None \<Rightarrow> Some (Inl UB_Null) | Some r \<Rightarrow> deleteSubtree (root_pointer st r) st)"

section \<open>Every node of the tree is released\<close>

lemma node_children_wf: "node_wf n t \<Longrightarrow> node_children n = Inr (leaves t)"
proof -
  assume wf: "node_wf n t"
  have "rmap (get_pointer n) ks = Inr (map ((!) (leaves t)) ks)" if "set ks \<subseteq> {..<length (leaves t)}" for ks
    using that node_entry(2) [OF wf] by (induction ks) auto
  from this [of "[0..<length (leaves t)]"] show ?thesis
    using node_wfD(10) [OF wf] by (simp add: node_children_def map_nth lessThan_atLeast0)
qed

lemma points_node:
  assumes "points_to p n" and "nodes (getNode p) = Some n"
  shows "isNode p \<and> getNode p \<noteq> 0" "executeForSpecificNodeType nodes p f = f n"
  using assms executeForSpecificNodeType_node [of nodes p n f] by (simp_all add: points_to_def isNode_def)

lemma deleteSubtree_each_law:
  assumes "hwf h" and "heap_is st R (cells h + M)"
  shows "\<exists>st'. same_rest st st' \<and> heap_is st' R M \<and> (\<forall>ps. deleteSubtree_each (ptr h # ps) st = deleteSubtree_each ps st')"
  using assms
proof (induction h arbitrary: st M)
  case (HLeaf p)
  then show ?case by (intro exI [of _ st]) (subst deleteSubtree_each.simps, simp add: isNode_def)
next
  case (HNode p n t cs)
  have all: "\<exists>st'. same_rest st st' \<and> heap_is st' R M \<and> deleteSubtree_each (map ptr hs) st = Some (Inr st')"
    if "set hs \<subseteq> set cs" "heap_is st R (sum_list (map cells hs) + M)" for hs st M
    using that
  proof (induction hs arbitrary: st M)
    case Nil
    then show ?case by (intro exI [of _ st]) (subst deleteSubtree_each.simps, simp)
  next
    case (Cons h hs)
    have "hwf h" using Cons.prems(1) HNode.prems(1) by auto
    moreover have "heap_is st R (cells h + (sum_list (map cells hs) + M))" using Cons.prems(2) by (simp add: add.assoc)
    ultimately obtain st1 where st1: "same_rest st st1" "heap_is st1 R (sum_list (map cells hs) + M)"
      "\<forall>ps. deleteSubtree_each (ptr h # ps) st = deleteSubtree_each ps st1"
      using HNode.IH [of h st "sum_list (map cells hs) + M"] Cons.prems(1) by auto
    obtain st2 where "same_rest st1 st2" "heap_is st2 R M" "deleteSubtree_each (map ptr hs) st1 = Some (Inr st2)"
      using Cons.IH [OF _ st1(2)] Cons.prems(1) by auto
    then show ?case using st1(1,3) same_rest_trans by auto
  qed
  have wf: "points_to p n" "node_wf n t" "leaves t = map ptr cs" using HNode.prems(1) by simp_all
  have heap: "heap_is st R (sum_list (map cells cs) + add_mset (getNode p, n) M)" using HNode.prems(2) by (simp add: ac_simps)
  have "node_objects st (getNode p) = Some n" using heap_is_lookup [OF heap] by simp
  note run = points_node [of p n "node_objects st", OF wf(1) this]
  obtain st1 where st1: "same_rest st st1" "heap_is st1 R (add_mset (getNode p, n) M)" "deleteSubtree_each (map ptr cs) st = Some (Inr st1)"
    using all [OF order.refl heap] by blast
  obtain st2 where st2: "delete_node (getNode p) st1 = Inr st2" "same_rest st1 st2" "heap_is st2 R M"
    using delete_node_law [OF st1(2) wf(2)] by blast
  have "deleteSubtree_each (ptr (HNode p n t cs) # ps) st = deleteSubtree_each ps st2" for ps
    by (subst deleteSubtree_each.simps) (simp add: run node_children_wf [OF wf(2)] wf(3) st1(3) st2(1))
  then show ?case using st2(3) same_rest_trans [OF st1(1) st2(2)] by blast
qed

lemma deleteSubtree_law:
  assumes "hwf h" and "heap_is st R (cells h + M)"
  shows "\<exists>st'. deleteSubtree (ptr h) st = Some (Inr st') \<and> same_rest st st' \<and> heap_is st' R M"
proof -
  obtain st' where st': "same_rest st st'" "heap_is st' R M" "\<forall>ps. deleteSubtree_each (ptr h # ps) st = deleteSubtree_each ps st'"
    using deleteSubtree_each_law [OF assms] by blast
  moreover have "deleteSubtree_each [] st' = Some (Inr st')" by (subst deleteSubtree_each.simps) simp
  ultimately show ?thesis by (auto simp: deleteSubtree_def)
qed

lemma heap_is_restrict:
  assumes "heap_is st Map.empty (M + N)" and "heap_is st' Map.empty N"
  shows "node_objects st' = node_objects st |` addrs N"
proof
  fix a show "node_objects st' a = (node_objects st |` addrs N) a"
  proof (cases "a \<in> addrs N")
    case True
    then obtain n where "(a, n) \<in># N" unfolding addrs_iff by blast
    then have "node_objects st a = Some n" "node_objects st' a = Some n"
      using heap_is_lookup [OF assms(1)] heap_is_lookup [OF assms(2)] by simp_all
    then show ?thesis using True by simp
  next
    case False
    then show ?thesis using assms(2) by (simp add: heap_is_def)
  qed
qed

text \<open>Of a set of keys the destructor releases the nodes of the branch used last; the other branch stays.\<close>

lemma HOT_destroy_law:
  assumes K: "holds_keys K st" and r: "mRoot (hot_roots st) = Some r"
  shows "\<exists>st' A B. branch_holds st r (values_in K r) A \<and> branch_holds st (other r) (values_in K (other r)) B \<and>
    heap_is st Map.empty (branch_cells A + branch_cells B) \<and>
    HOT_destroy st = Some (Inr st') \<and> heap_is st' Map.empty (branch_cells B)"
proof -
  obtain B where B: "branch_holds st r (values_in K r) (B r)" "branch_holds st (other r) (values_in K (other r)) (B (other r))"
    "heap_is st Map.empty (branch_cells (B r) + branch_cells (B (other r)))" by (rule holds_keysE [OF K])
  show ?thesis
  proof (cases "B r")
    case None
    then have p: "root_pointer st r = ChildPointer0" using B(1) by (simp add: branch_holds_def)
    have "\<not> isLeaf ChildPointer0" "getNode ChildPointer0 = 0" by code_simp+
    then have "HOT_destroy st = Some (Inr st)"
      by (simp add: HOT_destroy_def r deleteSubtree_def p) (subst deleteSubtree_each.simps, simp, subst deleteSubtree_each.simps, simp)
    moreover have "heap_is st Map.empty (branch_cells (B (other r)))" using B(3) None by (simp add: branch_cells_def)
    ultimately show ?thesis using B by blast
  next
    case (Some H)
    then have H: "hwf H" "root_pointer st r = ptr H" using B(1) by (simp_all add: branch_holds_def)
    have "heap_is st Map.empty (cells H + branch_cells (B (other r)))" using B(3) Some by (simp add: branch_cells_def)
    then obtain st' where "HOT_destroy st = Some (Inr st')" "heap_is st' Map.empty (branch_cells (B (other r)))"
      using deleteSubtree_law [OF H(1), of st Map.empty "branch_cells (B (other r))"] by (auto simp: HOT_destroy_def r H(2))
    then show ?thesis using B by blast
  qed
qed

section \<open>Examples\<close>

lemma example_insertions:
  assumes "ks \<noteq> []" and "length ks < 65536"
  obtains st where "insertRange example_runtime (map (\<lambda>k. (k, 0)) ks) hot_state0 = Some (Inr (distinct ks, st))"
    "holds_keys (set ks) st" "mRoot (hot_roots st) = Some (branch_of (last ks))"
proof -
  obtain res where res: "insertRange example_runtime (map (\<lambda>k. (k, 0)) ks) hot_state0 = Some res"
    "returns example_runtime (\<lambda>(all', st'). all' = distinct ks \<and> holds_keys (set ks) st' \<and> mRoot (hot_roots st') = Some (branch_of (last ks))) res"
    using insertRange_law [OF example_runtime_ok no_keys, of ks 0 True] assms by (auto simp: insertRange_def)
  then show thesis using that first_fit_never_refuses by (cases res) auto
qed

lemma two_values_one_node:
  assumes "branch_holds st r V B" and "card V = 2"
  shows "size (branch_cells B) = 1"
proof -
  obtain H where H: "B = Some H" "hwf H" "exact_trie (trie_of H)" "values_of (trie_of H) = V"
    using assms by (cases B) (auto simp: branch_holds_def)
  have "size (cells H) < 2" using nodes_below_values [OF H(2-4)] assms(2) by simp
  moreover have "cells H \<noteq> {#}" using H(4) assms(2) by (cases H) (auto simp: values_of_def)
  ultimately show ?thesis using H(1) nonempty_has_size [of "cells H"] by (simp add: branch_cells_def)
qed

end
