(* ===== verification/Hot_Statistics.thy ===== *)
theory Hot_Statistics
  imports Hot_Release
begin

text \<open>
  The statistics of a tree: \<open>getStatistics\<close> of \<open>HOTSingleThreaded.hpp\<close> with the levels of its leaves, counted in
  nodes and in the bits that are tested, the sizes and kinds of its nodes, and \<open>getEntryDepths\<close> of
  \<open>HOTSingleThreadedNode.hpp\<close>.  The program collects them between the insertion and the lookup.
\<close>

unbundle bit_operations_syntax

section \<open>The most significant of some bits of a mapping\<close>

lemma bit_key_word_positions:
  assumes "length ps \<le> 32" and "S \<subseteq> set ps"
  shows "{ps ! j | j. j < length ps \<and> bit (key_word ps S) j} = S"
proof -
  have "{ps ! j | j. j < length ps \<and> bit (key_word ps S) j} = {ps ! j | j. j < length ps \<and> ps ! j \<in> S}"
    using assms(1) by (intro Collect_cong ex_cong1) (auto simp: bit_key_word)
  then show ?thesis using assms(2) by (auto simp: set_conv_nth)
qed

lemma pdep_positions:
  "{8 * mOffsetInBytes m + rbit i | i. bit (getSuccessiveMaskForMask m used) i} =
   {sm_positions m ! j | j. j < length (sm_positions m) \<and> bit used j}" (is "?L = ?R")
proof -
  let ?x = "mSuccessiveExtractionMask m" and ?f = "\<lambda>i. 8 * mOffsetInBytes m + rbit i"
  have b: "bit (getSuccessiveMaskForMask m used) i \<longleftrightarrow> bit ?x i \<and> bit used (rank ?x i)" for i
    using bit_imp_le_length [of ?x i] bit_imp_le_length [of used "rank ?x i"]
    by (auto simp: getSuccessiveMaskForMask_def bit_pdep bit_ucast_iff)
  show ?thesis
  proof (intro set_eqI iffI)
    fix k assume "k \<in> ?L"
    then obtain i where i: "bit ?x i" "bit used (rank ?x i)" "k = ?f i" by (auto simp: b)
    have "ones ?x ! rank ?x i = i" "rank ?x i < length (ones ?x)" using i(1) by (simp_all add: nth_ones_rank)
    then have "k = sm_positions m ! rank ?x i" "rank ?x i < length (sm_positions m)" using i(3) by (simp_all add: sm_positions_def)
    then show "k \<in> ?R" using i(2) by blast
  next
    fix k assume "k \<in> ?R"
    then obtain j where j: "j < length (ones ?x)" "bit used j" "k = ?f (ones ?x ! j)" by (auto simp: sm_positions_def)
    have "bit ?x (ones ?x ! j)" "rank ?x (ones ?x ! j) = j" using j(1) nth_mem [OF j(1)] by (simp_all add: rank_nth_ones)
    then show "k \<in> ?L" using j(2,3) by (auto simp: b)
  qed
qed

lemma rbit_eq: "rbit i = rbit j \<longleftrightarrow> i = j"
  by (metis rbit_rbit)

lemma rbit_le: "i div 8 < j div 8 \<or> i div 8 = j div 8 \<and> j \<le> i \<Longrightarrow> rbit i \<le> rbit j"
proof -
  assume a: "i div 8 < j div 8 \<or> i div 8 = j div 8 \<and> j \<le> i"
  have "rbit k = 8 * (k div 8) + (7 - k mod 8)" for k by (simp add: rbit_def abs_bit_def)
  moreover have "j mod 8 \<le> i mod 8" if "i div 8 = j div 8" using a that div_mult_mod_eq [of i 8] div_mult_mod_eq [of j 8] by linarith
  ultimately show ?thesis using a by (cases "i div 8 = j div 8") (simp_all add: diff_le_mono2)
qed

lemma sm_mostSignifikant:
  assumes v: "sm_valid m" and S: "S \<subseteq> sm_bits m" "S \<noteq> {}"
  shows "sm_getMostSignifikantMaskBit m (key_word (sm_positions m) S) = Inr (key_word (sm_positions m) {Min S})"
proof -
  let ?used = "key_word (sm_positions m) S" and ?f = "\<lambda>i. 8 * mOffsetInBytes m + rbit i"
  define w where "w = getSuccessiveMaskForMask m ?used"
  have "length (sm_positions m) \<le> 32" using v by (simp add: sm_valid_def sm_positions_def popcnt_def)
  then have S': "{?f i | i. bit w i} = S"
    using bit_key_word_positions [of "sm_positions m" S] S(1) by (simp add: w_def pdep_positions sm_bits_def)
  then have "w \<noteq> 0" using S(2) by auto
  note t = tzcnt_bit [OF this] tzcnt_less [OF this]
  define s where "s = 8 * (tzcnt w div 8)"
  have "tzcnt w div 8 < 8" using t(3) by (simp add: less_mult_imp_div_less)
  then have s: "s < 64" by (simp add: s_def)
  define u where "u = w AND push_bit s 0xFF"
  have ff: "(0xFF :: u64) = mask 8" by (simp add: mask_eq_exp_minus_1)
  have u: "bit u i \<longleftrightarrow> bit w i \<and> i div 8 = tzcnt w div 8" for i
    unfolding u_def ff bit_and_iff bit_push_bit_iff bit_mask_iff s_def
    using bit_imp_le_length [of w i] by (auto simp: div_eq_dividend_iff)
  have "bit u (tzcnt w)" using t(1) by (simp add: u)
  then have "u \<noteq> 0" by auto
  then obtain i where i: "bit u i" "\<And>j. i < j \<Longrightarrow> \<not> bit u j" "lzcnt u = LENGTH(64) - 1 - i" "i < LENGTH(64)"
    by (rule lzcnt_bit) (rule that, simp_all)
  have top: "shr64 SUCCESSIVE_EXTRACTION_MASK_WITH_HIGHEST_BIT_SET (lzcnt u) = Inr (push_bit i 1)"
  proof -
    have "shr64 SUCCESSIVE_EXTRACTION_MASK_WITH_HIGHEST_BIT_SET (lzcnt u) = Inr (drop_bit (63 - i) SUCCESSIVE_EXTRACTION_MASK_WITH_HIGHEST_BIT_SET)"
      using i(3,4) by (subst shift_simps(3)) simp_all
    moreover have "drop_bit (63 - i) SUCCESSIVE_EXTRACTION_MASK_WITH_HIGHEST_BIT_SET = push_bit i 1"
      unfolding SUCCESSIVE_EXTRACTION_MASK_WITH_HIGHEST_BIT_SET_def
      by (intro bit_word_eqI) (use i(4) in \<open>simp only: bit_drop_bit_eq comp_def bit_single, auto\<close>)
    ultimately show ?thesis by simp
  qed
  have mn: "Min S = ?f i"
  proof (rule Min_eqI)
    show "finite S" using S(1) finite_sm_bits by (rule finite_subset)
    show "?f i \<in> S" using i(1) u unfolding S' [symmetric] by blast
    fix k assume "k \<in> S"
    then obtain j where j: "bit w j" "k = ?f j" unfolding S' [symmetric] by blast
    have "i div 8 \<le> j div 8" using div_le_mono [OF t(2) [OF j(1)], of 8] i(1) u by simp
    moreover have "j \<le> i" if "i div 8 = j div 8" using i(1) i(2) [of j] that j(1) u not_less by metis
    ultimately have "rbit i \<le> rbit j" by (intro rbit_le) auto
    then show "?f i \<le> k" using j(2) by simp
  qed
  have "extractMaskFromSuccessiveBytes m (push_bit i 1) = of_bits (map (\<lambda>k. k \<in> {Min S}) (sm_positions m))"
    by (rule extractMask_bits [OF v]) (use i(4) in \<open>auto simp: mn rbit_eq bit_power_two\<close>)
  moreover have "shl64 0xFF s = Inr (push_bit s 0xFF)" using s by (rule shift_simps)
  ultimately show ?thesis
    using top by (simp add: sm_getMostSignifikantMaskBit_def w_def [symmetric] s_def [symmetric] u_def [symmetric]) (simp add: key_word_def)
qed

lemma mm_mostSignifikant:
  assumes v: "mm_valid n m" and few: "length (mm_positions m) \<le> 31" and S: "S \<subseteq> mm_bits m" "S \<noteq> {}"
  shows "mm_getMostSignifikantMaskBit n m (key_word (mm_positions m) S) = Inr (key_word (mm_positions m) {Min S})"
proof -
  have sh: "mm_shape n m" using v by (auto simp: mm_valid_def mm_wf_def)
  note s = mm_shapeD [OF sh]
  let ?P = "mExtractionPositions m" and ?used = "key_word (mm_positions m) S"
  define E where "E = used_bytes n (mExtractionData m) ?used"
  have le: "length E = 8 * n" by (simp add: E_def)
  have E: "getUsedExtractionBitsForMask n m ?used = Inr E"
    unfolding E_def by (rule used_bytes_eq) (use s(1,3) few in \<open>simp_all add: mm_positions_def\<close>)
  obtain U where U: "getBytesUsedMaskForExtractionData n m E = Inr U"
    "\<And>i. bit U i \<longleftrightarrow> i < mNumberExtractionBytes m \<and> E ! i \<noteq> 0" using bytes_used_mask [OF sh le] by metis
  have sub: "bitb E x \<Longrightarrow> bitb (mExtractionData m) x" for x using bitb_used [OF s(3)] by (simp add: E_def)
  note es = kept_bytes_ok [OF sh le sub U(2)]
  let ?es = "kept_bytes ?P E U"
  have B: "byte_bits ?es = S"
    using es(3) used_positions [OF sh, of ?used] bit_key_word_positions [of "mm_positions m" S] few S(1)
    by (simp add: E_def mm_bits_def)
  have U0: "U \<noteq> 0" using B S(2) by (auto simp: kept_bytes_def byte_bits_def)
  define i where "i = tzcnt U"
  have i: "bit U i" using tzcnt_bit(1) [OF U0] by (simp add: i_def)
  have iN: "i < mNumberExtractionBytes m" "E ! i \<noteq> 0" using i by (simp_all add: U(2))
  have lt: "i < 8 * n" using iN(1) s(5) by simp
  have first: "?es = (?P ! i, E ! i) # map (\<lambda>i. (?P ! i, E ! i)) (tl (ones U))"
    using arg_cong [OF ones_Cons_tzcnt [OF U0], of "map (\<lambda>i. (?P ! i, E ! i))"] unfolding kept_bytes_def i_def list.map .
  obtain a where a: "a < 8" "bit (E ! i) a" "\<And>j. bit (E ! i) j \<Longrightarrow> j \<le> a" "unat (getMostSignificantBitIndexInByte (E ! i)) = 7 - a"
    using top_bit_of_byte [OF iN(2)] by metis
  have mn: "Min S = 8 * mm_pos m i + (7 - a)"
    using Min_byte_bits [of "?P ! i" "E ! i"] es(1) iN(2) unfolding B [symmetric] first a(4) by blast
  have "7 - a < 8" by simp
  then have "Min S div 8 = mm_pos m i" "Min S mod 8 = 7 - a" unfolding mn by (simp_all only: byte_index)
  then have k: "mm_pos m i = Min S div 8" "7 - Min S mod 8 = a" using a(1) by simp_all
  have "lzcnt (ucast (E ! i) :: u32) = 31 - a"
    using a(1-3) by (subst lzcnt_eqI [of "ucast (E ! i) :: u32" a]) (auto simp: bit_ucast_iff not_less [symmetric])
  then have lz: "lzcnt (ucast (E ! i) :: u32) - 24 = 7 - a" using a(1) by simp
  have byte: "getExtractionByteWithBitSetAtRelativePosition (7 - a) = Inr (push_bit a 1)"
  proof -
    have "list_all (\<lambda>a. drop_bit (7 - a) (0x80 :: u8) = push_bit a 1) [0..<8]" by code_simp
    then have "drop_bit (7 - a) (0x80 :: u8) = push_bit a 1" using a(1) unfolding list_all_iff by simp
    then show ?thesis
      by (simp add: getExtractionByteWithBitSetAtRelativePosition_def BYTE_WITH_HIGHEST_BIT_SET_def less_Suc_eq_le)
  qed
  have "length (mm_positions m) \<le> 32" using few by simp
  note single = single_bit_byte [OF sh this iN(1) k(1), unfolded k(2)]
  have "getExtractionByteAt E i = Inr (E ! i)" using lt le by (simp add: getExtractionByteAt_def byte_at_def)
  moreover have "setExtractionByteAt (zeroInitializedArray n) i (push_bit a 1) = Inr ((replicate (8 * n) 0) [i := push_bit a 1])"
    using lt by (simp add: setExtractionByteAt_def)
  ultimately show ?thesis
    using single by (simp add: mm_getMostSignifikantMaskBit_def E U(1) i_def [symmetric] lz byte) (simp add: key_word_def)
qed

lemma mapping_mostSignifikant:
  assumes "mapping_valid M" "length (mapping_positions M) \<le> 31" "S \<subseteq> mapping_bits M" "S \<noteq> {}"
  shows "mapping_getMostSignifikantMaskBit M (key_word (mapping_positions M) S) = Inr (key_word (mapping_positions M) {Min S})"
  using assms by (cases M) (simp_all add: mapping_bits_def mapping_positions_def sm_mostSignifikant mm_mostSignifikant sm_bits_def [symmetric] mm_bits_def [symmetric])

section \<open>The depths of the entries of a node\<close>

definition sub64 :: "nat \<Rightarrow> nat \<Rightarrow> nat" where
  "sub64 a b = (a + (2 ^ 64 - b mod 2 ^ 64)) mod 2 ^ 64"

partial_function (option) collectEntryDepth ::
  "'c HOTSingleThreadedNode \<Rightarrow> nat \<Rightarrow> nat \<Rightarrow> nat \<Rightarrow> u32 \<Rightarrow> u8 list \<Rightarrow> u8 list cxx option" where
  "collectEntryDepth n minEntryIndexInRange numberEntriesInRange currentDepth usedMaskBits entryDepths =
     (if numberEntriesInRange > 1
      then (case rbind (get_entry n (minEntryIndexInRange + numberEntriesInRange - 1)) (\<lambda>entry.
                 rbind (mapping_getMostSignifikantMaskBit (mDiscriminativeBitsRepresentation n)
                          (entry AND NOT usedMaskBits AND mask (key_width n))) (\<lambda>highest.
                 let mostSignificantMaskBitInRange = highest AND mask (key_width n)
                 in rbind (shr32 (- 1) (sub64 32 numberEntriesInRange)) (\<lambda>range.
                    rbind (shl32 range minEntryIndexInRange) (\<lambda>rangeMask.
                    rbind (keys_findMasksByPattern (key_width n) (mEntries n) mostSignificantMaskBitInRange) (\<lambda>found.
                      Inr (mostSignificantMaskBitInRange, found AND rangeMask)))))) of
              Inl e \<Rightarrow> Some (Inl e)
            | Inr (mostSignificantMaskBitInRange, upperEntriesMask) \<Rightarrow>
                let minimumUpperRangeEntryIndex = tzcnt upperEntriesMask;
                    numberEntriesInLowerHalf = sub64 minimumUpperRangeEntryIndex minEntryIndexInRange;
                    numberEntriesInUpperHalf = sub64 numberEntriesInRange numberEntriesInLowerHalf
                in Option.bind
                     (collectEntryDepth n minEntryIndexInRange numberEntriesInLowerHalf (currentDepth + 1) usedMaskBits entryDepths)
                     (\<lambda>r. case r of
                        Inl e \<Rightarrow> Some (Inl e)
                      | Inr depths \<Rightarrow>
                          collectEntryDepth n minimumUpperRangeEntryIndex numberEntriesInUpperHalf (currentDepth + 1)
                            (usedMaskBits OR mostSignificantMaskBitInRange) depths))
      else if numberEntriesInRange = 1
      then Some (if minEntryIndexInRange < length entryDepths
                 then Inr (entryDepths [minEntryIndexInRange := of_nat currentDepth]) else Inl UB_Index)
      else Some (Inr entryDepths))"

definition getEntryDepths :: "'c HOTSingleThreadedNode \<Rightarrow> u8 list cxx option" where
  "getEntryDepths n = collectEntryDepth n 0 (getNumberEntries n) 0 0 (replicate 32 0)"

fun trie_depths :: "'v ptrie \<Rightarrow> nat list" where
  "trie_depths (PLeaf v) = [0]"
| "trie_depths (PNode b l r) = map Suc (trie_depths l @ trie_depths r)"

lemma length_trie_depths [simp]: "length (trie_depths t) = length (leaves t)"
  by (induction t) simp_all

lemma subtrie_sides:
  assumes st: "subtrie t a (PNode b l r) pre"
  shows "subtrie t a l pre" "subtrie t (a + length (leaves l)) r (insert b pre)"
proof -
  have j: "leaves t ! (a + j) = leaves (PNode b l r) ! j \<and> paths {} t ! (a + j) = pre \<union> paths {} (PNode b l r) ! j"
    if "j < length (leaves l) + length (leaves r)" for j
    using st that by (simp add: subtrie_def)
  have p: "paths {b} r ! j = insert b (paths {} r ! j)" if "j < length (leaves r)" for j
    using paths_union [of "{b}" "{}" r] that by simp
  have o: "a + (length (leaves l) + length (leaves r)) \<le> length (leaves t)" "\<And>c. c \<in> bits_of l \<union> bits_of r \<Longrightarrow> b < c"
    "insert b (bits_of l \<union> bits_of r) \<subseteq> bits_of t" "pre \<inter> insert b (bits_of l \<union> bits_of r) = {}" "pre \<subseteq> bits_of t" "ordered l" "ordered r"
    using st by (auto simp: subtrie_def)
  show "subtrie t a l pre"
    unfolding subtrie_def using o(1,3-6) j by (auto simp: nth_append)
  have "leaves t ! (a + length (leaves l) + i) = leaves r ! i \<and> paths {} t ! (a + length (leaves l) + i) = insert b pre \<union> paths {} r ! i"
    if "i < length (leaves r)" for i
    using j [of "length (leaves l) + i"] p [OF that] that by (simp add: nth_append add.assoc)
  moreover have "b \<notin> bits_of r" using o(2) [of b] by blast
  ultimately show "subtrie t (a + length (leaves l)) r (insert b pre)"
    unfolding subtrie_def using o(1,3-7) by auto
qed

lemma sub64_small: "b \<le> a \<Longrightarrow> a < 2 ^ 64 \<Longrightarrow> sub64 a b = a - b"
proof -
  assume "b \<le> a" "a < 2 ^ 64"
  then have "a + (2 ^ 64 - b mod 2 ^ 64) = (a - b) + 2 ^ 64" "a - b < 2 ^ 64" by simp_all
  then show ?thesis unfolding sub64_def by simp
qed

text \<open>The bits of the last entry of a subtree, and the entries of its right half.\<close>

lemma last_entry_bits:
  assumes st: "subtrie t a (PNode b l r) pre"
  defines "S \<equiv> paths {} (PNode b l r) ! (length (leaves l) + length (leaves r) - 1)"
  shows "b \<in> S" "S \<subseteq> bits_of (PNode b l r)" "Min S = b" "paths {} t ! (a + (length (leaves l) + length (leaves r) - 1)) - pre = S"
proof -
  let ?N = "length (leaves l) + length (leaves r)"
  have N: "?N - 1 < ?N" "\<not> ?N - 1 < length (leaves l)" "?N - 1 - length (leaves l) < length (leaves r)"
    using leaves_pos [of l] leaves_pos [of r] by linarith+
  have "S \<in> set (paths {b} r)" using N by (simp add: S_def nth_append)
  from paths_bounds [OF this] show b: "b \<in> S" and S: "S \<subseteq> bits_of (PNode b l r)" by auto
  have "ordered (PNode b l r)" "finite S" using st finite_subset [OF S] by (simp_all add: subtrie_def)
  then show "Min S = b" using b S by (intro Min_eqI) (auto intro: less_imp_le)
  have "pre \<inter> S = {}" using st S by (auto simp: subtrie_def)
  moreover have "paths {} t ! (a + (?N - 1)) = pre \<union> S" using st N(1) by (simp add: subtrie_def S_def)
  ultimately show "paths {} t ! (a + (?N - 1)) - pre = S" by auto
qed

lemma upper_half:
  assumes st: "subtrie t a (PNode b l r) pre" and j: "j < length (leaves l) + length (leaves r)"
  shows "b \<in> paths {} t ! (a + j) \<longleftrightarrow> length (leaves l) \<le> j"
proof -
  have o: "b \<notin> pre" "b \<notin> bits_of l" using st by (auto simp: subtrie_def)
  have "b \<in> paths {} (PNode b l r) ! j \<longleftrightarrow> length (leaves l) \<le> j"
  proof (cases "j < length (leaves l)")
    case True
    then have "paths {} (PNode b l r) ! j \<in> set (paths {} l)" by (simp add: nth_append)
    with True o(2) show ?thesis using paths_bounds by fastforce
  next
    case False
    then have "paths {} (PNode b l r) ! j \<in> set (paths {b} r)" using j by (simp add: nth_append)
    with False show ?thesis using paths_bounds by fastforce
  qed
  then show ?thesis using st j o(1) by (simp add: subtrie_def)
qed

lemma key_word_hit:
  assumes "distinct ps" "length ps \<le> 32" "b \<in> set ps"
  shows "key_word ps P AND key_word ps {b} = key_word ps {b} \<longleftrightarrow> b \<in> P"
proof -
  have "index_in b ps < 32" using index_in_nth [OF assms(3)] assms(2) by simp
  then have "bit (key_word ps {b}) (index_in b ps)"
    using index_in_nth [OF assms(3)] by (simp add: bit_key_word)
  then have "key_word ps {b} \<noteq> 0" by auto
  then show ?thesis unfolding key_word_and by (cases "b \<in> P") simp_all
qed

lemma key_word_diff: "length ps \<le> w \<Longrightarrow> key_word ps P AND NOT (key_word ps Q) AND mask w = key_word ps (P - Q)"
  by (rule bit_word_eqI) (auto simp: word_bits bit_and_iff bit_not_iff bit_mask_iff)

lemma collectEntryDepth_law:
  assumes wf: "node_wf n t"
  shows "subtrie t a s pre \<Longrightarrow> length ds = 32 \<Longrightarrow>
    collectEntryDepth n a (length (leaves s)) d (key_word (mapping_positions (mDiscriminativeBitsRepresentation n)) pre) ds =
      Some (Inr (take a ds @ map (\<lambda>k. of_nat (d + k)) (trie_depths s) @ drop (a + length (leaves s)) ds))"
proof (induction s arbitrary: a d pre ds)
  case (PLeaf v)
  then have "a < length (leaves t)" by (simp add: subtrie_def)
  then have "a < 32" using node_wfD(9) [OF wf] by simp
  then show ?case using PLeaf.prems(2) by (subst collectEntryDepth.simps) (simp add: upd_conv_take_nth_drop)
next
  case (PNode b l r)
  let ?M = "mDiscriminativeBitsRepresentation n" and ?L = "length (leaves l)" and ?R = "length (leaves r)"
  let ?ps = "mapping_positions ?M"
  note wd = node_wfD [OF wf]
  note st = PNode.prems(1)
  define N where "N = ?L + ?R"
  have pos: "0 < ?L" "0 < ?R" by (rule leaves_pos)+
  have aN: "a + N \<le> length (leaves t)" and bt: "bits_of (PNode b l r) \<subseteq> bits_of t" "b \<in> bits_of t"
    using st by (auto simp: subtrie_def N_def)
  have a32: "a + N \<le> 32" using aN wd(9) by simp
  have al: "a < 32" using a32 pos unfolding N_def by linarith
  have N1: "1 < N" "N - 1 < N" "\<not> N < Suc 0" using pos unfolding N_def by linarith+
  define S where "S = paths {} (PNode b l r) ! (N - 1)"
  note S = last_entry_bits [OF st, folded N_def, folded S_def]
  have entry: "get_entry n (a + N - 1) = Inr (key_word ?ps (paths {} t ! (a + (N - 1))))"
    using node_entry(1) [OF wf, of "a + (N - 1)"] aN N1 by simp
  have tr: "key_word ?ps P AND mask (key_width n) = key_word ?ps P" for P by (rule key_word_trunc [OF wd(4)])
  have high: "mapping_getMostSignifikantMaskBit ?M (key_word ?ps S) = Inr (key_word ?ps {b})"
    using mapping_mostSignifikant [OF wd(2) node_few_bits [OF wf], of S] S(1-3) bt(1) wd(18) by auto
  have bps: "b \<in> set ?ps" using bt(2) wd(7) by simp
  have r1: "shr32 (- 1) (sub64 32 N) = Inr (mask N)"
  proof -
    have "sub64 32 N = 32 - N" "32 - N < 32" using a32 N1 by (simp_all add: sub64_small)
    moreover have "drop_bit (32 - N) (- 1 :: u32) = mask N"
      using a32 by (intro bit_word_eqI) (auto simp: bit_drop_bit_eq bit_mask_iff)
    ultimately show ?thesis by (simp only: shift32_simps)
  qed
  have r2: "shl32 (mask N) a = Inr (push_bit a (mask N))" using a32 N1 by (intro shift32_simps) simp
  let ?m = "entry_mask (\<lambda>e. e AND key_word ?ps {b} = key_word ?ps {b}) (mEntries n)"
  have p: "keys_findMasksByPattern (key_width n) (mEntries n) (key_word ?ps {b}) = Inr ?m"
    by (rule keys_pattern_law [OF wd(3,13,12) tr])
  have bits: "bit (?m AND push_bit a (mask N)) j \<longleftrightarrow> a + ?L \<le> j \<and> j < a + ?L + ?R" for j
  proof (cases "a \<le> j \<and> j < a + N")
    case True
    then have j: "j < length (leaves t)" "j = a + (j - a)" "j - a < ?L + ?R" using aN by (simp_all add: N_def less_diff_conv2)
    have "mEntries n ! j AND key_word ?ps {b} = key_word ?ps {b} \<longleftrightarrow> b \<in> paths {} t ! j"
      unfolding node_entry(3) [OF wf j(1)] by (rule key_word_hit [OF wd(6,5) bps])
    also have "\<dots> \<longleftrightarrow> ?L \<le> j - a" using upper_half [OF st j(3)] j(2) by simp
    finally show ?thesis
      using True j(1) wd(9,12) a32 by (auto simp: bit_and_iff bit_push_bit_iff bit_mask_iff bit_entry_mask N_def)
  qed (auto simp: bit_and_iff bit_push_bit_iff bit_mask_iff N_def)
  have up: "tzcnt (?m AND push_bit a (mask N)) = a + ?L" by (rule range_word(2) [OF bits pos(2)])
  have half: "sub64 (a + ?L) a = ?L" "sub64 N ?L = ?R" using a32 by (simp_all add: sub64_small N_def)
  have pre': "key_word ?ps pre OR key_word ?ps {b} = key_word ?ps (insert b pre)" by (simp add: key_word_or)
  note sides = subtrie_sides [OF st]
  let ?ds = "take a ds @ map (\<lambda>k. of_nat (Suc d + k)) (trie_depths l) @ drop (a + ?L) ds"
  have low: "collectEntryDepth n a ?L (Suc d) (key_word ?ps pre) ds = Some (Inr ?ds)"
    by (rule PNode.IH(1) [OF sides(1) PNode.prems(2)])
  have lds: "length ?ds = 32" using PNode.prems(2) a32 by (simp add: N_def)
  have upper: "collectEntryDepth n (a + ?L) ?R (Suc d) (key_word ?ps (insert b pre)) ?ds =
      Some (Inr (take (a + ?L) ?ds @ map (\<lambda>k. of_nat (Suc d + k)) (trie_depths r) @ drop (a + ?L + ?R) ?ds))"
    by (rule PNode.IH(2) [OF sides(2) lds])
  have step: "rbind (get_entry n (a + N - 1)) (\<lambda>entry. rbind (mapping_getMostSignifikantMaskBit ?M
        (entry AND NOT (key_word ?ps pre) AND mask (key_width n))) (\<lambda>highest.
      let mostSignificantMaskBitInRange = highest AND mask (key_width n)
      in rbind (shr32 (- 1) (sub64 32 N)) (\<lambda>range. rbind (shl32 range a) (\<lambda>rangeMask.
         rbind (keys_findMasksByPattern (key_width n) (mEntries n) mostSignificantMaskBitInRange) (\<lambda>found.
           Inr (mostSignificantMaskBitInRange, found AND rangeMask)))))) = Inr (key_word ?ps {b}, ?m AND push_bit a (mask N))"
    unfolding entry rbind_simps key_word_diff [OF wd(4)] S(4) high tr Let_def r1 r2 p ..
  have "collectEntryDepth n a N d (key_word ?ps pre) ds =
      Some (Inr (take (a + ?L) ?ds @ map (\<lambda>k. of_nat (Suc d + k)) (trie_depths r) @ drop (a + ?L + ?R) ?ds))"
    by (subst collectEntryDepth.simps)
      (simp only: N1(1) if_True step [unfolded Let_def] sum.case prod.case Let_def up half Suc_eq_plus1 [symmetric] low bind.bind_lunit pre' upper)
  moreover have "take (a + ?L) ?ds = take a ds @ map (\<lambda>k. of_nat (Suc d + k)) (trie_depths l)"
    "drop (a + ?L + ?R) ?ds = drop (a + N) ds"
    using PNode.prems(2) a32 al by (simp_all add: N_def min_def add.commute add.left_commute)
  moreover have "length (leaves (PNode b l r)) = N" by (simp add: N_def)
  ultimately show ?case by (simp only: trie_depths.simps map_append map_map comp_def append_assoc) simp
qed

section \<open>Counting the leaves on each level\<close>

text \<open>\<open>++m[d]\<close> for an ordered map from levels to counts, as its entries in the order of the keys.\<close>

fun count_level :: "nat \<Rightarrow> (nat \<times> nat) list \<Rightarrow> (nat \<times> nat) list" where
  "count_level d [] = [(d, 1)]"
| "count_level d ((k, c) # m) =
     (if d < k then (d, 1) # (k, c) # m else if d = k then (k, c + 1) # m else (k, c) # count_level d m)"

text \<open>The pointers of a list in turn, each with its depth.  The memory may have cycles, so this need not end.\<close>

partial_function (option) getValueDistribution_each ::
  "node_memory \<Rightarrow> (CP \<times> nat) list \<Rightarrow> (nat \<times> nat) list \<Rightarrow> (nat \<times> nat) list cxx option" where
  "getValueDistribution_each nodes ps leafNodesPerDepth =
     (case ps of [] \<Rightarrow> Some (Inr leafNodesPerDepth)
      | (childPointer, depth) # ps' \<Rightarrow>
          if isLeaf childPointer then getValueDistribution_each nodes ps' (count_level depth leafNodesPerDepth)
          else (case rbind (node_at nodes childPointer) node_children of
                  Inl e \<Rightarrow> Some (Inl e)
                | Inr cs \<Rightarrow>
                    Option.bind (getValueDistribution_each nodes (map (\<lambda>c. (c, depth + 1)) cs) leafNodesPerDepth) (\<lambda>r.
                      case r of Inl e \<Rightarrow> Some (Inl e) | Inr m \<Rightarrow> getValueDistribution_each nodes ps' m)))"

definition getValueDistribution :: "node_memory \<Rightarrow> CP \<Rightarrow> nat \<Rightarrow> (nat \<times> nat) list \<Rightarrow> (nat \<times> nat) list cxx option" where
  "getValueDistribution nodes childPointer depth m = getValueDistribution_each nodes [(childPointer, depth)] m"

text \<open>The children of a node with their depths in the binary trie.\<close>

definition binary_children :: "CP HOTSingleThreadedNode \<Rightarrow> nat \<Rightarrow> (CP \<times> nat) list cxx option" where
  "binary_children n binaryTrieDepth =
     map_option (\<lambda>r. rbind r (\<lambda>binaryEntryDepthsInNode. rbind (node_children n) (\<lambda>cs.
         Inr (zip cs (map (\<lambda>k. binaryTrieDepth + unat k) binaryEntryDepthsInNode)))))
       (getEntryDepths n)"

partial_function (option) getBinaryTrieValueDistribution_each ::
  "node_memory \<Rightarrow> (CP \<times> nat) list \<Rightarrow> (nat \<times> nat) list \<Rightarrow> (nat \<times> nat) list cxx option" where
  "getBinaryTrieValueDistribution_each nodes ps leafNodesPerDepth =
     (case ps of [] \<Rightarrow> Some (Inr leafNodesPerDepth)
      | (childPointer, binaryTrieDepth) # ps' \<Rightarrow>
          if isLeaf childPointer
          then getBinaryTrieValueDistribution_each nodes ps' (count_level binaryTrieDepth leafNodesPerDepth)
          else (case executeForSpecificNodeType nodes childPointer Inr of
                  Inl e \<Rightarrow> Some (Inl e)
                | Inr node \<Rightarrow>
                    Option.bind (binary_children node binaryTrieDepth) (\<lambda>r. case r of
                      Inl e \<Rightarrow> Some (Inl e)
                    | Inr cs \<Rightarrow>
                        Option.bind (getBinaryTrieValueDistribution_each nodes cs leafNodesPerDepth) (\<lambda>r'. case r' of
                          Inl e \<Rightarrow> Some (Inl e)
                        | Inr m \<Rightarrow> getBinaryTrieValueDistribution_each nodes ps' m))))"

definition getBinaryTrieValueDistribution :: "node_memory \<Rightarrow> CP \<Rightarrow> nat \<Rightarrow> (nat \<times> nat) list \<Rightarrow> (nat \<times> nat) list cxx option" where
  "getBinaryTrieValueDistribution nodes childPointer binaryTrieDepth m =
     getBinaryTrieValueDistribution_each nodes [(childPointer, binaryTrieDepth)] m"

section \<open>The statistics\<close>

text \<open>
  A map from names to floating point numbers in the code, here a record of the natural numbers that these
  are; the names of the levels and of the node types are the keys.
\<close>

record index_statistics =
  totalSize :: nat
  statistics_height :: nat
  numberAllocations :: nat
  leafNodesOnDepth :: "(nat \<times> nat) list"
  leafNodesOnBinaryDepth :: "(nat \<times> nat) list"
  numberValues :: nat
  nodesOfType :: "NodeType \<Rightarrow> nat"

partial_function (option) collectStatsForSubtree_each ::
  "node_memory \<Rightarrow> CP list \<Rightarrow> index_statistics \<Rightarrow> index_statistics cxx option" where
  "collectStatsForSubtree_each nodes ps stats =
     (case ps of [] \<Rightarrow> Some (Inr stats)
      | subTreeRoot # ps' \<Rightarrow>
          if isLeaf subTreeRoot then collectStatsForSubtree_each nodes ps' stats
          else (case executeForSpecificNodeType nodes subTreeRoot (\<lambda>node.
                       rbind (getNodeSizeInBytes node) (\<lambda>bytes. rbind (node_children node) (\<lambda>cs. Inr (bytes, cs)))) of
                  Inl e \<Rightarrow> Some (Inl e)
                | Inr (bytes, cs) \<Rightarrow>
                    let nodeType = getNodeType subTreeRoot
                    in Option.bind (collectStatsForSubtree_each nodes cs
                            (stats \<lparr> totalSize := totalSize stats + unat bytes,
                                     nodesOfType := (nodesOfType stats) (nodeType := nodesOfType stats nodeType + 1) \<rparr>)) (\<lambda>r.
                         case r of Inl e \<Rightarrow> Some (Inl e) | Inr stats' \<Rightarrow> collectStatsForSubtree_each nodes ps' stats')))"

definition collectStatsForSubtree :: "node_memory \<Rightarrow> CP \<Rightarrow> index_statistics \<Rightarrow> index_statistics cxx option" where
  "collectStatsForSubtree nodes subTreeRoot stats = collectStatsForSubtree_each nodes [subTreeRoot] stats"

text \<open>The level is written with \<open>digits\<close> digits; a longer number makes the length of the padding negative.\<close>

definition level_keys :: "nat \<Rightarrow> (nat \<times> nat) list \<Rightarrow> unit cxx" where
  "level_keys digits m = (if \<forall>(level, c) \<in> set m. level < 10 ^ digits then Inr () else Inl Length_Error)"

definition and_then :: "'a cxx option \<Rightarrow> ('a \<Rightarrow> 'b cxx option) \<Rightarrow> 'b cxx option" where
  "and_then m f = (case m of None \<Rightarrow> None | Some (Inl e) \<Rightarrow> Some (Inl e) | Some (Inr x) \<Rightarrow> f x)"

definition getStatistics :: "hot_state \<Rightarrow> index_statistics cxx option" where
  "getStatistics st =
     (case mRoot (hot_roots st) of None \<Rightarrow> Some (Inl UB_Null)
      | Some r \<Rightarrow>
          let root = root_pointer st r; nodes = node_objects st
          in and_then (getValueDistribution nodes root 0 []) (\<lambda>leafNodesPerDepth.
             and_then (getBinaryTrieValueDistribution nodes root 0 []) (\<lambda>leafNodesPerBinaryDepth.
             and_then (Some (rbind (pointer_getHeight nodes root) (\<lambda>height.
                  rbind (level_keys 2 leafNodesPerDepth) (\<lambda>_. rbind (level_keys 3 leafNodesPerBinaryDepth) (\<lambda>_. Inr height))))) (\<lambda>height.
               collectStatsForSubtree nodes root
                 \<lparr> totalSize = 0, statistics_height = height, numberAllocations = unat (mNumberAllocations (node_pool st)),
                   leafNodesOnDepth = leafNodesPerDepth, leafNodesOnBinaryDepth = leafNodesPerBinaryDepth,
                   numberValues = sum_list (map snd leafNodesPerDepth), nodesOfType = (\<lambda>_. 0) \<rparr>))))"

section \<open>What the statistics say\<close>

lemma count_level_simps [simp]:
  "sum_list (map snd (count_level d m)) = Suc (sum_list (map snd m))" "fst ` set (count_level d m) = insert d (fst ` set m)"
  by (induction d m rule: count_level.induct) auto

lemma count_levels:
  "sum_list (map snd (fold count_level ds m)) = length ds + sum_list (map snd m)"
  "fst ` set (fold count_level ds m) = set ds \<union> fst ` set m"
  by (induction ds arbitrary: m) auto

lemma level_keys_ok: "(\<And>d. d \<in> set ds \<Longrightarrow> d < 10 ^ digits) \<Longrightarrow> level_keys digits (fold count_level ds []) = Inr ()"
proof -
  assume d: "\<And>d. d \<in> set ds \<Longrightarrow> d < 10 ^ digits"
  have "level < 10 ^ digits" if "(level, c) \<in> set (fold count_level ds [])" for level c
    using count_levels(2) [of ds "[]"] d that by force
  then show ?thesis by (auto simp: level_keys_def)
qed

text \<open>The number of nodes above each leaf, and the number of bits that are tested on its way.\<close>

fun leaf_levels :: "nat \<Rightarrow> htree \<Rightarrow> nat list" where
  "leaf_levels d (HLeaf p) = [d]"
| "leaf_levels d (HNode p n t cs) = concat (map (leaf_levels (Suc d)) cs)"

lemma trie_depths_graft:
  "length Ts = length (leaves t) \<Longrightarrow>
   map ((+) d) (trie_depths (graft t Ts)) = concat (map (\<lambda>(T, k). map ((+) (d + k)) (trie_depths T)) (zip Ts (trie_depths t)))"
proof (induction t arbitrary: Ts d)
  case (PLeaf v)
  then obtain T where "Ts = [T]" by (auto simp: length_Suc_conv)
  then show ?case by simp
next
  case (PNode b l r)
  let ?l = "take (length (leaves l)) Ts" and ?r = "drop (length (leaves l)) Ts"
  have len: "length ?l = length (leaves l)" "length ?r = length (leaves r)" using PNode.prems by simp_all
  have z: "zip Ts (xs @ ys) = zip ?l xs @ zip ?r ys" if "length xs = length (leaves l)" for xs ys :: "nat list"
    using zip_append [OF trans [OF len(1) that [symmetric]], of ?r ys] by simp
  have s: "map ((+) d) (map Suc xs) = map ((+) (Suc d)) xs" for xs by simp
  have c: "concat (map (\<lambda>(T, k). map ((+) (d + k)) (trie_depths T)) (zip Us (map Suc ks))) =
      concat (map (\<lambda>(T, k). map ((+) (Suc d + k)) (trie_depths T)) (zip Us ks))" for Us :: "'a ptrie list" and ks
    by (induction Us ks rule: list_induct2') simp_all
  show ?case
    using PNode.IH(1) [OF len(1), of "Suc d"] PNode.IH(2) [OF len(2), of "Suc d"]
    by (simp only: graft.simps trie_depths.simps map_append s z length_map length_trie_depths c concat_append)
qed

lemma trie_depths_bounds:
  "ordered T \<Longrightarrow> bits_of T \<subseteq> {a..<b} \<Longrightarrow> a \<le> b \<Longrightarrow> k \<in> set (trie_depths T) \<Longrightarrow> a + k \<le> b"
proof (induction T arbitrary: a k)
  case (PNode c l r)
  have c: "a \<le> c" "c < b" "bits_of l \<subseteq> {Suc c..<b}" "bits_of r \<subseteq> {Suc c..<b}"
    using PNode.prems(1,2) by (auto simp: Suc_le_eq subset_iff)
  obtain k' where k': "k = Suc k'" "k' \<in> set (trie_depths l) \<or> k' \<in> set (trie_depths r)" using PNode.prems(4) by auto
  then have "Suc c + k' \<le> b" using PNode.IH(1) [of "Suc c" k'] PNode.IH(2) [of "Suc c" k'] PNode.prems(1) c by auto
  then show ?case using c(1) k'(1) by simp
qed simp

lemma trie_depths_less: "k \<in> set (trie_depths t) \<Longrightarrow> k < length (leaves t)"
proof (induction t arbitrary: k)
  case (PNode b l r)
  obtain k' where k': "k = Suc k'" "k' \<in> set (trie_depths l) \<or> k' \<in> set (trie_depths r)" using PNode.prems by auto
  then have "k' < length (leaves l) \<or> k' < length (leaves r)" using PNode.IH by blast
  then show ?case using k'(1) leaves_pos [of l] leaves_pos [of r] unfolding leaves.simps length_append by linarith
qed simp

lemma trie_depths_pos: "\<not> is_leaf t \<Longrightarrow> k \<in> set (trie_depths t) \<Longrightarrow> 0 < k"
  by (cases t) auto

text \<open>The levels of the leaves of a tree of nodes, and of its trie.\<close>

lemma htree_depths:
  assumes "hwf (HNode p n t cs)"
  shows "map ((+) d) (trie_depths (trie_of (HNode p n t cs))) =
    concat (map (\<lambda>(c, k). map ((+) (d + k)) (trie_depths (trie_of c))) (zip cs (trie_depths t)))"
proof -
  have "length (map trie_of cs) = length (leaves t)" using assms by simp
  from trie_depths_graft [OF this, of d] show ?thesis by (simp add: zip_map1 comp_def case_prod_unfold)
qed

lemma leaf_levels_below: "hwf h \<Longrightarrow> d \<le> e \<Longrightarrow> list_all2 (\<le>) (leaf_levels d h) (map ((+) e) (trie_depths (trie_of h)))"
proof (induction h arbitrary: d e)
  case (HNode p n t cs)
  have len: "length cs = length (trie_depths t)" using HNode.prems(1) by simp
  have pos: "0 < k" if "k \<in> set (trie_depths t)" for k using trie_depths_pos [of t k] HNode.prems(1) that by simp
  have "list_all2 (\<le>) (concat (map (leaf_levels (Suc d)) hs))
      (concat (map (\<lambda>(c, k). map ((+) (e + k)) (trie_depths (trie_of c))) (zip hs ks)))"
    if "length hs = length ks" "set hs \<subseteq> set cs" "\<And>k. k \<in> set ks \<Longrightarrow> 0 < k" for hs ks
    using that
  proof (induction hs ks rule: list_induct2)
    case (Cons h hs k ks)
    have "0 < k" using Cons.prems(2) by simp
    then have "hwf h" "Suc d \<le> e + k" using HNode.prems Cons.prems(1) by auto
    then have "list_all2 (\<le>) (leaf_levels (Suc d) h) (map ((+) (e + k)) (trie_depths (trie_of h)))"
      using HNode.IH [of h] Cons.prems(1) by simp
    then show ?case using Cons by (simp add: list_all2_appendI)
  qed simp
  then show ?case unfolding htree_depths [OF HNode.prems(1)] using len pos by simp
qed simp

lemma value_distribution_each:
  assumes "hwf h" and "\<And>a n. (a, n) \<in># cells h \<Longrightarrow> nodes a = Some n"
  shows "getValueDistribution_each nodes ((ptr h, d) # ps) m = getValueDistribution_each nodes ps (fold count_level (leaf_levels d h) m)"
  using assms
proof (induction h arbitrary: d ps m)
  case (HLeaf p)
  then show ?case by (subst getValueDistribution_each.simps) simp
next
  case (HNode p n t cs)
  have all: "getValueDistribution_each nodes (map (\<lambda>c. (c, Suc d)) (map ptr hs)) m =
      Some (Inr (fold count_level (concat (map (leaf_levels (Suc d)) hs)) m))" if "set hs \<subseteq> set cs" for hs m
    using that
  proof (induction hs arbitrary: m)
    case Nil
    then show ?case by (subst getValueDistribution_each.simps) simp
  next
    case (Cons h hs)
    have "getValueDistribution_each nodes ((ptr h, Suc d) # map (\<lambda>c. (c, Suc d)) (map ptr hs)) m =
        getValueDistribution_each nodes (map (\<lambda>c. (c, Suc d)) (map ptr hs)) (fold count_level (leaf_levels (Suc d) h) m)"
      by (rule HNode.IH) (use Cons.prems HNode.prems in \<open>auto simp: in_sum_cells\<close>)
    then show ?case using Cons by (simp add: comp_def)
  qed
  have wf: "points_to p n" "node_wf n t" "leaves t = map ptr cs" using HNode.prems(1) by simp_all
  have "node_at nodes p = Inr n" "\<not> isLeaf p" using HNode.prems(2) [of "getNode p" n] wf(1) by (simp_all add: node_at_def points_to_def)
  then show ?case using node_children_wf [OF wf(2)] wf(3) all [of cs m]
    by (subst getValueDistribution_each.simps) simp
qed

lemma binary_children_wf:
  assumes "node_wf n t" and "\<And>k. k \<in> set (trie_depths t) \<Longrightarrow> k < 256"
  shows "binary_children n d = Some (Inr (zip (leaves t) (map ((+) d) (trie_depths t))))"
proof -
  note w = node_wfD [OF assms(1)]
  have "subtrie t 0 t {}" using w(8) by (simp add: subtrie_def)
  from collectEntryDepth_law [OF assms(1) this, of "replicate 32 0" 0]
  have "getEntryDepths n = Some (Inr (map of_nat (trie_depths t) @ replicate (32 - length (leaves t)) 0))"
    by (simp add: getEntryDepths_def w(10))
  moreover have "map (\<lambda>k. d + unat (of_nat k :: u8)) (trie_depths t) = map ((+) d) (trie_depths t)"
    using assms(2) by (simp add: unat_of_nat_small)
  moreover have "zip (leaves t) (xs @ ys) = zip (leaves t) xs" if "length xs = length (leaves t)" for xs ys :: "nat list"
    using zip_append [OF that [symmetric], of "[]" ys] by simp
  ultimately show ?thesis
    by (simp add: binary_children_def node_children_wf [OF assms(1)] comp_def cong: map_cong)
qed

lemma binary_distribution_each:
  assumes "hwf h" and "\<And>a n. (a, n) \<in># cells h \<Longrightarrow> nodes a = Some n"
  shows "getBinaryTrieValueDistribution_each nodes ((ptr h, d) # ps) m =
    getBinaryTrieValueDistribution_each nodes ps (fold count_level (map ((+) d) (trie_depths (trie_of h))) m)"
  using assms
proof (induction h arbitrary: d ps m)
  case (HLeaf p)
  then show ?case by (subst getBinaryTrieValueDistribution_each.simps) simp
next
  case (HNode p n t cs)
  have all: "getBinaryTrieValueDistribution_each nodes (zip (map ptr hs) (map ((+) d) ks)) m =
      Some (Inr (fold count_level (concat (map (\<lambda>(c, k). map ((+) (d + k)) (trie_depths (trie_of c))) (zip hs ks))) m))"
    if "set hs \<subseteq> set cs" "length hs = length ks" for hs ks m
    using that(2,1)
  proof (induction hs ks arbitrary: m rule: list_induct2)
    case Nil
    then show ?case by (subst getBinaryTrieValueDistribution_each.simps) simp
  next
    case (Cons h hs k ks)
    have "getBinaryTrieValueDistribution_each nodes ((ptr h, d + k) # zip (map ptr hs) (map ((+) d) ks)) m =
        getBinaryTrieValueDistribution_each nodes (zip (map ptr hs) (map ((+) d) ks))
          (fold count_level (map ((+) (d + k)) (trie_depths (trie_of h))) m)"
      by (rule HNode.IH) (use Cons.prems HNode.prems in \<open>auto simp: in_sum_cells\<close>)
    then show ?case using Cons by simp
  qed
  have wf: "points_to p n" "node_wf n t" "leaves t = map ptr cs" using HNode.prems(1) by simp_all
  have "nodes (getNode p) = Some n" using HNode.prems(2) by simp
  then have run: "executeForSpecificNodeType nodes p Inr = Inr n" "\<not> isLeaf p"
    using points_node(2) [OF wf(1), of nodes Inr] wf(1) by (simp_all add: points_to_def)
  have "length (leaves t) \<le> 32" using node_wfD(9) [OF wf(2)] .
  then have small: "k < 256" if "k \<in> set (trie_depths t)" for k
    using trie_depths_less [OF that] by simp
  have len: "length cs = length (trie_depths t)" using wf(3) by simp
  show ?case
    unfolding htree_depths [OF HNode.prems(1)]
    by (subst getBinaryTrieValueDistribution_each.simps)
      (simp add: run binary_children_wf [OF wf(2) small] wf(3) all [OF order.refl len])
qed

lemma collect_stats_each:
  assumes "hwf h" and "\<And>a n. (a, n) \<in># cells h \<Longrightarrow> nodes a = Some n"
  shows "\<exists>bytes types. \<forall>ps. collectStatsForSubtree_each nodes (ptr h # ps) stats =
    collectStatsForSubtree_each nodes ps (stats \<lparr> totalSize := bytes, nodesOfType := types \<rparr>)"
  using assms
proof (induction h arbitrary: stats)
  case (HLeaf p)
  then show ?case
    by (intro exI [of _ "totalSize stats"] exI [of _ "nodesOfType stats"] allI) (subst collectStatsForSubtree_each.simps, simp)
next
  case (HNode p n t cs)
  have all: "\<exists>bytes types. collectStatsForSubtree_each nodes (map ptr hs) stats = Some (Inr (stats \<lparr> totalSize := bytes, nodesOfType := types \<rparr>))"
    if "set hs \<subseteq> set cs" for hs stats
    using that
  proof (induction hs arbitrary: stats)
    case Nil
    then show ?case
      by (intro exI [of _ "totalSize stats"] exI [of _ "nodesOfType stats"]) (subst collectStatsForSubtree_each.simps, simp)
  next
    case (Cons h hs)
    have "\<exists>bytes types. \<forall>ps. collectStatsForSubtree_each nodes (ptr h # ps) stats =
        collectStatsForSubtree_each nodes ps (stats \<lparr> totalSize := bytes, nodesOfType := types \<rparr>)"
      by (rule HNode.IH) (use Cons.prems HNode.prems in \<open>auto simp: in_sum_cells\<close>)
    then obtain bytes types where "\<And>ps. collectStatsForSubtree_each nodes (ptr h # ps) stats =
        collectStatsForSubtree_each nodes ps (stats \<lparr> totalSize := bytes, nodesOfType := types \<rparr>)" by blast
    then show ?case using Cons.IH [of "stats \<lparr> totalSize := bytes, nodesOfType := types \<rparr>"] Cons.prems by auto
  qed
  have wf: "points_to p n" "node_wf n t" "leaves t = map ptr cs" using HNode.prems(1) by simp_all
  have "nodes (getNode p) = Some n" using HNode.prems(2) by simp
  then have run: "executeForSpecificNodeType nodes p f = f n" for f :: "CP HOTSingleThreadedNode \<Rightarrow> (u16 \<times> CP list) cxx"
    by (rule points_node(2) [OF wf(1)])
  have leaf: "\<not> isLeaf p" using wf(1) by (simp add: points_to_def)
  obtain s where s: "getNodeSizeInBytes n = Inr s" by (rule node_size [OF wf(2)])
  let ?stats = "stats \<lparr> totalSize := totalSize stats + unat s, nodesOfType := (nodesOfType stats) (getNodeType p := nodesOfType stats (getNodeType p) + 1) \<rparr>"
  obtain bytes types where "collectStatsForSubtree_each nodes (map ptr cs) ?stats = Some (Inr (?stats \<lparr> totalSize := bytes, nodesOfType := types \<rparr>))"
    using all [OF order.refl] by blast
  then have "collectStatsForSubtree_each nodes (ptr (HNode p n t cs) # ps) stats =
      collectStatsForSubtree_each nodes ps (stats \<lparr> totalSize := bytes, nodesOfType := types \<rparr>)" for ps
    by (subst collectStatsForSubtree_each.simps) (simp add: run leaf s node_children_wf [OF wf(2)] wf(3) Let_def)
  then show ?case by blast
qed

text \<open>The statistics of a tree that is not empty.\<close>

lemma getStatistics_law:
  assumes K: "holds_keys K st" and r: "mRoot (hot_roots st) = Some r" and ne: "values_in K r \<noteq> {}"
  shows "\<exists>s T. getStatistics st = Some (Inr s) \<and> exact_trie T \<and> values_of T = values_in K r \<and>
    leafNodesOnBinaryDepth s = fold count_level (trie_depths T) [] \<and> numberValues s = card (values_in K r)"
proof -
  obtain B where B: "branch_holds st r (values_in K r) (B r)"
    "heap_is st Map.empty (branch_cells (B r) + branch_cells (B (other r)))" by (rule holds_keysE [OF K])
  obtain H where H: "B r = Some H" "hwf H" "root_pointer st r = ptr H" "exact_trie (trie_of H)" "values_of (trie_of H) = values_in K r"
    using B(1) ne by (cases "B r") (auto simp: branch_holds_def)
  have mem: "node_objects st a = Some n" if "(a, n) \<in># cells H" for a n
    using heap_is_lookup [OF B(2)] that H(1) by (simp add: branch_cells_def)
  have end1: "getValueDistribution_each nodes [] m = Some (Inr m)" and end2: "getBinaryTrieValueDistribution_each nodes [] m = Some (Inr m)"
    and end3: "collectStatsForSubtree_each nodes [] s = Some (Inr s)" for nodes m s
    by (subst getValueDistribution_each.simps, simp) (subst getBinaryTrieValueDistribution_each.simps, simp, subst collectStatsForSubtree_each.simps, simp)
  let ?d = "fold count_level (leaf_levels 0 H) []" and ?b = "fold count_level (trie_depths (trie_of H)) []"
  have d: "getValueDistribution (node_objects st) (ptr H) 0 [] = Some (Inr ?d)"
    using value_distribution_each [OF H(2), of "node_objects st" 0 "[]" "[]"] mem by (simp add: getValueDistribution_def end1)
  have m0: "map ((+) 0) ks = ks" for ks :: "nat list" by (simp add: map_idI)
  then have b: "getBinaryTrieValueDistribution (node_objects st) (ptr H) 0 [] = Some (Inr ?b)"
    using binary_distribution_each [OF H(2), of "node_objects st" 0 "[]" "[]"] mem unfolding getBinaryTrieValueDistribution_def end2 by simp
  have deep: "k \<le> 63" if "k \<in> set (trie_depths (trie_of H))" for k
    using trie_depths_bounds [of "trie_of H" 1 64 k] that H(4) patricia_ordered by (auto simp: exact_trie_def)
  have below: "list_all2 (\<le>) (leaf_levels 0 H) (trie_depths (trie_of H))" using leaf_levels_below [OF H(2), of 0 0] unfolding m0 by simp
  have "k \<le> 63" if k: "k \<in> set (leaf_levels 0 H)" for k
  proof -
    obtain i where i: "i < length (leaf_levels 0 H)" "k = leaf_levels 0 H ! i" using k by (auto simp: in_set_conv_nth)
    then have "k \<le> trie_depths (trie_of H) ! i" "i < length (trie_depths (trie_of H))"
      using below by (auto simp: list_all2_conv_all_nth)
    then show ?thesis using deep [OF nth_mem, of i] by linarith
  qed
  note shallow = this
  have keys: "level_keys 2 ?d = Inr ()" "level_keys 3 ?b = Inr ()"
    by (rule level_keys_ok, drule shallow, simp) (rule level_keys_ok, drule deep, simp)
  have h: "pointer_getHeight (node_objects st) (ptr H) = Inr (hheight H)"
  proof (cases H)
    case (HNode p n t cs)
    then show ?thesis using mem [of "getNode p" n] H(2) by (simp add: pointer_getHeight_def node_at_def points_to_def)
  qed (use H(2) in \<open>simp add: pointer_getHeight_def\<close>)
  have n: "sum_list (map snd ?d) = card (values_in K r)"
  proof -
    have "distinct (map leaf_value (leaves (trie_of H)))"
      by (rule leaf_values_distinct [OF patricia_keyed]) (use H(4) in \<open>simp add: exact_trie_def\<close>)
    then have "card (values_in K r) = length (leaves (trie_of H))"
      using distinct_card [of "map leaf_value (leaves (trie_of H))"] H(5) by (simp add: values_of_def)
    then show ?thesis using list_all2_lengthD [OF below] by (simp add: count_levels)
  qed
  have stats: "\<exists>bytes types. \<forall>ps. collectStatsForSubtree_each (node_objects st) (ptr H # ps) s =
    collectStatsForSubtree_each (node_objects st) ps (s \<lparr> totalSize := bytes, nodesOfType := types \<rparr>)" for s
    by (rule collect_stats_each [OF H(2)]) (rule mem)
  let ?s = "\<lparr> totalSize = 0, statistics_height = hheight H, numberAllocations = unat (mNumberAllocations (node_pool st)),
    leafNodesOnDepth = ?d, leafNodesOnBinaryDepth = ?b, numberValues = card (values_in K r), nodesOfType = (\<lambda>_. 0) \<rparr>"
  obtain bytes types where "\<forall>ps. collectStatsForSubtree_each (node_objects st) (ptr H # ps) ?s =
    collectStatsForSubtree_each (node_objects st) ps (?s \<lparr> totalSize := bytes, nodesOfType := types \<rparr>)" using stats by blast
  then have "collectStatsForSubtree (node_objects st) (ptr H) ?s = Some (Inr (?s \<lparr> totalSize := bytes, nodesOfType := types \<rparr>))"
    by (simp add: collectStatsForSubtree_def end3)
  then have "getStatistics st = Some (Inr (?s \<lparr> totalSize := bytes, nodesOfType := types \<rparr>))"
    by (simp add: getStatistics_def r H(3) Let_def d b and_then_def keys h n)
  then show ?thesis
    using H(4,5) by (intro exI [of _ "?s \<lparr> totalSize := bytes, nodesOfType := types \<rparr>"] exI [of _ "trie_of H"]) simp
qed

end
