(* ===== verification/Hot_Program.thy ===== *)
theory Hot_Program
  imports Hot_Statistics Linear_Driver
begin

text \<open>
  The program \<open>src/test/hot_tree.cpp\<close> as \<open>Benchmark::run\<close> runs it with one thread: the rules are inserted, the
  statistics of the tree are collected, then the keys are looked up.  Options, files and times are left out; the rules and keys are lists.
\<close>

section \<open>The run\<close>

text \<open>The loop over the lookup keys, from the index \<open>index\<close> on, with \<open>n\<close> lookups to do.\<close>

fun lookup_all ::
  "node_memory \<Rightarrow> nat \<Rightarrow> u64 OptionalValue \<Rightarrow> u64 list \<Rightarrow> nat \<Rightarrow> nat \<Rightarrow> bool \<times> hot_program \<Rightarrow> (bool \<times> hot_program) cxx option" where
  "lookup_all nodes undef junk lookupKeys 0 index (allLookedUp, s) = Some (Inr (allLookedUp, s))"
| "lookup_all nodes undef junk lookupKeys (Suc n) index (allLookedUp, s) =
     (let index = (if index < length lookupKeys then index else 0)
      in if index < length lookupKeys
         then case hot_search nodes undef junk (lookupKeys ! index) s of
                None \<Rightarrow> None
              | Some (Inl e) \<Rightarrow> Some (Inl e)
              | Some (Inr (rst, s')) \<Rightarrow>
                  lookup_all nodes undef junk lookupKeys n (index + 1) (allLookedUp \<and> rst, s')
         else Some (Inl UB_Index))"

text \<open>
  The results are whether all rules were inserted, the statistics, whether all keys were found, the count of
  matches that is printed, and the state in the end.
\<close>

definition hot_run ::
  "runtime \<Rightarrow> u64 OptionalValue \<Rightarrow> (u64 \<times> u64) list \<Rightarrow> u64 list
   \<Rightarrow> (bool \<times> index_statistics \<times> bool \<times> u64 \<times> hot_state) cxx option" where
  "hot_run rt junk insertKeys lookupKeys =
     and_then (insertRange rt insertKeys hot_state0) (\<lambda>(allInserted, st).
     and_then (getStatistics st) (\<lambda>statistics.
       let s = \<lparr> search_globals = (hot_globals st) \<lparr> extract_mask := 0 \<rparr>, key_index = 0, match_count = 0,
                 mTrie = hot_roots st \<rparr>
       in and_then (lookup_all (node_objects st) (undef_index rt) junk lookupKeys (length lookupKeys) 0 (True, s))
            (\<lambda>(allLookedUp, s'). Some (Inr (allInserted, statistics, allLookedUp, match_count s',
               st \<lparr> hot_roots := mTrie s', hot_globals := search_globals s' \<rparr>)))))"

text \<open>Without rules no operation has set \<open>mRoot\<close>, which the statistics dereference.\<close>

lemma hot_run_no_rules: "hot_run rt junk [] keys = Some (Inl UB_Null)"
proof -
  have "mRoot (hot_roots hot_state0) = None" by (simp add: hot_state0_def HOTSingleThreaded0_def)
  then show ?thesis by (simp add: hot_run_def insertRange_def and_then_def getStatistics_def)
qed

section \<open>The count of matches\<close>

lemma lookup_all_law:
  assumes K: "holds_keys K st"
  shows "roots_agree (mTrie s) (hot_roots st) \<Longrightarrow> extract_mask (search_globals s) = 0 \<Longrightarrow> index + n = length keys \<Longrightarrow>
    \<exists>s'. lookup_all (node_objects st) undef junk keys n index (all, s) =
        Some (Inr (all \<and> set (drop index keys) \<subseteq> K, s')) \<and>
      match_count s' = match_count s + of_nat (length (filter (\<lambda>k. k \<in> K) (drop index keys))) \<and>
      roots_agree (mTrie s') (hot_roots st) \<and> extract_mask (search_globals s') = 0"
proof (induction n arbitrary: index all s)
  case (Suc n)
  then have i: "index < length keys" and ix: "Suc index + n = length keys" by simp_all
  obtain s1 where s1: "hot_search (node_objects st) undef junk (keys ! index) s = Some (Inr (keys ! index \<in> K, s1))"
    "match_count s1 = match_count s + of_bool (keys ! index \<in> K)" "roots_agree (mTrie s1) (hot_roots st)"
    "extract_mask (search_globals s1) = 0"
    using search_law [OF K Suc.prems(1,2)] by blast
  obtain s' where "lookup_all (node_objects st) undef junk keys n (Suc index) (all \<and> keys ! index \<in> K, s1) =
      Some (Inr ((all \<and> keys ! index \<in> K) \<and> set (drop (Suc index) keys) \<subseteq> K, s'))"
    "match_count s' = match_count s1 + of_nat (length (filter (\<lambda>k. k \<in> K) (drop (Suc index) keys)))"
    "roots_agree (mTrie s') (hot_roots st)" "extract_mask (search_globals s') = 0"
    using Suc.IH [OF s1(3,4) ix] by blast
  then show ?case
    using i s1(1,2) by (simp add: Cons_nth_drop_Suc [symmetric])
qed simp

lemma card_values_in_branch: "card (values_in K r) = card {k \<in> K. branch_of k = r}"
  unfolding values_in_def by (rule card_image, intro inj_onI) (auto intro: key_eqI)

text \<open>What a run on the rules \<open>ks\<close> and the lookup keys \<open>keys\<close> answers.\<close>

definition run_answer :: "u64 list \<Rightarrow> u64 list \<Rightarrow> bool \<times> index_statistics \<times> bool \<times> u64 \<times> hot_state \<Rightarrow> bool" where
  "run_answer ks keys = (\<lambda>(allInserted, statistics, allLookedUp, matches, st).
     allInserted = distinct ks \<and> allLookedUp = (set keys \<subseteq> set ks) \<and>
     matches = of_nat (length (filter (\<lambda>k. k \<in> set ks) keys)) \<and>
     numberValues statistics = card (values_in (set ks) (branch_of (last ks))) \<and> holds_keys (set ks) st)"

lemma hot_run_law:
  assumes "allocator_ok (posix_memalign rt)" and "\<forall>st j. memory_ok 32 (new_contents rt st j)" and "length ks < 65536" and "ks \<noteq> []"
  shows "\<exists>res. hot_run rt junk (map (\<lambda>k. (k, 0)) ks) keys = Some res \<and> returns rt (run_answer ks keys) res"
proof -
  let ?r = "branch_of (last ks)"
  obtain res where res: "insertRange rt (map (\<lambda>k. (k, 0)) ks) hot_state0 = Some res"
    "returns rt (\<lambda>(all', st'). all' = distinct ks \<and> holds_keys (set ks) st' \<and> mRoot (hot_roots st') = Some ?r) res"
    using insertRange_law [OF assms(1,2) no_keys, of ks 0 True] assms(3,4) by (auto simp: insertRange_def)
  show ?thesis
  proof (cases res)
    case (Inl e)
    then show ?thesis using res by (simp add: hot_run_def and_then_def)
  next
    case (Inr x)
    obtain all st where x: "x = (all, st)" by (cases x)
    have st: "all = distinct ks" "holds_keys (set ks) st" "mRoot (hot_roots st) = Some ?r" using res(2) Inr x by simp_all
    have "low_bits (last ks) \<in> values_in (set ks) ?r" using assms(4) by (simp add: values_in_iff)
    then obtain stats where stats: "getStatistics st = Some (Inr stats)" "numberValues stats = card (values_in (set ks) ?r)"
      using getStatistics_law [OF st(2,3)] by blast
    let ?s = "\<lparr> search_globals = (hot_globals st) \<lparr> extract_mask := 0 \<rparr>, key_index = 0, match_count = 0, mTrie = hot_roots st \<rparr>"
    obtain s where s: "lookup_all (node_objects st) (undef_index rt) junk keys (length keys) 0 (True, ?s) = Some (Inr (set keys \<subseteq> set ks, s))"
      "match_count s = of_nat (length (filter (\<lambda>k. k \<in> set ks) keys))" "roots_agree (mTrie s) (hot_roots st)" "extract_mask (search_globals s) = 0"
      using lookup_all_law [OF st(2), of ?s 0 "length keys" keys "undef_index rt" junk True] by (auto simp: roots_agree_def)
    have "holds_keys (set ks) (st \<lparr> hot_roots := mTrie s, hot_globals := search_globals s \<rparr>) = holds_keys (set ks) st"
      by (rule holds_keys_cong) (use s(3,4) st(2) in \<open>simp_all add: root_pointer_def roots_agree_def holds_keys_def split: root.split\<close>)
    then show ?thesis using res(1) s(1,2) st stats by (simp add: hot_run_def Inr x and_then_def run_answer_def)
  qed
qed

text \<open>C5: The program inserts at least one and fewer than 65536 rules without wildcards, collects the statistics
  and looks keys up: it ends, it reports whether the rules were all different and whether all keys were found,
  the count it prints is the number of lookup keys that are among the rules, and the number of values in the
  statistics is the number of different rules in the branch that the last rule went to.  The only failure is an
  allocator that refuses.\<close>
theorem hot_run_counts:
  assumes "allocator_ok (posix_memalign rt)" and "\<forall>st j. memory_ok 32 (new_contents rt st j)" and "length ks < 65536" and "ks \<noteq> []"
  shows "\<exists>res. hot_run rt junk (map (\<lambda>k. (k, 0)) ks) keys = Some res \<and>
    (case res of Inl e \<Rightarrow> e = Bad_Alloc \<and> refuses rt
     | Inr (allInserted, statistics, allLookedUp, matches, st) \<Rightarrow>
         allInserted = distinct ks \<and> allLookedUp = (set keys \<subseteq> set ks) \<and>
         matches = of_nat (length (filter (\<lambda>k. k \<in> set ks) keys)) \<and>
         numberValues statistics = card {k \<in> set ks. bit k 63 = bit (last ks) 63})"
proof -
  obtain res where res: "hot_run rt junk (map (\<lambda>k. (k, 0)) ks) keys = Some res" "returns rt (run_answer ks keys) res"
    using hot_run_law [OF assms] by blast
  have "card (values_in (set ks) (branch_of (last ks))) = card {k \<in> set ks. bit k 63 = bit (last ks) 63}"
    unfolding card_values_in_branch by (rule arg_cong [of _ _ card]) (auto simp: branch_of_def split: if_splits)
  with res show ?thesis by (cases res) (auto simp: run_answer_def)
qed

text \<open>C6: On the same non-empty list of fewer than 65536 rules without wildcards, in the order of their priorities,
  and different lookup keys, the tree program counts what the linear program counts, unless the allocator refuses.\<close>
theorem hot_agrees_with_linear:
  assumes "allocator_ok (posix_memalign rt)" and "\<forall>st j. memory_ok 32 (new_contents rt st j)" and "length rules < 65536" and "rules \<noteq> []"
    and "\<forall>r \<in> set rules. l_mask r = 0 \<and> 0 < l_prio r" and "sorted_wrt (\<lambda>r r'. l_prio r < l_prio r') rules" and "distinct keys"
  shows "\<exists>res. hot_run rt junk (map (\<lambda>r. (l_value r, l_mask r)) rules) keys = Some res \<and>
    (case res of Inl e \<Rightarrow> e = Bad_Alloc \<and> refuses rt
     | Inr (allInserted, statistics, allLookedUp, matches, st) \<Rightarrow> matches = fst (linear_run rules keys))"
proof -
  let ?ks = "map l_value rules"
  have rules: "map (\<lambda>r. (l_value r, l_mask r)) rules = map (\<lambda>k. (k, 0)) ?ks" using assms(5) by simp
  obtain res where res: "hot_run rt junk (map (\<lambda>k. (k, 0)) ?ks) keys = Some res" "returns rt (run_answer ?ks keys) res"
    using hot_run_law [OF assms(1,2), of ?ks junk keys] assms(3,4) by auto
  have "(\<exists>r \<in> set rules. l_matches r k) \<longleftrightarrow> k \<in> set ?ks" for k
    using assms(5) by (auto simp: l_matches_def rule_matches_def)
  moreover have "length (filter P keys) = card {k \<in> set keys. P k}" for P
    using distinct_card [OF distinct_filter [OF assms(7), of P]] by simp
  moreover have "fst (linear_run rules keys) = of_nat (card {k \<in> set keys. \<exists>r \<in> set rules. l_matches r k})"
    by (rule linear_run_counts) (use assms(5,6) in auto)
  ultimately have "of_nat (length (filter (\<lambda>k. k \<in> set ?ks) keys)) = fst (linear_run rules keys)" by simp
  then show ?thesis using res unfolding rules by (cases res) (auto simp: run_answer_def)
qed

text \<open>C14: The destructor ends without error and releases exactly the nodes of the branch that the last
  operation used.  The memory before it consists of the nodes of that branch and of the other one; the memory
  after it is what it was on the nodes of the other branch, and nothing else is allocated.\<close>
theorem destructor_releases_branch:
  assumes "holds_keys K st" and "mRoot (hot_roots st) = Some r"
  shows "\<exists>st' A B. branch_holds st r (values_in K r) A \<and> branch_holds st (other r) (values_in K (other r)) B \<and>
    heap_is st Map.empty (branch_cells A + branch_cells B) \<and> HOT_destroy st = Some (Inr st') \<and>
    heap_is st' Map.empty (branch_cells B) \<and> node_objects st' = node_objects st |` addrs (branch_cells B) \<and>
    live_nodes st' + size (branch_cells A) = live_nodes st"
proof -
  obtain st' A B where st': "branch_holds st r (values_in K r) A" "branch_holds st (other r) (values_in K (other r)) B"
    "heap_is st Map.empty (branch_cells A + branch_cells B)" "HOT_destroy st = Some (Inr st')"
    "heap_is st' Map.empty (branch_cells B)" using HOT_destroy_law [OF assms] by blast
  then have "live_nodes st' + size (branch_cells A) = live_nodes st" by (simp add: heap_is_count)
  then show ?thesis using heap_is_restrict [OF st'(3,5)] st' by blast
qed

section \<open>An example\<close>

theorem hot_run_counts_witness:
  "\<exists>statistics st. hot_run example_runtime (OptionalValue0 0 0) [(5, 0), (0x8000000000000005, 0), (7, 0), (5, 0)] [7, 6, 7] =
     Some (Inr (False, statistics, False, 2, st)) \<and> numberValues statistics = 2"
proof -
  let ?ks = "[5, 0x8000000000000005, 7, 5] :: u64 list" and ?keys = "[7, 6, 7] :: u64 list"
  obtain res where res: "hot_run example_runtime (OptionalValue0 0 0) (map (\<lambda>k. (k, 0)) ?ks) ?keys = Some res"
    "case res of Inl e \<Rightarrow> e = Bad_Alloc \<and> refuses example_runtime
     | Inr (allInserted, statistics, allLookedUp, matches, st) \<Rightarrow>
         allInserted = distinct ?ks \<and> allLookedUp = (set ?keys \<subseteq> set ?ks) \<and>
         matches = of_nat (length (filter (\<lambda>k. k \<in> set ?ks) ?keys)) \<and>
         numberValues statistics = card {k \<in> set ?ks. bit k 63 = bit (last ?ks) 63}"
    using hot_run_counts [OF example_runtime_ok, of ?ks "OptionalValue0 0 0" ?keys] by auto
  have "\<not> bit (5 :: u64) 63" "\<not> bit (7 :: u64) 63" "bit (0x8000000000000005 :: u64) 63" by code_simp+
  then have "{k \<in> set ?ks. bit k 63 = bit (last ?ks) 63} = {5, 7}" by auto
  then show ?thesis using res first_fit_never_refuses by (cases res) auto
qed

theorem hot_agrees_with_linear_witness:
  "\<exists>a stats b st. hot_run example_runtime (OptionalValue0 0 0) [(5, 0), (7, 0)] [7, 6] = Some (Inr (a, stats, b, fst (linear_run
     [LRule0 \<lparr> l_value := 5, l_priority := 1 \<rparr>, LRule0 \<lparr> l_value := 7, l_priority := 2 \<rparr>] [7, 6]), st))"
proof -
  let ?rules = "[LRule0 \<lparr> l_value := 5, l_priority := 1 \<rparr>, LRule0 \<lparr> l_value := 7, l_priority := 2 \<rparr>]"
  obtain res where res: "hot_run example_runtime (OptionalValue0 0 0) (map (\<lambda>r. (l_value r, l_mask r)) ?rules) [7, 6] = Some res"
    "case res of Inl e \<Rightarrow> e = Bad_Alloc \<and> refuses example_runtime
     | Inr (allInserted, statistics, allLookedUp, matches, st) \<Rightarrow> matches = fst (linear_run ?rules [7, 6])"
    using hot_agrees_with_linear [OF example_runtime_ok, of ?rules "[7, 6]" "OptionalValue0 0 0"]
    by (auto simp: LRule0_def l_prio_def)
  then show ?thesis using first_fit_never_refuses by (cases res) (auto simp: LRule0_def)
qed

theorem destructor_releases_branch_witness:
  "\<exists>st st'. insertRange example_runtime [(0x8000000000000003, 0), (0x8000000000000007, 0), (3, 0), (7, 0)] hot_state0 = Some (Inr (True, st)) \<and>
    live_nodes st = 2 \<and> HOT_destroy st = Some (Inr st') \<and> live_nodes st' = 1"
proof -
  let ?ks = "[0x8000000000000003, 0x8000000000000007, 3, 7] :: u64 list"
  obtain st where st: "insertRange example_runtime (map (\<lambda>k. (k, 0)) ?ks) hot_state0 = Some (Inr (distinct ?ks, st))"
    "holds_keys (set ?ks) st" "mRoot (hot_roots st) = Some (branch_of (last ?ks))" using example_insertions [of ?ks] by auto
  have b: "branch_of 3 = Root_left" "branch_of 7 = Root_left" "branch_of 0x8000000000000003 = Root_right" "branch_of 0x8000000000000007 = Root_right"
    and l: "low_bits 3 = 3" "low_bits 7 = 7" "low_bits 0x8000000000000003 = 3" "low_bits 0x8000000000000007 = 7" by code_simp+
  have v: "values_in (set ?ks) Root_left = {3, 7}" "values_in (set ?ks) Root_right = {3, 7}"
    unfolding values_in_def using b l by (auto simp: image_iff)
  obtain st' A B where d: "branch_holds st Root_left {3, 7} A" "branch_holds st Root_right {3, 7} B" "HOT_destroy st = Some (Inr st')"
    "heap_is st' Map.empty (branch_cells B)" "live_nodes st' + size (branch_cells A) = live_nodes st"
    using destructor_releases_branch [OF st(2), of Root_left] st(3) b(2) v by auto
  have "size (branch_cells A) = 1" "live_nodes st' = 1"
    using two_values_one_node [OF d(1)] two_values_one_node [OF d(2)] heap_is_count [OF d(4)] by simp_all
  then show ?thesis using st(1) d(3,5) by auto
qed

end
