(* ===== verification/Hot_Iterator.thy ===== *)
theory Hot_Iterator
  imports Hot_Release
begin

text \<open>
  Iterating over the values of the tree: \<open>HOTSingleThreadedIterator.hpp\<close>, with \<open>begin\<close>, \<open>end\<close>, \<open>find\<close> and the
  bounds of \<open>HOTSingleThreaded.hpp\<close> and \<open>iterateAll\<close> of the program.  An iterator is a stack of positions in
  nodes, the innermost last.
\<close>

unbundle bit_operations_syntax

section \<open>Iterators\<close>

text \<open>
  A pointer to a child pointer, possibly one past the last: \<open>Root_at r 1\<close> is the address after a root and
  \<open>End_token\<close> the address of the static \<open>END_TOKEN\<close>.
\<close>

datatype position = Root_at root nat | Entry_at u64 nat | End_token

fun next_position :: "position \<Rightarrow> position" where
  "next_position (Root_at r i) = Root_at r (Suc i)"
| "next_position (Entry_at a i) = Entry_at a (Suc i)"
| "next_position End_token = End_token"

definition read_position :: "hot_state \<Rightarrow> position \<Rightarrow> CP cxx" where
  "read_position st q =
     (case q of Root_at r i \<Rightarrow> if i = 0 then Inr (root_pointer st r) else Inl UB_Index
      | Entry_at a i \<Rightarrow> read_slot st (Entry_slot a i)
      | End_token \<Rightarrow> Inr ChildPointer0)"

record HOTSingleThreadedIteratorStackEntry =
  it_mCurrent :: position
  it_mEnd :: position

type_synonym hot_iterator = "HOTSingleThreadedIteratorStackEntry list"

definition it_isExhausted :: "HOTSingleThreadedIteratorStackEntry \<Rightarrow> bool" where
  "it_isExhausted e \<longleftrightarrow> it_mCurrent e = it_mEnd e"

definition it_advance :: "HOTSingleThreadedIteratorStackEntry \<Rightarrow> HOTSingleThreadedIteratorStackEntry" where
  "it_advance e = (if it_mCurrent e \<noteq> it_mEnd e then e \<lparr> it_mCurrent := next_position (it_mCurrent e) \<rparr> else e)"

definition END_ITERATOR :: hot_iterator where
  "END_ITERATOR = [\<lparr> it_mCurrent = End_token, it_mEnd = End_token \<rparr>]"

definition iterator_at :: "position \<Rightarrow> position \<Rightarrow> hot_iterator" where
  "iterator_at current current_end = [\<lparr> it_mCurrent = current, it_mEnd = current_end \<rparr>]"

text \<open>The child pointer an iterator stands at, and its value.\<close>

definition iterator_current :: "hot_state \<Rightarrow> hot_iterator \<Rightarrow> CP cxx" where
  "iterator_current st it = read_position st (it_mCurrent (List.last it))"

definition iterator_value :: "hot_state \<Rightarrow> hot_iterator \<Rightarrow> u64 cxx" where
  "iterator_value st it = rbind (iterator_current st it) (\<lambda>p. Inr (tidToValue64 (getTid p)))"

definition iterator_equal :: "hot_state \<Rightarrow> hot_iterator \<Rightarrow> hot_iterator \<Rightarrow> bool cxx" where
  "iterator_equal st it it' =
     rbind (iterator_current st it) (\<lambda>p. rbind (iterator_current st it') (\<lambda>q. Inr (mPointer p = mPointer q \<and> mMask p = mMask q)))"

definition iterator_push :: "position \<Rightarrow> position \<Rightarrow> hot_iterator \<Rightarrow> hot_iterator cxx" where
  "iterator_push current current_end it =
     (if length it < 64 then Inr (it @ [\<lparr> it_mCurrent = current, it_mEnd = current_end \<rparr>]) else Inl UB_Index)"

text \<open>Down to the first leaf below the current position.\<close>

partial_function (option) iterator_descend :: "hot_state \<Rightarrow> hot_iterator \<Rightarrow> hot_iterator cxx option" where
  "iterator_descend st it =
     (case iterator_current st it of
        Inl e \<Rightarrow> Some (Inl e)
      | Inr p \<Rightarrow>
          if isAValidNode p
          then case rbind (node_at (node_objects st) p) (\<lambda>n.
                      iterator_push (Entry_at (getNode p) 0) (Entry_at (getNode p) (getNumberEntries n)) it) of
                 Inl e \<Rightarrow> Some (Inl e)
               | Inr it' \<Rightarrow> iterator_descend st it'
          else Some (Inr it))"

text \<open>\<open>operator++\<close>: up while the positions are used up, then down again.  The innermost position comes first.\<close>

fun iterator_up :: "HOTSingleThreadedIteratorStackEntry \<Rightarrow> hot_iterator \<Rightarrow> hot_iterator" where
  "iterator_up e [] = [e]"
| "iterator_up e (e' # es) = (if it_isExhausted e then iterator_up (it_advance e') es else rev (e # e' # es))"

definition iterator_next :: "hot_state \<Rightarrow> hot_iterator \<Rightarrow> hot_iterator cxx option" where
  "iterator_next st it =
     (let it' = iterator_up (it_advance (List.last it)) (rev (butlast it))
      in if it_isExhausted (hd it') then Some (Inr END_ITERATOR) else iterator_descend st it')"

definition hot_begin :: "hot_state \<Rightarrow> hot_iterator cxx option" where
  "hot_begin st =
     (case hot_isEmpty (hot_roots st) of
        Inl e \<Rightarrow> Some (Inl e)
      | Inr e \<Rightarrow>
          if e then Some (Inr END_ITERATOR)
          else case mRoot (hot_roots st) of None \<Rightarrow> Some (Inl UB_Null)
               | Some r \<Rightarrow> iterator_descend st (iterator_at (Root_at r 0) (Root_at r 1)))"

text \<open>The values of the tree are compared with the given keys, from the key \<open>i\<close> on.\<close>

partial_function (option) iterate_loop ::
  "hot_state \<Rightarrow> u64 list \<Rightarrow> nat \<Rightarrow> bool \<Rightarrow> hot_iterator \<Rightarrow> bool cxx option" where
  "iterate_loop st iterateKeys i iteratedAll it =
     (case iterator_equal st it END_ITERATOR of
        Inl e \<Rightarrow> Some (Inl e)
      | Inr atEnd \<Rightarrow>
          if atEnd then Some (Inr (iteratedAll \<and> i = length iterateKeys))
          else (case iterator_value st it of
             Inl e \<Rightarrow> Some (Inl e)
           | Inr v \<Rightarrow>
               if i < length iterateKeys
               then Option.bind (iterator_next st it) (\<lambda>r.
                      case r of Inl e \<Rightarrow> Some (Inl e)
                      | Inr it' \<Rightarrow> iterate_loop st iterateKeys (Suc i) (iteratedAll \<and> v = iterateKeys ! i) it')
               else Some (Inl UB_Index)))"

definition iterateAll :: "hot_state \<Rightarrow> u64 list \<Rightarrow> bool cxx option" where
  "iterateAll st iterateKeys =
     Option.bind (hot_begin st) (\<lambda>r. case r of Inl e \<Rightarrow> Some (Inl e) | Inr it \<Rightarrow> iterate_loop st iterateKeys 0 True it)"

section \<open>Where an iterator stands in the tree\<close>

text \<open>The stack for the path to a subtree, and the leaves to its right.\<close>

fun iter_stack :: "root \<Rightarrow> frame list \<Rightarrow> hot_iterator" where
  "iter_stack r [] = [\<lparr> it_mCurrent = Root_at r 0, it_mEnd = Root_at r 1 \<rparr>]"
| "iter_stack r ((p, n, t, cs, i) # fs) =
     iter_stack r fs @ [\<lparr> it_mCurrent = Entry_at (getNode p) i, it_mEnd = Entry_at (getNode p) (length cs) \<rparr>]"

fun leaves_right :: "frame list \<Rightarrow> CP list" where
  "leaves_right [] = []"
| "leaves_right ((p, n, t, cs, i) # fs) = concat (map (leaves \<circ> trie_of) (drop (Suc i) cs)) @ leaves_right fs"

lemma length_iter_stack [simp]: "length (iter_stack r fs) = Suc (length fs)"
  by (induction r fs rule: iter_stack.induct) simp_all

lemma iter_stack_snoc: "butlast (iter_stack r fs) @ [List.last (iter_stack r fs)] = iter_stack r fs"
  by (rule append_butlast_last_id) (metis length_0_conv length_iter_stack nat.distinct(1))

lemma rev_iter_stack: "rev (iter_stack r fs) = List.last (iter_stack r fs) # rev (butlast (iter_stack r fs))"
  using arg_cong [OF iter_stack_snoc [of r fs, symmetric], of rev] by simp

lemma iter_stack_top: "it_mCurrent (List.last (iter_stack r fs)) = (case hole_slot r fs of Root_slot r \<Rightarrow> Root_at r 0 | Entry_slot a i \<Rightarrow> Entry_at a i)"
  by (induction r fs rule: iter_stack.induct) simp_all

text \<open>The tree of a root that is well-formed and in memory.\<close>

definition root_tree :: "hot_state \<Rightarrow> root \<Rightarrow> htree \<Rightarrow> bool" where
  "root_tree st r H \<longleftrightarrow> hwf H \<and> root_pointer st r = ptr H \<and> ordered (trie_of H) \<and> bits_of (trie_of H) \<subseteq> {1..<64} \<and>
     (\<forall>(a, n) \<in># cells H. node_objects st a = Some n)"

lemma root_tree_node:
  assumes "root_tree st r H" and "path_frames H fs (HNode p n t cs)"
  shows "node_objects st (getNode p) = Some n" "points_to p n" "node_wf n t" "leaves t = map ptr cs" "getNumberEntries n = length cs"
    "cs \<noteq> []" "trie_of (HNode p n t cs) = graft t (map trie_of cs)"
proof -
  have w: "hwf (HNode p n t cs)" by (rule path_frames_wf [OF assms(2)]) (use assms(1) in \<open>simp add: root_tree_def\<close>)
  then show "points_to p n" and wf: "node_wf n t" and l: "leaves t = map ptr cs" by simp_all
  have "(getNode p, n) \<in># cells H" using path_frames_cells [OF assms(2)] by simp
  then show "node_objects st (getNode p) = Some n" using assms(1) by (auto simp: root_tree_def)
  show "getNumberEntries n = length cs" using node_wfD(10) [OF wf] l by simp
  show "cs \<noteq> []" using l leaves_not_Nil [of t] by auto
qed simp

lemma root_tree_read:
  assumes T: "root_tree st r H" and path: "path_frames H fs h"
  shows "iterator_current st (iter_stack r fs) = Inr (ptr h)"
proof (cases fs)
  case Nil
  then show ?thesis using assms by (simp add: iterator_current_def read_position_def root_tree_def)
next
  case (Cons f fs')
  obtain p n t cs i where f: "f = (p, n, t, cs, i)" by (metis prod_cases5)
  have wf: "hwf H" using T by (simp add: root_tree_def)
  have pf: "path_frames H fs' (HNode p n t cs)" using path Cons f by simp
  show ?thesis
    using root_tree_node(1) [OF T pf] frame_node(7) [OF path [unfolded Cons f] wf] Cons f
    by (simp add: iterator_current_def read_position_def read_slot_def)
qed

lemma points_valid: "points_to p n \<Longrightarrow> isAValidNode p"
proof -
  assume p: "points_to p n"
  then have "mPointer p \<noteq> 0" by (auto simp: points_to_def getNode_def)
  then show ?thesis using p by (simp add: isAValidNode_def isNode_def points_to_def)
qed

lemma leaves_node: "leaves t = map ptr cs \<Longrightarrow> leaves (graft t (map trie_of cs)) = concat (map (leaves \<circ> trie_of) cs)"
  using leaves_of_graft [of "map trie_of cs" t] by (simp add: map_map)

section \<open>Going down\<close>

lemma descend_law:
  assumes "root_tree st r H"
  shows "path_frames H fs h \<Longrightarrow> \<exists>fs' q. iterator_descend st (iter_stack r fs) = Some (Inr (iter_stack r fs')) \<and>
    path_frames H fs' (HLeaf q) \<and> q # leaves_right fs' = leaves (trie_of h) @ leaves_right fs"
proof (induction h arbitrary: fs)
  case (HLeaf p)
  have "isLeaf p" using path_frames_wf [OF HLeaf] assms by (simp add: root_tree_def)
  then have "\<not> isAValidNode p" by (simp add: isAValidNode_def isNode_def)
  then have "iterator_descend st (iter_stack r fs) = Some (Inr (iter_stack r fs))"
    using root_tree_read [OF assms HLeaf] by (subst iterator_descend.simps) simp
  then show ?case using HLeaf by auto
next
  case (HNode p n t cs)
  note d = root_tree_node [OF assms HNode.prems]
  obtain c cs' where cs: "cs = c # cs'" using d(6) by (cases cs) auto
  let ?f = "(p, n, t, cs, 0)"
  have path: "path_frames H (?f # fs) c" using HNode.prems cs by simp
  have ord: "ordered (trie_of H)" "0 \<notin> bits_of (trie_of H)" "hwf H" "bits_of (trie_of H) \<subseteq> {1..<64}"
    using assms by (auto simp: root_tree_def)
  have "length fs < root_bit t" by (rule depth_bound [OF HNode.prems ord(3,1,2)])
  moreover have "root_bit t \<in> bits_of (trie_of H)"
    using path_ordered [OF HNode.prems ord(3,1)] path_frames_wf [OF HNode.prems ord(3)] by (cases t) auto
  ultimately have room: "Suc (length fs) < 64" using ord(4) by auto
  have step: "iterator_descend st (iter_stack r fs) = iterator_descend st (iter_stack r (?f # fs))"
    using root_tree_read [OF assms HNode.prems] d(1,5) points_valid [OF d(2)] room
    by (subst iterator_descend.simps) (simp add: node_at_def iterator_push_def)
  show ?case
    using HNode.IH [of c, OF _ path] cs leaves_node [OF d(4)] unfolding step by (auto simp: comp_def)
qed

section \<open>Going to the next leaf\<close>

text \<open>The position that follows the path, in the innermost node that has a further entry.\<close>

lemma up_law:
  "path_frames H fs h \<Longrightarrow>
   (if leaves_right fs = [] then it_isExhausted (hd (iterator_up (it_advance (List.last (iter_stack r fs))) (rev (butlast (iter_stack r fs)))))
    else \<exists>fs' h'. iterator_up (it_advance (List.last (iter_stack r fs))) (rev (butlast (iter_stack r fs))) = iter_stack r fs' \<and>
      path_frames H fs' h' \<and> leaves_right fs = leaves (trie_of h') @ leaves_right fs')"
proof (induction fs arbitrary: h)
  case Nil
  then show ?case by (simp add: it_advance_def it_isExhausted_def)
next
  case (Cons f fs)
  obtain p n t cs i where f: "f = (p, n, t, cs, i)" by (metis prod_cases5)
  have path: "path_frames H fs (HNode p n t cs)" "i < length cs" "cs ! i = h" using Cons.prems f by simp_all
  let ?e = "\<lparr> it_mCurrent = Entry_at (getNode p) (Suc i), it_mEnd = Entry_at (getNode p) (length cs) \<rparr>"
  have top: "it_advance (List.last (iter_stack r (f # fs))) = ?e" using path(2) f by (simp add: it_advance_def)
  have rest: "rev (butlast (iter_stack r (f # fs))) = List.last (iter_stack r fs) # rev (butlast (iter_stack r fs))"
    using f by (simp add: rev_iter_stack [symmetric])
  show ?case
  proof (cases "Suc i < length cs")
    case True
    have "iterator_up ?e (rev (butlast (iter_stack r (f # fs)))) = iter_stack r ((p, n, t, cs, Suc i) # fs)"
      using True unfolding rest by (simp add: it_isExhausted_def iter_stack_snoc)
    moreover have "path_frames H ((p, n, t, cs, Suc i) # fs) (cs ! Suc i)" using path(1) True by simp
    moreover have "leaves_right (f # fs) = leaves (trie_of (cs ! Suc i)) @ leaves_right ((p, n, t, cs, Suc i) # fs)"
      using True f by (simp add: Cons_nth_drop_Suc [symmetric])
    ultimately have "\<exists>fs' h'. iterator_up ?e (rev (butlast (iter_stack r (f # fs)))) = iter_stack r fs' \<and>
        path_frames H fs' h' \<and> leaves_right (f # fs) = leaves (trie_of h') @ leaves_right fs'" by blast
    then show ?thesis unfolding top by auto
  next
    case False
    then have i: "Suc i = length cs" using path(2) by simp
    have "iterator_up ?e (rev (butlast (iter_stack r (f # fs)))) =
        iterator_up (it_advance (List.last (iter_stack r fs))) (rev (butlast (iter_stack r fs)))"
      unfolding rest by (simp add: it_isExhausted_def i)
    moreover have "leaves_right (f # fs) = leaves_right fs" using i f by simp
    ultimately show ?thesis unfolding top using Cons.IH [OF path(1)] by (simp only:)
  qed
qed

lemma next_law:
  assumes T: "root_tree st r H" and path: "path_frames H fs (HLeaf q)"
  shows "if leaves_right fs = [] then iterator_next st (iter_stack r fs) = Some (Inr END_ITERATOR)
    else \<exists>fs' q'. iterator_next st (iter_stack r fs) = Some (Inr (iter_stack r fs')) \<and> path_frames H fs' (HLeaf q') \<and>
      q' # leaves_right fs' = leaves_right fs"
proof (cases "leaves_right fs = []")
  case True
  then show ?thesis using up_law [OF path, of r] by (simp add: iterator_next_def)
next
  case False
  obtain fs' h' where up: "iterator_up (it_advance (List.last (iter_stack r fs))) (rev (butlast (iter_stack r fs))) = iter_stack r fs'"
    "path_frames H fs' h'" "leaves_right fs = leaves (trie_of h') @ leaves_right fs'"
    using up_law [OF path, of r] False by auto
  obtain fs2 q2 where "iterator_descend st (iter_stack r fs') = Some (Inr (iter_stack r fs2))"
    "path_frames H fs2 (HLeaf q2)" "q2 # leaves_right fs2 = leaves (trie_of h') @ leaves_right fs'"
    using descend_law [OF T up(2)] by blast
  moreover have "\<not> it_isExhausted (hd (iter_stack r fs'))"
  proof -
    have "hd (iter_stack r fs') = \<lparr> it_mCurrent = Root_at r 0, it_mEnd = Root_at r 1 \<rparr>"
      by (induction r fs' rule: iter_stack.induct) (simp_all add: hd_append flip: length_0_conv)
    then show ?thesis by (simp add: it_isExhausted_def)
  qed
  ultimately show ?thesis using False unfolding up(3) iterator_next_def up(1) Let_def by auto
qed

section \<open>Iterating over all values\<close>

lemma not_at_end:
  assumes "root_tree st r H" "path_frames H fs (HLeaf q)"
  shows "iterator_equal st (iter_stack r fs) END_ITERATOR = Inr False" "iterator_equal st END_ITERATOR END_ITERATOR = Inr True"
    "iterator_value st (iter_stack r fs) = Inr (leaf_value q)"
proof -
  have "isLeaf q" using path_frames_wf [OF assms(2)] assms(1) by (simp add: root_tree_def)
  then have "mPointer q \<noteq> mPointer ChildPointer0" by (auto simp: isLeaf_def ChildPointer0_def)
  moreover have "iterator_current st END_ITERATOR = Inr ChildPointer0"
    by (simp add: iterator_current_def END_ITERATOR_def read_position_def)
  ultimately show "iterator_equal st (iter_stack r fs) END_ITERATOR = Inr False" "iterator_equal st END_ITERATOR END_ITERATOR = Inr True"
    "iterator_value st (iter_stack r fs) = Inr (leaf_value q)"
    using root_tree_read [OF assms] by (simp_all add: iterator_equal_def iterator_value_def leaf_value_def)
qed

lemma iterate_loop_law:
  assumes T: "root_tree st r H"
  shows "path_frames H fs (HLeaf q) \<Longrightarrow> i + Suc (length (leaves_right fs)) = length vs \<Longrightarrow>
    iterate_loop st vs i ok (iter_stack r fs) = Some (Inr (ok \<and> map leaf_value (q # leaves_right fs) = drop i vs))"
proof (induction "leaves_right fs" arbitrary: fs q i ok)
  case Nil
  note e = not_at_end [OF T Nil.prems(1)]
  have n: "iterator_next st (iter_stack r fs) = Some (Inr END_ITERATOR)" using next_law [OF T Nil.prems(1)] Nil.hyps by simp
  have i: "i < length vs" "drop i vs = [vs ! i]" using Nil.prems(2) Nil.hyps by (simp_all add: Cons_nth_drop_Suc [symmetric])
  show ?case
    using e i n Nil.hyps Nil.prems(2) by (subst iterate_loop.simps) (simp, subst iterate_loop.simps, simp)
next
  case (Cons q1 qs)
  note e = not_at_end [OF T Cons.prems(1)]
  obtain fs' q' where n: "iterator_next st (iter_stack r fs) = Some (Inr (iter_stack r fs'))" "path_frames H fs' (HLeaf q')"
    "q' # leaves_right fs' = leaves_right fs" using next_law [OF T Cons.prems(1)] Cons.hyps(2) by (auto split: if_splits)
  have i: "i < length vs" "drop i vs = vs ! i # drop (Suc i) vs" using Cons.prems(2) by (simp_all add: Cons_nth_drop_Suc)
  have "iterate_loop st vs (Suc i) (ok \<and> leaf_value q = vs ! i) (iter_stack r fs') =
      Some (Inr ((ok \<and> leaf_value q = vs ! i) \<and> map leaf_value (q' # leaves_right fs') = drop (Suc i) vs))"
    by (rule Cons.hyps(1)) (use n Cons.hyps(2) Cons.prems(2) in \<open>auto simp flip: n(3)\<close>)
  then show ?case using e(1,3) i n(1) unfolding n(3) [symmetric] by (subst iterate_loop.simps) simp
qed

section \<open>The order of the values\<close>

lemma key_less:
  assumes "k < 64" "\<not> key_bit (key_bytes v) k" "key_bit (key_bytes w) k"
    "\<And>x. x < k \<Longrightarrow> key_bit (key_bytes v) x = key_bit (key_bytes w) x"
  shows "v < w"
proof (rule word_less_iff_top_bit [of "63 - k"])
  show "\<not> bit v (63 - k)" "bit w (63 - k)" using assms(1-3) by (simp_all add: key_bit_key_bytes)
  show "bit v j = bit w j" if "63 - k < j" for j
  proof (cases "j < 64")
    case True
    then show ?thesis using assms(4) [of "63 - j"] that assms(1) by (simp add: key_bit_key_bytes)
  next
    case False
    then show ?thesis by (auto dest: bit_imp_le_length)
  qed
qed simp

lemma values_ascending:
  "patricia leaf_key T \<Longrightarrow> bits_of T \<subseteq> {..<64} \<Longrightarrow> sorted_wrt (<) (map leaf_value (leaves T))"
proof (induction T)
  case (PNode b l r)
  have "leaf_value c < leaf_value d" if "c \<in> set (leaves l)" "d \<in> set (leaves r)" for c d
  proof (rule key_less [of b])
    have a: "agree leaf_key b (set (leaves (PNode b l r)))" using PNode.prems by simp
    show "key_bit (leaf_key c) x = key_bit (leaf_key d) x" if "x < b" for x
      by (rule agreeD [OF a]) (use that \<open>c \<in> set (leaves l)\<close> \<open>d \<in> set (leaves r)\<close> in simp_all)
  qed (use PNode.prems that in auto)
  then show ?case using PNode by (auto simp: sorted_wrt_append)
qed simp

lemma ascending_list: "sorted_wrt (<) vs \<Longrightarrow> set vs = V \<Longrightarrow> vs = sorted_list_of_set (V :: u64 set)"
  by (metis sorted_list_of_set.idem_if_sorted_distinct strict_sorted_iff)

text \<open>What \<open>begin\<close> finds in the tree of the root in use.\<close>

lemma holds_root_tree:
  assumes K: "holds_keys K st" and r: "mRoot (hot_roots st) = Some r"
  shows "if values_in K r = {} then root_pointer st r = ChildPointer0
    else \<exists>H. root_tree st r H \<and> map leaf_value (leaves (trie_of H)) = sorted_list_of_set (values_in K r)"
proof -
  obtain B where B: "branch_holds st r (values_in K r) (B r)" "heap_is st Map.empty (branch_cells (B r) + branch_cells (B (other r)))"
    by (rule holds_keysE [OF K])
  show ?thesis
  proof (cases "B r")
    case (Some H)
    then have H: "hwf H" "root_pointer st r = ptr H" "exact_trie (trie_of H)" "values_of (trie_of H) = values_in K r" "hheight H < card (values_in K r)"
      using B(1) by (simp_all add: branch_holds_def)
    have p: "patricia leaf_key (trie_of H)" "bits_of (trie_of H) \<subseteq> {1..<64}" using H(3) by (simp_all add: exact_trie_def)
    have "root_tree st r H"
      using H(1,2) p patricia_ordered [OF p(1)] heap_is_lookup [OF B(2)] Some by (auto simp: root_tree_def branch_cells_def)
    moreover have "map leaf_value (leaves (trie_of H)) = sorted_list_of_set (values_in K r)"
      by (rule ascending_list [OF values_ascending [OF p(1)]]) (use p(2) H(4) in \<open>auto simp: values_of_def\<close>)
    moreover have "values_in K r \<noteq> {}" using H(5) by auto
    ultimately show ?thesis by auto
  qed (use B(1) in \<open>simp add: branch_holds_def\<close>)
qed

lemma begin_law:
  assumes T: "root_tree st r H" and r: "mRoot (hot_roots st) = Some r"
  obtains fs q where "hot_begin st = Some (Inr (iter_stack r fs))" "path_frames H fs (HLeaf q)" "q # leaves_right fs = leaves (trie_of H)"
proof -
  have path: "path_frames H [] H" by simp
  obtain fs q where d: "iterator_descend st (iter_stack r []) = Some (Inr (iter_stack r fs))" "path_frames H fs (HLeaf q)"
    "q # leaves_right fs = leaves (trie_of H)" using descend_law [OF T path] by auto
  have "isLeaf (ptr H) \<or> getNode (ptr H) \<noteq> 0" using T by (cases H) (auto simp: root_tree_def points_to_def)
  then have "hot_isEmpty (hot_roots st) = Inr False"
    using T r by (cases r) (auto simp: hot_isEmpty_def read_root_def root_tree_def root_pointer_def)
  then have "hot_begin st = Some (Inr (iter_stack r fs))" using d(1) r by (simp add: hot_begin_def iterator_at_def)
  then show thesis using that d(2,3) by blast
qed

text \<open>C13: Iterating visits the values of the branch in use in ascending order, each once, and ends: compared with
  as many keys as there are values, \<open>iterateAll\<close> reports whether they are the values in ascending order.\<close>
theorem iterate_all_sorted:
  assumes "holds_keys K st" and "mRoot (hot_roots st) = Some r" and "length vs = card (values_in K r)"
  shows "iterateAll st vs = Some (Inr (vs = sorted_list_of_set (values_in K r)))"
proof (cases "values_in K r = {}")
  case True
  have root: "root_pointer st r = ChildPointer0" and vs: "vs = []"
    using holds_root_tree [OF assms(1,2)] True assms(3) by simp_all
  have "\<not> isLeaf ChildPointer0" "getNode ChildPointer0 = 0" by code_simp+
  then have "hot_begin st = Some (Inr END_ITERATOR)"
    using root assms(2) by (cases r) (simp_all add: hot_begin_def hot_isEmpty_def read_root_def root_pointer_def)
  moreover have "iterator_equal st END_ITERATOR END_ITERATOR = Inr True"
    by (simp add: iterator_equal_def iterator_current_def END_ITERATOR_def read_position_def)
  ultimately show ?thesis using True vs by (simp add: iterateAll_def) (subst iterate_loop.simps, simp)
next
  case False
  obtain H where H: "root_tree st r H" "map leaf_value (leaves (trie_of H)) = sorted_list_of_set (values_in K r)"
    using holds_root_tree [OF assms(1,2)] False by auto
  obtain fs q where b: "hot_begin st = Some (Inr (iter_stack r fs))" "path_frames H fs (HLeaf q)" "q # leaves_right fs = leaves (trie_of H)"
    by (rule begin_law [OF H(1) assms(2)])
  have len: "0 + Suc (length (leaves_right fs)) = length vs"
    using arg_cong [OF b(3), of length] arg_cong [OF H(2), of length] assms(3) by simp
  have "iterateAll st vs = Some (Inr (True \<and> map leaf_value (q # leaves_right fs) = drop 0 vs))"
    using iterate_loop_law [OF H(1) b(2) len, of True] by (simp add: iterateAll_def b(1))
  then show ?thesis unfolding b(3) H(2) by auto
qed

section \<open>An example\<close>

lemma example_keys:
  obtains st where "holds_keys {3, 7} st" "mRoot (hot_roots st) = Some Root_left"
proof -
  have "branch_of 3 = Root_left" by code_simp
  then show thesis using that by (rule_tac example_insertions [of "[7, 3]"]) (auto simp: insert_commute)
qed

lemma example_values_in: "values_in {3, 7} Root_left = {3, 7}"
proof -
  have "branch_of 3 = Root_left" "branch_of 7 = Root_left" "low_bits 3 = 3" "low_bits 7 = 7" by code_simp+
  then show ?thesis by (auto simp: values_in_def)
qed

theorem iterate_all_sorted_witness:
  "\<exists>st. holds_keys {3, 7} st \<and> iterateAll st [3, 7] = Some (Inr True) \<and> iterateAll st [7, 3] = Some (Inr False)"
proof -
  obtain st where st: "holds_keys {3, 7} st" "mRoot (hot_roots st) = Some Root_left" by (rule example_keys)
  have len: "length vs = card (values_in {3, 7} Root_left)" if "length vs = 2" for vs :: "u64 list" using that by (simp add: example_values_in)
  have "sorted_list_of_set {3, 7 :: u64} = [3, 7]" by (simp add: sorted_list_of_set_nonempty)
  then show ?thesis
    using st(1) iterate_all_sorted [OF st len, of "[3, 7]"] iterate_all_sorted [OF st len, of "[7, 3]"]
    by (auto simp: example_values_in)
qed

end
