(* ===== verification/Spec2Isabelle.thy ===== *)
theory Spec2Isabelle
  imports Linear_Driver Basic_Trie_Exact Kmeans_Driver
    Bit_Mask32 Linearised_Trie Single_Mask_Extract Multi_Mask_Insert Child_Pointer
    Hot_Wildcard_Search Hot_Program Hot_Iterator
begin

text \<open>
  \<^bold>\<open>A verification library for SIMD-Matcher.\<close>

  The repository matches 64-bit keys against ternary rules.  A rule is a value and a mask whose set bits
  are wildcards; it matches the keys that agree with the value outside the mask.  Three programs under
  \<open>src/test\<close> read rules and keys and count the keys that some rule matches.  They differ in their tables:

  \<^item> \<open>linear_arbitrary.cpp\<close> keeps the rules in a vector (\<open>libmatch/linear_arbitrary\<close>) and scans it.
  \<^item> \<open>prefix_kmeans.cpp\<close> clusters the rules, reorders the bits of each group so that the wildcards
    collect at the low end, writes each group into a binary trie of prefixes (\<open>libmatch/basic_trie\<close>) and
    decides by priority among the groups.
  \<^item> \<open>hot_tree.cpp\<close> keeps the rules in a height optimised trie (\<open>src/hot\<close>): a tree of nodes of at most
    32 entries, each of which stores a binary Patricia trie in linear form and is searched with SIMD
    instructions on all entries at once.

  \<^bold>\<open>Shared ground.\<close>
  \<open>Cxx_Prelude\<close> has the machine integers (\<open>w word\<close>), the failures of a C++ operation as the values \<open>Inl\<close> of a
  sum type (\<open>'a cxx\<close>: undefined shifts, reads outside an array, null pointers, division by zero,
  signed overflow, exceptions, \<open>bad_alloc\<close>), loops over results and the lemmas on bits and lists that several components use.
  \<open>Cxx_Library\<close> has the functions of the standard library with their documented contracts; \<open>std::sort\<close> is
  a locale of its contract, interpreted by insertion sort, with the lemma that on totally ordered data
  every sort gives the same list.  A counter that the code keeps in an \<open>int\<close> and that follows the input is
  counted with \<open>int_succ\<close>, which overflows at \<open>2 ^ 31\<close>; a value stored as an \<open>int\<close> is narrowed with \<open>to_int\<close>.
  Indices of loops over a vector are natural numbers, and the theorems bound the length of the vector where
  an \<open>int\<close> index or a sum of \<open>int\<close>s of the code would otherwise overflow.  \<open>Matcher_Interface\<close> states what every rule table promises: the ternary match
  \<open>rule_matches\<close>, the smallest priority among the matching rules, and the locale of a table filled rule by
  rule and then searched.  The linear table and the priority trie interpret it.

  \<^bold>\<open>Linear table.\<close>
  \<open>Linear_Table\<close> is the class of \<open>libmatch/linear_arbitrary.cpp\<close>; its search returns the first stored rule
  that matches.  \<open>Linear_Driver\<close> is the program of \<open>test/linear_arbitrary.cpp\<close> from the lines of its files to
  the count it prints.

  \<^bold>\<open>Prefix tries.\<close>
  \<open>Trie_Rules\<close> (functions on rules), \<open>Basic_Trie\<close> (nodes, insertion, searches, deletion), \<open>Basic_Trie_Priority\<close> and
  \<open>Basic_Trie_Contract\<close> (what insertion of a prefix rule does to every later search, node budget and
  counters, interpretation of the matcher contract), \<open>Basic_Trie_Expand\<close> (\<open>expand_rule\<close>: ternary rules as
  sets of prefixes, with the refusal of a blow-up) and \<open>Basic_Trie_Exact\<close> (the trie as a set of exact keys)
  model \<open>libmatch/basic_trie.cpp\<close>.  The nodes own their children, so a node is a value of the datatype of
  tries and the root pointer a field of the record; the static node counters are part of the state.
  \<open>Bit_Rearrange\<close> and \<open>Bit_Delta\<close> (the vector of bit positions and its correctness), \<open>Clusters\<close> (similarity,
  correlation clustering), \<open>Kmeans\<close>, \<open>Kmeans_Build\<close>, \<open>Kmeans_Search\<close> (splitting into groups, one trie a group,
  search over all groups) and \<open>Kmeans_Driver\<close> (the whole program, and its agreement with the linear one)
  model \<open>test/prefix_kmeans.cpp\<close>.  The agreement of the programs holds for rules that are not all wildcards and
  have no value bit under a wildcard, within the node budget of the tries (64 nodes for each of at most
  \<open>2 ^ 15\<close> prefixes of a rule), for runs that flag no blow-up.  Recursions whose end depends on the data (splitting, clustering) are
  functions with termination proofs or are shown to end; nothing rests on "if it returns".

  \<^bold>\<open>The height optimised trie, from the bits up.\<close>
  \<^item> \<open>Bit_Intrinsics\<close>, \<open>Simd_Registers\<close>, \<open>Simd_Helper\<close>: the compiler intrinsics and AVX2 instructions.  A register is
    the list of its lanes.  \<open>__builtin_clz\<close> and \<open>__builtin_ctz\<close> of 0 are undefined: the model takes the
    result as an argument \<open>undef\<close>, so theorems hold for every value.
  \<^item> \<open>Hot_Algorithms\<close>, \<open>Bit_Mask32\<close>, \<open>Content_Helpers\<close>, \<open>Discriminative_Bit\<close>: \<open>Algorithms.hpp\<close>, the slot masks,
    the key helpers of \<open>src/idx\<close>, and the highest bit at which two keys differ (three versions of
    \<open>executeForDiffingKeys\<close>: without masks, with the mask of the new rule, with both).
  \<^item> \<open>Sparse_Partial_Keys\<close> and \<open>Linearised_Trie\<close>: the operations on the array of sparse partial keys, and the
    proof that they compute on the linear form what they mean on the binary trie.
  \<^item> \<open>Partial_Key_Mappings\<close> (state), \<open>Single_Mask\<close>, \<open>Single_Mask_Extract\<close>, \<open>Multi_Mask\<close>, \<open>Multi_Mask_Extract\<close>,
    \<open>Mapping_Operations\<close>, \<open>Mapping_Queries\<close>, \<open>Multi_Mask_Insert\<close>, \<open>Mapping_Restrict\<close>: which key bits a node tests.  The
    class of a mapping is a constructor of \<open>mapping\<close>; every query, the insertion of a bit and the
    restriction to some bits is proved for all classes, and the class chosen is the smallest that fits.
  \<^item> \<open>Node_Commons\<close>, \<open>Child_Pointer\<close>: node types, the values passed between node operations, and the tagged
    pointer word that is a node or a tuple identifier.
  \<^item> \<open>Key_Trie\<close>: the specification of a node, a Patricia trie over bits of 64-bit keys.  \<open>Hot_Node\<close>,
    \<open>Hot_Node_Insert\<close>, \<open>Hot_Node_Contract\<close> (layout, search, \<open>addEntry\<close>) and \<open>Hot_Node_Compress\<close> (splitting a full node):
    \<open>node_wf n t\<close> relates a node to its trie \<open>t\<close>, and each operation is shown to implement the operation on
    tries.  The locale \<open>trie_node\<close> is the interface between nodes and the tree.
  \<^item> \<open>Hot_Wildcard_Search\<close>: the search of a node for a rule with wildcards, which a single mask takes out of the
    key and a multi mask ignores.
  \<^item> \<open>Hot_Lookup\<close>: \<open>lookup\<close> of \<open>HOTSingleThreaded.hpp\<close> and \<open>search\<close> of \<open>hot_tree.cpp\<close>.  The tree in memory stands
    for one Patricia trie (\<open>tree_at\<close>); a lookup ends within as many steps as the tree has levels and finds
    the leaf of this trie.
  \<^item> \<open>Memory_Pool\<close>: the pool of \<open>MemoryPool.hpp\<close>, a free list for each size.
  \<^item> \<open>Hot_Tree\<close>: insertion into the tree with and without wildcards, splitting upwards along the stack of
    the search, \<open>upsert\<close>, and the insertion loop of the program.

  \<^bold>\<open>Correctness of the insertion into the tree.\<close>
  For rules without wildcards the program is a set of keys, whatever the allocator and the contents of new
  memory: inserting a key puts it into the set, reports whether it is new, keeps one node for each node of
  the tree and no other, and never fails except with \<open>bad_alloc\<close>.  The proof goes from the trie to the program:
  \<^item> \<open>Trie_Graft\<close>: a trie cut into tries, and what inserting a leaf or cutting a piece does to the whole.
  \<^item> \<open>Hot_Memory\<close>: the memory as a multiset of objects at different addresses besides an untouched rest
    (\<open>heap_is\<close>), with a law for making, deleting and changing a node.  \<open>returns rt P\<close> is a result that satisfies
    \<open>P\<close>, or \<open>bad_alloc\<close> of an allocator that refuses although fewer than \<open>2 ^ 40\<close> blocks are in use.
  \<^item> \<open>Hot_Shape\<close>: the tree of nodes as a value (\<open>htree\<close>), its well-formedness, and the path of a search as a
    context in which a subtree is replaced.
  \<^item> \<open>Hot_Integrate\<close>, \<open>Hot_Halves\<close>, \<open>Hot_Integrate_Law\<close>: \<open>integrateBiNodeIntoTree\<close>, by induction on the path: the two
    halves of a split node go into the parent, which may split in its turn.
  \<^item> \<open>Hot_Insert_Law\<close>, \<open>Hot_Insert_Node\<close>, \<open>Hot_Insert_Search\<close>, \<open>Hot_Insert_Tree\<close>: the cases of \<open>insertNewValueIntoNode\<close>, the
    stack of a search, and that insertion into the tree is \<open>insert_key\<close> of the one trie that it stands for.  The
    path has at most 63 nodes, as each tests a later bit, so the stack of 64 entries is not overrun.
  \<^item> \<open>Hot_Exact\<close>, \<open>Hot_Exact_Insert\<close>, \<open>Hot_Tree_Contract\<close>: tries of exact keys, the two branches that the highest bit
    selects, \<open>insertRange\<close> and the search after it.  Heights are 16-bit numbers and grow by at most one with each
    insertion, so the bound is fewer than 65536 rules; it keeps the number of nodes below \<open>NODE_LIMIT\<close>.

  \<^bold>\<open>The program over the tree.\<close>
  \<^item> \<open>Hot_Release\<close>: \<open>deleteSubtree\<close> and the destructor, which releases the tree of the branch used last
    and leaves the nodes of the other branch as they are.
  \<^item> \<open>Hot_Statistics\<close>: \<open>getStatistics\<close>, which \<open>Benchmark::run\<close> calls between the insertions and the lookups: the
    levels of the leaves in the tree and in the binary trie (\<open>collectEntryDepth\<close> recovers the depths of the
    entries of a node from its partial keys), the nodes of each type and their size.  On the tree of the
    branch used last the functions end without an error and count each value of the branch once.
  \<^item> \<open>Hot_Program\<close>: \<open>Benchmark::run\<close> with one thread, the count it prints, and its agreement with the linear
    program.  Without rules no branch is in use, and the statistics read a null pointer.
  \<^item> \<open>Hot_Iterator\<close>: \<open>HOTSingleThreadedIterator.hpp\<close> and \<open>iterateAll\<close>.  An iterator is the stack of positions of a path;
    the leaves to the right of the path are what it has still to visit, and a step takes the first of them.
    The values of a Patricia trie are in ascending order.

  \<^bold>\<open>Memory and other arguments of the model.\<close>
  Nodes of the height optimised trie are objects in a map from addresses.  A pointer to a child pointer is
  a \<open>slot\<close>, a root or an entry of a node.  What the program does not determine is the argument \<open>runtime\<close>: which
  address \<open>posix_memalign\<close> returns (or that it refuses), what new memory holds, and undefined intrinsics.
  The search of a node reads 32 lanes whatever the number of entries; the lanes after the entries are
  part of the node and arbitrary.  Assertions are left out, as in the release build that the project
  configures.  Loops over pointers are partial functions whose result \<open>None\<close> is a loop that does not end; on
  every tree they are shown to end (\<open>tree_at\<close> is inductive).

  \<^bold>\<open>Not modelled.\<close>
  Clock readings, printing (the results and the statistics) and debug output; reading the command line and
  the files (a file is the list of its lines, or the list of its numbers).  Removal from the tree and the merging of nodes,
  which no program calls, the bounds and scans on iterators, and the statistics of one named branch, whose
  calls are commented out.  The concurrent variant \<open>src/hot/rowex\<close>, the benchmark framework of \<open>src/idx\<close> and
  the vendored libraries \<open>src/tbb\<close> and \<open>src/boost-hana\<close> are outside the matcher.
\<close>

end
